(* ===== verification/StormPrelude.thy ===== *)
theory StormPrelude
  imports Main "HOL-Library.Word"
begin

unbundle bit_operations_syntax

text \<open>
  Shared material of the development: the error type the library's exceptions become, the
  result type and its sequencing operator, the machine-integer type names, and the facts on
  bits of words and on lists of bits that every component uses.
\<close>

section \<open>Results\<close>

text \<open>
  \<^verbatim>\<open>NetException.h\<close> defines \<^verbatim>\<open>NET_ENABLE_EXCEPTIONS\<close>, so \<^verbatim>\<open>NET_THROW\<close> and
  \<^verbatim>\<open>NET_THROW_OR\<close> are C++ \<^verbatim>\<open>throw\<close>. Each exception class the code throws is a constructor;
  \<open>Undefined\<close> stands for a step whose behaviour the C++ standard leaves undefined (a shift by
  the width of the type, an index outside a vector, a division by zero), so that a theorem that an
  operation returns \<open>Inr\<close> says also that it did nothing undefined.
\<close>

datatype net_error =
    OutOfRange        \<comment> \<open>\<^verbatim>\<open>std::out_of_range\<close>\<close>
  | RuntimeError      \<comment> \<open>\<^verbatim>\<open>std::runtime_error\<close>\<close>
  | LogicError        \<comment> \<open>\<^verbatim>\<open>std::logic_error\<close>\<close>
  | ThrowFalse        \<comment> \<open>\<^verbatim>\<open>throw false\<close>\<close>
  | BadFunctionCall   \<comment> \<open>\<^verbatim>\<open>std::bad_function_call\<close>\<close>
  | BadAlloc          \<comment> \<open>\<^verbatim>\<open>std::bad_alloc\<close>\<close>
  | AssertionFailed   \<comment> \<open>a failed \<^verbatim>\<open>assert\<close> of a debug build\<close>
  | Undefined         \<comment> \<open>undefined behaviour\<close>

type_synonym 'a result = "net_error + 'a"

definition ebind :: "'a result \<Rightarrow> ('a \<Rightarrow> 'b result) \<Rightarrow> 'b result" where
  "ebind m f = (case m of Inl e \<Rightarrow> Inl e | Inr x \<Rightarrow> f x)"

lemma ebind_Inr [simp]: "ebind (Inr x) f = f x"
  by (simp add: ebind_def)

lemma ebind_Inl [simp]: "ebind (Inl e) f = Inl e"
  by (simp add: ebind_def)

lemma ebind_eq_Inr: "ebind m f = Inr y \<longleftrightarrow> (\<exists>x. m = Inr x \<and> f x = Inr y)"
  by (cases m) auto

lemma ebind_eq_Inl: "ebind m f = Inl e \<longleftrightarrow> m = Inl e \<or> (\<exists>x. m = Inr x \<and> f x = Inl e)"
  by (cases m) auto

lemma ebind_cong [fundef_cong]:
  "m = m' \<Longrightarrow> (\<And>x. m' = Inr x \<Longrightarrow> f x = f' x) \<Longrightarrow> ebind m f = ebind m' f'"
  by (cases m') auto

section \<open>Machine integers and their bits\<close>

type_synonym u8 = "8 word"
type_synonym u16 = "16 word"
type_synonym u32 = "32 word"
type_synonym u64 = "64 word"

text \<open>Collections that the component theories extend.\<close>

named_theorems step_simps \<open>one-step behaviour of operations on valid states\<close>
named_theorems bits_simps \<open>lists of bits\<close>

text \<open>
  The abstract view of the wire is a list of bits, least significant bit of the first written
  value first. \<open>bits_of n v\<close> are the low \<open>n\<close> bits of \<open>v\<close>.
\<close>

definition bits_of :: "nat \<Rightarrow> u64 \<Rightarrow> bool list" where
  "bits_of n v = map (bit v) [0..<n]"

definition byte_bits :: "u8 \<Rightarrow> bool list" where
  "byte_bits b = map (bit b) [0..<8]"

definition word_of_bits :: "bool list \<Rightarrow> u64" where
  "word_of_bits bs = horner_sum of_bool 2 bs"

lemma length_bits_of [simp]: "length (bits_of n v) = n"
  by (simp add: bits_of_def)

lemma length_byte_bits [simp]: "length (byte_bits b) = 8"
  by (simp add: byte_bits_def)

lemma nth_bits_of [simp]: "i < n \<Longrightarrow> bits_of n v ! i = bit v i"
  by (simp add: bits_of_def)

lemma nth_byte_bits [simp]: "i < 8 \<Longrightarrow> byte_bits b ! i = bit b i"
  by (simp add: byte_bits_def)

lemma bits_of_0 [simp]: "bits_of 0 v = []"
  by (simp add: bits_of_def)

lemma bits_of_zero [simp]: "bits_of n 0 = replicate n False"
  by (rule nth_equalityI) auto

lemma bits_of_take_bit [simp]: "bits_of n (take_bit n v) = bits_of n v"
  by (rule nth_equalityI) (auto simp: bit_take_bit_iff)

lemma bits_of_split:
  "m \<le> n \<Longrightarrow> bits_of n v = bits_of m v @ bits_of (n - m) (drop_bit m v)"
  by (rule nth_equalityI) (auto simp: nth_append bit_drop_bit_eq)

lemma take_bits_of: "take k (bits_of n v) = bits_of (min k n) v"
  by (rule nth_equalityI) auto

lemma word_of_bits_bits_of: "word_of_bits (bits_of n v) = take_bit n v"
  by (rule bit_word_eqI) (auto simp: word_of_bits_def bit_horner_sum_bit_word_iff bit_take_bit_iff)

lemma bit_word_of_bits: "bit (word_of_bits bs) i \<longleftrightarrow> i < min 64 (length bs) \<and> bs ! i"
  by (simp add: word_of_bits_def bit_horner_sum_bit_word_iff)

lemma bits_of_word_of_bits: "length bs \<le> 64 \<Longrightarrow> bits_of (length bs) (word_of_bits bs) = bs"
  by (rule nth_equalityI) (auto simp: bit_word_of_bits)

lemma word_of_bits_append:
  "word_of_bits (xs @ ys) = word_of_bits xs OR push_bit (length xs) (word_of_bits ys)"
  by (rule bit_word_eqI)
    (auto simp: bit_word_of_bits bit_or_iff bit_push_bit_iff nth_append)

lemma take_bit_eq_self_u64:
  assumes "(v :: u64) < 2 ^ n"
  shows "take_bit n v = v"
proof (cases "n < 64")
  case True
  with assms have "uint v < 2 ^ n"
    by (simp add: word_2p_lem word_size)
  then have "take_bit n (uint v) = uint v"
    by (simp add: take_bit_int_eq_self)
  then show ?thesis
    by (metis take_bit_word_eq_self unsigned_take_bit_eq word_uint_eqI)
next
  case False
  then show ?thesis by (simp add: take_bit_word_eq_self)
qed

lemma bits_of_inj: "take_bit n v = v \<Longrightarrow> take_bit n v' = v' \<Longrightarrow> bits_of n v = bits_of n v' \<Longrightarrow> v = v'"
  by (metis word_of_bits_bits_of)

end
