(* ===== verification/BitUtil.thy ===== *)
theory BitUtil
  imports StormPrelude
begin

text \<open>
  \<^verbatim>\<open>NetBitUtil.h\<close>: the constexpr count of leading zeros, its overloads for the C++
  integer types, and \<^verbatim>\<open>GetRequiredBits\<close>, which fixes the width of every length, index
  and key on the wire. \<open>ctype\<close> names the integer types, so that a template parameter
  \<^verbatim>\<open>NumericType\<close> is an argument.
\<close>

section \<open>C++ integer types and conversions\<close>

datatype ctype = I8 | I16 | I32 | I64 | U8 | U16 | U32 | U64

fun ctype_bits :: "ctype \<Rightarrow> nat" where
  "ctype_bits I8 = 8" | "ctype_bits U8 = 8"
| "ctype_bits I16 = 16" | "ctype_bits U16 = 16"
| "ctype_bits I32 = 32" | "ctype_bits U32 = 32"
| "ctype_bits I64 = 64" | "ctype_bits U64 = 64"

fun ctype_signed :: "ctype \<Rightarrow> bool" where
  "ctype_signed I8 = True" | "ctype_signed I16 = True"
| "ctype_signed I32 = True" | "ctype_signed I64 = True"
| "ctype_signed _ = False"

text \<open>The value an integer has after conversion to a type, as every compiler defines it.\<close>

definition conv :: "ctype \<Rightarrow> int \<Rightarrow> int" where
  "conv t x = (if ctype_signed t then signed_take_bit (ctype_bits t - 1) x
     else take_bit (ctype_bits t) x)"

definition ctype_min :: "ctype \<Rightarrow> int" where
  "ctype_min t = (if ctype_signed t then - (2 ^ (ctype_bits t - 1)) else 0)"

definition ctype_max :: "ctype \<Rightarrow> int" where
  "ctype_max t = (if ctype_signed t then 2 ^ (ctype_bits t - 1) - 1 else 2 ^ ctype_bits t - 1)"

definition in_ctype :: "ctype \<Rightarrow> int \<Rightarrow> bool" where
  "in_ctype t x \<longleftrightarrow> ctype_min t \<le> x \<and> x \<le> ctype_max t"

lemma conv_id: "in_ctype t x \<Longrightarrow> conv t x = x"
  by (auto simp: conv_def in_ctype_def ctype_min_def ctype_max_def take_bit_int_eq_self_iff
      signed_take_bit_int_eq_self)

lemma conv_in_ctype: "in_ctype t (conv t x)"
  using signed_take_bit_int_greater_eq_minus_exp [of "ctype_bits t - 1" x]
    signed_take_bit_int_less_exp [of "ctype_bits t - 1" x]
    take_bit_nonnegative [of "ctype_bits t" x] take_bit_int_less_exp [of "ctype_bits t" x]
  by (auto simp: in_ctype_def conv_def ctype_min_def ctype_max_def)

section \<open>Counting leading zeros\<close>

text \<open>64 bit\<close>

definition Clz1_64 :: "u64 \<Rightarrow> nat" where
  "Clz1_64 x = (if x \<le> 0x7fffffffffffffff then 1 else 0)"

definition Clz2_64 :: "u64 \<Rightarrow> nat" where
  "Clz2_64 x = (if x \<le> 0x3fffffffffffffff then 2 + Clz1_64 (push_bit 2 x) else Clz1_64 x)"

definition Clz4_64 :: "u64 \<Rightarrow> nat" where
  "Clz4_64 x = (if x \<le> 0x0fffffffffffffff then 4 + Clz2_64 (push_bit 4 x) else Clz2_64 x)"

definition Clz8_64 :: "u64 \<Rightarrow> nat" where
  "Clz8_64 x = (if x \<le> 0x00ffffffffffffff then 8 + Clz4_64 (push_bit 8 x) else Clz4_64 x)"

definition Clz16_64 :: "u64 \<Rightarrow> nat" where
  "Clz16_64 x = (if x \<le> 0x0000ffffffffffff then 16 + Clz8_64 (push_bit 16 x) else Clz8_64 x)"

definition Clz32_64 :: "u64 \<Rightarrow> nat" where
  "Clz32_64 x = (if x \<le> 0x00000000ffffffff then 32 + Clz16_64 (push_bit 32 x) else Clz16_64 x)"

text \<open>32 bit\<close>

definition Clz1_32 :: "u32 \<Rightarrow> nat" where
  "Clz1_32 x = (if x \<le> 0x7fffffff then 1 else 0)"

definition Clz2_32 :: "u32 \<Rightarrow> nat" where
  "Clz2_32 x = (if x \<le> 0x3fffffff then 2 + Clz1_32 (push_bit 2 x) else Clz1_32 x)"

definition Clz4_32 :: "u32 \<Rightarrow> nat" where
  "Clz4_32 x = (if x \<le> 0x0fffffff then 4 + Clz2_32 (push_bit 4 x) else Clz2_32 x)"

definition Clz8_32 :: "u32 \<Rightarrow> nat" where
  "Clz8_32 x = (if x \<le> 0x00ffffff then 8 + Clz4_32 (push_bit 8 x) else Clz4_32 x)"

definition Clz16_32 :: "u32 \<Rightarrow> nat" where
  "Clz16_32 x = (if x \<le> 0x0000ffff then 16 + Clz8_32 (push_bit 16 x) else Clz8_32 x)"

text \<open>16 bit\<close>

definition Clz1_16 :: "u16 \<Rightarrow> nat" where
  "Clz1_16 x = (if x \<le> 0x7fff then 1 else 0)"

definition Clz2_16 :: "u16 \<Rightarrow> nat" where
  "Clz2_16 x = (if x \<le> 0x3fff then 2 + Clz1_16 (push_bit 2 x) else Clz1_16 x)"

definition Clz4_16 :: "u16 \<Rightarrow> nat" where
  "Clz4_16 x = (if x \<le> 0x0fff then 4 + Clz2_16 (push_bit 4 x) else Clz2_16 x)"

definition Clz8_16 :: "u16 \<Rightarrow> nat" where
  "Clz8_16 x = (if x \<le> 0x00ff then 8 + Clz4_16 (push_bit 8 x) else Clz4_16 x)"

text \<open>8 bit\<close>

definition Clz1_8 :: "u8 \<Rightarrow> nat" where
  "Clz1_8 x = (if x \<le> 0x7f then 1 else 0)"

definition Clz2_8 :: "u8 \<Rightarrow> nat" where
  "Clz2_8 x = (if x \<le> 0x3f then 2 + Clz1_8 (push_bit 2 x) else Clz1_8 x)"

definition Clz4_8 :: "u8 \<Rightarrow> nat" where
  "Clz4_8 x = (if x \<le> 0x0f then 4 + Clz2_8 (push_bit 4 x) else Clz2_8 x)"

section \<open>The overloads\<close>

text \<open>
  \<^verbatim>\<open>template <typename NumericType> CountLeadingZeros\<close> and its five specialisations. The
  types without one (\<open>I8\<close>, \<open>I16\<close>, \<open>I32\<close>) use the generic body, which counts in 32 bits.
\<close>

fun CountLeadingZeros :: "ctype \<Rightarrow> int \<Rightarrow> nat" where
  "CountLeadingZeros U64 v = Clz32_64 (word_of_int v)"
| "CountLeadingZeros I64 v = (if v < 0 then 0 else Clz32_64 (word_of_int v))"
| "CountLeadingZeros U32 v = Clz16_32 (word_of_int v)"
| "CountLeadingZeros U16 v = Clz8_16 (word_of_int v)"
| "CountLeadingZeros U8 v = Clz4_8 (word_of_int v)"
| "CountLeadingZeros _ v = (if v < 0 then 0 else Clz16_32 (word_of_int v))"

text \<open>
  \<^verbatim>\<open>sizeof(NumericType) * 8 - CountLeadingZeros(max_value)\<close> is computed in \<^verbatim>\<open>size_t\<close>
  and returned as \<^verbatim>\<open>unsigned\<close>: a negative difference wraps modulo \<open>2 ^ 32\<close>.
\<close>

definition GetRequiredBits :: "ctype \<Rightarrow> int \<Rightarrow> nat" where
  "GetRequiredBits t v =
     nat ((int (ctype_bits t) - int (CountLeadingZeros t v)) mod 2 ^ 32)"

text \<open>\<^verbatim>\<open>MinStorageRequired<MaxVal>::type\<close>: the smallest unsigned type that holds
  \<^verbatim>\<open>MaxVal\<close>.\<close>

definition min_store :: "int \<Rightarrow> ctype" where
  "min_store MaxVal =
     (if 32 < GetRequiredBits U64 MaxVal then U64
      else if 16 < GetRequiredBits U64 MaxVal then U32
      else if 8 < GetRequiredBits U64 MaxVal then U16 else U8)"

section \<open>Correctness\<close>

text \<open>\<open>leading w n c\<close>: shifting \<open>n\<close> left by \<open>c\<close> brings its top bit to position
  \<open>w - 1\<close>.\<close>

definition leading :: "nat \<Rightarrow> nat \<Rightarrow> nat \<Rightarrow> bool" where
  "leading w n c \<longleftrightarrow> 2 ^ (w - 1) \<le> n * 2 ^ c \<and> n * 2 ^ c < 2 ^ w"

lemma leading_shift: "leading w (n * 2 ^ k) c \<Longrightarrow> leading w n (k + c)"
  by (simp add: leading_def power_add mult.assoc)

lemma unat_push_small: "unat (x :: 'a :: len word) * 2 ^ k < 2 ^ LENGTH('a) \<Longrightarrow>
  unat (push_bit k x) = unat x * 2 ^ k"
  by (simp only: unsigned_push_bit_eq) (simp add: take_bit_nat_eq_self push_bit_eq_mult)

lemma Clz1_64_lz: "2 ^ 62 \<le> unat x \<Longrightarrow> leading 64 (unat x) (Clz1_64 x)"
  using unsigned_less [of x] by (auto simp: Clz1_64_def leading_def word_le_nat_alt)

lemma Clz2_64_lz: "2 ^ 60 \<le> unat x \<Longrightarrow> leading 64 (unat x) (Clz2_64 x)"
  using Clz1_64_lz [of x] Clz1_64_lz [of "push_bit 2 x"]
    leading_shift [of 64 "unat x" 2 "Clz1_64 (push_bit 2 x)"]
  by (auto simp: Clz2_64_def word_le_nat_alt unat_push_small)

lemma Clz4_64_lz: "2 ^ 56 \<le> unat x \<Longrightarrow> leading 64 (unat x) (Clz4_64 x)"
  using Clz2_64_lz [of x] Clz2_64_lz [of "push_bit 4 x"]
    leading_shift [of 64 "unat x" 4 "Clz2_64 (push_bit 4 x)"]
  by (auto simp: Clz4_64_def word_le_nat_alt unat_push_small)

lemma Clz8_64_lz: "2 ^ 48 \<le> unat x \<Longrightarrow> leading 64 (unat x) (Clz8_64 x)"
  using Clz4_64_lz [of x] Clz4_64_lz [of "push_bit 8 x"]
    leading_shift [of 64 "unat x" 8 "Clz4_64 (push_bit 8 x)"]
  by (auto simp: Clz8_64_def word_le_nat_alt unat_push_small)

lemma Clz16_64_lz: "2 ^ 32 \<le> unat x \<Longrightarrow> leading 64 (unat x) (Clz16_64 x)"
  using Clz8_64_lz [of x] Clz8_64_lz [of "push_bit 16 x"]
    leading_shift [of 64 "unat x" 16 "Clz8_64 (push_bit 16 x)"]
  by (auto simp: Clz16_64_def word_le_nat_alt unat_push_small)

lemma Clz32_64_lz: "2 ^ 0 \<le> unat x \<Longrightarrow> leading 64 (unat x) (Clz32_64 x)"
  using Clz16_64_lz [of x] Clz16_64_lz [of "push_bit 32 x"]
    leading_shift [of 64 "unat x" 32 "Clz16_64 (push_bit 32 x)"]
  by (auto simp: Clz32_64_def word_le_nat_alt unat_push_small)

lemma Clz1_32_lz: "2 ^ 30 \<le> unat x \<Longrightarrow> leading 32 (unat x) (Clz1_32 x)"
  using unsigned_less [of x] by (auto simp: Clz1_32_def leading_def word_le_nat_alt)

lemma Clz2_32_lz: "2 ^ 28 \<le> unat x \<Longrightarrow> leading 32 (unat x) (Clz2_32 x)"
  using Clz1_32_lz [of x] Clz1_32_lz [of "push_bit 2 x"]
    leading_shift [of 32 "unat x" 2 "Clz1_32 (push_bit 2 x)"]
  by (auto simp: Clz2_32_def word_le_nat_alt unat_push_small)

lemma Clz4_32_lz: "2 ^ 24 \<le> unat x \<Longrightarrow> leading 32 (unat x) (Clz4_32 x)"
  using Clz2_32_lz [of x] Clz2_32_lz [of "push_bit 4 x"]
    leading_shift [of 32 "unat x" 4 "Clz2_32 (push_bit 4 x)"]
  by (auto simp: Clz4_32_def word_le_nat_alt unat_push_small)

lemma Clz8_32_lz: "2 ^ 16 \<le> unat x \<Longrightarrow> leading 32 (unat x) (Clz8_32 x)"
  using Clz4_32_lz [of x] Clz4_32_lz [of "push_bit 8 x"]
    leading_shift [of 32 "unat x" 8 "Clz4_32 (push_bit 8 x)"]
  by (auto simp: Clz8_32_def word_le_nat_alt unat_push_small)

lemma Clz16_32_lz: "2 ^ 0 \<le> unat x \<Longrightarrow> leading 32 (unat x) (Clz16_32 x)"
  using Clz8_32_lz [of x] Clz8_32_lz [of "push_bit 16 x"]
    leading_shift [of 32 "unat x" 16 "Clz8_32 (push_bit 16 x)"]
  by (auto simp: Clz16_32_def word_le_nat_alt unat_push_small)

lemma Clz1_16_lz: "2 ^ 14 \<le> unat x \<Longrightarrow> leading 16 (unat x) (Clz1_16 x)"
  using unsigned_less [of x] by (auto simp: Clz1_16_def leading_def word_le_nat_alt)

lemma Clz2_16_lz: "2 ^ 12 \<le> unat x \<Longrightarrow> leading 16 (unat x) (Clz2_16 x)"
  using Clz1_16_lz [of x] Clz1_16_lz [of "push_bit 2 x"]
    leading_shift [of 16 "unat x" 2 "Clz1_16 (push_bit 2 x)"]
  by (auto simp: Clz2_16_def word_le_nat_alt unat_push_small)

lemma Clz4_16_lz: "2 ^ 8 \<le> unat x \<Longrightarrow> leading 16 (unat x) (Clz4_16 x)"
  using Clz2_16_lz [of x] Clz2_16_lz [of "push_bit 4 x"]
    leading_shift [of 16 "unat x" 4 "Clz2_16 (push_bit 4 x)"]
  by (auto simp: Clz4_16_def word_le_nat_alt unat_push_small)

lemma Clz8_16_lz: "2 ^ 0 \<le> unat x \<Longrightarrow> leading 16 (unat x) (Clz8_16 x)"
  using Clz4_16_lz [of x] Clz4_16_lz [of "push_bit 8 x"]
    leading_shift [of 16 "unat x" 8 "Clz4_16 (push_bit 8 x)"]
  by (auto simp: Clz8_16_def word_le_nat_alt unat_push_small)

lemma Clz1_8_lz: "2 ^ 6 \<le> unat x \<Longrightarrow> leading 8 (unat x) (Clz1_8 x)"
  using unsigned_less [of x] by (auto simp: Clz1_8_def leading_def word_le_nat_alt)

lemma Clz2_8_lz: "2 ^ 4 \<le> unat x \<Longrightarrow> leading 8 (unat x) (Clz2_8 x)"
  using Clz1_8_lz [of x] Clz1_8_lz [of "push_bit 2 x"]
    leading_shift [of 8 "unat x" 2 "Clz1_8 (push_bit 2 x)"]
  by (auto simp: Clz2_8_def word_le_nat_alt unat_push_small)

lemma Clz4_8_lz: "2 ^ 0 \<le> unat x \<Longrightarrow> leading 8 (unat x) (Clz4_8 x)"
  using Clz2_8_lz [of x] Clz2_8_lz [of "push_bit 4 x"]
    leading_shift [of 8 "unat x" 4 "Clz2_8 (push_bit 4 x)"]
  by (auto simp: Clz4_8_def word_le_nat_alt unat_push_small)

lemma Clz_zero: "Clz32_64 0 = 63" "Clz16_32 0 = 31" "Clz8_16 0 = 15" "Clz4_8 0 = 7"
  by (simp_all add: Clz32_64_def Clz16_64_def Clz8_64_def Clz4_64_def Clz2_64_def Clz1_64_def
      Clz16_32_def Clz8_32_def Clz4_32_def Clz2_32_def Clz1_32_def
      Clz8_16_def Clz4_16_def Clz2_16_def Clz1_16_def Clz4_8_def Clz2_8_def Clz1_8_def)

text \<open>
  The types for which the count is taken in the type's own width: all but the narrow signed
  types, which fall into the generic 32-bit body.
\<close>

definition wide :: "ctype \<Rightarrow> bool" where
  "wide t \<longleftrightarrow> t \<noteq> I8 \<and> t \<noteq> I16"

lemma unat_word_of_int_small:
  "0 \<le> v \<Longrightarrow> v < 2 ^ LENGTH('n) \<Longrightarrow> unat (word_of_int v :: 'n::len word) = nat v"
  by (simp add: unsigned_of_int take_bit_int_eq_self)

lemma CountLeadingZeros_leading:
  assumes "wide t" "0 < v" "in_ctype t v"
  shows "leading (ctype_bits t) (nat v) (CountLeadingZeros t v)"
proof -
  have a: "v < 2 ^ ctype_bits t"
    using assms(3) by (cases t) (auto simp: in_ctype_def ctype_max_def)
  show ?thesis
    using assms(1,2) a Clz32_64_lz [of "word_of_int v"] Clz16_32_lz [of "word_of_int v"]
      Clz8_16_lz [of "word_of_int v"] Clz4_8_lz [of "word_of_int v"]
    by (cases t) (simp_all add: wide_def unat_word_of_int_small nat_le_eq_zle Suc_le_eq)
qed

lemma leading_unique:
  assumes "leading w n c" "0 < w"
  shows "c < w" "2 ^ (w - Suc c) \<le> n" "n < 2 ^ (w - c)"
proof -
  have n: "1 \<le> n" using assms by (cases n) (auto simp: leading_def)
  then have "2 ^ c \<le> n * 2 ^ c" by simp
  also have "\<dots> < 2 ^ w" using assms by (simp add: leading_def)
  finally show c: "c < w" by simp
  have "(2::nat) ^ (w - 1) = 2 ^ (w - Suc c) * 2 ^ c"
    using c by (simp flip: power_add)
  then show "2 ^ (w - Suc c) \<le> n" using assms by (simp add: leading_def)
  have "(2::nat) ^ w = 2 ^ (w - c) * 2 ^ c"
    using c by (simp flip: power_add)
  then show "n < 2 ^ (w - c)" using assms by (simp add: leading_def)
qed

lemma CountLeadingZeros_zero: "wide t \<Longrightarrow> CountLeadingZeros t 0 = ctype_bits t - 1"
  by (cases t) (auto simp: wide_def Clz_zero)

lemma GetRequiredBits_eq:
  assumes "wide t" "0 \<le> v" "in_ctype t v"
  shows "GetRequiredBits t v = ctype_bits t - CountLeadingZeros t v"
    and "CountLeadingZeros t v < ctype_bits t"
proof -
  have p: "0 < ctype_bits t" and q: "ctype_bits t \<le> 64" by (cases t; simp)+
  show c: "CountLeadingZeros t v < ctype_bits t"
    using assms p leading_unique(1) [OF CountLeadingZeros_leading [of t v]]
      CountLeadingZeros_zero [of t] by (cases "v = 0") auto
  then show "GetRequiredBits t v = ctype_bits t - CountLeadingZeros t v"
    using q by (simp add: GetRequiredBits_def nat_eq_iff)
qed

lemma GetRequiredBits_lower:
  assumes "wide t" "0 < v" "in_ctype t v"
  shows "2 ^ (GetRequiredBits t v - 1) \<le> v" "v < 2 ^ GetRequiredBits t v"
proof -
  have p: "0 < ctype_bits t" by (cases t; simp)
  note l = leading_unique [OF CountLeadingZeros_leading [OF assms] p]
  note e = GetRequiredBits_eq [OF assms(1) less_imp_le [OF assms(2)] assms(3)]
  show "2 ^ (GetRequiredBits t v - 1) \<le> v" "v < 2 ^ GetRequiredBits t v"
    using l e assms(2) by (simp_all add: le_nat_iff nat_less_iff)
qed

lemma GetRequiredBits_le:
  assumes "wide t" "0 \<le> v" "in_ctype t v" "v < 2 ^ k" "1 \<le> k"
  shows "GetRequiredBits t v \<le> k"
proof (cases "v = 0")
  case True
  have "1 \<le> ctype_bits t" by (cases t; simp)
  with True assms show ?thesis by (simp add: GetRequiredBits_eq CountLeadingZeros_zero)
next
  case False
  then have v: "0 < v" using assms(2) by simp
  show ?thesis
  proof (rule ccontr)
    assume "\<not> GetRequiredBits t v \<le> k"
    then have "(2::int) ^ k \<le> 2 ^ (GetRequiredBits t v - 1)" by simp
    then have "2 ^ k \<le> v"
      using GetRequiredBits_lower(1) [OF assms(1) v assms(3)] by (rule order_trans)
    with assms(4) show False by simp
  qed
qed

text \<open>\<^verbatim>\<open>GetRequiredBits\<close> returns the least positive number of bits in which
  the value fits, for every C++ integer type whose leading zeros are counted in its own width;
  in particular one bit for \<open>0\<close>.\<close>

theorem GetRequiredBits_least:
  assumes "wide t" "0 \<le> v" "in_ctype t v"
  shows "v < 2 ^ GetRequiredBits t v \<and> 1 \<le> GetRequiredBits t v
    \<and> GetRequiredBits t v \<le> ctype_bits t
    \<and> (\<forall>k. v < 2 ^ k \<longrightarrow> 1 \<le> k \<longrightarrow> GetRequiredBits t v \<le> k)"
proof (cases "v = 0")
  case True
  have "1 \<le> ctype_bits t" by (cases t; simp)
  with True assms show ?thesis
    by (simp add: GetRequiredBits_eq CountLeadingZeros_zero)
next
  case False
  then have v: "0 < v" using assms(2) by simp
  note l = GetRequiredBits_lower [OF assms(1) v assms(3)]
  have "GetRequiredBits t v \<le> k" if "v < 2 ^ k" "1 \<le> k" for k
    using GetRequiredBits_le [OF assms that] .
  moreover have "1 \<le> GetRequiredBits t v" "GetRequiredBits t v \<le> ctype_bits t"
    using GetRequiredBits_eq [OF assms] by simp_all
  ultimately show ?thesis using l by blast
qed

theorem GetRequiredBits_least_witness:
  "(300::int) < 2 ^ GetRequiredBits U64 300 \<and> GetRequiredBits U64 300 \<le> 9"
  using GetRequiredBits_least [of U64 300]
  by (simp add: wide_def in_ctype_def ctype_min_def ctype_max_def)

text \<open>The same facts in the shape the component proofs use.\<close>

lemma GetRequiredBits_fits: "wide t \<Longrightarrow> 0 \<le> v \<Longrightarrow> in_ctype t v \<Longrightarrow> v < 2 ^ GetRequiredBits t v"
  using GetRequiredBits_lower(2) [of t v] by (cases "v = 0") auto

lemma GetRequiredBits_range:
  assumes "wide t" "0 \<le> v" "in_ctype t v"
  shows "1 \<le> GetRequiredBits t v" "GetRequiredBits t v \<le> ctype_bits t"
  using GetRequiredBits_eq [OF assms] by simp_all

lemma GetRequiredBits_unique:
  assumes "wide t" "0 \<le> v" "in_ctype t v" "1 \<le> k" "v < 2 ^ k" "k = 1 \<or> 2 ^ (k - 1) \<le> v"
  shows "GetRequiredBits t v = k"
proof (rule antisym)
  show "GetRequiredBits t v \<le> k"
  proof (rule ccontr)
    assume n: "\<not> GetRequiredBits t v \<le> k"
    have "0 < v"
      using n assms by (cases "v = 0") (auto simp: GetRequiredBits_eq CountLeadingZeros_zero)
    then have "2 ^ (GetRequiredBits t v - 1) \<le> v"
      using GetRequiredBits_lower(1) [of t v] assms by blast
    moreover have "(2::int) ^ k \<le> 2 ^ (GetRequiredBits t v - 1)" using n by simp
    ultimately have "2 ^ k \<le> v" by (rule order_trans [rotated])
    with assms(5) show False by simp
  qed
  show "k \<le> GetRequiredBits t v"
  proof (rule ccontr)
    assume n: "\<not> k \<le> GetRequiredBits t v"
    then have "k \<noteq> 1" using GetRequiredBits_range(1) [OF assms(1-3)] by auto
    then have "(2::int) ^ (k - 1) \<le> v" using assms(6) by simp
    moreover have "(2::int) ^ GetRequiredBits t v \<le> 2 ^ (k - 1)" using n by simp
    ultimately have "2 ^ GetRequiredBits t v \<le> v" by (rule order_trans [rotated])
    with GetRequiredBits_fits [OF assms(1-3)] show False by simp
  qed
qed

lemma Clz16_32_small:
  assumes "0 \<le> v" "v < 2 ^ b" "1 \<le> b" "b < 32"
  shows "32 - b \<le> Clz16_32 (word_of_int v)" "Clz16_32 (word_of_int v) \<le> 31"
proof -
  have "32 - b \<le> Clz16_32 (word_of_int v) \<and> Clz16_32 (word_of_int v) \<le> 31"
  proof (cases "v = 0")
    case True
    then show ?thesis using assms by (simp add: Clz_zero)
  next
    case False
    have "(2::int) ^ b \<le> 2 ^ 31" using assms(4) by (intro power_increasing) auto
    then have l: "leading 32 (nat v) (Clz16_32 (word_of_int v))"
      using False assms Clz16_32_lz [of "word_of_int v"]
      by (simp add: unat_word_of_int_small Suc_le_eq)
    note u = leading_unique [OF l]
    have "(2::nat) ^ (32 - Suc (Clz16_32 (word_of_int v))) \<le> nat v" using u(2) by simp
    also have "nat v < 2 ^ b" using assms by (simp add: nat_less_iff)
    finally show ?thesis using u(1) by simp
  qed
  then show "32 - b \<le> Clz16_32 (word_of_int v)" "Clz16_32 (word_of_int v) \<le> 31"
    by simp_all
qed

text \<open>For the narrow signed types the subtraction uses the width of the type but the
  count that of 32 bits, so no non-negative value gets a usable width: the \<^verbatim>\<open>unsigned\<close>
  result is above \<open>2 ^ 31\<close> and reads as a negative \<^verbatim>\<open>int\<close>.\<close>

theorem GetRequiredBits_narrow:
  assumes "t \<in> {I8, I16}" "0 \<le> v" "in_ctype t v"
  shows "2 ^ 31 < GetRequiredBits t v \<and> conv I32 (int (GetRequiredBits t v)) < 0"
proof -
  define d where "d = int (ctype_bits t) - int (CountLeadingZeros t v)"
  have d: "- 31 \<le> d \<and> d \<le> - 1"
    using assms Clz16_32_small [of v 7] Clz16_32_small [of v 15]
    by (auto simp: d_def in_ctype_def ctype_max_def)
  then have e: "d mod 2 ^ 32 = d + 2 ^ 32"
    using mod_pos_pos_trivial [of "d + 2 ^ 32" "2 ^ 32"] by simp
  have g: "int (GetRequiredBits t v) = d + 2 ^ 32"
    using d e by (simp add: GetRequiredBits_def flip: d_def)
  have "take_bit (Suc 31) (d + 2 ^ 32) = take_bit (Suc 31) d"
    by (simp add: take_bit_eq_mod)
  then have "signed_take_bit 31 (d + 2 ^ 32) = signed_take_bit 31 d"
    by (simp only: signed_take_bit_eq_iff_take_bit_eq)
  also have "\<dots> = d"
    using d by (intro signed_take_bit_int_eq_self) simp_all
  finally have "conv I32 (d + 2 ^ 32) = d"
    by (simp add: conv_def)
  with g d show ?thesis by simp
qed

theorem GetRequiredBits_narrow_witness:
  "2 ^ 31 < GetRequiredBits I8 100"
  using GetRequiredBits_narrow [of I8 100]
  by (simp add: in_ctype_def ctype_min_def ctype_max_def)

text \<open>\<^verbatim>\<open>min_store_t<MaxVal>\<close> is an unsigned type that holds \<^verbatim>\<open>MaxVal\<close>, and no
  narrower unsigned type does.\<close>

theorem min_store_holds:
  assumes "in_ctype U64 MaxVal"
  shows "in_ctype (min_store MaxVal) MaxVal \<and> \<not> ctype_signed (min_store MaxVal)
    \<and> (\<forall>t. \<not> ctype_signed t \<longrightarrow> in_ctype t MaxVal \<longrightarrow> ctype_bits (min_store MaxVal) \<le> ctype_bits t)"
proof -
  have v: "0 \<le> MaxVal" using assms by (simp add: in_ctype_def ctype_min_def)
  have w: "wide U64" by (simp add: wide_def)
  note f = GetRequiredBits_fits [OF w v assms]
  have lo: "2 ^ k \<le> MaxVal" if "k < GetRequiredBits U64 MaxVal" "1 \<le> k" for k
    using GetRequiredBits_least [OF w v assms] that by (meson leD not_le)
  have hi: "MaxVal < 2 ^ k" if "GetRequiredBits U64 MaxVal \<le> k" for k
    using f power_increasing [OF that, of "2::int"] by linarith
  show ?thesis
    using assms v lo [of 32] lo [of 16] lo [of 8] hi [of 32] hi [of 16] hi [of 8]
    by (auto simp: min_store_def in_ctype_def ctype_min_def ctype_max_def not_less
        elim!: ctype_signed.elims)
qed

theorem min_store_holds_witness:
  "in_ctype (min_store 70000) 70000 \<and> \<not> ctype_signed (min_store 70000)"
proof -
  have "in_ctype U64 70000" by (simp add: in_ctype_def ctype_min_def ctype_max_def)
  from min_store_holds [OF this] show ?thesis by blast
qed

end
