(* ===== verification/BitWriter.thy ===== *)
theory BitWriter
  imports BitUtil
begin

text \<open>
  \<^verbatim>\<open>NetBitWriter.h\<close>, \<^verbatim>\<open>NetBitWriter.cpp\<close>, \<^verbatim>\<open>NetBitWriterVector.h\<close> and
  \<^verbatim>\<open>NetBitWriterVector.cpp\<close>: the bit-packing writer over a byte vector, and the cursors
  that \<^verbatim>\<open>Reserve\<close> hands out for back-patching a length or a flag. \<open>dbg\<close> is the
  \<^verbatim>\<open>_DEBUG\<close> build switch: with it, a value that does not fit throws.

  The abstract state of a writer is the list of bits written so far, \<open>wbits\<close>; the lemmas
  show that each operation is an append, an overwrite or a truncation of that list.
\<close>

section \<open>State\<close>

text \<open>
  \<open>wBit\<close> counts the used bits of the last byte (8 on an empty buffer). \<^verbatim>\<open>m_TotalBits\<close> is
  a C++ \<^verbatim>\<open>int\<close>; the model does not bound it (a message of \<open>2 ^ 31\<close> bits).
\<close>

record NetBitWriterVector =
  wBuffer :: "u8 list"
  wBit :: nat
  wTotalBits :: int

text \<open>
  \<^verbatim>\<open>NetBitWriterCursor\<close>, without its pointers to the one writer it was made by. \<^verbatim>\<open>m_Byte\<close> and
  \<^verbatim>\<open>m_Size\<close> are \<^verbatim>\<open>size_t\<close>: on an empty buffer \<^verbatim>\<open>m_Buffer.size() - 1\<close> wraps to the largest
  \<^verbatim>\<open>size_t\<close>, which the model writes as \<open>-1\<close>; \<^verbatim>\<open>m_Byte++\<close> and \<^verbatim>\<open>m_Byte + 1\<close> bring it back to
  \<open>0\<close> as the unsigned addition does.
\<close>

record NetBitWriterCursor =
  cByte :: int
  cBit :: nat
  cSize :: int
  cWrote :: bool
  cTotalBits :: int

definition NetBitWriterVector_init :: NetBitWriterVector where
  "NetBitWriterVector_init = \<lparr>wBuffer = [], wBit = 8, wTotalBits = 0\<rparr>"

text \<open>\<^verbatim>\<open>explicit NetBitWriterVector(int reserve_bytes)\<close>: the reservation is capacity only; a
  negative one asks \<^verbatim>\<open>reserve\<close> for more than \<^verbatim>\<open>max_size()\<close>, a \<^verbatim>\<open>std::length_error\<close> (a
  \<^verbatim>\<open>logic_error\<close>).\<close>

definition NetBitWriterVector_reserve :: "int \<Rightarrow> NetBitWriterVector result" where
  "NetBitWriterVector_reserve reserve_bytes =
     (if reserve_bytes < 0 then Inl LogicError else Inr NetBitWriterVector_init)"

section \<open>Operations\<close>

text \<open>The \<^verbatim>\<open>_DEBUG\<close> check of both \<^verbatim>\<open>WriteBits\<close> bodies.\<close>

definition value_too_large :: "bool \<Rightarrow> u64 \<Rightarrow> int \<Rightarrow> bool" where
  "value_too_large dbg val num_bits \<longleftrightarrow> dbg \<and> num_bits < 64 \<and> push_bit (nat num_bits) 1 \<le> val"

text \<open>\<^verbatim>\<open>m_Buffer.back()\<close> on an empty vector is undefined.\<close>

function WriteBitsInternal ::
    "bool \<Rightarrow> u64 \<Rightarrow> int \<Rightarrow> NetBitWriterVector \<Rightarrow> NetBitWriterVector result" where
  "WriteBitsInternal dbg val num_bits w =
     (if num_bits \<le> 0 then Inr w
      else if value_too_large dbg val num_bits then Inl OutOfRange
      else
        let free_bits = 8 - wBit w in
        if free_bits = 0 then
          WriteBitsInternal dbg (drop_bit 8 val) (num_bits - 8)
            (w\<lparr>wBuffer := wBuffer w @ [ucast val], wBit := nat (min 8 num_bits)\<rparr>)
        else if wBuffer w = [] then Inl Undefined
        else
          let free_bit_mask = push_bit free_bits 1 - 1;
              used_bit_mask = push_bit (wBit w) 1 - 1 :: u64;
              masked_bits = val AND free_bit_mask;
              back = (last (wBuffer w) AND ucast used_bit_mask)
                       OR ucast (push_bit (wBit w) masked_bits)
          in WriteBitsInternal dbg (drop_bit free_bits val)
               (num_bits - min num_bits (int free_bits))
               (w\<lparr>wBuffer := butlast (wBuffer w) @ [back],
                  wBit := nat (min 8 (int (wBit w) + num_bits))\<rparr>))"
  by pat_completeness auto
termination
  by (relation "measure (\<lambda>(dbg, val, num_bits, w). nat num_bits)") auto

definition WriteBits ::
    "bool \<Rightarrow> u64 \<Rightarrow> int \<Rightarrow> NetBitWriterVector \<Rightarrow> NetBitWriterVector result" where
  "WriteBits dbg val num_bits w =
     WriteBitsInternal dbg val num_bits (w\<lparr>wTotalBits := wTotalBits w + num_bits\<rparr>)"

text \<open>
  \<^verbatim>\<open>WriteSBits\<close>: the range check and the mask are in the \<^verbatim>\<open>_DEBUG\<close> build only. The mask is
  \<^verbatim>\<open>(1ULL << num_bits) - 1\<close>, undefined from 64 bits on and for a negative count.
\<close>

definition WriteSBits ::
    "bool \<Rightarrow> u64 \<Rightarrow> int \<Rightarrow> NetBitWriterVector \<Rightarrow> NetBitWriterVector result" where
  "WriteSBits dbg val num_bits w =
     (if dbg then
        (if num_bits < 0 \<or> 64 \<le> num_bits then Inl Undefined
         else
           let mask = push_bit (nat num_bits) 1 - 1 :: u64;
               min_value = (0xFFFFFFFFFFFFFFFF :: u64) XOR mask;
               max_value = NOT min_value
           in if sint val < sint min_value \<or> sint max_value < sint val then Inl OutOfRange
              else WriteBits dbg (val AND mask) num_bits w)
      else WriteBits dbg val num_bits w)"

text \<open>
  Writing through a cursor. \<^verbatim>\<open>(1ULL << num_bits) - 1\<close> is undefined from 64 bits on; an index
  outside the vector is undefined.
\<close>

function CursorWriteBits ::
    "bool \<Rightarrow> u64 \<Rightarrow> int \<Rightarrow> NetBitWriterCursor \<Rightarrow> NetBitWriterVector
       \<Rightarrow> (NetBitWriterCursor \<times> NetBitWriterVector) result" where
  "CursorWriteBits dbg val num_bits c w =
     (if num_bits \<le> 0 then Inr (c, w)
      else if value_too_large dbg val num_bits then Inl OutOfRange
      else if cSize c < num_bits then Inl OutOfRange
      else if 64 \<le> num_bits then Inl Undefined
      else
        let free_bits = 8 - cBit c;
            write_bit_mask = ucast (push_bit (nat num_bits) 1 - 1 :: u64) :: u8
        in
        if free_bits = 0 then
          let target_bits = write_bit_mask AND ucast val;
              save_bit_mask = NOT write_bit_mask;
              byte = cByte c + 1;
              new_bit = nat (min 8 num_bits)
          in if byte < 0 \<or> int (length (wBuffer w)) \<le> byte then Inl Undefined
             else CursorWriteBits dbg (drop_bit 8 val) (num_bits - 8)
                    (c\<lparr>cWrote := True, cByte := byte,
                       cSize := cSize c - (int new_bit - int (cBit c)), cBit := new_bit\<rparr>)
                    (w\<lparr>wBuffer := (wBuffer w)[nat byte :=
                       (wBuffer w ! nat byte AND save_bit_mask) OR target_bits]\<rparr>)
        else
          let target_bit_mask = push_bit (cBit c) write_bit_mask;
              target_bits = push_bit (cBit c) (write_bit_mask AND ucast val);
              save_bit_mask = NOT target_bit_mask;
              byte = cByte c;
              new_bit = nat (min 8 (int (cBit c) + num_bits))
          in if byte < 0 \<or> int (length (wBuffer w)) \<le> byte then Inl Undefined
             else CursorWriteBits dbg (drop_bit free_bits val)
                    (num_bits - min num_bits (int free_bits))
                    (c\<lparr>cWrote := True,
                       cSize := cSize c - (int new_bit - int (cBit c)), cBit := new_bit\<rparr>)
                    (w\<lparr>wBuffer := (wBuffer w)[nat byte :=
                       (wBuffer w ! nat byte AND save_bit_mask) OR target_bits]\<rparr>))"
  by pat_completeness auto
termination
  by (relation "measure (\<lambda>(dbg, val, num_bits, c, w). nat num_bits)") auto

definition CursorWriteSBits ::
    "bool \<Rightarrow> u64 \<Rightarrow> int \<Rightarrow> NetBitWriterCursor \<Rightarrow> NetBitWriterVector
       \<Rightarrow> (NetBitWriterCursor \<times> NetBitWriterVector) result" where
  "CursorWriteSBits dbg val num_bits c w =
     (if dbg then
        (if num_bits < 0 \<or> 31 \<le> num_bits then Inl Undefined
         else
           let mask = push_bit (nat num_bits) 1 - 1 :: u64;
               min_value = (0xFFFFFFFFFFFFFFFF :: u64) XOR mask;
               max_value = NOT min_value
           in if sint val < sint min_value \<or> sint max_value < sint val then Inl OutOfRange
              else CursorWriteBits dbg (val AND mask) num_bits c w)
      else CursorWriteBits dbg val num_bits c w)"

definition Reserve ::
    "bool \<Rightarrow> int \<Rightarrow> NetBitWriterVector \<Rightarrow> (NetBitWriterCursor \<times> NetBitWriterVector) result" where
  "Reserve dbg num_bits w =
     (let cursor = \<lparr>cByte = int (length (wBuffer w)) - 1, cBit = wBit w, cSize = num_bits,
                    cWrote = False, cTotalBits = wTotalBits w\<rparr>
      in ebind (WriteBits dbg 0 num_bits w) (\<lambda>w'. Inr (cursor, w')))"

text \<open>\<^verbatim>\<open>resize\<close> pads with zero bytes when it grows.\<close>

definition vector_resize :: "'a \<Rightarrow> nat \<Rightarrow> 'a list \<Rightarrow> 'a list" where
  "vector_resize fill n xs = take n xs @ replicate (n - length xs) fill"

definition RollBack :: "NetBitWriterCursor \<Rightarrow> NetBitWriterVector \<Rightarrow> NetBitWriterVector result" where
  "RollBack c w =
     (if cWrote c then Inl RuntimeError
      else Inr (w\<lparr>wBuffer := vector_resize 0 (nat (cByte c + 1)) (wBuffer w),
                  wBit := cBit c, wTotalBits := cTotalBits c\<rparr>))"

definition Reset :: "NetBitWriterVector \<Rightarrow> NetBitWriterVector" where
  "Reset w = w\<lparr>wBuffer := [], wBit := 8, wTotalBits := 0\<rparr>"

text \<open>
  \<^verbatim>\<open>NetBitWriter::WriteBuffer\<close>: eight bytes at a time as a little-endian \<^verbatim>\<open>uint64_t\<close>, then the
  rest byte by byte; \<^verbatim>\<open>NetBitWriterVector::WriteBuffer\<close> copies a long buffer when the writer is
  at a byte boundary.
\<close>

definition le64 :: "u8 list \<Rightarrow> u64" where
  "le64 bs = word_of_bits (concat (map byte_bits bs))"

fun WriteBytes :: "bool \<Rightarrow> u8 list \<Rightarrow> NetBitWriterVector \<Rightarrow> NetBitWriterVector result" where
  "WriteBytes dbg [] w = Inr w"
| "WriteBytes dbg (b # bs) w = ebind (WriteBits dbg (ucast b) 8 w) (WriteBytes dbg bs)"

function NetBitWriter_WriteBuffer ::
    "bool \<Rightarrow> u8 list \<Rightarrow> NetBitWriterVector \<Rightarrow> NetBitWriterVector result" where
  "NetBitWriter_WriteBuffer dbg data w =
     (if 8 \<le> length data
      then ebind (WriteBits dbg (le64 (take 8 data)) 64 w)
             (NetBitWriter_WriteBuffer dbg (drop 8 data))
      else WriteBytes dbg data w)"
  by pat_completeness auto
termination
  by (relation "measure (\<lambda>(dbg, data, w). length data)") auto

definition WriteBuffer ::
    "bool \<Rightarrow> u8 list \<Rightarrow> NetBitWriterVector \<Rightarrow> NetBitWriterVector result" where
  "WriteBuffer dbg data w =
     (if wBit w = 8 \<and> 64 \<le> length data then Inr (w\<lparr>wBuffer := wBuffer w @ data\<rparr>)
      else NetBitWriter_WriteBuffer dbg data w)"

declare WriteBitsInternal.simps [simp del] CursorWriteBits.simps [simp del]
  NetBitWriter_WriteBuffer.simps [simp del]

section \<open>The bits written\<close>

definition buffer_bits :: "u8 list \<Rightarrow> bool list" where
  "buffer_bits bs = concat (map byte_bits bs)"

text \<open>The valid states: a byte is partly used only if there is one.\<close>

definition winv :: "NetBitWriterVector \<Rightarrow> bool" where
  "winv w \<longleftrightarrow> 0 < wBit w \<and> wBit w \<le> 8 \<and> (wBuffer w = [] \<longrightarrow> wBit w = 8)"

text \<open>The number of bits written, and the bits themselves: the bits of the last byte above
  \<open>wBit\<close> are not part of the contents.\<close>

definition wlen :: "NetBitWriterVector \<Rightarrow> nat" where
  "wlen w = 8 * length (wBuffer w) + wBit w - 8"

definition wbits :: "NetBitWriterVector \<Rightarrow> bool list" where
  "wbits w = take (wlen w) (buffer_bits (wBuffer w))"

lemma buffer_bits_simps [simp]:
  "buffer_bits [] = []" "buffer_bits (b # bs) = byte_bits b @ buffer_bits bs"
  "buffer_bits (bs @ cs) = buffer_bits bs @ buffer_bits cs"
  by (simp_all add: buffer_bits_def)

lemma length_buffer_bits [simp]: "length (buffer_bits bs) = 8 * length bs"
  by (induction bs) auto

lemma length_wbits: "winv w \<Longrightarrow> length (wbits w) = wlen w"
  by (cases "wBuffer w = []") (auto simp: wbits_def wlen_def winv_def)

lemma wbits_init [simp]: "wbits NetBitWriterVector_init = []" "winv NetBitWriterVector_init"
  by (simp_all add: wbits_def winv_def NetBitWriterVector_init_def wlen_def)

lemma wbits_total [simp]: "wbits (w\<lparr>wTotalBits := t\<rparr>) = wbits w"
  by (simp add: wbits_def wlen_def)

lemma winv_total [simp]: "winv (w\<lparr>wTotalBits := t\<rparr>) = winv w"
  by (simp add: winv_def)

lemma byte_split:
  assumes "0 < b" "b \<le> 8" "bs \<noteq> []"
  shows "take (8 * length bs + b - 8) (buffer_bits bs)
    = buffer_bits (butlast bs) @ take b (byte_bits (last bs))"
proof -
  have e: "bs = butlast bs @ [last bs]" using assms(3) by simp
  have l: "8 * length bs + b - 8 = length (buffer_bits (butlast bs)) + b"
    using assms by (cases bs rule: rev_cases) auto
  show ?thesis
    by (subst (2) e) (simp add: l)
qed

lemma wbits_last:
  "winv w \<Longrightarrow> wBuffer w \<noteq> [] \<Longrightarrow>
     wbits w = buffer_bits (butlast (wBuffer w)) @ take (wBit w) (byte_bits (last (wBuffer w)))"
  by (simp add: wbits_def wlen_def byte_split winv_def)

lemma wbits_full: "winv w \<Longrightarrow> wBit w = 8 \<Longrightarrow> wbits w = buffer_bits (wBuffer w)"
  by (simp add: wbits_def wlen_def)

text \<open>Appending part of a fresh byte, and filling the free bits of the last byte.\<close>

lemma write_fresh_byte:
  assumes "winv w" "wBit w = 8" "0 < k" "k \<le> 8"
  shows "wbits (w\<lparr>wBuffer := wBuffer w @ [ucast val], wBit := k\<rparr>) = wbits w @ bits_of k val"
    and "winv (w\<lparr>wBuffer := wBuffer w @ [ucast val], wBit := k\<rparr>)"
proof -
  have b: "take k (byte_bits (ucast val)) = bits_of k val"
    using assms by (intro nth_equalityI) (auto simp: bit_ucast_iff)
  show i: "winv (w\<lparr>wBuffer := wBuffer w @ [ucast val], wBit := k\<rparr>)"
    using assms by (simp add: winv_def)
  show "wbits (w\<lparr>wBuffer := wBuffer w @ [ucast val], wBit := k\<rparr>) = wbits w @ bits_of k val"
    using wbits_last [OF i] b assms by (simp add: wbits_full)
qed

lemma write_free_bits:
  fixes val :: u64
  assumes "winv w" "wBit w < 8" "0 < n"
  defines "back \<equiv> (last (wBuffer w) AND ucast (push_bit (wBit w) 1 - 1 :: u64))
             OR ucast (push_bit (wBit w) (val AND (push_bit (8 - wBit w) 1 - 1)))"
  defines "w' \<equiv> w\<lparr>wBuffer := butlast (wBuffer w) @ [back], wBit := min 8 (wBit w + n)\<rparr>"
  shows "wbits w' = wbits w @ bits_of (min n (8 - wBit w)) val" and "winv w'"
proof -
  have ne: "wBuffer w \<noteq> []" using assms by (auto simp: winv_def)
  show i: "winv w'" using assms by (auto simp: winv_def w'_def)
  have m: "push_bit k 1 - 1 = (mask k :: u64)" for k
    by (simp add: mask_eq_exp_minus_1)
  have "take (min 8 (wBit w + n)) (byte_bits back)
    = take (wBit w) (byte_bits (last (wBuffer w))) @ bits_of (min n (8 - wBit w)) val"
    using assms(2,3)
    unfolding back_def m bits_of_def
    by (intro nth_equalityI)
      (auto simp: nth_append bit_or_iff bit_and_iff bit_ucast_iff bit_mask_iff
        bit_push_bit_iff less_diff_conv)
  then show "wbits w' = wbits w @ bits_of (min n (8 - wBit w)) val"
    using wbits_last [OF i] wbits_last [OF assms(1) ne] by (simp add: w'_def)
qed

text \<open>\<open>wrote w w' bs\<close>: the writer went from \<open>w\<close> to \<open>w'\<close> by appending \<open>bs\<close>.\<close>

definition wrote :: "NetBitWriterVector \<Rightarrow> NetBitWriterVector \<Rightarrow> bool list \<Rightarrow> bool" where
  "wrote w w' bs \<longleftrightarrow> winv w' \<and> wbits w' = wbits w @ bs
     \<and> wTotalBits w' = wTotalBits w + int (length bs)"

lemma wrote_refl [simp]: "winv w \<Longrightarrow> wrote w w []"
  by (simp add: wrote_def)

lemma wrote_trans: "wrote w w1 xs \<Longrightarrow> wrote w1 w2 ys \<Longrightarrow> wrote w w2 (xs @ ys)"
  by (simp add: wrote_def)

lemma wrote_winv: "wrote w w' bs \<Longrightarrow> winv w'"
  by (simp add: wrote_def)

lemma wrote_wbits: "wrote w w' bs \<Longrightarrow> wbits w' = wbits w @ bs"
  by (simp add: wrote_def)

section \<open>Writing bits\<close>

lemma value_too_large_iff:
  assumes "0 \<le> n"
  shows "value_too_large dbg val n \<longleftrightarrow> dbg \<and> take_bit (nat n) val \<noteq> val"
proof (cases "n < 64")
  case True
  then have "take_bit (nat n) val = val \<longleftrightarrow> val < 2 ^ nat n"
    using assms take_bit_eq_self_u64 [of val "nat n"]
      and_mask_less' [of "nat n" val]
    by (auto simp: word_size simp flip: take_bit_eq_mask)
  then show ?thesis using True by (auto simp: value_too_large_def not_less)
next
  case False
  then show ?thesis by (simp add: value_too_large_def take_bit_word_eq_self)
qed

text \<open>A value that may be written: in the debug build it has to fit.\<close>

definition writable :: "bool \<Rightarrow> u64 \<Rightarrow> nat \<Rightarrow> bool" where
  "writable dbg val n \<longleftrightarrow> (dbg \<longrightarrow> take_bit n val = val)"

lemma writable_small: "val < 2 ^ n \<Longrightarrow> writable dbg val n"
  by (simp add: writable_def take_bit_eq_self_u64)

lemma writable_0 [simp]: "writable dbg 0 n"
  by (simp add: writable_def)

lemma writable_take_bit [simp]: "writable dbg (take_bit n v) n"
  by (simp add: writable_def)

lemma writable_64 [simp]: "64 \<le> n \<Longrightarrow> writable dbg v n"
  by (simp add: writable_def take_bit_word_eq_self)

lemma writable_drop: "writable dbg val (nat n) \<Longrightarrow> 0 \<le> n \<Longrightarrow> writable dbg (drop_bit k val) (nat (n - int k))"
  by (metis drop_bit_take_bit nat_minus_as_int nat_int int_nat_eq writable_def nat_diff_distrib' of_nat_0_le_iff)

lemma WriteBitsInternal_spec:
  assumes "winv w" "0 \<le> n" "writable dbg val (nat n)"
  shows "\<exists>w'. WriteBitsInternal dbg val n w = Inr w' \<and> winv w'
    \<and> wbits w' = wbits w @ bits_of (nat n) val \<and> wTotalBits w' = wTotalBits w"
  using assms
proof (induction dbg val n w rule: WriteBitsInternal.induct)
  case (1 dbg val n w)
  have fit: "\<not> value_too_large dbg val n"
    using "1.prems" by (simp add: value_too_large_iff writable_def)
  consider "n = 0" | "0 < n" "wBit w = 8" | "0 < n" "wBit w < 8"
    using "1.prems" by (force simp: winv_def)
  then show ?case
  proof cases
    case 1
    with "1.prems" show ?thesis by (simp add: WriteBitsInternal.simps [of _ _ 0])
  next
    case 2
    let ?w = "w\<lparr>wBuffer := wBuffer w @ [ucast val], wBit := nat (min 8 n)\<rparr>"
    have k: "0 < nat (min 8 n)" "nat (min 8 n) \<le> 8" using 2 by auto
    note f = write_fresh_byte [OF "1.prems"(1) 2(2) k, of val]
    have eq: "WriteBitsInternal dbg val n w = WriteBitsInternal dbg (drop_bit 8 val) (n - 8) ?w"
      using 2 fit by (subst WriteBitsInternal.simps) simp
    show ?thesis
    proof (cases "n \<le> 8")
      case True
      then show ?thesis
        using f eq 2 by (simp add: WriteBitsInternal.simps [of _ _ "n - 8"])
    next
      case False
      have "writable dbg (drop_bit 8 val) (nat (n - 8))"
        using writable_drop [of dbg val n 8] "1.prems" by simp
      then obtain w' where "WriteBitsInternal dbg (drop_bit 8 val) (n - 8) ?w = Inr w'"
        "winv w'" "wbits w' = wbits ?w @ bits_of (nat (n - 8)) (drop_bit 8 val)"
        "wTotalBits w' = wTotalBits ?w"
        using "1.IH"(1) [OF _ fit refl] 2 False f(2) by auto
      then show ?thesis
        using False f eq bits_of_split [of 8 "nat n" val] by (simp add: nat_diff_distrib)
    qed
  next
    case 3
    define k where "k = 8 - wBit w"
    define w1 where "w1 = w\<lparr>wBuffer := butlast (wBuffer w) @
        [(last (wBuffer w) AND ucast (push_bit (wBit w) 1 - 1 :: u64))
          OR ucast (push_bit (wBit w) (val AND (push_bit k 1 - 1)))],
        wBit := min 8 (wBit w + nat n)\<rparr>"
    have ne: "wBuffer w \<noteq> []" using 3 "1.prems" by (auto simp: winv_def)
    have b: "nat (min 8 (int (wBit w) + n)) = min 8 (wBit w + nat n)"
      using 3 by auto
    have f: "wbits w1 = wbits w @ bits_of (min (nat n) k) val" "winv w1"
      using write_free_bits [OF "1.prems"(1) 3(2), of "nat n" val] 3(1)
      by (simp_all add: w1_def k_def)
    have t: "wTotalBits w1 = wTotalBits w" by (simp add: w1_def)
    have k: "k \<noteq> 0" using 3 by (simp add: k_def)
    have eq: "WriteBitsInternal dbg val n w
        = WriteBitsInternal dbg (drop_bit k val) (n - min n (int k)) w1"
      using 3(1) fit ne k
      by (subst WriteBitsInternal.simps) (simp add: Let_def b w1_def flip: k_def)
    show ?thesis
    proof (cases "n \<le> int k")
      case True
      then show ?thesis
        using f eq t 3(1) by (simp add: WriteBitsInternal.simps [of _ _ 0] min_def nat_le_iff)
    next
      case False
      have n: "n - min n (int k) = n - int k" "min (nat n) k = k" "k \<le> nat n"
        "nat (n - int k) = nat n - k"
        using False by auto
      have "writable dbg (drop_bit k val) (nat (n - int k))"
        by (rule writable_drop) (use "1.prems" in auto)
      then have "\<exists>w'. WriteBitsInternal dbg (drop_bit k val) (n - int k) w1 = Inr w' \<and> winv w'
        \<and> wbits w' = wbits w1 @ bits_of (nat (n - int k)) (drop_bit k val)
        \<and> wTotalBits w' = wTotalBits w1"
        using "1.IH"(2) [OF _ fit refl _ ne refl refl refl refl, folded k_def, unfolded b,
            folded w1_def] 3(1) f(2) n k False by simp
      then show ?thesis
        unfolding eq n(1) using f(1) t n(2-4) bits_of_split [OF n(3), of val] by auto
    qed
  qed
qed

lemma WriteBits_spec:
  assumes "winv w" "0 \<le> n" "writable dbg val (nat n)"
  shows "\<exists>w'. WriteBits dbg val n w = Inr w' \<and> wrote w w' (bits_of (nat n) val)"
  using WriteBitsInternal_spec [of "w\<lparr>wTotalBits := wTotalBits w + n\<rparr>" n dbg val] assms
  by (auto simp: WriteBits_def wrote_def)

lemma WriteBits_reject:
  "0 < n \<Longrightarrow> \<not> writable dbg val (nat n) \<Longrightarrow> WriteBits dbg val n w = Inl OutOfRange"
  by (simp add: WriteBits_def WriteBitsInternal.simps [of _ _ n] value_too_large_iff writable_def)

text \<open>C33: on a valid writer \<^verbatim>\<open>WriteBits\<close> appends exactly the low
  \<open>num_bits\<close> bits of the value, whatever byte boundaries they cross, and counts them; in the
  debug build a value with a higher bit set is rejected instead, and nothing undefined happens in
  either build.\<close>

theorem WriteBits_refines:
  assumes "winv w" "0 \<le> n"
  shows "if dbg \<and> take_bit (nat n) val \<noteq> val \<and> 0 < n then WriteBits dbg val n w = Inl OutOfRange
    else \<exists>w'. WriteBits dbg val n w = Inr w' \<and> winv w'
           \<and> wbits w' = wbits w @ bits_of (nat n) val \<and> wTotalBits w' = wTotalBits w + n"
proof (cases "n = 0")
  case True
  with assms show ?thesis
    by (auto simp: WriteBits_def WriteBitsInternal.simps [of _ _ 0])
next
  case False
  with assms show ?thesis
    using WriteBits_spec [of w n dbg val] WriteBits_reject [of n dbg val w]
    by (auto simp: wrote_def writable_def)
qed

theorem WriteBits_refines_witness:
  "\<exists>w'. WriteBits True 0x2A5 10 NetBitWriterVector_init = Inr w' \<and> winv w'
     \<and> wbits w' = bits_of 10 0x2A5 \<and> wTotalBits w' = 10"
  using WriteBits_refines [of NetBitWriterVector_init 10 True "0x2A5"]
  by (simp add: take_bit_eq_self_u64) (simp add: NetBitWriterVector_init_def)

section \<open>Writing through a cursor\<close>

definition overwrite :: "nat \<Rightarrow> 'a list \<Rightarrow> 'a list \<Rightarrow> 'a list" where
  "overwrite p xs ys = take p ys @ xs @ drop (p + length xs) ys"

lemma length_overwrite [simp]: "p + length xs \<le> length ys \<Longrightarrow> length (overwrite p xs ys) = length ys"
  by (simp add: overwrite_def)

lemma overwrite_nth:
  "p + length xs \<le> length ys \<Longrightarrow> i < length ys \<Longrightarrow>
    overwrite p xs ys ! i = (if p \<le> i \<and> i < p + length xs then xs ! (i - p) else ys ! i)"
  by (auto simp: overwrite_def nth_append)

lemma overwrite_take:
  "p + length xs \<le> m \<Longrightarrow> m \<le> length ys \<Longrightarrow> take m (overwrite p xs ys) = overwrite p xs (take m ys)"
  by (cases "m = p") (auto simp: overwrite_def drop_take min_def)

lemma overwrite_overwrite:
  "p + length xs + length zs \<le> length ys \<Longrightarrow>
    overwrite (p + length xs) zs (overwrite p xs ys) = overwrite p (xs @ zs) ys"
  by (simp add: overwrite_def add.commute add.left_commute)

lemma overwrite_Nil [simp]: "overwrite p [] ys = ys"
  by (simp add: overwrite_def)

lemma overwrite_append: "length zs = length xs \<Longrightarrow> overwrite (length ys) xs (ys @ zs @ rest) = ys @ xs @ rest"
  by (simp add: overwrite_def)

lemma buffer_bits_nth:
  "i < 8 * length bs \<Longrightarrow> buffer_bits bs ! i = bit (bs ! (i div 8)) (i mod 8)"
proof (induction bs arbitrary: i)
  case (Cons b bs)
  show ?case
  proof (cases "i < 8")
    case False
    then have "i div 8 = Suc ((i - 8) div 8)" "i mod 8 = (i - 8) mod 8"
      by (simp_all add: le_div_geq le_mod_geq)
    with False Cons show ?thesis by (simp add: nth_append)
  qed (simp add: nth_append)
qed simp

lemma buffer_write:
  fixes val :: u64
  assumes "b < 8" "j < length bs"
  shows "buffer_bits (bs[j := (bs ! j AND NOT (push_bit b (ucast (mask n :: u64))))
            OR push_bit b (ucast (mask n :: u64) AND ucast val)])
    = overwrite (8 * j + b) (bits_of (min n (8 - b)) val) (buffer_bits bs)"
    (is "buffer_bits ?bs = overwrite ?p ?xs _")
proof (rule nth_equalityI)
  have p: "?p + length ?xs \<le> 8 * length bs" using assms by simp
  then show "length (buffer_bits ?bs) = length (overwrite ?p ?xs (buffer_bits bs))"
    by simp
  fix i assume "i < length (buffer_bits ?bs)"
  then have i: "i < 8 * length bs" by simp
  show "buffer_bits ?bs ! i = overwrite ?p ?xs (buffer_bits bs) ! i"
  proof (cases "i div 8 = j")
    case True
    define m where "m = i mod 8"
    have e: "i = 8 * j + m" "m < 8" using True by (auto simp: m_def)
    have "overwrite ?p ?xs (buffer_bits bs) ! i
        = (if b \<le> m \<and> m < b + n then bit val (m - b) else bit (bs ! j) m)"
      using p i e unfolding bits_of_def
      by (subst overwrite_nth) (auto simp: buffer_bits_nth less_diff_conv2)
    moreover have "bit (((bs ! j) AND NOT (push_bit b (ucast (mask n :: u64))))
        OR push_bit b (ucast (mask n :: u64) AND ucast val)) m
        = (if b \<le> m \<and> m < b + n then bit val (m - b) else bit (bs ! j) m)"
      using e(2) by (auto simp: bit_or_iff bit_and_iff bit_not_iff bit_push_bit_iff bit_ucast_iff
          bit_mask_iff less_diff_conv2)
    ultimately show ?thesis
      using e i assms(2) by (simp add: buffer_bits_nth)
  next
    case False
    then have "i < 8 * j \<or> 8 * j + 8 \<le> i" by auto
    then show ?thesis
      using p i assms False by (auto simp: overwrite_nth buffer_bits_nth)
  qed
qed

lemma wbits_buffer_write:
  fixes val :: u64
  assumes "b < 8" "8 * j + b + min n (8 - b) \<le> wlen w" "winv w" "0 < n"
  defines "w' \<equiv> w\<lparr>wBuffer := (wBuffer w)[j :=
      (wBuffer w ! j AND NOT (push_bit b (ucast (mask n :: u64))))
        OR push_bit b (ucast (mask n :: u64) AND ucast val)]\<rparr>"
  shows "wbits w' = overwrite (8 * j + b) (bits_of (min n (8 - b)) val) (wbits w)"
    and "winv w'" and "wlen w' = wlen w" and "j < length (wBuffer w)"
proof -
  have l: "wlen w \<le> 8 * length (wBuffer w)"
    using assms(3) by (auto simp: wlen_def winv_def)
  show j: "j < length (wBuffer w)" using l assms(1,2,4) by linarith
  show "winv w'" "wlen w' = wlen w" using assms(3) by (auto simp: w'_def winv_def wlen_def)
  then show "wbits w' = overwrite (8 * j + b) (bits_of (min n (8 - b)) val) (wbits w)"
    using l assms(2) buffer_write [OF assms(1) j, of n val]
    by (simp add: wbits_def w'_def overwrite_take)
qed

text \<open>A cursor stands at a bit position; it may still write \<open>cSize\<close> bits.\<close>

definition cinv :: "NetBitWriterCursor \<Rightarrow> bool" where
  "cinv c \<longleftrightarrow> 0 < cBit c \<and> cBit c \<le> 8 \<and> - 1 \<le> cByte c \<and> (cByte c = - 1 \<longrightarrow> cBit c = 8)"

definition cpos :: "NetBitWriterCursor \<Rightarrow> nat" where
  "cpos c = nat (8 * cByte c + int (cBit c))"

text \<open>The effect of a cursor write, as a relation between the states before and after.\<close>

definition cursor_wrote ::
    "bool list \<Rightarrow> NetBitWriterCursor \<times> NetBitWriterVector
       \<Rightarrow> NetBitWriterCursor \<times> NetBitWriterVector \<Rightarrow> bool" where
  "cursor_wrote bs = (\<lambda>(c, w) (c', w'). winv w' \<and> wlen w' = wlen w
     \<and> wbits w' = overwrite (cpos c) bs (wbits w) \<and> wTotalBits w' = wTotalBits w
     \<and> cinv c' \<and> cpos c' = cpos c + length bs
     \<and> cSize c - int (length bs) \<le> cSize c')"

lemma cursor_wrote_refl: "winv w \<Longrightarrow> cinv c \<Longrightarrow> cursor_wrote [] (c, w) (c, w)"
  by (simp add: cursor_wrote_def)

lemma cursor_wrote_trans:
  assumes "cursor_wrote xs s s1" "cursor_wrote ys s1 s2"
    and "cpos (fst s) + length xs + length ys \<le> wlen (snd s)" "winv (snd s)"
  shows "cursor_wrote (xs @ ys) s s2"
  using assms by (auto simp: cursor_wrote_def overwrite_overwrite length_wbits split: prod.splits)

lemma CursorWriteBits_0: "CursorWriteBits dbg val 0 c w = Inr (c, w)"
  by (simp add: CursorWriteBits.simps [of _ _ 0])

text \<open>One step of the recursion, at a byte boundary and inside a byte.\<close>

lemma CursorWriteBits_step:
  assumes "winv w" "cinv c" "0 < n" "n < 64" "writable dbg val (nat n)" "n \<le> cSize c"
    and "cpos c + nat n \<le> wlen w"
  defines "k \<equiv> (if cBit c = 8 then 8 else 8 - cBit c)"
  shows "\<exists>c1 w1. CursorWriteBits dbg val n c w
      = CursorWriteBits dbg (drop_bit k val) (n - min n (int k)) c1 w1
    \<and> cursor_wrote (bits_of (min (nat n) k) val) (c, w) (c1, w1)"
proof -
  have fit: "\<not> value_too_large dbg val n"
    using assms by (simp add: value_too_large_iff writable_def)
  show ?thesis
  proof (cases "cBit c = 8")
    case True
    define j where "j = nat (cByte c + 1)"
    have j: "cByte c + 1 = int j" "cpos c = 8 * j"
      using assms(2) True by (auto simp: j_def cinv_def cpos_def)
    have f': "8 * j + 0 + min (nat n) (8 - 0) \<le> wlen w" using assms j by simp
    have n: "0 < nat n" using assms(3) by simp
    note f = wbits_buffer_write [OF zero_less_numeral f' assms(1) n, simplified]
    let ?w = "w\<lparr>wBuffer := (wBuffer w)[j :=
      (wBuffer w ! j AND NOT (ucast (mask (nat n) :: u64)))
        OR (ucast (mask (nat n) :: u64) AND ucast val)]\<rparr>"
    let ?c = "c\<lparr>cWrote := True, cByte := int j,
        cSize := cSize c - (min 8 n - 8), cBit := nat (min 8 n)\<rparr>"
    have "CursorWriteBits dbg val n c w = CursorWriteBits dbg (drop_bit 8 val) (n - 8) ?c ?w"
      using assms(3,4,6) fit True f(4) j
      by (subst CursorWriteBits.simps) (simp add: Let_def mask_eq_exp_minus_1)
    also have "\<dots> = CursorWriteBits dbg (drop_bit 8 val) (n - min n 8) ?c ?w"
      by (cases "n \<le> 8") (simp_all add: CursorWriteBits.simps [of _ _ "n - 8"] CursorWriteBits_0)
    finally have "CursorWriteBits dbg val n c w
      = CursorWriteBits dbg (drop_bit k val) (n - min n (int k)) ?c ?w"
      using True by (simp add: k_def)
    moreover have "cursor_wrote (bits_of (min (nat n) k) val) (c, w) (?c, ?w)"
      using f assms(3) True j by (auto simp: cursor_wrote_def k_def cinv_def cpos_def)
    ultimately show ?thesis by blast
  next
    case False
    define j where "j = nat (cByte c)"
    have b: "cBit c < 8" "0 < cBit c" using assms(2) False by (auto simp: cinv_def)
    have j: "cByte c = int j" "cpos c = 8 * j + cBit c"
      using assms(2) False by (auto simp: j_def cinv_def cpos_def)
    have f': "8 * j + cBit c + min (nat n) (8 - cBit c) \<le> wlen w" using assms j by simp
    have n: "0 < nat n" using assms(3) by simp
    note f = wbits_buffer_write [OF b(1) f' assms(1) n]
    let ?w = "w\<lparr>wBuffer := (wBuffer w)[j :=
      (wBuffer w ! j AND NOT (push_bit (cBit c) (ucast (mask (nat n) :: u64))))
        OR push_bit (cBit c) (ucast (mask (nat n) :: u64) AND ucast val)]\<rparr>"
    let ?c = "c\<lparr>cWrote := True,
        cSize := cSize c - (int (nat (min 8 (int (cBit c) + n))) - int (cBit c)),
        cBit := nat (min 8 (int (cBit c) + n))\<rparr>"
    have "CursorWriteBits dbg val n c w
      = CursorWriteBits dbg (drop_bit k val) (n - min n (int k)) ?c ?w"
      using assms(3,4,6) fit False b f(4) j
      by (subst CursorWriteBits.simps) (simp add: Let_def mask_eq_exp_minus_1 k_def)
    moreover have "cursor_wrote (bits_of (min (nat n) k) val) (c, w) (?c, ?w)"
      using f assms(3) False b j by (auto simp: cursor_wrote_def k_def cinv_def cpos_def)
    ultimately show ?thesis by blast
  qed
qed

lemma CursorWriteBits_spec:
  assumes "winv w" "cinv c" "0 \<le> n" "n < 64" "writable dbg val (nat n)" "n \<le> cSize c"
    and "cpos c + nat n \<le> wlen w"
  shows "\<exists>s'. CursorWriteBits dbg val n c w = Inr s'
    \<and> cursor_wrote (bits_of (nat n) val) (c, w) s'"
  using assms
proof (induction "nat n" arbitrary: n val c w rule: less_induct)
  case less
  show ?case
  proof (cases "n = 0")
    case True
    then show ?thesis using less.prems by (simp add: CursorWriteBits_0 cursor_wrote_refl)
  next
    case False
    define k where "k = (if cBit c = 8 then 8 else 8 - cBit c)"
    have k: "0 < k" using less.prems(2) by (auto simp: k_def cinv_def)
    have n: "0 < n" using False less.prems by simp
    obtain c1 w1 where e: "CursorWriteBits dbg val n c w
        = CursorWriteBits dbg (drop_bit k val) (n - min n (int k)) c1 w1"
      and r: "cursor_wrote (bits_of (min (nat n) k) val) (c, w) (c1, w1)"
      using CursorWriteBits_step [OF less.prems(1,2) n less.prems(4-7)] unfolding k_def by blast
    define n1 where "n1 = n - min n (int k)"
    have n1: "nat n1 < nat n" "0 \<le> n1" "n1 < 64" "nat n1 = nat n - min (nat n) k" "n1 \<le> n"
      using n k less.prems(4) by (auto simp: n1_def)
    have wr: "writable dbg (drop_bit k val) (nat n1)"
    proof (cases "n \<le> int k")
      case True
      then have "nat n \<le> k" by simp
      with less.prems(5) have "dbg \<Longrightarrow> drop_bit k val = 0"
        by (metis drop_bit_take_bit diff_is_0_eq take_bit_0 writable_def)
      with True show ?thesis by (auto simp: n1_def writable_def)
    next
      case False
      with writable_drop [OF less.prems(5), of k] less.prems(3) show ?thesis
        by (simp add: n1_def)
    qed
    have r': "winv w1" "wlen w1 = wlen w" "cinv c1" "cpos c1 = cpos c + min (nat n) k"
      "cSize c - int (min (nat n) k) \<le> cSize c1"
      using r by (simp_all add: cursor_wrote_def)
    have i: "int (min (nat n) k) = min n (int k)" using n by simp
    have "n1 \<le> cSize c1" using r'(5) less.prems(6) unfolding n1_def i by linarith
    moreover have "cpos c1 + nat n1 \<le> wlen w1"
      using less.prems(7) r'(2,4) n1(4) by simp
    ultimately obtain s' where "CursorWriteBits dbg (drop_bit k val) n1 c1 w1 = Inr s'"
      "cursor_wrote (bits_of (nat n1) (drop_bit k val)) (c1, w1) s'"
      using less.hyps [OF n1(1) r'(1,3) n1(2,3) wr] by blast
    moreover from this r have "cursor_wrote (bits_of (min (nat n) k) val
        @ bits_of (nat n1) (drop_bit k val)) (c, w) s'"
      using less.prems n1 by (intro cursor_wrote_trans [OF r]) auto
    moreover have "bits_of (min (nat n) k) val @ bits_of (nat n1) (drop_bit k val)
      = bits_of (nat n) val"
    proof (cases "nat n \<le> k")
      case False
      then show ?thesis using bits_of_split [of k "nat n" val] n1(4) by simp
    qed (use n1(4) in simp)
    ultimately show ?thesis using e by (auto simp flip: n1_def)
  qed
qed

text \<open>C35: writing through a cursor with room for the value replaces
  exactly the bits from the cursor's position on and nothing else, moves the cursor past them and
  leaves the length of the stream and the bit count alone.\<close>

theorem CursorWriteBits_overwrites:
  assumes "winv w" "cinv c" "0 \<le> n" "n < 64" "writable dbg val (nat n)" "n \<le> cSize c"
    and "cpos c + nat n \<le> length (wbits w)"
  shows "\<exists>c' w'. CursorWriteBits dbg val n c w = Inr (c', w') \<and> winv w'
    \<and> wbits w' = take (cpos c) (wbits w) @ bits_of (nat n) val @ drop (cpos c + nat n) (wbits w)
    \<and> wTotalBits w' = wTotalBits w \<and> cpos c' = cpos c + nat n"
  using CursorWriteBits_spec [of w c n dbg val] assms
  by (auto simp: cursor_wrote_def overwrite_def length_wbits)

theorem CursorWriteBits_overwrites_witness:
  "\<exists>c' w'. CursorWriteBits True 5 3
      \<lparr>cByte = 0, cBit = 6, cSize = 3, cWrote = False, cTotalBits = 6\<rparr>
      \<lparr>wBuffer = [0, 0xFF], wBit = 4, wTotalBits = 12\<rparr> = Inr (c', w') \<and> cpos c' = 9"
  using CursorWriteBits_overwrites [of "\<lparr>wBuffer = [0, 0xFF], wBit = 4, wTotalBits = 12\<rparr>"
      "\<lparr>cByte = 0, cBit = 6, cSize = 3, cWrote = False, cTotalBits = 6\<rparr>" 3 True 5]
  by (auto simp: winv_def cinv_def cpos_def writable_def wbits_def wlen_def
      take_bit_eq_self_u64)

section \<open>Reserving and rolling back\<close>

definition reserved :: "NetBitWriterCursor \<Rightarrow> NetBitWriterVector \<Rightarrow> bool" where
  "reserved c w \<longleftrightarrow> cByte c = int (length (wBuffer w)) - 1 \<and> cBit c = wBit w
     \<and> \<not> cWrote c \<and> cTotalBits c = wTotalBits w"

lemma reserved_cursor: "winv w \<Longrightarrow> reserved c w \<Longrightarrow> cinv c \<and> cpos c = wlen w"
  by (auto simp: reserved_def cinv_def cpos_def wlen_def winv_def nat_add_distrib nat_mult_distrib
      nat_diff_distrib)

lemma Reserve_spec:
  assumes "winv w" "0 \<le> n"
  shows "\<exists>c w'. Reserve dbg n w = Inr (c, w') \<and> wrote w w' (replicate (nat n) False)
    \<and> reserved c w \<and> cSize c = n"
  using WriteBits_spec [of w n dbg 0] assms
  by (auto simp: Reserve_def reserved_def)

lemma buffer_bits_take: "buffer_bits (take n bs) = take (8 * n) (buffer_bits bs)"
proof (induction bs arbitrary: n)
  case (Cons b bs)
  then show ?case by (cases n) auto
qed simp

lemma RollBack_spec:
  assumes "winv w0" "winv w" "reserved c w0" "wbits w = wbits w0 @ xs"
  shows "\<exists>w'. RollBack c w = Inr w' \<and> wrote w0 w' []"
proof -
  let ?n = "length (wBuffer w0)"
  have l: "wlen w = wlen w0 + length xs"
    using assms by (metis length_append length_wbits)
  have n: "?n \<le> length (wBuffer w)"
    using l assms(1,2) by (auto simp: wlen_def winv_def)
  define w' where "w' = w\<lparr>wBuffer := take ?n (wBuffer w), wBit := wBit w0,
    wTotalBits := wTotalBits w0\<rparr>"
  have e: "RollBack c w = Inr w'"
    using assms(3) n by (simp add: RollBack_def reserved_def vector_resize_def w'_def)
  have i: "winv w'" and wl: "wlen w' = wlen w0"
    using assms(1) n by (auto simp: winv_def w'_def wlen_def min_def)
  have "wlen w0 \<le> 8 * ?n" using assms(1) by (auto simp: winv_def wlen_def)
  then have "wbits w' = take (wlen w0) (buffer_bits (wBuffer w))"
    by (simp add: wbits_def wl) (simp add: w'_def buffer_bits_take min_def)
  also have "\<dots> = take (wlen w0) (wbits w)"
    using l by (simp add: wbits_def min_def)
  also have "\<dots> = wbits w0"
    using assms(1,4) by (simp add: length_wbits)
  finally show ?thesis using e i by (auto simp: wrote_def w'_def)
qed

text \<open>C36: rolling an unwritten cursor back, after whatever was written since it
  was reserved, restores the bits and the bit count of the writer to what they were before the
  reservation.\<close>

theorem Reserve_RollBack:
  assumes "winv w0" "0 \<le> n" "Reserve dbg n w0 = Inr (c, w1)" "wrote w1 w2 xs"
  shows "\<exists>w3. RollBack c w2 = Inr w3 \<and> winv w3 \<and> wbits w3 = wbits w0
    \<and> wTotalBits w3 = wTotalBits w0"
proof -
  have "wrote w0 w1 (replicate (nat n) False)" "reserved c w0"
    using Reserve_spec [OF assms(1,2), of dbg] assms(3) by auto
  then have "\<exists>w'. RollBack c w2 = Inr w' \<and> wrote w0 w' []"
    using assms(1,4) by (intro RollBack_spec) (auto simp: wrote_def)
  then show ?thesis by (auto simp: wrote_def)
qed

theorem Reserve_RollBack_witness:
  "\<exists>w3. RollBack \<lparr>cByte = - 1, cBit = 8, cSize = 2, cWrote = False, cTotalBits = 0\<rparr>
      \<lparr>wBuffer = [0], wBit = 2, wTotalBits = 2\<rparr> = Inr w3
    \<and> wbits w3 = [] \<and> wTotalBits w3 = 0"
  using Reserve_RollBack [of NetBitWriterVector_init 2 True
      "\<lparr>cByte = - 1, cBit = 8, cSize = 2, cWrote = False, cTotalBits = 0\<rparr>"
      "\<lparr>wBuffer = [0], wBit = 2, wTotalBits = 2\<rparr>" "\<lparr>wBuffer = [0], wBit = 2, wTotalBits = 2\<rparr>" "[]"]
  by (auto simp: NetBitWriterVector_init_def Reserve_def WriteBits_def WriteBitsInternal.simps
      value_too_large_def winv_def wbits_def wlen_def)

text \<open>Back-patching: what a reserved cursor writes later stands where it was reserved.\<close>

lemma cursor_fill:
  assumes "winv w0" "cinv c" "cpos c = wlen w0 + length ds" "wrote w0 w (ds @ ys @ rest)"
    and "length ys = nat n" "0 \<le> n" "n < 64" "n \<le> cSize c" "writable dbg val (nat n)"
  shows "\<exists>c' w'. CursorWriteBits dbg val n c w = Inr (c', w')
    \<and> wrote w0 w' (ds @ bits_of (nat n) val @ rest)
    \<and> cinv c' \<and> cpos c' = cpos c + nat n \<and> cSize c - n \<le> cSize c'"
proof -
  have w: "winv w" "wbits w = wbits w0 @ ds @ ys @ rest"
    using assms(4) by (auto simp: wrote_def)
  have l: "wlen w = wlen w0 + length ds + nat n + length rest"
    using w assms(1,5) by (metis length_append length_wbits add.assoc)
  obtain c' w' where e: "CursorWriteBits dbg val n c w = Inr (c', w')"
    and r: "cursor_wrote (bits_of (nat n) val) (c, w) (c', w')"
    using CursorWriteBits_spec [of w c n dbg val] w(1) assms l by auto
  have "overwrite (cpos c) (bits_of (nat n) val) (wbits w)
      = wbits w0 @ ds @ bits_of (nat n) val @ rest"
    using overwrite_append [of ys "bits_of (nat n) val" "wbits w0 @ ds" rest] assms(1,3,5)
    by (simp add: w(2) length_wbits)
  with r assms(4,5,6) show ?thesis unfolding e
    by (auto simp: cursor_wrote_def wrote_def)
qed

lemma cursor_patch:
  assumes "winv w0" "reserved c w0" "wrote w0 w (ys @ rest)"
    and "length ys = nat n" "0 \<le> n" "n < 64" "n \<le> cSize c" "writable dbg val (nat n)"
  shows "\<exists>c' w'. CursorWriteBits dbg val n c w = Inr (c', w')
    \<and> wrote w0 w' (bits_of (nat n) val @ rest)"
  using cursor_fill [of w0 c "[]" w ys rest n dbg val] reserved_cursor [OF assms(1,2)] assms
  by auto

text \<open>At a byte boundary \<^verbatim>\<open>m_Size -= new_bit - m_Bit\<close> subtracts a
  negative number, so writing fewer than eight bits there leaves the cursor with a larger budget
  than it was reserved with, and its overflow check no longer protects the bits behind it.\<close>

theorem cursor_budget_grows:
  assumes "winv w" "cinv c" "cBit c = 8" "0 < n" "n < 8" "n \<le> cSize c"
    and "cpos c + nat n \<le> wlen w" "writable dbg val (nat n)"
  shows "\<exists>c' w'. CursorWriteBits dbg val n c w = Inr (c', w')
    \<and> cSize c' = cSize c + (8 - n) \<and> cSize c < cSize c'"
proof -
  have fit: "\<not> value_too_large dbg val n"
    using assms by (simp add: value_too_large_iff writable_def)
  have l: "wlen w \<le> 8 * length (wBuffer w)"
    using assms(1) by (auto simp: wlen_def winv_def)
  have b: "0 \<le> cByte c + 1" "cByte c + 1 < int (length (wBuffer w))"
    using assms(2,3,4,7) l by (auto simp: cinv_def cpos_def nat_add_distrib)
  show ?thesis
    using assms(3-6) fit b
    by (subst CursorWriteBits.simps) (simp add: Let_def CursorWriteBits.simps [of _ _ "n - 8"])
qed

theorem cursor_budget_grows_witness:
  "\<exists>c' w'. CursorWriteBits True 5 3
      \<lparr>cByte = - 1, cBit = 8, cSize = 3, cWrote = False, cTotalBits = 0\<rparr>
      \<lparr>wBuffer = [0], wBit = 8, wTotalBits = 8\<rparr> = Inr (c', w') \<and> cSize c' = 8"
  using cursor_budget_grows [of "\<lparr>wBuffer = [0], wBit = 8, wTotalBits = 8\<rparr>"
      "\<lparr>cByte = - 1, cBit = 8, cSize = 3, cWrote = False, cTotalBits = 0\<rparr>" 3 True 5]
  by (auto simp: winv_def cinv_def cpos_def wlen_def writable_def take_bit_eq_self_u64)

section \<open>Byte buffers\<close>

lemma bits_of_ucast_byte [simp]: "bits_of 8 (ucast b) = byte_bits b"
  by (rule nth_equalityI) (auto simp: bit_ucast_iff)

lemma writable_byte [simp]: "writable dbg (ucast (b :: u8)) 8"
  by (auto simp: writable_def bit_eq_iff bit_take_bit_iff bit_ucast_iff bit_imp_le_length
      dest: bit_imp_le_length)

lemma WriteBytes_spec:
  "winv w \<Longrightarrow> \<exists>w'. WriteBytes dbg bs w = Inr w' \<and> wrote w w' (buffer_bits bs)"
proof (induction bs arbitrary: w)
  case (Cons b bs)
  obtain w1 where "WriteBits dbg (ucast b) 8 w = Inr w1" "wrote w w1 (byte_bits b)"
    using WriteBits_spec [of w 8 dbg "ucast b"] Cons.prems by auto
  moreover from this obtain w2 where "WriteBytes dbg bs w1 = Inr w2" "wrote w1 w2 (buffer_bits bs)"
    using Cons.IH wrote_winv by blast
  ultimately show ?case using wrote_trans by auto
qed simp

lemma NetBitWriter_WriteBuffer_spec:
  "winv w \<Longrightarrow> \<exists>w'. NetBitWriter_WriteBuffer dbg data w = Inr w' \<and> wrote w w' (buffer_bits data)"
proof (induction dbg data w rule: NetBitWriter_WriteBuffer.induct)
  case (1 dbg data w)
  show ?case
  proof (cases "8 \<le> length data")
    case True
    have l: "length (buffer_bits (take 8 data)) = 64" using True by simp
    have "bits_of 64 (le64 (take 8 data)) = buffer_bits (take 8 data)"
      using bits_of_word_of_bits [of "buffer_bits (take 8 data)"] unfolding l
      by (simp add: le64_def flip: buffer_bits_def)
    then obtain w1 where w1: "WriteBits dbg (le64 (take 8 data)) 64 w = Inr w1"
      "wrote w w1 (buffer_bits (take 8 data))"
      using WriteBits_spec [OF "1.prems", of 64 dbg "le64 (take 8 data)"] by auto
    then obtain w2 where "NetBitWriter_WriteBuffer dbg (drop 8 data) w1 = Inr w2"
      "wrote w1 w2 (buffer_bits (drop 8 data))"
      using "1.IH" [OF True w1(1)] wrote_winv by auto
    with w1 True show ?thesis
      using wrote_trans [of w w1 _ w2]
      by (subst NetBitWriter_WriteBuffer.simps) (fastforce simp flip: buffer_bits_simps(3))
  next
    case False
    then show ?thesis
      using WriteBytes_spec "1.prems" by (subst NetBitWriter_WriteBuffer.simps) simp
  qed
qed

lemma WriteBuffer_spec:
  "winv w \<Longrightarrow> \<exists>w'. WriteBuffer dbg data w = Inr w' \<and> winv w' \<and> wbits w' = wbits w @ buffer_bits data"
  using NetBitWriter_WriteBuffer_spec [of w dbg data]
  by (auto simp: WriteBuffer_def wrote_def wbits_full) (auto simp: winv_def wbits_def wlen_def)

text \<open>\<^verbatim>\<open>WriteBuffer\<close> appends exactly the bits of the bytes given, on all
  three paths (block copy, eight bytes at a time, single bytes); the block copy leaves
  \<^verbatim>\<open>m_TotalBits\<close> as it was, the others add to it.\<close>

theorem WriteBuffer_refines:
  assumes "winv w"
  shows "\<exists>w'. WriteBuffer dbg data w = Inr w' \<and> winv w'
    \<and> wbits w' = wbits w @ buffer_bits data
    \<and> wTotalBits w' = (if wBit w = 8 \<and> 64 \<le> length data then wTotalBits w
                        else wTotalBits w + 8 * int (length data))"
proof (cases "wBit w = 8 \<and> 64 \<le> length data")
  case True
  then show ?thesis
    using assms by (auto simp: WriteBuffer_def wbits_def wlen_def winv_def)
next
  case False
  then show ?thesis
    using NetBitWriter_WriteBuffer_spec [OF assms, of dbg data]
    by (auto simp: WriteBuffer_def wrote_def)
qed

theorem WriteBuffer_refines_witness:
  "\<exists>w'. WriteBuffer True [1, 2] \<lparr>wBuffer = [3], wBit = 5, wTotalBits = 5\<rparr> = Inr w'
    \<and> wbits w' = [True, True, False, False, False] @ buffer_bits [1, 2] \<and> wTotalBits w' = 21"
proof -
  have "wbits \<lparr>wBuffer = [3], wBit = 5, wTotalBits = 5\<rparr> = [True, True, False, False, False]"
    by (simp add: wbits_def wlen_def byte_bits_def upt_rec)
  then show ?thesis
    using WriteBuffer_refines [of "\<lparr>wBuffer = [3], wBit = 5, wTotalBits = 5\<rparr>" True "[1, 2]"]
    by (auto simp: winv_def simp del: buffer_bits_simps)
qed

end
