(* ===== verification/BitReader.thy ===== *)
theory BitReader
  imports BitWriter
begin

text \<open>
  \<^verbatim>\<open>NetBitReader.h\<close>, \<^verbatim>\<open>NetBitReader.cpp\<close>, \<^verbatim>\<open>NetBitReaderBuffer.cpp\<close> and
  \<^verbatim>\<open>NetBitReaderVector.cpp\<close>: the bit reader. The abstract state is the list of bits not yet read,
  \<open>rbits\<close>; a read takes bits off its front. The last section puts writer and reader together.

  The model is strict about the C++ standard: a shift by 64 and a byte read behind the end of the
  buffer are \<open>Undefined\<close>. Both occur in the 64-bit path.
\<close>

section \<open>State\<close>

text \<open>
  \<open>rBytes\<close> are the \<^verbatim>\<open>m_NumBytes\<close> bytes from \<^verbatim>\<open>m_Buffer\<close> on, so that
  \<^verbatim>\<open>m_Buffer++; m_NumBytes--\<close> drops the first.
\<close>

record NetBitReaderBuffer =
  rBytes :: "u8 list"
  rOffset :: nat
  rBit :: nat
  rTotalBits :: int

definition NetBitReaderBuffer_init :: "u8 list \<Rightarrow> NetBitReaderBuffer" where
  "NetBitReaderBuffer_init buffer = \<lparr>rBytes = buffer, rOffset = 0, rBit = 0, rTotalBits = 0\<rparr>"

section \<open>Operations\<close>

definition take_bytes :: "nat \<Rightarrow> NetBitReaderBuffer \<Rightarrow> NetBitReaderBuffer" where
  "take_bytes n r = r\<lparr>rBytes := drop n (rBytes r), rOffset := rOffset r + n\<rparr>"

text \<open>
  The 64-bit path reads \<^verbatim>\<open>*(m_Buffer + 8)\<close> even if only eight bytes are left, and shifts by
  \<^verbatim>\<open>64 - m_Bit\<close> even if \<^verbatim>\<open>m_Bit\<close> is 0.
\<close>

function ReadBitsInternal :: "int \<Rightarrow> NetBitReaderBuffer \<Rightarrow> (u64 \<times> NetBitReaderBuffer) result" where
  "ReadBitsInternal num_bits r =
     (if num_bits \<le> 0 then Inr (0, r)
      else if num_bits = 64 \<and> 8 \<le> length (rBytes r) then
        (if length (rBytes r) = 8 \<or> rBit r = 0 then Inl Undefined
         else
           let val = drop_bit (rBit r) (le64 (take 8 (rBytes r)));
               val' = val OR push_bit (64 - rBit r)
                        (ucast (rBytes r ! 8 AND (push_bit (rBit r) 1 - 1)))
           in Inr (val', take_bytes 8 r))
      else if rBytes r = [] then Inl OutOfRange
      else if 64 \<le> num_bits then Inl Undefined
      else
        let mask_bits = push_bit (nat num_bits) 1 - 1 :: u64;
            val = ucast (drop_bit (rBit r) (hd (rBytes r))) :: u64
        in
        if 8 \<le> int (rBit r) + num_bits then
          let read_bits = 8 - rBit r in
          ebind (ReadBitsInternal (num_bits - int read_bits) (take_bytes 1 (r\<lparr>rBit := 0\<rparr>)))
            (\<lambda>(rest, r'). Inr ((val AND mask_bits) OR push_bit read_bits rest, r'))
        else Inr (val AND mask_bits, r\<lparr>rBit := nat (int (rBit r) + num_bits)\<rparr>))"
  by pat_completeness auto
termination
  by (relation "measure (\<lambda>(num_bits, r). length (rBytes r))") (auto simp: take_bytes_def)

declare ReadBitsInternal.simps [simp del]

definition ReadUBits :: "int \<Rightarrow> NetBitReaderBuffer \<Rightarrow> (u64 \<times> NetBitReaderBuffer) result" where
  "ReadUBits num_bits r = ReadBitsInternal num_bits (r\<lparr>rTotalBits := rTotalBits r + num_bits\<rparr>)"

definition SignExtend :: "u64 \<Rightarrow> int \<Rightarrow> u64 result" where
  "SignExtend val bits =
     (if bits - 1 < 0 \<or> 64 \<le> bits - 1 then Inl Undefined
      else
        let high_bit = push_bit (nat (bits - 1)) 1 :: u64 in
        if high_bit AND val \<noteq> 0 then
          (if 64 \<le> bits then Inl Undefined
           else let extended_bits = NOT (push_bit (nat bits) 1 - 1) in Inr (val OR extended_bits))
        else Inr val)"

definition ReadSBits :: "int \<Rightarrow> NetBitReaderBuffer \<Rightarrow> (u64 \<times> NetBitReaderBuffer) result" where
  "ReadSBits num_bits r =
     ebind (ReadUBits num_bits r) (\<lambda>(val, r').
       ebind (SignExtend val num_bits) (\<lambda>v. Inr (v, r')))"

text \<open>The bytes of a little-endian \<^verbatim>\<open>uint64_t\<close> in memory.\<close>

definition bytes64 :: "u64 \<Rightarrow> u8 list" where
  "bytes64 v = map (\<lambda>i. ucast (drop_bit (8 * i) v)) [0..<8]"

fun ReadBytes :: "nat \<Rightarrow> NetBitReaderBuffer \<Rightarrow> (u8 list \<times> NetBitReaderBuffer) result" where
  "ReadBytes 0 r = Inr ([], r)"
| "ReadBytes (Suc n) r =
     ebind (ReadUBits 8 r) (\<lambda>(v, r1).
       ebind (ReadBytes n r1) (\<lambda>(bs, r2). Inr (ucast v # bs, r2)))"

function NetBitReader_ReadBuffer ::
    "nat \<Rightarrow> NetBitReaderBuffer \<Rightarrow> (u8 list \<times> NetBitReaderBuffer) result" where
  "NetBitReader_ReadBuffer num_bytes r =
     (if 8 \<le> num_bytes then
        ebind (ReadUBits 64 r) (\<lambda>(v, r1).
          ebind (NetBitReader_ReadBuffer (num_bytes - 8) r1) (\<lambda>(bs, r2). Inr (bytes64 v @ bs, r2)))
      else ReadBytes num_bytes r)"
  by pat_completeness auto
termination
  by (relation "measure fst") auto

declare NetBitReader_ReadBuffer.simps [simp del]

definition ReadBuffer ::
    "nat \<Rightarrow> NetBitReaderBuffer \<Rightarrow> (u8 list \<times> NetBitReaderBuffer) result" where
  "ReadBuffer num_bytes r =
     (if rBit r = 0 \<and> num_bytes \<le> length (rBytes r) then
        Inr (take num_bytes (rBytes r),
             (take_bytes num_bytes r)\<lparr>rTotalBits := rTotalBits r + int num_bytes * 8\<rparr>)
      else NetBitReader_ReadBuffer num_bytes r)"

definition IsEmpty :: "NetBitReaderBuffer \<Rightarrow> bool" where
  "IsEmpty r \<longleftrightarrow> length (rBytes r) \<le> 1"

section \<open>The owning reader\<close>

record NetBitReaderVector = NetBitReaderBuffer +
  vVector :: "u8 list"

definition NetBitReaderVector_init :: "u8 list \<Rightarrow> NetBitReaderVector" where
  "NetBitReaderVector_init data =
     \<lparr>rBytes = data, rOffset = 0, rBit = 0, rTotalBits = 0, vVector = data\<rparr>"

text \<open>The constructor from a writer returns the reset writer too.\<close>

definition NetBitReaderVector_of_writer ::
    "NetBitWriterVector \<Rightarrow> NetBitReaderVector \<times> NetBitWriterVector" where
  "NetBitReaderVector_of_writer data =
     (NetBitReaderVector_init (wBuffer data), Reset (data\<lparr>wBuffer := []\<rparr>))"

text \<open>
  The move constructor and the move assignment, each with the state it leaves in \<open>rhs\<close>. Neither
  advances \<^verbatim>\<open>m_Buffer\<close> and \<^verbatim>\<open>m_NumBytes\<close> by the \<^verbatim>\<open>m_Offset\<close> they copy.
\<close>

definition moved_from :: "NetBitReaderVector \<Rightarrow> NetBitReaderVector" where
  "moved_from rhs = rhs\<lparr>rBytes := [], rOffset := 0, rBit := 0, vVector := []\<rparr>"

definition NetBitReaderVector_move ::
    "NetBitReaderVector \<Rightarrow> NetBitReaderVector \<times> NetBitReaderVector" where
  "NetBitReaderVector_move rhs =
     ((NetBitReaderVector_init (vVector rhs))\<lparr>rBit := rBit rhs, rOffset := rOffset rhs\<rparr>,
      moved_from rhs)"

definition NetBitReaderVector_assign ::
    "NetBitReaderVector \<Rightarrow> NetBitReaderVector \<Rightarrow> NetBitReaderVector \<times> NetBitReaderVector" where
  "NetBitReaderVector_assign this rhs =
     (this\<lparr>vVector := vVector rhs, rBytes := vVector rhs, rBit := rBit rhs, rOffset := rOffset rhs\<rparr>,
      moved_from rhs)"

section \<open>The bits to read\<close>

definition rinv :: "('a :: type) NetBitReaderBuffer_scheme \<Rightarrow> bool" where
  "rinv r \<longleftrightarrow> rBit r < 8 \<and> (rBytes r = [] \<longrightarrow> rBit r = 0)"

definition rbits :: "('a :: type) NetBitReaderBuffer_scheme \<Rightarrow> bool list" where
  "rbits r = drop (rBit r) (buffer_bits (rBytes r))"

text \<open>\<open>consumed r r' bs\<close>: the reader went from \<open>r\<close> to \<open>r'\<close> by taking \<open>bs\<close>.\<close>

definition consumed :: "NetBitReaderBuffer \<Rightarrow> NetBitReaderBuffer \<Rightarrow> bool list \<Rightarrow> bool" where
  "consumed r r' bs \<longleftrightarrow> rinv r' \<and> rbits r = bs @ rbits r'
     \<and> rTotalBits r' = rTotalBits r + int (length bs)"

lemma consumed_refl [simp]: "rinv r \<Longrightarrow> consumed r r []"
  by (simp add: consumed_def)

lemma consumed_trans: "consumed r r1 xs \<Longrightarrow> consumed r1 r2 ys \<Longrightarrow> consumed r r2 (xs @ ys)"
  by (simp add: consumed_def)

lemma consumed_rinv: "consumed r r' bs \<Longrightarrow> rinv r'"
  by (simp add: consumed_def)

lemma consumed_rest: "consumed r r' bs \<Longrightarrow> rbits r = bs @ rest \<Longrightarrow> rbits r' = rest"
  by (simp add: consumed_def)

lemma rbits_total [simp]: "rbits (r\<lparr>rTotalBits := t\<rparr>) = rbits r"
  by (simp add: rbits_def)

lemma rinv_total [simp]: "rinv (r\<lparr>rTotalBits := t\<rparr>) = rinv r"
  by (simp add: rinv_def)

lemma rbits_init [simp]:
  "rbits (NetBitReaderBuffer_init bs) = buffer_bits bs" "rinv (NetBitReaderBuffer_init bs)"
  by (simp_all add: rbits_def rinv_def NetBitReaderBuffer_init_def)

lemma length_rbits: "length (rbits r) = 8 * length (rBytes r) - rBit r"
  by (simp add: rbits_def)

lemma rbits_take_byte:
  assumes "rBytes r \<noteq> []" "rBit r \<le> 8"
  shows "rbits r = drop (rBit r) (byte_bits (hd (rBytes r))) @ rbits (take_bytes 1 (r\<lparr>rBit := 0\<rparr>))"
  using assms by (cases "rBytes r") (auto simp: rbits_def take_bytes_def)

lemma word_of_bits_byte_part:
  assumes "n + b \<le> 8"
  shows "word_of_bits (take n (drop b (byte_bits x)))
    = ucast (drop_bit b x) AND (push_bit n 1 - 1)"
proof (rule bit_word_eqI)
  fix i
  show "bit (word_of_bits (take n (drop b (byte_bits x)))) i
    = bit (ucast (drop_bit b x) AND (push_bit n 1 - 1) :: u64) i" if "i < LENGTH(64)"
    using assms that
    by (auto simp: bit_word_of_bits bit_and_iff bit_ucast_iff bit_drop_bit_eq bit_mask_iff
        simp flip: mask_eq_exp_minus_1 dest: bit_imp_le_length)
qed

lemma word_of_bits_byte_rest:
  assumes "b \<le> 8" "8 \<le> n + b"
  shows "word_of_bits (drop b (byte_bits x)) = ucast (drop_bit b x) AND (push_bit n 1 - 1)"
proof (rule bit_word_eqI)
  fix i
  have "bit x (b + i) \<Longrightarrow> b + i < 8" using bit_imp_le_length [of x "b + i"] by simp
  then show "bit (word_of_bits (drop b (byte_bits x))) i
    = bit (ucast (drop_bit b x) AND (push_bit n 1 - 1) :: u64) i" if "i < LENGTH(64)"
    using assms that
    by (cases "b + i < 8")
      (auto simp: bit_word_of_bits bit_and_iff bit_ucast_iff bit_drop_bit_eq bit_mask_iff
        simp flip: mask_eq_exp_minus_1)
qed

text \<open>The byte-wise path, up to 63 bits.\<close>

lemma ReadBitsInternal_spec:
  assumes "rinv r" "0 \<le> n" "n < 64" "nat n \<le> length (rbits r)"
  shows "\<exists>r'. ReadBitsInternal n r = Inr (word_of_bits (take (nat n) (rbits r)), r')
    \<and> rinv r' \<and> rbits r' = drop (nat n) (rbits r) \<and> rTotalBits r' = rTotalBits r"
  using assms
proof (induction n r rule: ReadBitsInternal.induct)
  case (1 n r)
  show ?case
  proof (cases "n = 0")
    case True
    with "1.prems" show ?thesis
      by (simp add: ReadBitsInternal.simps [of 0] word_of_bits_def)
  next
    case False
    let ?v = "ucast (drop_bit (rBit r) (hd (rBytes r))) :: u64"
    let ?r = "take_bytes 1 (r\<lparr>rBit := 0\<rparr>)"
    have n: "0 < n" "n \<noteq> 64" "\<not> 64 \<le> n" using False "1.prems" by auto
    have ne: "rBytes r \<noteq> []" using "1.prems" n by (auto simp: rbits_def)
    have b: "rBit r < 8" using "1.prems" by (simp add: rinv_def)
    note split = rbits_take_byte [OF ne less_imp_le [OF b]]
    show ?thesis
    proof (cases "8 \<le> int (rBit r) + n")
      case True
      let ?k = "8 - rBit r"
      have k: "nat (n - int ?k) = nat n - ?k" "?k \<le> nat n" using True b by auto
      have inv: "rinv ?r" by (simp add: rinv_def take_bytes_def)
      have "nat (n - int ?k) \<le> length (rbits ?r)"
        using "1.prems"(4) arg_cong [OF split, of length] b unfolding k by simp
      then obtain r' where r': "ReadBitsInternal (n - int ?k) ?r
          = Inr (word_of_bits (take (nat n - ?k) (rbits ?r)), r')"
        "rinv r'" "rbits r' = drop (nat n - ?k) (rbits ?r)" "rTotalBits r' = rTotalBits ?r"
        using "1.IH" [OF _ _ ne n(3) refl refl True refl inv] n k True b
        by (auto simp: rinv_def)
      have low: "?v AND (push_bit (nat n) 1 - 1) = word_of_bits (drop (rBit r) (byte_bits (hd (rBytes r))))"
        using word_of_bits_byte_rest [of "rBit r" "nat n" "hd (rBytes r)"] k b by simp
      have val: "word_of_bits (take (nat n) (rbits r))
        = (?v AND (push_bit (nat n) 1 - 1)) OR push_bit ?k (word_of_bits (take (nat n - ?k) (rbits ?r)))"
        using k(2) by (subst split) (simp add: word_of_bits_append flip: low)
      have rest: "drop (nat n) (rbits r) = drop (nat n - ?k) (rbits ?r)"
        using k(2) by (subst split) simp
      show ?thesis
        using r' n ne True unfolding val rest
        by (subst ReadBitsInternal.simps) (simp add: Let_def take_bytes_def)
    next
      case False
      have len: "nat n + rBit r \<le> 8" using False n by auto
      have val: "word_of_bits (take (nat n) (rbits r)) = ?v AND (push_bit (nat n) 1 - 1)"
        using word_of_bits_byte_part [OF len, of "hd (rBytes r)"] len
        by (subst split) simp
      have rest: "rbits (r\<lparr>rBit := nat (int (rBit r) + n)\<rparr>) = drop (nat n) (rbits r)"
        using n by (simp add: rbits_def nat_add_distrib add.commute)
      show ?thesis
        using n ne False rest unfolding val
        by (subst ReadBitsInternal.simps) (simp add: Let_def rinv_def)
    qed
  qed
qed

lemma ReadUBits_spec:
  assumes "rinv r" "0 \<le> n" "n < 64" "nat n \<le> length (rbits r)"
  shows "\<exists>r'. ReadUBits n r = Inr (word_of_bits (take (nat n) (rbits r)), r')
    \<and> consumed r r' (take (nat n) (rbits r))"
  using ReadBitsInternal_spec [of "r\<lparr>rTotalBits := rTotalBits r + n\<rparr>" n] assms
  by (auto simp: ReadUBits_def consumed_def)

lemma ReadUBits_value:
  assumes "rinv r" "0 \<le> n" "n < 64" "rbits r = bits_of (nat n) v @ rest"
  shows "\<exists>r'. ReadUBits n r = Inr (take_bit (nat n) v, r')
    \<and> consumed r r' (bits_of (nat n) v) \<and> rbits r' = rest"
  using ReadUBits_spec [OF assms(1-3)] assms(4)
  by (auto simp: word_of_bits_bits_of dest: consumed_rest)

text \<open>A read behind the end throws; up to 63 bits there is no other outcome.\<close>

lemma ReadBitsInternal_short:
  assumes "rinv r" "n < 64" "int (length (rbits r)) < n"
  shows "ReadBitsInternal n r = Inl OutOfRange"
  using assms
proof (induction n r rule: ReadBitsInternal.induct)
  case (1 n r)
  have n: "0 < n" "n \<noteq> 64" "\<not> 64 \<le> n" using "1.prems" by auto
  show ?case
  proof (cases "rBytes r = []")
    case True
    then show ?thesis using n by (subst ReadBitsInternal.simps) simp
  next
    case ne: False
    let ?r = "take_bytes 1 (r\<lparr>rBit := 0\<rparr>)"
    have b: "rBit r < 8" using "1.prems" by (simp add: rinv_def)
    note split = rbits_take_byte [OF ne less_imp_le [OF b]]
    have l: "length (rbits r) = 8 - rBit r + length (rbits ?r)"
      using arg_cong [OF split, of length] by simp
    then have big: "8 \<le> int (rBit r) + n" using "1.prems"(3) b by auto
    have inv: "rinv ?r" by (simp add: rinv_def take_bytes_def)
    have "int (length (rbits ?r)) < n - int (8 - rBit r)"
      using "1.prems"(3) l by auto
    then have "ReadBitsInternal (n - int (8 - rBit r)) ?r = Inl OutOfRange"
      using "1.IH" [OF _ _ ne n(3) refl refl big refl inv] n by auto
    then show ?thesis
      using n ne big by (subst ReadBitsInternal.simps) (simp add: Let_def take_bytes_def)
  qed
qed

lemma ReadUBits_short:
  "rinv r \<Longrightarrow> n < 64 \<Longrightarrow> int (length (rbits r)) < n \<Longrightarrow> ReadUBits n r = Inl OutOfRange"
  using ReadBitsInternal_short [of "r\<lparr>rTotalBits := rTotalBits r + n\<rparr>" n]
  by (simp add: ReadUBits_def)

text \<open>C34: up to 63 bits, \<^verbatim>\<open>ReadUBits\<close> returns the next bits of the stream, least
  significant first, and advances behind them; if there are not that many it throws
  \<^verbatim>\<open>std::out_of_range\<close>; nothing it does is undefined.\<close>

theorem ReadUBits_total:
  assumes "rinv r" "0 \<le> n" "n < 64"
  shows "if nat n \<le> length (rbits r)
    then \<exists>r'. ReadUBits n r = Inr (word_of_bits (take (nat n) (rbits r)), r')
           \<and> rinv r' \<and> rbits r' = drop (nat n) (rbits r) \<and> rTotalBits r' = rTotalBits r + n
    else ReadUBits n r = Inl OutOfRange"
proof (cases "nat n \<le> length (rbits r)")
  case True
  then show ?thesis
    using ReadUBits_spec [OF assms True] assms
    by (auto simp: consumed_def) (metis append_eq_conv_conj length_take min.absorb2)
next
  case False
  then show ?thesis using ReadUBits_short [OF assms(1,3)] by simp
qed

theorem ReadUBits_total_witness:
  "\<exists>r'. ReadUBits 10 \<lparr>rBytes = [0xA5, 0x0F], rOffset = 0, rBit = 3, rTotalBits = 3\<rparr>
      = Inr (500, r') \<and> rTotalBits r' = 13"
proof -
  have v: "word_of_bits (take 10 (rbits \<lparr>rBytes = [0xA5, 0x0F], rOffset = 0, rBit = 3, rTotalBits = 3\<rparr>))
    = 500"
    by (simp add: rbits_def byte_bits_def upt_rec word_of_bits_def)
  show ?thesis
    using ReadUBits_total [of "\<lparr>rBytes = [0xA5, 0x0F], rOffset = 0, rBit = 3, rTotalBits = 3\<rparr>" 10]
    by (auto simp: v rinv_def length_rbits)
qed

section \<open>Signed values\<close>

text \<open>The values an \<open>n\<close>-bit two's complement field can carry.\<close>

definition fits_signed :: "nat \<Rightarrow> u64 \<Rightarrow> bool" where
  "fits_signed n v \<longleftrightarrow> - (2 ^ (n - 1)) \<le> sint v \<and> sint v < 2 ^ (n - 1)"

lemma SignExtend_take_bit:
  assumes "0 < n" "n < 64"
  shows "SignExtend (take_bit n v) (int n) = Inr (signed_take_bit (n - 1) v)"
proof -
  have h: "push_bit (n - 1) 1 AND take_bit n v \<noteq> 0 \<longleftrightarrow> bit v (n - 1)"
    using assms
    by (simp add: and.commute [of "2 ^ _"] and_exp_eq_0_iff_not_bit bit_take_bit_iff)
  have m: "push_bit n 1 - 1 = (mask n :: u64)" by (simp add: mask_eq_exp_minus_1)
  have nn: "nat (int n - 1) = n - 1" by simp
  have "(if bit v (n - 1) then take_bit n v OR NOT (mask n) else take_bit n v)
      = signed_take_bit (n - 1) v"
    using assms
    by (intro bit_word_eqI)
      (auto simp: bit_or_iff bit_not_iff bit_mask_iff bit_take_bit_iff bit_signed_take_bit_iff
        min_def not_less le_less_Suc_eq dest: le_antisym
        split: if_splits)
  then show ?thesis
    using assms h unfolding SignExtend_def Let_def nn
    by (cases "bit v (n - 1)") (simp_all add: mask_eq_exp_minus_1)
qed

lemma ReadSBits_value:
  assumes "rinv r" "0 < n" "n < 64" "rbits r = bits_of (nat n) v @ rest"
  shows "\<exists>r'. ReadSBits n r = Inr (signed_take_bit (nat n - 1) v, r')
    \<and> consumed r r' (bits_of (nat n) v) \<and> rbits r' = rest"
  using ReadUBits_value [OF assms(1) _ assms(3,4)] SignExtend_take_bit [of "nat n" v] assms(2,3)
  by (auto simp: ReadSBits_def)

lemma sint_word_of_int_u64: "- (2 ^ 63) \<le> k \<Longrightarrow> k < 2 ^ 63 \<Longrightarrow> sint (word_of_int k :: u64) = k"
  by (simp add: sint_sbintrunc' signed_take_bit_int_eq_self)

lemma fits_signed_take_bit:
  assumes "fits_signed n v"
  shows "signed_take_bit (n - 1) v = v"
proof (rule bit_word_eqI)
  fix i assume i: "i < LENGTH(64)"
  have "sint v = signed_take_bit (n - 1) (sint v)"
    using assms by (simp add: fits_signed_def signed_take_bit_int_eq_self)
  then have "bit (sint v) i = bit (sint v) (min i (n - 1))"
    using bit_signed_take_bit_iff [of "n - 1" "sint v" i] by (simp add: min.commute)
  then show "bit (signed_take_bit (n - 1) v) i = bit v i"
    using i by (simp add: bit_sint_iff bit_signed_take_bit_iff min.commute)
qed

lemma signed_bounds:
  assumes "n < 64"
  defines "m \<equiv> push_bit n 1 - 1 :: u64"
  shows "sint (0xFFFFFFFFFFFFFFFF XOR m) = - (2 ^ n)" "sint (NOT (0xFFFFFFFFFFFFFFFF XOR m)) = 2 ^ n - 1"
proof -
  have x: "0xFFFFFFFFFFFFFFFF XOR m = NOT m"
  proof -
    have "0xFFFFFFFFFFFFFFFF = (- 1 :: u64)" by simp
    then show ?thesis by (simp only: bit.xor_one_left)
  qed
  have m: "m = word_of_int (2 ^ n - 1)" by (simp add: m_def)
  have nm: "NOT m = word_of_int (- (2 ^ n))" by (simp add: m_def not_eq_complement)
  have b: "(2 :: int) ^ n \<le> 2 ^ 63" using assms(1) by (intro power_increasing) auto
  have p: "(0 :: int) < 2 ^ n" by simp
  have r1: "- (2 ^ n) < (2 :: int) ^ 63" using p b by linarith
  have r2: "- ((2 :: int) ^ 63) \<le> 2 ^ n - 1" using p by (auto intro: order_less_trans [of _ 0])
  note r = r1 r2
  show "sint (0xFFFFFFFFFFFFFFFF XOR m) = - (2 ^ n)"
    unfolding x nm using b r by (intro sint_word_of_int_u64) auto
  show "sint (NOT (0xFFFFFFFFFFFFFFFF XOR m)) = 2 ^ n - 1"
    unfolding x bit.double_compl using b r by (subst m) (intro sint_word_of_int_u64, auto)
qed
lemma WriteSBits_spec:
  assumes "winv w" "0 < n" "n < 64" "fits_signed (nat n) v"
  shows "\<exists>w'. WriteSBits dbg v n w = Inr w' \<and> wrote w w' (bits_of (nat n) v)"
proof (cases dbg)
  case True
  have le: "(2 :: int) ^ (nat n - 1) \<le> 2 ^ nat n" by (intro power_increasing) auto
  have b: "- (2 ^ nat n) \<le> sint v" "sint v \<le> 2 ^ nat n - 1"
    using assms(4) le unfolding fits_signed_def by linarith+
  have "v AND (push_bit (nat n) 1 - 1) = take_bit (nat n) v"
    by (simp add: take_bit_eq_mask mask_eq_exp_minus_1)
  then have "WriteSBits dbg v n w = WriteBits dbg (take_bit (nat n) v) n w"
    using True assms(2,3) b signed_bounds [of "nat n"]
    by (simp add: WriteSBits_def Let_def del: push_bit_of_1)
  then show ?thesis
    using WriteBits_spec [of w n dbg "take_bit (nat n) v"] assms by auto
next
  case False
  then show ?thesis
    using WriteBits_spec [of w n dbg v] assms by (auto simp: WriteSBits_def writable_def)
qed

text \<open>A signed value in the range of \<open>n\<close>-bit two's complement is accepted by
  \<^verbatim>\<open>WriteSBits\<close>, in both builds, and the bits it appends are read back by \<^verbatim>\<open>ReadSBits\<close> as that
  value.\<close>

theorem WriteSBits_ReadSBits:
  assumes "winv w" "0 < n" "n < 64" "fits_signed (nat n) v"
  shows "\<exists>w' bs. WriteSBits dbg v n w = Inr w' \<and> wbits w' = wbits w @ bs
    \<and> (\<forall>r rest. rinv r \<and> rbits r = bs @ rest \<longrightarrow>
         (\<exists>r'. ReadSBits n r = Inr (v, r') \<and> rinv r' \<and> rbits r' = rest))"
proof -
  obtain w' where w': "WriteSBits dbg v n w = Inr w'" "wrote w w' (bits_of (nat n) v)"
    using WriteSBits_spec [OF assms] by blast
  have "\<exists>r'. ReadSBits n r = Inr (v, r') \<and> rinv r' \<and> rbits r' = rest"
    if "rinv r" "rbits r = bits_of (nat n) v @ rest" for r rest
    using ReadSBits_value [OF that(1) assms(2,3) that(2)] fits_signed_take_bit [OF assms(4)]
    by (auto dest: consumed_rinv)
  with w' show ?thesis by (blast dest: wrote_wbits)
qed

theorem WriteSBits_ReadSBits_witness:
  "\<exists>w' bs. WriteSBits True (- 3) 5 NetBitWriterVector_init = Inr w' \<and> wbits w' = bs
    \<and> (\<forall>r rest. rinv r \<and> rbits r = bs @ rest \<longrightarrow>
         (\<exists>r'. ReadSBits 5 r = Inr (- 3, r') \<and> rinv r' \<and> rbits r' = rest))"
  using WriteSBits_ReadSBits [of NetBitWriterVector_init 5 "- 3" True]
  by (simp add: fits_signed_def)

lemma take_bit_top: "0 < n \<Longrightarrow> take_bit n (2 ^ (n - 1) :: u64) = 2 ^ (n - 1)"
  by (rule bit_word_eqI) (auto simp: bit_take_bit_iff bit_exp_iff)

lemma signed_take_bit_top:
  assumes "0 < n"
  shows "signed_take_bit (n - 1) (2 ^ (n - 1) :: u64) = - (2 ^ (n - 1))"
proof -
  have "- (2 ^ (n - 1)) = (NOT (mask (n - 1)) :: u64)"
    by (simp add: mask_eq_exp_minus_1 not_eq_complement)
  then show ?thesis
    by (intro bit_word_eqI)
      (auto simp: bit_signed_take_bit_iff bit_exp_iff bit_not_iff bit_mask_iff min_def)
qed

lemma WriteSBits_accepts:
  assumes "winv w" "0 < n" "n < 64"
  shows "\<exists>w'. WriteSBits True (2 ^ (n - 1)) (int n) w = Inr w'
    \<and> wrote w w' (bits_of n (2 ^ (n - 1)))"
proof -
  have le: "(2 :: int) ^ (n - 1) < 2 ^ n" using assms by (intro power_strict_increasing) auto
  have le': "(2 :: int) ^ (n - 1) < 2 ^ 63" using assms by (intro power_strict_increasing) auto
  have s: "sint (2 ^ (n - 1) :: u64) = 2 ^ (n - 1)"
    using sint_word_of_int_u64 [of "2 ^ (n - 1)"] le' by (simp add: order_trans [of _ 0])
  have b: "- (2 ^ n) \<le> sint (2 ^ (n - 1) :: u64)" "sint (2 ^ (n - 1) :: u64) \<le> 2 ^ n - 1"
    unfolding s using le by (simp_all add: order_trans [of _ 0])
  have "2 ^ (n - 1) AND (push_bit n 1 - 1) = (2 ^ (n - 1) :: u64)"
    using take_bit_top [OF assms(2)] by (simp add: take_bit_eq_mask mask_eq_exp_minus_1)
  then have "WriteSBits True (2 ^ (n - 1)) (int n) w = WriteBits True (2 ^ (n - 1)) (int n) w"
    using assms(3) b signed_bounds [OF assms(3)]
    by (simp add: WriteSBits_def Let_def del: push_bit_of_1)
  then show ?thesis
    using WriteBits_spec [of w "int n" True "2 ^ (n - 1)"] take_bit_top assms
    by (simp add: writable_def)
qed

text \<open>The range check of the debug \<^verbatim>\<open>WriteSBits\<close> is one bit too wide:
  \<open>2 ^ (n - 1)\<close> passes it although an \<open>n\<close>-bit field cannot carry it, and is read back as
  \<open>- (2 ^ (n - 1))\<close>.\<close>

theorem WriteSBits_check_lax:
  assumes "winv w" "0 < n" "n < 64"
  shows "\<exists>w' bs. WriteSBits True (2 ^ (n - 1)) (int n) w = Inr w' \<and> wbits w' = wbits w @ bs
    \<and> (\<forall>r rest. rinv r \<and> rbits r = bs @ rest \<longrightarrow>
         (\<exists>r'. ReadSBits (int n) r = Inr (- (2 ^ (n - 1)), r')))"
proof -
  have "\<exists>r'. ReadSBits (int n) r = Inr (- (2 ^ (n - 1)), r')"
    if "rinv r" "rbits r = bits_of n (2 ^ (n - 1)) @ rest" for r rest
    using ReadSBits_value [OF that(1), of "int n" "2 ^ (n - 1)" rest] that(2) assms(2,3)
      signed_take_bit_top [OF assms(2)]
    by auto
  with WriteSBits_accepts [OF assms] show ?thesis by (blast dest: wrote_wbits)
qed

theorem WriteSBits_check_lax_witness:
  "\<exists>w' bs. WriteSBits True 128 8 NetBitWriterVector_init = Inr w' \<and> wbits w' = bs
    \<and> (\<forall>r rest. rinv r \<and> rbits r = bs @ rest \<longrightarrow> (\<exists>r'. ReadSBits 8 r = Inr (- 128, r')))"
  using WriteSBits_check_lax [of NetBitWriterVector_init 8] by simp

section \<open>64 bits at a time\<close>

lemma buffer_bits_drop: "buffer_bits (drop n bs) = drop (8 * n) (buffer_bits bs)"
proof (induction bs arbitrary: n)
  case (Cons b bs)
  then show ?case by (cases n) auto
qed simp

lemma ReadUBits_64:
  assumes "0 < rBit r" "rBit r < 8" "9 \<le> length (rBytes r)"
  shows "\<exists>r'. ReadUBits 64 r = Inr (word_of_bits (take 64 (rbits r)), r')
    \<and> consumed r r' (take 64 (rbits r)) \<and> rBit r' = rBit r"
proof -
  let ?bs = "rBytes r"
  have e: "?bs = take 8 ?bs @ ?bs ! 8 # drop 9 ?bs"
    using assms(3) id_take_nth_drop [of 8 ?bs] by simp
  let ?lo = "buffer_bits (take 8 ?bs)"
  have l: "length ?lo = 64" using assms(3) by simp
  have r: "rbits r = drop (rBit r) ?lo @ byte_bits (?bs ! 8) @ buffer_bits (drop 9 ?bs)"
    unfolding rbits_def using assms(2) l by (subst e) simp
  have v: "word_of_bits (take 64 (rbits r))
    = drop_bit (rBit r) (le64 (take 8 ?bs)) OR push_bit (64 - rBit r)
        (ucast (?bs ! 8 AND (push_bit (rBit r) 1 - 1)))"
  proof (rule bit_word_eqI)
    fix i assume i: "i < LENGTH(64)"
    show "bit (word_of_bits (take 64 (rbits r))) i = bit (drop_bit (rBit r) (le64 (take 8 ?bs))
        OR push_bit (64 - rBit r) (ucast (?bs ! 8 AND (push_bit (rBit r) 1 - 1)))) i"
      using assms i l
      by (cases "rBit r + i < 64")
        (auto simp: r bit_word_of_bits nth_append bit_or_iff bit_drop_bit_eq le64_def
          bit_push_bit_iff bit_ucast_iff bit_and_iff bit_mask_iff
          simp flip: buffer_bits_def mask_eq_exp_minus_1)
  qed
  let ?r = "take_bytes 8 (r\<lparr>rTotalBits := rTotalBits r + 64\<rparr>)"
  have rest: "rbits ?r = drop 64 (rbits r)"
    by (simp add: rbits_def take_bytes_def buffer_bits_drop add.commute)
  have "ReadUBits 64 r = Inr (word_of_bits (take 64 (rbits r)), ?r)"
    unfolding v using assms by (subst ReadUBits_def, subst ReadBitsInternal.simps) (simp add: Let_def)
  moreover have "consumed r ?r (take 64 (rbits r))"
    using assms rest by (auto simp: consumed_def rinv_def length_rbits) (simp add: take_bytes_def)+
  moreover have "rBit ?r = rBit r" by (simp add: take_bytes_def)
  ultimately show ?thesis by blast
qed

text \<open>With at least eight bytes left, a 64-bit read is defined only off a byte
  boundary and with a ninth byte to look at: at a byte boundary it shifts by
  \<^verbatim>\<open>64 - 0\<close>, and with exactly eight bytes it reads behind the buffer.\<close>

theorem ReadUBits_64_undefined:
  assumes "rBit r < 8" "8 \<le> length (rBytes r)"
  shows "ReadUBits 64 r = Inl Undefined \<longleftrightarrow> rBit r = 0 \<or> length (rBytes r) = 8"
  using assms ReadUBits_64 [of r]
  by (auto simp: ReadUBits_def ReadBitsInternal.simps [of 64] Let_def)

theorem ReadUBits_64_undefined_witness:
  "ReadUBits 64 (NetBitReaderBuffer_init [1, 2, 3, 4, 5, 6, 7, 8, 9]) = Inl Undefined"
  using ReadUBits_64_undefined [of "NetBitReaderBuffer_init [1, 2, 3, 4, 5, 6, 7, 8, 9]"]
  by (simp add: NetBitReaderBuffer_init_def)

section \<open>Byte buffers\<close>

lemma bytes64_word_of_bits:
  assumes "length bs = 8"
  shows "bytes64 (word_of_bits (buffer_bits bs)) = bs"
proof (rule nth_equalityI)
  fix i assume "i < length (bytes64 (word_of_bits (buffer_bits bs)))"
  then have i: "i < 8" by (simp add: bytes64_def)
  have "bit (ucast (drop_bit (8 * i) (word_of_bits (buffer_bits bs))) :: u8) j = bit (bs ! i) j"
    if "j < 8" for j
  proof -
    have d: "(8 * i + j) div 8 = i" "(8 * i + j) mod 8 = j" "8 * i + j < 64" using that i by auto
    show ?thesis
      using assms that d
      by (simp add: bit_ucast_iff bit_drop_bit_eq bit_word_of_bits buffer_bits_nth)
  qed
  then have "ucast (drop_bit (8 * i) (word_of_bits (buffer_bits bs))) = bs ! i"
    by (intro bit_word_eqI) simp
  then show "bytes64 (word_of_bits (buffer_bits bs)) ! i = bs ! i"
    using i by (simp add: bytes64_def)
qed (simp add: bytes64_def assms)

lemma byte_bits_inj: "byte_bits a = byte_bits b \<Longrightarrow> a = b"
proof (rule bit_word_eqI)
  fix i assume e: "byte_bits a = byte_bits b" and "i < LENGTH(8)"
  then have "i < 8" by simp
  then show "bit a i = bit b i" using e by (metis nth_byte_bits)
qed

lemma buffer_bits_inj: "length as = length bs \<Longrightarrow> buffer_bits as = buffer_bits bs \<Longrightarrow> as = bs"
  by (induction as bs rule: list_induct2) (auto dest: byte_bits_inj)

lemma ReadBytes_value:
  "rinv r \<Longrightarrow> rbits r = buffer_bits bs @ rest \<Longrightarrow>
     \<exists>r'. ReadBytes (length bs) r = Inr (bs, r') \<and> consumed r r' (buffer_bits bs)"
proof (induction bs arbitrary: r)
  case (Cons b bs)
  have "rbits r = bits_of (nat 8) (ucast b) @ (buffer_bits bs @ rest)"
    using Cons.prems by simp
  then obtain r1 where r1: "ReadUBits 8 r = Inr (take_bit 8 (ucast b), r1)"
    "consumed r r1 (byte_bits b)" "rbits r1 = buffer_bits bs @ rest"
    using ReadUBits_value [of r 8 "ucast b"] Cons.prems by auto
  moreover have "ucast (take_bit 8 (ucast b :: u64)) = b"
    by (rule bit_word_eqI) (simp add: bit_ucast_iff bit_take_bit_iff)
  ultimately show ?case
    using Cons.IH [OF consumed_rinv [OF r1(2)] r1(3)] by (auto intro: consumed_trans)
qed simp

lemma NetBitReader_ReadBuffer_value:
  "rinv r \<Longrightarrow> 0 < rBit r \<Longrightarrow> rbits r = buffer_bits bs @ rest \<Longrightarrow>
     \<exists>r'. NetBitReader_ReadBuffer (length bs) r = Inr (bs, r') \<and> consumed r r' (buffer_bits bs)"
proof (induction "length bs" arbitrary: bs r rule: less_induct)
  case less
  show ?case
  proof (cases "8 \<le> length bs")
    case False
    then show ?thesis
      using ReadBytes_value [OF less.prems(1,3)] by (subst NetBitReader_ReadBuffer.simps) simp
  next
    case True
    let ?hd = "take 8 bs" and ?tl = "drop 8 bs"
    have l: "length ?hd = 8" using True by simp
    have split: "buffer_bits bs = buffer_bits ?hd @ buffer_bits ?tl"
      by (simp flip: buffer_bits_simps(3))
    have "8 * length (rBytes r) - rBit r \<ge> 64"
      using arg_cong [OF less.prems(3), of length] True by (simp add: length_rbits)
    then have "9 \<le> length (rBytes r)" using less.prems(2) by linarith
    then obtain r1 where r1: "ReadUBits 64 r = Inr (word_of_bits (take 64 (rbits r)), r1)"
      "consumed r r1 (take 64 (rbits r))" "rBit r1 = rBit r"
      using ReadUBits_64 [of r] less.prems(1,2) by (auto simp: rinv_def)
    have t: "take 64 (rbits r) = buffer_bits ?hd"
      using less.prems(3) split l by simp
    have lt: "length ?tl < length bs" using True by simp
    have rest: "rbits r1 = buffer_bits ?tl @ rest"
      using r1(2) less.prems(3) split unfolding t by (simp add: consumed_def)
    obtain r2 where "NetBitReader_ReadBuffer (length ?tl) r1 = Inr (?tl, r2)"
      "consumed r1 r2 (buffer_bits ?tl)"
      using less.hyps [OF lt consumed_rinv [OF r1(2)] _ rest] less.prems(2) r1(3) by auto
    then show ?thesis
      using True r1 bytes64_word_of_bits [OF l] unfolding t
      by (subst NetBitReader_ReadBuffer.simps) (auto simp: split intro: consumed_trans)
  qed
qed

lemma ReadBuffer_spec:
  assumes "rinv r" "rbits r = buffer_bits bs @ rest"
  shows "\<exists>r'. ReadBuffer (length bs) r = Inr (bs, r') \<and> consumed r r' (buffer_bits bs)"
proof (cases "rBit r = 0")
  case True
  have e: "buffer_bits (rBytes r) = buffer_bits bs @ rest"
    using assms True by (simp add: rbits_def)
  have l: "length bs \<le> length (rBytes r)" using arg_cong [OF e, of length] by simp
  have "buffer_bits (take (length bs) (rBytes r)) = buffer_bits bs"
    by (simp add: buffer_bits_take e)
  then have "take (length bs) (rBytes r) = bs"
    using l by (intro buffer_bits_inj) auto
  moreover have "consumed r ((take_bytes (length bs) r)\<lparr>rTotalBits := rTotalBits r + int (length bs) * 8\<rparr>)
      (buffer_bits bs)"
    using True e by (simp add: consumed_def rinv_def take_bytes_def rbits_def buffer_bits_drop)
  ultimately show ?thesis using True l by (simp add: ReadBuffer_def)
next
  case False
  then show ?thesis
    using NetBitReader_ReadBuffer_value [OF assms(1) _ assms(2)] by (simp add: ReadBuffer_def)
qed

text \<open>\<^verbatim>\<open>ReadBuffer\<close> gives back the bytes \<^verbatim>\<open>WriteBuffer\<close> appended, whatever the
  bit offset; on the way it does nothing undefined, because its 64-bit reads happen off a byte
  boundary only.\<close>

theorem ReadBuffer_value:
  assumes "winv w"
  shows "\<exists>w' bs. WriteBuffer dbg data w = Inr w' \<and> wbits w' = wbits w @ bs
    \<and> (\<forall>r rest. rinv r \<and> rbits r = bs @ rest \<longrightarrow>
         (\<exists>r'. ReadBuffer (length data) r = Inr (data, r') \<and> rinv r' \<and> rbits r' = rest))"
proof -
  have "\<exists>r'. ReadBuffer (length data) r = Inr (data, r') \<and> rinv r' \<and> rbits r' = rest"
    if "rinv r" "rbits r = buffer_bits data @ rest" for r rest
    using ReadBuffer_spec [OF that] that(2) by (auto dest: consumed_rinv consumed_rest)
  with WriteBuffer_spec [OF assms, of dbg data] show ?thesis by blast
qed

theorem ReadBuffer_value_witness:
  "\<exists>w' bs. WriteBuffer True [7, 8, 9] NetBitWriterVector_init = Inr w' \<and> wbits w' = bs
    \<and> (\<forall>r rest. rinv r \<and> rbits r = bs @ rest \<longrightarrow>
         (\<exists>r'. ReadBuffer 3 r = Inr ([7, 8, 9], r') \<and> rinv r' \<and> rbits r' = rest))"
  using ReadBuffer_value [of NetBitWriterVector_init True "[7, 8, 9]"]
  by (simp add: numeral_3_eq_3 del: buffer_bits_simps)

section \<open>From the writer to the reader\<close>

text \<open>A reader over a finished buffer sees the bits written, then the unused bits of the last byte.\<close>

lemma reader_of_writer:
  assumes "winv w"
  shows "\<exists>pad. length pad < 8 \<and> rbits (NetBitReaderBuffer_init (wBuffer w)) = wbits w @ pad"
proof -
  have e: "buffer_bits (wBuffer w) = wbits w @ drop (wlen w) (buffer_bits (wBuffer w))"
    by (simp add: wbits_def)
  have "length (drop (wlen w) (buffer_bits (wBuffer w))) < 8"
    using assms by (auto simp: wlen_def winv_def)
  with e show ?thesis
    by (intro exI [of _ "drop (wlen w) (buffer_bits (wBuffer w))"]) (simp del: length_drop)
qed

text \<open>Moving a \<^verbatim>\<open>NetBitReaderVector\<close> that has consumed a byte gives a reader that
  starts again at the first byte (with the bit position and the offset of the old one), so it does
  not continue the stream.\<close>

theorem move_loses_position:
  assumes "rBytes r = drop k (vVector r)" "0 < k" "k \<le> length (vVector r)" "rBit r < 8"
  shows "rbits (fst (NetBitReaderVector_move r)) \<noteq> rbits r"
proof
  assume "rbits (fst (NetBitReaderVector_move r)) = rbits r"
  then have "length (rbits (fst (NetBitReaderVector_move r))) = length (rbits r)" by simp
  then show False
    using assms by (auto simp: length_rbits NetBitReaderVector_move_def NetBitReaderVector_init_def)
qed

theorem move_loses_position_witness:
  "rbits (fst (NetBitReaderVector_move
      \<lparr>rBytes = [2], rOffset = 1, rBit = 0, rTotalBits = 8, vVector = [1, 2]\<rparr>))
    \<noteq> rbits \<lparr>rBytes = [2], rOffset = 1, rBit = 0, rTotalBits = 8, vVector = [1, 2]\<rparr>"
  using move_loses_position [of "\<lparr>rBytes = [2], rOffset = 1, rBit = 0, rTotalBits = 8, vVector = [1, 2]\<rparr>" 1]
  by simp

end
