(* ===== verification/Codec.thy ===== *)
theory Codec
  imports BitReader
begin

text \<open>
  The contract between the serializers. The library composes overloaded
  \<^verbatim>\<open>NetSerializer<T>\<close> / \<^verbatim>\<open>NetDeserializer<T>\<close> and
  \<^verbatim>\<open>NetSerializerDelta<T>\<close> / \<^verbatim>\<open>NetDeserializerDelta<T>\<close> structs: a container calls those of its
  element type. Here the element's operations are arguments of the container's, and the two
  locales state what a container relies on and what it promises in turn. Fields of numbers, the
  lengths and indices of the wire format, come first.
\<close>

section \<open>Serializers as functions\<close>

type_synonym 'a serializer = "'a \<Rightarrow> NetBitWriterVector \<Rightarrow> NetBitWriterVector result"
type_synonym 'a deserializer = "'a \<Rightarrow> NetBitReaderBuffer \<Rightarrow> ('a \<times> NetBitReaderBuffer) result"
type_synonym 'a delta_serializer =
  "'a \<Rightarrow> 'a \<Rightarrow> NetBitWriterVector \<Rightarrow> (bool \<times> NetBitWriterVector) result"

section \<open>Numbers in a fixed number of bits\<close>

definition nat_bits :: "nat \<Rightarrow> nat \<Rightarrow> bool list" where
  "nat_bits n v = bits_of n (of_nat v)"

lemma length_nat_bits [simp]: "length (nat_bits n v) = n"
  by (simp add: nat_bits_def)

lemma nat_bits_1 [simp]: "nat_bits (Suc 0) 0 = [False]" "nat_bits (Suc 0) (Suc 0) = [True]"
  by (simp_all add: nat_bits_def bits_of_def)

lemma unat_of_nat_bound:
  assumes "v < 2 ^ n" "n \<le> 64"
  shows "unat (of_nat v :: u64) = v"
proof -
  have "(2 :: nat) ^ n \<le> 2 ^ 64" using assms(2) by (intro power_increasing) auto
  then have "v < 2 ^ 64" using assms(1) by linarith
  then show ?thesis by (simp add: unsigned_of_nat take_bit_nat_eq_self)
qed

lemma of_nat_take_bit:
  assumes "v < 2 ^ n" "n \<le> 64"
  shows "take_bit n (of_nat v :: u64) = of_nat v"
proof -
  have "unat (take_bit n (of_nat v :: u64)) = take_bit n v"
    using unat_of_nat_bound [OF assms] by (simp add: unsigned_take_bit_eq)
  then show ?thesis
    using assms unat_of_nat_bound [OF assms]
    by (metis take_bit_nat_eq_self word_unat_eq_iff)
qed

lemma WriteBits_nat:
  assumes "winv w" "v < 2 ^ n" "n \<le> 64"
  shows "\<exists>w'. WriteBits dbg (of_nat v) (int n) w = Inr w' \<and> wrote w w' (nat_bits n v)"
  using WriteBits_spec [of w "int n" dbg "of_nat v"] of_nat_take_bit [OF assms(2,3)] assms(1)
  by (simp add: writable_def nat_bits_def)

lemma ReadUBits_nat:
  assumes "rinv r" "rbits r = nat_bits n v @ rest" "v < 2 ^ n" "n < 64"
  shows "\<exists>r'. ReadUBits (int n) r = Inr (of_nat v, r')
    \<and> consumed r r' (nat_bits n v) \<and> rbits r' = rest"
  using ReadUBits_value [of r "int n" "of_nat v" rest] assms of_nat_take_bit [of v n]
  by (simp add: nat_bits_def)

lemma CursorWriteBits_nat:
  assumes "winv w0" "reserved c w0" "wrote w0 w (ys @ rest)"
    and "length ys = n" "int n \<le> cSize c" "v < 2 ^ n" "n < 64"
  shows "\<exists>c' w'. CursorWriteBits dbg (of_nat v) (int n) c w = Inr (c', w')
    \<and> wrote w0 w' (nat_bits n v @ rest)"
  using cursor_patch [of w0 c w ys rest "int n" dbg "of_nat v"] assms of_nat_take_bit [of v n]
  by (simp add: writable_def nat_bits_def)

text \<open>Flags.\<close>

lemma WriteBits_flag:
  "winv w \<Longrightarrow> \<exists>w'. WriteBits dbg (of_bool b) 1 w = Inr w' \<and> wrote w w' [b]"
  using WriteBits_nat [of w "of_bool b" 1 dbg] by (cases b) auto

lemma WriteBits_flag_1: "winv w \<Longrightarrow> \<exists>w'. WriteBits dbg 1 1 w = Inr w' \<and> wrote w w' [True]"
  using WriteBits_flag [of w dbg True] by simp

lemma WriteBits_flag_0: "winv w \<Longrightarrow> \<exists>w'. WriteBits dbg 0 1 w = Inr w' \<and> wrote w w' [False]"
  using WriteBits_flag [of w dbg False] by simp

lemma ReadUBits_flag:
  assumes "rinv r" "rbits r = b # rest"
  shows "\<exists>r'. ReadUBits 1 r = Inr (of_bool b, r') \<and> consumed r r' [b] \<and> rbits r' = rest"
  using ReadUBits_nat [of r 1 "of_bool b" rest] assms by (cases b) auto

lemma CursorWriteBits_flag:
  assumes "winv w0" "reserved c w0" "wrote w0 w (b0 # rest)" "1 \<le> cSize c"
  shows "\<exists>c' w'. CursorWriteBits dbg (of_bool b) 1 c w = Inr (c', w') \<and> wrote w0 w' (b # rest)"
  using CursorWriteBits_nat [OF assms(1,2), of w "[b0]" rest 1 "of_bool b" dbg] assms(3,4)
  by (cases b) auto

lemma Reserve_flag:
  assumes "winv w"
  shows "\<exists>c w'. Reserve dbg 1 w = Inr (c, w') \<and> wrote w w' [False] \<and> reserved c w \<and> cSize c = 1"
  using Reserve_spec [OF assms, of 1 dbg] by simp

text \<open>
  The width of a length or an index: \<^verbatim>\<open>GetRequiredBits\<close> of the \<^verbatim>\<open>std::size_t\<close> bound. The reader
  takes at most 63 bits, so the bound has to be below \<open>2 ^ 63\<close>. Counts of fields and of
  enumerators are \<^verbatim>\<open>int\<close>.
\<close>

abbreviation size_bits :: "nat \<Rightarrow> nat" where
  "size_bits m \<equiv> GetRequiredBits U64 (int m)"

abbreviation count_bits :: "nat \<Rightarrow> nat" where
  "count_bits m \<equiv> GetRequiredBits I32 (int m)"

lemma required_bits:
  assumes "wide t" "in_ctype t (int m)" "m < 2 ^ k" "1 \<le> k"
  shows "GetRequiredBits t (int m) \<le> k" "0 < GetRequiredBits t (int m)"
    and "v \<le> m \<Longrightarrow> v < 2 ^ GetRequiredBits t (int m)"
proof -
  have "int m < 2 ^ k" using assms(3) by simp
  then show "GetRequiredBits t (int m) \<le> k"
    using GetRequiredBits_le [of t "int m" k] assms by simp
  show "0 < GetRequiredBits t (int m)"
    using GetRequiredBits_range(1) [of t "int m"] assms by simp
  have "int m < 2 ^ GetRequiredBits t (int m)"
    using GetRequiredBits_fits [of t "int m"] assms by simp
  then have "m < 2 ^ GetRequiredBits t (int m)"
    by simp
  then show "v \<le> m \<Longrightarrow> v < 2 ^ GetRequiredBits t (int m)" by linarith
qed

lemma size_bits:
  assumes "m < 2 ^ 63"
  shows "size_bits m < 64" "0 < size_bits m" "v \<le> m \<Longrightarrow> v < 2 ^ size_bits m"
proof -
  have w: "wide U64" "in_ctype U64 (int m)"
    using assms by (simp_all add: wide_def in_ctype_def ctype_min_def ctype_max_def)
  note b = required_bits [OF w assms]
  show "size_bits m < 64" "0 < size_bits m" "v \<le> m \<Longrightarrow> v < 2 ^ size_bits m"
    using b by simp_all
qed

lemma count_bits:
  assumes "m < 2 ^ 31"
  shows "count_bits m < 32" "0 < count_bits m" "v \<le> m \<Longrightarrow> v < 2 ^ count_bits m"
proof -
  have w: "wide I32" "in_ctype I32 (int m)"
    using assms by (simp_all add: wide_def in_ctype_def ctype_min_def ctype_max_def)
  note b = required_bits [OF w assms]
  show "count_bits m < 32" "0 < count_bits m" "v \<le> m \<Longrightarrow> v < 2 ^ count_bits m"
    using b by simp_all
qed

section \<open>The contracts\<close>

text \<open>
  A value serializer writes an encoding \<open>enc v\<close> of each well-formed value, and its deserializer
  turns any object of the type (what it held before does not matter) into that value, reading
  exactly the encoding, whatever follows it on the wire.
\<close>

locale value_codec =
  fixes ser :: "'a serializer"
    and deser :: "'a deserializer"
    and wf :: "'a \<Rightarrow> bool"
    and obj :: "'a \<Rightarrow> bool"
    and enc :: "'a \<Rightarrow> bool list"
  assumes wf_obj: "wf v \<Longrightarrow> obj v"
    and ser_enc: "winv w \<Longrightarrow> wf v \<Longrightarrow> \<exists>w'. ser v w = Inr w' \<and> wrote w w' (enc v)"
    and deser_enc: "rinv r \<Longrightarrow> wf v \<Longrightarrow> obj v0 \<Longrightarrow> rbits r = enc v @ rest \<Longrightarrow>
      \<exists>r'. deser v0 r = Inr (v, r') \<and> consumed r r' (enc v)"

text \<open>
  A delta serializer reports whether the value changed. If it did not, the writer is as it was;
  if it did, the delta deserializer turns the old value into the new one.
\<close>

locale delta_codec =
  fixes dser :: "'a delta_serializer"
    and dder :: "'a deserializer"
    and wf :: "'a \<Rightarrow> bool"
    and denc :: "'a \<Rightarrow> 'a \<Rightarrow> bool list"
  assumes denc_same: "denc v v = []"
    and dser_denc: "winv w \<Longrightarrow> wf to \<Longrightarrow> wf src \<Longrightarrow>
      \<exists>w'. dser to src w = Inr (to \<noteq> src, w') \<and> wrote w w' (denc to src)"
    and dder_denc: "rinv r \<Longrightarrow> wf to \<Longrightarrow> wf src \<Longrightarrow> to \<noteq> src \<Longrightarrow> rbits r = denc to src @ rest \<Longrightarrow>
      \<exists>r'. dder src r = Inr (to, r') \<and> consumed r r' (denc to src)"

text \<open>What a container of many elements needs: both.\<close>

locale element_codec =
  value_codec ser deser wf obj enc + delta_codec dser dder wf denc
  for ser :: "'a serializer" and deser wf obj enc dser dder denc

section \<open>Consequences\<close>

context value_codec
begin

lemma deser_rest:
  assumes "rinv r" "wf v" "obj v0" "rbits r = enc v @ rest"
  shows "\<exists>r'. deser v0 r = Inr (v, r') \<and> consumed r r' (enc v) \<and> rbits r' = rest"
  using deser_enc [OF assms] assms(4) by (auto dest: consumed_rest)

lemma value_roundtrip:
  assumes "winv w" "wf v"
  shows "\<exists>w' bs. ser v w = Inr w' \<and> winv w' \<and> wbits w' = wbits w @ bs
    \<and> (\<forall>v0 r rest. obj v0 \<and> rinv r \<and> rbits r = bs @ rest \<longrightarrow>
         (\<exists>r'. deser v0 r = Inr (v, r') \<and> rinv r' \<and> rbits r' = rest))"
proof -
  obtain w' where w': "ser v w = Inr w'" "wrote w w' (enc v)"
    using ser_enc [OF assms] by blast
  have "\<exists>r'. deser v0 r = Inr (v, r') \<and> rinv r' \<and> rbits r' = rest"
    if "obj v0" "rinv r" "rbits r = enc v @ rest" for v0 r rest
    using deser_rest [OF that(2) assms(2) that(1,3)] by (blast dest: consumed_rinv)
  with w' show ?thesis by (blast dest: wrote_wbits wrote_winv)
qed

text \<open>Through a finished buffer: what the writer holds, a reader of its bytes gives back.\<close>

lemma through_buffer:
  assumes "wf v" "obj v0"
  shows "\<exists>w r. ser v NetBitWriterVector_init = Inr w
    \<and> deser v0 (NetBitReaderBuffer_init (wBuffer w)) = Inr (v, r)"
proof -
  obtain w where w: "ser v NetBitWriterVector_init = Inr w" "wrote NetBitWriterVector_init w (enc v)"
    using ser_enc assms(1) wbits_init(2) by blast
  then obtain pad where "rbits (NetBitReaderBuffer_init (wBuffer w)) = enc v @ pad"
    using reader_of_writer [OF wrote_winv [OF w(2)]] by (auto simp: wrote_wbits)
  then show ?thesis
    using w(1) deser_enc [OF rbits_init(2) assms] by blast
qed

end

context delta_codec
begin

lemma dder_rest:
  assumes "rinv r" "wf to" "wf src" "to \<noteq> src" "rbits r = denc to src @ rest"
  shows "\<exists>r'. dder src r = Inr (to, r') \<and> consumed r r' (denc to src) \<and> rbits r' = rest"
  using dder_denc [OF assms] assms(5) by (auto dest: consumed_rest)

lemma delta_roundtrip:
  assumes "winv w" "wf to" "wf src"
  shows "\<exists>w' bs. dser to src w = Inr (to \<noteq> src, w') \<and> winv w' \<and> wbits w' = wbits w @ bs
    \<and> (to = src \<longrightarrow> bs = [])
    \<and> (\<forall>r rest. to \<noteq> src \<and> rinv r \<and> rbits r = bs @ rest \<longrightarrow>
         (\<exists>r'. dder src r = Inr (to, r') \<and> rinv r' \<and> rbits r' = rest))"
proof -
  obtain w' where w': "dser to src w = Inr (to \<noteq> src, w')" "wrote w w' (denc to src)"
    using dser_denc [OF assms] by blast
  have "\<exists>r'. dder src r = Inr (to, r') \<and> rinv r' \<and> rbits r' = rest"
    if "to \<noteq> src" "rinv r" "rbits r = denc to src @ rest" for r rest
    using dder_rest [OF that(2) assms(2,3) that(1,3)] by (blast dest: consumed_rinv)
  with w' show ?thesis
    by (intro exI [of _ w'] exI [of _ "denc to src"])
      (auto simp: denc_same dest: wrote_wbits wrote_winv)
qed

end

end
