(* ===== verification/Serialize.thy ===== *)
theory Serialize
  imports Codec
begin

text \<open>
  \<^verbatim>\<open>NetSerialize.h\<close>, \<^verbatim>\<open>NetDeserialize.h\<close>, \<^verbatim>\<open>NetSerializeDelta.h\<close> and
  \<^verbatim>\<open>NetDeserializeDelta.h\<close>: the base serializers of \<^verbatim>\<open>bool\<close>, plain data, C arrays and
  reflected structs, full and as a difference to an older value.

  Plain data is its object representation, a byte list. A reflected struct is the list of its
  field values, in the order \<^verbatim>\<open>StormReflVisitEach\<close> visits them, the fields' serializers being
  those of their types. The parent-object pointers that the struct serializers save and restore
  carry no data of the message and are left out.
\<close>

section \<open>Full values\<close>

definition NetSerializer_bool :: "bool \<Rightarrow> bool serializer" where
  "NetSerializer_bool dbg val w = WriteBits dbg (of_bool val) 1 w"

definition NetDeserializer_bool :: "bool deserializer" where
  "NetDeserializer_bool val r = ebind (ReadUBits 1 r) (\<lambda>(v, r). Inr (v \<noteq> 0, r))"

fun NetSerializeType_pod :: "bool \<Rightarrow> u8 list serializer" where
  "NetSerializeType_pod dbg [] w = Inr w"
| "NetSerializeType_pod dbg (b # bs) w =
     ebind (WriteBits dbg (ucast b AND 0xFF) 8 w) (NetSerializeType_pod dbg bs)"

fun NetDeserializeType_pod :: "u8 list deserializer" where
  "NetDeserializeType_pod [] r = Inr ([], r)"
| "NetDeserializeType_pod (_ # old) r =
     ebind (ReadUBits 8 r) (\<lambda>(v, r).
       ebind (NetDeserializeType_pod old r) (\<lambda>(bs, r). Inr (ucast v # bs, r)))"

fun NetSerializer_array :: "'a serializer \<Rightarrow> 'a list serializer" where
  "NetSerializer_array ser [] w = Inr w"
| "NetSerializer_array ser (v # vs) w = ebind (ser v w) (NetSerializer_array ser vs)"

fun NetDeserializer_array :: "'a deserializer \<Rightarrow> 'a list deserializer" where
  "NetDeserializer_array deser [] r = Inr ([], r)"
| "NetDeserializer_array deser (v # vs) r =
     ebind (deser v r) (\<lambda>(v', r).
       ebind (NetDeserializer_array deser vs r) (\<lambda>(vs', r). Inr (v' # vs', r)))"

text \<open>\<^verbatim>\<open>fStatic\<close>: the field carries the annotation \<^verbatim>\<open>static\<close>.\<close>

record 'f field =
  fStatic :: bool
  fSer :: "'f serializer"
  fDeser :: "'f deserializer"
  fDeltaSer :: "'f delta_serializer"
  fDeltaDeser :: "'f deserializer"

fun NetSerializeType_struct :: "'f field list \<Rightarrow> 'f list serializer" where
  "NetSerializeType_struct (f # fs) (v # vs) w =
     (if fStatic f then NetSerializeType_struct fs vs w
      else ebind (fSer f v w) (NetSerializeType_struct fs vs))"
| "NetSerializeType_struct fs vs w = Inr w"

fun NetDeserializeType_struct :: "'f field list \<Rightarrow> 'f list deserializer" where
  "NetDeserializeType_struct (f # fs) (v # vs) r =
     (if fStatic f then
        ebind (NetDeserializeType_struct fs vs r) (\<lambda>(vs', r). Inr (v # vs', r))
      else
        ebind (fDeser f v r) (\<lambda>(v', r).
          ebind (NetDeserializeType_struct fs vs r) (\<lambda>(vs', r). Inr (v' # vs', r))))"
| "NetDeserializeType_struct fs vs r = Inr (vs, r)"

section \<open>Differences\<close>

text \<open>
  The difference of a type that is not reflected is the whole value, unless \<^verbatim>\<open>operator ==\<close>
  (\<open>eq\<close>) says that nothing changed. \<^verbatim>\<open>std::string\<close> has the same body.
\<close>

definition NetSerializeDeltaType :: "('a \<Rightarrow> 'a \<Rightarrow> bool) \<Rightarrow> 'a serializer \<Rightarrow> 'a delta_serializer" where
  "NetSerializeDeltaType eq ser to src w =
     (if eq to src then Inr (False, w) else ebind (ser to w) (\<lambda>w. Inr (True, w)))"

definition NetDeserializeDeltaType :: "'a deserializer \<Rightarrow> 'a deserializer" where
  "NetDeserializeDeltaType deser val r = deser val r"

fun array_delta_loop ::
    "('a \<Rightarrow> 'a \<Rightarrow> bool) \<Rightarrow> 'a serializer \<Rightarrow> 'a list \<Rightarrow> 'a list \<Rightarrow> nat \<Rightarrow> NetBitWriterVector
       \<Rightarrow> (nat \<times> NetBitWriterVector) result" where
  "array_delta_loop ne ser (t # ts) (s # ss) num_differ w =
     ebind (ser t w) (array_delta_loop ne ser ts ss (if ne t s then num_differ + 1 else num_differ))"
| "array_delta_loop ne ser ts ss num_differ w = Inr (num_differ, w)"

definition NetSerializerDelta_array ::
    "bool \<Rightarrow> ('a \<Rightarrow> 'a \<Rightarrow> bool) \<Rightarrow> 'a serializer \<Rightarrow> 'a list delta_serializer" where
  "NetSerializerDelta_array dbg ne ser to src w =
     ebind (Reserve dbg 0 w) (\<lambda>(cursor, w).
     ebind (array_delta_loop ne ser to src 0 w) (\<lambda>(num_differ, w).
       if num_differ = 0 then ebind (RollBack cursor w) (\<lambda>w. Inr (False, w))
       else Inr (True, w)))"

definition NetDeserializerDelta_array :: "'a deserializer \<Rightarrow> 'a list deserializer" where
  "NetDeserializerDelta_array deser val r = NetDeserializer_array deser val r"

text \<open>
  The member visitor: \<open>i\<close> is \<^verbatim>\<open>field_index\<close>. It does not look at the \<^verbatim>\<open>static\<close> annotation.
\<close>

fun NetMemberSerializeDeltaVisitor ::
    "bool \<Rightarrow> nat \<Rightarrow> nat \<Rightarrow> 'f field list \<Rightarrow> 'f list \<Rightarrow> 'f list \<Rightarrow> nat \<Rightarrow> NetBitWriterVector
       \<Rightarrow> (nat \<times> NetBitWriterVector) result" where
  "NetMemberSerializeDeltaVisitor dbg required_bits i (f # fs) (t # ts) (s # ss) num_wrote w =
     ebind (Reserve dbg (int required_bits) w) (\<lambda>(cursor, w).
     ebind (fDeltaSer f t s w) (\<lambda>(changed, w).
       if changed then
         ebind (CursorWriteBits dbg (of_nat i) (int required_bits) cursor w) (\<lambda>(_, w).
           NetMemberSerializeDeltaVisitor dbg required_bits (Suc i) fs ts ss (Suc num_wrote) w)
       else
         ebind (RollBack cursor w)
           (NetMemberSerializeDeltaVisitor dbg required_bits (Suc i) fs ts ss num_wrote)))"
| "NetMemberSerializeDeltaVisitor dbg required_bits i fs ts ss num_wrote w = Inr (num_wrote, w)"

definition NetSerializeDeltaType_struct :: "bool \<Rightarrow> 'f field list \<Rightarrow> 'f list delta_serializer" where
  "NetSerializeDeltaType_struct dbg fs to src w =
     (let required_bits = count_bits (length fs) in
      ebind (Reserve dbg (int required_bits) w) (\<lambda>(cursor, w).
      ebind (NetMemberSerializeDeltaVisitor dbg required_bits 0 fs to src 0 w) (\<lambda>(num_wrote, w).
        if 0 < num_wrote then
          ebind (CursorWriteBits dbg (of_nat num_wrote) (int required_bits) cursor w)
            (\<lambda>(_, w). Inr (True, w))
        else ebind (RollBack cursor w) (\<lambda>w. Inr (False, w)))))"

fun NetMemberDeserializeDeltaVisitor ::
    "nat \<Rightarrow> nat \<Rightarrow> 'f field list \<Rightarrow> 'f list \<Rightarrow> nat \<Rightarrow> nat \<Rightarrow> NetBitReaderBuffer
       \<Rightarrow> ('f list \<times> NetBitReaderBuffer) result" where
  "NetMemberDeserializeDeltaVisitor required_bits i (f # fs) (v # vs) next_index num_remaining r =
     (if num_remaining = 0 \<or> i \<noteq> next_index then
        ebind (NetMemberDeserializeDeltaVisitor required_bits (Suc i) fs vs next_index num_remaining r)
          (\<lambda>(vs', r). Inr (v # vs', r))
      else
        ebind (fDeltaDeser f v r) (\<lambda>(v', r).
        ebind (if num_remaining - 1 \<noteq> 0
               then ebind (ReadUBits (int required_bits) r) (\<lambda>(x, r). Inr (unat x, r))
               else Inr (next_index, r)) (\<lambda>(next_index, r).
        ebind (NetMemberDeserializeDeltaVisitor required_bits (Suc i) fs vs next_index
                 (num_remaining - 1) r)
          (\<lambda>(vs', r). Inr (v' # vs', r)))))"
| "NetMemberDeserializeDeltaVisitor required_bits i fs vs next_index num_remaining r = Inr (vs, r)"

definition NetDeserializeDeltaType_struct :: "'f field list \<Rightarrow> 'f list deserializer" where
  "NetDeserializeDeltaType_struct fs val r =
     (let required_bits = count_bits (length fs) in
      ebind (ReadUBits (int required_bits) r) (\<lambda>(num_elements, r).
      ebind (ReadUBits (int required_bits) r) (\<lambda>(first_index, r).
        NetMemberDeserializeDeltaVisitor required_bits 0 fs val (unat first_index)
          (unat num_elements) r)))"

section \<open>Base codecs\<close>

interpretation bool_codec: value_codec "NetSerializer_bool dbg" NetDeserializer_bool
    "\<lambda>_. True" "\<lambda>_. True" "\<lambda>b. [b]" for dbg
proof
  show "\<exists>w'. NetSerializer_bool dbg v w = Inr w' \<and> wrote w w' [v]" if "winv w" for w v
    using WriteBits_flag [OF that] by (simp add: NetSerializer_bool_def)
  show "\<exists>r'. NetDeserializer_bool v0 r = Inr (v, r') \<and> consumed r r' [v]"
    if "rinv r" "rbits r = [v] @ rest" for r v v0 rest
    using ReadUBits_flag [of r v rest] that by (auto simp: NetDeserializer_bool_def)
qed simp

lemma byte_and_FF: "ucast b AND 0xFF = (ucast (b :: u8) :: u64)"
proof (rule bit_word_eqI)
  have m: "(0xFF :: u64) = mask 8" by (simp add: mask_eq_exp_minus_1)
  show "bit (ucast b AND 0xFF :: u64) i = bit (ucast b :: u64) i" for i
    unfolding m by (auto simp: bit_and_iff bit_ucast_iff bit_mask_iff dest: bit_imp_le_length)
qed

lemma NetSerializeType_pod_WriteBytes: "NetSerializeType_pod dbg bs w = WriteBytes dbg bs w"
  by (induction dbg bs w rule: NetSerializeType_pod.induct) (simp_all add: byte_and_FF cong: ebind_cong)

lemma NetDeserializeType_pod_ReadBytes: "NetDeserializeType_pod old r = ReadBytes (length old) r"
  by (induction old arbitrary: r) simp_all

text \<open>Plain data of \<open>n\<close> bytes.\<close>

interpretation pod_codec: value_codec "NetSerializeType_pod dbg" NetDeserializeType_pod
    "\<lambda>v. length v = n" "\<lambda>v. length v = n" buffer_bits for dbg n
proof
  show "\<exists>w'. NetSerializeType_pod dbg v w = Inr w' \<and> wrote w w' (buffer_bits v)"
    if "winv w" for w v
    using WriteBytes_spec [OF that] by (simp add: NetSerializeType_pod_WriteBytes)
  show "\<exists>r'. NetDeserializeType_pod v0 r = Inr (v, r') \<and> consumed r r' (buffer_bits v)"
    if "rinv r" "length v = n" "length v0 = n" "rbits r = buffer_bits v @ rest" for r v v0 rest
    using ReadBytes_value [OF that(1,4)] that(2,3) by (simp add: NetDeserializeType_pod_ReadBytes)
qed simp

text \<open>C arrays of \<open>n\<close> elements, for any element codec.\<close>

definition array_enc :: "('a \<Rightarrow> bool list) \<Rightarrow> 'a list \<Rightarrow> bool list" where
  "array_enc enc vs = concat (map enc vs)"

lemma array_enc_simps [simp]:
  "array_enc enc [] = []" "array_enc enc (v # vs) = enc v @ array_enc enc vs"
  by (simp_all add: array_enc_def)

definition array_of :: "nat \<Rightarrow> ('a \<Rightarrow> bool) \<Rightarrow> 'a list \<Rightarrow> bool" where
  "array_of n P vs \<longleftrightarrow> length vs = n \<and> list_all P vs"

context value_codec
begin

lemma array_ser:
  "winv w \<Longrightarrow> list_all wf vs \<Longrightarrow>
    \<exists>w'. NetSerializer_array ser vs w = Inr w' \<and> wrote w w' (array_enc enc vs)"
proof (induction vs arbitrary: w)
  case (Cons v vs)
  obtain w1 where w1: "ser v w = Inr w1" "wrote w w1 (enc v)"
    using ser_enc Cons.prems by auto
  then obtain w2 where "NetSerializer_array ser vs w1 = Inr w2" "wrote w1 w2 (array_enc enc vs)"
    using Cons.IH [OF wrote_winv [OF w1(2)]] Cons.prems by auto
  with w1 show ?case by (auto intro: wrote_trans)
qed simp

lemma array_deser:
  "rinv r \<Longrightarrow> list_all wf vs \<Longrightarrow> list_all obj old \<Longrightarrow> length old = length vs \<Longrightarrow>
    rbits r = array_enc enc vs @ rest \<Longrightarrow>
    \<exists>r'. NetDeserializer_array deser old r = Inr (vs, r') \<and> consumed r r' (array_enc enc vs)"
proof (induction vs arbitrary: r old)
  case (Cons v vs)
  obtain v0 old' where old: "old = v0 # old'" using Cons.prems by (cases old) auto
  obtain r1 where r1: "deser v0 r = Inr (v, r1)" "consumed r r1 (enc v)"
      "rbits r1 = array_enc enc vs @ rest"
    using deser_rest [of r v v0 "array_enc enc vs @ rest"] Cons.prems old by auto
  then obtain r2 where "NetDeserializer_array deser old' r1 = Inr (vs, r2)"
      "consumed r1 r2 (array_enc enc vs)"
    using Cons.IH [OF consumed_rinv [OF r1(2)]] Cons.prems old by auto
  with r1 old show ?case by (auto intro: consumed_trans)
qed simp

lemma array_codec:
  "value_codec (NetSerializer_array ser) (NetDeserializer_array deser)
     (array_of n wf) (array_of n obj) (array_enc enc)"
  using array_ser array_deser wf_obj
  by unfold_locales (auto simp: array_of_def list_all_iff)

text \<open>The default difference, with an \<^verbatim>\<open>operator ==\<close> that compares the whole value.\<close>

lemma default_delta_codec:
  assumes "\<And>v. wf v \<Longrightarrow> obj v"
  shows "delta_codec (NetSerializeDeltaType (=) ser) (NetDeserializeDeltaType deser) wf
    (\<lambda>to src. if to = src then [] else enc to)"
proof
  show "\<exists>w'. NetSerializeDeltaType (=) ser to src w = Inr (to \<noteq> src, w')
      \<and> wrote w w' (if to = src then [] else enc to)" if "winv w" "wf to" "wf src" for w to src
    using ser_enc [OF that(1,2)] that(1) by (auto simp: NetSerializeDeltaType_def)
  show "\<exists>r'. NetDeserializeDeltaType deser src r = Inr (to, r')
      \<and> consumed r r' (if to = src then [] else enc to)"
    if "rinv r" "wf to" "wf src" "to \<noteq> src" "rbits r = (if to = src then [] else enc to) @ rest"
    for r to src rest
    using deser_enc [of r to src rest] assms that by (simp add: NetDeserializeDeltaType_def)
qed simp

lemma default_element_codec:
  "element_codec ser deser wf obj enc (NetSerializeDeltaType (=) ser) (NetDeserializeDeltaType deser)
    (\<lambda>to src. if to = src then [] else enc to)"
  using default_delta_codec wf_obj value_codec_axioms by (simp add: element_codec_def)

lemma array_delta_loop:
  "winv w \<Longrightarrow> list_all wf ts \<Longrightarrow> length ss = length ts \<Longrightarrow>
    \<exists>k w'. array_delta_loop (\<noteq>) ser ts ss d w = Inr (k, w') \<and> (k = 0 \<longleftrightarrow> d = 0 \<and> ts = ss)
      \<and> wrote w w' (array_enc enc ts)"
proof (induction ts arbitrary: w ss d)
  case (Cons t ts)
  obtain s ss' where ss: "ss = s # ss'" using Cons.prems by (cases ss) auto
  obtain w1 where w1: "ser t w = Inr w1" "wrote w w1 (enc t)"
    using ser_enc Cons.prems by auto
  let ?d = "if t \<noteq> s then d + 1 else d"
  obtain k w2 where "array_delta_loop (\<noteq>) ser ts ss' ?d w1 = Inr (k, w2)"
      "k = 0 \<longleftrightarrow> ?d = 0 \<and> ts = ss'" "wrote w1 w2 (array_enc enc ts)"
    using Cons.IH [OF wrote_winv [OF w1(2)], of ss' ?d] Cons.prems ss by auto
  with w1 ss show ?case by (auto intro: wrote_trans split: if_splits)
qed simp

lemma array_delta_codec:
  "delta_codec (NetSerializerDelta_array dbg (\<noteq>) ser) (NetDeserializerDelta_array deser)
     (array_of n wf) (\<lambda>to src. if to = src then [] else array_enc enc to)"
proof
  show "\<exists>w'. NetSerializerDelta_array dbg (\<noteq>) ser to src w = Inr (to \<noteq> src, w')
      \<and> wrote w w' (if to = src then [] else array_enc enc to)"
    if w: "winv w" and wf: "array_of n wf to" "array_of n wf src" for w to src
  proof -
    obtain c w1 where w1: "Reserve dbg 0 w = Inr (c, w1)" "wrote w w1 []" "reserved c w"
      using Reserve_spec [OF w, of 0 dbg] by auto
    obtain k w2 where w2: "array_delta_loop (\<noteq>) ser to src 0 w1 = Inr (k, w2)" "k = 0 \<longleftrightarrow> to = src"
        "wrote w1 w2 (array_enc enc to)"
      using array_delta_loop [OF wrote_winv [OF w1(2)], of to src 0] wf by (auto simp: array_of_def)
    have "wrote w w2 (array_enc enc to)" using wrote_trans [OF w1(2) w2(3)] by simp
    then show ?thesis
      using RollBack_spec [OF w wrote_winv [OF w2(3)] w1(3)] w1 w2
      by (auto simp: NetSerializerDelta_array_def wrote_wbits)
  qed
  show "\<exists>r'. NetDeserializerDelta_array deser src r = Inr (to, r')
      \<and> consumed r r' (if to = src then [] else array_enc enc to)"
    if "rinv r" "array_of n wf to" "array_of n wf src" "to \<noteq> src"
      "rbits r = (if to = src then [] else array_enc enc to) @ rest" for r to src rest
    using array_deser [of r to src rest] that wf_obj
    by (auto simp: NetDeserializerDelta_array_def array_of_def list_all_iff)
qed simp

end

text \<open>A \<^verbatim>\<open>bool[n]\<close> and its difference.\<close>

interpretation bool_array: element_codec "NetSerializer_array (NetSerializer_bool dbg)"
    "NetDeserializer_array NetDeserializer_bool" "array_of n (\<lambda>_. True)" "array_of n (\<lambda>_. True)"
    "array_enc (\<lambda>b. [b])" "NetSerializerDelta_array dbg (\<noteq>) (NetSerializer_bool dbg)"
    "NetDeserializerDelta_array NetDeserializer_bool"
    "\<lambda>to src. if to = src then [] else array_enc (\<lambda>b. [b]) to" for dbg n
  unfolding element_codec_def
  using bool_codec.array_codec bool_codec.array_delta_codec by blast

section \<open>Reflected structs\<close>

text \<open>The specification of each field's codec, in the order of the fields.\<close>

record 'f field_spec =
  sWf :: "'f \<Rightarrow> bool"
  sObj :: "'f \<Rightarrow> bool"
  sEnc :: "'f \<Rightarrow> bool list"
  sDenc :: "'f \<Rightarrow> 'f \<Rightarrow> bool list"

definition field_ok :: "'f field \<Rightarrow> 'f field_spec \<Rightarrow> bool" where
  "field_ok f s \<longleftrightarrow> element_codec (fSer f) (fDeser f) (sWf s) (sObj s) (sEnc s)
     (fDeltaSer f) (fDeltaDeser f) (sDenc s)"

lemma field_ok_codecs:
  assumes "field_ok f s"
  shows "value_codec (fSer f) (fDeser f) (sWf s) (sObj s) (sEnc s)"
    and "delta_codec (fDeltaSer f) (fDeltaDeser f) (sWf s) (sDenc s)"
  using assms by (simp_all add: field_ok_def element_codec_def)

lemmas field_ser = value_codec.ser_enc [OF field_ok_codecs(1)]
lemmas field_deser = value_codec.deser_rest [OF field_ok_codecs(1)]
lemmas field_dser = delta_codec.dser_denc [OF field_ok_codecs(2)]
lemmas field_dder = delta_codec.dder_rest [OF field_ok_codecs(2)]
lemmas field_denc_same = delta_codec.denc_same [OF field_ok_codecs(2)]
lemmas field_wf_obj = value_codec.wf_obj [OF field_ok_codecs(1)]

definition struct_of :: "('f \<Rightarrow> bool) list \<Rightarrow> 'f list \<Rightarrow> bool" where
  "struct_of Ps vs \<longleftrightarrow> list_all2 (\<lambda>P v. P v) Ps vs"

lemma struct_of_simps [simp]:
  "struct_of [] vs \<longleftrightarrow> vs = []"
  "struct_of (P # Ps) (v # vs) \<longleftrightarrow> P v \<and> struct_of Ps vs"
  "struct_of (P # Ps) [] \<longleftrightarrow> False"
  by (auto simp: struct_of_def)

lemma struct_of_Cons: "struct_of (P # Ps) vs \<longleftrightarrow> (\<exists>v vs'. vs = v # vs' \<and> P v \<and> struct_of Ps vs')"
  by (cases vs) auto

fun struct_enc :: "'f field list \<Rightarrow> 'f field_spec list \<Rightarrow> 'f list \<Rightarrow> bool list" where
  "struct_enc (f # fs) (s # ss) (v # vs) =
     (if fStatic f then [] else sEnc s v) @ struct_enc fs ss vs"
| "struct_enc fs ss vs = []"

text \<open>What a struct becomes when \<open>new\<close> is deserialized into \<open>old\<close>: static fields keep their value.\<close>

fun struct_merge :: "'f field list \<Rightarrow> 'f list \<Rightarrow> 'f list \<Rightarrow> 'f list" where
  "struct_merge (f # fs) (old # olds) (new # news) =
     (if fStatic f then old else new) # struct_merge fs olds news"
| "struct_merge fs olds news = olds"

lemma struct_merge_no_static:
  "list_all (\<lambda>f. \<not> fStatic f) fs \<Longrightarrow> length olds = length fs \<Longrightarrow> length news = length fs \<Longrightarrow>
    struct_merge fs olds news = news"
  by (induction fs olds news rule: struct_merge.induct) auto

lemma struct_ser:
  assumes "list_all2 field_ok fs ss"
  shows "winv w \<Longrightarrow> struct_of (map sWf ss) vs \<Longrightarrow>
    \<exists>w'. NetSerializeType_struct fs vs w = Inr w' \<and> wrote w w' (struct_enc fs ss vs)"
  using assms
proof (induction fs ss arbitrary: vs w rule: list_all2_induct)
  case (Cons f fs s ss)
  obtain v vs' where vs: "vs = v # vs'" "sWf s v" "struct_of (map sWf ss) vs'"
    using Cons.prems by (auto simp: struct_of_Cons)
  show ?case
  proof (cases "fStatic f")
    case True
    then show ?thesis using Cons.IH vs Cons.prems by simp
  next
    case False
    obtain w1 where w1: "fSer f v w = Inr w1" "wrote w w1 (sEnc s v)"
      using field_ser [OF Cons.hyps(1)] Cons.prems vs by blast
    then show ?thesis
      using Cons.IH [OF wrote_winv [OF w1(2)] vs(3)] False vs
      by (auto intro: wrote_trans)
  qed
qed simp

lemma struct_deser:
  assumes "list_all2 field_ok fs ss"
  shows "rinv r \<Longrightarrow> struct_of (map sWf ss) vs \<Longrightarrow> struct_of (map sObj ss) olds \<Longrightarrow>
    rbits r = struct_enc fs ss vs @ rest \<Longrightarrow>
    \<exists>r'. NetDeserializeType_struct fs olds r = Inr (struct_merge fs olds vs, r')
      \<and> consumed r r' (struct_enc fs ss vs)"
  using assms
proof (induction fs ss arbitrary: vs olds r rule: list_all2_induct)
  case (Cons f fs s ss)
  obtain v vs' where vs: "vs = v # vs'" "sWf s v" "struct_of (map sWf ss) vs'"
    using Cons.prems by (auto simp: struct_of_Cons)
  obtain u us where us: "olds = u # us" "sObj s u" "struct_of (map sObj ss) us"
    using Cons.prems by (auto simp: struct_of_Cons)
  show ?case
  proof (cases "fStatic f")
    case True
    then show ?thesis using Cons.IH [OF Cons.prems(1) vs(3) us(3)] vs us Cons.prems by auto
  next
    case False
    obtain r1 where r1: "fDeser f u r = Inr (v, r1)" "consumed r r1 (sEnc s v)"
        "rbits r1 = struct_enc fs ss vs' @ rest"
      using field_deser [OF Cons.hyps(1) Cons.prems(1) vs(2) us(2),
          of "struct_enc fs ss vs' @ rest"] Cons.prems vs us False by auto
    then show ?thesis
      using Cons.IH [OF consumed_rinv [OF r1(2)] vs(3) us(3)] False vs us
      by (auto intro: consumed_trans)
  qed
qed simp

lemma struct_of_mono:
  "list_all2 field_ok fs ss \<Longrightarrow> struct_of (map sWf ss) vs \<Longrightarrow> struct_of (map sObj ss) vs"
  by (induction fs ss arbitrary: vs rule: list_all2_induct) (auto simp: struct_of_Cons field_wf_obj)

lemma struct_of_length: "struct_of Ps vs \<Longrightarrow> length vs = length Ps"
  by (auto simp: struct_of_def dest: list_all2_lengthD)

text \<open>A struct without static fields is again a codec.\<close>

lemma struct_codec:
  assumes "list_all2 field_ok fs ss" "list_all (\<lambda>f. \<not> fStatic f) fs"
  shows "value_codec (NetSerializeType_struct fs) (NetDeserializeType_struct fs)
    (struct_of (map sWf ss)) (struct_of (map sObj ss)) (struct_enc fs ss)"
proof
  have l: "length fs = length ss" using assms(1) by (rule list_all2_lengthD)
  show "\<exists>r'. NetDeserializeType_struct fs v0 r = Inr (v, r') \<and> consumed r r' (struct_enc fs ss v)"
    if "rinv r" "struct_of (map sWf ss) v" "struct_of (map sObj ss) v0"
      "rbits r = struct_enc fs ss v @ rest" for r v v0 rest
    using struct_deser [OF assms(1) that] struct_merge_no_static [OF assms(2), of v0 v] l
      struct_of_length [OF that(2)] struct_of_length [OF that(3)] by simp
qed (use struct_of_mono [OF assms(1)] struct_ser [OF assms(1)] in blast)+

text \<open>A reflected struct of any fields (each with a serializer that keeps its
  contract) is written as the encodings of its non-static fields in order; deserializing it into
  another object of the type sets exactly those fields and leaves the static ones alone.\<close>

theorem struct_full_roundtrip:
  assumes "list_all2 field_ok fs ss" "winv w" "struct_of (map sWf ss) v" "struct_of (map sObj ss) old"
  shows "\<exists>w' bs. NetSerializeType_struct fs v w = Inr w' \<and> winv w' \<and> wbits w' = wbits w @ bs
    \<and> (\<forall>r rest. rinv r \<and> rbits r = bs @ rest \<longrightarrow>
         (\<exists>r'. NetDeserializeType_struct fs old r = Inr (struct_merge fs old v, r')
           \<and> rinv r' \<and> rbits r' = rest))"
proof -
  obtain w' where w': "NetSerializeType_struct fs v w = Inr w'" "wrote w w' (struct_enc fs ss v)"
    using struct_ser [OF assms(1-3)] by blast
  have "\<exists>r'. NetDeserializeType_struct fs old r = Inr (struct_merge fs old v, r')
      \<and> rinv r' \<and> rbits r' = rest"
    if "rinv r" "rbits r = struct_enc fs ss v @ rest" for r rest
    using struct_deser [OF assms(1) that(1) assms(3,4) that(2)] that(2)
    by (auto dest: consumed_rinv consumed_rest)
  with w' show ?thesis by (blast dest: wrote_wbits wrote_winv)
qed

definition bool_field :: "bool \<Rightarrow> bool \<Rightarrow> bool field" where
  "bool_field dbg is_static = \<lparr>fStatic = is_static, fSer = NetSerializer_bool dbg,
     fDeser = NetDeserializer_bool, fDeltaSer = NetSerializeDeltaType (=) (NetSerializer_bool dbg),
     fDeltaDeser = NetDeserializeDeltaType NetDeserializer_bool\<rparr>"

definition bool_spec :: "bool field_spec" where
  "bool_spec = \<lparr>sWf = \<lambda>_. True, sObj = \<lambda>_. True, sEnc = \<lambda>b. [b],
     sDenc = \<lambda>to src. if to = src then [] else [to]\<rparr>"

lemma bool_field_ok: "field_ok (bool_field dbg st) bool_spec"
  using bool_codec.default_element_codec by (simp add: field_ok_def bool_field_def bool_spec_def)

lemma bool_field_simps [simp]:
  "fStatic (bool_field dbg st) = st" "sWf bool_spec b" "sObj bool_spec b"
  by (simp_all add: bool_field_def bool_spec_def)

theorem struct_full_roundtrip_witness:
  "\<exists>w' bs. NetSerializeType_struct [bool_field True False, bool_field True True] [True, False]
        NetBitWriterVector_init = Inr w' \<and> winv w' \<and> wbits w' = bs
    \<and> (\<forall>r rest. rinv r \<and> rbits r = bs @ rest \<longrightarrow>
         (\<exists>r'. NetDeserializeType_struct [bool_field True False, bool_field True True] [False, True] r
            = Inr ([True, True], r') \<and> rinv r' \<and> rbits r' = rest))"
  using struct_full_roundtrip [of "[bool_field True False, bool_field True True]" "[bool_spec, bool_spec]"
      NetBitWriterVector_init "[True, False]" "[False, True]"]
  by (simp add: bool_field_ok del: NetSerializeType_struct.simps NetDeserializeType_struct.simps)

section \<open>Differences of structs\<close>

text \<open>The changed fields from field number \<open>i\<close> on, each with its index in front.\<close>

fun changes :: "'f list \<Rightarrow> 'f list \<Rightarrow> nat" where
  "changes (t # ts) (s # ss) = (if t = s then 0 else 1) + changes ts ss"
| "changes _ _ = 0"

fun first_change :: "nat \<Rightarrow> 'f list \<Rightarrow> 'f list \<Rightarrow> nat" where
  "first_change i (t # ts) (s # ss) = (if t = s then first_change (Suc i) ts ss else i)"
| "first_change i _ _ = i"

fun members_enc :: "nat \<Rightarrow> nat \<Rightarrow> 'f field_spec list \<Rightarrow> 'f list \<Rightarrow> 'f list \<Rightarrow> bool list" where
  "members_enc n i (p # ps) (t # ts) (s # ss) =
     (if t = s then [] else nat_bits n i @ sDenc p t s) @ members_enc n (Suc i) ps ts ss"
| "members_enc n i _ _ _ = []"

definition struct_denc :: "'f field_spec list \<Rightarrow> 'f list \<Rightarrow> 'f list \<Rightarrow> bool list" where
  "struct_denc ps to src =
     (let n = count_bits (length ps) in
      if to = src then [] else nat_bits n (changes to src) @ members_enc n 0 ps to src)"

lemma changes_eq_0: "length ts = length ss \<Longrightarrow> changes ts ss = 0 \<longleftrightarrow> ts = ss"
  by (induction ts ss rule: changes.induct) auto

lemma changes_le: "changes ts ss \<le> length ts"
  by (induction ts ss rule: changes.induct) auto

lemma first_change_ge: "i \<le> first_change i ts ss"
proof (induction i ts ss rule: first_change.induct)
  case (1 i t ts s ss)
  then show ?case by (cases "t = s") (auto dest: Suc_leD)
qed auto

lemma first_change_less:
  "length ts = length ss \<Longrightarrow> ts \<noteq> ss \<Longrightarrow> first_change i ts ss < i + length ts"
proof (induction i ts ss rule: first_change.induct)
  case (1 i t ts s ss)
  then show ?case by (cases "t = s") auto
qed auto

lemma members_enc_same: "ts = ss \<Longrightarrow> members_enc n i ps ts ss = []"
  by (induction n i ps ts ss rule: members_enc.induct) auto

lemma members_enc_first:
  "length ts = length ss \<Longrightarrow> length ps = length ss \<Longrightarrow> ts \<noteq> ss \<Longrightarrow>
    members_enc n i ps ts ss = nat_bits n (first_change i ts ss) @ drop n (members_enc n i ps ts ss)"
proof (induction n i ps ts ss rule: members_enc.induct)
  case (1 n i p ps t ts s ss)
  then show ?case by (cases "t = s") auto
qed auto

lemma members_ser:
  assumes "list_all2 field_ok fs ps" "n < 64" "i + length fs \<le> 2 ^ n"
  shows "winv w \<Longrightarrow> struct_of (map sWf ps) ts \<Longrightarrow> struct_of (map sWf ps) ss \<Longrightarrow>
    \<exists>w'. NetMemberSerializeDeltaVisitor dbg n i fs ts ss k w = Inr (k + changes ts ss, w')
      \<and> wrote w w' (members_enc n i ps ts ss)"
  using assms
proof (induction fs ps arbitrary: i ts ss k w rule: list_all2_induct)
  case (Cons f fs p ps)
  obtain t ts' where ts: "ts = t # ts'" "sWf p t" "struct_of (map sWf ps) ts'"
    using Cons.prems by (auto simp: struct_of_Cons)
  obtain s ss' where ss: "ss = s # ss'" "sWf p s" "struct_of (map sWf ps) ss'"
    using Cons.prems by (auto simp: struct_of_Cons)
  obtain c w1 where w1: "Reserve dbg (int n) w = Inr (c, w1)" "wrote w w1 (replicate n False)"
      "reserved c w" "cSize c = int n"
    using Reserve_spec [OF Cons.prems(1), of "int n" dbg] by auto
  obtain w2 where w2: "fDeltaSer f t s w1 = Inr (t \<noteq> s, w2)" "wrote w1 w2 (sDenc p t s)"
    using field_dser [OF Cons.hyps(1) wrote_winv [OF w1(2)] ts(2) ss(2)] by blast
  have w02: "wrote w w2 (replicate n False @ sDenc p t s)"
    using wrote_trans [OF w1(2) w2(2)] .
  have i: "i < 2 ^ n" "Suc i + length fs \<le> 2 ^ n" using Cons.prems by auto
  note IH = Cons.IH [OF _ ts(3) ss(3) Cons.prems(4) i(2)]
  show ?case
  proof (cases "t = s")
    case True
    obtain w3 where w3: "RollBack c w2 = Inr w3" "wrote w w3 []"
      using RollBack_spec [OF Cons.prems(1) wrote_winv [OF w2(2)] w1(3) wrote_wbits [OF w02]] by blast
    obtain w4 where "NetMemberSerializeDeltaVisitor dbg n (Suc i) fs ts' ss' k w3
        = Inr (k + changes ts' ss', w4)" "wrote w3 w4 (members_enc n (Suc i) ps ts' ss')"
      using IH [OF wrote_winv [OF w3(2)]] by blast
    then show ?thesis using True ts ss w1 w2 w3 wrote_trans [OF w3(2)] by auto
  next
    case False
    obtain c' w3 where w3: "CursorWriteBits dbg (of_nat i) (int n) c w2 = Inr (c', w3)"
        "wrote w w3 (nat_bits n i @ sDenc p t s)"
      using CursorWriteBits_nat [OF Cons.prems(1) w1(3) w02, of n i dbg] w1(4) i Cons.prems(4) by auto
    obtain w4 where "NetMemberSerializeDeltaVisitor dbg n (Suc i) fs ts' ss' (Suc k) w3
        = Inr (Suc k + changes ts' ss', w4)" "wrote w3 w4 (members_enc n (Suc i) ps ts' ss')"
      using IH [OF wrote_winv [OF w3(2)], of "Suc k"] by blast
    then show ?thesis using False ts ss w1 w2 w3 wrote_trans [OF w3(2)] by auto
  qed
qed simp

lemma members_deser:
  assumes "list_all2 field_ok fs ps" "n < 64" "i + length fs \<le> 2 ^ n"
  shows "rinv r \<Longrightarrow> struct_of (map sWf ps) ts \<Longrightarrow> struct_of (map sWf ps) ss \<Longrightarrow>
    ts \<noteq> ss \<longrightarrow> next_index = first_change i ts ss \<Longrightarrow>
    rbits r = drop n (members_enc n i ps ts ss) @ rest \<Longrightarrow>
    \<exists>r'. NetMemberDeserializeDeltaVisitor n i fs ss next_index (changes ts ss) r = Inr (ts, r')
      \<and> consumed r r' (drop n (members_enc n i ps ts ss))"
  using assms
proof (induction fs ps arbitrary: i ts ss next_index r rule: list_all2_induct)
  case (Cons f fs p ps)
  obtain t ts' where ts: "ts = t # ts'" "sWf p t" "struct_of (map sWf ps) ts'"
    using Cons.prems by (auto simp: struct_of_Cons)
  obtain s ss' where ss: "ss = s # ss'" "sWf p s" "struct_of (map sWf ps) ss'"
    using Cons.prems by (auto simp: struct_of_Cons)
  have l: "length ts' = length ss'" "length ps = length ss'"
    using struct_of_length [OF ts(3)] struct_of_length [OF ss(3)] by simp_all
  have i: "i < 2 ^ n" "Suc i + length fs \<le> 2 ^ n" using Cons.prems by auto
  note IH = Cons.IH [OF _ ts(3) ss(3) _ _ Cons.prems(6) i(2)]
  show ?case
  proof (cases "t = s")
    case True
    obtain r' where r': "NetMemberDeserializeDeltaVisitor n (Suc i) fs ss' next_index (changes ts' ss') r
        = Inr (ts', r')" "consumed r r' (drop n (members_enc n (Suc i) ps ts' ss'))"
      using IH [OF Cons.prems(1), of next_index] Cons.prems(4,5) ts ss True by auto
    have "changes ts' ss' = 0 \<or> i \<noteq> next_index"
      using Cons.prems(4) ts ss True l first_change_ge [of "Suc i" ts' ss'] changes_eq_0 [of ts' ss']
      by auto
    then show ?thesis using r' ts ss True by auto
  next
    case False
    let ?m = "members_enc n (Suc i) ps ts' ss'"
    have ni: "next_index = i" using Cons.prems(4) ts ss False by auto
    have bits: "rbits r = sDenc p t s @ ?m @ rest" using Cons.prems(5) ts ss False by simp
    obtain r1 where r1: "fDeltaDeser f s r = Inr (t, r1)" "consumed r r1 (sDenc p t s)"
        "rbits r1 = ?m @ rest"
      using field_dder [OF Cons.hyps(1) Cons.prems(1) ts(2) ss(2) False bits] by blast
    show ?thesis
    proof (cases "ts' = ss'")
      case True
      then have z: "changes ts' ss' = 0" "?m = []"
        using changes_eq_0 [OF l(1)] by (simp_all add: members_enc_same)
      obtain r' where "NetMemberDeserializeDeltaVisitor n (Suc i) fs ss' i 0 r1 = Inr (ts', r')"
          "consumed r1 r' []"
        using IH [OF consumed_rinv [OF r1(2)], of i] True r1(3) z by auto
      then show ?thesis
        using r1 ts ss False z ni consumed_trans [OF r1(2), of r' "[]"] by simp
    next
      case ne: False
      have c: "changes ts' ss' \<noteq> 0" using ne changes_eq_0 [OF l(1)] by simp
      let ?fc = "first_change (Suc i) ts' ss'"
      have split: "?m = nat_bits n ?fc @ drop n ?m" using members_enc_first [OF l ne] .
      have "length fs = length ps" using Cons.hyps(2) by (rule list_all2_lengthD)
      then have "?fc < 2 ^ n" using first_change_less [OF l(1) ne, of "Suc i"] l i(2) by simp
      then obtain r2 where r2: "ReadUBits (int n) r1 = Inr (of_nat ?fc, r2)"
          "consumed r1 r2 (nat_bits n ?fc)" "rbits r2 = drop n ?m @ rest"
        using ReadUBits_nat [OF consumed_rinv [OF r1(2)], of n ?fc "drop n ?m @ rest"]
          r1(3) split Cons.prems(6) by auto
      have u: "unat (of_nat ?fc :: u64) = ?fc"
        using unat_of_nat_bound \<open>?fc < 2 ^ n\<close> Cons.prems(6) by simp
      obtain r' where r': "NetMemberDeserializeDeltaVisitor n (Suc i) fs ss' ?fc (changes ts' ss') r2
          = Inr (ts', r')" "consumed r2 r' (drop n ?m)"
        using IH [OF consumed_rinv [OF r2(2)], of ?fc] r2(3) by auto
      have "consumed r r' (sDenc p t s @ ?m)"
        using consumed_trans [OF r1(2) consumed_trans [OF r2(2) r'(2)]] split by simp
      then show ?thesis using r1 r2 r' ts ss False ni c u by simp
    qed
  qed
qed simp

lemma struct_delta_codec:
  assumes "list_all2 field_ok fs ps" "length fs < 2 ^ 31"
  shows "delta_codec (NetSerializeDeltaType_struct dbg fs) (NetDeserializeDeltaType_struct fs)
    (struct_of (map sWf ps)) (struct_denc ps)"
proof
  let ?n = "count_bits (length ps)" and ?wf = "struct_of (map sWf ps)"
  have lf: "length fs = length ps" using assms(1) by (rule list_all2_lengthD)
  then have b: "?n < 64" "\<And>v. v \<le> length fs \<Longrightarrow> v < 2 ^ ?n"
    using count_bits [OF assms(2)] by simp_all
  then have i: "0 + length fs \<le> 2 ^ ?n" by (simp add: less_imp_le)
  show "\<exists>w'. NetSerializeDeltaType_struct dbg fs to src w = Inr (to \<noteq> src, w')
      \<and> wrote w w' (struct_denc ps to src)" if w: "winv w" "?wf to" "?wf src" for w to src
  proof -
    have l: "length to = length src" "length to = length fs"
      using struct_of_length [OF w(2)] struct_of_length [OF w(3)] lf by simp_all
    obtain c w1 where w1: "Reserve dbg (int ?n) w = Inr (c, w1)" "wrote w w1 (replicate ?n False)"
        "reserved c w" "cSize c = int ?n"
      using Reserve_spec [OF w(1), of "int ?n" dbg] by auto
    obtain w2 where w2: "NetMemberSerializeDeltaVisitor dbg ?n 0 fs to src 0 w1
        = Inr (changes to src, w2)" "wrote w1 w2 (members_enc ?n 0 ps to src)"
      using members_ser [OF assms(1) b(1) i wrote_winv [OF w1(2)] w(2,3), of dbg 0]
      unfolding add_0 by blast
    note w02 = wrote_trans [OF w1(2) w2(2)]
    show ?thesis
    proof (cases "to = src")
      case True
      then have z: "changes to src = 0" using changes_eq_0 [OF l(1)] by simp
      obtain w3 where "RollBack c w2 = Inr w3" "wrote w w3 []"
        using RollBack_spec [OF w(1) wrote_winv [OF w2(2)] w1(3) wrote_wbits [OF w02]] by blast
      with True w1 w2 z lf show ?thesis
        by (simp add: NetSerializeDeltaType_struct_def struct_denc_def Let_def)
    next
      case False
      then have c: "0 < changes to src" "changes to src < 2 ^ ?n"
        using changes_eq_0 [OF l(1)] changes_le [of to src] b(2) l by auto
      obtain c' w3 where "CursorWriteBits dbg (of_nat (changes to src)) (int ?n) c w2 = Inr (c', w3)"
          "wrote w w3 (nat_bits ?n (changes to src) @ members_enc ?n 0 ps to src)"
        using CursorWriteBits_nat [OF w(1) w1(3) w02, of ?n "changes to src" dbg] w1(4) c b by auto
      with False w1 w2 c lf show ?thesis
        by (simp add: NetSerializeDeltaType_struct_def struct_denc_def Let_def)
    qed
  qed
  show "\<exists>r'. NetDeserializeDeltaType_struct fs src r = Inr (to, r')
      \<and> consumed r r' (struct_denc ps to src)"
    if r: "rinv r" "?wf to" "?wf src" "to \<noteq> src" "rbits r = struct_denc ps to src @ rest"
    for r to src rest
  proof -
    let ?m = "members_enc ?n 0 ps to src" and ?fc = "first_change 0 to src" and ?k = "changes to src"
    have l: "length to = length src" "length to = length fs" "length ps = length src"
      using struct_of_length [OF r(2)] struct_of_length [OF r(3)] lf by simp_all
    have k: "?k < 2 ^ ?n" using changes_le [of to src] b(2) l by auto
    have fc: "?fc < 2 ^ ?n" using first_change_less [OF l(1) r(4), of 0] b(2) l by auto
    have split: "?m = nat_bits ?n ?fc @ drop ?n ?m" using members_enc_first [OF l(1,3) r(4)] .
    have e: "struct_denc ps to src = nat_bits ?n ?k @ ?m" using r(4) by (simp add: struct_denc_def Let_def)
    obtain r1 where r1: "ReadUBits (int ?n) r = Inr (of_nat ?k, r1)" "consumed r r1 (nat_bits ?n ?k)"
        "rbits r1 = ?m @ rest"
      using ReadUBits_nat [OF r(1), of ?n ?k "?m @ rest"] r(5) e k b(1) by auto
    obtain r2 where r2: "ReadUBits (int ?n) r1 = Inr (of_nat ?fc, r2)"
        "consumed r1 r2 (nat_bits ?n ?fc)" "rbits r2 = drop ?n ?m @ rest"
      using ReadUBits_nat [OF consumed_rinv [OF r1(2)], of ?n ?fc "drop ?n ?m @ rest"]
        r1(3) split fc b(1) by auto
    obtain r3 where r3: "NetMemberDeserializeDeltaVisitor ?n 0 fs src ?fc ?k r2 = Inr (to, r3)"
        "consumed r2 r3 (drop ?n ?m)"
      using members_deser [OF assms(1) b(1) i consumed_rinv [OF r2(2)] r(2,3) _ r2(3)] by blast
    have u: "unat (of_nat ?k :: u64) = ?k" "unat (of_nat ?fc :: u64) = ?fc"
      using unat_of_nat_bound [OF k] unat_of_nat_bound [OF fc] b(1) by simp_all
    have "consumed r r3 (struct_denc ps to src)"
      using consumed_trans [OF r1(2) consumed_trans [OF r2(2) r3(2)]] split e by simp
    then show ?thesis
      using r1 r2 r3 u lf by (simp add: NetDeserializeDeltaType_struct_def)
  qed
qed (simp add: struct_denc_def)

text \<open>C3: the difference of a reflected struct. If nothing changed the writer holds
  what it held; otherwise the bits appended, read into the old value by the delta deserializer, make
  it the new value and are consumed exactly. Nested structs are covered: a struct's own codec is one
  of the fields' codecs the theorem assumes.\<close>

theorem struct_delta_roundtrip:
  assumes "list_all2 field_ok fs ps" "length fs < 2 ^ 31" "winv w"
    and "struct_of (map sWf ps) to" "struct_of (map sWf ps) src"
  shows "\<exists>w' bs. NetSerializeDeltaType_struct dbg fs to src w = Inr (to \<noteq> src, w')
    \<and> winv w' \<and> wbits w' = wbits w @ bs \<and> (to = src \<longrightarrow> bs = [])
    \<and> (\<forall>r rest. to \<noteq> src \<and> rinv r \<and> rbits r = bs @ rest \<longrightarrow>
         (\<exists>r'. NetDeserializeDeltaType_struct fs src r = Inr (to, r') \<and> rinv r' \<and> rbits r' = rest))"
  using delta_codec.delta_roundtrip [OF struct_delta_codec [OF assms(1,2)] assms(3-5)] .

theorem struct_delta_roundtrip_witness:
  "\<exists>w' bs. NetSerializeDeltaType_struct True [bool_field True False, bool_field True False]
        [True, False] [True, True] NetBitWriterVector_init = Inr (True, w')
    \<and> wbits w' = bs
    \<and> (\<forall>r rest. rinv r \<and> rbits r = bs @ rest \<longrightarrow>
         (\<exists>r'. NetDeserializeDeltaType_struct [bool_field True False, bool_field True False]
             [True, True] r = Inr ([True, False], r') \<and> rinv r' \<and> rbits r' = rest))"
  using struct_delta_roundtrip [of "[bool_field True False, bool_field True False]"
      "[bool_spec, bool_spec]" NetBitWriterVector_init "[True, False]" "[True, True]" True]
  by (auto simp: bool_field_ok)

lemma struct_element_codec:
  assumes "list_all2 field_ok fs ps" "length fs < 2 ^ 31" "list_all (\<lambda>f. \<not> fStatic f) fs"
  shows "element_codec (NetSerializeType_struct fs) (NetDeserializeType_struct fs)
    (struct_of (map sWf ps)) (struct_of (map sObj ps)) (struct_enc fs ps)
    (NetSerializeDeltaType_struct dbg fs) (NetDeserializeDeltaType_struct fs) (struct_denc ps)"
  using struct_codec [OF assms(1,3)] struct_delta_codec [OF assms(1,2)]
  by (simp add: element_codec_def)

end
