(* ===== verification/Values.thy ===== *)
theory Values
  imports Serialize
begin

text \<open>
  \<^verbatim>\<open>NetReflectionString.h\<close>, \<^verbatim>\<open>NetReflectionTuple.h\<close>, \<^verbatim>\<open>NetReflectionOptional.h\<close>,
  \<^verbatim>\<open>NetReflectionPtr.h\<close> and \<^verbatim>\<open>NetReflectionStaticList.h\<close>: the small value types and their
  serializers, each shown to keep the contract of \<^verbatim>\<open>Codec\<close> where it does.
\<close>

section \<open>Strings\<close>

text \<open>
  A \<^verbatim>\<open>std::string\<close> is its bytes. \<^verbatim>\<open>val[index]\<close> is a \<^verbatim>\<open>char\<close>, signed on the targets of the
  build files, so its conversion to \<^verbatim>\<open>uint64_t\<close> extends the sign.
\<close>

fun string_chars :: "bool \<Rightarrow> u8 list serializer" where
  "string_chars dbg [] w = Inr w"
| "string_chars dbg (c # cs) w = ebind (WriteBits dbg (scast c) 8 w) (string_chars dbg cs)"

definition NetSerializer_string :: "bool \<Rightarrow> u8 list serializer" where
  "NetSerializer_string dbg val w =
     ebind (if 127 < length val
            then ebind (WriteBits dbg 1 1 w) (WriteBits dbg (of_nat (length val)) 15)
            else ebind (WriteBits dbg 0 1 w) (WriteBits dbg (of_nat (length val)) 7))
       (string_chars dbg val)"

fun read_chars :: "nat \<Rightarrow> NetBitReaderBuffer \<Rightarrow> (u8 list \<times> NetBitReaderBuffer) result" where
  "read_chars 0 r = Inr ([], r)"
| "read_chars (Suc n) r =
     ebind (ReadSBits 8 r) (\<lambda>(v, r). ebind (read_chars n r) (\<lambda>(cs, r). Inr (ucast v # cs, r)))"

definition NetDeserializer_string :: "u8 list deserializer" where
  "NetDeserializer_string val r =
     ebind (ReadUBits 1 r) (\<lambda>(long_string, r).
     ebind (if long_string \<noteq> 0 then ReadUBits 15 r else ReadUBits 7 r) (\<lambda>(len, r).
       read_chars (unat len) r))"

definition string_wf :: "bool \<Rightarrow> u8 list \<Rightarrow> bool" where
  "string_wf dbg val \<longleftrightarrow> length val < 32768 \<and> (dbg \<longrightarrow> (\<forall>c\<in>set val. c < 128))"

definition string_enc :: "u8 list \<Rightarrow> bool list" where
  "string_enc val =
     (if 127 < length val then True # nat_bits 15 (length val) else False # nat_bits 7 (length val))
       @ buffer_bits val"

lemma bits_of_scast [simp]: "bits_of 8 (scast c) = byte_bits c"
  by (rule nth_equalityI) (auto simp: bit_signed_iff)

lemma bit7_iff: "bit (c :: u8) 7 \<longleftrightarrow> \<not> c < 128"
proof
  assume b: "bit c 7"
  show "\<not> c < 128"
  proof
    assume "c < 128"
    then have "unat c < 2 ^ 7" by (simp add: word_less_nat_alt)
    then have "unat (take_bit 7 c) = unat c"
      by (simp add: unsigned_take_bit_eq take_bit_nat_eq_self)
    then have "take_bit 7 c = c" by (simp only: word_unat_eq_iff)
    then have "bit (take_bit 7 c) 7" using b by simp
    then show False by (simp add: bit_take_bit_iff)
  qed
next
  assume n: "\<not> c < 128"
  show "bit c 7"
  proof (rule ccontr)
    assume nb: "\<not> bit c 7"
    have "take_bit 7 c = c"
    proof (rule bit_word_eqI)
      fix i assume "i < LENGTH(8)"
      then have "i = 7 \<or> i < 7" by auto
      then show "bit (take_bit 7 c) i = bit c i" using nb by (auto simp: bit_take_bit_iff)
    qed
    then show False using n and_mask_less' [of 7 c] by (simp add: word_size flip: take_bit_eq_mask)
  qed
qed

lemma writable_char: "writable dbg (scast (c :: u8)) 8 \<longleftrightarrow> \<not> dbg \<or> c < 128"
proof -
  have "take_bit 8 (scast c :: u64) = scast c \<longleftrightarrow> \<not> bit c 7"
  proof
    assume e: "take_bit 8 (scast c :: u64) = scast c"
    have "bit (take_bit 8 (scast c :: u64)) 8 = bit (scast c :: u64) 8" by (simp add: e)
    then show "\<not> bit c 7" by (simp add: bit_take_bit_iff bit_signed_iff)
  next
    assume "\<not> bit c 7"
    then show "take_bit 8 (scast c :: u64) = scast c"
      by (intro bit_word_eqI) (auto simp: bit_take_bit_iff bit_signed_iff min_def split: if_splits)
  qed
  then show ?thesis by (auto simp: writable_def bit7_iff)
qed

lemma string_chars_spec:
  "winv w \<Longrightarrow> (dbg \<longrightarrow> (\<forall>c\<in>set cs. c < 128)) \<Longrightarrow>
    \<exists>w'. string_chars dbg cs w = Inr w' \<and> wrote w w' (buffer_bits cs)"
proof (induction cs arbitrary: w)
  case (Cons c cs)
  obtain w1 where w1: "WriteBits dbg (scast c) 8 w = Inr w1" "wrote w w1 (byte_bits c)"
    using WriteBits_spec [of w 8 dbg "scast c"] Cons.prems by (auto simp: writable_char)
  then show ?case
    using Cons.IH [OF wrote_winv [OF w1(2)]] Cons.prems by (auto intro: wrote_trans)
qed simp

lemma read_chars_spec:
  "rinv r \<Longrightarrow> rbits r = buffer_bits cs @ rest \<Longrightarrow>
    \<exists>r'. read_chars (length cs) r = Inr (cs, r') \<and> consumed r r' (buffer_bits cs)"
proof (induction cs arbitrary: r)
  case (Cons c cs)
  have "rbits r = bits_of (nat 8) (ucast c) @ (buffer_bits cs @ rest)" using Cons.prems by simp
  then obtain r1 where r1: "ReadSBits 8 r = Inr (signed_take_bit 7 (ucast c), r1)"
      "consumed r r1 (byte_bits c)" "rbits r1 = buffer_bits cs @ rest"
    using ReadSBits_value [of r 8 "ucast c"] Cons.prems(1) by auto
  moreover have "ucast (signed_take_bit 7 (ucast c :: u64)) = c"
  proof (rule bit_word_eqI)
    fix i assume "i < LENGTH(8)"
    then have "i = 7 \<or> i < 7" by auto
    then show "bit (ucast (signed_take_bit 7 (ucast c :: u64)) :: u8) i = bit c i"
      by (auto simp: bit_ucast_iff bit_signed_take_bit_iff)
  qed
  ultimately show ?case
    using Cons.IH [OF consumed_rinv [OF r1(2)] r1(3)] by (auto intro: consumed_trans)
qed simp

lemma string_ser:
  assumes "winv w" "string_wf dbg val"
  shows "\<exists>w'. NetSerializer_string dbg val w = Inr w' \<and> wrote w w' (string_enc val)"
proof -
  let ?long = "127 < length val" and ?n = "if 127 < length val then 15 else 7 :: nat"
  obtain w1 where w1: "WriteBits dbg (of_bool ?long) 1 w = Inr w1" "wrote w w1 [?long]"
    using WriteBits_flag [OF assms(1)] by blast
  have "length val < 2 ^ ?n" using assms(2) by (auto simp: string_wf_def)
  then obtain w2 where w2: "WriteBits dbg (of_nat (length val)) (int ?n) w1 = Inr w2"
      "wrote w1 w2 (nat_bits ?n (length val))"
    using WriteBits_nat [OF wrote_winv [OF w1(2)], of "length val" ?n dbg] by (auto split: if_splits)
  obtain w3 where w3: "string_chars dbg val w2 = Inr w3" "wrote w2 w3 (buffer_bits val)"
    using string_chars_spec [OF wrote_winv [OF w2(2)]] assms(2) unfolding string_wf_def by blast
  have "wrote w w3 (string_enc val)"
    using wrote_trans [OF w1(2) wrote_trans [OF w2(2) w3(2)]]
    by (auto simp: string_enc_def split: if_splits)
  then show ?thesis using w1 w2 w3 by (auto simp: NetSerializer_string_def split: if_splits)
qed

lemma string_deser:
  assumes "rinv r" "length val < 32768" "rbits r = string_enc val @ rest"
  shows "\<exists>r'. NetDeserializer_string val0 r = Inr (val, r') \<and> consumed r r' (string_enc val)"
proof -
  let ?long = "127 < length val" and ?n = "if 127 < length val then 15 else 7 :: nat"
  have e: "string_enc val = ?long # nat_bits ?n (length val) @ buffer_bits val"
    by (simp add: string_enc_def)
  obtain r1 where r1: "ReadUBits 1 r = Inr (of_bool ?long, r1)" "consumed r r1 [?long]"
      "rbits r1 = nat_bits ?n (length val) @ buffer_bits val @ rest"
    using ReadUBits_flag [of r ?long] assms(1,3) unfolding e by auto
  have l: "length val < 2 ^ ?n" and n: "?n < 64" using assms(2) by auto
  obtain r2 where r2: "ReadUBits (int ?n) r1 = Inr (of_nat (length val), r2)"
      "consumed r1 r2 (nat_bits ?n (length val))" "rbits r2 = buffer_bits val @ rest"
    using ReadUBits_nat [OF consumed_rinv [OF r1(2)] r1(3) l] n by blast
  have u: "unat (of_nat (length val) :: u64) = length val"
    using unat_of_nat_bound [OF l] by simp
  obtain r3 where r3: "read_chars (length val) r2 = Inr (val, r3)" "consumed r2 r3 (buffer_bits val)"
    using read_chars_spec [OF consumed_rinv [OF r2(2)] r2(3)] by blast
  have "consumed r r3 (string_enc val)"
    using consumed_trans [OF r1(2) consumed_trans [OF r2(2) r3(2)]] unfolding e by simp
  then show ?thesis
    using r1 r2 r3 u by (auto simp: NetDeserializer_string_def split: if_splits)
qed

interpretation string_codec: value_codec "NetSerializer_string dbg" NetDeserializer_string
    "string_wf dbg" "\<lambda>_. True" string_enc for dbg
  using string_ser string_deser by unfold_locales (auto simp: string_wf_def)

lemma string_chars_reject:
  "winv w \<Longrightarrow> \<not> (\<forall>c\<in>set cs. c < 128) \<Longrightarrow> string_chars True cs w = Inl OutOfRange"
proof (induction cs arbitrary: w)
  case (Cons c cs)
  show ?case
  proof (cases "c < 128")
    case True
    obtain w1 where w1: "WriteBits True (scast c) 8 w = Inr w1" "wrote w w1 (byte_bits c)"
      using WriteBits_spec [of w 8 True "scast c"] Cons.prems True by (auto simp: writable_char)
    then show ?thesis using Cons.IH [OF wrote_winv [OF w1(2)]] Cons.prems True by auto
  next
    case False
    then show ?thesis using WriteBits_reject [of 8 True "scast c" w] by (simp add: writable_char)
  qed
qed simp

text \<open>In the debug build a string can be sent if and only if it has at most
  32767 characters and every one of them is ASCII: the length does not fit 15 bits otherwise, and a
  character with the top bit set is sign-extended before it is written in 8 bits.\<close>

theorem string_debug_domain:
  assumes "winv w" "length val < 2 ^ 64"
  shows "if length val < 32768 \<and> (\<forall>c\<in>set val. c < 128)
    then \<exists>w'. NetSerializer_string True val w = Inr w' \<and> wbits w' = wbits w @ string_enc val
    else NetSerializer_string True val w = Inl OutOfRange"
proof (cases "length val < 32768 \<and> (\<forall>c\<in>set val. c < 128)")
  case True
  then show ?thesis
    using string_ser [OF assms(1), of True val] by (auto simp: string_wf_def dest: wrote_wbits)
next
  case False
  obtain w1 where w1: "WriteBits True (of_bool (127 < length val)) 1 w = Inr w1"
      "wrote w w1 [127 < length val]"
    using WriteBits_flag [OF assms(1)] by blast
  show ?thesis
  proof (cases "length val < 32768")
    case True
    let ?n = "if 127 < length val then 15 else 7 :: nat"
    have "length val < 2 ^ ?n" using True by auto
    then obtain w2 where w2: "WriteBits True (of_nat (length val)) (int ?n) w1 = Inr w2"
        "wrote w1 w2 (nat_bits ?n (length val))"
      using WriteBits_nat [OF wrote_winv [OF w1(2)], of "length val" ?n True] by (auto split: if_splits)
    then show ?thesis
      using w1 False True string_chars_reject [OF wrote_winv [OF w2(2)], of val]
      by (auto simp: NetSerializer_string_def split: if_splits)
  next
    case long: False
    have "unat (take_bit 15 (of_nat (length val) :: u64)) < 2 ^ 15"
      using take_bit_nat_less_exp [of 15] by (simp add: unsigned_take_bit_eq)
    moreover have "unat (of_nat (length val) :: u64) = length val"
      using unat_of_nat_bound [of "length val" 64] assms(2) by simp
    ultimately have "\<not> writable True (of_nat (length val)) 15"
      using long by (auto simp: writable_def)
    then show ?thesis
      using w1 long WriteBits_reject [of 15 True "of_nat (length val)" w1]
      by (simp add: NetSerializer_string_def)
  qed
qed

theorem string_debug_domain_witness:
  "NetSerializer_string True [0x41, 0xE9] NetBitWriterVector_init = Inl OutOfRange"
  using string_debug_domain [of NetBitWriterVector_init "[0x41, 0xE9]"] by simp

section \<open>Pairs and tuples\<close>

definition NetSerializer_pair :: "'a serializer \<Rightarrow> 'b serializer \<Rightarrow> ('a \<times> 'b) serializer" where
  "NetSerializer_pair ser1 ser2 val w = ebind (ser1 (fst val) w) (ser2 (snd val))"

definition NetDeserializer_pair ::
    "'a deserializer \<Rightarrow> 'b deserializer \<Rightarrow> ('a \<times> 'b) deserializer" where
  "NetDeserializer_pair deser1 deser2 val r =
     ebind (deser1 (fst val) r) (\<lambda>(a, r). ebind (deser2 (snd val) r) (\<lambda>(b, r). Inr ((a, b), r)))"

text \<open>
  A tuple is the list of its elements with their serializers; \<^verbatim>\<open>VisitTuple\<close> visits element
  \<open>Size - Index\<close> while \<open>Index\<close> counts down from \<open>Size\<close>, that is from the first to the last.
\<close>

fun VisitTuple_ser :: "nat \<Rightarrow> 'f serializer list \<Rightarrow> 'f list serializer" where
  "VisitTuple_ser 0 sers val w = Inr w"
| "VisitTuple_ser (Suc index) sers val w =
     (let elem = length val - Suc index
      in ebind ((sers ! elem) (val ! elem) w) (VisitTuple_ser index sers val))"

definition NetSerializer_tuple :: "'f serializer list \<Rightarrow> 'f list serializer" where
  "NetSerializer_tuple sers val w = VisitTuple_ser (length val) sers val w"

fun VisitTuple_deser :: "nat \<Rightarrow> 'f deserializer list \<Rightarrow> 'f list deserializer" where
  "VisitTuple_deser 0 desers val r = Inr (val, r)"
| "VisitTuple_deser (Suc index) desers val r =
     (let elem = length val - Suc index
      in ebind ((desers ! elem) (val ! elem) r) (\<lambda>(v, r).
           VisitTuple_deser index desers (val[elem := v]) r))"

definition NetDeserializer_tuple :: "'f deserializer list \<Rightarrow> 'f list deserializer" where
  "NetDeserializer_tuple desers val r = VisitTuple_deser (length val) desers val r"

lemma pair_codec:
  assumes "value_codec ser1 deser1 wf1 obj1 enc1" "value_codec ser2 deser2 wf2 obj2 enc2"
  shows "value_codec (NetSerializer_pair ser1 ser2) (NetDeserializer_pair deser1 deser2)
    (\<lambda>v. wf1 (fst v) \<and> wf2 (snd v)) (\<lambda>v. obj1 (fst v) \<and> obj2 (snd v))
    (\<lambda>v. enc1 (fst v) @ enc2 (snd v))"
proof
  note ser = value_codec.ser_enc [OF assms(1)] value_codec.ser_enc [OF assms(2)]
  note deser = value_codec.deser_rest [OF assms(1)] value_codec.deser_rest [OF assms(2)]
  show "\<exists>w'. NetSerializer_pair ser1 ser2 v w = Inr w' \<and> wrote w w' (enc1 (fst v) @ enc2 (snd v))"
    if w: "winv w" "wf1 (fst v) \<and> wf2 (snd v)" for w v
  proof -
    obtain w1 where w1: "ser1 (fst v) w = Inr w1" "wrote w w1 (enc1 (fst v))"
      using ser(1) w by blast
    obtain w2 where "ser2 (snd v) w1 = Inr w2" "wrote w1 w2 (enc2 (snd v))"
      using ser(2) [OF wrote_winv [OF w1(2)]] w by blast
    with w1 show ?thesis by (auto simp: NetSerializer_pair_def intro: wrote_trans)
  qed
  show "\<exists>r'. NetDeserializer_pair deser1 deser2 v0 r = Inr (v, r')
      \<and> consumed r r' (enc1 (fst v) @ enc2 (snd v))"
    if r: "rinv r" "wf1 (fst v) \<and> wf2 (snd v)" "obj1 (fst v0) \<and> obj2 (snd v0)"
      "rbits r = (enc1 (fst v) @ enc2 (snd v)) @ rest" for r v v0 rest
  proof -
    obtain r1 where r1: "deser1 (fst v0) r = Inr (fst v, r1)" "consumed r r1 (enc1 (fst v))"
        "rbits r1 = enc2 (snd v) @ rest"
      using deser(1) [OF r(1), of "fst v" "fst v0" "enc2 (snd v) @ rest"] r by auto
    obtain r2 where "deser2 (snd v0) r1 = Inr (snd v, r2)" "consumed r1 r2 (enc2 (snd v))"
      using deser(2) [OF consumed_rinv [OF r1(2)]] r1(3) r by blast
    with r1 show ?thesis by (auto simp: NetDeserializer_pair_def intro: consumed_trans)
  qed
qed (use value_codec.wf_obj [OF assms(1)] value_codec.wf_obj [OF assms(2)] in auto)

interpretation bool_pair: value_codec
    "NetSerializer_pair (NetSerializer_bool dbg) (NetSerializer_string dbg)"
    "NetDeserializer_pair NetDeserializer_bool NetDeserializer_string"
    "\<lambda>v. True \<and> string_wf dbg (snd v)" "\<lambda>v. True \<and> True" "\<lambda>v. [fst v] @ string_enc (snd v)" for dbg
  by (rule pair_codec [OF bool_codec.value_codec_axioms string_codec.value_codec_axioms])

text \<open>The visitor runs through the elements in order.\<close>

lemma VisitTuple_ser_suffix:
  "length sers = length val \<Longrightarrow> k \<le> length val \<Longrightarrow>
    VisitTuple_ser k sers val w
      = NetSerializeType_struct
          (map (\<lambda>s. \<lparr>fStatic = False, fSer = s, fDeser = d, fDeltaSer = ds, fDeltaDeser = dd\<rparr>)
             (drop (length val - k) sers))
          (drop (length val - k) val) w"
proof (induction k arbitrary: w)
  case (Suc k)
  let ?e = "length val - Suc k"
  have e: "drop ?e val = val ! ?e # drop (length val - k) val"
    "drop ?e sers = sers ! ?e # drop (length val - k) sers"
    using Suc.prems by (simp_all add: Cons_nth_drop_Suc [symmetric] Suc_diff_Suc)
  show ?case unfolding e using Suc by (simp add: Let_def cong: ebind_cong)
qed simp

section \<open>Optional values\<close>

text \<open>
  \<^verbatim>\<open>NetOptional\<close>: \<open>None\<close> is \<^verbatim>\<open>m_Valid == false\<close>. The copy and move operations act on
  a store of optionals, because an object may be assigned to itself.
\<close>

definition NetOptional_Emplace :: "'a \<Rightarrow> 'a option \<Rightarrow> 'a option" where
  "NetOptional_Emplace src this = Some src"

definition NetOptional_Clear :: "'a option \<Rightarrow> 'a option" where
  "NetOptional_Clear this = None"

definition NetOptional_Value :: "'a option \<Rightarrow> 'a result" where
  "NetOptional_Value this = (case this of None \<Rightarrow> Inl ThrowFalse | Some v \<Rightarrow> Inr v)"

definition NetOptional_GetPtr :: "'a option \<Rightarrow> 'a option" where
  "NetOptional_GetPtr this = this"

definition NetOptional_bool :: "'a option \<Rightarrow> bool" where
  "NetOptional_bool this \<longleftrightarrow> this \<noteq> None"

definition NetOptional_copy :: "'a option \<Rightarrow> 'a option" where
  "NetOptional_copy rhs = (case rhs of None \<Rightarrow> None | Some v \<Rightarrow> Some v)"

definition NetOptional_move :: "'a option \<Rightarrow> 'a option \<times> 'a option" where
  "NetOptional_move rhs = (case rhs of None \<Rightarrow> (None, rhs) | Some v \<Rightarrow> (Some v, NetOptional_Clear rhs))"

definition NetOptional_copy_assign :: "nat \<Rightarrow> nat \<Rightarrow> 'a option list \<Rightarrow> 'a option list" where
  "NetOptional_copy_assign this rhs m =
     (let m = m[this := NetOptional_Clear (m ! this)] in
      case m ! rhs of None \<Rightarrow> m[this := None] | Some v \<Rightarrow> m[this := Some v])"

definition NetOptional_move_assign :: "nat \<Rightarrow> nat \<Rightarrow> 'a option list \<Rightarrow> 'a option list" where
  "NetOptional_move_assign this rhs m =
     (let m = m[this := NetOptional_Clear (m ! this)] in
      case m ! rhs of None \<Rightarrow> m[this := None]
      | Some v \<Rightarrow> (m[this := Some v])[rhs := NetOptional_Clear (m ! rhs)])"

definition NetSerializer_optional :: "bool \<Rightarrow> 'a serializer \<Rightarrow> 'a option serializer" where
  "NetSerializer_optional dbg ser val w =
     (if NetOptional_bool val then
        ebind (WriteBits dbg 1 1 w) (\<lambda>w. ebind (NetOptional_Value val) (\<lambda>v. ser v w))
      else WriteBits dbg 0 1 w)"

text \<open>\<open>dflt\<close> is the element \<^verbatim>\<open>val.Emplace()\<close> constructs.\<close>

definition NetDeserializer_optional :: "'a \<Rightarrow> 'a deserializer \<Rightarrow> 'a option deserializer" where
  "NetDeserializer_optional dflt deser val r =
     ebind (ReadUBits 1 r) (\<lambda>(valid, r).
       if valid \<noteq> 0 then
         let val = if \<not> NetOptional_bool val then NetOptional_Emplace dflt val else val in
         ebind (NetOptional_Value val) (\<lambda>v. ebind (deser v r) (\<lambda>(v, r). Inr (Some v, r)))
       else Inr (NetOptional_Clear val, r))"

fun optional_enc :: "('a \<Rightarrow> bool list) \<Rightarrow> 'a option \<Rightarrow> bool list" where
  "optional_enc enc None = [False]"
| "optional_enc enc (Some v) = True # enc v"

lemma optional_codec:
  assumes "value_codec ser deser wfv obj enc" "obj dflt"
  shows "value_codec (NetSerializer_optional dbg ser) (NetDeserializer_optional dflt deser)
    (pred_option wfv) (pred_option obj) (optional_enc enc)"
proof
  note ser = value_codec.ser_enc [OF assms(1)]
  note deser = value_codec.deser_rest [OF assms(1)]
  show "\<exists>w'. NetSerializer_optional dbg ser v w = Inr w' \<and> wrote w w' (optional_enc enc v)"
    if w: "winv w" "pred_option wfv v" for w v
  proof (cases v)
    case None
    then show ?thesis
      using WriteBits_flag_0 [OF w(1)] by (simp add: NetSerializer_optional_def NetOptional_bool_def)
  next
    case (Some a)
    obtain w1 where w1: "WriteBits dbg 1 1 w = Inr w1" "wrote w w1 [True]"
      using WriteBits_flag_1 [OF w(1)] by blast
    obtain w2 where "ser a w1 = Inr w2" "wrote w1 w2 (enc a)"
      using ser [OF wrote_winv [OF w1(2)], of a] w(2) Some by auto
    with Some w1 wrote_trans [OF w1(2)] show ?thesis
      by (simp add: NetSerializer_optional_def NetOptional_bool_def NetOptional_Value_def)
  qed
  show "\<exists>r'. NetDeserializer_optional dflt deser v0 r = Inr (v, r') \<and> consumed r r' (optional_enc enc v)"
    if r: "rinv r" "pred_option wfv v" "pred_option obj v0" "rbits r = optional_enc enc v @ rest"
    for r v v0 rest
  proof (cases v)
    case None
    then obtain r1 where "ReadUBits 1 r = Inr (0, r1)" "consumed r r1 [False]"
      using ReadUBits_flag [OF r(1), of False rest] r(4) by auto
    with None show ?thesis by (simp add: NetDeserializer_optional_def NetOptional_Clear_def)
  next
    case (Some a)
    then obtain r1 where r1: "ReadUBits 1 r = Inr (1, r1)" "consumed r r1 [True]" "rbits r1 = enc a @ rest"
      using ReadUBits_flag [OF r(1), of True "enc a @ rest"] r(4) by auto
    let ?u = "case v0 of None \<Rightarrow> dflt | Some u \<Rightarrow> u"
    have "obj ?u" using r(3) assms(2) by (cases v0) auto
    then obtain r2 where r2: "deser ?u r1 = Inr (a, r2)" "consumed r1 r2 (enc a)"
      using deser [OF consumed_rinv [OF r1(2)] _ _ r1(3)] r(2) Some by auto
    have "consumed r r2 (optional_enc enc v)" using consumed_trans [OF r1(2) r2(2)] Some by simp
    with Some r1 r2 show ?thesis
      by (cases v0) (simp_all add: NetDeserializer_optional_def NetOptional_bool_def
          NetOptional_Value_def NetOptional_Emplace_def)
  qed
qed (use value_codec.wf_obj [OF assms(1)] in \<open>auto simp: pred_option_def\<close>)

interpretation optional_bool: value_codec "NetSerializer_optional dbg (NetSerializer_bool dbg)"
    "NetDeserializer_optional False NetDeserializer_bool" "pred_option (\<lambda>_. True)"
    "pred_option (\<lambda>_. True)" "optional_enc (\<lambda>b. [b])" for dbg
  by (rule optional_codec [OF bool_codec.value_codec_axioms]) simp

text \<open>Copy assignment makes the target equal to its source, except that an
  optional assigned to itself loses its value: \<^verbatim>\<open>Clear()\<close> runs before \<^verbatim>\<open>rhs.m_Valid\<close> is read.\<close>

theorem NetOptional_copy_assign_alias:
  assumes "this < length m" "rhs < length m"
  shows "NetOptional_copy_assign this rhs m
    = m[this := if this = rhs then None else m ! rhs]"
  using assms
  by (cases "m ! rhs") (auto simp: NetOptional_copy_assign_def NetOptional_Clear_def Let_def)

theorem NetOptional_copy_assign_alias_witness:
  "NetOptional_copy_assign 0 0 [Some True, None] = [None, None]"
  using NetOptional_copy_assign_alias [of 0 "[Some True, None]" 0] by simp

lemma NetOptional_move_assign_alias:
  assumes "this < length m" "rhs < length m"
  shows "NetOptional_move_assign this rhs m
    = (if this = rhs then m[this := None] else m[this := m ! rhs, rhs := None])"
proof (cases "m ! rhs")
  case None
  have "m[rhs := None] = m" using None by (metis list_update_id)
  with None assms show ?thesis
    by (auto simp: NetOptional_move_assign_def NetOptional_Clear_def Let_def list_update_swap)
qed (use assms in \<open>auto simp: NetOptional_move_assign_def NetOptional_Clear_def Let_def\<close>)

text \<open>
  \<^verbatim>\<open>NetOptional\<close> has no \<^verbatim>\<open>operator ==\<close>; the comparison in the default difference
  converts both sides with \<^verbatim>\<open>operator bool\<close>.
\<close>

definition NetOptional_eq :: "'a option \<Rightarrow> 'a option \<Rightarrow> bool" where
  "NetOptional_eq a b \<longleftrightarrow> NetOptional_bool a = NetOptional_bool b"

text \<open>As a consequence, a change from one value to another is reported as no
  change and is never sent.\<close>

theorem optional_delta_drops_change:
  "NetSerializeDeltaType NetOptional_eq (NetSerializer_optional dbg ser) (Some a) (Some b) w
    = Inr (False, w)"
  by (simp add: NetSerializeDeltaType_def NetOptional_eq_def NetOptional_bool_def)

section \<open>Owning pointers\<close>

text \<open>
  \<^verbatim>\<open>std::unique_ptr<T>\<close> and \<^verbatim>\<open>std::shared_ptr<T>\<close>: \<open>None\<close> is the null pointer. \<open>dflt\<close> is
  the default-constructed object, \<open>None\<close> when \<open>T\<close> has no default constructor.
\<close>

definition ConstructUnique :: "'a option \<Rightarrow> 'a result" where
  "ConstructUnique dflt = (case dflt of None \<Rightarrow> Inl ThrowFalse | Some v \<Rightarrow> Inr v)"

definition ConstructShared :: "'a option \<Rightarrow> 'a result" where
  "ConstructShared dflt = (case dflt of None \<Rightarrow> Inl ThrowFalse | Some v \<Rightarrow> Inr v)"

definition NetSerializer_unique_ptr :: "bool \<Rightarrow> 'a serializer \<Rightarrow> 'a option serializer" where
  "NetSerializer_unique_ptr dbg ser val w =
     (case val of Some v \<Rightarrow> ebind (WriteBits dbg 1 1 w) (ser v) | None \<Rightarrow> WriteBits dbg 0 1 w)"

definition NetDeserializer_unique_ptr :: "'a option \<Rightarrow> 'a deserializer \<Rightarrow> 'a option deserializer" where
  "NetDeserializer_unique_ptr dflt deser val r =
     ebind (ReadUBits 1 r) (\<lambda>(b, r).
       if b \<noteq> 0 then
         ebind (case val of None \<Rightarrow> ConstructUnique dflt | Some v \<Rightarrow> Inr v) (\<lambda>v.
           ebind (deser v r) (\<lambda>(v, r). Inr (Some v, r)))
       else Inr (None, r))"

definition NetSerializer_shared_ptr :: "bool \<Rightarrow> 'a serializer \<Rightarrow> 'a option serializer" where
  "NetSerializer_shared_ptr dbg ser val w =
     (case val of Some v \<Rightarrow> ebind (WriteBits dbg 1 1 w) (ser v) | None \<Rightarrow> WriteBits dbg 0 1 w)"

definition NetDeserializer_shared_ptr :: "'a option \<Rightarrow> 'a deserializer \<Rightarrow> 'a option deserializer" where
  "NetDeserializer_shared_ptr dflt deser val r =
     ebind (ReadUBits 1 r) (\<lambda>(b, r).
       if b \<noteq> 0 then
         ebind (case val of None \<Rightarrow> ConstructShared dflt | Some v \<Rightarrow> Inr v) (\<lambda>v.
           ebind (deser v r) (\<lambda>(v, r). Inr (Some v, r)))
       else Inr (None, r))"

text \<open>On the wire a pointer is an optional.\<close>

lemma ptr_ser_optional:
  "NetSerializer_unique_ptr dbg ser = NetSerializer_optional dbg ser"
  "NetSerializer_shared_ptr dbg ser = NetSerializer_optional dbg ser"
  by (auto simp: fun_eq_iff NetSerializer_unique_ptr_def NetSerializer_shared_ptr_def
      NetSerializer_optional_def NetOptional_bool_def NetOptional_Value_def split: option.splits
      intro!: arg_cong2 [where f = ebind])

lemma ptr_deser_optional:
  "NetDeserializer_unique_ptr (Some d) deser = NetDeserializer_optional d deser"
  "NetDeserializer_shared_ptr (Some d) deser = NetDeserializer_optional d deser"
  by (auto simp: fun_eq_iff NetDeserializer_unique_ptr_def NetDeserializer_shared_ptr_def
      NetDeserializer_optional_def NetOptional_bool_def NetOptional_Value_def NetOptional_Emplace_def
      NetOptional_Clear_def ConstructUnique_def ConstructShared_def Let_def split: option.splits
      intro!: arg_cong2 [where f = ebind])

interpretation unique_ptr_string: value_codec
    "NetSerializer_unique_ptr dbg (NetSerializer_string dbg)"
    "NetDeserializer_unique_ptr (Some []) NetDeserializer_string" "pred_option (string_wf dbg)"
    "pred_option (\<lambda>_. True)" "optional_enc string_enc" for dbg
  unfolding ptr_ser_optional ptr_deser_optional
  by (rule optional_codec [OF string_codec.value_codec_axioms]) simp

text \<open>Without a default constructor, a value cannot be received into a null pointer.\<close>

lemma ptr_not_constructible:
  assumes "rinv r" "rbits r = True # rest"
  shows "NetDeserializer_unique_ptr None deser None r = Inl ThrowFalse"
    and "NetDeserializer_shared_ptr None deser None r = Inl ThrowFalse"
  using ReadUBits_flag [OF assms]
  by (auto simp: NetDeserializer_unique_ptr_def NetDeserializer_shared_ptr_def
      ConstructUnique_def ConstructShared_def)

section \<open>Pointers into a static list\<close>

text \<open>
  \<^verbatim>\<open>NetReflectionStaticListPtr\<close>: \<open>xs\<close> is the list \<^verbatim>\<open>(*DataList)[0 .. *DataSize - 1]\<close>, the
  value is \<^verbatim>\<open>m_CurrentIndex\<close>. An address of type \<^verbatim>\<open>const DataType *\<close> is \<open>Some k\<close> for
  element \<open>k\<close> of the list and \<open>None\<close> for any other object.
\<close>

fun static_list_find :: "nat \<Rightarrow> nat \<Rightarrow> nat option \<Rightarrow> nat option" where
  "static_list_find 0 index val = None"
| "static_list_find (Suc n) index val =
     (if val = Some index then Some index else static_list_find n (Suc index) val)"

definition StaticListPtr_assign :: "'a list \<Rightarrow> nat option \<Rightarrow> nat result" where
  "StaticListPtr_assign xs val =
     (case static_list_find (length xs) 0 val of
        Some index \<Rightarrow> Inr index | None \<Rightarrow> Inl OutOfRange)"

fun static_list_search :: "('a \<Rightarrow> 'v \<Rightarrow> bool) \<Rightarrow> 'a list \<Rightarrow> nat \<Rightarrow> 'v \<Rightarrow> nat option" where
  "static_list_search eq [] index val = None"
| "static_list_search eq (x # xs) index val =
     (if eq x val then Some index else static_list_search eq xs (Suc index) val)"

definition StaticListPtr_SetTo :: "('a \<Rightarrow> 'v \<Rightarrow> bool) \<Rightarrow> 'a list \<Rightarrow> 'v \<Rightarrow> nat result" where
  "StaticListPtr_SetTo eq xs val =
     (case static_list_search eq xs 0 val of
        Some index \<Rightarrow> Inr index | None \<Rightarrow> Inl OutOfRange)"

definition StaticListPtr_Value :: "'a list \<Rightarrow> nat \<Rightarrow> 'a result" where
  "StaticListPtr_Value xs m_CurrentIndex =
     (if m_CurrentIndex < length xs then Inr (xs ! m_CurrentIndex) else Inl Undefined)"

definition NetSerializer_StaticListPtr :: "bool \<Rightarrow> 'a list \<Rightarrow> nat serializer" where
  "NetSerializer_StaticListPtr dbg xs val w =
     WriteBits dbg (of_nat val) (int (count_bits (length xs))) w"

text \<open>
  \<^verbatim>\<open>val = DataList[...]\<close>, not \<^verbatim>\<open>(*DataList)[...]\<close>: \<^verbatim>\<open>DataList\<close> points at one pointer, so an
  index above 0 reads behind it, and index 0 yields the address of the first element.
\<close>

definition NetDeserializer_StaticListPtr :: "'a list \<Rightarrow> nat deserializer" where
  "NetDeserializer_StaticListPtr xs val r =
     ebind (ReadUBits (int (count_bits (length xs))) r) (\<lambda>(k, r).
       if k \<noteq> 0 then Inl Undefined
       else ebind (StaticListPtr_assign xs (Some 0)) (\<lambda>i. Inr (i, r)))"

lemma static_list_find_eq:
  "static_list_find n index val =
    (case val of Some k \<Rightarrow> if index \<le> k \<and> k < index + n then Some k else None | None \<Rightarrow> None)"
  by (induction n index val rule: static_list_find.induct) (auto split: option.splits)

lemma StaticListPtr_assign_eq:
  "StaticListPtr_assign xs val =
    (case val of Some k \<Rightarrow> if k < length xs then Inr k else Inl OutOfRange | None \<Rightarrow> Inl OutOfRange)"
  by (auto simp: StaticListPtr_assign_def static_list_find_eq split: option.splits)

lemma static_list_search_eq:
  "static_list_search eq xs index val =
    (if \<exists>x\<in>set xs. eq x val then Some (index + length (takeWhile (\<lambda>x. \<not> eq x val) xs)) else None)"
  by (induction eq xs index val rule: static_list_search.induct) auto

lemma StaticListPtr_SetTo_spec:
  assumes "StaticListPtr_SetTo eq xs val = Inr i"
  shows "i < length xs" "eq (xs ! i) val" "j < i \<Longrightarrow> \<not> eq (xs ! j) val"
proof -
  have ex: "\<exists>x\<in>set xs. eq x val" and i: "i = length (takeWhile (\<lambda>x. \<not> eq x val) xs)"
    using assms by (auto simp: StaticListPtr_SetTo_def static_list_search_eq split: if_splits)
  show l: "i < length xs"
  proof (rule ccontr)
    assume "\<not> i < length xs"
    then have "length (takeWhile (\<lambda>x. \<not> eq x val) xs) = length xs"
      using i length_takeWhile_le [of "\<lambda>x. \<not> eq x val" xs] by simp
    then have "takeWhile (\<lambda>x. \<not> eq x val) xs = xs"
      by (metis takeWhile_eq_take take_all order_refl)
    then show False using ex by (simp add: takeWhile_eq_all_conv)
  qed
  show "eq (xs ! i) val" using nth_length_takeWhile [of "\<lambda>x. \<not> eq x val" xs] l i by simp
  show "j < i \<Longrightarrow> \<not> eq (xs ! j) val"
    using i set_takeWhileD by (metis nth_mem takeWhile_nth)
qed

text \<open>The only index that survives the wire is 0; reading any other one is
  undefined behaviour.\<close>

theorem StaticListPtr_roundtrip_fails:
  assumes "winv w" "i < length xs" "length xs < 2 ^ 31"
  shows "\<exists>w' bs. NetSerializer_StaticListPtr dbg xs i w = Inr w' \<and> wbits w' = wbits w @ bs
    \<and> (\<forall>val r rest. rinv r \<and> rbits r = bs @ rest \<longrightarrow>
         (if i = 0 then \<exists>r'. NetDeserializer_StaticListPtr xs val r = Inr (0, r')
          else NetDeserializer_StaticListPtr xs val r = Inl Undefined))"
proof -
  let ?n = "count_bits (length xs)"
  have n: "?n < 64" and i: "i < 2 ^ ?n" using count_bits [OF assms(3)] assms(2) by auto
  have u: "(of_nat i :: u64) = 0 \<longleftrightarrow> i = 0"
    using unat_of_nat_bound [OF i] n by (cases "i = 0") (auto dest: arg_cong [of _ _ unat])
  obtain w' where w': "NetSerializer_StaticListPtr dbg xs i w = Inr w'" "wrote w w' (nat_bits ?n i)"
    using WriteBits_nat [OF assms(1) i] n by (auto simp: NetSerializer_StaticListPtr_def)
  have "if i = 0 then \<exists>r'. NetDeserializer_StaticListPtr xs val r = Inr (0, r')
      else NetDeserializer_StaticListPtr xs val r = Inl Undefined"
    if "rinv r" "rbits r = nat_bits ?n i @ rest" for val r rest
    using ReadUBits_nat [OF that i n] u assms(2)
    by (auto simp: NetDeserializer_StaticListPtr_def StaticListPtr_assign_eq)
  with w' show ?thesis by (blast dest: wrote_wbits)
qed

theorem StaticListPtr_roundtrip_fails_witness:
  "\<exists>w' bs. NetSerializer_StaticListPtr True [True, False] 1 NetBitWriterVector_init = Inr w'
    \<and> wbits w' = bs
    \<and> (\<forall>val r rest. rinv r \<and> rbits r = bs @ rest \<longrightarrow>
         NetDeserializer_StaticListPtr [True, False] val r = Inl Undefined)"
  using StaticListPtr_roundtrip_fails [of NetBitWriterVector_init 1 "[True, False]" True] by simp

end
