(* ===== verification/Numbers.thy ===== *)
theory Numbers
  imports Codec "HOL-Library.Signed_Division"
begin

text \<open>
  \<^verbatim>\<open>NetReflectionNumber.h\<close> and \<^verbatim>\<open>NetReflectionEnum.h\<close>: numbers confined to a range and
  enumerations, with the C++ arithmetic their operators use. A value of an integer type is an
  \<open>int\<close> in the range of its \<open>ctype\<close>; promotions, conversions, overflow and division follow the
  C++17 standard (signed overflow is \<open>Undefined\<close>).
\<close>

section \<open>C++ integer arithmetic\<close>

fun promote :: "ctype \<Rightarrow> ctype" where
  "promote I8 = I32" | "promote U8 = I32" | "promote I16 = I32" | "promote U16 = I32"
| "promote t = t"

text \<open>The usual arithmetic conversions, on promoted types.\<close>

definition arith_type :: "ctype \<Rightarrow> ctype \<Rightarrow> ctype" where
  "arith_type a b =
     (let a = promote a; b = promote b in
      if a = U64 \<or> b = U64 then U64
      else if a = I64 \<or> b = I64 then I64
      else if a = U32 \<or> b = U32 then U32
      else I32)"

definition arith_result :: "ctype \<Rightarrow> int \<Rightarrow> (ctype \<times> int) result" where
  "arith_result t x =
     (if ctype_signed t \<and> \<not> in_ctype t x then Inl Undefined else Inr (t, conv t x))"

datatype binop = OpAdd | OpSub | OpMul | OpDiv | OpMod | OpAnd | OpOr | OpXor | OpShr | OpShl

datatype cmpop = CmpEq | CmpNe | CmpGt | CmpGe | CmpLt | CmpLe

definition shift_op :: "binop \<Rightarrow> ctype \<Rightarrow> int \<Rightarrow> int \<Rightarrow> (ctype \<times> int) result" where
  "shift_op f t x n =
     (if n < 0 \<or> int (ctype_bits t) \<le> n then Inl Undefined
      else if f = OpShr then Inr (t, drop_bit (nat n) x)
      else if ctype_signed t \<and> (x < 0 \<or> 2 ^ ctype_bits t \<le> push_bit (nat n) x) then Inl Undefined
      else Inr (t, conv t (push_bit (nat n) x)))"

definition c_binop :: "binop \<Rightarrow> ctype \<Rightarrow> int \<Rightarrow> ctype \<Rightarrow> int \<Rightarrow> (ctype \<times> int) result" where
  "c_binop f ta a tb b =
     (if f = OpShr \<or> f = OpShl then shift_op f (promote ta) a b
      else
        let t = arith_type ta tb; x = conv t a; y = conv t b in
        case f of
          OpAdd \<Rightarrow> arith_result t (x + y)
        | OpSub \<Rightarrow> arith_result t (x - y)
        | OpMul \<Rightarrow> arith_result t (x * y)
        | OpDiv \<Rightarrow> if y = 0 then Inl Undefined else arith_result t (x sdiv y)
        | OpMod \<Rightarrow> if y = 0 \<or> (ctype_signed t \<and> \<not> in_ctype t (x sdiv y)) then Inl Undefined
                   else arith_result t (x smod y)
        | OpAnd \<Rightarrow> Inr (t, conv t (x AND y))
        | OpOr \<Rightarrow> Inr (t, conv t (x OR y))
        | _ \<Rightarrow> Inr (t, conv t (x XOR y)))"

definition c_compare :: "cmpop \<Rightarrow> ctype \<Rightarrow> int \<Rightarrow> ctype \<Rightarrow> int \<Rightarrow> bool" where
  "c_compare f ta a tb b =
     (let t = arith_type ta tb; x = conv t a; y = conv t b in
      case f of CmpEq \<Rightarrow> x = y | CmpNe \<Rightarrow> x \<noteq> y | CmpGt \<Rightarrow> x > y | CmpGe \<Rightarrow> x \<ge> y
        | CmpLt \<Rightarrow> x < y | CmpLe \<Rightarrow> x \<le> y)"

section \<open>Ranged numbers\<close>

text \<open>
  \<^verbatim>\<open>NetRangedNumber<NumericType, Min, Max>\<close>: the state is \<^verbatim>\<open>m_Value\<close>, the template
  arguments come first. Every operator computes in C++ arithmetic, converts the result to
  \<^verbatim>\<open>NumericType\<close> and clamps it.
\<close>

definition Ranged_Set :: "int \<Rightarrow> int \<Rightarrow> int \<Rightarrow> int" where
  "Ranged_Set nMin nMax val = max nMin (min nMax val)"

definition NetRangedNumber_init :: "int \<Rightarrow> int \<Rightarrow> int" where
  "NetRangedNumber_init nMin nMax = max nMin (min nMax 0)"

definition NetRangedNumber_of :: "int \<Rightarrow> int \<Rightarrow> int \<Rightarrow> int" where
  "NetRangedNumber_of nMin nMax val = max nMin (min nMax val)"

definition NetRangedNumber_convert :: "ctype \<Rightarrow> int \<Rightarrow> int \<Rightarrow> int \<Rightarrow> int" where
  "NetRangedNumber_convert t nMin nMax val = max nMin (min nMax (conv t val))"

definition NetRangedNumber_GetAs :: "ctype \<Rightarrow> int \<Rightarrow> int" where
  "NetRangedNumber_GetAs as_type m_Value = conv as_type m_Value"

definition NetRangedNumber_op ::
    "binop \<Rightarrow> ctype \<Rightarrow> int \<Rightarrow> ctype \<Rightarrow> int \<Rightarrow> int result" where
  "NetRangedNumber_op f t m_Value tn val =
     ebind (c_binop f t m_Value tn val) (\<lambda>(_, x). Inr (conv t x))"

definition NetRangedNumber_op_assign ::
    "binop \<Rightarrow> ctype \<Rightarrow> int \<Rightarrow> int \<Rightarrow> int \<Rightarrow> ctype \<Rightarrow> int \<Rightarrow> int result" where
  "NetRangedNumber_op_assign f t nMin nMax m_Value tn val =
     ebind (c_binop f t m_Value tn val) (\<lambda>(_, x). Inr (Ranged_Set nMin nMax (conv t x)))"

definition NetRangedNumber_inc :: "ctype \<Rightarrow> int \<Rightarrow> int \<Rightarrow> int \<Rightarrow> int result" where
  "NetRangedNumber_inc t nMin nMax m_Value =
     ebind (c_binop OpAdd t m_Value I32 1) (\<lambda>(_, x). Inr (Ranged_Set nMin nMax (conv t x)))"

definition NetRangedNumber_dec :: "ctype \<Rightarrow> int \<Rightarrow> int \<Rightarrow> int \<Rightarrow> int result" where
  "NetRangedNumber_dec t nMin nMax m_Value =
     ebind (c_binop OpSub t m_Value I32 1) (\<lambda>(_, x). Inr (Ranged_Set nMin nMax (conv t x)))"

definition NetRangedNumber_not :: "int \<Rightarrow> int" where
  "NetRangedNumber_not m_Value = of_bool (m_Value = 0)"

definition NetRangedNumber_compl :: "ctype \<Rightarrow> int \<Rightarrow> int" where
  "NetRangedNumber_compl t m_Value = conv t (conv (promote t) (NOT m_Value))"

definition NetRangedNumber_compare :: "cmpop \<Rightarrow> ctype \<Rightarrow> int \<Rightarrow> ctype \<Rightarrow> int \<Rightarrow> bool" where
  "NetRangedNumber_compare f t m_Value tn val = c_compare f t m_Value tn val"

text \<open>
  \<^verbatim>\<open>Max - Min\<close> has the promoted type, \<^verbatim>\<open>val - Min\<close> goes through \<^verbatim>\<open>operator -\<close> and is
  converted back to \<^verbatim>\<open>NumericType\<close>.
\<close>

definition NetSerializer_ranged :: "bool \<Rightarrow> ctype \<Rightarrow> int \<Rightarrow> int \<Rightarrow> int serializer" where
  "NetSerializer_ranged dbg t nMin nMax val w =
     ebind (NetRangedNumber_op OpSub t val t nMin) (\<lambda>ranged_val.
     ebind (c_binop OpSub t nMax t nMin) (\<lambda>(ts, span).
       WriteBits dbg (word_of_int ranged_val) (int (GetRequiredBits ts span)) w))"

definition NetDeserializer_ranged :: "ctype \<Rightarrow> int \<Rightarrow> int \<Rightarrow> int deserializer" where
  "NetDeserializer_ranged t nMin nMax val r =
     ebind (c_binop OpSub t nMax t nMin) (\<lambda>(ts, span).
     ebind (ReadUBits (int (GetRequiredBits ts span)) r) (\<lambda>(ranged_val, r).
     ebind (c_binop OpAdd t (conv t (uint ranged_val)) t nMin) (\<lambda>(_, x).
       Inr (Ranged_Set nMin nMax (conv t x), r))))"

section \<open>Facts on conversions\<close>

lemma arith_type_same [simp]: "arith_type t t = promote t"
  by (cases t) (simp_all add: arith_type_def)

lemma wide_promote [simp]: "wide (promote t)"
  by (cases t) (simp_all add: wide_def)

lemma in_ctype_promote: "in_ctype t x \<Longrightarrow> in_ctype (promote t) x"
  by (cases t) (auto simp: in_ctype_def ctype_min_def ctype_max_def)

lemma conv_take_bit: "take_bit (ctype_bits t) (conv t x) = take_bit (ctype_bits t) x"
  by (cases t) (simp_all add: conv_def take_bit_signed_take_bit)

lemma conv_eq_iff: "conv t x = conv t y \<longleftrightarrow> take_bit (ctype_bits t) x = take_bit (ctype_bits t) y"
proof
  show "conv t x = conv t y \<Longrightarrow> take_bit (ctype_bits t) x = take_bit (ctype_bits t) y"
    by (metis conv_take_bit)
  assume e: "take_bit (ctype_bits t) x = take_bit (ctype_bits t) y"
  have "Suc (ctype_bits t - 1) = ctype_bits t" by (cases t) simp_all
  then have "signed_take_bit (ctype_bits t - 1) x = signed_take_bit (ctype_bits t - 1) y"
    using e by (simp add: signed_take_bit_eq_iff_take_bit_eq)
  with e show "conv t x = conv t y" by (simp add: conv_def)
qed

lemma conv_promote: "conv t (conv (promote t) x) = conv t x"
proof -
  have "ctype_bits t \<le> ctype_bits (promote t)" by (cases t) simp_all
  then have "take_bit (ctype_bits t) (conv (promote t) x) = take_bit (ctype_bits t) x"
    using conv_take_bit [of "promote t" x] by (metis min.absorb1 take_bit_take_bit)
  then show ?thesis by (simp add: conv_eq_iff)
qed

lemma conv_add_conv: "conv t (conv t x + y) = conv t (x + y)"
  by (metis conv_eq_iff conv_take_bit take_bit_add)

lemma c_binop_same:
  assumes "in_ctype t a" "in_ctype t b"
  shows "c_binop OpAdd t a t b = arith_result (promote t) (a + b)"
    and "c_binop OpSub t a t b = arith_result (promote t) (a - b)"
  using assms by (simp_all add: c_binop_def Let_def conv_id in_ctype_promote)

lemma arith_result_id: "in_ctype t x \<Longrightarrow> arith_result t x = Inr (t, x)"
  by (simp add: arith_result_def conv_id)

section \<open>Ranged numbers keep their range\<close>

definition in_range :: "int \<Rightarrow> int \<Rightarrow> int \<Rightarrow> bool" where
  "in_range lo hi x \<longleftrightarrow> lo \<le> x \<and> x \<le> hi"

lemma Ranged_Set_in_range: "lo \<le> hi \<Longrightarrow> in_range lo hi (Ranged_Set lo hi x)"
  by (simp add: in_range_def Ranged_Set_def)

lemma Ranged_Set_id: "in_range lo hi x \<Longrightarrow> Ranged_Set lo hi x = x"
  by (simp add: in_range_def Ranged_Set_def)

text \<open>A compound assignment whose C++ result fits \<^verbatim>\<open>NumericType\<close> yields the exact
  result clamped to the range; it never leaves the range.\<close>

theorem ranged_op_saturates:
  assumes "lo \<le> hi" "c_binop f t m tn v = Inr (tr, x)" "in_ctype t x"
  shows "NetRangedNumber_op_assign f t lo hi m tn v
    = Inr (if x < lo then lo else if hi < x then hi else x)"
  using assms by (simp add: NetRangedNumber_op_assign_def Ranged_Set_def conv_id min_def max_def)

theorem ranged_op_saturates_witness:
  "NetRangedNumber_op_assign OpAdd I32 0 100 90 I32 20 = Inr 100"
  using ranged_op_saturates [of 0 100 OpAdd I32 90 I32 20 I32 110]
  by (simp add: c_binop_def arith_result_def conv_def in_ctype_def ctype_min_def ctype_max_def)

text \<open>Where it does not fit, it wraps before it is clamped: incrementing an 8-bit number
  at a maximum of 127 gives its minimum, not its maximum.\<close>

theorem ranged_inc_wraps:
  assumes "- 128 \<le> lo" "lo \<le> 127"
  shows "NetRangedNumber_inc I8 lo 127 127 = Inr lo"
  using assms
  by (simp add: NetRangedNumber_inc_def c_binop_def arith_type_def arith_result_def conv_def
      in_ctype_def ctype_min_def ctype_max_def Ranged_Set_def)

theorem ranged_inc_wraps_witness: "NetRangedNumber_inc I8 (- 5) 127 127 = Inr (- 5)"
  using ranged_inc_wraps [of "- 5"] by simp

section \<open>The serializers\<close>

lemma bits_of_conv:
  assumes "n \<le> ctype_bits t"
  shows "bits_of n (word_of_int (conv t x)) = bits_of n (word_of_int x)"
proof -
  have "take_bit n (conv t x) = take_bit n x"
    using assms conv_take_bit [of t x] by (metis min.absorb1 take_bit_take_bit)
  then have "bit (conv t x) i = bit x i" if "i < n" for i
    using that by (metis bit_take_bit_iff)
  then show ?thesis
    by (intro nth_equalityI) (simp_all add: bit_word_of_int_iff)
qed

definition range_ok :: "ctype \<Rightarrow> int \<Rightarrow> int \<Rightarrow> bool" where
  "range_ok t lo hi \<longleftrightarrow> in_ctype t lo \<and> in_ctype t hi \<and> lo \<le> hi
     \<and> in_ctype (promote t) (hi - lo) \<and> hi - lo < 2 ^ 63"

definition range_bits :: "ctype \<Rightarrow> int \<Rightarrow> int \<Rightarrow> nat" where
  "range_bits t lo hi = GetRequiredBits (promote t) (hi - lo)"

lemma range_span: "range_ok t lo hi \<Longrightarrow> c_binop OpSub t hi t lo = Inr (promote t, hi - lo)"
  by (simp add: range_ok_def c_binop_same arith_result_id)

lemma range_bits:
  assumes "range_ok t lo hi"
  shows "range_bits t lo hi < 64" "hi - lo < 2 ^ range_bits t lo hi"
    and "range_bits t lo hi \<le> ctype_bits t"
proof -
  note ok = assms [unfolded range_ok_def]
  have s: "0 \<le> hi - lo" and i: "in_ctype (promote t) (hi - lo)" and l: "hi - lo < 2 ^ 63"
    using ok by simp_all
  show "hi - lo < 2 ^ range_bits t lo hi"
    using GetRequiredBits_fits [OF wide_promote s i] by (simp add: range_bits_def)
  show "range_bits t lo hi < 64"
    using GetRequiredBits_le [OF wide_promote s i l] by (simp add: range_bits_def)
  have "hi - lo < 2 ^ ctype_bits t" "1 \<le> ctype_bits t"
    using ok by (cases t; simp add: in_ctype_def ctype_min_def ctype_max_def)+
  then show "range_bits t lo hi \<le> ctype_bits t"
    using GetRequiredBits_le [OF wide_promote s i] by (simp add: range_bits_def)
qed

lemma in_range_ctype: "range_ok t lo hi \<Longrightarrow> in_range lo hi v \<Longrightarrow> in_ctype t v"
  by (auto simp: range_ok_def in_range_def in_ctype_def)

lemma range_offset:
  assumes "range_ok t lo hi" "in_range lo hi v"
  shows "NetRangedNumber_op OpSub t v t lo = Inr (conv t (v - lo))"
proof -
  have "in_ctype (promote t) (v - lo)"
    using assms by (cases t) (auto simp: range_ok_def in_range_def in_ctype_def ctype_min_def ctype_max_def)
  then show ?thesis
    using assms in_range_ctype [OF assms] c_binop_same(2) [of t v lo] arith_result_id
    by (simp add: NetRangedNumber_op_def range_ok_def)
qed

text \<open>The wide signed types carry the whole span; in the narrow ones the sum stays in \<^verbatim>\<open>int\<close>.\<close>

lemma range_restore:
  assumes "range_ok t lo hi" "in_range lo hi v"
  shows "\<exists>tr x. c_binop OpAdd t (conv t (v - lo)) t lo = Inr (tr, x) \<and> conv t x = v"
proof -
  let ?u = "conv t (v - lo)"
  have v: "in_ctype t v" and l: "in_ctype t lo" using in_range_ctype [OF assms] assms by (auto simp: range_ok_def)
  have s: "conv t (?u + lo) = v" using conv_add_conv [of t "v - lo" lo] conv_id [OF v] by simp
  have u: "in_ctype t ?u" by (rule conv_in_ctype)
  have "conv t (conv (promote t) (?u + lo)) = v"
    using s by (simp add: conv_promote)
  moreover have "in_ctype (promote t) (?u + lo)" if "ctype_signed (promote t)"
  proof (cases "promote t = t")
    case True
    then have "in_ctype t (v - lo)"
      using assms that by (cases t) (auto simp: range_ok_def in_range_def in_ctype_def ctype_min_def ctype_max_def)
    then show ?thesis using True v conv_id by simp
  next
    case False
    then show ?thesis
      using u l that by (cases t) (auto simp: in_ctype_def ctype_min_def ctype_max_def)
  qed
  ultimately show ?thesis
    using c_binop_same(1) [OF u l] by (auto simp: arith_result_def)
qed

lemma take_bit_offset:
  assumes "0 \<le> u" "u < 2 ^ n" "n < 64"
  shows "take_bit n (word_of_int u :: u64) = word_of_int u" "uint (word_of_int u :: u64) = u"
proof -
  have "(2 :: int) ^ n \<le> 2 ^ 64" using assms(3) by (intro power_increasing) auto
  then show e: "uint (word_of_int u :: u64) = u"
    using assms by (simp add: take_bit_int_eq_self unsigned_of_int)
  have "uint (take_bit n (word_of_int u :: u64)) = uint (word_of_int u :: u64)"
    using assms e by (simp add: unsigned_take_bit_eq take_bit_int_eq_self)
  then show "take_bit n (word_of_int u :: u64) = word_of_int u" by (simp only: word_uint_eq_iff)
qed

text \<open>The encoding: the offset from the minimum, in the bits the span needs.\<close>

definition ranged_enc :: "ctype \<Rightarrow> int \<Rightarrow> int \<Rightarrow> int \<Rightarrow> bool list" where
  "ranged_enc t lo hi v = bits_of (range_bits t lo hi) (word_of_int (v - lo))"

lemma ranged_ser:
  assumes "range_ok t lo hi" "in_range lo hi v" "winv w" "dbg \<longrightarrow> in_ctype t (hi - lo)"
  shows "\<exists>w'. NetSerializer_ranged dbg t lo hi v w = Inr w' \<and> wrote w w' (ranged_enc t lo hi v)"
proof -
  note b = range_bits [OF assms(1)]
  let ?n = "range_bits t lo hi" and ?x = "word_of_int (conv t (v - lo)) :: u64"
  have u: "0 \<le> v - lo" "v - lo < 2 ^ ?n" using assms(2) b(2) by (auto simp: in_range_def)
  have "writable dbg ?x ?n"
  proof (cases dbg)
    case True
    then have "in_ctype t (v - lo)"
      using assms by (cases t) (auto simp: in_range_def in_ctype_def ctype_min_def ctype_max_def)
    then show ?thesis using take_bit_offset(1) [OF u b(1)] by (simp add: writable_def conv_id)
  qed (simp add: writable_def)
  then obtain w' where "WriteBits dbg ?x (int ?n) w = Inr w'" "wrote w w' (bits_of ?n ?x)"
    using WriteBits_spec [OF assms(3), of "int ?n" dbg ?x] by auto
  then show ?thesis
    using range_offset [OF assms(1,2)] range_span [OF assms(1)] bits_of_conv [OF b(3)]
    by (simp add: NetSerializer_ranged_def ranged_enc_def flip: range_bits_def)
qed

lemma ranged_deser:
  assumes "range_ok t lo hi" "in_range lo hi v" "rinv r" "rbits r = ranged_enc t lo hi v @ rest"
  shows "\<exists>r'. NetDeserializer_ranged t lo hi v0 r = Inr (v, r') \<and> consumed r r' (ranged_enc t lo hi v)"
proof -
  note b = range_bits [OF assms(1)]
  let ?n = "range_bits t lo hi" and ?x = "word_of_int (v - lo) :: u64"
  have u: "0 \<le> v - lo" "v - lo < 2 ^ ?n" using assms(2) b(2) by (auto simp: in_range_def)
  note x = take_bit_offset [OF u b(1)]
  obtain r' where r': "ReadUBits (int ?n) r = Inr (?x, r')" "consumed r r' (bits_of ?n ?x)"
    using ReadUBits_value [OF assms(3), of "int ?n" ?x rest] assms(4) b(1) x(1)
    by (auto simp: ranged_enc_def)
  obtain tr y where "c_binop OpAdd t (conv t (v - lo)) t lo = Inr (tr, y)" "conv t y = v"
    using range_restore [OF assms(1,2)] by blast
  then show ?thesis
    using r' x(2) range_span [OF assms(1)] Ranged_Set_id [OF assms(2)]
    by (simp add: NetDeserializer_ranged_def ranged_enc_def flip: range_bits_def)
qed

lemma ranged_codec:
  assumes "range_ok t lo hi" "dbg \<longrightarrow> in_ctype t (hi - lo)"
  shows "value_codec (NetSerializer_ranged dbg t lo hi) (NetDeserializer_ranged t lo hi)
    (in_range lo hi) (\<lambda>_. True) (ranged_enc t lo hi)"
  using ranged_ser [OF assms(1) _ _ assms(2)] ranged_deser [OF assms(1)] by unfold_locales auto

text \<open>A ranged number of any integer type is sent in the bits its span needs and is
  restored, provided the span fits \<^verbatim>\<open>int\<close> or the wider type it is computed in; the debug build
  needs it to fit \<^verbatim>\<open>NumericType\<close> itself.\<close>

theorem ranged_roundtrip:
  assumes "range_ok t lo hi" "dbg \<longrightarrow> in_ctype t (hi - lo)" "winv w" "in_range lo hi v"
  shows "\<exists>w' bs. NetSerializer_ranged dbg t lo hi v w = Inr w' \<and> winv w'
    \<and> wbits w' = wbits w @ bs
    \<and> (\<forall>v0 r rest. rinv r \<and> rbits r = bs @ rest \<longrightarrow>
         (\<exists>r'. NetDeserializer_ranged t lo hi v0 r = Inr (v, r') \<and> rinv r' \<and> rbits r' = rest))"
  using value_codec.value_roundtrip [OF ranged_codec [OF assms(1,2)] assms(3,4)] by simp

theorem ranged_roundtrip_witness:
  "\<exists>w' bs. NetSerializer_ranged True I16 (- 100) 900 523 NetBitWriterVector_init = Inr w'
    \<and> winv w' \<and> wbits w' = bs
    \<and> (\<forall>v0 r rest. rinv r \<and> rbits r = bs @ rest \<longrightarrow>
         (\<exists>r'. NetDeserializer_ranged I16 (- 100) 900 v0 r = Inr (523, r') \<and> rinv r' \<and> rbits r' = rest))"
  using ranged_roundtrip [of I16 "- 100" 900 True NetBitWriterVector_init 523]
  by (simp add: range_ok_def in_range_def in_ctype_def ctype_min_def ctype_max_def)

text \<open>Without that, the upper half of a full 8-bit range cannot be sent by a debug
  build: the offset is converted to a negative \<^verbatim>\<open>int8_t\<close> and then to a 64-bit number.\<close>

theorem ranged_debug_throws:
  assumes "0 \<le> v" "v \<le> 127"
  shows "NetSerializer_ranged True I8 (- 128) 127 v w = Inl OutOfRange"
proof -
  have ok: "range_ok I8 (- 128) 127" "in_range (- 128) 127 v"
    using assms by (simp_all add: range_ok_def in_range_def in_ctype_def ctype_min_def ctype_max_def)
  have n: "GetRequiredBits I32 255 = 8"
    by (rule GetRequiredBits_unique; simp add: wide_def in_ctype_def ctype_min_def ctype_max_def)
  have "(v - 128) mod 256 = v + 128"
    using assms mod_add_self2 [of "v - 128" 256] by simp
  then have c: "conv I8 (v + 128) = v - 128"
    using assms conv_eq_iff [of I8 "v + 128" "v - 128"] conv_id [of I8 "v - 128"]
    by (simp add: in_ctype_def ctype_min_def ctype_max_def take_bit_eq_mod)
  have "\<not> writable True (word_of_int (v - 128)) 8"
  proof
    assume "writable True (word_of_int (v - 128)) 8"
    then have "bit (word_of_int (v - 128) :: u64) 8 = bit (take_bit 8 (word_of_int (v - 128)) :: u64) 8"
      by (simp add: writable_def)
    then have "\<not> bit (v - 128) 8" by (simp add: bit_take_bit_iff bit_word_of_int_iff del: of_int_diff)
    moreover have "bit (v - 128) 8"
    proof -
      have "v - 128 = NOT (127 - v)" by (simp add: not_int_def)
      moreover have "\<not> bit (127 - v) 8" using assms by (simp add: bit_iff_odd)
      ultimately show ?thesis by (simp add: bit_not_iff)
    qed
    ultimately show False by simp
  qed
  then show ?thesis
    using range_offset [OF ok] range_span [OF ok(1)] WriteBits_reject [of 8 True _ w] n c
    by (simp add: NetSerializer_ranged_def del: of_int_diff)
qed

theorem ranged_debug_throws_witness:
  "NetSerializer_ranged True I8 (- 128) 127 5 NetBitWriterVector_init = Inl OutOfRange"
  using ranged_debug_throws [of 5 NetBitWriterVector_init] by simp

interpretation percent: value_codec "NetSerializer_ranged dbg I32 0 100" "NetDeserializer_ranged I32 0 100"
    "in_range 0 100" "\<lambda>_. True" "ranged_enc I32 0 100" for dbg
  by (rule ranged_codec) (simp_all add: range_ok_def in_ctype_def ctype_min_def ctype_max_def)

section \<open>Enumerations\<close>

text \<open>
  \<^verbatim>\<open>NetEnum<EnumType>\<close>: the state is \<^verbatim>\<open>(int)m_Value\<close>. The hash \<^verbatim>\<open>crc32\<close> and the tables
  \<^verbatim>\<open>StormReflGetEnumFromHash\<close> (the value for a hash), \<^verbatim>\<open>StormReflGetEnumAsString\<close> and
  \<^verbatim>\<open>StormReflGetEnumElemCount\<close> (the number of enumerators) are those of an external library, and
  arguments here.
\<close>

definition NetEnum_init :: int where
  "NetEnum_init = 0"

definition NetEnum_of :: "int \<Rightarrow> int" where
  "NetEnum_of val = val"

definition NetEnum_Set :: "int \<Rightarrow> int \<Rightarrow> int" where
  "NetEnum_Set val m_Value = val"

definition NetEnum_assign_string ::
    "(string \<Rightarrow> 'h) \<Rightarrow> ('h \<Rightarrow> int option) \<Rightarrow> string \<Rightarrow> int \<Rightarrow> int" where
  "NetEnum_assign_string crc32 from_hash val m_Value =
     (case from_hash (crc32 val) of Some out \<Rightarrow> NetEnum_Set out m_Value | None \<Rightarrow> m_Value)"

definition NetEnum_assign :: "int \<Rightarrow> int \<Rightarrow> int" where
  "NetEnum_assign rhs m_Value = NetEnum_Set rhs m_Value"

definition NetEnum_ToString :: "(int \<Rightarrow> string) \<Rightarrow> int \<Rightarrow> string" where
  "NetEnum_ToString as_string m_Value = as_string m_Value"

definition NetEnum_compare :: "cmpop \<Rightarrow> int \<Rightarrow> int \<Rightarrow> bool" where
  "NetEnum_compare f m_Value val =
     (case f of CmpEq \<Rightarrow> m_Value = val | CmpNe \<Rightarrow> m_Value \<noteq> val | CmpLt \<Rightarrow> m_Value < val
        | CmpLe \<Rightarrow> m_Value \<le> val | CmpGt \<Rightarrow> m_Value > val | CmpGe \<Rightarrow> m_Value \<ge> val)"

definition NetSerializer_enum :: "bool \<Rightarrow> nat \<Rightarrow> int serializer" where
  "NetSerializer_enum dbg elem_count val w = WriteBits dbg (word_of_int val) (int (count_bits elem_count)) w"

definition NetDeserializer_enum :: "nat \<Rightarrow> int deserializer" where
  "NetDeserializer_enum elem_count val r =
     ebind (ReadUBits (int (count_bits elem_count)) r) (\<lambda>(enum_val, r).
       Inr (NetEnum_Set (conv I32 (uint enum_val)) val, r))"

text \<open>The values that travel: non-negative and at most the number of enumerators.\<close>

definition enum_enc :: "nat \<Rightarrow> int \<Rightarrow> bool list" where
  "enum_enc elem_count v = nat_bits (count_bits elem_count) (nat v)"

lemma enum_codec:
  assumes "elem_count < 2 ^ 31"
  shows "value_codec (NetSerializer_enum dbg elem_count) (NetDeserializer_enum elem_count)
    (in_range 0 (int elem_count)) (\<lambda>_. True) (enum_enc elem_count)"
proof
  let ?n = "count_bits elem_count"
  note b = count_bits [OF assms]
  show "\<exists>w'. NetSerializer_enum dbg elem_count v w = Inr w' \<and> wrote w w' (enum_enc elem_count v)"
    if "winv w" "in_range 0 (int elem_count) v" for w v
  proof -
    have "nat v \<le> elem_count" "0 \<le> v" using that(2) by (auto simp: in_range_def)
    then show ?thesis
      using WriteBits_nat [OF that(1) b(3), of "nat v" dbg] b(1)
      by (simp add: NetSerializer_enum_def enum_enc_def of_nat_nat)
  qed
  show "\<exists>r'. NetDeserializer_enum elem_count v0 r = Inr (v, r') \<and> consumed r r' (enum_enc elem_count v)"
    if r: "rinv r" "in_range 0 (int elem_count) v" "rbits r = enum_enc elem_count v @ rest" for r v v0 rest
  proof -
    have v: "nat v \<le> elem_count" "0 \<le> v" "v \<le> int elem_count" using r(2) by (auto simp: in_range_def)
    note l = b(3) [OF v(1)]
    obtain r' where r': "ReadUBits (int ?n) r = Inr (of_nat (nat v), r')" "consumed r r' (enum_enc elem_count v)"
      using ReadUBits_nat [OF r(1) r(3) [unfolded enum_enc_def] l] b(1) by (auto simp: enum_enc_def)
    have "uint (of_nat (nat v) :: u64) = v"
      using unat_of_nat_bound [OF l] b(1) v(2) by (simp add: uint_nat)
    moreover have "conv I32 v = v"
      using v assms by (intro conv_id) (simp add: in_ctype_def ctype_min_def ctype_max_def)
    ultimately show ?thesis using r' by (simp add: NetDeserializer_enum_def NetEnum_Set_def)
  qed
qed simp

interpretation direction_enum: value_codec "NetSerializer_enum dbg 4" "NetDeserializer_enum 4"
    "in_range 0 (int 4)" "\<lambda>_. True" "enum_enc 4" for dbg
  by (rule enum_codec) simp

end
