(* ===== verification/ArrayList.thy ===== *)
theory ArrayList
  imports Serialize
begin

text \<open>
  \<^verbatim>\<open>NetReflectionArrayList.h\<close>: the bounded vector. The state is \<^verbatim>\<open>m_Values\<close>; \<open>max_size\<close> is
  the template argument \<^verbatim>\<open>MaxSize\<close>. Every operation that adds an element throws
  \<^verbatim>\<open>std::runtime_error\<close> on a full list; an index outside the vector is undefined.
\<close>

section \<open>Operations\<close>

fun ArrayList_eq :: "('a \<Rightarrow> 'a \<Rightarrow> bool) \<Rightarrow> 'a list \<Rightarrow> 'a list \<Rightarrow> bool" where
  "ArrayList_eq cmp vs rhs =
     (if length vs \<noteq> length rhs then False
      else case (vs, rhs) of
        (x # xs, y # ys) \<Rightarrow> if cmp x y then ArrayList_eq cmp xs ys else False
      | _ \<Rightarrow> True)"

definition PushBack :: "nat \<Rightarrow> 'a \<Rightarrow> 'a list \<Rightarrow> 'a list result" where
  "PushBack max_size val vs =
     (if max_size \<le> length vs then Inl RuntimeError else Inr (vs @ [val]))"

definition EmplaceBack :: "nat \<Rightarrow> 'a \<Rightarrow> 'a list \<Rightarrow> 'a list result" where
  "EmplaceBack max_size val vs =
     (if max_size \<le> length vs then Inl RuntimeError else Inr (vs @ [val]))"

definition vector_insert :: "nat \<Rightarrow> 'a \<Rightarrow> 'a list \<Rightarrow> 'a list result" where
  "vector_insert pos val vs =
     (if length vs < pos then Inl Undefined else Inr (take pos vs @ val # drop pos vs))"

definition InsertAt :: "nat \<Rightarrow> 'a \<Rightarrow> nat \<Rightarrow> 'a list \<Rightarrow> 'a list result" where
  "InsertAt max_size val logical_index vs =
     (if max_size \<le> length vs then Inl RuntimeError
      else if logical_index = length vs then Inr (vs @ [val])
      else vector_insert logical_index val vs)"

text \<open>Inside the list \<^verbatim>\<open>EmplaceAt\<close> replaces the element, and throws on a full list all the same.\<close>

definition EmplaceAt :: "nat \<Rightarrow> nat \<Rightarrow> 'a \<Rightarrow> 'a list \<Rightarrow> 'a list result" where
  "EmplaceAt max_size logical_index val vs =
     (if max_size \<le> length vs then Inl RuntimeError
      else if logical_index = length vs then Inr (vs @ [val])
      else if length vs < logical_index then Inl Undefined
      else Inr (vs[logical_index := val]))"

definition RemoveAt :: "nat \<Rightarrow> 'a list \<Rightarrow> 'a list result" where
  "RemoveAt logical_index vs =
     (if length vs \<le> logical_index then Inl Undefined
      else Inr (take logical_index vs @ drop (Suc logical_index) vs))"

definition ArrayList_get :: "nat \<Rightarrow> 'a list \<Rightarrow> 'a result" where
  "ArrayList_get index vs = (if index < length vs then Inr (vs ! index) else Inl Undefined)"

definition ArrayList_resize :: "nat \<Rightarrow> 'a \<Rightarrow> nat \<Rightarrow> 'a list \<Rightarrow> 'a list result" where
  "ArrayList_resize max_size dflt new_size vs =
     (if max_size < new_size then Inl RuntimeError else Inr (vector_resize dflt new_size vs))"

definition ArrayList_clear :: "'a list \<Rightarrow> 'a list" where
  "ArrayList_clear vs = []"

text \<open>The iterator interface; a position is the distance from \<^verbatim>\<open>begin()\<close>.\<close>

definition ArrayList_push_back :: "nat \<Rightarrow> 'a \<Rightarrow> 'a list \<Rightarrow> 'a list result" where
  "ArrayList_push_back max_size val vs = PushBack max_size val vs"

definition ArrayList_emplace_back :: "nat \<Rightarrow> 'a \<Rightarrow> 'a list \<Rightarrow> 'a list result" where
  "ArrayList_emplace_back max_size val vs =
     (if max_size \<le> length vs then Inl RuntimeError else Inr (vs @ [val]))"

definition ArrayList_insert :: "nat \<Rightarrow> nat \<Rightarrow> 'a \<Rightarrow> 'a list \<Rightarrow> 'a list result" where
  "ArrayList_insert max_size pos val vs =
     (if max_size \<le> length vs then Inl RuntimeError else vector_insert pos val vs)"

definition ArrayList_emplace :: "nat \<Rightarrow> nat \<Rightarrow> 'a \<Rightarrow> 'a list \<Rightarrow> 'a list result" where
  "ArrayList_emplace max_size pos val vs =
     (if max_size \<le> length vs then Inl RuntimeError else vector_insert pos val vs)"

definition ArrayList_erase :: "nat \<Rightarrow> 'a list \<Rightarrow> 'a list result" where
  "ArrayList_erase pos vs =
     (if length vs \<le> pos then Inl Undefined else Inr (take pos vs @ drop (Suc pos) vs))"

definition ArrayList_erase_range :: "nat \<Rightarrow> nat \<Rightarrow> 'a list \<Rightarrow> 'a list result" where
  "ArrayList_erase_range pos last_pos vs =
     (if length vs < last_pos \<or> last_pos < pos then Inl Undefined
      else Inr (take pos vs @ drop last_pos vs))"

section \<open>Serializers\<close>

definition NetSerializer_ArrayList :: "bool \<Rightarrow> nat \<Rightarrow> 'a serializer \<Rightarrow> 'a list serializer" where
  "NetSerializer_ArrayList dbg max_size ser val w =
     ebind (WriteBits dbg (of_nat (length val)) (int (size_bits max_size)) w)
       (NetSerializer_array ser val)"

definition NetDeserializer_ArrayList :: "nat \<Rightarrow> 'a \<Rightarrow> 'a deserializer \<Rightarrow> 'a list deserializer" where
  "NetDeserializer_ArrayList max_size dflt deser val r =
     ebind (ReadUBits (int (size_bits max_size)) r) (\<lambda>(size, r).
     ebind (ArrayList_resize max_size dflt (unat size) val) (\<lambda>val.
       NetDeserializer_array deser val r))"

text \<open>One element of the difference: a flag, reserved first and set afterwards.\<close>

definition elem_delta ::
    "bool \<Rightarrow> 'a delta_serializer \<Rightarrow> 'a \<Rightarrow> 'a \<Rightarrow> NetBitWriterVector \<Rightarrow> (bool \<times> NetBitWriterVector) result" where
  "elem_delta dbg dser t s w =
     ebind (Reserve dbg 1 w) (\<lambda>(cursor, w).
     ebind (dser t s w) (\<lambda>(changed, w).
     ebind (CursorWriteBits dbg (of_bool changed) 1 cursor w) (\<lambda>(_, w). Inr (changed, w))))"

fun ArrayList_delta_resized ::
    "bool \<Rightarrow> 'a serializer \<Rightarrow> 'a delta_serializer \<Rightarrow> 'a list \<Rightarrow> 'a list \<Rightarrow> NetBitWriterVector
       \<Rightarrow> NetBitWriterVector result" where
  "ArrayList_delta_resized dbg ser dser [] src w = Inr w"
| "ArrayList_delta_resized dbg ser dser (t # ts) [] w =
     ebind (ser t w) (ArrayList_delta_resized dbg ser dser ts [])"
| "ArrayList_delta_resized dbg ser dser (t # ts) (s # ss) w =
     ebind (elem_delta dbg dser t s w) (\<lambda>(_, w). ArrayList_delta_resized dbg ser dser ts ss w)"

fun ArrayList_delta_same_size ::
    "bool \<Rightarrow> 'a delta_serializer \<Rightarrow> 'a list \<Rightarrow> 'a list \<Rightarrow> nat \<Rightarrow> NetBitWriterVector
       \<Rightarrow> (nat \<times> NetBitWriterVector) result" where
  "ArrayList_delta_same_size dbg dser (t # ts) (s # ss) num_wrote w =
     ebind (elem_delta dbg dser t s w) (\<lambda>(changed, w).
       ArrayList_delta_same_size dbg dser ts ss (if changed then Suc num_wrote else num_wrote) w)"
| "ArrayList_delta_same_size dbg dser ts ss num_wrote w = Inr (num_wrote, w)"

definition NetSerializerDelta_ArrayList ::
    "bool \<Rightarrow> nat \<Rightarrow> 'a serializer \<Rightarrow> 'a delta_serializer \<Rightarrow> 'a list delta_serializer" where
  "NetSerializerDelta_ArrayList dbg max_size ser dser to src w =
     (if length to \<noteq> length src then
        ebind (WriteBits dbg 1 1 w) (\<lambda>w.
        ebind (WriteBits dbg (of_nat (length to)) (int (size_bits max_size)) w) (\<lambda>w.
        ebind (ArrayList_delta_resized dbg ser dser to src w) (\<lambda>w. Inr (True, w))))
      else
        ebind (Reserve dbg 1 w) (\<lambda>(begin_cursor, w).
        ebind (ArrayList_delta_same_size dbg dser to src 0 w) (\<lambda>(num_wrote, w).
          if 0 < num_wrote then
            ebind (CursorWriteBits dbg 0 1 begin_cursor w) (\<lambda>(_, w). Inr (True, w))
          else ebind (RollBack begin_cursor w) (\<lambda>w. Inr (False, w)))))"

text \<open>\<open>read_changes k val\<close>: the flagged differences of the first \<open>k\<close> elements.\<close>

fun read_changes :: "'a deserializer \<Rightarrow> nat \<Rightarrow> 'a list deserializer" where
  "read_changes dder (Suc k) (v # vs) r =
     ebind (ReadUBits 1 r) (\<lambda>(val_changed, r).
     ebind (if val_changed \<noteq> 0 then dder v r else Inr (v, r)) (\<lambda>(v, r).
     ebind (read_changes dder k vs r) (\<lambda>(vs, r). Inr (v # vs, r))))"
| "read_changes dder k vs r = Inr (vs, r)"

function remove_down :: "int \<Rightarrow> 'a list \<Rightarrow> 'a list result" where
  "remove_down min_size vs =
     (if int (length vs) - 1 < min_size then Inr vs
      else if vs = [] then Inl Undefined
      else ebind (RemoveAt (length vs - 1) vs) (remove_down min_size))"
  by pat_completeness auto
termination
  by (relation "measure (\<lambda>(min_size, vs). length vs)") (auto simp: RemoveAt_def split: if_splits)

fun read_added ::
    "nat \<Rightarrow> 'a \<Rightarrow> 'a deserializer \<Rightarrow> nat \<Rightarrow> 'a list deserializer" where
  "read_added max_size dflt deser 0 vs r = Inr (vs, r)"
| "read_added max_size dflt deser (Suc k) vs r =
     ebind (EmplaceBack max_size dflt vs) (\<lambda>vs'.
     ebind (deser (last vs') r) (\<lambda>(v, r).
       read_added max_size dflt deser k (vs'[length vs := v]) r))"

definition NetDeserializerDelta_ArrayList ::
    "nat \<Rightarrow> 'a \<Rightarrow> 'a deserializer \<Rightarrow> 'a deserializer \<Rightarrow> 'a list deserializer" where
  "NetDeserializerDelta_ArrayList max_size dflt deser dder val r =
     ebind (ReadUBits 1 r) (\<lambda>(size_change, r).
       if size_change \<noteq> 0 then
         ebind (ReadUBits (int (size_bits max_size)) r) (\<lambda>(new_size, r).
         let min_size = min (conv I32 (int (length val))) (conv I32 (uint new_size)) in
         ebind (read_changes dder (nat min_size) val r) (\<lambda>(val, r).
         ebind (remove_down min_size val) (\<lambda>val.
           read_added max_size dflt deser (unat new_size - length val) val r)))
       else read_changes dder (length val) val r)"

declare ArrayList_eq.simps [simp del] remove_down.simps [simp del]

section \<open>The bound\<close>

lemma ArrayList_eq_map: "ArrayList_eq cmp vs rhs \<longleftrightarrow> list_all2 cmp vs rhs"
proof (induction cmp vs rhs rule: ArrayList_eq.induct)
  case (1 cmp vs rhs)
  then show ?case
    by (subst ArrayList_eq.simps) (auto simp: list_all2_lengthD split: list.splits)
qed

datatype 'a list_op = Push 'a | Emplace_back 'a | Stl_push_back 'a | Stl_emplace_back 'a | Insert_at 'a nat | Emplace_at nat 'a | Remove_at nat
  | Resize nat | Clear | Insert nat 'a | Emplace nat 'a | Erase nat | Erase_range nat nat

fun list_step :: "nat \<Rightarrow> 'a \<Rightarrow> 'a list_op \<Rightarrow> 'a list \<Rightarrow> 'a list result" where
  "list_step m d (Push v) vs = PushBack m v vs"
| "list_step m d (Emplace_back v) vs = EmplaceBack m v vs"
| "list_step m d (Stl_push_back v) vs = ArrayList_push_back m v vs"
| "list_step m d (Stl_emplace_back v) vs = ArrayList_emplace_back m v vs"
| "list_step m d (Insert_at v i) vs = InsertAt m v i vs"
| "list_step m d (Emplace_at i v) vs = EmplaceAt m i v vs"
| "list_step m d (Remove_at i) vs = RemoveAt i vs"
| "list_step m d (Resize n) vs = ArrayList_resize m d n vs"
| "list_step m d Clear vs = Inr (ArrayList_clear vs)"
| "list_step m d (Insert i v) vs = ArrayList_insert m i v vs"
| "list_step m d (Emplace i v) vs = ArrayList_emplace m i v vs"
| "list_step m d (Erase i) vs = ArrayList_erase i vs"
| "list_step m d (Erase_range i j) vs = ArrayList_erase_range i j vs"

fun adds :: "'a list_op \<Rightarrow> bool" where
  "adds (Push v) = True" | "adds (Emplace_back v) = True" | "adds (Insert_at v i) = True"
| "adds (Stl_push_back v) = True" | "adds (Stl_emplace_back v) = True"
| "adds (Emplace_at i v) = True" | "adds (Insert i v) = True" | "adds (Emplace i v) = True"
| "adds op = False"

lemmas list_op_defs = PushBack_def EmplaceBack_def InsertAt_def EmplaceAt_def RemoveAt_def
  ArrayList_push_back_def ArrayList_emplace_back_def ArrayList_resize_def ArrayList_clear_def ArrayList_insert_def ArrayList_emplace_def
  ArrayList_erase_def ArrayList_erase_range_def vector_insert_def vector_resize_def

lemma list_step_bounded: "length vs \<le> m \<Longrightarrow> list_step m d f vs = Inr vs' \<Longrightarrow> length vs' \<le> m"
  by (cases f) (auto simp: list_op_defs split: if_splits)

text \<open>What an operation is meant to do to \<open>n\<close> elements: replace those from \<open>i\<close> up to \<open>j\<close> by new ones.\<close>

fun splice :: "'a \<Rightarrow> 'a list_op \<Rightarrow> nat \<Rightarrow> nat \<times> nat \<times> 'a list" where
  "splice d (Push v) n = (n, n, [v])"
| "splice d (Emplace_back v) n = (n, n, [v])"
| "splice d (Stl_push_back v) n = (n, n, [v])"
| "splice d (Stl_emplace_back v) n = (n, n, [v])"
| "splice d (Insert_at v i) n = (i, i, [v])"
| "splice d (Emplace_at i v) n = (i, if i < n then Suc i else i, [v])"
| "splice d (Remove_at i) n = (i, Suc i, [])"
| "splice d (Resize k) n = (min k n, n, replicate (k - n) d)"
| "splice d Clear n = (0, n, [])"
| "splice d (Insert i v) n = (i, i, [v])"
| "splice d (Emplace i v) n = (i, i, [v])"
| "splice d (Erase i) n = (i, Suc i, [])"
| "splice d (Erase_range i j) n = (i, j, [])"

text \<open>C40: every operation of a list of at most \<^verbatim>\<open>MaxSize\<close> elements. The adding ones throw if and only if the list is
  full, \<^verbatim>\<open>resize\<close> if and only if the new size is above \<^verbatim>\<open>MaxSize\<close>, and nothing else throws. Otherwise the operation
  replaces the range it is meant to by the new elements and keeps the others, if the range lies in the list (it
  is undefined if not), and the list does not grow above \<^verbatim>\<open>MaxSize\<close>.\<close>

theorem ArrayList_bounded:
  assumes "length vs \<le> m" "splice d f (length vs) = (i, j, new)"
  shows "list_step m d f vs =
      (if (adds f \<and> length vs = m) \<or> (\<exists>k. f = Resize k \<and> m < k) then Inl RuntimeError
       else if i \<le> j \<and> j \<le> length vs then Inr (take i vs @ new @ drop j vs)
       else Inl Undefined)
    \<and> (\<forall>vs'. list_step m d f vs = Inr vs' \<longrightarrow> length vs' \<le> m)"
proof (rule conjI)
  show "list_step m d f vs =
      (if (adds f \<and> length vs = m) \<or> (\<exists>k. f = Resize k \<and> m < k) then Inl RuntimeError
       else if i \<le> j \<and> j \<le> length vs then Inr (take i vs @ new @ drop j vs)
       else Inl Undefined)"
    using assms by (cases f) (auto simp: list_op_defs upd_conv_take_nth_drop min_def split: if_splits)
  show "\<forall>vs'. list_step m d f vs = Inr vs' \<longrightarrow> length vs' \<le> m" using list_step_bounded [OF assms(1)] by blast
qed

text \<open>\<^verbatim>\<open>EmplaceAt\<close> on two of three and on a full list.\<close>

theorem ArrayList_bounded_witness:
  "list_step 3 0 (Emplace_at 0 (3 :: nat)) [1, 2] = Inr [3, 2]
    \<and> list_step 2 0 (Emplace_at 0 (3 :: nat)) [1, 2] = Inl RuntimeError"
  using ArrayList_bounded [where vs = "[1, 2 :: nat]" and m = 3 and d = 0 and f = "Emplace_at 0 3" and i = 0 and j = 1 and new = "[3]"]
    ArrayList_bounded [where vs = "[1, 2 :: nat]" and m = 2 and d = 0 and f = "Emplace_at 0 3" and i = 0 and j = 1 and new = "[3]"]
  by simp

section \<open>Full values\<close>

definition list_of :: "nat \<Rightarrow> ('a \<Rightarrow> bool) \<Rightarrow> 'a list \<Rightarrow> bool" where
  "list_of m P vs \<longleftrightarrow> length vs \<le> m \<and> list_all P vs"

definition ArrayList_enc :: "nat \<Rightarrow> ('a \<Rightarrow> bool list) \<Rightarrow> 'a list \<Rightarrow> bool list" where
  "ArrayList_enc m enc vs = nat_bits (size_bits m) (length vs) @ array_enc enc vs"

lemma length_vector_resize [simp]: "length (vector_resize d n vs) = n"
  by (simp add: vector_resize_def)

lemma vector_resize_all: "list_all P vs \<Longrightarrow> P d \<Longrightarrow> list_all P (vector_resize d n vs)"
  by (auto simp: vector_resize_def list_all_iff dest: in_set_takeD)

context value_codec
begin

lemma ArrayList_codec:
  assumes "m < 2 ^ 63" "obj d"
  shows "value_codec (NetSerializer_ArrayList dbg m ser) (NetDeserializer_ArrayList m d deser)
    (list_of m wf) (list_of m obj) (ArrayList_enc m enc)"
proof
  let ?n = "size_bits m"
  note b = size_bits [OF assms(1)]
  show "\<exists>w'. NetSerializer_ArrayList dbg m ser v w = Inr w' \<and> wrote w w' (ArrayList_enc m enc v)"
    if v: "winv w" "list_of m wf v" for w v
  proof -
    obtain w1 where w1: "WriteBits dbg (of_nat (length v)) (int ?n) w = Inr w1"
        "wrote w w1 (nat_bits ?n (length v))"
      using WriteBits_nat [OF v(1) b(3), of "length v" dbg] v(2) b(1) by (auto simp: list_of_def)
    obtain w2 where "NetSerializer_array ser v w1 = Inr w2" "wrote w1 w2 (array_enc enc v)"
      using array_ser [OF wrote_winv [OF w1(2)], of v] v(2) by (auto simp: list_of_def)
    with w1 show ?thesis
      by (auto simp: NetSerializer_ArrayList_def ArrayList_enc_def intro: wrote_trans)
  qed
  show "\<exists>r'. NetDeserializer_ArrayList m d deser v0 r = Inr (v, r') \<and> consumed r r' (ArrayList_enc m enc v)"
    if v: "rinv r" "list_of m wf v" "list_of m obj v0" "rbits r = ArrayList_enc m enc v @ rest"
    for r v v0 rest
  proof -
    have lm: "length v \<le> m" using v(2) by (simp add: list_of_def)
    note l = b(3) [OF lm]
    obtain r1 where r1: "ReadUBits (int ?n) r = Inr (of_nat (length v), r1)"
        "consumed r r1 (nat_bits ?n (length v))" "rbits r1 = array_enc enc v @ rest"
      using ReadUBits_nat [OF v(1) _ l, of "array_enc enc v @ rest"] v(4) b(1)
      by (auto simp: ArrayList_enc_def)
    have u: "unat (of_nat (length v) :: u64) = length v" using unat_of_nat_bound [OF l] b(1) by simp
    let ?v0 = "vector_resize d (length v) v0"
    obtain r2 where "NetDeserializer_array deser ?v0 r1 = Inr (v, r2)" "consumed r1 r2 (array_enc enc v)"
      using array_deser [OF consumed_rinv [OF r1(2)] _ _ _ r1(3), of ?v0] v(2,3) assms(2)
        vector_resize_all [of obj v0 d "length v"] by (auto simp: list_of_def)
    with r1 u lm show ?thesis
      by (auto simp: NetDeserializer_ArrayList_def ArrayList_resize_def ArrayList_enc_def
          intro: consumed_trans)
  qed
qed (use wf_obj in \<open>auto simp: list_of_def list_all_iff\<close>)

end

section \<open>Differences\<close>

fun elems_enc :: "('a \<Rightarrow> bool list) \<Rightarrow> ('a \<Rightarrow> 'a \<Rightarrow> bool list) \<Rightarrow> 'a list \<Rightarrow> 'a list \<Rightarrow> bool list" where
  "elems_enc enc denc [] src = []"
| "elems_enc enc denc (t # ts) [] = enc t @ elems_enc enc denc ts []"
| "elems_enc enc denc (t # ts) (s # ss) = (t \<noteq> s) # denc t s @ elems_enc enc denc ts ss"

definition ArrayList_denc ::
    "nat \<Rightarrow> ('a \<Rightarrow> bool list) \<Rightarrow> ('a \<Rightarrow> 'a \<Rightarrow> bool list) \<Rightarrow> 'a list \<Rightarrow> 'a list \<Rightarrow> bool list" where
  "ArrayList_denc m enc denc to src =
     (if to = src then []
      else if length to \<noteq> length src then
        True # nat_bits (size_bits m) (length to) @ elems_enc enc denc to src
      else False # elems_enc enc denc to src)"

lemma remove_down_take: "remove_down (int k) vs = Inr (take k vs)"
proof (induction "length vs" arbitrary: vs rule: less_induct)
  case less
  show ?case
  proof (cases "length vs \<le> k")
    case True
    then show ?thesis by (subst remove_down.simps) simp
  next
    case False
    let ?vs = "take (length vs - 1) vs"
    have "RemoveAt (length vs - 1) vs = Inr ?vs" using False by (auto simp: RemoveAt_def)
    moreover have "remove_down (int k) ?vs = Inr (take k ?vs)"
      using less.hyps [of ?vs] False by auto
    moreover have "take k ?vs = take k vs" using False by simp
    ultimately show ?thesis using False by (subst remove_down.simps) auto
  qed
qed

context element_codec
begin

lemma elem_delta:
  assumes "winv w" "wf t" "wf s"
  shows "\<exists>w'. elem_delta dbg dser t s w = Inr (t \<noteq> s, w') \<and> wrote w w' ((t \<noteq> s) # denc t s)"
proof -
  obtain c w1 where w1: "Reserve dbg 1 w = Inr (c, w1)" "wrote w w1 [False]" "reserved c w" "cSize c = 1"
    using Reserve_flag [OF assms(1)] by blast
  obtain w2 where w2: "dser t s w1 = Inr (t \<noteq> s, w2)" "wrote w1 w2 (denc t s)"
    using dser_denc [OF wrote_winv [OF w1(2)] assms(2,3)] by blast
  have "wrote w w2 (False # denc t s)" using wrote_trans [OF w1(2) w2(2)] by simp
  then obtain c' w3 where "CursorWriteBits dbg (of_bool (t \<noteq> s)) 1 c w2 = Inr (c', w3)"
      "wrote w w3 ((t \<noteq> s) # denc t s)"
    using CursorWriteBits_flag [OF assms(1) w1(3)] w1(4) by (metis order_refl)
  with w1 w2 show ?thesis by (simp add: elem_delta_def)
qed

lemma delta_resized:
  "winv w \<Longrightarrow> list_all wf ts \<Longrightarrow> list_all wf ss \<Longrightarrow>
    \<exists>w'. ArrayList_delta_resized dbg ser dser ts ss w = Inr w' \<and> wrote w w' (elems_enc enc denc ts ss)"
proof (induction ts arbitrary: ss w)
  case (Cons t ts)
  show ?case
  proof (cases ss)
    case Nil
    obtain w1 where "ser t w = Inr w1" "wrote w w1 (enc t)"
      using ser_enc Cons.prems by auto
    then show ?thesis using Nil Cons.IH [of w1 "[]"] Cons.prems wrote_winv by (auto intro: wrote_trans)
  next
    case ss: (Cons s ss')
    then obtain w1 where w1: "elem_delta dbg dser t s w = Inr (t \<noteq> s, w1)"
        "wrote w w1 ((t \<noteq> s) # denc t s)"
      using elem_delta [of w t s dbg] Cons.prems by auto
    obtain w2 where w2: "ArrayList_delta_resized dbg ser dser ts ss' w1 = Inr w2"
        "wrote w1 w2 (elems_enc enc denc ts ss')"
      using Cons.IH [OF wrote_winv [OF w1(2)], of ss'] Cons.prems ss by auto
    with ss w1 wrote_trans [OF w1(2) w2(2)] show ?thesis by simp
  qed
qed simp

lemma delta_same_size:
  "winv w \<Longrightarrow> list_all wf ts \<Longrightarrow> list_all wf ss \<Longrightarrow> length ts = length ss \<Longrightarrow>
    \<exists>k' w'. ArrayList_delta_same_size dbg dser ts ss k w = Inr (k', w')
      \<and> (k' = 0 \<longleftrightarrow> k = 0 \<and> ts = ss) \<and> wrote w w' (elems_enc enc denc ts ss)"
proof (induction ts arbitrary: ss w k)
  case (Cons t ts)
  obtain s ss' where ss: "ss = s # ss'" using Cons.prems by (cases ss) auto
  obtain w1 where w1: "elem_delta dbg dser t s w = Inr (t \<noteq> s, w1)" "wrote w w1 ((t \<noteq> s) # denc t s)"
    using elem_delta [of w t s dbg] Cons.prems ss by auto
  let ?k = "if t \<noteq> s then Suc k else k"
  obtain k' w2 where w2: "ArrayList_delta_same_size dbg dser ts ss' ?k w1 = Inr (k', w2)"
      "k' = 0 \<longleftrightarrow> ?k = 0 \<and> ts = ss'" "wrote w1 w2 (elems_enc enc denc ts ss')"
    using Cons.IH [OF wrote_winv [OF w1(2)], of ss' ?k] Cons.prems ss by auto
  with ss w1 wrote_trans [OF w1(2) w2(3)] show ?case by auto
qed simp

text \<open>Reading the flagged elements that both lists have.\<close>

lemma read_changes:
  "rinv r \<Longrightarrow> list_all wf ts \<Longrightarrow> list_all wf ss \<Longrightarrow>
    rbits r = elems_enc enc denc (take (length ss) ts) ss @ rest \<Longrightarrow>
    \<exists>r'. read_changes dder (min (length ts) (length ss)) ss r
        = Inr (take (length ss) ts @ drop (length ts) ss, r')
      \<and> consumed r r' (elems_enc enc denc (take (length ss) ts) ss)"
proof (induction ss arbitrary: ts r)
  case (Cons s ss)
  show ?case
  proof (cases ts)
    case Nil
    then show ?thesis using Cons.prems by simp
  next
    case ts: (Cons t ts')
    let ?rest = "elems_enc enc denc (take (length ss) ts') ss @ rest"
    obtain r1 where r1: "ReadUBits 1 r = Inr (of_bool (t \<noteq> s), r1)" "consumed r r1 [t \<noteq> s]"
        "rbits r1 = denc t s @ ?rest"
      using ReadUBits_flag [OF Cons.prems(1), of "t \<noteq> s" "denc t s @ ?rest"] Cons.prems(4) ts by auto
    obtain r2 where r2: "(if t \<noteq> s then dder s r1 else Inr (s, r1)) = Inr (t, r2)"
        "consumed r1 r2 (denc t s)" "rbits r2 = ?rest"
    proof (cases "t = s")
      case True
      then show ?thesis using that [of r1] r1 consumed_rinv [OF r1(2)] by (simp add: denc_same)
    next
      case False
      then show ?thesis
        using dder_rest [OF consumed_rinv [OF r1(2)] _ _ False r1(3)] that Cons.prems ts by auto
    qed
    obtain r3 where r3: "read_changes dder (min (length ts') (length ss)) ss r2
        = Inr (take (length ss) ts' @ drop (length ts') ss, r3)"
        "consumed r2 r3 (elems_enc enc denc (take (length ss) ts') ss)"
      using Cons.IH [OF consumed_rinv [OF r2(2)] _ _ r2(3)] Cons.prems ts by auto
    have "consumed r r3 (elems_enc enc denc (take (length (s # ss)) ts) (s # ss))"
      using consumed_trans [OF r1(2) consumed_trans [OF r2(2) r3(2)]] ts by simp
    then show ?thesis using r1 r2 r3 ts by (auto split: if_splits)
  qed
qed (simp add: consumed_def)

lemma elems_enc_split:
  "elems_enc enc denc ts ss
    = elems_enc enc denc (take (length ss) ts) ss @ array_enc enc (drop (length ss) ts)"
proof (induction ts arbitrary: ss)
  case (Cons t ts)
  show ?case
  proof (cases ss)
    case Nil
    then show ?thesis using Cons.IH [of "[]"] by simp
  next
    case (Cons s ss')
    then show ?thesis using Cons.IH [of ss'] by simp
  qed
qed simp

lemma read_added:
  "rinv r \<Longrightarrow> list_all wf new \<Longrightarrow> obj d \<Longrightarrow> length vs + length new \<le> m \<Longrightarrow>
    rbits r = array_enc enc new @ rest \<Longrightarrow>
    \<exists>r'. read_added m d deser (length new) vs r = Inr (vs @ new, r')
      \<and> consumed r r' (array_enc enc new)"
proof (induction new arbitrary: vs r)
  case (Cons v new)
  obtain r1 where r1: "deser d r = Inr (v, r1)" "consumed r r1 (enc v)"
      "rbits r1 = array_enc enc new @ rest"
    using deser_rest [OF Cons.prems(1), of v d "array_enc enc new @ rest"] Cons.prems by auto
  obtain r2 where r2: "read_added m d deser (length new) (vs @ [v]) r1 = Inr ((vs @ [v]) @ new, r2)"
      "consumed r1 r2 (array_enc enc new)"
    using Cons.IH [OF consumed_rinv [OF r1(2)] _ _ _ r1(3), of "vs @ [v]"] Cons.prems by auto
  have "consumed r r2 (array_enc enc (v # new))" using consumed_trans [OF r1(2) r2(2)] by simp
  then show ?case using r1 r2 Cons.prems by (simp add: EmplaceBack_def)
qed simp

lemma ArrayList_dser:
  assumes "m < 2 ^ 31" "winv w" "list_of m wf to" "list_of m wf src"
  shows "\<exists>w'. NetSerializerDelta_ArrayList dbg m ser dser to src w = Inr (to \<noteq> src, w')
    \<and> wrote w w' (ArrayList_denc m enc denc to src)"
proof (cases "length to = length src")
  case True
  have l: "list_all wf to" "list_all wf src" using assms(3,4) by (auto simp: list_of_def)
  obtain c w1 where w1: "Reserve dbg 1 w = Inr (c, w1)" "wrote w w1 [False]" "reserved c w" "cSize c = 1"
    using Reserve_flag [OF assms(2)] by blast
  obtain k w2 where w2: "ArrayList_delta_same_size dbg dser to src 0 w1 = Inr (k, w2)"
      "k = 0 \<longleftrightarrow> to = src" "wrote w1 w2 (elems_enc enc denc to src)"
    using delta_same_size [OF wrote_winv [OF w1(2)] l True, of dbg 0] by auto
  have w02: "wrote w w2 (False # elems_enc enc denc to src)"
    using wrote_trans [OF w1(2) w2(3)] by simp
  show ?thesis
  proof (cases "to = src")
    case same: True
    obtain w3 where "RollBack c w2 = Inr w3" "wrote w w3 []"
      using RollBack_spec [OF assms(2) wrote_winv [OF w2(3)] w1(3) wrote_wbits [OF w02]] by blast
    with same w1 w2 show ?thesis
      by (simp add: NetSerializerDelta_ArrayList_def ArrayList_denc_def)
  next
    case False
    obtain c' w3 where "CursorWriteBits dbg (of_bool False) 1 c w2 = Inr (c', w3)"
        "wrote w w3 (False # elems_enc enc denc to src)"
      using CursorWriteBits_flag [OF assms(2) w1(3) w02] w1(4) by (metis order_refl)
    with False True w1 w2 show ?thesis
      by (simp add: NetSerializerDelta_ArrayList_def ArrayList_denc_def)
  qed
next
  case False
  let ?n = "size_bits m"
  have m: "m < 2 ^ 63" using assms(1) by simp
  have b: "length to < 2 ^ ?n" "?n \<le> 64" using size_bits [OF m] assms(3) by (auto simp: list_of_def)
  obtain w1 where w1: "WriteBits dbg 1 1 w = Inr w1" "wrote w w1 [True]"
    using WriteBits_flag_1 [OF assms(2)] by blast
  obtain w2 where w2: "WriteBits dbg (of_nat (length to)) (int ?n) w1 = Inr w2"
      "wrote w1 w2 (nat_bits ?n (length to))"
    using WriteBits_nat [OF wrote_winv [OF w1(2)] b] by blast
  obtain w3 where w3: "ArrayList_delta_resized dbg ser dser to src w2 = Inr w3"
      "wrote w2 w3 (elems_enc enc denc to src)"
    using delta_resized [OF wrote_winv [OF w2(2)]] assms(3,4) unfolding list_of_def by blast
  have "wrote w w3 (ArrayList_denc m enc denc to src)"
    using wrote_trans [OF w1(2) wrote_trans [OF w2(2) w3(2)]] False by (auto simp: ArrayList_denc_def)
  then show ?thesis using w1 w2 w3 False by (auto simp: NetSerializerDelta_ArrayList_def)
qed

lemma ArrayList_dder:
  assumes "m < 2 ^ 31" "obj d" "rinv r" "list_of m wf to" "list_of m wf src" "to \<noteq> src"
    and "rbits r = ArrayList_denc m enc denc to src @ rest"
  shows "\<exists>r'. NetDeserializerDelta_ArrayList m d deser dder src r = Inr (to, r')
    \<and> consumed r r' (ArrayList_denc m enc denc to src)"
proof -
  have l: "list_all wf to" "list_all wf src" "length to \<le> m" "length src \<le> m"
    using assms(4,5) by (auto simp: list_of_def)
  have ltake: "list_all wf (drop (length src) to)"
    using l(1) by (auto simp: list_all_iff dest: in_set_dropD)
  show ?thesis
  proof (cases "length to = length src")
    case True
    let ?e = "elems_enc enc denc to src"
    obtain r1 where r1: "ReadUBits 1 r = Inr (0, r1)" "consumed r r1 [False]" "rbits r1 = ?e @ rest"
      using ReadUBits_flag [OF assms(3), of False "?e @ rest"] assms(6,7) True
      by (auto simp: ArrayList_denc_def)
    obtain r2 where "read_changes dder (length src) src r1 = Inr (to, r2)" "consumed r1 r2 ?e"
      using read_changes [OF consumed_rinv [OF r1(2)] l(1,2), of rest] r1(3) True by auto
    then show ?thesis
      using r1 consumed_trans [OF r1(2)] True assms(6)
      by (fastforce simp: NetDeserializerDelta_ArrayList_def ArrayList_denc_def)
  next
    case False
    let ?n = "size_bits m" and ?e = "elems_enc enc denc to src"
    let ?com = "elems_enc enc denc (take (length src) to) src" and ?new = "drop (length src) to"
    have m: "m < 2 ^ 63" using assms(1) by simp
    have b: "length to < 2 ^ ?n" "?n < 64" using size_bits [OF m] l(3) by auto
    obtain r1 where r1: "ReadUBits 1 r = Inr (1, r1)" "consumed r r1 [True]"
        "rbits r1 = nat_bits ?n (length to) @ ?e @ rest"
      using ReadUBits_flag [OF assms(3), of True "nat_bits ?n (length to) @ ?e @ rest"] assms(6,7) False
      by (auto simp: ArrayList_denc_def)
    obtain r2 where r2: "ReadUBits (int ?n) r1 = Inr (of_nat (length to), r2)"
        "consumed r1 r2 (nat_bits ?n (length to))" "rbits r2 = ?e @ rest"
      using ReadUBits_nat [OF consumed_rinv [OF r1(2)] r1(3) b] by blast
    have u: "unat (of_nat (length to) :: u64) = length to"
      using unat_of_nat_bound [OF b(1)] b(2) by simp
    have "in_ctype I32 (int (length to))" "in_ctype I32 (int (length src))"
      using l assms(1) by (simp_all add: in_ctype_def ctype_min_def ctype_max_def)
    then have c: "conv I32 (uint (of_nat (length to) :: u64)) = int (length to)"
        "conv I32 (int (length src)) = int (length src)"
      using u by (simp_all add: conv_id uint_nat)
    obtain r3 where r3: "read_changes dder (min (length to) (length src)) src r2
        = Inr (take (length src) to @ drop (length to) src, r3)" "consumed r2 r3 ?com"
        "rbits r3 = array_enc enc ?new @ rest"
      using read_changes [OF consumed_rinv [OF r2(2)] l(1,2), of "array_enc enc ?new @ rest"] r2(3)
        elems_enc_split [of to src] consumed_rest by fastforce
    have rm: "remove_down (int (min (length to) (length src))) (take (length src) to @ drop (length to) src)
        = Inr (take (length src) to)"
      by (auto simp: remove_down_take min_def)
    have ll: "length (take (length src) to) + length ?new \<le> m" using l(3) by simp
    obtain r4 where r4: "read_added m d deser (length ?new) (take (length src) to) r3
        = Inr (take (length src) to @ ?new, r4)" "consumed r3 r4 (array_enc enc ?new)"
      using read_added [OF consumed_rinv [OF r3(2)] ltake assms(2) ll r3(3)] by blast
    have cn: "consumed r r4 (ArrayList_denc m enc denc to src)"
      using consumed_trans [OF r1(2) consumed_trans [OF r2(2) consumed_trans [OF r3(2) r4(2)]]]
        elems_enc_split [of to src] assms(6) False by (simp add: ArrayList_denc_def)
    have k: "length to - length (take (length src) to) = length ?new" by simp
    have mn: "min (int (length src)) (int (length to)) = int (min (length to) (length src))" by simp
    show ?thesis
      using r1(1) r2(1) r3(1) r4(1) rm cn u c k
      unfolding NetDeserializerDelta_ArrayList_def
      by (simp add: mn Let_def del: of_nat_min)
  qed
qed

lemma ArrayList_element_codec:
  assumes "m < 2 ^ 31" "obj d"
  shows "element_codec (NetSerializer_ArrayList dbg m ser) (NetDeserializer_ArrayList m d deser)
    (list_of m wf) (list_of m obj) (ArrayList_enc m enc)
    (NetSerializerDelta_ArrayList dbg m ser dser) (NetDeserializerDelta_ArrayList m d deser dder)
    (ArrayList_denc m enc denc)"
proof -
  have "delta_codec (NetSerializerDelta_ArrayList dbg m ser dser)
      (NetDeserializerDelta_ArrayList m d deser dder) (list_of m wf) (ArrayList_denc m enc denc)"
    using ArrayList_dser [OF assms(1)] ArrayList_dder [OF assms]
    by unfold_locales (auto simp: ArrayList_denc_def)
  moreover have "m < 2 ^ 63" using assms(1) by simp
  ultimately show ?thesis
    using ArrayList_codec [OF _ assms(2)] by (simp add: element_codec_def)
qed

end

text \<open>A list of flags, and a list of lists of flags.\<close>

interpretation bool_element: element_codec "NetSerializer_bool dbg" NetDeserializer_bool
    "\<lambda>_. True" "\<lambda>_. True" "\<lambda>b. [b]" "NetSerializeDeltaType (=) (NetSerializer_bool dbg)"
    "NetDeserializeDeltaType NetDeserializer_bool" "\<lambda>to src. if to = src then [] else [to]" for dbg
  by (rule bool_codec.default_element_codec)

interpretation bool_list: element_codec
    "NetSerializer_ArrayList dbg 10 (NetSerializer_bool dbg)"
    "NetDeserializer_ArrayList 10 False NetDeserializer_bool"
    "list_of 10 (\<lambda>_. True)" "list_of 10 (\<lambda>_. True)" "ArrayList_enc 10 (\<lambda>b. [b])"
    "NetSerializerDelta_ArrayList dbg 10 (NetSerializer_bool dbg)
       (NetSerializeDeltaType (=) (NetSerializer_bool dbg))"
    "NetDeserializerDelta_ArrayList 10 False NetDeserializer_bool
       (NetDeserializeDeltaType NetDeserializer_bool)"
    "ArrayList_denc 10 (\<lambda>b. [b]) (\<lambda>to src. if to = src then [] else [to])" for dbg
  by (rule bool_element.ArrayList_element_codec) simp_all

text \<open>C20: the difference of two lists, for any element codec. Equal lists put
  nothing on the wire; otherwise the delta deserializer, started from the old list, changes, removes
  and appends elements until it has the new one.\<close>

theorem ArrayList_delta_roundtrip:
  assumes "element_codec ser deser okv obj enc dser dder denc" "m < 2 ^ 31" "obj d"
    and "winv w" "list_of m okv to" "list_of m okv src"
  shows "\<exists>w' bs. NetSerializerDelta_ArrayList dbg m ser dser to src w = Inr (to \<noteq> src, w')
    \<and> winv w' \<and> wbits w' = wbits w @ bs \<and> (to = src \<longrightarrow> bs = [])
    \<and> (\<forall>r rest. to \<noteq> src \<and> rinv r \<and> rbits r = bs @ rest \<longrightarrow>
         (\<exists>r'. NetDeserializerDelta_ArrayList m d deser dder src r = Inr (to, r')
           \<and> rinv r' \<and> rbits r' = rest))"
  using delta_codec.delta_roundtrip
    [OF element_codec.axioms(2) [OF element_codec.ArrayList_element_codec [OF assms(1-3)]] assms(4-6)] .

theorem ArrayList_delta_roundtrip_witness:
  "\<exists>w' bs. NetSerializerDelta_ArrayList True 10 (NetSerializer_bool True)
        (NetSerializeDeltaType (=) (NetSerializer_bool True)) [True, False, True] [False]
        NetBitWriterVector_init = Inr (True, w') \<and> winv w' \<and> wbits w' = bs
    \<and> (\<forall>r rest. rinv r \<and> rbits r = bs @ rest \<longrightarrow>
         (\<exists>r'. NetDeserializerDelta_ArrayList 10 False NetDeserializer_bool
             (NetDeserializeDeltaType NetDeserializer_bool) [False] r = Inr ([True, False, True], r')
           \<and> rinv r' \<and> rbits r' = rest))"
  using ArrayList_delta_roundtrip [OF bool_element.element_codec_axioms [of True], where m = 10
      and d = False and w = NetBitWriterVector_init and to = "[True, False, True]"
      and src = "[False]" and dbg = True]
  by (simp add: list_of_def)

end
