(* ===== verification/NetMap.thy ===== *)
theory NetMap
  imports Serialize Numbers
begin

text \<open>
  \<^verbatim>\<open>NetReflectionMap.h\<close>: the map over \<^verbatim>\<open>std::map<K, T>\<close> and its serializers. The state is the
  association list of the tree in key order; \<open>max_size\<close> is \<^verbatim>\<open>MaxSize\<close> and \<open>kt\<close> the integer type
  \<^verbatim>\<open>K\<close>. An iterator is the key of the element it stands on, \<open>None\<close> is \<^verbatim>\<open>end()\<close>. The count of the entries of
  a difference is a C++ \<^verbatim>\<open>int\<close>; the model does not bound it (two maps with \<open>2 ^ 31\<close> elements between them).
\<close>

type_synonym 'v net_map = "(int \<times> 'v) list"

section \<open>std::map\<close>

fun map_assign :: "int \<Rightarrow> 'v \<Rightarrow> 'v net_map \<Rightarrow> 'v net_map" where
  "map_assign k v [] = [(k, v)]"
| "map_assign k v ((k', v') # m) =
     (if k < k' then (k, v) # (k', v') # m
      else if k = k' then (k, v) # m
      else (k', v') # map_assign k v m)"

fun map_emplace :: "int \<Rightarrow> 'v \<Rightarrow> 'v net_map \<Rightarrow> 'v net_map" where
  "map_emplace k v [] = [(k, v)]"
| "map_emplace k v ((k', v') # m) =
     (if k < k' then (k, v) # (k', v') # m
      else if k = k' then (k', v') # m
      else (k', v') # map_emplace k v m)"

fun map_erase :: "int \<Rightarrow> 'v net_map \<Rightarrow> 'v net_map" where
  "map_erase k [] = []"
| "map_erase k ((k', v') # m) = (if k = k' then m else (k', v') # map_erase k m)"

definition map_begin :: "'v net_map \<Rightarrow> int option" where
  "map_begin m = (case m of [] \<Rightarrow> None | kv # _ \<Rightarrow> Some (fst kv))"

definition map_next :: "'v net_map \<Rightarrow> int \<Rightarrow> int option" where
  "map_next m k = map_begin (dropWhile (\<lambda>kv. fst kv \<le> k) m)"

section \<open>Operations\<close>

fun Map_eq :: "('v \<Rightarrow> 'v \<Rightarrow> bool) \<Rightarrow> 'v net_map \<Rightarrow> 'v net_map \<Rightarrow> bool" where
  "Map_eq veq this rhs =
     (if length rhs \<noteq> length this then False
      else case (rhs, this) of
        (a # rhs', b # this') \<Rightarrow>
          if fst a = fst b \<and> veq (snd a) (snd b) then Map_eq veq this' rhs' else False
      | _ \<Rightarrow> True)"

definition Map_Clear :: "'v net_map \<Rightarrow> 'v net_map" where
  "Map_Clear m = []"

text \<open>\<^verbatim>\<open>Set\<close> throws on a full map even if the key is there already.\<close>

definition Map_Set :: "nat \<Rightarrow> int \<Rightarrow> 'v \<Rightarrow> 'v net_map \<Rightarrow> 'v net_map result" where
  "Map_Set max_size k t m =
     (if max_size \<le> length m then Inl RuntimeError else Inr (map_assign k t m))"

text \<open>\<^verbatim>\<open>EmplaceAt\<close> and \<^verbatim>\<open>operator []\<close> do not look at \<^verbatim>\<open>MaxSize\<close>.\<close>

definition Map_EmplaceAt :: "int \<Rightarrow> 'v \<Rightarrow> 'v net_map \<Rightarrow> 'v net_map" where
  "Map_EmplaceAt k t m = map_emplace k t m"

definition Map_Remove :: "int \<Rightarrow> 'v net_map \<Rightarrow> 'v net_map" where
  "Map_Remove k m = (if map_of m k = None then m else map_erase k m)"

definition Map_Erase :: "int option \<Rightarrow> 'v net_map \<Rightarrow> 'v net_map result" where
  "Map_Erase itr m =
     (case itr of None \<Rightarrow> Inl Undefined
      | Some k \<Rightarrow> if map_of m k = None then Inl Undefined else Inr (map_erase k m))"

definition Map_Get :: "int \<Rightarrow> 'v net_map \<Rightarrow> 'v option" where
  "Map_Get k m = map_of m k"

definition Map_index :: "'v \<Rightarrow> int \<Rightarrow> 'v net_map \<Rightarrow> 'v net_map" where
  "Map_index dflt k m = map_emplace k dflt m"

definition Map_Size :: "'v net_map \<Rightarrow> nat" where
  "Map_Size m = length m"

section \<open>Serializers\<close>

fun map_ser_elems :: "bool \<Rightarrow> nat \<Rightarrow> 'v serializer \<Rightarrow> 'v net_map serializer" where
  "map_ser_elems dbg key_bits ser [] w = Inr w"
| "map_ser_elems dbg key_bits ser ((k, v) # m) w =
     ebind (WriteBits dbg (word_of_int k) (int key_bits) w) (\<lambda>w.
     ebind (ser v w) (map_ser_elems dbg key_bits ser m))"

definition NetSerializer_Map :: "bool \<Rightarrow> nat \<Rightarrow> 'v serializer \<Rightarrow> 'v net_map serializer" where
  "NetSerializer_Map dbg max_size ser val w =
     ebind (WriteBits dbg (of_nat (Map_Size val)) (int (size_bits max_size)) w)
       (map_ser_elems dbg (size_bits max_size) ser val)"

lemma length_map_erase: "map_of m k \<noteq> None \<Longrightarrow> length (map_erase k m) < length m"
  by (induction k m rule: map_erase.induct) (auto split: if_splits)

text \<open>\<^verbatim>\<open>K\<close> is compared with \<^verbatim>\<open>std::size_t\<close> and converted from it.\<close>

function erase_dead :: "ctype \<Rightarrow> u64 \<Rightarrow> 'v net_map \<Rightarrow> int option \<Rightarrow> ('v net_map \<times> int option) result" where
  "erase_dead kt input_index m itr =
     (case itr of None \<Rightarrow> Inr (m, itr)
      | Some k \<Rightarrow>
          if c_compare CmpLt kt k U64 (uint input_index) then
            (if map_of m k = None then Inl Undefined
             else erase_dead kt input_index (map_erase k m) (map_next m k))
          else Inr (m, itr))"
  by pat_completeness auto

termination
  by (relation "measure (\<lambda>(kt, i, m, itr). length m)")
    (auto intro: length_map_erase)

function erase_rest :: "'v net_map \<Rightarrow> int option \<Rightarrow> 'v net_map result" where
  "erase_rest m itr =
     (case itr of None \<Rightarrow> Inr m
      | Some k \<Rightarrow> if map_of m k = None then Inl Undefined else erase_rest (map_erase k m) (map_next m k))"
  by pat_completeness auto
termination
  by (relation "measure (\<lambda>(m, itr). length m)")
    (auto intro: length_map_erase)

fun map_deser_elems ::
    "ctype \<Rightarrow> nat \<Rightarrow> 'v \<Rightarrow> 'v deserializer \<Rightarrow> nat \<Rightarrow> 'v net_map \<Rightarrow> int option \<Rightarrow> NetBitReaderBuffer
       \<Rightarrow> (('v net_map \<times> int option) \<times> NetBitReaderBuffer) result" where
  "map_deser_elems kt key_bits dflt deser 0 m itr r = Inr ((m, itr), r)"
| "map_deser_elems kt key_bits dflt deser (Suc num_elements) m itr r =
     ebind (ReadUBits (int key_bits) r) (\<lambda>(input_index, r).
     ebind (erase_dead kt input_index m itr) (\<lambda>(m, itr).
       if (case itr of None \<Rightarrow> True | Some k \<Rightarrow> c_compare CmpNe kt k U64 (uint input_index)) then
         let k = conv kt (uint input_index); m = Map_EmplaceAt k dflt m in
         ebind (deser (the (map_of m k)) r) (\<lambda>(v, r).
           map_deser_elems kt key_bits dflt deser num_elements (map_assign k v m) itr r)
       else
         case itr of None \<Rightarrow> Inl Undefined
         | Some k \<Rightarrow>
             (case map_of m k of None \<Rightarrow> Inl Undefined
              | Some old \<Rightarrow>
                  ebind (deser old r) (\<lambda>(v, r).
                    map_deser_elems kt key_bits dflt deser num_elements (map_assign k v m)
                      (map_next m k) r))))"

definition NetDeserializer_Map ::
    "ctype \<Rightarrow> nat \<Rightarrow> 'v \<Rightarrow> 'v deserializer \<Rightarrow> 'v net_map deserializer" where
  "NetDeserializer_Map kt max_size dflt deser val r =
     ebind (ReadUBits (int (size_bits max_size)) r) (\<lambda>(num_elements, r).
     ebind (map_deser_elems kt (size_bits max_size) dflt deser (unat num_elements) val (map_begin val) r)
       (\<lambda>((m, itr), r). ebind (erase_rest m itr) (\<lambda>m. Inr (m, r))))"

declare erase_dead.simps [simp del] erase_rest.simps [simp del] Map_eq.simps [simp del]

section \<open>Difference\<close>

text \<open>\<open>below limit k\<close>: the other iterator is at its end or stands on a larger key.\<close>

definition below :: "int option \<Rightarrow> int \<Rightarrow> bool" where
  "below limit k \<longleftrightarrow> (case limit of None \<Rightarrow> True | Some l \<Rightarrow> k < l)"

text \<open>
  The three inner loops of the merge. Each returns the remaining elements of the lists it advances,
  the count of entries written and the writer.
\<close>

fun delta_removed ::
    "bool \<Rightarrow> nat \<Rightarrow> int option \<Rightarrow> 'v net_map \<Rightarrow> nat \<Rightarrow> NetBitWriterVector
       \<Rightarrow> ('v net_map \<times> nat \<times> NetBitWriterVector) result" where
  "delta_removed dbg b limit ((k', v') # src) num_wrote w =
     (if below limit k' then
        ebind (WriteBits dbg (word_of_int k') (int b) w) (\<lambda>w.
        ebind (WriteBits dbg 0 1 w) (\<lambda>w. delta_removed dbg b limit src (Suc num_wrote) w))
      else Inr ((k', v') # src, num_wrote, w))"
| "delta_removed dbg b limit [] num_wrote w = Inr ([], num_wrote, w)"

fun delta_common ::
    "bool \<Rightarrow> nat \<Rightarrow> 'v delta_serializer \<Rightarrow> 'v net_map \<Rightarrow> 'v net_map \<Rightarrow> nat \<Rightarrow> NetBitWriterVector
       \<Rightarrow> ('v net_map \<times> 'v net_map \<times> nat \<times> NetBitWriterVector) result" where
  "delta_common dbg b dser ((k, v) # to) ((k', v') # src) num_wrote w =
     (if k' = k then
        ebind (Reserve dbg (int b + 1) w) (\<lambda>(index_cursor, w).
        ebind (dser v v' w) (\<lambda>(changed, w).
          if changed then
            ebind (CursorWriteBits dbg (word_of_int k) (int b) index_cursor w) (\<lambda>(index_cursor, w).
            ebind (CursorWriteBits dbg 1 1 index_cursor w) (\<lambda>(_, w).
              delta_common dbg b dser to src (Suc num_wrote) w))
          else
            ebind (RollBack index_cursor w) (delta_common dbg b dser to src num_wrote)))
      else Inr ((k, v) # to, (k', v') # src, num_wrote, w))"
| "delta_common dbg b dser to src num_wrote w = Inr (to, src, num_wrote, w)"

fun delta_added ::
    "bool \<Rightarrow> nat \<Rightarrow> 'v serializer \<Rightarrow> int option \<Rightarrow> 'v net_map \<Rightarrow> nat \<Rightarrow> NetBitWriterVector
       \<Rightarrow> ('v net_map \<times> nat \<times> NetBitWriterVector) result" where
  "delta_added dbg b ser limit ((k, v) # to) num_wrote w =
     (if below limit k then
        ebind (WriteBits dbg (word_of_int k) (int b) w) (\<lambda>w.
        ebind (ser v w) (\<lambda>w. delta_added dbg b ser limit to (Suc num_wrote) w))
      else Inr ((k, v) # to, num_wrote, w))"
| "delta_added dbg b ser limit [] num_wrote w = Inr ([], num_wrote, w)"

lemma delta_removed_rest:
  "delta_removed dbg b limit src n w = Inr (src', n', w') \<Longrightarrow>
    src' = dropWhile (\<lambda>kv. below limit (fst kv)) src"
  by (induction dbg b limit src n w rule: delta_removed.induct) (auto simp: ebind_eq_Inr split: if_splits)

lemma delta_added_rest:
  "delta_added dbg b ser limit to n w = Inr (to', n', w') \<Longrightarrow>
    to' = dropWhile (\<lambda>kv. below limit (fst kv)) to"
  by (induction dbg b ser limit to n w rule: delta_added.induct) (auto simp: ebind_eq_Inr split: if_splits)

fun drop_common :: "'v net_map \<Rightarrow> 'v net_map \<Rightarrow> 'v net_map \<times> 'v net_map" where
  "drop_common ((k, v) # to) ((k', v') # src) =
     (if k' = k then drop_common to src else ((k, v) # to, (k', v') # src))"
| "drop_common to src = (to, src)"

lemma delta_common_rest:
  "delta_common dbg b dser to src n w = Inr (to', src', n', w') \<Longrightarrow> (to', src') = drop_common to src"
  by (induction dbg b dser to src n w rule: delta_common.induct) (auto simp: ebind_eq_Inr split: if_splits)

lemma drop_common_length:
  "length (fst (drop_common to src)) \<le> length to"
  "to \<noteq> [] \<Longrightarrow> src \<noteq> [] \<Longrightarrow> fst (hd src) = fst (hd to) \<Longrightarrow> length (fst (drop_common to src)) < length to"
  by (induction to src rule: drop_common.induct) (auto simp: less_Suc_eq_le)

lemma map_delta_merge_progress:
  assumes "to \<noteq> []" "delta_removed dbg b (map_begin to) src n w = Inr (src1, n1, w1)"
    and "delta_common dbg b dser to src1 n1 w1 = Inr (to2, src2, n2, w2)"
    and "delta_added dbg b ser (map_begin src2) to2 n2 w2 = Inr (to3, n3, w3)"
  shows "length to3 < length to"
proof -
  obtain k v to' where to: "to = (k, v) # to'" using assms(1) by (cases to) auto
  have src1: "src1 = dropWhile (\<lambda>kv. fst kv < k) src"
    using delta_removed_rest [OF assms(2)] to by (simp add: map_begin_def below_def)
  note common = delta_common_rest [OF assms(3)]
  have to3: "to3 = dropWhile (\<lambda>kv. below (map_begin src2) (fst kv)) to2"
    using delta_added_rest [OF assms(4)] .
  have le: "length to3 \<le> length to2" unfolding to3 by (simp add: length_dropWhile_le)
  have le2: "length to2 \<le> length to" using drop_common_length(1) [of to src1] common by (metis fst_conv)
  show ?thesis
  proof (cases src1)
    case Nil
    then have "to2 = to" "src2 = []" using common to by auto
    then show ?thesis using to3 to by (simp add: map_begin_def below_def less_Suc_eq_le length_dropWhile_le)
  next
    case (Cons kv src')
    then have "\<not> fst kv < k" using src1 by (metis hd_dropWhile list.discI list.sel(1))
    then consider "fst kv = k" | "k < fst kv" by linarith
    then show ?thesis
    proof cases
      case 1
      then have "length to2 < length to"
        using drop_common_length(2) [of to src1] common to Cons by (metis fst_conv list.discI list.sel(1))
      with le show ?thesis by simp
    next
      case 2
      obtain k' v' where kv: "kv = (k', v')" by (cases kv)
      have "to2 = to" "src2 = src1" using common to Cons 2 kv by auto
      then show ?thesis
        using to3 to 2 Cons by (simp add: map_begin_def below_def less_Suc_eq_le length_dropWhile_le)
    qed
  qed
qed

text \<open>The outer loop.\<close>

function map_delta_merge ::
    "bool \<Rightarrow> nat \<Rightarrow> 'v serializer \<Rightarrow> 'v delta_serializer \<Rightarrow> 'v net_map \<Rightarrow> 'v net_map \<Rightarrow> nat
       \<Rightarrow> NetBitWriterVector \<Rightarrow> (nat \<times> NetBitWriterVector) result" where
  "map_delta_merge dbg b ser dser to src num_wrote w =
     (if to = [] then
        ebind (delta_removed dbg b None src num_wrote w) (\<lambda>(src, num_wrote, w). Inr (num_wrote, w))
      else
        ebind (delta_removed dbg b (map_begin to) src num_wrote w) (\<lambda>(src, num_wrote, w).
        ebind (delta_common dbg b dser to src num_wrote w) (\<lambda>(to, src, num_wrote, w).
        ebind (delta_added dbg b ser (map_begin src) to num_wrote w) (\<lambda>(to, num_wrote, w).
          map_delta_merge dbg b ser dser to src num_wrote w))))"
  by pat_completeness auto

termination
  by (relation "measure (\<lambda>(dbg, b, ser, dser, to, src, n, w). length to)")
    (auto intro: map_delta_merge_progress)

definition NetSerializerDelta_Map ::
    "bool \<Rightarrow> nat \<Rightarrow> 'v serializer \<Rightarrow> 'v delta_serializer \<Rightarrow> 'v net_map delta_serializer" where
  "NetSerializerDelta_Map dbg max_size ser dser to src w =
     (let required_bits = size_bits max_size in
      ebind (Reserve dbg (int required_bits) w) (\<lambda>(size_cursor, w).
      ebind (map_delta_merge dbg required_bits ser dser to src 0 w) (\<lambda>(num_wrote, w).
        if num_wrote = 0 then ebind (RollBack size_cursor w) (\<lambda>w. Inr (False, w))
        else
          ebind (CursorWriteBits dbg (of_nat num_wrote) (int required_bits) size_cursor w)
            (\<lambda>(_, w). Inr (True, w)))))"

fun map_delta_deser_elems ::
    "ctype \<Rightarrow> nat \<Rightarrow> 'v \<Rightarrow> 'v deserializer \<Rightarrow> 'v deserializer \<Rightarrow> nat \<Rightarrow> 'v net_map deserializer" where
  "map_delta_deser_elems kt b dflt deser dder 0 m r = Inr (m, r)"
| "map_delta_deser_elems kt b dflt deser dder (Suc n) m r =
     ebind (ReadUBits (int b) r) (\<lambda>(elem_index, r).
     let k = conv kt (uint elem_index) in
     case Map_Get k m of
       Some elem_val \<Rightarrow>
         ebind (ReadUBits 1 r) (\<lambda>(existing_elem, r).
           if existing_elem \<noteq> 0 then
             ebind (dder elem_val r) (\<lambda>(v, r).
               map_delta_deser_elems kt b dflt deser dder n (map_assign k v m) r)
           else map_delta_deser_elems kt b dflt deser dder n (Map_Remove k m) r)
     | None \<Rightarrow>
         let m = Map_EmplaceAt k dflt m in
         ebind (deser (the (map_of m k)) r) (\<lambda>(v, r).
           map_delta_deser_elems kt b dflt deser dder n (map_assign k v m) r))"

definition NetDeserializerDelta_Map ::
    "ctype \<Rightarrow> nat \<Rightarrow> 'v \<Rightarrow> 'v deserializer \<Rightarrow> 'v deserializer \<Rightarrow> 'v net_map deserializer" where
  "NetDeserializerDelta_Map kt max_size dflt deser dder val r =
     ebind (ReadUBits (int (size_bits max_size)) r) (\<lambda>(size, r).
       map_delta_deser_elems kt (size_bits max_size) dflt deser dder (unat size) val r)"

declare map_delta_merge.simps [simp del]

section \<open>The map as a dictionary\<close>

definition ksorted :: "'v net_map \<Rightarrow> bool" where
  "ksorted m \<longleftrightarrow> sorted_wrt (<) (map fst m)"

definition keys_below :: "'v net_map \<Rightarrow> int \<Rightarrow> bool" where
  "keys_below m k \<longleftrightarrow> (\<forall>kv\<in>set m. fst kv < k)"

definition keys_above :: "int \<Rightarrow> 'v net_map \<Rightarrow> bool" where
  "keys_above k m \<longleftrightarrow> (\<forall>kv\<in>set m. k < fst kv)"

lemma ksorted_simps [simp]:
  "ksorted []" "ksorted ((k, v) # m) \<longleftrightarrow> keys_above k m \<and> ksorted m"
  by (auto simp: ksorted_def keys_above_def)

lemma keys_simps [simp]:
  "keys_below [] k" "keys_below (kv # m) k \<longleftrightarrow> fst kv < k \<and> keys_below m k"
  "keys_below (m @ m') k \<longleftrightarrow> keys_below m k \<and> keys_below m' k"
  "keys_above k []" "keys_above k (kv # m) \<longleftrightarrow> k < fst kv \<and> keys_above k m"
  "keys_above k (m @ m') \<longleftrightarrow> keys_above k m \<and> keys_above k m'"
  by (auto simp: keys_below_def keys_above_def)

lemma ksorted_append:
  "ksorted (m @ m') \<longleftrightarrow> ksorted m \<and> ksorted m' \<and> (\<forall>kv\<in>set m'. keys_below m (fst kv))"
  by (induction m) (auto simp: ksorted_def keys_above_def keys_below_def)

lemma keys_above_trans: "keys_above k m \<Longrightarrow> k' \<le> k \<Longrightarrow> keys_above k' m"
  by (auto simp: keys_above_def)

lemma map_of_above: "keys_above k m \<Longrightarrow> map_of m k = None"
  by (induction m) auto

lemma map_of_above_le: "keys_above k m \<Longrightarrow> k' \<le> k \<Longrightarrow> map_of m k' = None"
  using map_of_above keys_above_trans by blast

lemma map_of_below: "keys_below m k \<Longrightarrow> map_of m k = None"
  by (induction m) auto

text \<open>The operations at a known place.\<close>

lemma map_of_at: "keys_below pre k \<Longrightarrow> map_of (pre @ (k, v) # suf) k = Some v"
  by (induction pre) auto

lemma map_of_gap: "keys_below pre k \<Longrightarrow> keys_above k suf \<Longrightarrow> map_of (pre @ suf) k = None"
  by (induction pre) (auto simp: map_of_above)

lemma map_assign_at: "keys_below pre k \<Longrightarrow> map_assign k v' (pre @ (k, v) # suf) = pre @ (k, v') # suf"
  by (induction pre) auto

lemma map_emplace_gap:
  "keys_below pre k \<Longrightarrow> keys_above k suf \<Longrightarrow> map_emplace k v (pre @ suf) = pre @ (k, v) # suf"
  by (induction pre) (cases suf; auto)+

lemma map_assign_gap:
  "keys_below pre k \<Longrightarrow> keys_above k suf \<Longrightarrow> map_assign k v (pre @ suf) = pre @ (k, v) # suf"
  by (induction pre) (cases suf; auto)+

lemma map_erase_at: "keys_below pre k \<Longrightarrow> map_erase k (pre @ (k, v) # suf) = pre @ suf"
  by (induction pre) auto

lemma map_next_at:
  "keys_below pre k \<Longrightarrow> keys_above k suf \<Longrightarrow> map_next (pre @ (k, v) # suf) k = map_begin suf"
proof -
  assume a: "keys_below pre k" "keys_above k suf"
  have "dropWhile (\<lambda>kv. fst kv \<le> k) (pre @ (k, v) # suf) = dropWhile (\<lambda>kv. fst kv \<le> k) suf"
    using a(1) by (induction pre) auto
  also have "\<dots> = suf" using a(2) by (cases suf) auto
  finally show ?thesis by (simp add: map_next_def)
qed

text \<open>What a client relies on.\<close>

locale dictionary =
  fixes get :: "'k \<Rightarrow> 'm \<Rightarrow> 'v option"
    and put :: "'k \<Rightarrow> 'v \<Rightarrow> 'm \<Rightarrow> 'm"
    and try_put :: "'k \<Rightarrow> 'v \<Rightarrow> 'm \<Rightarrow> 'm"
    and del :: "'k \<Rightarrow> 'm \<Rightarrow> 'm"
    and ok :: "'m \<Rightarrow> bool"
  assumes ok_put: "ok m \<Longrightarrow> ok (put k v m)"
    and ok_try_put: "ok m \<Longrightarrow> ok (try_put k v m)"
    and ok_del: "ok m \<Longrightarrow> ok (del k m)"
    and get_put: "ok m \<Longrightarrow> get k' (put k v m) = (if k' = k then Some v else get k' m)"
    and get_try_put: "ok m \<Longrightarrow> get k' (try_put k v m)
      = (if k' = k \<and> get k m = None then Some v else get k' m)"
    and get_del: "ok m \<Longrightarrow> get k' (del k m) = (if k' = k then None else get k' m)"
begin

text \<open>Updating a slot in two steps, as the deserializers do.\<close>

lemma try_put_put: "ok m \<Longrightarrow> get k' (put k v (try_put k d m)) = get k' (put k v m)"
  by (simp add: get_put get_try_put ok_try_put)

lemma put_del: "ok m \<Longrightarrow> get k' (del k (put k v m)) = get k' (del k m)"
  by (simp add: get_put get_del ok_put)

end

lemma keys_above_assign: "keys_above k (map_assign k' v m) \<longleftrightarrow> k < k' \<and> keys_above k m"
  by (induction k' v m rule: map_assign.induct) auto

lemma keys_above_emplace: "keys_above k (map_emplace k' v m) \<longleftrightarrow> k < k' \<and> keys_above k m"
  by (induction k' v m rule: map_emplace.induct) auto

lemma keys_above_erase: "keys_above k m \<Longrightarrow> keys_above k (map_erase k' m)"
  by (induction k' m rule: map_erase.induct) auto

lemma map_of_assign: "map_of (map_assign k v m) k' = (if k' = k then Some v else map_of m k')"
  by (induction k v m rule: map_assign.induct) auto

lemma map_of_emplace:
  "ksorted m \<Longrightarrow> map_of (map_emplace k v m) k' = (if k' = k \<and> map_of m k = None then Some v else map_of m k')"
  by (induction k v m rule: map_emplace.induct) (auto simp: map_of_above_le)

lemma map_of_erase: "ksorted m \<Longrightarrow> map_of (map_erase k m) k' = (if k' = k then None else map_of m k')"
  by (induction k m rule: map_erase.induct) (auto simp: map_of_above)

interpretation net_map: dictionary Map_Get map_assign Map_EmplaceAt Map_Remove ksorted
proof
  fix m :: "'v net_map" and k :: int and v
  show "ksorted m \<Longrightarrow> ksorted (map_assign k v m)"
    by (induction k v m rule: map_assign.induct)
      (auto simp: keys_above_assign intro: keys_above_trans)
  show "ksorted m \<Longrightarrow> ksorted (Map_EmplaceAt k v m)"
    unfolding Map_EmplaceAt_def
    by (induction k v m rule: map_emplace.induct)
      (auto simp: keys_above_emplace intro: keys_above_trans)
  show "ksorted m \<Longrightarrow> ksorted (Map_Remove k m)"
    unfolding Map_Remove_def
    by (induction k m rule: map_erase.induct) (auto simp: keys_above_erase)
qed (auto simp: Map_Get_def Map_EmplaceAt_def Map_Remove_def map_of_assign map_of_emplace map_of_erase)

section \<open>Full values\<close>

text \<open>
  What can be sent: at most \<^verbatim>\<open>MaxSize\<close> elements whose keys fit the key field; what can be
  received into: any map with non-negative keys of the key type.
\<close>

definition key_ok :: "ctype \<Rightarrow> int \<Rightarrow> bool" where
  "key_ok kt k \<longleftrightarrow> 0 \<le> k \<and> in_ctype kt k"

definition map_obj :: "ctype \<Rightarrow> ('v \<Rightarrow> bool) \<Rightarrow> 'v net_map \<Rightarrow> bool" where
  "map_obj kt obj m \<longleftrightarrow> ksorted m \<and> (\<forall>kv\<in>set m. key_ok kt (fst kv) \<and> obj (snd kv))"

definition elems_ok :: "ctype \<Rightarrow> nat \<Rightarrow> ('v \<Rightarrow> bool) \<Rightarrow> 'v net_map \<Rightarrow> bool" where
  "elems_ok kt b okv m \<longleftrightarrow> ksorted m \<and> (\<forall>kv\<in>set m. key_ok kt (fst kv) \<and> fst kv < 2 ^ b \<and> okv (snd kv))"

definition map_ok :: "ctype \<Rightarrow> nat \<Rightarrow> ('v \<Rightarrow> bool) \<Rightarrow> 'v net_map \<Rightarrow> bool" where
  "map_ok kt max_size okv m \<longleftrightarrow> length m \<le> max_size \<and> elems_ok kt (size_bits max_size) okv m"

fun map_enc :: "nat \<Rightarrow> ('v \<Rightarrow> bool list) \<Rightarrow> 'v net_map \<Rightarrow> bool list" where
  "map_enc b enc [] = []"
| "map_enc b enc ((k, v) # m) = nat_bits b (nat k) @ enc v @ map_enc b enc m"

lemma elems_ok_Cons:
  "elems_ok kt b okv ((k, v) # m) \<longleftrightarrow>
    keys_above k m \<and> key_ok kt k \<and> k < 2 ^ b \<and> okv v \<and> elems_ok kt b okv m"
  by (auto simp: elems_ok_def)

lemma WriteBits_key:
  assumes "winv w" "0 \<le> k" "k < 2 ^ b" "b \<le> 64"
  shows "\<exists>w'. WriteBits dbg (word_of_int k) (int b) w = Inr w' \<and> wrote w w' (nat_bits b (nat k))"
proof -
  have "nat k < 2 ^ b" using assms(2,3) by (simp add: nat_less_iff)
  then show ?thesis using WriteBits_nat [OF assms(1) _ assms(4), of "nat k" dbg] assms(2)
    by (simp add: of_nat_nat)
qed

lemma ReadUBits_key:
  assumes "rinv r" "rbits r = nat_bits b (nat k) @ rest" "0 \<le> k" "k < 2 ^ b" "b < 64"
  shows "\<exists>x r'. ReadUBits (int b) r = Inr (x, r') \<and> uint x = k
    \<and> consumed r r' (nat_bits b (nat k)) \<and> rbits r' = rest"
proof -
  have l: "nat k < 2 ^ b" using assms(3,4) by (simp add: nat_less_iff)
  have "uint (of_nat (nat k) :: u64) = k"
    using unat_of_nat_bound [OF l] assms(3,5) by (simp add: uint_nat)
  then show ?thesis using ReadUBits_nat [OF assms(1,2) l assms(5)] by blast
qed

lemma compare_key:
  assumes "0 \<le> k" "in_ctype kt k"
  shows "c_compare CmpLt kt k U64 (uint (x :: u64)) \<longleftrightarrow> k < uint x"
    and "c_compare CmpNe kt k U64 (uint x) \<longleftrightarrow> k \<noteq> uint x"
proof -
  have t: "arith_type kt U64 = U64" by (simp add: arith_type_def)
  have "in_ctype U64 k"
    using assms by (cases kt) (auto simp: in_ctype_def ctype_min_def ctype_max_def)
  moreover have "in_ctype U64 (uint x)"
    using uint_bounded [of x] by (simp add: in_ctype_def ctype_min_def ctype_max_def)
  ultimately show "c_compare CmpLt kt k U64 (uint x) \<longleftrightarrow> k < uint x"
      "c_compare CmpNe kt k U64 (uint x) \<longleftrightarrow> k \<noteq> uint x"
    by (simp_all add: c_compare_def t conv_id)
qed

text \<open>The two cleaning loops, on a map split at the iterator.\<close>

lemma map_begin_simps [simp]: "map_begin [] = None" "map_begin (kv # m) = Some (fst kv)"
  by (simp_all add: map_begin_def)

lemma erase_dead_spec:
  "ksorted (pre @ suf) \<Longrightarrow> (\<forall>kv\<in>set suf. key_ok kt (fst kv)) \<Longrightarrow>
    erase_dead kt x (pre @ suf) (map_begin suf)
      = Inr (pre @ dropWhile (\<lambda>kv. fst kv < uint x) suf,
             map_begin (dropWhile (\<lambda>kv. fst kv < uint x) suf))"
proof (induction suf)
  case (Cons kv suf)
  obtain k v where kv: "kv = (k, v)" by (cases kv)
  have s: "keys_below pre k" "keys_above k suf" "ksorted (pre @ suf)"
    using Cons.prems(1) kv by (auto simp: ksorted_append)
  have cmp: "c_compare CmpLt kt k U64 (uint x) \<longleftrightarrow> k < uint x"
    using compare_key(1) [of k kt x] Cons.prems(2) kv by (simp add: key_ok_def)
  show ?case
    using Cons.IH [OF s(3)] Cons.prems(2) kv cmp s
    by (subst erase_dead.simps) (simp add: map_of_at map_erase_at map_next_at)
qed (simp add: erase_dead.simps)

lemma erase_rest_spec:
  "ksorted (pre @ suf) \<Longrightarrow> erase_rest (pre @ suf) (map_begin suf) = Inr pre"
proof (induction suf)
  case (Cons kv suf)
  obtain k v where kv: "kv = (k, v)" by (cases kv)
  have s: "keys_below pre k" "keys_above k suf" "ksorted (pre @ suf)"
    using Cons.prems(1) kv by (auto simp: ksorted_append)
  show ?case
    using Cons.IH [OF s(3)] kv s
    by (subst erase_rest.simps) (simp add: map_of_at map_erase_at map_next_at)
qed (simp add: erase_rest.simps)

context value_codec
begin

lemma map_ser_elems:
  "winv w \<Longrightarrow> elems_ok kt b wf m \<Longrightarrow> b < 64 \<Longrightarrow>
    \<exists>w'. map_ser_elems dbg b ser m w = Inr w' \<and> wrote w w' (map_enc b enc m)"
proof (induction m arbitrary: w)
  case (Cons kv m)
  obtain k v where kv: "kv = (k, v)" by (cases kv)
  have ok: "0 \<le> k" "k < 2 ^ b" "wf v" "elems_ok kt b wf m"
    using Cons.prems(2) kv by (auto simp: elems_ok_Cons key_ok_def)
  obtain w1 where w1: "WriteBits dbg (word_of_int k) (int b) w = Inr w1" "wrote w w1 (nat_bits b (nat k))"
    using WriteBits_key [OF Cons.prems(1) ok(1,2)] Cons.prems(3) by fastforce
  obtain w2 where w2: "ser v w1 = Inr w2" "wrote w1 w2 (enc v)"
    using ser_enc [OF wrote_winv [OF w1(2)] ok(3)] by blast
  obtain w3 where w3: "map_ser_elems dbg b ser m w2 = Inr w3" "wrote w2 w3 (map_enc b enc m)"
    using Cons.IH [OF wrote_winv [OF w2(2)] ok(4) Cons.prems(3)] by blast
  show ?case
    using w1 w2 w3 kv wrote_trans [OF w1(2) wrote_trans [OF w2(2) w3(2)]] by simp
qed simp

lemma map_deser_elems:
  assumes "b < 64" "obj d"
  shows "rinv r \<Longrightarrow> elems_ok kt b wf es \<Longrightarrow> ksorted (pre @ suf) \<Longrightarrow>
    (\<forall>kv\<in>set suf. key_ok kt (fst kv) \<and> obj (snd kv)) \<Longrightarrow> (\<forall>kv\<in>set es. keys_below pre (fst kv)) \<Longrightarrow>
    rbits r = map_enc b enc es @ rest \<Longrightarrow>
    \<exists>suf' r'. map_deser_elems kt b d deser (length es) (pre @ suf) (map_begin suf) r
        = Inr ((pre @ es @ suf', map_begin suf'), r')
      \<and> ksorted (pre @ es @ suf') \<and> consumed r r' (map_enc b enc es)"
proof (induction es arbitrary: pre suf r)
  case Nil
  then show ?case by (intro exI [of _ suf]) simp
next
  case (Cons e es)
  obtain k v where e: "e = (k, v)" by (cases e)
  have ok: "keys_above k es" "0 \<le> k" "in_ctype kt k" "k < 2 ^ b" "wf v" "elems_ok kt b wf es"
    using Cons.prems(2) e by (auto simp: elems_ok_Cons key_ok_def)
  let ?tail = "map_enc b enc es @ rest"
  obtain x r1 where r1: "ReadUBits (int b) r = Inr (x, r1)" "uint x = k"
      "consumed r r1 (nat_bits b (nat k))" "rbits r1 = enc v @ ?tail"
    using ReadUBits_key [OF Cons.prems(1) _ ok(2,4) assms(1), of "enc v @ ?tail"] Cons.prems(6) e by auto
  let ?suf = "dropWhile (\<lambda>kv. fst kv < k) suf"
  have dead: "erase_dead kt x (pre @ suf) (map_begin suf) = Inr (pre @ ?suf, map_begin ?suf)"
    using erase_dead_spec [OF Cons.prems(3), of kt x] Cons.prems(4) r1(2) by simp
  have pk: "keys_below pre k" using Cons.prems(5) e by simp
  have sub: "set ?suf \<subseteq> set suf" using set_dropWhileD by fastforce
  have sorted: "ksorted (pre @ ?suf)"
  proof -
    obtain dead where "suf = dead @ ?suf" by (metis takeWhile_dropWhile_id)
    then have "ksorted (pre @ dead @ ?suf)" using Cons.prems(3) by simp
    then show ?thesis by (auto simp: ksorted_append)
  qed
  have objs: "\<forall>kv\<in>set ?suf. key_ok kt (fst kv) \<and> obj (snd kv)" using Cons.prems(4) sub by blast
  have ck: "conv kt (uint x) = k" using ok(3) r1(2) by (simp add: conv_id)
  \<comment> \<open>Either way the value is stored at \<open>k\<close>, right behind \<open>pre\<close>, and the iterator is at \<open>next\<close>.\<close>
  have cont: ?case
    if old: "obj v0" and nx: "ksorted ((pre @ [(k, v)]) @ nx)" "set nx \<subseteq> set ?suf"
      and eq: "\<And>r2. deser v0 r1 = Inr (v, r2) \<Longrightarrow>
        map_deser_elems kt b d deser (length (e # es)) (pre @ suf) (map_begin suf) r
          = map_deser_elems kt b d deser (length es) (pre @ (k, v) # nx) (map_begin nx) r2"
    for v0 nx
  proof -
    obtain r2 where r2: "deser v0 r1 = Inr (v, r2)" "consumed r1 r2 (enc v)" "rbits r2 = ?tail"
      using deser_rest [OF consumed_rinv [OF r1(3)] ok(5) old r1(4)] by blast
    have below: "\<forall>kv\<in>set es. keys_below (pre @ [(k, v)]) (fst kv)"
      using Cons.prems(5) ok(1) by (auto simp: keys_above_def)
    obtain suf' r3 where r3: "map_deser_elems kt b d deser (length es) ((pre @ [(k, v)]) @ nx) (map_begin nx) r2
        = Inr (((pre @ [(k, v)]) @ es @ suf', map_begin suf'), r3)"
        "ksorted ((pre @ [(k, v)]) @ es @ suf')" "consumed r2 r3 (map_enc b enc es)"
      using Cons.IH [OF consumed_rinv [OF r2(2)] ok(6) nx(1) _ below r2(3)] objs nx(2) by blast
    have "consumed r r3 (map_enc b enc (e # es))"
      using consumed_trans [OF r1(3) consumed_trans [OF r2(2) r3(3)]] e by simp
    then show ?thesis using eq [OF r2(1)] r3 e by auto
  qed
  show ?case
  proof (cases "map_begin ?suf = Some k")
    case True
    then obtain v0 nx where nx: "?suf = (k, v0) # nx" by (cases ?suf) auto
    have s: "keys_above k nx" using sorted nx by (simp add: ksorted_append)
    have eq: "map_deser_elems kt b d deser (length (e # es)) (pre @ suf) (map_begin suf) r
        = map_deser_elems kt b d deser (length es) (pre @ (k, v) # nx) (map_begin nx) r2"
      if "deser v0 r1 = Inr (v, r2)" for r2
      using r1(1,2) dead nx that pk s compare_key(2) [OF ok(2,3), of x]
      by (simp add: map_of_at map_assign_at map_next_at del: map_of_append)
    show ?thesis
      using cont [of v0 nx] eq nx objs sorted s pk by (auto simp: ksorted_append)
  next
    case False
    have s: "keys_above k ?suf"
    proof (cases ?suf)
      case (Cons a nx)
      then have "\<not> fst a < k" by (metis hd_dropWhile list.discI list.sel(1))
      then have "k < fst a" using False Cons by simp
      then show ?thesis using sorted Cons by (cases a) (auto simp: ksorted_append intro: keys_above_trans)
    qed (metis keys_simps(4))
    have ne: "(case map_begin ?suf of None \<Rightarrow> True | Some k' \<Rightarrow> c_compare CmpNe kt k' U64 (uint x))"
    proof (cases ?suf)
      case (Cons a nx)
      then show ?thesis
        using compare_key(2) [of "fst a" kt x] objs r1(2) False by (simp add: key_ok_def)
    qed (metis map_begin_simps(1) option.simps(4))
    have eq: "map_deser_elems kt b d deser (length (e # es)) (pre @ suf) (map_begin suf) r
        = map_deser_elems kt b d deser (length es) (pre @ (k, v) # ?suf) (map_begin ?suf) r2"
      if "deser d r1 = Inr (v, r2)" for r2
      using r1(1,2) dead that pk s ne ck
      by (simp add: Map_EmplaceAt_def Let_def map_emplace_gap map_of_at map_assign_at del: map_of_append)
    show ?thesis
      using cont [of d ?suf] eq assms(2) sorted s pk by (auto simp: ksorted_append keys_above_def)
  qed
qed

lemma Map_codec:
  assumes "max_size < 2 ^ 63" "obj d"
  shows "value_codec (NetSerializer_Map dbg max_size ser) (NetDeserializer_Map kt max_size d deser)
    (map_ok kt max_size wf) (map_obj kt obj)
    (\<lambda>m. nat_bits (size_bits max_size) (length m) @ map_enc (size_bits max_size) enc m)"
proof
  let ?b = "size_bits max_size"
  note b = size_bits [OF assms(1)]
  show "map_ok kt max_size wf m \<Longrightarrow> map_obj kt obj m" for m
    using wf_obj by (auto simp: map_ok_def elems_ok_def map_obj_def)
  show "\<exists>w'. NetSerializer_Map dbg max_size ser m w = Inr w'
      \<and> wrote w w' (nat_bits ?b (length m) @ map_enc ?b enc m)"
    if m: "winv w" "map_ok kt max_size wf m" for w m
  proof -
    obtain w1 where w1: "WriteBits dbg (of_nat (length m)) (int ?b) w = Inr w1"
        "wrote w w1 (nat_bits ?b (length m))"
      using WriteBits_nat [OF m(1) b(3), of "length m" dbg] m(2) b(1) by (auto simp: map_ok_def)
    obtain w2 where "map_ser_elems dbg ?b ser m w1 = Inr w2" "wrote w1 w2 (map_enc ?b enc m)"
      using map_ser_elems [OF wrote_winv [OF w1(2)], of kt ?b m dbg] m(2) b(1) by (auto simp: map_ok_def)
    then show ?thesis
      using w1 wrote_trans by (auto simp: NetSerializer_Map_def Map_Size_def)
  qed
  show "\<exists>r'. NetDeserializer_Map kt max_size d deser m0 r = Inr (m, r')
      \<and> consumed r r' (nat_bits ?b (length m) @ map_enc ?b enc m)"
    if m: "rinv r" "map_ok kt max_size wf m" "map_obj kt obj m0"
      "rbits r = (nat_bits ?b (length m) @ map_enc ?b enc m) @ rest" for r m m0 rest
  proof -
    have l: "length m < 2 ^ ?b" using m(2) b(3) by (simp add: map_ok_def)
    obtain r1 where r1: "ReadUBits (int ?b) r = Inr (of_nat (length m), r1)"
        "consumed r r1 (nat_bits ?b (length m))" "rbits r1 = map_enc ?b enc m @ rest"
      using ReadUBits_nat [OF m(1) _ l b(1), of "map_enc ?b enc m @ rest"] m(4) by auto
    have u: "unat (of_nat (length m) :: u64) = length m" using unat_of_nat_bound [OF l] b(1) by simp
    obtain suf' r2 where r2: "map_deser_elems kt ?b d deser (length m) ([] @ m0) (map_begin m0) r1
        = Inr (([] @ m @ suf', map_begin suf'), r2)" "ksorted ([] @ m @ suf')"
        "consumed r1 r2 (map_enc ?b enc m)"
      using map_deser_elems [OF b(1) assms(2) consumed_rinv [OF r1(2)], of kt m "[]" m0 rest] m(2,3) r1(3)
      by (auto simp: map_ok_def map_obj_def)
    have "erase_rest (m @ suf') (map_begin suf') = Inr m" using erase_rest_spec r2(2) by simp
    then show ?thesis
      using r1 r2 u consumed_trans by (fastforce simp: NetDeserializer_Map_def)
  qed
qed

end

section \<open>Differences\<close>

fun merge_count :: "'v net_map \<Rightarrow> 'v net_map \<Rightarrow> nat" where
  "merge_count [] [] = 0"
| "merge_count [] (kv' # src) = Suc (merge_count [] src)"
| "merge_count (kv # to) [] = Suc (merge_count to [])"
| "merge_count ((k, v) # to) ((k', v') # src) =
     (if k' < k then Suc (merge_count ((k, v) # to) src)
      else if k' = k then (if v = v' then 0 else 1) + merge_count to src
      else Suc (merge_count to ((k', v') # src)))"

fun merge_enc ::
    "nat \<Rightarrow> ('v \<Rightarrow> bool list) \<Rightarrow> ('v \<Rightarrow> 'v \<Rightarrow> bool list) \<Rightarrow> 'v net_map \<Rightarrow> 'v net_map \<Rightarrow> bool list" where
  "merge_enc b enc denc [] [] = []"
| "merge_enc b enc denc [] ((k', v') # src) =
     nat_bits b (nat k') @ False # merge_enc b enc denc [] src"
| "merge_enc b enc denc ((k, v) # to) [] = nat_bits b (nat k) @ enc v @ merge_enc b enc denc to []"
| "merge_enc b enc denc ((k, v) # to) ((k', v') # src) =
     (if k' < k then nat_bits b (nat k') @ False # merge_enc b enc denc ((k, v) # to) src
      else if k' = k then
        (if v = v' then [] else nat_bits b (nat k) @ True # denc v v') @ merge_enc b enc denc to src
      else nat_bits b (nat k) @ enc v @ merge_enc b enc denc to ((k', v') # src))"

lemma merge_count_0: "merge_count to src = 0 \<longleftrightarrow> to = src"
  by (induction to src rule: merge_count.induct) auto

lemma merge_enc_same: "to = src \<Longrightarrow> merge_enc b enc denc to src = []"
  by (induction b enc denc to src rule: merge_enc.induct) auto

text \<open>The three inner loops of the serializer, each a stretch of the merge.\<close>

lemma delta_removed_spec:
  "winv w \<Longrightarrow> elems_ok kt b okv src \<Longrightarrow> b < 64 \<Longrightarrow>
    \<exists>src1 n1 w1 e. delta_removed dbg b (map_begin to) src n w = Inr (src1, n1, w1) \<and> wrote w w1 e
      \<and> merge_enc b enc denc to src = e @ merge_enc b enc denc to src1
      \<and> n + merge_count to src = n1 + merge_count to src1 \<and> elems_ok kt b okv src1
      \<and> (to = [] \<longrightarrow> src1 = [])"
proof (induction src arbitrary: w n)
  case (Cons kv' src)
  obtain k' v' where kv': "kv' = (k', v')" by (cases kv')
  have ok: "0 \<le> k'" "k' < 2 ^ b" "elems_ok kt b okv src"
    using Cons.prems(2) kv' by (auto simp: elems_ok_Cons key_ok_def)
  show ?case
  proof (cases "below (map_begin to) k'")
    case False
    then show ?thesis
      using Cons.prems kv' by (intro exI [of _ "kv' # src"] exI [of _ n] exI [of _ w] exI [of _ "[]"])
        (auto simp: below_def)
  next
    case True
    obtain w1 where w1: "WriteBits dbg (word_of_int k') (int b) w = Inr w1" "wrote w w1 (nat_bits b (nat k'))"
      using WriteBits_key [OF Cons.prems(1) ok(1,2)] Cons.prems(3) by fastforce
    obtain w2 where w2: "WriteBits dbg 0 1 w1 = Inr w2" "wrote w1 w2 [False]"
      using WriteBits_flag_0 [OF wrote_winv [OF w1(2)]] by blast
    obtain src1 n1 w3 e where IH: "delta_removed dbg b (map_begin to) src (Suc n) w2 = Inr (src1, n1, w3)"
        "wrote w2 w3 e" "merge_enc b enc denc to src = e @ merge_enc b enc denc to src1"
        "Suc n + merge_count to src = n1 + merge_count to src1" "elems_ok kt b okv src1"
        "to = [] \<longrightarrow> src1 = []"
      using Cons.IH [OF wrote_winv [OF w2(2)] ok(3) Cons.prems(3)] by blast
    have "merge_enc b enc denc to (kv' # src) = (nat_bits b (nat k') @ [False] @ e) @ merge_enc b enc denc to src1"
      "n + merge_count to (kv' # src) = n1 + merge_count to src1"
      using True IH(3,4) kv' by (cases to; auto simp: below_def)+
    then show ?thesis
      using w1 w2 IH True kv' wrote_trans [OF w1(2) wrote_trans [OF w2(2) IH(2)]] by auto
  qed
qed auto

lemma CursorWriteBits_two:
  assumes "winv w0" "reserved c w0" "wrote w0 w (replicate (Suc b) False @ rest)"
    and "int b + 1 \<le> cSize c" "0 \<le> k" "k < 2 ^ b" "b < 64"
  shows "\<exists>c1 w1 c2 w2. CursorWriteBits dbg (word_of_int k) (int b) c w = Inr (c1, w1)
    \<and> CursorWriteBits dbg 1 1 c1 w1 = Inr (c2, w2)
    \<and> wrote w0 w2 (nat_bits b (nat k) @ True # rest)"
proof -
  have k: "word_of_int k = (of_nat (nat k) :: u64)" "nat k < 2 ^ b"
    using assms(5,6) by (simp_all add: of_nat_nat nat_less_iff)
  have e: "replicate (Suc b) False @ rest = replicate b False @ (False # rest)"
    by (simp add: replicate_append_same)
  have w: "wrote w0 w (replicate b False @ False # rest)" using assms(3) unfolding e .
  note c = reserved_cursor [OF assms(1,2)]
  obtain c1 w1 where 1: "CursorWriteBits dbg (of_nat (nat k)) (int b) c w = Inr (c1, w1)"
      "wrote w0 w1 (nat_bits b (nat k) @ False # rest)" "cinv c1" "cpos c1 = cpos c + b"
      "cSize c - int b \<le> cSize c1"
    using cursor_fill [of w0 c "[]" w "replicate b False" "False # rest" "int b" dbg "of_nat (nat k)"]
      c w assms(1,4,7) of_nat_take_bit [OF k(2)]
    by (auto simp: writable_def nat_bits_def)
  obtain c2 w2 where 2: "CursorWriteBits dbg 1 1 c1 w1 = Inr (c2, w2)"
      "wrote w0 w2 (nat_bits b (nat k) @ bits_of 1 1 @ rest)"
    using cursor_fill [of w0 c1 "nat_bits b (nat k)" w1 "[False]" rest 1 dbg 1] 1 assms(1,4) c
    by (auto simp: writable_small)
  have "bits_of 1 1 = [True]" by (simp add: bits_of_def)
  with 1 2 k show ?thesis by auto
qed

context element_codec
begin

lemma delta_common_spec:
  "winv w \<Longrightarrow> elems_ok kt b wf to \<Longrightarrow> elems_ok kt b wf src \<Longrightarrow> b < 64 \<Longrightarrow>
    \<exists>to1 src1 n1 w1 e. delta_common dbg b dser to src n w = Inr (to1, src1, n1, w1) \<and> wrote w w1 e
      \<and> merge_enc b enc denc to src = e @ merge_enc b enc denc to1 src1
      \<and> n + merge_count to src = n1 + merge_count to1 src1
      \<and> elems_ok kt b wf to1 \<and> elems_ok kt b wf src1"
proof (induction to arbitrary: src n w)
  case Nil
  then show ?case by (intro exI [of _ "[]"] exI [of _ src] exI [of _ n] exI [of _ w]) simp
next
  case (Cons kv to)
  obtain k v where kv: "kv = (k, v)" by (cases kv)
  show ?case
  proof (cases "\<exists>v' src'. src = (k, v') # src'")
    case False
    then have "delta_common dbg b dser (kv # to) src n w = Inr (kv # to, src, n, w)"
      using kv by (cases src) auto
    then show ?thesis
      using Cons.prems by (intro exI [of _ "kv # to"] exI [of _ src] exI [of _ n] exI [of _ w]) simp
  next
    case True
    then obtain v' src' where src: "src = (k, v') # src'" by blast
    have ok: "0 \<le> k" "k < 2 ^ b" "wf v" "wf v'" "elems_ok kt b wf to" "elems_ok kt b wf src'"
      using Cons.prems(2,3) kv src by (auto simp: elems_ok_Cons key_ok_def)
    obtain c w1 where w1: "Reserve dbg (int b + 1) w = Inr (c, w1)"
        "wrote w w1 (replicate (Suc b) False)" "reserved c w" "cSize c = int b + 1"
      using Reserve_spec [OF Cons.prems(1), of "int b + 1" dbg] by (auto simp: nat_add_distrib)
    obtain w2 where w2: "dser v v' w1 = Inr (v \<noteq> v', w2)" "wrote w1 w2 (denc v v')"
      using dser_denc [OF wrote_winv [OF w1(2)] ok(3,4)] by blast
    note w02 = wrote_trans [OF w1(2) w2(2)]
    show ?thesis
    proof (cases "v = v'")
      case True
      obtain w3 where w3: "RollBack c w2 = Inr w3" "wrote w w3 []"
        using RollBack_spec [OF Cons.prems(1) wrote_winv [OF w2(2)] w1(3) wrote_wbits [OF w02]] by blast
      obtain to1 src1 n1 w4 e where IH: "delta_common dbg b dser to src' n w3 = Inr (to1, src1, n1, w4)"
          "wrote w3 w4 e" "merge_enc b enc denc to src' = e @ merge_enc b enc denc to1 src1"
          "n + merge_count to src' = n1 + merge_count to1 src1" "elems_ok kt b wf to1" "elems_ok kt b wf src1"
        using Cons.IH [OF wrote_winv [OF w3(2)] ok(5,6) Cons.prems(4)] by blast
      then show ?thesis using True w1(1) w2(1) w3 kv src wrote_trans [OF w3(2) IH(2)] by auto
    next
      case False
      obtain c1 w3 c2 w4 where w4: "CursorWriteBits dbg (word_of_int k) (int b) c w2 = Inr (c1, w3)"
          "CursorWriteBits dbg 1 1 c1 w3 = Inr (c2, w4)" "wrote w w4 (nat_bits b (nat k) @ True # denc v v')"
        using CursorWriteBits_two [OF Cons.prems(1) w1(3) w02 _ ok(1,2) Cons.prems(4)] w1(4) by fastforce
      obtain to1 src1 n1 w5 e where IH: "delta_common dbg b dser to src' (Suc n) w4 = Inr (to1, src1, n1, w5)"
          "wrote w4 w5 e" "merge_enc b enc denc to src' = e @ merge_enc b enc denc to1 src1"
          "Suc n + merge_count to src' = n1 + merge_count to1 src1" "elems_ok kt b wf to1" "elems_ok kt b wf src1"
        using Cons.IH [OF wrote_winv [OF w4(3)] ok(5,6) Cons.prems(4)] by blast
      then show ?thesis using False w1(1) w2(1) w4 kv src wrote_trans [OF w4(3) IH(2)] by auto
    qed
  qed
qed

lemma delta_added_spec:
  "winv w \<Longrightarrow> elems_ok kt b wf to \<Longrightarrow> elems_ok kt b wf src \<Longrightarrow> b < 64 \<Longrightarrow>
    \<exists>to1 n1 w1 e. delta_added dbg b ser (map_begin src) to n w = Inr (to1, n1, w1) \<and> wrote w w1 e
      \<and> merge_enc b enc denc to src = e @ merge_enc b enc denc to1 src
      \<and> n + merge_count to src = n1 + merge_count to1 src \<and> elems_ok kt b wf to1"
proof (induction to arbitrary: n w)
  case Nil
  then show ?case by (intro exI [of _ "[]"] exI [of _ n] exI [of _ w]) simp
next
  case (Cons kv to)
  obtain k v where kv: "kv = (k, v)" by (cases kv)
  have ok: "0 \<le> k" "k < 2 ^ b" "wf v" "elems_ok kt b wf to"
    using Cons.prems(2) kv by (auto simp: elems_ok_Cons key_ok_def)
  show ?case
  proof (cases "below (map_begin src) k")
    case False
    then show ?thesis
      using Cons.prems kv by (intro exI [of _ "kv # to"] exI [of _ n] exI [of _ w] exI [of _ "[]"]) auto
  next
    case True
    obtain w1 where w1: "WriteBits dbg (word_of_int k) (int b) w = Inr w1" "wrote w w1 (nat_bits b (nat k))"
      using WriteBits_key [OF Cons.prems(1) ok(1,2)] Cons.prems(4) by fastforce
    obtain w2 where w2: "ser v w1 = Inr w2" "wrote w1 w2 (enc v)"
      using ser_enc [OF wrote_winv [OF w1(2)] ok(3)] by blast
    obtain to1 n1 w3 e where IH: "delta_added dbg b ser (map_begin src) to (Suc n) w2 = Inr (to1, n1, w3)"
        "wrote w2 w3 e" "merge_enc b enc denc to src = e @ merge_enc b enc denc to1 src"
        "Suc n + merge_count to src = n1 + merge_count to1 src" "elems_ok kt b wf to1"
      using Cons.IH [OF wrote_winv [OF w2(2)] ok(4) Cons.prems(3,4)] by blast
    have "merge_enc b enc denc (kv # to) src = (nat_bits b (nat k) @ enc v @ e) @ merge_enc b enc denc to1 src"
      "n + merge_count (kv # to) src = n1 + merge_count to1 src"
      using True IH(3,4) kv by (cases src; auto simp: below_def)+
    then show ?thesis
      using w1 w2 IH True kv wrote_trans [OF w1(2) wrote_trans [OF w2(2) IH(2)]] by auto
  qed
qed

lemma map_delta_merge_spec:
  "winv w \<Longrightarrow> elems_ok kt b wf to \<Longrightarrow> elems_ok kt b wf src \<Longrightarrow> b < 64 \<Longrightarrow>
    \<exists>w'. map_delta_merge dbg b ser dser to src n w = Inr (n + merge_count to src, w')
      \<and> wrote w w' (merge_enc b enc denc to src)"
proof (induction "length to" arbitrary: to src n w rule: less_induct)
  case less
  obtain src1 n1 w1 e1 where 1: "delta_removed dbg b (map_begin to) src n w = Inr (src1, n1, w1)"
      "wrote w w1 e1" "merge_enc b enc denc to src = e1 @ merge_enc b enc denc to src1"
      "n + merge_count to src = n1 + merge_count to src1" "elems_ok kt b wf src1" "to = [] \<longrightarrow> src1 = []"
    using delta_removed_spec [OF less.prems(1,3,4), where to = to and enc = enc and denc = denc
        and dbg = dbg and n = n] by blast
  show ?case
  proof (cases "to = []")
    case True
    then show ?thesis using 1 by (subst map_delta_merge.simps) simp
  next
    case False
    obtain to2 src2 n2 w2 e2 where 2: "delta_common dbg b dser to src1 n1 w1 = Inr (to2, src2, n2, w2)"
        "wrote w1 w2 e2" "merge_enc b enc denc to src1 = e2 @ merge_enc b enc denc to2 src2"
        "n1 + merge_count to src1 = n2 + merge_count to2 src2" "elems_ok kt b wf to2" "elems_ok kt b wf src2"
      using delta_common_spec [OF wrote_winv [OF 1(2)] less.prems(2) 1(5) less.prems(4)] by blast
    obtain to3 n3 w3 e3 where 3: "delta_added dbg b ser (map_begin src2) to2 n2 w2 = Inr (to3, n3, w3)"
        "wrote w2 w3 e3" "merge_enc b enc denc to2 src2 = e3 @ merge_enc b enc denc to3 src2"
        "n2 + merge_count to2 src2 = n3 + merge_count to3 src2" "elems_ok kt b wf to3"
      using delta_added_spec [OF wrote_winv [OF 2(2)] 2(5,6) less.prems(4)] by blast
    have "length to3 < length to" using map_delta_merge_progress [OF False 1(1) 2(1) 3(1)] .
    then obtain w4 where 4: "map_delta_merge dbg b ser dser to3 src2 n3 w3 = Inr (n3 + merge_count to3 src2, w4)"
        "wrote w3 w4 (merge_enc b enc denc to3 src2)"
      using less.hyps [OF _ wrote_winv [OF 3(2)] 3(5) 2(6) less.prems(4)] by blast
    have "wrote w w4 (merge_enc b enc denc to src)"
      using wrote_trans [OF 1(2) wrote_trans [OF 2(2) wrote_trans [OF 3(2) 4(2)]]] 1(3) 2(3) 3(3) by simp
    moreover have "n3 + merge_count to3 src2 = n + merge_count to src" using 1(4) 2(4) 3(4) by simp
    ultimately show ?thesis
      using 1(1) 2(1) 3(1) 4(1) False by (subst map_delta_merge.simps) simp
  qed
qed

lemma Map_dser:
  assumes "max_size < 2 ^ 63" "winv w" "map_ok kt max_size wf to" "map_ok kt max_size wf src"
  defines "b \<equiv> size_bits max_size"
  shows "\<exists>w'. (if merge_count to src < 2 ^ b
      then NetSerializerDelta_Map dbg max_size ser dser to src w = Inr (to \<noteq> src, w')
        \<and> wrote w w' (if to = src then [] else nat_bits b (merge_count to src) @ merge_enc b enc denc to src)
      else dbg \<and> merge_count to src < 2 ^ 64 \<longrightarrow>
        NetSerializerDelta_Map dbg max_size ser dser to src w = Inl OutOfRange)"
proof -
  let ?n = "merge_count to src" and ?e = "merge_enc b enc denc to src"
  have b: "b < 64" "0 < b" using size_bits [OF assms(1)] by (simp_all add: b_def)
  have ok: "elems_ok kt b wf to" "elems_ok kt b wf src" using assms(3,4) by (simp_all add: map_ok_def b_def)
  obtain c w1 where w1: "Reserve dbg (int b) w = Inr (c, w1)" "wrote w w1 (replicate b False)"
      "reserved c w" "cSize c = int b"
    using Reserve_spec [OF assms(2), of "int b" dbg] by auto
  obtain w2 where w2: "map_delta_merge dbg b ser dser to src 0 w1 = Inr (?n, w2)" "wrote w1 w2 ?e"
    using map_delta_merge_spec [OF wrote_winv [OF w1(2)] ok b(1), of dbg 0] by auto
  note w02 = wrote_trans [OF w1(2) w2(2)]
  have run: "NetSerializerDelta_Map dbg max_size ser dser to src w
      = (if ?n = 0 then ebind (RollBack c w2) (\<lambda>w. Inr (False, w))
         else ebind (CursorWriteBits dbg (of_nat ?n) (int b) c w2) (\<lambda>(_, w). Inr (True, w)))"
    using w1(1) w2(1) by (simp add: NetSerializerDelta_Map_def flip: b_def)
  consider "?n = 0" | "0 < ?n" "?n < 2 ^ b" | "2 ^ b \<le> ?n" by linarith
  then show ?thesis
  proof cases
    case 1
    then have "to = src" by (simp add: merge_count_0)
    moreover obtain w3 where "RollBack c w2 = Inr w3" "wrote w w3 []"
      using RollBack_spec [OF assms(2) wrote_winv [OF w2(2)] w1(3) wrote_wbits [OF w02]] by blast
    ultimately show ?thesis using run 1 by auto
  next
    case 2
    then have "to \<noteq> src" using merge_count_0 [of to src] by auto
    moreover obtain c' w3 where "CursorWriteBits dbg (of_nat ?n) (int b) c w2 = Inr (c', w3)"
        "wrote w w3 (nat_bits b ?n @ ?e)"
      using CursorWriteBits_nat [OF assms(2) w1(3) w02, of b ?n dbg] w1(4) 2 b(1) by auto
    ultimately show ?thesis using run 2 by auto
  next
    case 3
    have "CursorWriteBits dbg (of_nat ?n) (int b) c w2 = Inl OutOfRange" if "dbg" "?n < 2 ^ 64"
    proof -
      have "unat (take_bit b (of_nat ?n :: u64)) < 2 ^ b"
        using take_bit_nat_less_exp [of b] by (simp add: unsigned_take_bit_eq)
      moreover have "unat (of_nat ?n :: u64) = ?n" using unat_of_nat_bound [of ?n 64] that(2) by simp
      ultimately have "take_bit b (of_nat ?n :: u64) \<noteq> of_nat ?n" using 3 by auto
      then show ?thesis
        using b that(1) by (subst CursorWriteBits.simps) (simp add: value_too_large_iff)
    qed
    then show ?thesis using run 3 by (auto simp: not_less)
  qed
qed

text \<open>One entry of each kind.\<close>

lemma read_removal:
  assumes "rinv r" "b < 64" "key_ok kt k" "k < 2 ^ b" "keys_below pre k"
    and "rbits r = nat_bits b (nat k) @ False # tail"
  shows "\<exists>r'. map_delta_deser_elems kt b d deser dder (Suc n) (pre @ (k, v) # src) r
      = map_delta_deser_elems kt b d deser dder n (pre @ src) r'
    \<and> consumed r r' (nat_bits b (nat k) @ [False]) \<and> rbits r' = tail"
proof -
  have ok: "0 \<le> k" "in_ctype kt k" using assms(3) by (simp_all add: key_ok_def)
  obtain x r1 where r1: "ReadUBits (int b) r = Inr (x, r1)" "uint x = k"
      "consumed r r1 (nat_bits b (nat k))" "rbits r1 = False # tail"
    using ReadUBits_key [OF assms(1,6) ok(1) assms(4,2)] by blast
  obtain r2 where r2: "ReadUBits 1 r1 = Inr (0, r2)" "consumed r1 r2 [False]" "rbits r2 = tail"
    using ReadUBits_flag [OF consumed_rinv [OF r1(3)] r1(4)] by auto
  have "conv kt (uint x) = k" using ok(2) r1(2) by (simp add: conv_id)
  then show ?thesis
    using r1(1) r2(1,3) assms(5) consumed_trans [OF r1(3) r2(2)]
    by (intro exI [of _ r2])
      (simp add: Map_Get_def Map_Remove_def map_of_at map_erase_at del: map_of_append)
qed

lemma read_change:
  assumes "rinv r" "b < 64" "key_ok kt k" "k < 2 ^ b" "keys_below pre k" "wf v" "wf v'" "v \<noteq> v'"
    and "rbits r = nat_bits b (nat k) @ True # denc v v' @ tail"
  shows "\<exists>r'. map_delta_deser_elems kt b d deser dder (Suc n) (pre @ (k, v') # src) r
      = map_delta_deser_elems kt b d deser dder n ((pre @ [(k, v)]) @ src) r'
    \<and> consumed r r' (nat_bits b (nat k) @ True # denc v v') \<and> rbits r' = tail"
proof -
  have ok: "0 \<le> k" "in_ctype kt k" using assms(3) by (simp_all add: key_ok_def)
  obtain x r1 where r1: "ReadUBits (int b) r = Inr (x, r1)" "uint x = k"
      "consumed r r1 (nat_bits b (nat k))" "rbits r1 = True # denc v v' @ tail"
    using ReadUBits_key [OF assms(1,9) ok(1) assms(4,2)] by blast
  obtain r2 where r2: "ReadUBits 1 r1 = Inr (1, r2)" "consumed r1 r2 [True]" "rbits r2 = denc v v' @ tail"
    using ReadUBits_flag [OF consumed_rinv [OF r1(3)] r1(4)] by auto
  obtain r3 where r3: "dder v' r2 = Inr (v, r3)" "consumed r2 r3 (denc v v')" "rbits r3 = tail"
    using dder_rest [OF consumed_rinv [OF r2(2)] assms(6-8) r2(3)] by blast
  have "conv kt (uint x) = k" using ok(2) r1(2) by (simp add: conv_id)
  then show ?thesis
    using r1(1) r2(1) r3(1,3) assms(5) consumed_trans [OF r1(3) consumed_trans [OF r2(2) r3(2)]]
    by (intro exI [of _ r3]) (simp add: Map_Get_def map_of_at map_assign_at del: map_of_append)
qed

lemma read_addition:
  assumes "rinv r" "b < 64" "key_ok kt k" "k < 2 ^ b" "keys_below pre k" "keys_above k src" "wf v" "obj d"
    and "rbits r = nat_bits b (nat k) @ enc v @ tail"
  shows "\<exists>r'. map_delta_deser_elems kt b d deser dder (Suc n) (pre @ src) r
      = map_delta_deser_elems kt b d deser dder n ((pre @ [(k, v)]) @ src) r'
    \<and> consumed r r' (nat_bits b (nat k) @ enc v) \<and> rbits r' = tail"
proof -
  have ok: "0 \<le> k" "in_ctype kt k" using assms(3) by (simp_all add: key_ok_def)
  obtain x r1 where r1: "ReadUBits (int b) r = Inr (x, r1)" "uint x = k"
      "consumed r r1 (nat_bits b (nat k))" "rbits r1 = enc v @ tail"
    using ReadUBits_key [OF assms(1,9) ok(1) assms(4,2)] by blast
  obtain r2 where r2: "deser d r1 = Inr (v, r2)" "consumed r1 r2 (enc v)" "rbits r2 = tail"
    using deser_rest [OF consumed_rinv [OF r1(3)] assms(7,8) r1(4)] by blast
  have "conv kt (uint x) = k" using ok(2) r1(2) by (simp add: conv_id)
  then show ?thesis
    using r1(1) r2(1,3) assms(5,6) consumed_trans [OF r1(3) r2(2)]
    by (intro exI [of _ r2]) (simp add: Map_Get_def Map_EmplaceAt_def Let_def map_of_gap
        map_emplace_gap map_of_at map_assign_at del: map_of_append)
qed

lemma map_delta_deser_elems:
  assumes b: "b < 64" and d: "obj d"
  shows "rinv r \<Longrightarrow> elems_ok kt b wf to \<Longrightarrow> elems_ok kt b wf src \<Longrightarrow>
    (\<forall>kv\<in>set to \<union> set src. keys_below pre (fst kv)) \<Longrightarrow>
    rbits r = merge_enc b enc denc to src @ rest \<Longrightarrow>
    \<exists>r'. map_delta_deser_elems kt b d deser dder (merge_count to src) (pre @ src) r = Inr (pre @ to, r')
      \<and> consumed r r' (merge_enc b enc denc to src)"
proof (induction to src arbitrary: pre r rule: merge_count.induct)
  case 1
  then show ?case by simp
next
  case (2 kv' src)
  obtain k' v' where kv': "kv' = (k', v')" by (cases kv')
  have ok: "key_ok kt k'" "k' < 2 ^ b" "elems_ok kt b wf src" "keys_below pre k'"
    using "2.prems"(3,4) kv' by (auto simp: elems_ok_Cons)
  have bits: "rbits r = nat_bits b (nat k') @ False # merge_enc b enc denc [] src @ rest"
    using "2.prems"(5) kv' by simp
  obtain r1 where r1: "map_delta_deser_elems kt b d deser dder (Suc (merge_count [] src)) (pre @ kv' # src) r
      = map_delta_deser_elems kt b d deser dder (merge_count [] src) (pre @ src) r1"
      "consumed r r1 (nat_bits b (nat k') @ [False])" "rbits r1 = merge_enc b enc denc [] src @ rest"
    using read_removal [OF "2.prems"(1) b ok(1,2,4) bits] kv' by blast
  obtain r2 where "map_delta_deser_elems kt b d deser dder (merge_count [] src) (pre @ src) r1
      = Inr (pre @ [], r2)" "consumed r1 r2 (merge_enc b enc denc [] src)"
    using "2.IH" [OF consumed_rinv [OF r1(2)] "2.prems"(2) ok(3) _ r1(3), of pre] "2.prems"(4) by auto
  then show ?case using r1(1) kv' consumed_trans [OF r1(2)] by fastforce
next
  case (3 kv to)
  obtain k v where kv: "kv = (k, v)" by (cases kv)
  have ok: "key_ok kt k" "k < 2 ^ b" "wf v" "elems_ok kt b wf to" "keys_below pre k" "keys_above k to"
    using "3.prems"(2,4) kv by (auto simp: elems_ok_Cons)
  have bits: "rbits r = nat_bits b (nat k) @ enc v @ merge_enc b enc denc to [] @ rest"
    using "3.prems"(5) kv by simp
  obtain r1 where r1: "map_delta_deser_elems kt b d deser dder (Suc (merge_count to [])) (pre @ []) r
      = map_delta_deser_elems kt b d deser dder (merge_count to []) ((pre @ [(k, v)]) @ []) r1"
      "consumed r r1 (nat_bits b (nat k) @ enc v)" "rbits r1 = merge_enc b enc denc to [] @ rest"
    using read_addition [OF "3.prems"(1) b ok(1,2,5) keys_simps(4) ok(3) d bits] by blast
  have below: "\<forall>kv\<in>set to \<union> set []. keys_below (pre @ [(k, v)]) (fst kv)"
    using "3.prems"(4) ok(6) by (auto simp: keys_above_def)
  obtain r2 where "map_delta_deser_elems kt b d deser dder (merge_count to []) ((pre @ [(k, v)]) @ []) r1
      = Inr ((pre @ [(k, v)]) @ to, r2)" "consumed r1 r2 (merge_enc b enc denc to [])"
    using "3.IH" [OF consumed_rinv [OF r1(2)] ok(4) "3.prems"(3) below r1(3)] by blast
  then show ?case using r1(1) kv consumed_trans [OF r1(2)] by fastforce
next
  case (4 k v to k' v' src)
  have ok: "key_ok kt k" "k < 2 ^ b" "wf v" "elems_ok kt b wf to" "keys_below pre k" "keys_above k to"
    using "4.prems"(2,4) by (auto simp: elems_ok_Cons)
  have ok': "key_ok kt k'" "k' < 2 ^ b" "wf v'" "elems_ok kt b wf src" "keys_below pre k'" "keys_above k' src"
    using "4.prems"(3,4) by (auto simp: elems_ok_Cons)
  consider (less) "k' < k" | (same) "k' = k" "v = v'" | (change) "k' = k" "v \<noteq> v'" | (add) "k < k'"
    by linarith
  then show ?case
  proof cases
    case less
    have bits: "rbits r = nat_bits b (nat k') @ False # merge_enc b enc denc ((k, v) # to) src @ rest"
      using "4.prems"(5) less by simp
    obtain r1 where r1: "map_delta_deser_elems kt b d deser dder (Suc (merge_count ((k, v) # to) src))
          (pre @ (k', v') # src) r
        = map_delta_deser_elems kt b d deser dder (merge_count ((k, v) # to) src) (pre @ src) r1"
        "consumed r r1 (nat_bits b (nat k') @ [False])"
        "rbits r1 = merge_enc b enc denc ((k, v) # to) src @ rest"
      using read_removal [OF "4.prems"(1) b ok'(1,2,5) bits] by blast
    obtain r2 where "map_delta_deser_elems kt b d deser dder (merge_count ((k, v) # to) src) (pre @ src) r1
        = Inr (pre @ (k, v) # to, r2)" "consumed r1 r2 (merge_enc b enc denc ((k, v) # to) src)"
      using "4.IH"(1) [OF less consumed_rinv [OF r1(2)] "4.prems"(2) ok'(4) _ r1(3), of pre]
        "4.prems"(4) by auto
    then show ?thesis using r1(1) less consumed_trans [OF r1(2)] by fastforce
  next
    case same
    have below: "\<forall>kv\<in>set to \<union> set src. keys_below (pre @ [(k, v)]) (fst kv)"
      using "4.prems"(4) ok(6) ok'(6) same by (auto simp: keys_above_def)
    obtain r2 where "map_delta_deser_elems kt b d deser dder (merge_count to src) ((pre @ [(k, v)]) @ src) r
        = Inr ((pre @ [(k, v)]) @ to, r2)" "consumed r r2 (merge_enc b enc denc to src)"
      using "4.IH"(2) [OF _ _ "4.prems"(1) ok(4) ok'(4) below] "4.prems"(5) same by auto
    then show ?thesis using same by simp
  next
    case change
    have below: "\<forall>kv\<in>set to \<union> set src. keys_below (pre @ [(k, v)]) (fst kv)"
      using "4.prems"(4) ok(6) ok'(6) change by (auto simp: keys_above_def)
    have bits: "rbits r = nat_bits b (nat k) @ True # denc v v' @ merge_enc b enc denc to src @ rest"
      using "4.prems"(5) change by simp
    obtain r1 where r1: "map_delta_deser_elems kt b d deser dder (Suc (merge_count to src))
          (pre @ (k, v') # src) r
        = map_delta_deser_elems kt b d deser dder (merge_count to src) ((pre @ [(k, v)]) @ src) r1"
        "consumed r r1 (nat_bits b (nat k) @ True # denc v v')" "rbits r1 = merge_enc b enc denc to src @ rest"
      using read_change [OF "4.prems"(1) b ok(1,2,5,3) ok'(3) change(2) bits] by blast
    obtain r2 where "map_delta_deser_elems kt b d deser dder (merge_count to src) ((pre @ [(k, v)]) @ src) r1
        = Inr ((pre @ [(k, v)]) @ to, r2)" "consumed r1 r2 (merge_enc b enc denc to src)"
      using "4.IH"(2) [OF _ _ consumed_rinv [OF r1(2)] ok(4) ok'(4) below r1(3)] change by auto
    then show ?thesis using r1(1) change consumed_trans [OF r1(2)] by fastforce
  next
    case add
    have above: "keys_above k ((k', v') # src)" using add ok'(6) by (auto simp: keys_above_def)
    have below: "\<forall>kv\<in>set to \<union> set ((k', v') # src). keys_below (pre @ [(k, v)]) (fst kv)"
      using "4.prems"(4) ok(6) above by (auto simp: keys_above_def)
    have bits: "rbits r = nat_bits b (nat k) @ enc v @ merge_enc b enc denc to ((k', v') # src) @ rest"
      using "4.prems"(5) add by simp
    obtain r1 where r1: "map_delta_deser_elems kt b d deser dder (Suc (merge_count to ((k', v') # src)))
          (pre @ (k', v') # src) r
        = map_delta_deser_elems kt b d deser dder (merge_count to ((k', v') # src))
            ((pre @ [(k, v)]) @ (k', v') # src) r1"
        "consumed r r1 (nat_bits b (nat k) @ enc v)"
        "rbits r1 = merge_enc b enc denc to ((k', v') # src) @ rest"
      using read_addition [OF "4.prems"(1) b ok(1,2,5) above ok(3) d bits] by blast
    obtain r2 where "map_delta_deser_elems kt b d deser dder (merge_count to ((k', v') # src))
          ((pre @ [(k, v)]) @ (k', v') # src) r1
        = Inr ((pre @ [(k, v)]) @ to, r2)" "consumed r1 r2 (merge_enc b enc denc to ((k', v') # src))"
      using "4.IH"(3) [OF _ _ consumed_rinv [OF r1(2)] ok(4) "4.prems"(3) below r1(3)] add by auto
    then show ?thesis using r1(1) add consumed_trans [OF r1(2)] by fastforce
  qed
qed

lemma Map_dder:
  assumes "max_size < 2 ^ 63" "obj d" "rinv r" "map_ok kt max_size wf to" "map_ok kt max_size wf src"
    and "to \<noteq> src" "merge_count to src < 2 ^ size_bits max_size"
    and "rbits r = (nat_bits (size_bits max_size) (merge_count to src)
      @ merge_enc (size_bits max_size) enc denc to src) @ rest"
  shows "\<exists>r'. NetDeserializerDelta_Map kt max_size d deser dder src r = Inr (to, r')
    \<and> rinv r' \<and> rbits r' = rest"
proof -
  let ?b = "size_bits max_size" and ?n = "merge_count to src" and ?e = "merge_enc (size_bits max_size) enc denc to src"
  have b: "?b < 64" using size_bits [OF assms(1)] by simp
  have ok: "elems_ok kt ?b wf to" "elems_ok kt ?b wf src" using assms(4,5) by (simp_all add: map_ok_def)
  obtain r1 where r1: "ReadUBits (int ?b) r = Inr (of_nat ?n, r1)" "consumed r r1 (nat_bits ?b ?n)"
      "rbits r1 = ?e @ rest"
    using ReadUBits_nat [OF assms(3) _ assms(7) b, of "?e @ rest"] assms(8) by auto
  have u: "unat (of_nat ?n :: u64) = ?n" using unat_of_nat_bound [OF assms(7)] b by simp
  obtain r2 where r2: "map_delta_deser_elems kt ?b d deser dder ?n ([] @ src) r1 = Inr ([] @ to, r2)"
      "consumed r1 r2 ?e"
    using map_delta_deser_elems [OF b assms(2) consumed_rinv [OF r1(2)] ok _ r1(3), of "[]"] by auto
  then show ?thesis
    using r1(1,3) u consumed_rinv [OF r2(2)] consumed_rest [OF r2(2)]
    by (simp add: NetDeserializerDelta_Map_def)
qed

end

lemma size_bits_values: "GetRequiredBits U64 1 = 1" "GetRequiredBits U64 20 = 5"
  by (rule GetRequiredBits_unique; simp add: wide_def in_ctype_def ctype_min_def ctype_max_def)+

interpretation bool_map: value_codec "NetSerializer_Map dbg 20 (NetSerializer_bool dbg)"
    "NetDeserializer_Map U16 20 False NetDeserializer_bool" "map_ok U16 20 (\<lambda>_. True)"
    "map_obj U16 (\<lambda>_. True)" "\<lambda>m. nat_bits (size_bits 20) (length m) @ map_enc (size_bits 20) (\<lambda>b. [b]) m"
  for dbg
  by (rule bool_codec.Map_codec) simp_all

text \<open>A map is written as its size and its elements in key order; the deserializer,
  walking an iterator over whatever map it is given, erases the keys that are not sent, inserts the
  ones it lacks and overwrites the rest, and ends with the map that was sent.\<close>

theorem Map_full_roundtrip:
  assumes "value_codec ser deser okv obj enc" "max_size < 2 ^ 63" "obj d" "winv w" "map_ok kt max_size okv m"
  shows "\<exists>w' bs. NetSerializer_Map dbg max_size ser m w = Inr w' \<and> winv w' \<and> wbits w' = wbits w @ bs
    \<and> (\<forall>m0 r rest. map_obj kt obj m0 \<and> rinv r \<and> rbits r = bs @ rest \<longrightarrow>
         (\<exists>r'. NetDeserializer_Map kt max_size d deser m0 r = Inr (m, r') \<and> rinv r' \<and> rbits r' = rest))"
  using value_codec.value_roundtrip [OF value_codec.Map_codec [OF assms(1-3)] assms(4,5)] .

theorem Map_full_roundtrip_witness:
  "\<exists>w' bs. NetSerializer_Map True 20 (NetSerializer_bool True) [(3, True), (7, False)]
        NetBitWriterVector_init = Inr w' \<and> winv w' \<and> wbits w' = bs
    \<and> (\<forall>m0 r rest. map_obj U16 (\<lambda>_. True) m0 \<and> rinv r \<and> rbits r = bs @ rest \<longrightarrow>
         (\<exists>r'. NetDeserializer_Map U16 20 False NetDeserializer_bool m0 r
             = Inr ([(3, True), (7, False)], r') \<and> rinv r' \<and> rbits r' = rest))"
proof -
  have "map_ok U16 20 (\<lambda>_. True) [(3, True), (7, False)]"
    by (simp add: map_ok_def elems_ok_def size_bits_values key_ok_def in_ctype_def ctype_min_def ctype_max_def)
  then show ?thesis
    using Map_full_roundtrip [OF bool_codec.value_codec_axioms [of True], where max_size = 20
        and d = False and w = NetBitWriterVector_init and kt = U16 and m = "[(3, True), (7, False)]"
        and dbg = True]
    by simp
qed

text \<open>C19: the difference of two maps: the merge of the two key sequences writes removed,
  changed and added keys, and the delta deserializer replays them on the old map to get the new one,
  provided the number of entries fits the field that holds it.\<close>

theorem Map_delta_roundtrip:
  assumes "element_codec ser deser okv obj enc dser dder denc" "max_size < 2 ^ 63" "obj d" "winv w"
    and "map_ok kt max_size okv to" "map_ok kt max_size okv src"
    and "merge_count to src < 2 ^ size_bits max_size"
  shows "\<exists>w' bs. NetSerializerDelta_Map dbg max_size ser dser to src w = Inr (to \<noteq> src, w')
    \<and> winv w' \<and> wbits w' = wbits w @ bs \<and> (to = src \<longrightarrow> bs = [])
    \<and> (\<forall>r rest. to \<noteq> src \<and> rinv r \<and> rbits r = bs @ rest \<longrightarrow>
         (\<exists>r'. NetDeserializerDelta_Map kt max_size d deser dder src r = Inr (to, r')
           \<and> rinv r' \<and> rbits r' = rest))"
proof -
  let ?b = "size_bits max_size"
  let ?bs = "if to = src then [] else nat_bits ?b (merge_count to src) @ merge_enc ?b enc denc to src"
  obtain w' where w': "NetSerializerDelta_Map dbg max_size ser dser to src w = Inr (to \<noteq> src, w')"
      "wrote w w' ?bs"
    using element_codec.Map_dser [OF assms(1,2,4-6), of dbg] assms(7) by auto
  have "\<exists>r'. NetDeserializerDelta_Map kt max_size d deser dder src r = Inr (to, r')
      \<and> rinv r' \<and> rbits r' = rest" if "to \<noteq> src" "rinv r" "rbits r = ?bs @ rest" for r rest
    using element_codec.Map_dder [OF assms(1-3) that(2) assms(5,6) that(1) assms(7)] that(1,3) by simp
  with w' show ?thesis
    by (intro exI [of _ w'] exI [of _ ?bs]) (auto dest: wrote_wbits wrote_winv)
qed

text \<open>It need not fit: with \<^verbatim>\<open>MaxSize\<close> elements replaced by others there are twice
  as many entries as the field was sized for, and the debug build throws.\<close>

theorem Map_delta_overflow:
  assumes "element_codec ser deser okv obj enc dser dder denc" "max_size < 2 ^ 63" "winv w"
    and "map_ok kt max_size okv to" "map_ok kt max_size okv src"
    and "2 ^ size_bits max_size \<le> merge_count to src" "merge_count to src < 2 ^ 64"
  shows "NetSerializerDelta_Map True max_size ser dser to src w = Inl OutOfRange"
  using element_codec.Map_dser [OF assms(1-5), of True] assms(6,7) by simp

interpretation map_bool: element_codec "NetSerializer_bool dbg" NetDeserializer_bool
    "\<lambda>_. True" "\<lambda>_. True" "\<lambda>b. [b]" "NetSerializeDeltaType (=) (NetSerializer_bool dbg)"
    "NetDeserializeDeltaType NetDeserializer_bool" "\<lambda>to src. if to = src then [] else [to]" for dbg
  by (rule bool_codec.default_element_codec)

lemma map_ok_one: "map_ok U8 (Suc 0) (\<lambda>_. True) [(0, b)]" "map_ok U8 (Suc 0) (\<lambda>_. True) [(1, b)]"
  by (simp_all add: map_ok_def elems_ok_def size_bits_values key_ok_def in_ctype_def ctype_min_def ctype_max_def)

theorem Map_delta_roundtrip_witness:
  "\<exists>w' bs. NetSerializerDelta_Map True 1 (NetSerializer_bool True)
        (NetSerializeDeltaType (=) (NetSerializer_bool True)) [(1, True)] [(1, False)]
        NetBitWriterVector_init = Inr (True, w') \<and> winv w' \<and> wbits w' = bs
    \<and> (\<forall>r rest. rinv r \<and> rbits r = bs @ rest \<longrightarrow>
         (\<exists>r'. NetDeserializerDelta_Map U8 1 False NetDeserializer_bool
             (NetDeserializeDeltaType NetDeserializer_bool) [(1, False)] r = Inr ([(1, True)], r')
           \<and> rinv r' \<and> rbits r' = rest))"
  using Map_delta_roundtrip [OF map_bool.element_codec_axioms [of True], where max_size = 1
      and d = False and w = NetBitWriterVector_init and kt = U8 and to = "[(1, True)]"
      and src = "[(1, False)]" and dbg = True]
  by (simp add: map_ok_one size_bits_values)

theorem Map_delta_overflow_witness:
  "NetSerializerDelta_Map True 1 (NetSerializer_bool True)
     (NetSerializeDeltaType (=) (NetSerializer_bool True)) [(0, True)] [(1, False)]
     NetBitWriterVector_init = Inl OutOfRange"
  using Map_delta_overflow [OF map_bool.element_codec_axioms [of True], where max_size = 1
      and w = NetBitWriterVector_init and kt = U8 and to = "[(0, True)]" and src = "[(1, False)]"]
  by (simp add: map_ok_one size_bits_values)

lemma length_map_emplace: "ksorted m \<Longrightarrow> map_of m k = None \<Longrightarrow> length (map_emplace k v m) = Suc (length m)"
  by (induction k v m rule: map_emplace.induct) (auto split: if_splits)

text \<open>\<^verbatim>\<open>Set\<close> on a full map throws even when it would overwrite, while \<^verbatim>\<open>EmplaceAt\<close>
  and \<^verbatim>\<open>operator []\<close> take a full map above \<^verbatim>\<open>MaxSize\<close>.\<close>

theorem Map_bound_not_kept:
  assumes "ksorted m" "length m = max_size" "map_of m k = None"
  shows "Map_Set max_size k' v m = Inl RuntimeError
    \<and> Map_Size (Map_EmplaceAt k v m) = Suc max_size \<and> Map_Size (Map_index v k m) = Suc max_size"
  using assms length_map_emplace [OF assms(1,3)]
  by (simp add: Map_Set_def Map_Size_def Map_EmplaceAt_def Map_index_def)

theorem Map_bound_not_kept_witness:
  "Map_Set 1 5 True [(5, False)] = Inl RuntimeError \<and> Map_Size (Map_EmplaceAt 6 True [(5, False)]) = 2"
  using Map_bound_not_kept [of "[(5, False)]" 1 6 5 True] by simp

end
