(* ===== verification/SparseList.thy ===== *)
theory SparseList
  imports BitUtil
begin

text \<open>
  \<^verbatim>\<open>NetReflectionSparseList.h\<close>: the list of optional elements in one \<^verbatim>\<open>malloc\<close>ed array. A slot of
  the array is raw memory (\<open>Raw\<close>: its \<^verbatim>\<open>m_Valid\<close> is indeterminate), not valid (\<open>Free\<close>), a
  constructed element (\<open>Live\<close>) or a destroyed one still marked valid (\<open>Gone\<close>). Reading
  an indeterminate flag, a slot outside the array, or an element that is not constructed is
  undefined. \<^verbatim>\<open>malloc\<close> may fail: \<open>mal n\<close> says whether it serves a request for \<open>n\<close> slots, and where
  it does not the list throws \<^verbatim>\<open>std::bad_alloc\<close>. \<^verbatim>\<open>std::size_t\<close> indices are \<open>nat\<close>; their conversions to \<^verbatim>\<open>int\<close> are written out.
\<close>

section \<open>State\<close>

datatype 'v slot = Raw | Free | Live 'v | Gone

record 'v NetSparseList =
  m_HighestIndex :: int
  m_Capacity :: nat
  m_Values :: "'v slot list"

fun slot_valid :: "'v slot \<Rightarrow> bool result" where
  "slot_valid Raw = Inl Undefined"
| "slot_valid Free = Inr False"
| "slot_valid (Live v) = Inr True"
| "slot_valid Gone = Inr True"

fun slot_value :: "'v slot \<Rightarrow> 'v result" where
  "slot_value (Live v) = Inr v"
| "slot_value _ = Inl Undefined"

definition slot_at :: "'v slot list \<Rightarrow> nat \<Rightarrow> 'v slot result" where
  "slot_at vs i = (if i < length vs then Inr (vs ! i) else Inl Undefined)"

definition valid_at :: "'v slot list \<Rightarrow> nat \<Rightarrow> bool result" where
  "valid_at vs i = ebind (slot_at vs i) slot_valid"

definition value_at :: "'v slot list \<Rightarrow> nat \<Rightarrow> 'v result" where
  "value_at vs i = ebind (slot_at vs i) slot_value"

definition set_slot :: "nat \<Rightarrow> 'v slot \<Rightarrow> 'v NetSparseList \<Rightarrow> 'v NetSparseList result" where
  "set_slot i s L =
     (if i < length (m_Values L) then Inr (L\<lparr>m_Values := (m_Values L)[i := s]\<rparr>) else Inl Undefined)"

text \<open>The loops over the slots up to \<^verbatim>\<open>m_HighestIndex\<close>.\<close>

definition used_slots :: "'v NetSparseList \<Rightarrow> 'v slot list result" where
  "used_slots L =
     (if m_HighestIndex L < int (length (m_Values L)) then Inr (take (nat (m_HighestIndex L + 1)) (m_Values L))
      else Inl Undefined)"

fun copy_slots :: "'v slot list \<Rightarrow> 'v slot list result" where
  "copy_slots [] = Inr []"
| "copy_slots (s # ss) =
     ebind (slot_valid s) (\<lambda>valid.
     ebind (if valid then ebind (slot_value s) (\<lambda>v. Inr (Live v)) else Inr Free) (\<lambda>s'.
     ebind (copy_slots ss) (\<lambda>ss'. Inr (s' # ss'))))"

text \<open>\<open>destroy_slots dead\<close>: run the destructors; \<open>dead\<close> is what a destroyed slot becomes.\<close>

fun destroy_slots :: "'v slot \<Rightarrow> 'v slot list \<Rightarrow> 'v slot list result" where
  "destroy_slots dead [] = Inr []"
| "destroy_slots dead (s # ss) =
     ebind (slot_valid s) (\<lambda>valid.
     ebind (if valid then ebind (slot_value s) (\<lambda>_. Inr dead) else Inr s) (\<lambda>s'.
     ebind (destroy_slots dead ss) (\<lambda>ss'. Inr (s' # ss'))))"

definition DestroyAllElements :: "'v NetSparseList \<Rightarrow> 'v NetSparseList result" where
  "DestroyAllElements L =
     ebind (used_slots L) (\<lambda>used. ebind (destroy_slots Gone used) (\<lambda>ss.
       Inr (L\<lparr>m_Values := ss @ drop (length ss) (m_Values L)\<rparr>)))"

definition DestroyAllElementsAndInvalidate :: "'v NetSparseList \<Rightarrow> 'v NetSparseList result" where
  "DestroyAllElementsAndInvalidate L =
     ebind (used_slots L) (\<lambda>used. ebind (destroy_slots Free used) (\<lambda>ss.
       Inr (L\<lparr>m_Values := ss @ drop (length ss) (m_Values L)\<rparr>)))"

section \<open>Construction and growth\<close>

definition Allocate_slots :: "(nat \<Rightarrow> bool) \<Rightarrow> nat \<Rightarrow> 'v slot list result" where
  "Allocate_slots mal count = (if mal count then Inr (replicate count Raw) else Inl BadAlloc)"

definition NetSparseList_init :: "'v NetSparseList" where
  "NetSparseList_init = \<lparr>m_HighestIndex = - 1, m_Capacity = 0, m_Values = []\<rparr>"

definition NetSparseList_copy :: "(nat \<Rightarrow> bool) \<Rightarrow> 'v NetSparseList \<Rightarrow> 'v NetSparseList result" where
  "NetSparseList_copy mal rhs =
     (if 0 < m_Capacity rhs then
        ebind (Allocate_slots mal (m_Capacity rhs)) (\<lambda>_ :: 'v slot list.
          if length (m_Values rhs) < m_Capacity rhs then Inl Undefined
          else ebind (copy_slots (take (m_Capacity rhs) (m_Values rhs))) (\<lambda>vs.
            Inr \<lparr>m_HighestIndex = m_HighestIndex rhs, m_Capacity = m_Capacity rhs, m_Values = vs\<rparr>))
      else Inr \<lparr>m_HighestIndex = m_HighestIndex rhs, m_Capacity = m_Capacity rhs, m_Values = []\<rparr>)"

text \<open>The new list and what is left of the old one.\<close>

definition NetSparseList_move :: "'v NetSparseList \<Rightarrow> 'v NetSparseList \<times> 'v NetSparseList" where
  "NetSparseList_move rhs = (rhs, NetSparseList_init)"

definition NetSparseList_destruct :: "'v NetSparseList \<Rightarrow> unit result" where
  "NetSparseList_destruct L = ebind (DestroyAllElements L) (\<lambda>_. Inr ())"

definition Grow :: "(nat \<Rightarrow> bool) \<Rightarrow> nat \<Rightarrow> 'v NetSparseList \<Rightarrow> 'v NetSparseList result" where
  "Grow mal requested_size L =
     ebind (Allocate_slots mal requested_size) (\<lambda>values.
     ebind (if 0 < m_Capacity L then ebind (used_slots L) copy_slots else Inr []) (\<lambda>moved.
       if requested_size < length moved then Inl Undefined
       else Inr (L\<lparr>m_Values := map (\<lambda>i. if i < length moved then moved ! i
                         else if m_HighestIndex L + 1 \<le> int i \<and> int i < conv I32 (int requested_size)
                         then Free else values ! i) [0..<requested_size],
                   m_Capacity := requested_size\<rparr>)))"

definition Grow_default :: "(nat \<Rightarrow> bool) \<Rightarrow> 'v NetSparseList \<Rightarrow> 'v NetSparseList result" where
  "Grow_default mal L = (if m_Capacity L = 0 then Grow mal 1 L else Grow mal (m_Capacity L * 2) L)"

text \<open>The doubling loop; it is entered with a capacity above 0.\<close>

function doubled :: "nat \<Rightarrow> nat \<Rightarrow> nat" where
  "doubled new_capacity logical_index =
     (if 0 < new_capacity \<and> new_capacity * 2 \<le> logical_index then doubled (new_capacity * 2) logical_index
      else new_capacity * 2)"
  by pat_completeness auto
termination
  by (relation "measure (\<lambda>(c, i). i - c)") auto

definition GrowToFit :: "(nat \<Rightarrow> bool) \<Rightarrow> nat \<Rightarrow> 'v NetSparseList \<Rightarrow> 'v NetSparseList result" where
  "GrowToFit mal logical_index L =
     (if m_Capacity L \<le> logical_index then
        if m_Capacity L = 0 then Grow mal (logical_index + 1) L
        else Grow mal (doubled (m_Capacity L) logical_index) L
      else Inr L)"

definition Reserve_slots :: "(nat \<Rightarrow> bool) \<Rightarrow> nat \<Rightarrow> 'v NetSparseList \<Rightarrow> 'v NetSparseList result" where
  "Reserve_slots mal n L = (if m_Capacity L < n then Grow mal n L else Inr L)"

section \<open>Adding and removing elements\<close>

definition Sparse_Clear :: "'v NetSparseList \<Rightarrow> 'v NetSparseList result" where
  "Sparse_Clear L = ebind (DestroyAllElementsAndInvalidate L) (\<lambda>L. Inr (L\<lparr>m_HighestIndex := - 1\<rparr>))"

definition Sparse_PushBack :: "(nat \<Rightarrow> bool) \<Rightarrow> 'v \<Rightarrow> 'v NetSparseList \<Rightarrow> 'v NetSparseList result" where
  "Sparse_PushBack mal val L =
     ebind (if m_HighestIndex L + 1 = int (m_Capacity L) then Grow_default mal L else Inr L) (\<lambda>L.
       set_slot (nat (m_HighestIndex L + 1)) (Live val) (L\<lparr>m_HighestIndex := m_HighestIndex L + 1\<rparr>))"

definition Sparse_EmplaceBack :: "(nat \<Rightarrow> bool) \<Rightarrow> 'v \<Rightarrow> 'v NetSparseList \<Rightarrow> 'v NetSparseList result" where
  "Sparse_EmplaceBack mal val L =
     ebind (if m_HighestIndex L + 1 = int (m_Capacity L) then Grow_default mal L else Inr L) (\<lambda>L.
       set_slot (nat (m_HighestIndex L + 1)) (Live val) (L\<lparr>m_HighestIndex := m_HighestIndex L + 1\<rparr>))"

definition raise_highest :: "nat \<Rightarrow> 'v NetSparseList \<Rightarrow> 'v NetSparseList" where
  "raise_highest logical_index L =
     L\<lparr>m_HighestIndex := if m_HighestIndex L = - 1 \<or> m_HighestIndex L < int logical_index
         then conv I32 (int logical_index) else m_HighestIndex L\<rparr>"

definition Sparse_InsertAt :: "(nat \<Rightarrow> bool) \<Rightarrow> nat \<Rightarrow> 'v \<Rightarrow> 'v NetSparseList \<Rightarrow> 'v NetSparseList result" where
  "Sparse_InsertAt mal logical_index val L =
     ebind (GrowToFit mal logical_index L) (\<lambda>L. let L = raise_highest logical_index L in
     ebind (valid_at (m_Values L) logical_index) (\<lambda>valid.
       if valid then ebind (value_at (m_Values L) logical_index) (\<lambda>_. set_slot logical_index (Live val) L)
       else set_slot logical_index (Live val) L))"

definition Sparse_EmplaceAt :: "(nat \<Rightarrow> bool) \<Rightarrow> nat \<Rightarrow> 'v \<Rightarrow> 'v NetSparseList \<Rightarrow> 'v NetSparseList result" where
  "Sparse_EmplaceAt mal logical_index val L =
     ebind (GrowToFit mal logical_index L) (\<lambda>L. let L = raise_highest logical_index L in
     ebind (valid_at (m_Values L) logical_index) (\<lambda>valid.
       if valid then ebind (value_at (m_Values L) logical_index) (\<lambda>_. set_slot logical_index (Live val) L)
       else set_slot logical_index (Live val) L))"

fun find_free :: "nat \<Rightarrow> 'v slot list \<Rightarrow> nat option result" where
  "find_free index [] = Inr None"
| "find_free index (s # ss) =
     ebind (slot_valid s) (\<lambda>valid. if valid then find_free (Suc index) ss else Inr (Some index))"

definition Sparse_Emplace :: "(nat \<Rightarrow> bool) \<Rightarrow> 'v \<Rightarrow> 'v NetSparseList \<Rightarrow> (nat \<times> 'v NetSparseList) result" where
  "Sparse_Emplace mal val L =
     ebind (find_free 0 (m_Values L)) (\<lambda>found.
       case found of
         Some index \<Rightarrow> ebind (Sparse_EmplaceAt mal index val L) (\<lambda>L. Inr (index, L))
       | None \<Rightarrow> ebind (Sparse_EmplaceBack mal val L) (\<lambda>L. Inr (nat (m_HighestIndex L), L)))"

function lower_highest :: "'v slot list \<Rightarrow> int \<Rightarrow> int result" where
  "lower_highest vs h =
     (if 0 \<le> h then ebind (valid_at vs (nat h)) (\<lambda>valid. if valid then Inr h else lower_highest vs (h - 1))
      else Inr h)"
  by pat_completeness auto
termination
  by (relation "measure (\<lambda>(vs, h). nat (h + 1))") auto

definition Sparse_RemoveAt :: "nat \<Rightarrow> 'v NetSparseList \<Rightarrow> 'v NetSparseList result" where
  "Sparse_RemoveAt logical_index L =
     (if m_Capacity L \<le> logical_index then Inr L
      else ebind (valid_at (m_Values L) logical_index) (\<lambda>valid.
        if valid then
          ebind (value_at (m_Values L) logical_index) (\<lambda>_.
          ebind (set_slot logical_index Free L) (\<lambda>L.
          ebind (lower_highest (m_Values L) (m_HighestIndex L)) (\<lambda>h.
            Inr (L\<lparr>m_HighestIndex := h\<rparr>))))
        else Inr L))"

text \<open>An iterator is its \<^verbatim>\<open>m_PhysicalIndex\<close>.\<close>

definition Sparse_Remove :: "nat \<Rightarrow> 'v NetSparseList \<Rightarrow> 'v NetSparseList result" where
  "Sparse_Remove itr L = Sparse_RemoveAt itr L"

text \<open>\<^verbatim>\<open>Compress\<close>: \<open>compress_loop k index e vs\<close> are \<open>k\<close> iterations from \<open>index\<close> on.\<close>

fun compress_loop :: "nat \<Rightarrow> nat \<Rightarrow> int \<Rightarrow> 'v slot list \<Rightarrow> 'v slot list result" where
  "compress_loop 0 index empty_index vs = Inr vs"
| "compress_loop (Suc k) index empty_index vs =
     ebind (valid_at vs index) (\<lambda>valid.
       if valid then
         if empty_index \<noteq> - 1 then
           ebind (value_at vs index) (\<lambda>v.
             compress_loop k (Suc index) (empty_index + 1) ((vs[nat empty_index := Live v])[index := Free]))
         else compress_loop k (Suc index) empty_index vs
       else compress_loop k (Suc index) (if empty_index = - 1 then conv I32 (int index) else empty_index) vs)"

definition Compress :: "'v NetSparseList \<Rightarrow> 'v NetSparseList result" where
  "Compress L = ebind (compress_loop (m_Capacity L) 0 (- 1) (m_Values L)) (\<lambda>vs. Inr (L\<lparr>m_Values := vs\<rparr>))"

section \<open>Reading\<close>

definition HasAt :: "nat \<Rightarrow> 'v NetSparseList \<Rightarrow> bool result" where
  "HasAt index L =
     (if m_HighestIndex L = - 1 then Inr False
      else if m_HighestIndex L < int index then Inr False
      else valid_at (m_Values L) index)"

definition Sparse_index :: "nat \<Rightarrow> 'v NetSparseList \<Rightarrow> 'v result" where
  "Sparse_index index L =
     (if m_HighestIndex L = - 1 then Inl OutOfRange
      else if m_HighestIndex L < int index then Inl OutOfRange
      else ebind (valid_at (m_Values L) index) (\<lambda>valid.
        if valid then value_at (m_Values L) index else Inl OutOfRange))"

definition GetAt :: "nat \<Rightarrow> 'v NetSparseList \<Rightarrow> 'v result" where
  "GetAt index L =
     (if m_HighestIndex L = - 1 then Inl OutOfRange
      else if m_HighestIndex L < int index then Inl OutOfRange
      else ebind (valid_at (m_Values L) index) (\<lambda>valid.
        if valid then value_at (m_Values L) index else Inl OutOfRange))"

definition TryGet :: "nat \<Rightarrow> 'v NetSparseList \<Rightarrow> 'v option result" where
  "TryGet index L =
     (if m_HighestIndex L = - 1 then Inr None
      else if m_HighestIndex L < int index then Inr None
      else ebind (valid_at (m_Values L) index) (\<lambda>valid.
        if valid then ebind (value_at (m_Values L) index) (\<lambda>v. Inr (Some v)) else Inr None))"

fun count_valid :: "'v slot list \<Rightarrow> nat result" where
  "count_valid [] = Inr 0"
| "count_valid (s # ss) =
     ebind (slot_valid s) (\<lambda>valid. ebind (count_valid ss) (\<lambda>n. Inr (if valid then Suc n else n)))"

definition Sparse_Size :: "'v NetSparseList \<Rightarrow> nat result" where
  "Sparse_Size L = ebind (used_slots L) count_valid"

section \<open>Iteration\<close>

function skip_free :: "int \<Rightarrow> 'v slot list \<Rightarrow> nat \<Rightarrow> nat result" where
  "skip_free h vs i =
     (if int i \<le> h then ebind (valid_at vs i) (\<lambda>valid. if valid then Inr i else skip_free h vs (Suc i))
      else Inr i)"
  by pat_completeness auto
termination
  by (relation "measure (\<lambda>(h, vs, i). nat (h + 1 - int i))") auto

declare doubled.simps [simp del] lower_highest.simps [simp del] skip_free.simps [simp del]

definition Sparse_begin :: "'v NetSparseList \<Rightarrow> nat result" where
  "Sparse_begin L = skip_free (m_HighestIndex L) (m_Values L) 0"

definition Sparse_end :: "'v NetSparseList \<Rightarrow> nat" where
  "Sparse_end L = nat (m_HighestIndex L + 1)"

definition itr_inc :: "'v NetSparseList \<Rightarrow> nat \<Rightarrow> nat result" where
  "itr_inc L i = skip_free (m_HighestIndex L) (m_Values L) (Suc i)"

definition itr_deref :: "'v NetSparseList \<Rightarrow> nat \<Rightarrow> (nat \<times> 'v) result" where
  "itr_deref L i = ebind (value_at (m_Values L) i) (\<lambda>v. Inr (i, v))"

text \<open>The loop of \<^verbatim>\<open>operator ==\<close>; an iterator behind \<^verbatim>\<open>end()\<close> does not occur.\<close>

lemma skip_free_ge: "skip_free h vs i = Inr j \<Longrightarrow> i \<le> j"
proof (induction h vs i rule: skip_free.induct)
  case (1 h vs i)
  note unfold = skip_free.simps [of h vs i]
  show ?case
  proof (cases "int i \<le> h")
    case True
    then obtain b where "valid_at vs i = Inr b" "if b then j = i else skip_free h vs (Suc i) = Inr j"
      using 1(2) True unfolding unfold by (cases "valid_at vs i") (auto split: if_splits)
    then show ?thesis using 1(1) [OF True, of False] by (cases b) auto
  next
    case False
    then show ?thesis using 1(2) unfolding unfold by simp
  qed
qed

function eq_loop ::
    "('v \<Rightarrow> 'v \<Rightarrow> bool) \<Rightarrow> 'v NetSparseList \<Rightarrow> 'v NetSparseList \<Rightarrow> nat \<Rightarrow> nat \<Rightarrow> bool result" where
  "eq_loop cmp L rhs itr1 itr2 =
     (if itr1 = Sparse_end L then Inr True
      else if Sparse_end L < itr1 then Inl Undefined
      else if itr1 = itr2 then
        ebind (itr_deref L itr1) (\<lambda>(_, v1). ebind (itr_deref rhs itr2) (\<lambda>(_, v2).
          if cmp v1 v2 then
            ebind (itr_inc L itr1) (\<lambda>itr1'. ebind (itr_inc rhs itr2) (\<lambda>itr2'. eq_loop cmp L rhs itr1' itr2'))
          else Inr False))
      else Inr False)"
  by pat_completeness auto
termination
proof (relation "measure (\<lambda>(cmp, L, rhs, itr1, itr2). Sparse_end L - itr1)", goal_cases)
  case (2 cmp L rhs itr1 itr2 _ _ _ _ _ _ itr1' itr2')
  then have "Suc itr1 \<le> itr1'" by (auto simp: itr_inc_def dest: skip_free_ge)
  with 2 show ?case by simp
qed simp

definition Sparse_eq :: "('v \<Rightarrow> 'v \<Rightarrow> bool) \<Rightarrow> 'v NetSparseList \<Rightarrow> 'v NetSparseList \<Rightarrow> bool result" where
  "Sparse_eq cmp L rhs =
     (if m_HighestIndex L \<noteq> m_HighestIndex rhs then Inr False
      else ebind (Sparse_begin L) (\<lambda>itr1. ebind (Sparse_begin rhs) (\<lambda>itr2. eq_loop cmp L rhs itr1 itr2)))"

section \<open>Assignment\<close>

text \<open>\<^verbatim>\<open>Copy\<close> after its first statement; \<open>rhs\<close> is read when its elements are copied.\<close>

definition Copy_from :: "(nat \<Rightarrow> bool) \<Rightarrow> 'v NetSparseList \<Rightarrow> 'v NetSparseList \<Rightarrow> 'v NetSparseList result" where
  "Copy_from mal rhs L =
     ebind (if conv I32 (int (m_Capacity L)) \<le> m_HighestIndex rhs
            then ebind (Allocate_slots mal (m_Capacity rhs)) (\<lambda>values.
              Inr (L\<lparr>m_Values := values, m_Capacity := m_Capacity rhs\<rparr>))
            else Inr L) (\<lambda>L.
      ebind (used_slots rhs) (\<lambda>used. ebind (copy_slots used) (\<lambda>copied.
        if length (m_Values L) < length copied then Inl Undefined
        else Inr (L\<lparr>m_Values := map (\<lambda>i. if i < length copied then copied ! i
                            else if int i < conv I32 (int (m_Capacity L)) then Free else m_Values L ! i)
                          [0..<length (m_Values L)],
                    m_HighestIndex := m_HighestIndex rhs\<rparr>))))"

definition Sparse_Copy :: "(nat \<Rightarrow> bool) \<Rightarrow> 'v NetSparseList \<Rightarrow> 'v NetSparseList \<Rightarrow> 'v NetSparseList result" where
  "Sparse_Copy mal rhs L = ebind (DestroyAllElements L) (Copy_from mal rhs)"

text \<open>The same call when \<^verbatim>\<open>rhs\<close> is the list itself.\<close>

definition Sparse_Copy_self :: "(nat \<Rightarrow> bool) \<Rightarrow> 'v NetSparseList \<Rightarrow> 'v NetSparseList result" where
  "Sparse_Copy_self mal L = ebind (DestroyAllElements L) (\<lambda>L. Copy_from mal L L)"

definition Sparse_Move :: "'v NetSparseList \<Rightarrow> 'v NetSparseList \<Rightarrow> ('v NetSparseList \<times> 'v NetSparseList) result" where
  "Sparse_Move rhs L = ebind (DestroyAllElements L) (\<lambda>_. Inr (rhs, NetSparseList_init))"

declare eq_loop.simps [simp del]

end
