(* ===== verification/SparseLaws.thy ===== *)
theory SparseLaws
  imports SparseList
begin

text \<open>
  What the sparse list promises. The abstraction \<open>contents\<close> maps an index to its element; \<open>good\<close>
  is the invariant of the array behind it. Every operation but \<^verbatim>\<open>Compress\<close> and self-assignment refines an
  operation on the map, or throws where \<^verbatim>\<open>malloc\<close> fails.
\<close>

section \<open>The invariant\<close>

text \<open>
  \<open>sparse f h c\<close> is the list of capacity \<open>c\<close> and highest index \<open>h\<close> that holds \<open>f\<close>: no raw and no
  destroyed slot. \<open>sparse_ok\<close> bounds it, \<open>top\<close> says that \<open>h\<close> is the highest index that is used.
\<close>

fun slot_of :: "'v option \<Rightarrow> 'v slot" where
  "slot_of None = Free"
| "slot_of (Some v) = Live v"

definition arr :: "(nat \<Rightarrow> 'v option) \<Rightarrow> nat \<Rightarrow> 'v slot list" where
  "arr f n = map (\<lambda>i. slot_of (f i)) [0..<n]"

definition sparse :: "(nat \<Rightarrow> 'v option) \<Rightarrow> int \<Rightarrow> nat \<Rightarrow> 'v NetSparseList" where
  "sparse f h c = \<lparr>m_HighestIndex = h, m_Capacity = c, m_Values = arr f c\<rparr>"

definition sparse_ok :: "(nat \<Rightarrow> 'v option) \<Rightarrow> int \<Rightarrow> nat \<Rightarrow> bool" where
  "sparse_ok f h c \<longleftrightarrow> - 1 \<le> h \<and> h < int c \<and> c < 2 ^ 31 \<and> (\<forall>i. h < int i \<longrightarrow> f i = None)"

definition top_used :: "(nat \<Rightarrow> 'v option) \<Rightarrow> int \<Rightarrow> bool" where
  "top_used f h \<longleftrightarrow> h = - 1 \<or> f (nat h) \<noteq> None"

fun slot_opt :: "'v slot \<Rightarrow> 'v option" where
  "slot_opt (Live v) = Some v"
| "slot_opt _ = None"

definition contents :: "'v NetSparseList \<Rightarrow> nat \<Rightarrow> 'v option" where
  "contents L i = (if i < length (m_Values L) then slot_opt (m_Values L ! i) else None)"

definition good :: "'v NetSparseList \<Rightarrow> bool" where
  "good L \<longleftrightarrow> L = sparse (contents L) (m_HighestIndex L) (m_Capacity L)
     \<and> sparse_ok (contents L) (m_HighestIndex L) (m_Capacity L) \<and> top_used (contents L) (m_HighestIndex L)"

lemma length_arr [simp]: "length (arr f n) = n"
  by (simp add: arr_def)

lemma nth_arr [simp]: "i < n \<Longrightarrow> arr f n ! i = slot_of (f i)"
  by (simp add: arr_def)

lemma take_arr [simp]: "take k (arr f n) = arr f (min k n)"
  by (rule nth_equalityI) auto

lemma arr_update: "(arr f n)[i := slot_of x] = arr (f(i := x)) n"
  by (rule nth_equalityI) (auto simp: nth_list_update)

lemma arr_set [simp]:
  "(arr f n)[i := Live v] = arr (f(i \<mapsto> v)) n" "(arr f n)[i := Free] = arr (f(i := None)) n"
  using arr_update [of f n i "Some v"] arr_update [of f n i None] by simp_all

lemma slot_of_simps [simp]:
  "slot_valid (slot_of x) = Inr (x \<noteq> None)"
  "slot_value (slot_of x) = (case x of None \<Rightarrow> Inl Undefined | Some v \<Rightarrow> Inr v)"
  "slot_opt (slot_of x) = x"
  "slot_of x = Free \<longleftrightarrow> x = None"
  by (cases x; simp)+

lemma valid_at_arr: "valid_at (arr f n) i = (if i < n then Inr (f i \<noteq> None) else Inl Undefined)"
  by (simp add: valid_at_def slot_at_def)

lemma value_at_arr:
  "value_at (arr f n) i = (if i < n \<and> f i \<noteq> None then Inr (the (f i)) else Inl Undefined)"
  by (auto simp: value_at_def slot_at_def split: option.splits)

lemma copy_slots_map: "copy_slots (map (\<lambda>i. slot_of (f i)) is) = Inr (map (\<lambda>i. slot_of (f i)) is)"
proof (induction "is")
  case (Cons i "is")
  then show ?case by (cases "f i") auto
qed simp

lemma destroy_slots_map:
  "destroy_slots dead (map (\<lambda>i. slot_of (f i)) is) = Inr (map (\<lambda>i. if f i = None then Free else dead) is)"
proof (induction "is")
  case (Cons i "is")
  then show ?case by (cases "f i") auto
qed simp

lemma find_free_map:
  "(\<exists>i. a \<le> i \<and> i < b \<and> f i = None \<and> (\<forall>j. a \<le> j \<and> j < i \<longrightarrow> f j \<noteq> None)
      \<and> find_free a (map (\<lambda>i. slot_of (f i)) [a..<b]) = Inr (Some i))
   \<or> (\<forall>j. a \<le> j \<and> j < b \<longrightarrow> f j \<noteq> None) \<and> find_free a (map (\<lambda>i. slot_of (f i)) [a..<b]) = Inr None"
proof (induction "b - a" arbitrary: a)
  case (Suc n)
  then have ab: "[a..<b] = a # [Suc a..<b]" "a < b" by (simp_all add: upt_conv_Cons)
  show ?case
  proof (cases "f a")
    case None
    with ab show ?thesis by (intro disjI1 exI [of _ a]) auto
  next
    case (Some v)
    have e: "find_free a (map (\<lambda>i. slot_of (f i)) [a..<b])
        = find_free (Suc a) (map (\<lambda>i. slot_of (f i)) [Suc a..<b])"
      using Some by (simp add: ab(1))
    have n: "n = b - Suc a" using Suc(2) by simp
    have le: "Suc a \<le> j" if "a \<le> j" "f j = None" for j
      using that Some by (cases "j = a") auto
    show ?thesis
      using Suc(1) [OF n] Some unfolding e by (metis Suc_leD le_eq_less_or_eq Suc_le_eq option.distinct(1))
  qed
qed auto

lemma count_valid_map: "count_valid (map (\<lambda>i. slot_of (f i)) is) = Inr (length (filter (\<lambda>i. f i \<noteq> None) is))"
  by (induction "is") auto

lemma contents_sparse:
  "contents (sparse f h c) = (\<lambda>i. if i < c then f i else None)"
  by (auto simp: contents_def sparse_def)

lemma sparse_sel [simp]:
  "m_HighestIndex (sparse f h c) = h" "m_Capacity (sparse f h c) = c" "m_Values (sparse f h c) = arr f c"
  by (simp_all add: sparse_def)

lemma sparse_upd [simp]:
  "(sparse f h c)\<lparr>m_HighestIndex := h'\<rparr> = sparse f h' c"
  "(sparse f h c)\<lparr>m_Values := arr g n, m_Capacity := n\<rparr> = sparse g h n"
  "(sparse f h c)\<lparr>m_Values := arr g c\<rparr> = sparse g h c"
  by (simp_all add: sparse_def)

lemma sparse_ok_contents: "sparse_ok f h c \<Longrightarrow> contents (sparse f h c) = f"
  by (auto simp: contents_sparse sparse_ok_def fun_eq_iff)

lemma good_sparse: "good (sparse f h c) \<longleftrightarrow> sparse_ok (contents (sparse f h c)) h c \<and> top_used (contents (sparse f h c)) h"
proof -
  have "arr (contents (sparse f h c)) c = arr f c" by (rule nth_equalityI) (simp_all add: contents_sparse)
  then have "sparse f h c = sparse (contents (sparse f h c)) h c" by (simp add: sparse_def)
  then show ?thesis by (simp only: good_def sparse_sel simp_thms)
qed

lemma good_sparseI: "sparse_ok f h c \<Longrightarrow> top_used f h \<Longrightarrow> good (sparse f h c)"
  by (simp only: good_sparse sparse_ok_contents)

lemma goodE:
  assumes "good L"
  obtains f h c where "L = sparse f h c" "sparse_ok f h c" "top_used f h" "contents L = f"
  using assms unfolding good_def by blast

lemma good_init: "good NetSparseList_init"
proof -
  have e: "NetSparseList_init = sparse (\<lambda>_. None) (- 1) 0" by (simp add: NetSparseList_init_def sparse_def arr_def)
  show ?thesis unfolding e by (rule good_sparseI) (simp_all add: sparse_ok_def top_used_def)
qed

lemma good_literal:
  "good \<lparr>m_HighestIndex = h, m_Capacity = c, m_Values = vs\<rparr> \<longleftrightarrow> length vs = c \<and> c < 2 ^ 31
    \<and> - 1 \<le> h \<and> h < int c \<and> (\<forall>s\<in>set vs. s \<noteq> Raw \<and> s \<noteq> Gone)
    \<and> (\<forall>s\<in>set (drop (nat (h + 1)) vs). s = Free) \<and> (h = - 1 \<or> vs ! nat h \<noteq> Free)"
proof -
  let ?L = "\<lparr>m_HighestIndex = h, m_Capacity = c, m_Values = vs\<rparr>"
  have so: "slot_of (slot_opt s) = s \<longleftrightarrow> s \<noteq> Raw \<and> s \<noteq> Gone" "slot_opt s = None \<longleftrightarrow> s = Free \<or> s = Raw \<or> s = Gone" for s :: "'a slot"
    by (cases s; simp)+
  have c: "contents ?L i = slot_opt (vs ! i)" if "i < length vs" for i using that by (simp add: contents_def)
  have "vs = arr (contents ?L) c \<longleftrightarrow> length vs = c \<and> (\<forall>i<length vs. slot_of (slot_opt (vs ! i)) = vs ! i)"
    unfolding list_eq_iff_nth_eq using c by auto
  then have 1: "?L = sparse (contents ?L) h c \<longleftrightarrow> length vs = c \<and> (\<forall>s\<in>set vs. s \<noteq> Raw \<and> s \<noteq> Gone)"
    unfolding sparse_def all_set_conv_all_nth so by simp
  have 2: "(\<forall>i. h < int i \<longrightarrow> contents ?L i = None) \<longleftrightarrow> (\<forall>s\<in>set (drop (nat (h + 1)) vs). s = Free)"
    if "\<forall>s\<in>set vs. s \<noteq> Raw \<and> s \<noteq> Gone" "- 1 \<le> h"
  proof -
    have "(\<forall>i. h < int i \<longrightarrow> contents ?L i = None) \<longleftrightarrow> (\<forall>i. h < int i \<and> i < length vs \<longrightarrow> vs ! i = Free)"
      using that(1) by (auto simp: contents_def so)
    also have "\<dots> \<longleftrightarrow> (\<forall>j < length vs - nat (h + 1). vs ! (nat (h + 1) + j) = Free)"
    proof safe
      fix i assume a: "\<forall>j < length vs - nat (h + 1). vs ! (nat (h + 1) + j) = Free" "h < int i" "i < length vs"
      then have "nat (h + 1) \<le> i" by simp
      then show "vs ! i = Free" using a(1) [rule_format, of "i - nat (h + 1)"] a(3) by simp
    next
      fix j assume a: "\<forall>i. h < int i \<and> i < length vs \<longrightarrow> vs ! i = Free" "j < length vs - nat (h + 1)"
      then show "vs ! (nat (h + 1) + j) = Free"
        using a(1) [rule_format, of "nat (h + 1) + j"] that(2) by simp
    qed
    finally show ?thesis by (simp add: all_set_conv_all_nth)
  qed
  have 3: "contents ?L (nat h) \<noteq> None \<longleftrightarrow> vs ! nat h \<noteq> Free"
    if "\<forall>s\<in>set vs. s \<noteq> Raw \<and> s \<noteq> Gone" "h < int (length vs)" "- 1 \<le> h" "h \<noteq> - 1"
  proof -
    have "nat h < length vs" using that(2-4) by linarith
    moreover from this have "slot_opt (vs ! nat h) = None \<longleftrightarrow> vs ! nat h = Free"
      using that(1) so(2) [of "vs ! nat h"] nth_mem by blast
    ultimately show ?thesis unfolding c [OF \<open>nat h < length vs\<close>] by (simp only: simp_thms)
  qed
  show ?thesis
  proof (cases "length vs = c \<and> (\<forall>s\<in>set vs. s \<noteq> Raw \<and> s \<noteq> Gone) \<and> - 1 \<le> h \<and> h < int c")
    case True
    then have "?L = sparse (contents ?L) h c" using 1 by blast
    then have "good ?L \<longleftrightarrow> sparse_ok (contents ?L) h c \<and> top_used (contents ?L) h"
      by (simp only: good_def NetSparseList.select_convs simp_thms)
    then show ?thesis using True 2 3 by (auto simp: sparse_ok_def top_used_def)
  next
    case False
    then have "\<not> good ?L" using 1 by (auto simp: good_def sparse_ok_def)
    then show ?thesis using False by blast
  qed
qed

lemma conv_I32: "n < 2 ^ 31 \<Longrightarrow> conv I32 (int n) = int n"
  by (rule conv_id) (auto simp: in_ctype_def ctype_min_def ctype_max_def)

lemma used_slots_sparse:
  "sparse_ok f h c \<Longrightarrow> used_slots (sparse f h c) = Inr (arr f (nat (h + 1)))"
  by (auto simp: used_slots_def sparse_ok_def min_def)

section \<open>Allocation\<close>

text \<open>A \<^verbatim>\<open>malloc\<close> that serves every request. With any other one an operation either does the same or throws
  \<^verbatim>\<open>std::bad_alloc\<close>.\<close>

definition always :: "nat \<Rightarrow> bool" where
  "always n = True"

definition unless_alloc :: "(nat \<Rightarrow> bool) \<Rightarrow> 'a result \<Rightarrow> 'a result \<Rightarrow> bool" where
  "unless_alloc mal x y \<longleftrightarrow> x = y \<or> x = Inl BadAlloc \<and> (\<exists>n. \<not> mal n)"

named_theorems alloc_rules

lemma unless_alloc_refl [simp, alloc_rules]: "unless_alloc mal x x"
  by (simp add: unless_alloc_def)

lemma unless_alloc_bind [alloc_rules]:
  assumes "unless_alloc mal x y" "\<And>a. y = Inr a \<Longrightarrow> unless_alloc mal (f a) (g a)"
  shows "unless_alloc mal (ebind x f) (ebind y g)"
  using assms by (cases y) (auto simp: unless_alloc_def)

lemma unless_alloc_if [alloc_rules]:
  "(b \<Longrightarrow> unless_alloc mal x y) \<Longrightarrow> (\<not> b \<Longrightarrow> unless_alloc mal x' y') \<Longrightarrow>
    unless_alloc mal (if b then x else x') (if b then y else y')"
  by simp

lemma unless_alloc_option [alloc_rules]:
  "(\<And>a. opt = Some a \<Longrightarrow> unless_alloc mal (f a) (g a)) \<Longrightarrow> (opt = None \<Longrightarrow> unless_alloc mal x y) \<Longrightarrow>
    unless_alloc mal (case opt of None \<Rightarrow> x | Some a \<Rightarrow> f a) (case opt of None \<Rightarrow> y | Some a \<Rightarrow> g a)"
  by (simp split: option.split)

lemma unless_alloc_pair [alloc_rules]:
  "(\<And>a b. p = (a, b) \<Longrightarrow> unless_alloc mal (f a b) (g a b)) \<Longrightarrow>
    unless_alloc mal (case p of (a, b) \<Rightarrow> f a b) (case p of (a, b) \<Rightarrow> g a b)"
  by (simp split: prod.split)

lemma Allocate_always [simp]: "Allocate_slots always n = Inr (replicate n Raw)"
  by (simp add: Allocate_slots_def always_def)

lemma Allocate_alloc [alloc_rules]: "unless_alloc mal (Allocate_slots mal n) (Allocate_slots always n)"
  by (auto simp: unless_alloc_def Allocate_slots_def always_def)

lemma Grow_alloc [alloc_rules]: "unless_alloc mal (Grow mal n L) (Grow always n L)"
  unfolding Grow_def by (intro alloc_rules)

lemma Grow_default_alloc [alloc_rules]: "unless_alloc mal (Grow_default mal L) (Grow_default always L)"
  unfolding Grow_default_def by (intro alloc_rules)

lemma GrowToFit_alloc [alloc_rules]: "unless_alloc mal (GrowToFit mal i L) (GrowToFit always i L)"
  unfolding GrowToFit_def by (intro alloc_rules)

lemma Reserve_alloc [alloc_rules]: "unless_alloc mal (Reserve_slots mal n L) (Reserve_slots always n L)"
  unfolding Reserve_slots_def by (intro alloc_rules)

lemma push_alloc [alloc_rules]:
  "unless_alloc mal (Sparse_PushBack mal v L) (Sparse_PushBack always v L)"
  "unless_alloc mal (Sparse_EmplaceBack mal v L) (Sparse_EmplaceBack always v L)"
  unfolding Sparse_PushBack_def Sparse_EmplaceBack_def by (intro alloc_rules)+

lemma insert_alloc [alloc_rules]:
  "unless_alloc mal (Sparse_InsertAt mal i v L) (Sparse_InsertAt always i v L)"
  "unless_alloc mal (Sparse_EmplaceAt mal i v L) (Sparse_EmplaceAt always i v L)"
  unfolding Sparse_InsertAt_def Sparse_EmplaceAt_def by (intro alloc_rules)+

lemma Emplace_alloc [alloc_rules]: "unless_alloc mal (Sparse_Emplace mal v L) (Sparse_Emplace always v L)"
  unfolding Sparse_Emplace_def by (intro alloc_rules)

lemma Copy_from_alloc [alloc_rules]: "unless_alloc mal (Copy_from mal rhs L) (Copy_from always rhs L)"
  unfolding Copy_from_def Let_def by (intro alloc_rules)

lemma Copy_alloc [alloc_rules]: "unless_alloc mal (Sparse_Copy mal rhs L) (Sparse_Copy always rhs L)"
  unfolding Sparse_Copy_def by (intro alloc_rules)

text \<open>How a fact about the one gives a fact about the other.\<close>

lemma unless_allocE:
  assumes "unless_alloc mal x y" "\<exists>z. y = Inr z \<and> P z"
  shows "x = Inl BadAlloc \<and> (\<exists>n. \<not> mal n) \<or> (\<exists>z. x = Inr z \<and> P z)"
  using assms by (auto simp: unless_alloc_def)

lemma unless_allocE2:
  assumes "unless_alloc mal x y" "\<exists>a b. y = Inr (a, b) \<and> P a b"
  shows "x = Inl BadAlloc \<and> (\<exists>n. \<not> mal n) \<or> (\<exists>a b. x = Inr (a, b) \<and> P a b)"
  using assms by (auto simp: unless_alloc_def)

lemma unless_alloc_always [simp]: "unless_alloc always x y \<longleftrightarrow> x = y"
  by (auto simp: unless_alloc_def always_def)

section \<open>Operations on the represented lists\<close>

lemma Grow_sparse:
  assumes "sparse_ok f h c" "c \<le> n" "n < 2 ^ 31"
  shows "Grow always n (sparse f h c) = Inr (sparse f h n)"
proof -
  have m: "(if 0 < c then ebind (used_slots (sparse f h c)) copy_slots else Inr [])
      = Inr (arr f (nat (h + 1)))"
    using assms(1) by (auto simp: used_slots_sparse arr_def copy_slots_map sparse_ok_def)
  have "map (\<lambda>i. if i < nat (h + 1) then arr f (nat (h + 1)) ! i
      else if h + 1 \<le> int i \<and> int i < conv I32 (int n) then Free else replicate n Raw ! i) [0..<n] = arr f n"
    using assms by (auto simp: arr_def conv_I32 sparse_ok_def not_less intro!: map_cong)
  moreover have "nat (h + 1) \<le> n" using assms by (auto simp: sparse_ok_def)
  ultimately show ?thesis unfolding Grow_def sparse_sel m ebind_Inr by (simp add: not_less)
qed

lemma sparse_ok_grow: "sparse_ok f h c \<Longrightarrow> c \<le> n \<Longrightarrow> n < 2 ^ 31 \<Longrightarrow> sparse_ok f h n"
  by (auto simp: sparse_ok_def)

lemma doubled_bounds: "0 < c \<Longrightarrow> c \<le> i \<Longrightarrow> i < doubled c i \<and> doubled c i \<le> 2 * i"
proof (induction c i rule: doubled.induct)
  case (1 c i)
  then show ?case by (subst (1 2) doubled.simps) auto
qed

text \<open>The capacity after \<^verbatim>\<open>GrowToFit\<close>.\<close>

definition fitting :: "nat \<Rightarrow> nat \<Rightarrow> nat" where
  "fitting i c = (if c \<le> i then if c = 0 then i + 1 else doubled c i else c)"

lemma fitting: "i < fitting i c" "c \<le> fitting i c" "i < 2 ^ 30 \<Longrightarrow> c < 2 ^ 31 \<Longrightarrow> fitting i c < 2 ^ 31"
  using doubled_bounds [of c i] by (auto simp: fitting_def)

lemma GrowToFit_sparse:
  assumes "sparse_ok f h c" "i < 2 ^ 30"
  shows "GrowToFit always i (sparse f h c) = Inr (sparse f h (fitting i c))" "sparse_ok f h (fitting i c)"
proof -
  have c: "c < 2 ^ 31" using assms by (simp add: sparse_ok_def)
  note b = fitting(2) [of c i] fitting(3) [OF assms(2) c]
  show "sparse_ok f h (fitting i c)" using sparse_ok_grow [OF assms(1) b] .
  show "GrowToFit always i (sparse f h c) = Inr (sparse f h (fitting i c))"
    using Grow_sparse [OF assms(1) b] by (auto simp: GrowToFit_def fitting_def)
qed

lemma set_slot_sparse:
  "i < c \<Longrightarrow> set_slot i (Live v) (sparse f h c) = Inr (sparse (f(i \<mapsto> v)) h c)"
  "i < c \<Longrightarrow> set_slot i Free (sparse f h c) = Inr (sparse (f(i := None)) h c)"
  by (simp_all add: set_slot_def sparse_def)

lemma InsertAt_sparse:
  assumes "sparse_ok f h c" "i < 2 ^ 30"
  shows "Sparse_InsertAt always i v (sparse f h c) = Inr (sparse (f(i \<mapsto> v)) (max h (int i)) (fitting i c))"
    and "Sparse_EmplaceAt always i v (sparse f h c) = Inr (sparse (f(i \<mapsto> v)) (max h (int i)) (fitting i c))"
    and "sparse_ok (f(i \<mapsto> v)) (max h (int i)) (fitting i c)"
proof -
  have i: "conv I32 (int i) = int i" using assms(2) by (intro conv_I32) simp
  have r: "raise_highest i (sparse f h (fitting i c)) = sparse f (max h (int i)) (fitting i c)"
    using assms(1) i by (auto simp: raise_highest_def sparse_def max_def sparse_ok_def)
  show "Sparse_InsertAt always i v (sparse f h c) = Inr (sparse (f(i \<mapsto> v)) (max h (int i)) (fitting i c))"
    "Sparse_EmplaceAt always i v (sparse f h c) = Inr (sparse (f(i \<mapsto> v)) (max h (int i)) (fitting i c))"
    using GrowToFit_sparse [OF assms] fitting(1) [of i c]
    by (auto simp: Sparse_InsertAt_def Sparse_EmplaceAt_def r Let_def valid_at_arr value_at_arr set_slot_sparse)
  show "sparse_ok (f(i \<mapsto> v)) (max h (int i)) (fitting i c)"
    using GrowToFit_sparse(2) [OF assms] fitting(1) [of i c] by (auto simp: sparse_ok_def)
qed

lemma PushBack_sparse:
  assumes "sparse_ok f h c" "c < 2 ^ 30"
  defines "c' \<equiv> (if h + 1 = int c then if c = 0 then 1 else c * 2 else c)"
  shows "Sparse_PushBack always v (sparse f h c) = Inr (sparse (f(nat (h + 1) \<mapsto> v)) (h + 1) c')"
    and "Sparse_EmplaceBack always v (sparse f h c) = Inr (sparse (f(nat (h + 1) \<mapsto> v)) (h + 1) c')"
    and "sparse_ok (f(nat (h + 1) \<mapsto> v)) (h + 1) c'"
proof -
  have c': "c \<le> c'" "c' < 2 ^ 31" using assms by auto
  have lt: "h + 1 < int c'" "0 \<le> h + 1" using assms by (auto simp: sparse_ok_def)
  have g: "(if h + 1 = int c then Grow_default always (sparse f h c) else Inr (sparse f h c)) = Inr (sparse f h c')"
    using Grow_sparse [OF assms(1) c'] by (auto simp: c'_def Grow_default_def)
  show "Sparse_PushBack always v (sparse f h c) = Inr (sparse (f(nat (h + 1) \<mapsto> v)) (h + 1) c')"
    "Sparse_EmplaceBack always v (sparse f h c) = Inr (sparse (f(nat (h + 1) \<mapsto> v)) (h + 1) c')"
    using g lt by (simp_all add: Sparse_PushBack_def Sparse_EmplaceBack_def set_slot_sparse nat_less_iff)
  show "sparse_ok (f(nat (h + 1) \<mapsto> v)) (h + 1) c'"
    using lt c' assms(1) by (auto simp: sparse_ok_def)
qed

lemma lower_highest_arr:
  assumes "- 1 \<le> h" "h < int c" "\<forall>i. h < int i \<longrightarrow> f i = None"
  shows "\<exists>h'. lower_highest (arr f c) h = Inr h' \<and> - 1 \<le> h' \<and> h' \<le> h \<and> top_used f h'
    \<and> (\<forall>i. h' < int i \<longrightarrow> f i = None)"
  using assms
proof (induction "nat (h + 1)" arbitrary: h)
  case 0
  then show ?case by (subst lower_highest.simps) (simp add: top_used_def)
next
  case (Suc n)
  then have h: "0 \<le> h" by simp
  show ?case
  proof (cases "f (nat h)")
    case None
    then have "\<forall>i. h - 1 < int i \<longrightarrow> f i = None"
      using Suc.prems(3) h by (metis int_ops(6) nat_int order_le_less zle_diff1_eq zless_imp_add1_zle diff_add_cancel)
    then obtain h' where "lower_highest (arr f c) (h - 1) = Inr h'" "- 1 \<le> h'" "h' \<le> h - 1" "top_used f h'"
        "\<forall>i. h' < int i \<longrightarrow> f i = None"
      using Suc.hyps(1) [of "h - 1"] Suc.hyps(2) Suc.prems(2) h by fastforce
    then show ?thesis
      using None h Suc.prems(2) by (subst lower_highest.simps) (auto simp: valid_at_arr nat_less_iff)
  next
    case (Some v)
    then show ?thesis
      using h Suc.prems by (subst lower_highest.simps) (auto simp: valid_at_arr nat_less_iff top_used_def)
  qed
qed

lemma RemoveAt_sparse:
  assumes "sparse_ok f h c" "top_used f h"
  shows "\<exists>h'. Sparse_RemoveAt i (sparse f h c) = Inr (sparse (f(i := None)) h' c)
    \<and> sparse_ok (f(i := None)) h' c \<and> top_used (f(i := None)) h' \<and> h' \<le> h"
proof (cases "i < c \<and> f i \<noteq> None")
  case True
  have "- 1 \<le> h" "h < int c" "\<forall>j. h < int j \<longrightarrow> (f(i := None)) j = None"
    using assms(1) by (auto simp: sparse_ok_def)
  from lower_highest_arr [OF this] obtain h' where
      "lower_highest (arr (f(i := None)) c) h = Inr h'" "- 1 \<le> h'" "h' \<le> h" "top_used (f(i := None)) h'"
      "\<forall>j. h' < int j \<longrightarrow> (f(i := None)) j = None" by blast
  then show ?thesis
    using True assms(1) by (intro exI [of _ h']) (auto simp: Sparse_RemoveAt_def valid_at_arr value_at_arr set_slot_sparse sparse_ok_def)
next
  case False
  then have "f(i := None) = f"
    using assms(1) by (auto simp: sparse_ok_def fun_eq_iff)
  moreover have "Sparse_RemoveAt i (sparse f h c) = Inr (sparse f h c)"
    using False by (auto simp: Sparse_RemoveAt_def valid_at_arr)
  ultimately show ?thesis using assms by auto
qed


lemma Emplace_sparse:
  assumes "sparse_ok f h c" "top_used f h" "c < 2 ^ 30"
  shows "\<exists>k h' c'. Sparse_Emplace always v (sparse f h c) = Inr (k, sparse (f(k \<mapsto> v)) h' c')
    \<and> sparse_ok (f(k \<mapsto> v)) h' c' \<and> top_used (f(k \<mapsto> v)) h' \<and> f k = None \<and> (\<forall>j<k. f j \<noteq> None)"
proof -
  consider (found) i where "i < c" "f i = None" "\<forall>j<i. f j \<noteq> None" "find_free 0 (arr f c) = Inr (Some i)"
    | (full) "\<forall>j<c. f j \<noteq> None" "find_free 0 (arr f c) = Inr None"
    using find_free_map [of 0 c f] by (auto simp: arr_def)
  then show ?thesis
  proof cases
    case found
    then have "i < 2 ^ 30" using assms(3) by simp
    note ins = InsertAt_sparse(2,3) [OF assms(1) this, of v]
    have "top_used (f(i \<mapsto> v)) (max h (int i))"
      using assms(1,2) by (auto simp: top_used_def max_def sparse_ok_def)
    with found ins show ?thesis by (auto simp: Sparse_Emplace_def)
  next
    case full
    note push = PushBack_sparse(2,3) [OF assms(1,3), of v]
    have k: "nat (h + 1) \<le> c" "f (nat (h + 1)) = None" "0 \<le> h + 1"
      using assms(1) by (auto simp: sparse_ok_def)
    moreover have "\<forall>j<nat (h + 1). f j \<noteq> None" using full(1) k(1) by auto
    moreover have "top_used (f(nat (h + 1) \<mapsto> v)) (h + 1)" by (simp add: top_used_def)
    moreover have "Sparse_Emplace always v (sparse f h c) = Inr (nat (h + 1),
        sparse (f(nat (h + 1) \<mapsto> v)) (h + 1) (if h + 1 = int c then if c = 0 then 1 else c * 2 else c))"
      using full(2) push(1) by (simp add: Sparse_Emplace_def)
    ultimately show ?thesis using push(2) by blast
  qed
qed

lemma DestroyAll_sparse:
  assumes "sparse_ok f h c"
  shows "DestroyAllElements (sparse f h c) = Inr \<lparr>m_HighestIndex = h, m_Capacity = c,
      m_Values = map (\<lambda>i. if f i = None then Free else Gone) [0..<c]\<rparr>"
    and "DestroyAllElementsAndInvalidate (sparse f h c) = Inr (sparse (\<lambda>_. None) h c)"
proof -
  let ?n = "nat (h + 1)"
  have n: "?n \<le> c" "\<And>i. ?n \<le> i \<Longrightarrow> f i = None" using assms by (auto simp: sparse_ok_def)
  have m: "destroy_slots d (arr f ?n) = Inr (map (\<lambda>i. if f i = None then Free else d) [0..<?n])" for d
    unfolding arr_def by (rule destroy_slots_map)
  have "map (\<lambda>i. if f i = None then Free else d) [0..<?n] @ drop ?n (arr f c)
      = map (\<lambda>i. if f i = None then Free else d) [0..<c]" for d
    using n by (intro nth_equalityI) (auto simp: nth_append not_less)
  note e = m this
  show "DestroyAllElements (sparse f h c) = Inr \<lparr>m_HighestIndex = h, m_Capacity = c,
      m_Values = map (\<lambda>i. if f i = None then Free else Gone) [0..<c]\<rparr>"
    using e by (simp add: DestroyAllElements_def used_slots_sparse [OF assms])
  show "DestroyAllElementsAndInvalidate (sparse f h c) = Inr (sparse (\<lambda>_. None) h c)"
    using e [where d = Free]
    by (simp add: DestroyAllElementsAndInvalidate_def used_slots_sparse [OF assms]) (simp add: sparse_def arr_def)
qed

lemma Clear_sparse:
  "sparse_ok f h c \<Longrightarrow> Sparse_Clear (sparse f h c) = Inr (sparse (\<lambda>_. None) (- 1) c)"
  by (simp add: Sparse_Clear_def DestroyAll_sparse)

section \<open>The refinement\<close>

datatype 'v sparse_op = SReserve nat | SClear | SEmplace 'v | SPushBack 'v | SEmplaceBack 'v
  | SInsertAt nat 'v | SEmplaceAt nat 'v | SRemoveAt nat | SAssign "'v NetSparseList"

fun sparse_step :: "(nat \<Rightarrow> bool) \<Rightarrow> 'v sparse_op \<Rightarrow> 'v NetSparseList \<Rightarrow> 'v NetSparseList result" where
  "sparse_step mal (SReserve n) L = Reserve_slots mal n L"
| "sparse_step mal SClear L = Sparse_Clear L"
| "sparse_step mal (SEmplace v) L = ebind (Sparse_Emplace mal v L) (\<lambda>(_, L). Inr L)"
| "sparse_step mal (SPushBack v) L = Sparse_PushBack mal v L"
| "sparse_step mal (SEmplaceBack v) L = Sparse_EmplaceBack mal v L"
| "sparse_step mal (SInsertAt i v) L = Sparse_InsertAt mal i v L"
| "sparse_step mal (SEmplaceAt i v) L = Sparse_EmplaceAt mal i v L"
| "sparse_step mal (SRemoveAt i) L = Sparse_RemoveAt i L"
| "sparse_step mal (SAssign rhs) L = Sparse_Copy mal rhs L"

text \<open>The specification works on the map from indices to elements alone.\<close>

definition first_free :: "(nat \<Rightarrow> 'v option) \<Rightarrow> nat" where
  "first_free f = (LEAST k. f k = None)"

definition past_last :: "(nat \<Rightarrow> 'v option) \<Rightarrow> nat" where
  "past_last f = (LEAST k. \<forall>j\<ge>k. f j = None)"

fun sparse_spec :: "'v sparse_op \<Rightarrow> (nat \<Rightarrow> 'v option) \<Rightarrow> nat \<Rightarrow> 'v option" where
  "sparse_spec (SReserve n) f = f"
| "sparse_spec SClear f = (\<lambda>_. None)"
| "sparse_spec (SEmplace v) f = f(first_free f \<mapsto> v)"
| "sparse_spec (SPushBack v) f = f(past_last f \<mapsto> v)"
| "sparse_spec (SEmplaceBack v) f = f(past_last f \<mapsto> v)"
| "sparse_spec (SInsertAt i v) f = f(i \<mapsto> v)"
| "sparse_spec (SEmplaceAt i v) f = f(i \<mapsto> v)"
| "sparse_spec (SRemoveAt i) f = f(i := None)"
| "sparse_spec (SAssign rhs) f = contents rhs"

text \<open>\<^verbatim>\<open>int\<close> indices and capacities do not overflow; a list assigned is another one that is in order.\<close>

fun has_room :: "'v sparse_op \<Rightarrow> 'v NetSparseList \<Rightarrow> bool" where
  "has_room (SReserve n) L = (n < 2 ^ 31)"
| "has_room (SInsertAt i v) L = (i < 2 ^ 30)"
| "has_room (SEmplaceAt i v) L = (i < 2 ^ 30)"
| "has_room (SRemoveAt i) L = True"
| "has_room (SAssign rhs) L = good rhs"
| "has_room op L = (m_Capacity L < 2 ^ 30)"

lemma past_last:
  assumes "sparse_ok f h c" "top_used f h"
  shows "past_last f = nat (h + 1)"
  unfolding past_last_def
proof (rule Least_equality)
  show "\<forall>j\<ge>nat (h + 1). f j = None" using assms(1) by (auto simp: sparse_ok_def)
  show "nat (h + 1) \<le> k" if "\<forall>j\<ge>k. f j = None" for k
  proof (cases "h = - 1")
    case False
    then have "\<not> k \<le> nat h" using that assms(2) by (auto simp: top_used_def)
    then show ?thesis by linarith
  qed simp
qed

lemma first_free: "f k = None \<Longrightarrow> \<forall>j<k. f j \<noteq> None \<Longrightarrow> first_free f = k"
  unfolding first_free_def by (rule Least_equality) (auto simp: not_less [symmetric])

lemma refineI:
  assumes "x = Inr (sparse f h c)" "sparse_ok f h c" "top_used f h" "f = s"
  shows "\<exists>L'. x = Inr L' \<and> good L' \<and> contents L' = s"
  using assms good_sparseI sparse_ok_contents by blast

text \<open>The operations that are not one fact already, case by case.\<close>

lemma step_reserve:
  assumes "sparse_ok g h c" "n < 2 ^ 31"
  shows "sparse_step always (SReserve n) (sparse g h c) = Inr (sparse g h (max c n))" "sparse_ok g h (max c n)"
  using Grow_sparse [OF assms(1)] sparse_ok_grow [OF assms(1), of n] assms
  by (auto simp: Reserve_slots_def max_def)

lemma refine_push:
  assumes ok: "sparse_ok g h c" "top_used g h" and c: "c < 2 ^ 30"
    and r: "x = Inr (sparse (g(nat (h + 1) \<mapsto> v)) (h + 1) (if h + 1 = int c then if c = 0 then 1 else c * 2 else c))"
  shows "\<exists>L'. x = Inr L' \<and> good L' \<and> contents L' = g(past_last g \<mapsto> v)"
  using r PushBack_sparse(3) [OF ok(1) c]
  by (rule refineI) (use ok(1) in \<open>simp_all add: past_last [OF ok] top_used_def sparse_ok_def\<close>)

lemma refine_insert:
  assumes ok: "sparse_ok g h c" "top_used g h" and i: "i < 2 ^ 30"
    and r: "x = Inr (sparse (g(i \<mapsto> v)) (max h (int i)) (fitting i c))"
  shows "\<exists>L'. x = Inr L' \<and> good L' \<and> contents L' = g(i \<mapsto> v)"
proof -
  have "top_used (g(i \<mapsto> v)) (max h (int i))" using ok by (auto simp: top_used_def max_def sparse_ok_def)
  then show ?thesis using refineI [OF r InsertAt_sparse(3) [OF ok(1) i]] by simp
qed

lemma refine_emplace:
  assumes ok: "sparse_ok g h c" "top_used g h" and c: "c < 2 ^ 30"
  shows "\<exists>L'. sparse_step always (SEmplace v) (sparse g h c) = Inr L' \<and> good L' \<and> contents L' = g(first_free g \<mapsto> v)"
proof -
  obtain k h' c' where k: "Sparse_Emplace always v (sparse g h c) = Inr (k, sparse (g(k \<mapsto> v)) h' c')"
      "sparse_ok (g(k \<mapsto> v)) h' c'" "top_used (g(k \<mapsto> v)) h'" "g k = None" "\<forall>j<k. g j \<noteq> None"
    using Emplace_sparse [OF ok c, of v] by blast
  have "sparse_step always (SEmplace v) (sparse g h c) = Inr (sparse (g(k \<mapsto> v)) h' c')" using k(1) by simp
  then show ?thesis using k(2,3) by (rule refineI) (simp add: first_free [OF k(4,5)])
qed

lemma refine_remove:
  assumes ok: "sparse_ok g h c" "top_used g h"
  shows "\<exists>L'. Sparse_RemoveAt i (sparse g h c) = Inr L' \<and> good L' \<and> contents L' = g(i := None)"
proof -
  obtain h' where "Sparse_RemoveAt i (sparse g h c) = Inr (sparse (g(i := None)) h' c)"
      "sparse_ok (g(i := None)) h' c" "top_used (g(i := None)) h'"
    using RemoveAt_sparse [OF ok, of i] by blast
  then show ?thesis by (rule refineI) simp
qed

lemma refine_clear:
  assumes "sparse_ok g h c"
  shows "\<exists>L'. Sparse_Clear (sparse g h c) = Inr L' \<and> good L' \<and> contents L' = (\<lambda>_. None)"
  by (rule refineI [OF Clear_sparse [OF assms]]) (use assms in \<open>simp_all add: sparse_ok_def top_used_def\<close>)

section \<open>Reading\<close>

lemma read_sparse:
  assumes "sparse_ok f h c"
  shows "HasAt i (sparse f h c) = Inr (f i \<noteq> None)"
    and "Sparse_index i (sparse f h c) = (case f i of None \<Rightarrow> Inl OutOfRange | Some v \<Rightarrow> Inr v)"
    and "GetAt i (sparse f h c) = (case f i of None \<Rightarrow> Inl OutOfRange | Some v \<Rightarrow> Inr v)"
    and "TryGet i (sparse f h c) = Inr (f i)"
  using assms by (auto simp: HasAt_def Sparse_index_def GetAt_def TryGet_def valid_at_arr value_at_arr
      sparse_ok_def split: option.splits)

lemma Size_sparse:
  assumes "sparse_ok f h c"
  shows "Sparse_Size (sparse f h c) = Inr (card {i. f i \<noteq> None})"
proof -
  have "{i. i < nat (h + 1) \<and> f i \<noteq> None} = {i. f i \<noteq> None}"
    using assms by (auto simp: sparse_ok_def) (metis not_le option.distinct(1) zless_nat_eq_int_zless add1_zle_eq)
  then have "length (filter (\<lambda>i. f i \<noteq> None) [0..<nat (h + 1)]) = card {i. f i \<noteq> None}"
    unfolding length_filter_conv_card by (simp cong: conj_cong)
  then show ?thesis
    by (simp add: Sparse_Size_def used_slots_sparse [OF assms] arr_def count_valid_map)
qed

lemma skip_free_sparse:
  assumes "sparse_ok f h c" "int m \<le> h + 1"
  shows "\<exists>i. skip_free h (arr f c) m = Inr i \<and> m \<le> i \<and> int i \<le> h + 1 \<and> (\<forall>k. m \<le> k \<and> k < i \<longrightarrow> f k = None)
    \<and> (int i \<le> h \<longrightarrow> f i \<noteq> None)"
  using assms(2)
proof (induction "nat (h + 1 - int m)" arbitrary: m)
  case 0
  then show ?case by (subst skip_free.simps) (auto intro!: exI [of _ m])
next
  case (Suc n)
  then have m: "int m \<le> h" "m < c" using assms(1) by (auto simp: sparse_ok_def)
  show ?case
  proof (cases "f m")
    case None
    obtain i where i: "skip_free h (arr f c) (Suc m) = Inr i" "Suc m \<le> i" "int i \<le> h + 1"
        "\<forall>k. Suc m \<le> k \<and> k < i \<longrightarrow> f k = None" "int i \<le> h \<longrightarrow> f i \<noteq> None"
      using Suc.hyps(1) [of "Suc m"] Suc.hyps(2) m by fastforce
    have "f k = None" if "m \<le> k" "k < i" for k using i(4) that None by (cases "k = m") auto
    then show ?thesis using i m None by (subst skip_free.simps) (auto simp: valid_at_arr)
  next
    case (Some v)
    then show ?thesis using m by (subst skip_free.simps) (auto simp: valid_at_arr intro!: exI [of _ m])
  qed
qed

lemma eq_loop_sparse:
  assumes "sparse_ok f h c" "top_used f h" "sparse_ok g h d" "top_used g h" "int m \<le> h + 1"
    and "skip_free h (arr f c) m = Inr i" "skip_free h (arr g d) m = Inr j"
  shows "eq_loop cmp (sparse f h c) (sparse g h d) i j = Inr (\<forall>k\<ge>m. rel_option cmp (f k) (g k))"
  using assms(5-7)
proof (induction "nat (h + 1 - int m)" arbitrary: m i j rule: less_induct)
  case less
  have i: "m \<le> i" "int i \<le> h + 1" "\<And>k. m \<le> k \<Longrightarrow> k < i \<Longrightarrow> f k = None" "int i \<le> h \<Longrightarrow> f i \<noteq> None"
    using skip_free_sparse [OF assms(1) less.prems(1)] less.prems(2) by auto
  have j: "m \<le> j" "int j \<le> h + 1" "\<And>k. m \<le> k \<Longrightarrow> k < j \<Longrightarrow> g k = None" "int j \<le> h \<Longrightarrow> g j \<noteq> None"
    using skip_free_sparse [OF assms(3) less.prems(1)] less.prems(3) by auto
  have h: "- 1 \<le> h" "\<And>k. h < int k \<Longrightarrow> f k = None" "\<And>k. h < int k \<Longrightarrow> g k = None" "h < int c" "h < int d"
    using assms(1,3) by (auto simp: sparse_ok_def)
  have e: "Sparse_end (sparse f h c) = nat (h + 1)" by (simp add: Sparse_end_def)
  show ?case
  proof (cases "int i = h + 1")
    case True
    have "\<not> int m \<le> h"
    proof
      assume "int m \<le> h"
      then have "m \<le> nat h" "nat h < i" "0 \<le> h" using True by auto
      then show False using i(3) [of "nat h"] assms(2) by (auto simp: top_used_def)
    qed
    then have "\<forall>k\<ge>m. rel_option cmp (f k) (g k)" using h(2,3) by auto
    then show ?thesis using True e by (subst eq_loop.simps) auto
  next
    case False
    then have le: "int i \<le> h" using i(2) by simp
    then have ne: "i \<noteq> nat (h + 1)" "\<not> nat (h + 1) < i" by auto
    obtain v where v: "f i = Some v" using i(4) le by auto
    show ?thesis
    proof (cases "i = j")
      case False
      have "\<not> (\<forall>k\<ge>m. rel_option cmp (f k) (g k))"
      proof (cases "i < j")
        case True
        then show ?thesis using j(3) [OF i(1)] v i(1) by (auto intro!: exI [of _ i])
      next
        case ge: False
        then have "j < i" "int j \<le> h" using False le by auto
        then show ?thesis using i(3) [OF j(1)] j(1,4) by (auto intro!: exI [of _ j])
      qed
      then show ?thesis using ne e False by (subst eq_loop.simps) simp
    next
      case True
      then obtain u where u: "g i = Some u" using j(4) le by auto
      have s: "int (Suc i) \<le> h + 1" using le by simp
      obtain i' where i': "skip_free h (arr f c) (Suc i) = Inr i'" using skip_free_sparse [OF assms(1) s] by blast
      obtain j' where j': "skip_free h (arr g d) (Suc i) = Inr j'" using skip_free_sparse [OF assms(3) s] by blast
      have lt: "nat (h + 1 - int (Suc i)) < nat (h + 1 - int m)" using i(1) le by simp
      have IH: "eq_loop cmp (sparse f h c) (sparse g h d) i' j' = Inr (\<forall>k\<ge>Suc i. rel_option cmp (f k) (g k))"
        by (rule less.hyps [OF lt s i' j'])
      have all: "(\<forall>k\<ge>m. rel_option cmp (f k) (g k)) \<longleftrightarrow> cmp v u \<and> (\<forall>k\<ge>Suc i. rel_option cmp (f k) (g k))"
      proof safe
        show "cmp v u" if "\<forall>k\<ge>m. rel_option cmp (f k) (g k)" using that i(1) u v by (metis option.rel_inject(2))
        fix k assume r: "cmp v u" "\<forall>k\<ge>Suc i. rel_option cmp (f k) (g k)" "m \<le> k"
        consider "k < i" | "k = i" | "Suc i \<le> k" by linarith
        then show "rel_option cmp (f k) (g k)"
          by cases (use i(3) j(3) r True u v in auto)
      qed (use i(1) in auto)
      have "itr_deref (sparse f h c) i = Inr (i, v)" "itr_deref (sparse g h d) i = Inr (i, u)"
        using u v le h(4,5) by (auto simp: itr_deref_def value_at_arr)
      moreover have "itr_inc (sparse f h c) i = Inr i'" "itr_inc (sparse g h d) i = Inr j'"
        using i' j' by (simp_all add: itr_inc_def)
      ultimately show ?thesis
        unfolding all using ne e True IH by (subst eq_loop.simps) simp
    qed
  qed
qed

text \<open>The reading operations agree with the contents: an index without an element is \<^verbatim>\<open>false\<close>,
  \<^verbatim>\<open>nullptr\<close> or \<^verbatim>\<open>std::out_of_range\<close>, never an access outside the array.\<close>

theorem sparse_reads:
  assumes "good L"
  shows "HasAt i L = Inr (contents L i \<noteq> None)
    \<and> Sparse_index i L = (case contents L i of None \<Rightarrow> Inl OutOfRange | Some v \<Rightarrow> Inr v)
    \<and> GetAt i L = (case contents L i of None \<Rightarrow> Inl OutOfRange | Some v \<Rightarrow> Inr v)
    \<and> TryGet i L = Inr (contents L i)
    \<and> Sparse_Size L = Inr (card {i. contents L i \<noteq> None})"
  using assms by (auto elim!: goodE simp: read_sparse Size_sparse)

text \<open>The iterator loop of \<^verbatim>\<open>operator ==\<close> ends and compares the contents index by index,
  whatever the capacities.\<close>

theorem Sparse_eq_iff:
  assumes "good L" "good R"
  shows "Sparse_eq cmp L R = Inr (m_HighestIndex L = m_HighestIndex R \<and> (\<forall>i. rel_option cmp (contents L i) (contents R i)))"
proof (cases "m_HighestIndex L = m_HighestIndex R")
  case True
  obtain f h c where L: "L = sparse f h c" "sparse_ok f h c" "top_used f h" "contents L = f"
    using goodE [OF assms(1)] .
  obtain g h' d where R: "R = sparse g h' d" "sparse_ok g h' d" "top_used g h'" "contents R = g"
    using goodE [OF assms(2)] .
  have h: "h' = h" "int 0 \<le> h + 1" using True L(1,2) R(1) by (auto simp: sparse_ok_def)
  obtain i j where ij: "skip_free h (arr f c) 0 = Inr i" "skip_free h (arr g d) 0 = Inr j"
    using skip_free_sparse L(2) R(2) h by blast
  have "Sparse_begin L = Inr i" "Sparse_begin R = Inr j" using ij L(1) R(1) h by (simp_all add: Sparse_begin_def)
  then show ?thesis
    using eq_loop_sparse [OF L(2,3) R(2,3) [unfolded h(1)] h(2) ij] True L(1,4) R(1,4) h(1)
    by (simp add: Sparse_eq_def)
qed (simp add: Sparse_eq_def)


theorem sparse_reads_witness:
  "HasAt 0 \<lparr>m_HighestIndex = 1, m_Capacity = 2, m_Values = [Free, Live True]\<rparr> = Inr False
    \<and> GetAt 1 \<lparr>m_HighestIndex = 1, m_Capacity = 2, m_Values = [Free, Live True]\<rparr> = Inr True"
proof -
  let ?L = "\<lparr>m_HighestIndex = 1, m_Capacity = 2, m_Values = [Free, Live True]\<rparr>"
  have g: "good ?L" by (simp add: good_literal)
  show ?thesis using sparse_reads [OF g, of 0] sparse_reads [OF g, of 1] by (simp add: contents_def)
qed

theorem Sparse_eq_iff_witness:
  "Sparse_eq (=) \<lparr>m_HighestIndex = 1, m_Capacity = 2, m_Values = [Free, Live True]\<rparr>
     \<lparr>m_HighestIndex = 1, m_Capacity = 3, m_Values = [Live False, Live True, Free]\<rparr> = Inr False"
proof -
  let ?L = "\<lparr>m_HighestIndex = 1, m_Capacity = 2, m_Values = [Free, Live True]\<rparr>"
  let ?R = "\<lparr>m_HighestIndex = 1, m_Capacity = 3, m_Values = [Live False, Live True, Free]\<rparr>"
  have g: "good ?L" "good ?R" by (simp_all add: good_literal)
  have "\<not> (\<forall>i. rel_option (=) (contents ?L i) (contents ?R i))"
    by (intro notI, drule spec [of _ 0]) (simp add: contents_def)
  then show ?thesis unfolding Sparse_eq_iff [OF g] by simp
qed

section \<open>Assignment\<close>

lemma copy_slots_arr: "copy_slots (arr f n) = Inr (arr f n)"
  unfolding arr_def by (rule copy_slots_map)

text \<open>Copying into a list of any content.\<close>

lemma Copy_from_sparse:
  assumes "sparse_ok g h' d" "length (m_Values L) = m_Capacity L" "m_Capacity L < 2 ^ 31"
  shows "Copy_from always (sparse g h' d) L
    = Inr (sparse g h' (if int (m_Capacity L) \<le> h' then d else m_Capacity L))"
proof -
  define c where "c = (if int (m_Capacity L) \<le> h' then d else m_Capacity L)"
  have c: "conv I32 (int (m_Capacity L)) = int (m_Capacity L)" "conv I32 (int c) = int c"
    using assms by (auto simp: c_def sparse_ok_def intro!: conv_I32)
  define M where "M = (if int (m_Capacity L) \<le> h'
      then L\<lparr>m_Values := replicate d Raw, m_Capacity := d\<rparr> else L)"
  have M: "length (m_Values M) = c" "m_Capacity M = c" using assms(2) by (simp_all add: M_def c_def)
  have n: "nat (h' + 1) \<le> c" using assms by (auto simp: c_def sparse_ok_def)
  have "map (\<lambda>i. if i < nat (h' + 1) then arr g (nat (h' + 1)) ! i
      else if int i < int c then Free else m_Values M ! i) [0..<c] = arr g c"
    using assms(1) by (auto simp: arr_def sparse_ok_def not_less intro!: map_cong)
  moreover have m: "(if conv I32 (int (m_Capacity L)) \<le> m_HighestIndex (sparse g h' d)
      then ebind (Allocate_slots always (m_Capacity (sparse g h' d))) (\<lambda>values.
        Inr (L\<lparr>m_Values := values, m_Capacity := m_Capacity (sparse g h' d)\<rparr>))
      else Inr L) = Inr M"
    by (simp add: M_def c)
  ultimately have "Copy_from always (sparse g h' d) L = Inr (M\<lparr>m_Values := arr g c, m_HighestIndex := h'\<rparr>)"
    unfolding Copy_from_def m ebind_Inr M(2) c(2)
    using n M c by (simp add: used_slots_sparse [OF assms(1)] copy_slots_arr)
  also have "M\<lparr>m_Values := arr g c, m_HighestIndex := h'\<rparr> = sparse g h' c"
    using M(2) by (simp add: sparse_def)
  finally show ?thesis by (simp add: c_def)
qed

lemma copy_slots_gone:
  "\<exists>i\<in>set is. f i \<noteq> None \<Longrightarrow> copy_slots (map (\<lambda>i. if f i = None then Free else Gone) is) = Inl Undefined"
proof (induction "is")
  case (Cons a "is")
  then show ?case by (cases "f a") auto
qed simp

text \<open>Copy assignment copies the contents, but a list assigned to itself is read after its
  elements were destroyed, which is undefined unless it is empty.\<close>

theorem Copy_assign:
  assumes "good L" "good R"
  shows "(\<exists>L'. Sparse_Copy always R L = Inr L' \<and> good L' \<and> contents L' = contents R
      \<and> m_HighestIndex L' = m_HighestIndex R)
    \<and> Sparse_Copy_self always L = (if contents L = (\<lambda>_. None) then Inr L else Inl Undefined)"
proof -
  obtain f h c where L: "L = sparse f h c" "sparse_ok f h c" "top_used f h" "contents L = f"
    using goodE [OF assms(1)] .
  obtain g h' d where R: "R = sparse g h' d" "sparse_ok g h' d" "top_used g h'" "contents R = g"
    using goodE [OF assms(2)] .
  define G where "G = L\<lparr>m_Values := map (\<lambda>i. if f i = None then Free else Gone) [0..<c]\<rparr>"
  have D: "DestroyAllElements L = Inr G" using DestroyAll_sparse(1) [OF L(2)] L(1) by (simp add: G_def sparse_def)
  have c: "c < 2 ^ 31" "h < int c" "- 1 \<le> h" using L(2) by (simp_all add: sparse_ok_def)
  have "Sparse_Copy always R L = Inr (sparse g h' (if int c \<le> h' then d else c))"
    using Copy_from_sparse [OF R(2), of G] D c R(1) L(1) by (simp add: Sparse_Copy_def G_def)
  moreover have "sparse_ok g h' (if int c \<le> h' then d else c)"
    using R(2) c by (auto simp: sparse_ok_def)
  ultimately have 1: "\<exists>L'. Sparse_Copy always R L = Inr L' \<and> good L' \<and> contents L' = contents R
      \<and> m_HighestIndex L' = m_HighestIndex R"
    using R(3) good_sparseI sparse_ok_contents R(1,4) sparse_sel(1) by metis
  have 2: "Sparse_Copy_self always L = (if f = (\<lambda>_. None) then Inr L else Inl Undefined)"
  proof (cases "h = - 1")
    case True
    then have e: "f = (\<lambda>_. None)" using L(2) by (auto simp: sparse_ok_def)
    then have "G = sparse f h c" by (simp add: G_def L(1) sparse_def arr_def)
    then show ?thesis
      using e Copy_from_sparse [OF L(2), of G] D c L(1) by (simp add: Sparse_Copy_self_def)
  next
    case False
    have "\<exists>i\<in>set [0..<nat (h + 1)]. f i \<noteq> None"
      using False L(3) c by (intro bexI [of _ "nat h"]) (auto simp: top_used_def)
    moreover have "used_slots G = Inr (map (\<lambda>i. if f i = None then Free else Gone) [0..<nat (h + 1)])"
      using c L(1) by (simp add: used_slots_def G_def take_map min_def)
    moreover have "f \<noteq> (\<lambda>_. None)" using False L(3) by (auto simp: top_used_def)
    ultimately show ?thesis
      by (simp add: Sparse_Copy_self_def D Copy_from_def Let_def copy_slots_gone del: set_upt)
  qed
  show ?thesis using 1 2 L(4) by simp
qed


theorem Copy_assign_witness:
  "Sparse_Copy_self always \<lparr>m_HighestIndex = 1, m_Capacity = 2, m_Values = [Free, Live True]\<rparr> = Inl Undefined"
proof -
  let ?L = "\<lparr>m_HighestIndex = 1, m_Capacity = 2, m_Values = [Free, Live True]\<rparr>"
  have "good ?L" by (simp add: good_literal)
  moreover have "contents ?L 1 \<noteq> None" by (simp add: contents_def)
  ultimately show ?thesis using Copy_assign [of ?L ?L] by (auto simp: fun_eq_iff)
qed

section \<open>The refinement of every operation\<close>

lemma sparse_step_refines:
  assumes "good L" "has_room f L"
  shows "\<exists>L'. sparse_step always f L = Inr L' \<and> good L' \<and> contents L' = sparse_spec f (contents L)"
proof -
  obtain g h c where L: "L = sparse g h c" and ok: "sparse_ok g h c" "top_used g h" and g: "contents L = g"
    using goodE [OF assms(1)] .
  show ?thesis
  proof (cases f)
    case (SReserve n)
    then show ?thesis using refineI [OF step_reserve(1) step_reserve(2) ok(2)] ok(1) assms(2) L g by simp
  next
    case SClear
    then show ?thesis using refine_clear [OF ok(1)] L by simp
  next
    case (SEmplace v)
    then show ?thesis using refine_emplace [OF ok, of v] assms(2) L g by simp
  next
    case (SPushBack v)
    then show ?thesis using refine_push [OF ok _ PushBack_sparse(1) [OF ok(1)]] assms(2) L g by simp
  next
    case (SEmplaceBack v)
    then show ?thesis using refine_push [OF ok _ PushBack_sparse(2) [OF ok(1)]] assms(2) L g by simp
  next
    case (SInsertAt i v)
    then show ?thesis using refine_insert [OF ok _ InsertAt_sparse(1) [OF ok(1)]] assms(2) L g by simp
  next
    case (SEmplaceAt i v)
    then show ?thesis using refine_insert [OF ok _ InsertAt_sparse(2) [OF ok(1)]] assms(2) L g by simp
  next
    case (SAssign rhs)
    then show ?thesis using Copy_assign [OF assms(1), of rhs] assms(2) by auto
  next
    case (SRemoveAt i)
    then show ?thesis using refine_remove [OF ok, of i] L g by simp
  qed
qed

lemma sparse_step_alloc: "unless_alloc mal (sparse_step mal f L) (sparse_step always f L)"
  by (cases f) (simp_all, (intro alloc_rules | simp)+)

text \<open>C4: reserving, clearing, adding, removing and copy assignment. On a list that satisfies the
  invariant, with indices and capacities below \<open>2 ^ 30\<close> (\<open>2 ^ 31\<close> for \<^verbatim>\<open>Reserve\<close>), each succeeds, keeps the invariant, and
  changes the contents as the operation on the map does: \<^verbatim>\<open>Emplace\<close> takes the least free index,
  \<^verbatim>\<open>PushBack\<close> the one behind the last used. Or \<^verbatim>\<open>malloc\<close> refused a request, and it throws \<^verbatim>\<open>std::bad_alloc\<close>.
  \<^verbatim>\<open>Compress\<close> is not among them, nor is an assignment of a list to itself: \<open>Compress_result\<close> and
  \<open>Copy_assign\<close> show what they do instead.\<close>

theorem sparse_refines:
  assumes "good L" "has_room f L"
  shows "sparse_step mal f L = Inl BadAlloc \<and> (\<exists>n. \<not> mal n)
    \<or> (\<exists>L'. sparse_step mal f L = Inr L' \<and> good L' \<and> contents L' = sparse_spec f (contents L))"
  by (rule unless_allocE [OF sparse_step_alloc sparse_step_refines [OF assms]])

theorem sparse_refines_witness:
  "\<exists>L'. sparse_step (\<lambda>n. n \<le> 6) (SInsertAt 5 True) NetSparseList_init = Inr L' \<and> good L' \<and> contents L' = [5 \<mapsto> True]"
proof -
  let ?mal = "\<lambda>n :: nat. n \<le> 6"
  have "contents (NetSparseList_init :: bool NetSparseList) = Map.empty" by (simp add: contents_def NetSparseList_init_def fun_eq_iff)
  moreover have "sparse_step ?mal (SInsertAt 5 True) NetSparseList_init \<noteq> Inl BadAlloc"
    by (simp add: Sparse_InsertAt_def GrowToFit_def Grow_def Allocate_slots_def NetSparseList_init_def raise_highest_def
        valid_at_def slot_at_def value_at_def set_slot_def Let_def upt_rec conv_def)
  ultimately show ?thesis using sparse_refines [OF good_init, of "SInsertAt 5 True" ?mal] by simp
qed

section \<open>Compress\<close>

definition live_values :: "'v slot list \<Rightarrow> 'v list" where
  "live_values vs = List.map_filter slot_opt vs"

lemma live_values_simps [simp]:
  "live_values [] = []" "live_values (Live v # vs) = v # live_values vs" "live_values (Free # vs) = live_values vs"
  by (simp_all add: live_values_def map_filter_simps)

lemma live_values_length: "length (live_values vs) \<le> length vs"
  by (simp add: live_values_def map_filter_def)

text \<open>The loop invariant: elements \<open>ys\<close>, then a gap up to the current index, then the slots to come.\<close>

lemma compress_loop:
  assumes "\<forall>s\<in>set rest. s \<noteq> Raw \<and> s \<noteq> Gone" "length ys + d + length rest < 2 ^ 31"
    and "empty_index = (if d = 0 then - 1 else int (length ys))"
  shows "compress_loop (length rest) (length ys + d) empty_index (map Live ys @ replicate d Free @ rest)
    = Inr (map Live (ys @ live_values rest) @ replicate (d + length rest - length (live_values rest)) Free)"
  using assms
proof (induction rest arbitrary: ys d empty_index)
  case (Cons s rest)
  let ?vs = "map Live ys @ replicate d Free @ s # rest"
  have i: "?vs ! (length ys + d) = s" "length ys + d < length ?vs" by (simp_all add: nth_append)
  have lv: "length (live_values rest) \<le> length rest" by (rule live_values_length)
  show ?case
  proof (cases s)
    case Free
    have e: "map Live ys @ replicate d Free @ s # rest = map Live ys @ replicate (Suc d) Free @ rest"
      by (simp add: Free replicate_app_Cons_same)
    have "conv I32 (int (length ys + d)) = int (length ys + d)"
      using Cons.prems(2) by (intro conv_I32) simp
    then have "compress_loop (length (s # rest)) (length ys + d) empty_index ?vs
        = compress_loop (length rest) (length ys + Suc d) (int (length ys)) ?vs"
      using i Cons.prems(3) by (simp add: valid_at_def slot_at_def Free)
    then show ?thesis
      using Cons.IH [of ys "Suc d" "int (length ys)"] Cons.prems lv unfolding e
      by (simp add: Free Suc_diff_le)
  next
    case (Live v)
    show ?thesis
    proof (cases "d = 0")
      case True
      have "compress_loop (length (s # rest)) (length ys + d) empty_index ?vs
          = compress_loop (length rest) (length (ys @ [v]) + 0) (- 1) (map Live (ys @ [v]) @ replicate 0 Free @ rest)"
        using i Cons.prems(3) True by (simp add: valid_at_def slot_at_def Live)
      then show ?thesis using Cons.IH [of "ys @ [v]" 0 "- 1"] Cons.prems True lv by (simp add: Live)
    next
      case False
      then obtain d' where d: "d = Suc d'" by (cases d) auto
      have "(?vs[length ys := Live v])[length ys + d := Free] = map Live (ys @ [v]) @ replicate d Free @ rest"
        by (simp add: d list_update_append replicate_append_same flip: replicate_Suc) (simp add: replicate_app_Cons_same)
      then have "compress_loop (length (s # rest)) (length ys + d) empty_index ?vs
          = compress_loop (length rest) (length (ys @ [v]) + d) (int (length (ys @ [v])))
              (map Live (ys @ [v]) @ replicate d Free @ rest)"
        using i Cons.prems(3) False by (simp add: valid_at_def value_at_def slot_at_def Live ac_simps)
      then show ?thesis using Cons.IH [of "ys @ [v]" d "int (length (ys @ [v]))"] Cons.prems False lv
        by (simp add: Live)
    qed
  qed (use Cons.prems in auto)
qed simp

lemma live_values_arr: "live_values (arr f n) = map (\<lambda>i. the (f i)) (filter (\<lambda>i. f i \<noteq> None) [0..<n])"
  by (simp add: live_values_def arr_def map_filter_def filter_map comp_def)

text \<open>\<^verbatim>\<open>Compress\<close> moves the elements, in order, to the front, but leaves \<^verbatim>\<open>m_HighestIndex\<close>:
  unless there was no gap the invariant is lost, the highest index is no longer one of an element.\<close>

theorem Compress_result:
  assumes "good L"
  shows "\<exists>L'. Compress L = Inr L' \<and> m_HighestIndex L' = m_HighestIndex L \<and> m_Capacity L' = m_Capacity L
    \<and> m_Values L' = map Live (live_values (m_Values L))
        @ replicate (m_Capacity L - length (live_values (m_Values L))) Free
    \<and> (good L' \<longleftrightarrow> m_HighestIndex L + 1 = int (length (live_values (m_Values L))))"
proof -
  obtain f h c where L: "L = sparse f h c" "sparse_ok f h c" "top_used f h" "contents L = f"
    using goodE [OF assms] .
  let ?ys = "live_values (arr f c)"
  let ?vs = "map Live ?ys @ replicate (c - length ?ys) Free"
  have tidy: "\<forall>s\<in>set (arr f c). s \<noteq> Raw \<and> s \<noteq> Gone"
  proof -
    have "slot_of x \<noteq> Raw \<and> slot_of x \<noteq> Gone" for x :: "'a option" by (cases x) simp_all
    then show ?thesis by (simp add: arr_def)
  qed
  have c: "c < 2 ^ 31" "- 1 \<le> h" "h < int c" using L(2) by (simp_all add: sparse_ok_def)
  have "Compress L = Inr (L\<lparr>m_Values := ?vs\<rparr>)"
    using compress_loop [OF tidy, of "[]" 0 "- 1"] c(1) L(1) by (simp add: Compress_def)
  moreover have "good (L\<lparr>m_Values := ?vs\<rparr>) \<longleftrightarrow> h + 1 = int (length ?ys)"
  proof -
    have "{i. i < nat (h + 1) \<and> f i \<noteq> None} = {i. i < c \<and> f i \<noteq> None}"
      using L(2) c by (auto simp: sparse_ok_def) (metis not_le option.distinct(1) zless_nat_eq_int_zless add1_zle_eq)
    then have "length ?ys = card {i. i < nat (h + 1) \<and> f i \<noteq> None}"
      by (simp add: live_values_arr length_filter_conv_card cong: conj_cong)
    also have "\<dots> \<le> nat (h + 1)" using card_mono [of "{..<nat (h + 1)}" "{i. i < nat (h + 1) \<and> f i \<noteq> None}"] by auto
    finally have le: "int (length ?ys) \<le> h + 1" using c by simp
    have l: "length ?ys \<le> c" using live_values_length [of "arr f c"] by simp
    have "L\<lparr>m_Values := ?vs\<rparr> = \<lparr>m_HighestIndex = h, m_Capacity = c, m_Values = ?vs\<rparr>"
      by (simp add: L(1) sparse_def)
    then have "good (L\<lparr>m_Values := ?vs\<rparr>) \<longleftrightarrow> (\<forall>s\<in>set (drop (nat (h + 1)) ?vs). s = Free)
        \<and> (h = - 1 \<or> ?vs ! nat h \<noteq> Free)"
      using c l by (auto simp: good_literal)
    also have "\<dots> \<longleftrightarrow> (h = - 1 \<or> nat h < length ?ys)"
    proof -
      have "nat h - length ?ys < c - length ?ys" if "\<not> nat h < length ?ys" "h \<noteq> - 1"
        using that c by linarith
      then show ?thesis using le c l by (cases "h = - 1") (auto simp: nth_append)
    qed
    finally show ?thesis using le c by (auto simp: nat_less_iff)
  qed
  ultimately show ?thesis using L(1) by (intro exI [of _ "L\<lparr>m_Values := ?vs\<rparr>"]) simp
qed

theorem Compress_result_witness:
  "\<exists>L'. Compress \<lparr>m_HighestIndex = 1, m_Capacity = 2, m_Values = [Free, Live True]\<rparr> = Inr L'
    \<and> m_Values L' = [Live True, Free] \<and> m_HighestIndex L' = 1 \<and> \<not> good L'"
proof -
  let ?L = "\<lparr>m_HighestIndex = 1, m_Capacity = 2, m_Values = [Free, Live True]\<rparr>"
  have "good ?L" by (simp add: good_literal)
  then show ?thesis using Compress_result [of ?L] by auto
qed

end
