(* ===== verification/SparseCodec.thy ===== *)
theory SparseCodec
  imports SparseLaws Serialize
begin

text \<open>
  The four serializers of \<^verbatim>\<open>NetReflectionSparseList.h\<close>, for any codec of the elements. The list's own
  bound \<^verbatim>\<open>MaxSize\<close> only sets the width of an index; no operation checks it.
\<close>

section \<open>Serializers\<close>

fun sparse_ser_loop ::
    "bool \<Rightarrow> nat \<Rightarrow> 'v serializer \<Rightarrow> 'v NetSparseList \<Rightarrow> nat list \<Rightarrow> nat \<Rightarrow> NetBitWriterVector
       \<Rightarrow> (nat \<times> NetBitWriterVector) result" where
  "sparse_ser_loop dbg key_bits ser val [] num_elements w = Inr (num_elements, w)"
| "sparse_ser_loop dbg key_bits ser val (index # rest) num_elements w =
     ebind (HasAt index val) (\<lambda>has.
       if has then
         ebind (WriteBits dbg (of_nat index) (int key_bits) w) (\<lambda>w.
         ebind (Sparse_index index val) (\<lambda>v.
         ebind (ser v w) (\<lambda>w. sparse_ser_loop dbg key_bits ser val rest (Suc num_elements) w)))
       else sparse_ser_loop dbg key_bits ser val rest num_elements w)"

definition NetSerializer_Sparse :: "bool \<Rightarrow> nat \<Rightarrow> 'v serializer \<Rightarrow> 'v NetSparseList serializer" where
  "NetSerializer_Sparse dbg max_size ser val w =
     (let key_bits = size_bits max_size in
      ebind (Reserve dbg (int key_bits) w) (\<lambda>(size_cursor, w).
      ebind (sparse_ser_loop dbg key_bits ser val [0..<nat (m_HighestIndex val + 1)] 0 w) (\<lambda>(num_elements, w).
      ebind (CursorWriteBits dbg (of_nat num_elements) (int key_bits) size_cursor w) (\<lambda>(_, w). Inr w))))"

text \<open>One iteration of the delta serializer: whether an entry was written, and the writer.\<close>

definition sparse_delta_entry ::
    "bool \<Rightarrow> nat \<Rightarrow> 'v serializer \<Rightarrow> 'v delta_serializer \<Rightarrow> 'v NetSparseList \<Rightarrow> 'v NetSparseList \<Rightarrow> nat
       \<Rightarrow> NetBitWriterVector \<Rightarrow> (bool \<times> NetBitWriterVector) result" where
  "sparse_delta_entry dbg required_bits ser dser to src index w =
     ebind (Reserve dbg (int required_bits) w) (\<lambda>(index_cursor, w).
     ebind (HasAt index to) (\<lambda>to_has. ebind (HasAt index src) (\<lambda>from_has.
       if to_has \<and> \<not> from_has then
         ebind (CursorWriteBits dbg (of_nat index) (int required_bits) index_cursor w) (\<lambda>(_, w).
         ebind (Sparse_index index to) (\<lambda>v.
         ebind (ser v w) (\<lambda>w. Inr (True, w))))
       else if \<not> to_has \<and> from_has then
         ebind (CursorWriteBits dbg (of_nat index) (int required_bits) index_cursor w) (\<lambda>(_, w).
         ebind (WriteBits dbg 0 1 w) (\<lambda>w. Inr (True, w)))
       else
         ebind (Reserve dbg 1 w) (\<lambda>(new_elem_cursor, w).
         ebind (if \<not> to_has then Inr (False, w)
                else ebind (Sparse_index index to) (\<lambda>t. ebind (Sparse_index index src) (\<lambda>s. dser t s w)))
           (\<lambda>(changed, w).
             if \<not> changed then ebind (RollBack index_cursor w) (\<lambda>w. Inr (False, w))
             else
               ebind (CursorWriteBits dbg (of_nat index) (int required_bits) index_cursor w) (\<lambda>(_, w).
               ebind (CursorWriteBits dbg 1 1 new_elem_cursor w) (\<lambda>(_, w). Inr (True, w))))))))"

fun sparse_delta_loop ::
    "bool \<Rightarrow> nat \<Rightarrow> 'v serializer \<Rightarrow> 'v delta_serializer \<Rightarrow> 'v NetSparseList \<Rightarrow> 'v NetSparseList \<Rightarrow> nat list
       \<Rightarrow> nat \<Rightarrow> NetBitWriterVector \<Rightarrow> (nat \<times> NetBitWriterVector) result" where
  "sparse_delta_loop dbg b ser dser to src [] num_wrote w = Inr (num_wrote, w)"
| "sparse_delta_loop dbg b ser dser to src (index # rest) num_wrote w =
     ebind (sparse_delta_entry dbg b ser dser to src index w) (\<lambda>(wrote_one, w).
       sparse_delta_loop dbg b ser dser to src rest (if wrote_one then Suc num_wrote else num_wrote) w)"

text \<open>\<^verbatim>\<open>GetRequiredBits\<close> is called with an \<^verbatim>\<open>int\<close> here.\<close>

abbreviation int_bits :: "int \<Rightarrow> nat" where
  "int_bits h \<equiv> GetRequiredBits I32 h"

definition NetSerializerDelta_Sparse ::
    "bool \<Rightarrow> nat \<Rightarrow> 'v serializer \<Rightarrow> 'v delta_serializer \<Rightarrow> 'v NetSparseList delta_serializer" where
  "NetSerializerDelta_Sparse dbg max_size ser dser to src w =
     (let size_change = m_HighestIndex to \<noteq> m_HighestIndex src;
          required_bits = int_bits (m_HighestIndex to);
          required_size_bits = int_bits (m_HighestIndex to + 1) in
      ebind (Reserve dbg 1 w) (\<lambda>(begin_cursor, w).
      ebind (if size_change then
               ebind (CursorWriteBits dbg 1 1 begin_cursor w) (\<lambda>(begin_cursor, w).
               ebind (WriteBits dbg (word_of_int (m_HighestIndex to + 1)) (int (size_bits max_size)) w) (\<lambda>w.
                 Inr (begin_cursor, w)))
             else Inr (begin_cursor, w)) (\<lambda>(begin_cursor, w).
      ebind (Reserve dbg (int required_size_bits) w) (\<lambda>(size_cursor, w).
      ebind (sparse_delta_loop dbg required_bits ser dser to src [0..<nat (m_HighestIndex to + 1)] 0 w)
        (\<lambda>(num_wrote, w).
          if num_wrote = 0 \<and> \<not> size_change then
            ebind (RollBack begin_cursor w) (\<lambda>w. Inr (False, w))
          else
            ebind (if \<not> size_change then
                     ebind (CursorWriteBits dbg 0 1 begin_cursor w) (\<lambda>(_, w). Inr w)
                   else Inr w) (\<lambda>w.
            ebind (CursorWriteBits dbg (of_nat num_wrote) (int required_size_bits) size_cursor w) (\<lambda>(_, w).
              Inr (True, w))))))))"

text \<open>\<^verbatim>\<open>NetDeserializeValue(val[index], reader)\<close>: the element is read and written in place.\<close>

definition sparse_update ::
    "nat \<Rightarrow> 'v deserializer \<Rightarrow> 'v NetSparseList \<Rightarrow> NetBitReaderBuffer \<Rightarrow> ('v NetSparseList \<times> NetBitReaderBuffer) result" where
  "sparse_update index deser val r =
     ebind (Sparse_index index val) (\<lambda>old. ebind (deser old r) (\<lambda>(v, r).
     ebind (set_slot index (Live v) val) (\<lambda>val. Inr (val, r))))"

fun remove_all :: "nat list \<Rightarrow> 'v NetSparseList \<Rightarrow> 'v NetSparseList result" where
  "remove_all [] val = Inr val"
| "remove_all (index # rest) val = ebind (Sparse_RemoveAt index val) (remove_all rest)"

fun sparse_deser_elems ::
    "(nat \<Rightarrow> bool) \<Rightarrow> nat \<Rightarrow> 'v \<Rightarrow> 'v deserializer \<Rightarrow> nat \<Rightarrow> nat \<Rightarrow> 'v NetSparseList \<Rightarrow> NetBitReaderBuffer
       \<Rightarrow> ((nat \<times> 'v NetSparseList) \<times> NetBitReaderBuffer) result" where
  "sparse_deser_elems mal key_bits dflt deser 0 current_index val r = Inr ((current_index, val), r)"
| "sparse_deser_elems mal key_bits dflt deser (Suc num_elements) current_index val r =
     ebind (ReadUBits (int key_bits) r) (\<lambda>(input, r).
     let input_index = conv I32 (uint input);
         current' = (if int current_index < input_index then nat input_index else current_index) in
     ebind (remove_all [current_index..<current'] val) (\<lambda>val.
     ebind (HasAt current' val) (\<lambda>has.
     ebind (if has then Inr val else Sparse_EmplaceAt mal current' dflt val) (\<lambda>val.
     ebind (sparse_update current' deser val r) (\<lambda>(val, r).
       sparse_deser_elems mal key_bits dflt deser num_elements (Suc current') val r)))))"

lemma lower_highest_le: "lower_highest vs h = Inr h' \<Longrightarrow> h' \<le> h"
proof (induction vs h rule: lower_highest.induct)
  case (1 vs h)
  show ?case
  proof (cases "0 \<le> h")
    case True
    then show ?thesis
      using 1(2) 1(1) [OF True, of False] by (subst (asm) lower_highest.simps)
        (cases "valid_at vs (nat h)"; force split: if_splits)
  next
    case False
    then show ?thesis using 1(2) by (subst (asm) lower_highest.simps) simp
  qed
qed

lemma RemoveAt_highest_le: "Sparse_RemoveAt i L = Inr L' \<Longrightarrow> m_HighestIndex L' \<le> m_HighestIndex L"
  by (auto simp: Sparse_RemoveAt_def set_slot_def ebind_eq_Inr split: if_splits dest!: lower_highest_le)

text \<open>The last loop of the full deserializer; its condition is \<^verbatim>\<open>current_index < val.HighestIndex()\<close>.\<close>

function sparse_cleanup :: "nat \<Rightarrow> 'v NetSparseList \<Rightarrow> 'v NetSparseList result" where
  "sparse_cleanup current_index val =
     (if int current_index < m_HighestIndex val then
        ebind (Sparse_RemoveAt current_index val) (sparse_cleanup (Suc current_index))
      else Inr val)"
  by pat_completeness auto
termination
  by (relation "measure (\<lambda>(i, L). nat (m_HighestIndex L - int i))") (auto dest: RemoveAt_highest_le)

definition NetDeserializer_Sparse :: "(nat \<Rightarrow> bool) \<Rightarrow> nat \<Rightarrow> 'v \<Rightarrow> 'v deserializer \<Rightarrow> 'v NetSparseList deserializer" where
  "NetDeserializer_Sparse mal max_size dflt deser val r =
     ebind (ReadUBits (int (size_bits max_size)) r) (\<lambda>(num_elements, r).
     ebind (sparse_deser_elems mal (size_bits max_size) dflt deser (unat num_elements) 0 val r)
       (\<lambda>((current_index, val), r). ebind (sparse_cleanup current_index val) (\<lambda>val. Inr (val, r))))"

fun sparse_delta_deser_elems ::
    "(nat \<Rightarrow> bool) \<Rightarrow> nat \<Rightarrow> 'v \<Rightarrow> 'v deserializer \<Rightarrow> 'v deserializer \<Rightarrow> nat \<Rightarrow> 'v NetSparseList deserializer" where
  "sparse_delta_deser_elems mal b dflt deser dder 0 val r = Inr (val, r)"
| "sparse_delta_deser_elems mal b dflt deser dder (Suc n) val r =
     ebind (ReadUBits (int b) r) (\<lambda>(index, r). let index = unat index in
     ebind (HasAt index val) (\<lambda>has.
     ebind (if \<not> has then
              ebind (Sparse_EmplaceAt mal index dflt val) (\<lambda>val. sparse_update index deser val r)
            else
              ebind (ReadUBits 1 r) (\<lambda>(existing_elem, r).
                if existing_elem \<noteq> 0 then sparse_update index dder val r
                else ebind (Sparse_RemoveAt index val) (\<lambda>val. Inr (val, r))))
       (\<lambda>(val, r). sparse_delta_deser_elems mal b dflt deser dder n val r)))"

text \<open>
  \<^verbatim>\<open>(int)(reader.ReadUBits(...) - 1)\<close> is computed in 64 bits. The last loop counts down; a negative
  index would be a huge \<^verbatim>\<open>std::size_t\<close>, for which \<^verbatim>\<open>RemoveAt\<close> does nothing.
\<close>

definition NetDeserializerDelta_Sparse ::
    "(nat \<Rightarrow> bool) \<Rightarrow> nat \<Rightarrow> 'v \<Rightarrow> 'v deserializer \<Rightarrow> 'v deserializer \<Rightarrow> 'v NetSparseList deserializer" where
  "NetDeserializerDelta_Sparse mal max_size dflt deser dder val r =
     ebind (ReadUBits 1 r) (\<lambda>(size_change, r).
     ebind (if size_change \<noteq> 0 then
              ebind (ReadUBits (int (size_bits max_size)) r) (\<lambda>(n, r). Inr (conv I32 (uint (n - 1)), r))
            else Inr (m_HighestIndex val, r)) (\<lambda>(highest_index, r).
     ebind (ReadUBits (int (int_bits (highest_index + 1))) r) (\<lambda>(n, r).
     ebind (sparse_delta_deser_elems mal (int_bits highest_index) dflt deser dder (unat n) val r) (\<lambda>(val, r).
     ebind (remove_all (rev [nat (highest_index + 1)..<nat (m_HighestIndex val + 1)]) val) (\<lambda>val.
       Inr (val, r))))))"

declare sparse_cleanup.simps [simp del]

text \<open>What a failing allocation changes: nothing but the exception.\<close>

lemma sparse_deser_elems_alloc [alloc_rules]:
  "unless_alloc mal (sparse_deser_elems mal b dflt deser n cur val r) (sparse_deser_elems always b dflt deser n cur val r)"
proof (induction n arbitrary: cur val r)
  case (Suc n)
  show ?case unfolding sparse_deser_elems.simps Let_def by (intro alloc_rules Suc.IH)
qed simp

lemma Deserializer_alloc: "unless_alloc mal (NetDeserializer_Sparse mal m d deser val r) (NetDeserializer_Sparse always m d deser val r)"
  unfolding NetDeserializer_Sparse_def by (intro alloc_rules)

lemma sparse_delta_deser_elems_alloc [alloc_rules]:
  "unless_alloc mal (sparse_delta_deser_elems mal b dflt deser dder n val r)
     (sparse_delta_deser_elems always b dflt deser dder n val r)"
proof (induction n arbitrary: val r)
  case (Suc n)
  show ?case unfolding sparse_delta_deser_elems.simps Let_def by (intro alloc_rules Suc.IH)
qed simp

lemma DeserializerDelta_alloc:
  "unless_alloc mal (NetDeserializerDelta_Sparse mal m d deser dder val r) (NetDeserializerDelta_Sparse always m d deser dder val r)"
  unfolding NetDeserializerDelta_Sparse_def by (intro alloc_rules)



section \<open>One step on the contents\<close>

lemma good_highest:
  assumes "good L"
  shows "- 1 \<le> m_HighestIndex L" "\<And>i. m_HighestIndex L < int i \<Longrightarrow> contents L i = None"
    "m_HighestIndex L = - 1 \<or> contents L (nat (m_HighestIndex L)) \<noteq> None" "m_HighestIndex L < 2 ^ 31 - 1"
proof -
  obtain f h c where L: "L = sparse f h c" "sparse_ok f h c" "top_used f h" "contents L = f"
    using goodE [OF assms] .
  show "- 1 \<le> m_HighestIndex L" "\<And>i. m_HighestIndex L < int i \<Longrightarrow> contents L i = None"
    "m_HighestIndex L = - 1 \<or> contents L (nat (m_HighestIndex L)) \<noteq> None" "m_HighestIndex L < 2 ^ 31 - 1"
    unfolding L(4) using L(2,3) by (auto simp: L(1) sparse_ok_def top_used_def)
qed

lemma good_highest_le: "good L \<Longrightarrow> contents L i \<noteq> None \<Longrightarrow> int i \<le> m_HighestIndex L"
  using good_highest(2) [of L i] by (meson not_le)

lemma good_highest_eq:
  assumes "good L" "good M" "contents L = contents M"
  shows "m_HighestIndex L = m_HighestIndex M"
proof -
  have "m_HighestIndex A \<le> m_HighestIndex B" if "good A" "good B" "contents A = contents B" for A B :: "'a NetSparseList"
  proof (cases "m_HighestIndex A = - 1")
    case False
    then have "contents B (nat (m_HighestIndex A)) \<noteq> None" "0 \<le> m_HighestIndex A"
      using good_highest(1,3) [OF that(1)] that(3) by auto
    then show ?thesis using good_highest_le [OF that(2)] by fastforce
  qed (use good_highest(1) [OF that(2)] in simp)
  then show ?thesis using assms by (metis order_antisym)
qed

lemma good_set_slot:
  assumes "good L" "contents L k \<noteq> None"
  shows "\<exists>L'. set_slot k (Live v) L = Inr L' \<and> good L' \<and> contents L' = (contents L)(k \<mapsto> v)
    \<and> m_HighestIndex L' = m_HighestIndex L"
proof -
  obtain f h c where L: "L = sparse f h c" "sparse_ok f h c" "top_used f h" "contents L = f"
    using goodE [OF assms(1)] .
  have k: "k < c" "int k \<le> h" using good_highest_le [OF assms] L(1,2) by (auto simp: sparse_ok_def)
  have "sparse_ok (f(k \<mapsto> v)) h c" "top_used (f(k \<mapsto> v)) h"
    using L(2,3) k by (auto simp: sparse_ok_def top_used_def)
  then have "good (sparse (f(k \<mapsto> v)) h c)" "contents (sparse (f(k \<mapsto> v)) h c) = f(k \<mapsto> v)"
    using good_sparseI sparse_ok_contents by blast+
  then show ?thesis using set_slot_sparse(1) [OF k(1), of v f h] L(1,4) by auto
qed

lemma good_EmplaceAt:
  assumes "good L" "k < 2 ^ 30"
  shows "\<exists>L'. Sparse_EmplaceAt always k v L = Inr L' \<and> good L' \<and> contents L' = (contents L)(k \<mapsto> v)"
  using sparse_step_refines [OF assms(1), of "SEmplaceAt k v"] assms(2) by simp

lemma good_RemoveAt:
  assumes "good L"
  shows "\<exists>L'. Sparse_RemoveAt k L = Inr L' \<and> good L' \<and> contents L' = (contents L)(k := None)"
  using sparse_step_refines [OF assms, of "SRemoveAt k"] by simp

lemma good_HasAt: "good L \<Longrightarrow> HasAt k L = Inr (contents L k \<noteq> None)"
  and good_index: "good L \<Longrightarrow> Sparse_index k L
    = (case contents L k of None \<Rightarrow> Inl OutOfRange | Some v \<Rightarrow> Inr v)"
  using sparse_reads [of L k] by simp_all


section \<open>Encodings\<close>

definition sparse_of :: "nat \<Rightarrow> ('v \<Rightarrow> bool) \<Rightarrow> 'v NetSparseList \<Rightarrow> bool" where
  "sparse_of m P L \<longleftrightarrow> good L \<and> m_HighestIndex L < int m \<and> (\<forall>i v. contents L i = Some v \<longrightarrow> P v)"

definition used :: "(nat \<Rightarrow> 'v option) \<Rightarrow> int \<Rightarrow> nat list" where
  "used f h = filter (\<lambda>i. f i \<noteq> None) [0..<nat (h + 1)]"

definition sparse_entries :: "nat \<Rightarrow> ('v \<Rightarrow> bool list) \<Rightarrow> (nat \<Rightarrow> 'v option) \<Rightarrow> nat list \<Rightarrow> bool list" where
  "sparse_entries b enc f is = concat (map (\<lambda>i. nat_bits b i @ enc (the (f i))) is)"

definition sparse_enc :: "nat \<Rightarrow> ('v \<Rightarrow> bool list) \<Rightarrow> 'v NetSparseList \<Rightarrow> bool list" where
  "sparse_enc m enc L = (let b = size_bits m; is = used (contents L) (m_HighestIndex L) in
     nat_bits b (length is) @ sparse_entries b enc (contents L) is)"

lemma sparse_entries_simps [simp]:
  "sparse_entries b enc f [] = []"
  "sparse_entries b enc f (i # is) = nat_bits b i @ enc (the (f i)) @ sparse_entries b enc f is"
  by (simp_all add: sparse_entries_def)

lemma used_bound: "i \<in> set (used f h) \<Longrightarrow> int i \<le> h \<and> f i \<noteq> None"
  by (auto simp: used_def)

lemma sorted_used: "sorted_wrt (<) (used f h)"
  by (simp add: used_def sorted_wrt_filter)

context value_codec
begin

lemma sparse_ser_loop:
  assumes "good L" "b < 64"
  shows "winv w \<Longrightarrow> \<forall>i\<in>set is. i < 2 ^ b \<Longrightarrow> \<forall>i v. contents L i = Some v \<longrightarrow> wf v \<Longrightarrow>
    \<exists>w'. sparse_ser_loop dbg b ser L is n w
        = Inr (n + length (filter (\<lambda>i. contents L i \<noteq> None) is), w')
      \<and> wrote w w' (sparse_entries b enc (contents L) (filter (\<lambda>i. contents L i \<noteq> None) is))"
proof (induction "is" arbitrary: n w)
  case (Cons i "is")
  show ?case
  proof (cases "contents L i")
    case None
    then show ?thesis using Cons.IH [OF Cons.prems(1), of n] Cons.prems by (simp add: good_HasAt [OF assms(1)])
  next
    case (Some v)
    then have v: "wf v" using Cons.prems(3) by blast
    obtain w1 where w1: "WriteBits dbg (of_nat i) (int b) w = Inr w1" "wrote w w1 (nat_bits b i)"
      using WriteBits_nat [OF Cons.prems(1), of i b dbg] Cons.prems(2) assms(2) by auto
    obtain w2 where w2: "ser v w1 = Inr w2" "wrote w1 w2 (enc v)"
      using ser_enc [OF wrote_winv [OF w1(2)] v] by blast
    obtain w3 where w3: "sparse_ser_loop dbg b ser L is (Suc n) w2
          = Inr (Suc n + length (filter (\<lambda>i. contents L i \<noteq> None) is), w3)"
        "wrote w2 w3 (sparse_entries b enc (contents L) (filter (\<lambda>i. contents L i \<noteq> None) is))"
      using Cons.IH [OF wrote_winv [OF w2(2)], of "Suc n"] Cons.prems by auto
    have "sparse_ser_loop dbg b ser L (i # is) n w
        = Inr (Suc n + length (filter (\<lambda>i. contents L i \<noteq> None) is), w3)"
      using w1(1) w2(1) w3(1) Some by (simp add: good_HasAt [OF assms(1)] good_index [OF assms(1)])
    moreover have "wrote w w3 (sparse_entries b enc (contents L) (filter (\<lambda>i. contents L i \<noteq> None) (i # is)))"
      using wrote_trans [OF w1(2) wrote_trans [OF w2(2) w3(2)]] Some by simp
    ultimately show ?thesis using Some by auto
  qed
qed simp

lemma sparse_ser:
  assumes "m < 2 ^ 63" "winv w" "sparse_of m wf L"
  shows "\<exists>w'. NetSerializer_Sparse dbg m ser L w = Inr w' \<and> wrote w w' (sparse_enc m enc L)"
proof -
  let ?b = "size_bits m" and ?is = "used (contents L) (m_HighestIndex L)"
  have L: "good L" "m_HighestIndex L < int m" "\<forall>i v. contents L i = Some v \<longrightarrow> wf v"
    using assms(3) by (auto simp: sparse_of_def)
  have b: "?b < 64" "0 < ?b" "\<And>v. v \<le> m \<Longrightarrow> v < 2 ^ ?b" using size_bits [OF assms(1)] by simp_all
  obtain c w1 where w1: "Reserve dbg (int ?b) w = Inr (c, w1)" "wrote w w1 (replicate ?b False)"
      "reserved c w" "cSize c = int ?b"
    using Reserve_spec [OF assms(2), of "int ?b" dbg] by auto
  have "\<forall>i\<in>set [0..<nat (m_HighestIndex L + 1)]. i < 2 ^ ?b" using L(2) b(3) by auto
  then obtain w2 where w2: "sparse_ser_loop dbg ?b ser L [0..<nat (m_HighestIndex L + 1)] 0 w1 = Inr (length ?is, w2)"
      "wrote w1 w2 (sparse_entries ?b enc (contents L) ?is)"
    using sparse_ser_loop [OF L(1) b(1) wrote_winv [OF w1(2)], where n = 0] L(3) unfolding used_def add_0 by blast
  have "length ?is \<le> m"
    using length_filter_le [of "\<lambda>i. contents L i \<noteq> None" "[0..<nat (m_HighestIndex L + 1)]"] L(2)
    by (simp add: used_def)
  then obtain c' w3 where "CursorWriteBits dbg (of_nat (length ?is)) (int ?b) c w2 = Inr (c', w3)"
      "wrote w w3 (nat_bits ?b (length ?is) @ sparse_entries ?b enc (contents L) ?is)"
    using CursorWriteBits_nat [OF assms(2) w1(3) wrote_trans [OF w1(2) w2(2)], of ?b "length ?is" dbg] w1(4) b
    by auto
  with w1(1) w2(1) show ?thesis by (simp add: NetSerializer_Sparse_def sparse_enc_def Let_def)
qed

end

text \<open>Removing a range of indices.\<close>

lemma remove_all_good:
  "good L \<Longrightarrow> \<exists>L'. remove_all is L = Inr L' \<and> good L'
    \<and> contents L' = (\<lambda>i. if i \<in> set is then None else contents L i)"
proof (induction "is" arbitrary: L)
  case (Cons k "is")
  obtain L1 where L1: "Sparse_RemoveAt k L = Inr L1" "good L1" "contents L1 = (contents L)(k := None)"
    using good_RemoveAt [OF Cons.prems] by blast
  obtain L2 where "remove_all is L1 = Inr L2" "good L2"
      "contents L2 = (\<lambda>i. if i \<in> set is then None else contents L1 i)"
    using Cons.IH [OF L1(2)] by blast
  with L1 show ?case by (intro exI [of _ L2]) (auto simp: fun_eq_iff)
qed simp

lemma sparse_cleanup_good:
  assumes "good L"
  shows "\<exists>L'. sparse_cleanup k L = Inr L' \<and> good L' \<and> m_HighestIndex L' = m_HighestIndex L
    \<and> contents L' = (\<lambda>i. if k \<le> i \<and> int i < m_HighestIndex L then None else contents L i)"
  using assms
proof (induction "nat (m_HighestIndex L - int k)" arbitrary: k L)
  case 0
  then show ?case by (subst sparse_cleanup.simps) (auto simp: fun_eq_iff)
next
  case (Suc n)
  then have k: "int k < m_HighestIndex L" by simp
  obtain L1 where L1: "Sparse_RemoveAt k L = Inr L1" "good L1" "contents L1 = (contents L)(k := None)"
    using good_RemoveAt [OF Suc.prems] by blast
  have "contents L1 (nat (m_HighestIndex L)) \<noteq> None"
    using good_highest(3) [OF Suc.prems] k L1(3) by auto
  then have h: "m_HighestIndex L1 = m_HighestIndex L"
    using good_highest_le [OF L1(2)] RemoveAt_highest_le [OF L1(1)] k by fastforce
  have "n = nat (m_HighestIndex L1 - int (Suc k))" using Suc.hyps(2) h by simp
  from Suc.hyps(1) [OF this L1(2)] obtain L2 where L2: "sparse_cleanup (Suc k) L1 = Inr L2" "good L2"
      "m_HighestIndex L2 = m_HighestIndex L1"
      "contents L2 = (\<lambda>i. if Suc k \<le> i \<and> int i < m_HighestIndex L1 then None else contents L1 i)" by blast
  have "contents L2 = (\<lambda>i. if k \<le> i \<and> int i < m_HighestIndex L then None else contents L i)"
    unfolding L2(4) L1(3) h using k by (auto simp: fun_eq_iff)
  then show ?case using L1(1) L2 h k by (subst sparse_cleanup.simps) simp
qed


lemma conv_of_nat:
  assumes "k < 2 ^ 31"
  shows "conv I32 (uint (of_nat k :: u64)) = int k" "unat (of_nat k :: u64) = k"
proof -
  show "unat (of_nat k :: u64) = k" using unat_of_nat_bound [of k 31] assms by simp
  then show "conv I32 (uint (of_nat k :: u64)) = int k" using conv_I32 [OF assms] by (simp add: uint_nat)
qed

lemma good_highestI:
  assumes "good L" "- 1 \<le> g" "\<And>i. contents L i \<noteq> None \<Longrightarrow> int i \<le> g"
    and "g \<noteq> - 1 \<Longrightarrow> contents L (nat g) \<noteq> None"
  shows "m_HighestIndex L = g"
proof (rule antisym)
  show "m_HighestIndex L \<le> g"
  proof (cases "m_HighestIndex L = - 1")
    case False
    then show ?thesis
      using assms(3) [of "nat (m_HighestIndex L)"] good_highest(1,3) [OF assms(1)] by simp
  qed (use assms(2) in simp)
  show "g \<le> m_HighestIndex L"
    using assms(2,4) good_highest_le [OF assms(1), of "nat g"] good_highest(1) [OF assms(1)]
    by (cases "g = - 1") auto
qed

text \<open>The indices in use end at the highest one.\<close>

lemma used_end:
  assumes "good L"
  shows "int (if used (contents L) (m_HighestIndex L) = [] then 0
    else Suc (last (used (contents L) (m_HighestIndex L)))) = m_HighestIndex L + 1"
proof (cases "m_HighestIndex L = - 1")
  case False
  let ?h = "m_HighestIndex L"
  have h: "0 \<le> ?h" "contents L (nat ?h) \<noteq> None" using False good_highest(1,3) [OF assms] by auto
  have "[0..<nat (?h + 1)] = [0..<nat ?h] @ [nat ?h]" using h(1) by (simp add: nat_add_distrib)
  then have "last (used (contents L) ?h) = nat ?h" "used (contents L) ?h \<noteq> []" using h(2) by (simp_all add: used_def)
  then show ?thesis using h(1) by simp
qed (simp add: used_def)

lemma used_upto:
  assumes "good L" and i: "ks = used (contents L) (m_HighestIndex L)"
  shows "(if ks \<noteq> [] \<and> i \<le> last ks then if i \<in> set ks then contents L i else None else x)
    = (if int i \<le> m_HighestIndex L then contents L i else x)"
proof -
  have "i \<in> set ks \<longleftrightarrow> int i \<le> m_HighestIndex L \<and> contents L i \<noteq> None" by (auto simp: i used_def)
  moreover have "(ks \<noteq> [] \<and> i \<le> last ks) \<longleftrightarrow> int i \<le> m_HighestIndex L"
    using used_end [OF assms(1)] unfolding i [symmetric] by (cases "ks = []") (simp, simp, linarith)
  ultimately show ?thesis by auto
qed

context value_codec
begin

text \<open>One element read in place.\<close>

lemma sparse_update_value:
  assumes "good L" "contents L k = Some v0" "obj v0" "wf v" "rinv r" "rbits r = enc v @ rest"
  shows "\<exists>L' r'. sparse_update k deser L r = Inr (L', r') \<and> good L' \<and> contents L' = (contents L)(k \<mapsto> v)
    \<and> consumed r r' (enc v) \<and> rbits r' = rest"
proof -
  obtain r' where "deser v0 r = Inr (v, r')" "consumed r r' (enc v)" "rbits r' = rest"
    using deser_rest [OF assms(5,4,3,6)] by blast
  moreover obtain L' where "set_slot k (Live v) L = Inr L'" "good L'" "contents L' = (contents L)(k \<mapsto> v)"
    using good_set_slot [OF assms(1), of k v] assms(2) by auto
  ultimately show ?thesis using assms(2) by (auto simp: sparse_update_def good_index [OF assms(1)])
qed

text \<open>
  The elements of \<open>ks\<close>, read from index \<open>cur\<close> on: everything in between is removed, everything
  behind the last is left as it is.
\<close>

lemma sparse_deser_elems:
  assumes "b < 64" "obj d"
  shows "good L \<Longrightarrow> \<forall>i v. contents L i = Some v \<longrightarrow> obj v \<Longrightarrow> rinv r \<Longrightarrow> sorted_wrt (<) ks \<Longrightarrow>
    \<forall>k\<in>set ks. cur \<le> k \<and> k < 2 ^ b \<and> k < 2 ^ 30 \<and> f k \<noteq> None \<and> wf (the (f k)) \<Longrightarrow>
    rbits r = sparse_entries b enc f ks @ rest \<Longrightarrow>
    \<exists>L' r'. sparse_deser_elems always b d deser (length ks) cur L r
        = Inr ((if ks = [] then cur else Suc (last ks), L'), r')
      \<and> good L' \<and> consumed r r' (sparse_entries b enc f ks)
      \<and> contents L' = (\<lambda>i. if cur \<le> i \<and> ks \<noteq> [] \<and> i \<le> last ks then (if i \<in> set ks then f i else None)
          else contents L i)"
proof (induction ks arbitrary: L cur r)
  case Nil
  then show ?case by auto
next
  case (Cons k ks)
  have k: "cur \<le> k" "k < 2 ^ b" "k < 2 ^ 30" "wf (the (f k))" and fk: "f k = Some (the (f k))"
    using Cons.prems(5) by auto
  let ?v = "the (f k)" and ?e = "sparse_entries b enc f ks"
  obtain r1 where r1: "ReadUBits (int b) r = Inr (of_nat k, r1)" "consumed r r1 (nat_bits b k)"
      "rbits r1 = enc ?v @ ?e @ rest"
    using ReadUBits_nat [OF Cons.prems(3), of b k "enc ?v @ ?e @ rest"] Cons.prems(6) k(2) assms(1) by auto
  have kc: "conv I32 (uint (of_nat k :: u64)) = int k" using conv_of_nat [of k] k(3) by simp
  have cur': "(if int cur < int k then nat (int k) else cur) = k" using k(1) by auto
  obtain L1 where L1: "remove_all [cur..<k] L = Inr L1" "good L1"
      "contents L1 = (\<lambda>i. if i \<in> set [cur..<k] then None else contents L i)"
    using remove_all_good [OF Cons.prems(1)] by blast
  obtain L2 v0 where L2: "(if contents L1 k \<noteq> None then Inr L1 else Sparse_EmplaceAt always k d L1) = Inr L2" "good L2"
      "contents L2 k = Some v0" "obj v0" "(contents L2)(k \<mapsto> ?v) = (contents L1)(k \<mapsto> ?v)"
  proof (cases "contents L1 k")
    case None
    obtain L2 where "Sparse_EmplaceAt always k d L1 = Inr L2" "good L2" "contents L2 = (contents L1)(k \<mapsto> d)"
      using good_EmplaceAt [OF L1(2) k(3)] by blast
    then show ?thesis using None assms(2) that [of L2 d] by simp
  next
    case (Some v0)
    then have "contents L k = Some v0" using L1(3) by (simp split: if_splits)
    then show ?thesis using Some L1(2) Cons.prems(2) that [of L1 v0] by auto
  qed
  obtain L3 r2 where L3: "sparse_update k deser L2 r1 = Inr (L3, r2)" "good L3"
      "contents L3 = (contents L1)(k \<mapsto> ?v)" "consumed r1 r2 (enc ?v)" "rbits r2 = ?e @ rest"
    using sparse_update_value [OF L2(2-4) k(4) consumed_rinv [OF r1(2)] r1(3)] L2(5) by auto
  have c3: "contents L3 = (\<lambda>i. if cur \<le> i \<and> i \<le> k then (if i = k then f k else None) else contents L i)"
    unfolding L3(3) L1(3) using k(1) fk by (auto simp: fun_eq_iff)
  have "\<forall>i v. contents L3 i = Some v \<longrightarrow> obj v"
    unfolding c3 using Cons.prems(2) k(4) fk wf_obj by (auto split: if_splits)
  moreover have "\<forall>j\<in>set ks. Suc k \<le> j \<and> j < 2 ^ b \<and> j < 2 ^ 30 \<and> f j \<noteq> None \<and> wf (the (f j))"
    using Cons.prems(4,5) by (simp add: Suc_le_eq)
  ultimately obtain L4 r3 where L4: "sparse_deser_elems always b d deser (length ks) (Suc k) L3 r2
        = Inr ((if ks = [] then Suc k else Suc (last ks), L4), r3)" "good L4" "consumed r2 r3 ?e"
      "contents L4 = (\<lambda>i. if Suc k \<le> i \<and> ks \<noteq> [] \<and> i \<le> last ks then (if i \<in> set ks then f i else None)
          else contents L3 i)"
    using Cons.IH [OF L3(2) _ consumed_rinv [OF L3(4)], of "Suc k"] Cons.prems(4) L3(5) by auto
  have "sparse_deser_elems always b d deser (length (k # ks)) cur L r
      = Inr ((if ks = [] then Suc k else Suc (last ks), L4), r3)"
    by (simp only: length_Cons sparse_deser_elems.simps r1(1) ebind_Inr prod.case Let_def kc cur' L1(1)
        good_HasAt [OF L1(2)] L2(1) L3(1) L4(1))
  moreover have "consumed r r3 (sparse_entries b enc f (k # ks))"
    using consumed_trans [OF r1(2) consumed_trans [OF L3(4) L4(3)]] by simp
  moreover have "contents L4 = (\<lambda>i. if cur \<le> i \<and> i \<le> last (k # ks)
      then (if i \<in> set (k # ks) then f i else None) else contents L i)"
  proof
    fix i
    have ks: "j \<in> set ks \<Longrightarrow> k < j" for j using Cons.prems(4) by simp
    show "contents L4 i = (if cur \<le> i \<and> i \<le> last (k # ks)
        then (if i \<in> set (k # ks) then f i else None) else contents L i)"
    proof (cases "ks = [] \<or> Suc k \<le> i")
      case True
      then show ?thesis unfolding L4(4) c3 using k(1) by auto
    next
      case False
      then have "i \<notin> set ks" "i \<le> last ks" using ks [of i] ks [of "last ks"] by auto
      then show ?thesis unfolding L4(4) c3 using False by auto
    qed
  qed
  ultimately show ?case using L4(2) by (intro exI [of _ L4] exI [of _ r3]) simp
qed

lemma sparse_deser:
  assumes "m < 2 ^ 30" "obj d" "rinv r" "sparse_of m wf L" "good L0" "\<forall>i v. contents L0 i = Some v \<longrightarrow> obj v"
    and "rbits r = sparse_enc m enc L @ rest"
  shows "\<exists>L' r'. NetDeserializer_Sparse always m d deser L0 r = Inr (L', r') \<and> good L'
    \<and> consumed r r' (sparse_enc m enc L)
    \<and> contents L' = (if m_HighestIndex L < m_HighestIndex L0
        then (contents L)(nat (m_HighestIndex L0) := contents L0 (nat (m_HighestIndex L0))) else contents L)"
proof -
  let ?b = "size_bits m" and ?f = "contents L" and ?h = "m_HighestIndex L" and ?old = "m_HighestIndex L0"
  let ?is = "used ?f ?h"
  have L: "good L" "?h < int m" "\<forall>i v. ?f i = Some v \<longrightarrow> wf v"
    using assms(4) by (auto simp: sparse_of_def)
  have "m < 2 ^ 63" using assms(1) by simp
  from size_bits [OF this] have b: "?b < 64" "0 < ?b" "\<And>v. v \<le> m \<Longrightarrow> v < 2 ^ ?b" by simp_all
  have n: "length ?is \<le> m"
    using length_filter_le [of "\<lambda>i. ?f i \<noteq> None" "[0..<nat (?h + 1)]"] L(2) by (simp add: used_def)
  have e: "sparse_enc m enc L = nat_bits ?b (length ?is) @ sparse_entries ?b enc ?f ?is"
    by (simp add: sparse_enc_def Let_def)
  obtain r1 where r1: "ReadUBits (int ?b) r = Inr (of_nat (length ?is), r1)" "consumed r r1 (nat_bits ?b (length ?is))"
      "rbits r1 = sparse_entries ?b enc ?f ?is @ rest"
    using ReadUBits_nat [OF assms(3), of ?b "length ?is" "sparse_entries ?b enc ?f ?is @ rest"]
      assms(7) b(1) b(3) [OF n] e by auto
  have u: "unat (of_nat (length ?is) :: u64) = length ?is" using n assms(1) conv_of_nat(2) [of "length ?is"] by simp
  have ks: "\<forall>k\<in>set ?is. 0 \<le> k \<and> k < 2 ^ ?b \<and> k < 2 ^ 30 \<and> ?f k \<noteq> None \<and> wf (the (?f k))"
    using used_bound [of _ ?f ?h] L(2,3) b(3) assms(1) by fastforce
  obtain L1 r2 where L1: "sparse_deser_elems always ?b d deser (length ?is) 0 L0 r1
        = Inr ((if ?is = [] then 0 else Suc (last ?is), L1), r2)" "good L1"
      "consumed r1 r2 (sparse_entries ?b enc ?f ?is)"
      "contents L1 = (\<lambda>i. if 0 \<le> i \<and> ?is \<noteq> [] \<and> i \<le> last ?is then (if i \<in> set ?is then ?f i else None)
          else contents L0 i)"
    using sparse_deser_elems [OF b(1) assms(2,5,6) consumed_rinv [OF r1(2)] sorted_used ks r1(3)] by auto
  let ?k = "if ?is = [] then 0 else Suc (last ?is)"
  have k: "int ?k = ?h + 1" by (rule used_end [OF L(1)])
  have c1: "contents L1 = (\<lambda>i. if int i \<le> ?h then ?f i else contents L0 i)"
    unfolding L1(4) by (rule ext) (use used_upto [OF L(1) refl] in simp)
  have h1: "m_HighestIndex L1 = (if ?h < ?old then ?old else ?h)"
  proof (rule good_highestI [OF L1(2)])
    show "- 1 \<le> (if ?h < ?old then ?old else ?h)" using good_highest(1) [OF L(1)] by simp
    show "int i \<le> (if ?h < ?old then ?old else ?h)" if "contents L1 i \<noteq> None" for i
      using that good_highest_le [OF assms(5), of i] unfolding c1 by (simp split: if_splits)
    show "contents L1 (nat (if ?h < ?old then ?old else ?h)) \<noteq> None" if "(if ?h < ?old then ?old else ?h) \<noteq> - 1"
      unfolding c1 using that good_highest(1,3) [OF assms(5)] good_highest(1,3) [OF L(1)] by (simp split: if_splits)
  qed
  obtain L2 where L2: "sparse_cleanup ?k L1 = Inr L2" "good L2"
      "contents L2 = (\<lambda>i. if ?k \<le> i \<and> int i < m_HighestIndex L1 then None else contents L1 i)"
    using sparse_cleanup_good [OF L1(2)] by blast
  have "contents L2 i = (if ?h < ?old then ?f(nat ?old := contents L0 (nat ?old)) else ?f) i" for i
  proof -
    have ki: "?k \<le> i \<longleftrightarrow> ?h < int i" using k by linarith
    have f: "?h < int i \<Longrightarrow> ?f i = None" using good_highest(2) [OF L(1)] .
    have g: "?old < int i \<Longrightarrow> contents L0 i = None" using good_highest(2) [OF assms(5)] .
    show ?thesis
      unfolding L2(3) ki c1 h1 using f g good_highest(1) [OF L(1)] by auto
  qed
  then have c2: "contents L2 = (if ?h < ?old then ?f(nat ?old := contents L0 (nat ?old)) else ?f)" by (rule ext)
  have "NetDeserializer_Sparse always m d deser L0 r = Inr (L2, r2)"
    using r1(1) L1(1) L2(1) u by (simp add: NetDeserializer_Sparse_def)
  moreover have "consumed r r2 (sparse_enc m enc L)"
    using consumed_trans [OF r1(2) L1(3)] e by simp
  ultimately show ?thesis using L2(2) c2 by blast
qed

end

end
