(* ===== verification/SparseDelta.thy ===== *)
theory SparseDelta
  imports SparseCodec
begin

text \<open>
  The difference of two sparse lists, and what both pairs of serializers promise. The encodings are
  stated on the contents: the list sent and the one received may have different capacities.
\<close>


section \<open>Difference\<close>

definition sparse_change ::
    "nat \<Rightarrow> ('v \<Rightarrow> bool list) \<Rightarrow> ('v \<Rightarrow> 'v \<Rightarrow> bool list) \<Rightarrow> (nat \<Rightarrow> 'v option) \<Rightarrow> (nat \<Rightarrow> 'v option) \<Rightarrow> nat \<Rightarrow> bool list" where
  "sparse_change b enc denc f g i =
     (case (f i, g i) of
        (Some v, None) \<Rightarrow> nat_bits b i @ enc v
      | (None, Some _) \<Rightarrow> nat_bits b i @ [False]
      | (Some t, Some s) \<Rightarrow> if t = s then [] else nat_bits b i @ True # denc t s
      | (None, None) \<Rightarrow> [])"

definition changed :: "(nat \<Rightarrow> 'v option) \<Rightarrow> (nat \<Rightarrow> 'v option) \<Rightarrow> nat list \<Rightarrow> nat list" where
  "changed f g is = filter (\<lambda>i. f i \<noteq> g i) is"

definition sparse_changes ::
    "nat \<Rightarrow> ('v \<Rightarrow> bool list) \<Rightarrow> ('v \<Rightarrow> 'v \<Rightarrow> bool list) \<Rightarrow> (nat \<Rightarrow> 'v option) \<Rightarrow> (nat \<Rightarrow> 'v option) \<Rightarrow> nat list
       \<Rightarrow> bool list" where
  "sparse_changes b enc denc f g is = concat (map (sparse_change b enc denc f g) is)"

lemma sparse_changes_simps [simp]:
  "sparse_changes b enc denc f g [] = []"
  "sparse_changes b enc denc f g (i # is) = sparse_change b enc denc f g i @ sparse_changes b enc denc f g is"
  by (simp_all add: sparse_changes_def)

lemma sparse_change_same: "f i = g i \<Longrightarrow> sparse_change b enc denc f g i = []"
  by (auto simp: sparse_change_def split: option.splits)

context element_codec
begin

lemma sparse_delta_entry:
  assumes "good to" "good src" "b < 64" "i < 2 ^ b" "winv w"
    and "\<forall>v. contents to i = Some v \<longrightarrow> wf v" "\<forall>v. contents src i = Some v \<longrightarrow> wf v"
  shows "\<exists>w'. sparse_delta_entry dbg b ser dser to src i w = Inr (contents to i \<noteq> contents src i, w')
    \<and> wrote w w' (sparse_change b enc denc (contents to) (contents src) i)"
proof -
  note has = good_HasAt [OF assms(1)] good_HasAt [OF assms(2)]
  note idx = good_index [OF assms(1)] good_index [OF assms(2)]
  obtain c w1 where w1: "Reserve dbg (int b) w = Inr (c, w1)" "wrote w w1 (replicate b False)"
      "reserved c w" "cSize c = int b"
    using Reserve_spec [OF assms(5), of "int b" dbg] by auto
  have patch: "\<exists>c' w'. CursorWriteBits dbg (of_nat i) (int b) c w2 = Inr (c', w') \<and> wrote w w' (nat_bits b i @ rest)"
    if "wrote w w2 (replicate b False @ rest)" for w2 rest
    using CursorWriteBits_nat [OF assms(5) w1(3) that] w1(4) assms(3,4) by simp
  obtain c1 w2 where w2: "CursorWriteBits dbg (of_nat i) (int b) c w1 = Inr (c1, w2)" "wrote w w2 (nat_bits b i)"
    using patch [of w1 "[]"] w1(2) by auto
  obtain n w3 where w3: "Reserve dbg 1 w1 = Inr (n, w3)" "wrote w1 w3 [False]" "reserved n w1" "cSize n = 1"
    using Reserve_flag [OF wrote_winv [OF w1(2)]] by blast
  have roll: "\<exists>w'. RollBack c w4 = Inr w' \<and> wrote w w' []" if "wrote w w4 xs" for w4 xs
    using RollBack_spec [OF assms(5) wrote_winv [OF that] w1(3) wrote_wbits [OF that]] .
  consider (new) t where "contents to i = Some t" "contents src i = None"
    | (gone) s where "contents to i = None" "contents src i = Some s"
    | (none) "contents to i = None" "contents src i = None"
    | (both) t s where "contents to i = Some t" "contents src i = Some s"
    by (cases "contents to i"; cases "contents src i") auto
  then show ?thesis
  proof cases
    case new
    obtain w4 where "ser t w2 = Inr w4" "wrote w2 w4 (enc t)"
      using ser_enc [OF wrote_winv [OF w2(2)]] assms(6) new by blast
    then show ?thesis
      using new w1(1) w2 wrote_trans [OF w2(2)]
      by (auto simp: sparse_delta_entry_def has idx sparse_change_def)
  next
    case gone
    obtain w4 where "WriteBits dbg 0 1 w2 = Inr w4" "wrote w2 w4 [False]"
      using WriteBits_flag_0 [OF wrote_winv [OF w2(2)]] by blast
    then show ?thesis
      using gone w1(1) w2 wrote_trans [OF w2(2)]
      by (auto simp: sparse_delta_entry_def has idx sparse_change_def)
  next
    case none
    obtain w4 where "RollBack c w3 = Inr w4" "wrote w w4 []"
      using roll [OF wrote_trans [OF w1(2) w3(2)]] by blast
    then show ?thesis
      using none w1(1) w3(1) by (auto simp: sparse_delta_entry_def has idx sparse_change_def)
  next
    case both
    obtain w4 where w4: "dser t s w3 = Inr (t \<noteq> s, w4)" "wrote w3 w4 (denc t s)"
      using dser_denc [OF wrote_winv [OF w3(2)]] assms(6,7) both by blast
    have w04: "wrote w w4 (replicate b False @ False # denc t s)"
      using wrote_trans [OF w1(2) wrote_trans [OF w3(2) w4(2)]] by simp
    show ?thesis
    proof (cases "t = s")
      case True
      obtain w5 where "RollBack c w4 = Inr w5" "wrote w w5 []" using roll [OF w04] by blast
      then show ?thesis
        using True both w1(1) w3(1) w4(1) by (auto simp: sparse_delta_entry_def has idx sparse_change_def)
    next
      case False
      obtain c2 w5 where w5: "CursorWriteBits dbg (of_nat i) (int b) c w4 = Inr (c2, w5)"
          "wrote w w5 (nat_bits b i @ [False] @ denc t s)"
        using patch [OF w04] by auto
      note rc = reserved_cursor [OF wrote_winv [OF w1(2)] w3(3)]
      have "cpos n = wlen w + length (nat_bits b i)"
      proof -
        have "length (wbits w1) = length (wbits w) + b" using wrote_wbits [OF w1(2)] by simp
        then show ?thesis using rc wrote_winv [OF w1(2)] assms(5) by (simp add: length_wbits)
      qed
      then obtain c3 w6 where w6: "CursorWriteBits dbg 1 1 n w5 = Inr (c3, w6)"
          "wrote w w6 (nat_bits b i @ bits_of 1 1 @ denc t s)"
        using cursor_fill [of w n "nat_bits b i" w5 "[False]" "denc t s" 1 dbg 1] assms(5) rc w3(4) w5(2)
        by (auto simp: writable_small)
      have "bits_of 1 1 = [True]" by (simp add: bits_of_def)
      then show ?thesis
        using False both w1(1) w3(1) w4(1) w5(1) w6 by (auto simp: sparse_delta_entry_def has idx sparse_change_def)
    qed
  qed
qed

lemma sparse_delta_loop:
  assumes "good to" "good src" "b < 64" "\<forall>i v. contents to i = Some v \<longrightarrow> wf v"
    "\<forall>i v. contents src i = Some v \<longrightarrow> wf v"
  shows "winv w \<Longrightarrow> \<forall>i\<in>set is. i < 2 ^ b \<Longrightarrow>
    \<exists>w'. sparse_delta_loop dbg b ser dser to src is n w
        = Inr (n + length (changed (contents to) (contents src) is), w')
      \<and> wrote w w' (sparse_changes b enc denc (contents to) (contents src) (changed (contents to) (contents src) is))"
proof (induction "is" arbitrary: n w)
  case (Cons i "is")
  let ?f = "contents to" and ?g = "contents src"
  have i: "i < 2 ^ b" using Cons.prems(2) by simp
  obtain w1 where w1: "sparse_delta_entry dbg b ser dser to src i w = Inr (?f i \<noteq> ?g i, w1)"
      "wrote w w1 (sparse_change b enc denc ?f ?g i)"
    using sparse_delta_entry [OF assms(1-3) i Cons.prems(1)] assms(4,5) by blast
  define n' where "n' = (if ?f i \<noteq> ?g i then Suc n else n)"
  obtain w2 where w2: "sparse_delta_loop dbg b ser dser to src is n' w1 = Inr (n' + length (changed ?f ?g is), w2)"
      "wrote w1 w2 (sparse_changes b enc denc ?f ?g (changed ?f ?g is))"
    using Cons.IH [OF wrote_winv [OF w1(2)]] Cons.prems(2) by auto
  have "sparse_delta_loop dbg b ser dser to src (i # is) n w = Inr (n' + length (changed ?f ?g is), w2)"
    using w1(1) w2(1) by (simp add: n'_def)
  then show ?case
    using wrote_trans [OF w1(2) w2(2)] sparse_change_same [of ?f i ?g]
    by (auto simp: changed_def n'_def)
qed (simp add: changed_def)

end


definition sparse_denc ::
    "nat \<Rightarrow> ('v \<Rightarrow> bool list) \<Rightarrow> ('v \<Rightarrow> 'v \<Rightarrow> bool list) \<Rightarrow> 'v NetSparseList \<Rightarrow> 'v NetSparseList \<Rightarrow> bool list" where
  "sparse_denc m enc denc to src =
     (let h = m_HighestIndex to; cs = changed (contents to) (contents src) [0..<nat (h + 1)] in
      if h = m_HighestIndex src \<and> cs = [] then []
      else (if h \<noteq> m_HighestIndex src then True # nat_bits (size_bits m) (nat (h + 1)) else [False])
        @ nat_bits (int_bits (h + 1)) (length cs)
        @ sparse_changes (int_bits h) enc denc (contents to) (contents src) cs)"

lemma int_bits_bounds:
  assumes "- 1 \<le> h" "h < 2 ^ 31 - 1"
  shows "int_bits (h + 1) < 64" "n \<le> nat (h + 1) \<Longrightarrow> n < 2 ^ int_bits (h + 1)"
    and "0 \<le> h \<Longrightarrow> int_bits h < 64" "int i \<le> h \<Longrightarrow> i < 2 ^ int_bits h"
proof -
  have e: "h + 1 = int (nat (h + 1))" using assms(1) by simp
  have m: "nat (h + 1) < 2 ^ 31" using assms(2) by simp
  show "int_bits (h + 1) < 64" using count_bits(1) [OF m] e by simp
  show "n \<le> nat (h + 1) \<Longrightarrow> n < 2 ^ int_bits (h + 1)" using count_bits(3) [OF m, of n] e by simp
  have m': "nat h < 2 ^ 31" using assms(2) by simp
  show "0 \<le> h \<Longrightarrow> int_bits h < 64" using count_bits(1) [OF m'] by simp
  show "int i \<le> h \<Longrightarrow> i < 2 ^ int_bits h" using count_bits(3) [OF m', of i] by simp
qed

lemma int_bits_minus_1: "int_bits (- 1) < 64"
  by code_simp

lemma contents_eq_iff:
  assumes "good L" "good M"
  shows "contents L = contents M \<longleftrightarrow> m_HighestIndex L = m_HighestIndex M
    \<and> changed (contents L) (contents M) [0..<nat (m_HighestIndex L + 1)] = []"
proof safe
  assume a: "m_HighestIndex L = m_HighestIndex M" "changed (contents L) (contents M) [0..<nat (m_HighestIndex L + 1)] = []"
  show "contents L = contents M"
  proof
    fix i
    show "contents L i = contents M i"
    proof (cases "int i \<le> m_HighestIndex L")
      case True
      then have "i \<in> set [0..<nat (m_HighestIndex L + 1)]" by simp
      then show ?thesis using a(2) by (auto simp: changed_def filter_empty_conv)
    next
      case False
      then show ?thesis using good_highest(2) [OF assms(1)] good_highest(2) [OF assms(2)] a(1) by simp
    qed
  qed
qed (use good_highest_eq [OF assms] in \<open>auto simp: changed_def\<close>)

text \<open>The head of a delta: a flag and, where it changes, the length of the index range.\<close>

definition sparse_head :: "nat \<Rightarrow> int \<Rightarrow> int \<Rightarrow> bool list" where
  "sparse_head m h old = (if h \<noteq> old then True # nat_bits (size_bits m) (nat (h + 1)) else [False])"

lemma sparse_denc_head:
  assumes "good to" "good src" "contents to \<noteq> contents src"
  shows "sparse_denc m enc denc to src = sparse_head m (m_HighestIndex to) (m_HighestIndex src)
    @ nat_bits (int_bits (m_HighestIndex to + 1))
        (length (changed (contents to) (contents src) [0..<nat (m_HighestIndex to + 1)]))
    @ sparse_changes (int_bits (m_HighestIndex to)) enc denc (contents to) (contents src)
        (changed (contents to) (contents src) [0..<nat (m_HighestIndex to + 1)])"
  using contents_eq_iff [OF assms(1,2)] assms(3) by (auto simp: sparse_denc_def sparse_head_def Let_def)

lemma length_changed: "length (changed f g [0..<n]) \<le> n"
  using length_filter_le [of "\<lambda>i. f i \<noteq> g i" "[0..<n]"] by (simp add: changed_def)

lemma sparse_head_write:
  assumes "m < 2 ^ 31" "winv w" "- 1 \<le> h" "h < int m"
    and w1: "wrote w w1 [False]" "reserved bc w" "cSize bc = 1"
  shows "\<exists>bc' w2. (if h \<noteq> old then
        ebind (CursorWriteBits dbg 1 1 bc w1) (\<lambda>(begin_cursor, w).
        ebind (WriteBits dbg (word_of_int (h + 1)) (int (size_bits m)) w) (\<lambda>w. Inr (begin_cursor, w)))
      else Inr (bc, w1)) = Inr (bc', w2) \<and> wrote w w2 (sparse_head m h old) \<and> (h = old \<longrightarrow> bc' = bc)"
proof (cases "h = old")
  case True
  then show ?thesis using w1(1) by (simp add: sparse_head_def)
next
  case False
  obtain c w3 where w3: "CursorWriteBits dbg 1 1 bc w1 = Inr (c, w3)" "wrote w w3 [True]"
    using CursorWriteBits_flag [OF assms(2) w1(2), of w1 False "[]" dbg True] w1(1,3) by auto
  have "m < 2 ^ 63" using assms(1) by simp
  note kb = size_bits [OF this]
  have "word_of_int (h + 1) = (of_nat (nat (h + 1)) :: u64)" using assms(3) by (simp add: of_nat_nat)
  then obtain w4 where w4: "WriteBits dbg (word_of_int (h + 1)) (int (size_bits m)) w3 = Inr w4"
      "wrote w3 w4 (nat_bits (size_bits m) (nat (h + 1)))"
    using WriteBits_nat [OF wrote_winv [OF w3(2)], of "nat (h + 1)" "size_bits m" dbg] kb(1) kb(3) [of "nat (h + 1)"]
      assms(4) by auto
  show ?thesis using False w3(1) w4(1) wrote_trans [OF w3(2) w4(2)] by (auto simp: sparse_head_def)
qed

lemma sparse_head_read:
  assumes "m < 2 ^ 30" "rinv r" "- 1 \<le> h" "h < int m" "rbits r = sparse_head m h old @ t"
  shows "\<exists>r1. ebind (ReadUBits 1 r) (\<lambda>(size_change, r).
      if size_change \<noteq> 0 then
        ebind (ReadUBits (int (size_bits m)) r) (\<lambda>(n, r). Inr (conv I32 (uint (n - 1)), r))
      else Inr (old, r)) = Inr (h, r1) \<and> consumed r r1 (sparse_head m h old) \<and> rbits r1 = t"
proof (cases "h = old")
  case True
  obtain r1 where "ReadUBits 1 r = Inr (0, r1)" "consumed r r1 [False]" "rbits r1 = t"
    using ReadUBits_flag [OF assms(2), of False t] assms(5) True by (auto simp: sparse_head_def)
  then show ?thesis using True by (simp add: sparse_head_def)
next
  case False
  let ?n = "nat (h + 1)" and ?kb = "size_bits m"
  obtain r1 where r1: "ReadUBits 1 r = Inr (1, r1)" "consumed r r1 [True]" "rbits r1 = nat_bits ?kb ?n @ t"
    using ReadUBits_flag [OF assms(2), of True "nat_bits ?kb ?n @ t"] assms(5) False by (auto simp: sparse_head_def)
  have "m < 2 ^ 63" using assms(1) by simp
  note kb = size_bits [OF this]
  have n: "?n < 2 ^ ?kb" "?n \<le> m" using kb(3) [of ?n] assms(4) by auto
  obtain r2 where r2: "ReadUBits (int ?kb) r1 = Inr (of_nat ?n, r2)" "consumed r1 r2 (nat_bits ?kb ?n)" "rbits r2 = t"
    using ReadUBits_nat [OF consumed_rinv [OF r1(2)] r1(3) n(1) kb(1)] by blast
  have "conv I32 (uint (of_nat ?n - 1 :: u64)) = h"
  proof (cases "h = - 1")
    case True
    moreover have "conv I32 (uint (- 1 :: u64)) = - 1" by code_simp
    ultimately show ?thesis by simp
  next
    case False
    then have "nat h < 2 ^ 31" "(of_nat ?n - 1 :: u64) = of_nat (nat h)"
      using assms(1,3) n(2) by (simp_all add: nat_add_distrib)
    then show ?thesis using conv_of_nat(1) [of "nat h"] assms(3) False by simp
  qed
  then show ?thesis
    using False r1(1) r2(1) consumed_trans [OF r1(2) r2(2)] r2(3) by (auto simp: sparse_head_def)
qed

text \<open>Once the changes up to the new highest index are made, what is behind it is removed.\<close>

lemma sparse_trim:
  assumes "good to" "good L1"
    and "\<And>i. int i \<le> m_HighestIndex to \<Longrightarrow> contents L1 i = contents to i"
  shows "\<exists>L2. remove_all (rev [nat (m_HighestIndex to + 1)..<nat (m_HighestIndex L1 + 1)]) L1 = Inr L2
    \<and> good L2 \<and> contents L2 = contents to"
proof -
  let ?h = "m_HighestIndex to" and ?rm = "rev [nat (m_HighestIndex to + 1)..<nat (m_HighestIndex L1 + 1)]"
  obtain L2 where L2: "remove_all ?rm L1 = Inr L2" "good L2"
      "contents L2 = (\<lambda>i. if i \<in> set ?rm then None else contents L1 i)"
    using remove_all_good [OF assms(2)] by blast
  have "contents L2 i = contents to i" for i
  proof (cases "int i \<le> ?h")
    case True
    then have "i \<notin> set ?rm" using good_highest(1) [OF assms(1)] by simp
    then show ?thesis unfolding L2(3) using assms(3) [OF True] by (simp only: if_False)
  next
    case False
    then have "contents to i = None" using good_highest(2) [OF assms(1)] by simp
    moreover have "i \<in> set ?rm \<or> contents L1 i = None"
      using False good_highest_le [OF assms(2), of i] by auto
    ultimately show ?thesis unfolding L2(3) by auto
  qed
  then show ?thesis using L2(1,2) by blast
qed

context element_codec
begin

lemma sparse_dser:
  assumes "m < 2 ^ 31" "winv w" "sparse_of m wf to" "sparse_of m wf src"
  shows "\<exists>w'. NetSerializerDelta_Sparse dbg m ser dser to src w = Inr (contents to \<noteq> contents src, w')
    \<and> wrote w w' (sparse_denc m enc denc to src)"
proof -
  let ?h = "m_HighestIndex to" and ?sc = "m_HighestIndex to \<noteq> m_HighestIndex src"
  let ?f = "contents to" and ?g = "contents src"
  let ?b = "int_bits ?h" and ?sb = "int_bits (?h + 1)" and ?kb = "size_bits m"
  let ?cs = "changed ?f ?g [0..<nat (?h + 1)]"
  let ?ch = "sparse_changes ?b enc denc ?f ?g ?cs"
  have to: "good to" "?h < int m" "\<forall>i v. ?f i = Some v \<longrightarrow> wf v"
    and src: "good src" "\<forall>i v. ?g i = Some v \<longrightarrow> wf v"
    using assms(3,4) by (auto simp: sparse_of_def)
  note hb = good_highest(1,4) [OF to(1)]
  note ib = int_bits_bounds [OF hb]
  have b: "?b < 64" using ib(3) int_bits_minus_1 hb(1) by (cases "?h = - 1") auto
  let ?ds = "sparse_head m ?h (m_HighestIndex src)"
  obtain bc w1 where w1: "Reserve dbg 1 w = Inr (bc, w1)" "wrote w w1 [False]" "reserved bc w" "cSize bc = 1"
    using Reserve_flag [OF assms(2)] by blast
  have flag: "\<exists>c' w'. CursorWriteBits dbg (of_bool x) 1 bc w2 = Inr (c', w') \<and> wrote w w' (x # rest)"
    if "wrote w w2 (y # rest)" for w2 x y rest
    using CursorWriteBits_flag [OF assms(2) w1(3) that, of dbg x] w1(4) by simp
  obtain bc' w2 where w2: "(if ?sc then
        ebind (CursorWriteBits dbg 1 1 bc w1) (\<lambda>(begin_cursor, w).
        ebind (WriteBits dbg (word_of_int (?h + 1)) (int ?kb) w) (\<lambda>w. Inr (begin_cursor, w)))
      else Inr (bc, w1)) = Inr (bc', w2)" "wrote w w2 ?ds" "\<not> ?sc \<longrightarrow> bc' = bc"
    using sparse_head_write [OF assms(1,2) hb(1) to(2) w1(2-4), of "m_HighestIndex src" dbg] by blast
  obtain sc w3 where w3: "Reserve dbg (int ?sb) w2 = Inr (sc, w3)" "wrote w2 w3 (replicate ?sb False)"
      "reserved sc w2" "cSize sc = int ?sb"
    using Reserve_spec [OF wrote_winv [OF w2(2)], of "int ?sb" dbg] by auto
  have "\<forall>i\<in>set [0..<nat (?h + 1)]. i < 2 ^ ?b" using ib(4) by auto
  then obtain w4 where w4: "sparse_delta_loop dbg ?b ser dser to src [0..<nat (?h + 1)] 0 w3 = Inr (length ?cs, w4)"
      "wrote w3 w4 ?ch"
    using sparse_delta_loop [OF to(1) src(1) b to(3) src(2) wrote_winv [OF w3(2)], where n = 0] unfolding add_0
    by blast
  have w04: "wrote w w4 (?ds @ replicate ?sb False @ ?ch)"
    using wrote_trans [OF w2(2) wrote_trans [OF w3(2) w4(2)]] .
  note eq = contents_eq_iff [OF to(1) src(1)]
  show ?thesis
  proof (cases "?cs = [] \<and> \<not> ?sc")
    case True
    obtain w5 where "RollBack bc w4 = Inr w5" "wrote w w5 []"
      using RollBack_spec [OF assms(2) wrote_winv [OF w04] w1(3) wrote_wbits [OF w04]] by blast
    then show ?thesis
      using True w1(1) w2(1,3) w3(1) w4(1) eq
      by (auto simp: NetSerializerDelta_Sparse_def sparse_denc_def Let_def)
  next
    case False
    obtain w5 where w5: "(if \<not> ?sc then ebind (CursorWriteBits dbg 0 1 bc' w4) (\<lambda>(_, w). Inr w) else Inr w4) = Inr w5"
        "wrote w w5 (?ds @ replicate ?sb False @ ?ch)"
    proof (cases ?sc)
      case False
      then obtain c w5 where "CursorWriteBits dbg 0 1 bc w4 = Inr (c, w5)" "wrote w w5 (?ds @ replicate ?sb False @ ?ch)"
        using flag [of w4 False "replicate ?sb False @ ?ch" False] w04 by (auto simp: sparse_head_def)
      then show ?thesis using False w2(3) that by simp
    qed (use w04 that in auto)
    note rc = reserved_cursor [OF wrote_winv [OF w2(2)] w3(3)]
    have "cpos sc = wlen w + length ?ds"
    proof -
      have "length (wbits w2) = length (wbits w) + length ?ds" using wrote_wbits [OF w2(2)] by simp
      then show ?thesis using rc wrote_winv [OF w2(2)] assms(2) by (simp add: length_wbits)
    qed
    moreover have n: "length ?cs < 2 ^ ?sb"
      using ib(2) [OF length_changed] .
    ultimately obtain c w6 where w6: "CursorWriteBits dbg (of_nat (length ?cs)) (int ?sb) sc w5 = Inr (c, w6)"
        "wrote w w6 (?ds @ nat_bits ?sb (length ?cs) @ ?ch)"
      using cursor_fill [of w sc ?ds w5 "replicate ?sb False" ?ch "int ?sb" dbg "of_nat (length ?cs)"]
        assms(2) rc w5(2) ib(1) w3(4) of_nat_take_bit [OF n] by (auto simp: writable_def nat_bits_def)
    have ne: "?f \<noteq> ?g" using False eq by auto
    note e = sparse_denc_head [OF to(1) src(1) ne, of m enc denc]
    have "NetSerializerDelta_Sparse dbg m ser dser to src w = Inr (True, w6)"
    proof -
      have nz: "(length ?cs = 0 \<and> \<not> ?sc) = False" using False by simp
      show ?thesis
        unfolding NetSerializerDelta_Sparse_def Let_def
        by (simp only: w1(1) ebind_Inr prod.case w2(1) w3(1) w4(1) nz if_False w5(1) w6(1))
    qed
    then show ?thesis using w6(2) ne e by simp
  qed
qed

end


context element_codec
begin

text \<open>One entry applied to a list that still holds the old element at its index.\<close>

lemma sparse_delta_deser_elems:
  assumes "b < 64" "obj d" "\<forall>i v. f i = Some v \<longrightarrow> wf v" "\<forall>i v. g i = Some v \<longrightarrow> wf v"
  shows "good L \<Longrightarrow> rinv r \<Longrightarrow> distinct cs \<Longrightarrow>
    \<forall>i\<in>set cs. i < 2 ^ b \<and> i < 2 ^ 30 \<and> f i \<noteq> g i \<and> contents L i = g i \<Longrightarrow>
    rbits r = sparse_changes b enc denc f g cs @ rest \<Longrightarrow>
    \<exists>L' r'. sparse_delta_deser_elems always b d deser dder (length cs) L r = Inr (L', r') \<and> good L'
      \<and> consumed r r' (sparse_changes b enc denc f g cs)
      \<and> contents L' = (\<lambda>i. if i \<in> set cs then f i else contents L i)"
proof (induction cs arbitrary: L r)
  case Nil
  then show ?case by auto
next
  case (Cons i cs)
  let ?e = "sparse_changes b enc denc f g cs"
  have i: "i < 2 ^ b" "i < 2 ^ 30" "f i \<noteq> g i" and gi: "contents L i = g i" using Cons.prems(4) by auto
  have u: "unat (of_nat i :: u64) = i" using conv_of_nat(2) [of i] i(2) by simp
  obtain tail where tail: "sparse_change b enc denc f g i = nat_bits b i @ tail"
    using i(3) by (cases "f i"; cases "g i") (auto simp: sparse_change_def)
  have bits: "rbits r = nat_bits b i @ tail @ ?e @ rest" using Cons.prems(5) tail by simp
  obtain r1 where r1: "ReadUBits (int b) r = Inr (of_nat i, r1)" "consumed r r1 (nat_bits b i)"
      "rbits r1 = tail @ ?e @ rest"
    using ReadUBits_nat [OF Cons.prems(2) bits i(1) assms(1)] by blast
  note rinv1 = consumed_rinv [OF r1(2)]
  obtain L1 r2 where L1: "(if \<not> (g i \<noteq> None) then
        ebind (Sparse_EmplaceAt always i d L) (\<lambda>val. sparse_update i deser val r1)
      else
        ebind (ReadUBits 1 r1) (\<lambda>(existing_elem, r).
          if existing_elem \<noteq> 0 then sparse_update i dder L r
          else ebind (Sparse_RemoveAt i L) (\<lambda>val. Inr (val, r)))) = Inr (L1, r2)"
      "good L1" "contents L1 = (contents L)(i := f i)" "consumed r1 r2 tail" "rbits r2 = ?e @ rest"
  proof (cases "g i")
    case None
    then obtain v where v: "f i = Some v" using i(3) by auto
    then have t: "tail = enc v" using tail None by (simp add: sparse_change_def)
    obtain L0 where L0: "Sparse_EmplaceAt always i d L = Inr L0" "good L0" "contents L0 = (contents L)(i \<mapsto> d)"
      using good_EmplaceAt [OF Cons.prems(1) i(2)] by blast
    obtain L1 r2 where "sparse_update i deser L0 r1 = Inr (L1, r2)" "good L1"
        "contents L1 = (contents L0)(i \<mapsto> v)" "consumed r1 r2 (enc v)" "rbits r2 = ?e @ rest"
      using sparse_update_value [OF L0(2), of i d v r1] L0(3) assms(2,3) v rinv1 r1(3) t by auto
    then show ?thesis using L0 None v t that by simp
  next
    case (Some s)
    show ?thesis
    proof (cases "f i")
      case None
      then have t: "tail = [False]" using tail Some by (simp add: sparse_change_def)
      obtain r2 where r2: "ReadUBits 1 r1 = Inr (0, r2)" "consumed r1 r2 [False]" "rbits r2 = ?e @ rest"
        using ReadUBits_flag [OF rinv1, of False] r1(3) t by auto
      obtain L1 where "Sparse_RemoveAt i L = Inr L1" "good L1" "contents L1 = (contents L)(i := None)"
        using good_RemoveAt [OF Cons.prems(1)] by blast
      then show ?thesis using r2 None Some t that by simp
    next
      case f: (Some t')
      have ne: "t' \<noteq> s" using i(3) f Some by simp
      then have t: "tail = True # denc t' s" using tail f Some by (simp add: sparse_change_def)
      obtain r2 where r2: "ReadUBits 1 r1 = Inr (1, r2)" "consumed r1 r2 [True]" "rbits r2 = denc t' s @ ?e @ rest"
        using ReadUBits_flag [OF rinv1, of True] r1(3) t by auto
      have wfs: "wf t'" "wf s" using assms(3,4) f Some by blast+
      obtain r3 where r3: "dder s r2 = Inr (t', r3)" "consumed r2 r3 (denc t' s)" "rbits r3 = ?e @ rest"
        using dder_rest [OF consumed_rinv [OF r2(2)] wfs ne r2(3)] by blast
      obtain L1 where L1: "set_slot i (Live t') L = Inr L1" "good L1" "contents L1 = (contents L)(i \<mapsto> t')"
        using good_set_slot [OF Cons.prems(1), of i t'] gi Some by auto
      have "sparse_update i dder L r2 = Inr (L1, r3)"
        using L1(1) r3(1) gi Some by (simp add: sparse_update_def good_index [OF Cons.prems(1)])
      then show ?thesis
        using r2(1) L1(2,3) f Some t consumed_trans [OF r2(2) r3(2)] r3(3) that by simp
    qed
  qed
  have "\<forall>j\<in>set cs. j < 2 ^ b \<and> j < 2 ^ 30 \<and> f j \<noteq> g j \<and> contents L1 j = g j"
    using Cons.prems(3,4) L1(3) by auto
  then obtain L2 r3 where L2: "sparse_delta_deser_elems always b d deser dder (length cs) L1 r2 = Inr (L2, r3)" "good L2"
      "consumed r2 r3 ?e" "contents L2 = (\<lambda>j. if j \<in> set cs then f j else contents L1 j)"
    using Cons.IH [OF L1(2) consumed_rinv [OF L1(4)] _ _ L1(5)] Cons.prems(3) by auto
  have "sparse_delta_deser_elems always b d deser dder (length (i # cs)) L r = Inr (L2, r3)"
    by (simp only: length_Cons sparse_delta_deser_elems.simps r1(1) ebind_Inr prod.case Let_def u
        good_HasAt [OF Cons.prems(1)] gi L1(1) L2(1))
  moreover have "consumed r r3 (sparse_changes b enc denc f g (i # cs))"
    using consumed_trans [OF r1(2) consumed_trans [OF L1(4) L2(3)]] tail by simp
  moreover have "contents L2 = (\<lambda>j. if j \<in> set (i # cs) then f j else contents L j)"
    unfolding L2(4) L1(3) by (auto simp: fun_eq_iff)
  ultimately show ?case using L2(2) by blast
qed

lemma sparse_dder:
  assumes "m < 2 ^ 30" "obj d" "rinv r" "sparse_of m wf to" "sparse_of m wf src"
    and "contents to \<noteq> contents src" "good L" "contents L = contents src"
    and "rbits r = sparse_denc m enc denc to src @ rest"
  shows "\<exists>L' r'. NetDeserializerDelta_Sparse always m d deser dder L r = Inr (L', r') \<and> good L'
    \<and> contents L' = contents to \<and> consumed r r' (sparse_denc m enc denc to src)"
proof -
  let ?h = "m_HighestIndex to" and ?sc = "m_HighestIndex to \<noteq> m_HighestIndex src"
  let ?f = "contents to" and ?g = "contents src"
  let ?b = "int_bits ?h" and ?sb = "int_bits (?h + 1)" and ?kb = "size_bits m"
  let ?cs = "changed ?f ?g [0..<nat (?h + 1)]"
  let ?ch = "sparse_changes ?b enc denc ?f ?g ?cs"
  have to: "good to" "?h < int m" "\<forall>i v. ?f i = Some v \<longrightarrow> wf v"
    and src: "good src" "\<forall>i v. ?g i = Some v \<longrightarrow> wf v"
    using assms(4,5) by (auto simp: sparse_of_def)
  note hb = good_highest(1,4) [OF to(1)]
  note ib = int_bits_bounds [OF hb]
  have b: "?b < 64" using ib(3) int_bits_minus_1 hb(1) by (cases "?h = - 1") auto
  have hL: "m_HighestIndex L = m_HighestIndex src" using good_highest_eq [OF assms(7) src(1) assms(8)] .
  let ?ds = "sparse_head m ?h (m_HighestIndex src)"
  note e = sparse_denc_head [OF to(1) src(1) assms(6), of m enc denc]
  let ?t = "nat_bits ?sb (length ?cs) @ ?ch @ rest"
  have "rbits r = ?ds @ ?t" using assms(9) e by simp
  from sparse_head_read [OF assms(1,3) hb(1) to(2) this]
  obtain r1 where r1: "ebind (ReadUBits 1 r) (\<lambda>(size_change, r).
      if size_change \<noteq> 0 then
        ebind (ReadUBits (int ?kb) r) (\<lambda>(n, r). Inr (conv I32 (uint (n - 1)), r))
      else Inr (m_HighestIndex L, r)) = Inr (?h, r1)" "consumed r r1 ?ds" "rbits r1 = ?t"
    unfolding hL by blast
  have n: "length ?cs \<le> nat (?h + 1)" by (rule length_changed)
  obtain r2 where r2: "ReadUBits (int ?sb) r1 = Inr (of_nat (length ?cs), r2)" "consumed r1 r2 (nat_bits ?sb (length ?cs))"
      "rbits r2 = ?ch @ rest"
    using ReadUBits_nat [OF consumed_rinv [OF r1(2)] r1(3) ib(2) [OF n] ib(1)] by blast
  have u: "unat (of_nat (length ?cs) :: u64) = length ?cs"
    using conv_of_nat(2) [of "length ?cs"] n to(2) assms(1) by simp
  have "\<forall>i\<in>set ?cs. i < 2 ^ ?b \<and> i < 2 ^ 30 \<and> ?f i \<noteq> ?g i \<and> contents L i = ?g i"
    using ib(4) to(2) assms(1,8) by (auto simp: changed_def)
  moreover have "distinct ?cs" by (simp add: changed_def)
  ultimately obtain L1 r3 where L1: "sparse_delta_deser_elems always ?b d deser dder (length ?cs) L r2 = Inr (L1, r3)" "good L1"
      "consumed r2 r3 ?ch" "contents L1 = (\<lambda>i. if i \<in> set ?cs then ?f i else contents L i)"
    using sparse_delta_deser_elems [OF b assms(2) to(3) src(2) assms(7) consumed_rinv [OF r2(2)] _ _ r2(3)] by blast
  have "contents L1 i = ?f i" if "int i \<le> ?h" for i
    unfolding L1(4) using that assms(8) by (auto simp: changed_def)
  from sparse_trim [OF to(1) L1(2) this] obtain L2 where
    L2: "remove_all (rev [nat (?h + 1)..<nat (m_HighestIndex L1 + 1)]) L1 = Inr L2" "good L2" "contents L2 = ?f" by blast
  have "consumed r r3 (sparse_denc m enc denc to src)"
    using consumed_trans [OF r1(2) consumed_trans [OF r2(2) L1(3)]] e by simp
  moreover have "NetDeserializerDelta_Sparse always m d deser dder L r = Inr (L2, r3)"
  proof -
    have "NetDeserializerDelta_Sparse always m d deser dder L r =
      ebind (ebind (ReadUBits 1 r) (\<lambda>(size_change, r).
      if size_change \<noteq> 0 then
        ebind (ReadUBits (int ?kb) r) (\<lambda>(n, r). Inr (conv I32 (uint (n - 1)), r))
      else Inr (m_HighestIndex L, r))) (\<lambda>(highest_index, r).
     ebind (ReadUBits (int (int_bits (highest_index + 1))) r) (\<lambda>(n, r).
     ebind (sparse_delta_deser_elems always (int_bits highest_index) d deser dder (unat n) L r) (\<lambda>(val, r).
     ebind (remove_all (rev [nat (highest_index + 1)..<nat (m_HighestIndex val + 1)]) val) (\<lambda>val.
       Inr (val, r)))))"
      unfolding NetDeserializerDelta_Sparse_def
      by (cases "ReadUBits 1 r") (auto split: prod.split)
    then show ?thesis by (simp only: r1(1) ebind_Inr prod.case r2(1) u L1(1) L2(1))
  qed
  ultimately show ?thesis using L2(2,3) by blast
qed

end

section \<open>The theorems\<close>

text \<open>Reading a serialized list into any list gives the list sent, except
  that the cleanup loop stops one short: if the receiving list was longer, its last element is left
  behind.\<close>

theorem sparse_full_value:
  assumes "value_codec ser deser okv obj enc" "m < 2 ^ 30" "obj d" "winv w" "sparse_of m okv L"
  shows "\<exists>w' bs. NetSerializer_Sparse dbg m ser L w = Inr w' \<and> winv w' \<and> wbits w' = wbits w @ bs
    \<and> (\<forall>L0 r rest. good L0 \<and> (\<forall>i v. contents L0 i = Some v \<longrightarrow> obj v) \<and> rinv r \<and> rbits r = bs @ rest \<longrightarrow>
         NetDeserializer_Sparse mal m d deser L0 r = Inl BadAlloc \<and> (\<exists>n. \<not> mal n)
         \<or> (\<exists>L' r'. NetDeserializer_Sparse mal m d deser L0 r = Inr (L', r') \<and> good L' \<and> rinv r' \<and> rbits r' = rest
           \<and> contents L' = (if m_HighestIndex L < m_HighestIndex L0
               then (contents L)(nat (m_HighestIndex L0) := contents L0 (nat (m_HighestIndex L0)))
               else contents L)))"
proof -
  have m: "m < 2 ^ 63" using assms(2) by simp
  obtain w' where w': "NetSerializer_Sparse dbg m ser L w = Inr w'" "wrote w w' (sparse_enc m enc L)"
    using value_codec.sparse_ser [OF assms(1) m assms(4,5)] by blast
  note des = value_codec.sparse_deser [OF assms(1-3) _ assms(5)]
  show ?thesis
  proof (intro exI [of _ w'] exI [of _ "sparse_enc m enc L"] conjI allI impI)
    fix L0 and r :: NetBitReaderBuffer and rest
    assume a: "good L0 \<and> (\<forall>i v. contents L0 i = Some v \<longrightarrow> obj v) \<and> rinv r \<and> rbits r = sparse_enc m enc L @ rest"
    then obtain L' r' where "NetDeserializer_Sparse always m d deser L0 r = Inr (L', r')" "good L'"
        "consumed r r' (sparse_enc m enc L)"
        "contents L' = (if m_HighestIndex L < m_HighestIndex L0
          then (contents L)(nat (m_HighestIndex L0) := contents L0 (nat (m_HighestIndex L0))) else contents L)"
      using des [of r L0 rest] by blast
    then have "\<exists>L' r'. NetDeserializer_Sparse always m d deser L0 r = Inr (L', r') \<and> good L' \<and> rinv r' \<and> rbits r' = rest
        \<and> contents L' = (if m_HighestIndex L < m_HighestIndex L0
          then (contents L)(nat (m_HighestIndex L0) := contents L0 (nat (m_HighestIndex L0))) else contents L)"
      using a consumed_rinv consumed_rest by (intro exI [of _ L'] exI [of _ r']) blast
    then show "NetDeserializer_Sparse mal m d deser L0 r = Inl BadAlloc \<and> (\<exists>n. \<not> mal n)
      \<or> (\<exists>L' r'. NetDeserializer_Sparse mal m d deser L0 r = Inr (L', r') \<and> good L' \<and> rinv r' \<and> rbits r' = rest
        \<and> contents L' = (if m_HighestIndex L < m_HighestIndex L0
          then (contents L)(nat (m_HighestIndex L0) := contents L0 (nat (m_HighestIndex L0))) else contents L))"
      by (rule unless_allocE2 [OF Deserializer_alloc])
  qed (use w' in \<open>auto dest: wrote_winv wrote_wbits\<close>)
qed

text \<open>C18: the difference of two lists. Lists with the same contents put nothing on
  the wire, whatever their capacities; otherwise the delta deserializer turns a list with the old
  contents into one with the new contents, entry by entry, and consumes exactly the bits written (or throws
  \<^verbatim>\<open>std::bad_alloc\<close>, if \<^verbatim>\<open>malloc\<close> refuses a request).\<close>

theorem sparse_delta_roundtrip:
  assumes "element_codec ser deser okv obj enc dser dder denc" "m < 2 ^ 30" "obj d" "winv w"
    and "sparse_of m okv to" "sparse_of m okv src"
  shows "\<exists>w' bs. NetSerializerDelta_Sparse dbg m ser dser to src w = Inr (contents to \<noteq> contents src, w')
    \<and> winv w' \<and> wbits w' = wbits w @ bs \<and> (contents to = contents src \<longrightarrow> bs = [])
    \<and> (\<forall>L r rest. contents to \<noteq> contents src \<and> good L \<and> contents L = contents src \<and> rinv r \<and> rbits r = bs @ rest \<longrightarrow>
         NetDeserializerDelta_Sparse mal m d deser dder L r = Inl BadAlloc \<and> (\<exists>n. \<not> mal n)
         \<or> (\<exists>L' r'. NetDeserializerDelta_Sparse mal m d deser dder L r = Inr (L', r') \<and> good L'
           \<and> contents L' = contents to \<and> rinv r' \<and> rbits r' = rest))"
proof -
  have m: "m < 2 ^ 31" using assms(2) by simp
  obtain w' where w': "NetSerializerDelta_Sparse dbg m ser dser to src w = Inr (contents to \<noteq> contents src, w')"
      "wrote w w' (sparse_denc m enc denc to src)"
    using element_codec.sparse_dser [OF assms(1) m assms(4-6)] by blast
  have "contents to = contents src \<longrightarrow> sparse_denc m enc denc to src = []"
    using assms(5,6) contents_eq_iff [of to src] by (auto simp: sparse_denc_def sparse_of_def Let_def)
  note same = this and des = element_codec.sparse_dder [OF assms(1-3) _ assms(5,6)]
  show ?thesis
  proof (intro exI [of _ w'] exI [of _ "sparse_denc m enc denc to src"] conjI allI impI)
    fix L and r :: NetBitReaderBuffer and rest
    assume a: "contents to \<noteq> contents src \<and> good L \<and> contents L = contents src \<and> rinv r
      \<and> rbits r = sparse_denc m enc denc to src @ rest"
    then obtain L' r' where "NetDeserializerDelta_Sparse always m d deser dder L r = Inr (L', r')" "good L'"
        "contents L' = contents to" "consumed r r' (sparse_denc m enc denc to src)"
      using des [of r L rest] by blast
    then have "\<exists>L' r'. NetDeserializerDelta_Sparse always m d deser dder L r = Inr (L', r') \<and> good L'
        \<and> contents L' = contents to \<and> rinv r' \<and> rbits r' = rest"
      using a consumed_rinv consumed_rest by (intro exI [of _ L'] exI [of _ r']) blast
    then show "NetDeserializerDelta_Sparse mal m d deser dder L r = Inl BadAlloc \<and> (\<exists>n. \<not> mal n)
      \<or> (\<exists>L' r'. NetDeserializerDelta_Sparse mal m d deser dder L r = Inr (L', r') \<and> good L'
        \<and> contents L' = contents to \<and> rinv r' \<and> rbits r' = rest)"
      by (rule unless_allocE2 [OF DeserializerDelta_alloc])
  qed (use w' same in \<open>auto dest: wrote_winv wrote_wbits\<close>)
qed


lemma sparse_of_literal:
  "sparse_of 10 (\<lambda>_. True) \<lparr>m_HighestIndex = 1, m_Capacity = 2, m_Values = [Free, Live True]\<rparr>"
  "sparse_of 10 (\<lambda>_. True) \<lparr>m_HighestIndex = 0, m_Capacity = 2, m_Values = [Live False, Free]\<rparr>"
  by (simp_all add: sparse_of_def good_literal)

theorem sparse_full_value_witness:
  "\<exists>w' bs. NetSerializer_Sparse True 10 (NetSerializer_bool True)
        \<lparr>m_HighestIndex = 0, m_Capacity = 2, m_Values = [Live False, Free]\<rparr> NetBitWriterVector_init = Inr w'
    \<and> wbits w' = bs
    \<and> (\<forall>r rest. rinv r \<and> rbits r = bs @ rest \<longrightarrow>
        (\<exists>L' r'. NetDeserializer_Sparse always 10 False NetDeserializer_bool
             \<lparr>m_HighestIndex = 1, m_Capacity = 2, m_Values = [Free, Live True]\<rparr> r = Inr (L', r')
           \<and> contents L' 0 = Some False \<and> contents L' 1 = Some True))"
proof -
  let ?L = "\<lparr>m_HighestIndex = 0, m_Capacity = 2, m_Values = [Live False, Free]\<rparr>"
  let ?M = "\<lparr>m_HighestIndex = 1, m_Capacity = 2, m_Values = [Free, Live True]\<rparr>"
  have g: "good ?M" by (simp add: good_literal)
  have c: "contents ?L 0 = Some False" "contents ?M 1 = Some True" by (simp_all add: contents_def)
  obtain w' bs where w': "NetSerializer_Sparse True 10 (NetSerializer_bool True) ?L NetBitWriterVector_init = Inr w'
        \<and> winv w' \<and> wbits w' = wbits NetBitWriterVector_init @ bs
      \<and> (\<forall>L0 r rest. good L0 \<and> (\<forall>i v. contents L0 i = Some v \<longrightarrow> True) \<and> rinv r \<and> rbits r = bs @ rest \<longrightarrow>
        (\<exists>L' r'. NetDeserializer_Sparse always 10 False NetDeserializer_bool L0 r = Inr (L', r') \<and> good L' \<and> rinv r' \<and> rbits r' = rest
          \<and> contents L' = (if m_HighestIndex ?L < m_HighestIndex L0
            then (contents ?L)(nat (m_HighestIndex L0) := contents L0 (nat (m_HighestIndex L0))) else contents ?L)))"
    using sparse_full_value [OF bool_codec.value_codec_axioms [of True] _ TrueI wbits_init(2) sparse_of_literal(2),
        where d = False and dbg = True and mal = always] by (auto simp: always_def)
  have "\<exists>L' r'. NetDeserializer_Sparse always 10 False NetDeserializer_bool ?M r = Inr (L', r')
      \<and> contents L' 0 = Some False \<and> contents L' 1 = Some True" if rd: "rinv r" "rbits r = bs @ rest" for r rest
  proof -
    obtain L' r' where "NetDeserializer_Sparse always 10 False NetDeserializer_bool ?M r = Inr (L', r')"
        "contents L' = (if m_HighestIndex ?L < m_HighestIndex ?M
          then (contents ?L)(nat (m_HighestIndex ?M) := contents ?M (nat (m_HighestIndex ?M))) else contents ?L)"
      using w' g rd by blast
    then show ?thesis using c by auto
  qed
  then show ?thesis using w' by auto
qed

theorem sparse_delta_roundtrip_witness:
  "\<exists>w' bs. NetSerializerDelta_Sparse True 10 (NetSerializer_bool True)
        (NetSerializeDeltaType (=) (NetSerializer_bool True))
        \<lparr>m_HighestIndex = 1, m_Capacity = 2, m_Values = [Free, Live True]\<rparr>
        \<lparr>m_HighestIndex = 0, m_Capacity = 2, m_Values = [Live False, Free]\<rparr> NetBitWriterVector_init = Inr (True, w')
    \<and> wbits w' = bs"
proof -
  let ?L = "\<lparr>m_HighestIndex = 0, m_Capacity = 2, m_Values = [Live False, Free]\<rparr>"
  let ?M = "\<lparr>m_HighestIndex = 1, m_Capacity = 2, m_Values = [Free, Live True]\<rparr>"
  have "contents ?M 1 \<noteq> contents ?L 1" by (simp add: contents_def)
  then have "contents ?M \<noteq> contents ?L" by metis
  then show ?thesis
    using sparse_delta_roundtrip [OF bool_codec.default_element_codec [of True], where m = 10 and d = False
        and w = NetBitWriterVector_init and to = ?M and src = ?L and dbg = True]
    by (auto simp: sparse_of_literal)
qed

end
