(* ===== verification/Transmitter.thy ===== *)
theory Transmitter
  imports Codec
begin

text \<open>
  \<^verbatim>\<open>NetTransmitter.h\<close>, \<^verbatim>\<open>NetTransmitter.cpp\<close> and its implementations
  \<^verbatim>\<open>NetTransmitterMemory\<close>, \<^verbatim>\<open>NetTransmitterNull\<close> and \<^verbatim>\<open>NetTransmitterEnet\<close>: the object
  that hands a pipe a writer with the message header in it, and sends what the pipe wrote.

  The two pure virtual functions are the fields of a record of functions. Both hand out the
  transmitter's own writer by reference, so the record also says where in the state of the
  transmitter that writer is. The locale \<open>transmitter\<close> is the contract the pipes rely on; the
  three implementations are interpretations of it.
\<close>

section \<open>The interface\<close>

datatype NetPipeMode = kReliable | kUnreliableSequenced | kUnreliableUnsequenced

record 't NetTransmitter =
  CreateWriter :: "NetPipeMode \<Rightarrow> int \<Rightarrow> int \<Rightarrow> bool \<Rightarrow> 't \<Rightarrow> 't result"
  SendWriter :: "'t \<Rightarrow> 't result"
  theWriter :: "'t \<Rightarrow> NetBitWriterVector"
  setWriter :: "NetBitWriterVector \<Rightarrow> 't \<Rightarrow> 't"

definition CreateMessage :: "'t NetTransmitter \<Rightarrow> NetPipeMode \<Rightarrow> int \<Rightarrow> int \<Rightarrow> 't \<Rightarrow> 't result" where
  "CreateMessage T mode channel_index channel_bits =
     CreateWriter T mode channel_index channel_bits False"

definition Transmitter_SendMessage :: "'t NetTransmitter \<Rightarrow> 't \<Rightarrow> 't result" where
  "Transmitter_SendMessage T = SendWriter T"

definition CreateAck :: "'t NetTransmitter \<Rightarrow> NetPipeMode \<Rightarrow> int \<Rightarrow> int \<Rightarrow> 't \<Rightarrow> 't result" where
  "CreateAck T mode channel_index channel_bits =
     CreateWriter T mode channel_index channel_bits True"

definition SendAck :: "'t NetTransmitter \<Rightarrow> 't \<Rightarrow> 't result" where
  "SendAck T = SendWriter T"

text \<open>The header: the acknowledgement flag, then the channel index.\<close>

definition CreateDefaultMessage ::
    "bool \<Rightarrow> int \<Rightarrow> int \<Rightarrow> bool \<Rightarrow> NetBitWriterVector \<Rightarrow> NetBitWriterVector result" where
  "CreateDefaultMessage dbg channel_index channel_bits ack writer =
     ebind (WriteBits dbg (if ack then 1 else 0) 1 writer)
       (WriteBits dbg (word_of_int channel_index) channel_bits)"

definition GetDefaultMessageInfo ::
    "int \<Rightarrow> int \<Rightarrow> NetBitReaderBuffer \<Rightarrow> ((bool \<times> int) \<times> NetBitReaderBuffer) result" where
  "GetDefaultMessageInfo sender_channel_bits recv_channel_bits reader =
     ebind (ReadUBits 1 reader) (\<lambda>(v, reader).
       let ack = v \<noteq> 0 in
       if ack then
         ebind (ReadUBits sender_channel_bits reader) (\<lambda>(v, reader).
           Inr ((ack, conv I32 (uint v)), reader))
       else
         ebind (ReadUBits recv_channel_bits reader) (\<lambda>(v, reader).
           Inr ((ack, conv I32 (uint v)), reader)))"

text \<open>
  The shape of every sending function of the pipes: create a message, write the body through the
  reference, send it.
\<close>

definition with_message ::
    "'t NetTransmitter \<Rightarrow> NetPipeMode \<Rightarrow> int \<Rightarrow> int
       \<Rightarrow> (NetBitWriterVector \<Rightarrow> NetBitWriterVector result) \<Rightarrow> 't \<Rightarrow> 't result" where
  "with_message T mode channel_index channel_bits body t =
     ebind (CreateMessage T mode channel_index channel_bits t) (\<lambda>t.
     ebind (body (theWriter T t)) (\<lambda>w.
       Transmitter_SendMessage T (setWriter T w t)))"

text \<open>A sequence of calls.\<close>

fun efold :: "('m \<Rightarrow> 's \<Rightarrow> 's result) \<Rightarrow> 'm list \<Rightarrow> 's \<Rightarrow> 's result" where
  "efold f [] s = Inr s"
| "efold f (m # ms) s = ebind (f m s) (efold f ms)"

section \<open>The memory transmitter\<close>

record NetTransmitterMemory =
  tmPendingPacket :: NetBitWriterVector
  tmOutgoingPackets :: "NetBitReaderVector list"

definition Memory_CreateWriter ::
    "bool \<Rightarrow> NetPipeMode \<Rightarrow> int \<Rightarrow> int \<Rightarrow> bool \<Rightarrow> NetTransmitterMemory \<Rightarrow> NetTransmitterMemory result" where
  "Memory_CreateWriter dbg mode channel_index channel_bits ack t =
     ebind (CreateDefaultMessage dbg channel_index channel_bits ack (tmPendingPacket t)) (\<lambda>w.
       Inr (t\<lparr>tmPendingPacket := w\<rparr>))"

definition Memory_SendWriter :: "NetTransmitterMemory \<Rightarrow> NetTransmitterMemory result" where
  "Memory_SendWriter t =
     (let (packet, w) = NetBitReaderVector_of_writer (tmPendingPacket t)
      in Inr (t\<lparr>tmPendingPacket := w, tmOutgoingPackets := tmOutgoingPackets t @ [packet]\<rparr>))"

definition Memory :: "bool \<Rightarrow> NetTransmitterMemory NetTransmitter" where
  "Memory dbg = \<lparr>CreateWriter = Memory_CreateWriter dbg, SendWriter = Memory_SendWriter,
     theWriter = tmPendingPacket, setWriter = (\<lambda>w t. t\<lparr>tmPendingPacket := w\<rparr>)\<rparr>"

definition NetTransmitterMemory_init :: NetTransmitterMemory where
  "NetTransmitterMemory_init =
     \<lparr>tmPendingPacket = NetBitWriterVector_init, tmOutgoingPackets = []\<rparr>"

text \<open>
  \<^verbatim>\<open>SendToProtocol\<close> hands each queued packet to the protocol (\<open>got\<close>, on the state of the
  receiving side) and pops it. The protocol is an object of its own, so nothing it does adds to
  this queue.
\<close>

fun deliver :: "(NetBitReaderBuffer \<Rightarrow> 'p \<Rightarrow> 'p result) \<Rightarrow> NetBitReaderVector list \<Rightarrow> 'p \<Rightarrow> 'p result" where
  "deliver got [] protocol = Inr protocol"
| "deliver got (packet # packets) protocol =
     ebind (got (NetBitReaderBuffer.truncate packet) protocol) (deliver got packets)"

definition SendToProtocol ::
    "(NetBitReaderBuffer \<Rightarrow> 'p \<Rightarrow> 'p result) \<Rightarrow> NetTransmitterMemory \<Rightarrow> 'p
       \<Rightarrow> (bool \<times> NetTransmitterMemory \<times> 'p) result" where
  "SendToProtocol got t protocol =
     (if length (tmOutgoingPackets t) = 0 then Inr (False, t, protocol)
      else ebind (deliver got (tmOutgoingPackets t) protocol) (\<lambda>protocol.
        Inr (True, t\<lparr>tmOutgoingPackets := []\<rparr>, protocol)))"

section \<open>The null transmitter\<close>

text \<open>Its only member is the writer; it writes no header and drops what the pipe wrote.\<close>

definition Null_CreateWriter ::
    "NetPipeMode \<Rightarrow> int \<Rightarrow> int \<Rightarrow> bool \<Rightarrow> NetBitWriterVector \<Rightarrow> NetBitWriterVector result" where
  "Null_CreateWriter mode channel_index channel_bits ack writer = Inr writer"

definition Null_SendWriter :: "NetBitWriterVector \<Rightarrow> NetBitWriterVector result" where
  "Null_SendWriter writer = Inr (Reset writer)"

definition NetTransmitterNull :: "NetBitWriterVector NetTransmitter" where
  "NetTransmitterNull = \<lparr>CreateWriter = Null_CreateWriter, SendWriter = Null_SendWriter,
     theWriter = (\<lambda>w. w), setWriter = (\<lambda>w _. w)\<rparr>"

section \<open>The ENet transmitter\<close>

text \<open>
  \<^verbatim>\<open>enet_peer_send\<close> of a new packet is the parameter \<open>send\<close> on the state of the peer, with the
  packet's bytes and flags; the values of ENet's two flag constants are parameters too. The blocks
  that \<^verbatim>\<open>malloc\<close> returned are \<open>teHeap\<close>: an address is an index, \<^verbatim>\<open>None\<close> a block that was freed,
  and freeing it again is undefined. The times are those of \<^verbatim>\<open>system_clock\<close>, in milliseconds.
\<close>

record PendingPacket =
  ppSendTime :: int
  ppData :: nat
  ppSize :: nat
  ppFlags :: u32

record 'e NetTransmitterEnet =
  teWriter :: NetBitWriterVector
  teWriterMode :: NetPipeMode
  tePeer :: 'e
  teLagSim :: int
  tePendingPackets :: "PendingPacket list"
  teHeap :: "u8 list option list"

type_synonym 'e enet_send = "u8 list \<Rightarrow> u32 \<Rightarrow> 'e \<Rightarrow> 'e"

definition Enet_CreateWriter ::
    "bool \<Rightarrow> NetPipeMode \<Rightarrow> int \<Rightarrow> int \<Rightarrow> bool \<Rightarrow> 'e NetTransmitterEnet \<Rightarrow> 'e NetTransmitterEnet result" where
  "Enet_CreateWriter dbg mode channel_index channel_bits ack t =
     ebind (CreateDefaultMessage dbg channel_index channel_bits ack (teWriter t)) (\<lambda>w.
       Inr (t\<lparr>teWriterMode := mode, teWriter := w\<rparr>))"

definition enet_flags :: "u32 \<Rightarrow> u32 \<Rightarrow> NetPipeMode \<Rightarrow> u32" where
  "enet_flags reliable unsequenced mode =
     (case mode of kReliable \<Rightarrow> reliable | kUnreliableUnsequenced \<Rightarrow> unsequenced
      | kUnreliableSequenced \<Rightarrow> 0)"

definition Enet_SendWriter ::
    "u32 \<Rightarrow> u32 \<Rightarrow> 'e enet_send \<Rightarrow> int \<Rightarrow> 'e NetTransmitterEnet \<Rightarrow> 'e NetTransmitterEnet result" where
  "Enet_SendWriter reliable unsequenced send now t =
     (let flags = enet_flags reliable unsequenced (teWriterMode t);
          data = wBuffer (teWriter t) in
      if teLagSim t = 0 then
        Inr (t\<lparr>tePeer := send data flags (tePeer t), teWriter := Reset (teWriter t)\<rparr>)
      else
        Inr (t\<lparr>teHeap := teHeap t @ [Some data],
               tePendingPackets := tePendingPackets t @
                 [\<lparr>ppSendTime = now + teLagSim t, ppData = length (teHeap t),
                   ppSize = length data, ppFlags = flags\<rparr>],
               teWriter := Reset (teWriter t)\<rparr>))"

definition Enet :: "bool \<Rightarrow> u32 \<Rightarrow> u32 \<Rightarrow> 'e enet_send \<Rightarrow> int \<Rightarrow> 'e NetTransmitterEnet NetTransmitter" where
  "Enet dbg reliable unsequenced send now =
     \<lparr>CreateWriter = Enet_CreateWriter dbg, SendWriter = Enet_SendWriter reliable unsequenced send now,
      theWriter = teWriter, setWriter = (\<lambda>w t. t\<lparr>teWriter := w\<rparr>)\<rparr>"

definition heap_free :: "nat \<Rightarrow> u8 list option list \<Rightarrow> u8 list option list result" where
  "heap_free p h =
     (if p < length h \<and> h ! p \<noteq> None then Inr (h[p := None]) else Inl Undefined)"

text \<open>\<open>now k\<close> is the \<open>k\<close>-th reading of the clock; a packet's block is read when it is sent.\<close>

fun enet_update :: "'e enet_send \<Rightarrow> (nat \<Rightarrow> int) \<Rightarrow> nat \<Rightarrow> PendingPacket list \<Rightarrow> u8 list option list \<Rightarrow> 'e
    \<Rightarrow> (PendingPacket list \<times> u8 list option list \<times> 'e) result" where
  "enet_update send now k [] h peer = Inr ([], h, peer)"
| "enet_update send now k (packet # packets) h peer =
     (if now k < ppSendTime packet then Inr (packet # packets, h, peer)
      else if length h \<le> ppData packet then Inl Undefined
      else case h ! ppData packet of
        None \<Rightarrow> Inl Undefined
      | Some data \<Rightarrow>
          let peer = send (take (ppSize packet) data) (ppFlags packet) peer in
          ebind (heap_free (ppData packet) h) (\<lambda>h. enet_update send now (Suc k) packets h peer))"

definition Enet_Update ::
    "'e enet_send \<Rightarrow> (nat \<Rightarrow> int) \<Rightarrow> 'e NetTransmitterEnet \<Rightarrow> 'e NetTransmitterEnet result" where
  "Enet_Update send now t =
     ebind (enet_update send now 0 (tePendingPackets t) (teHeap t) (tePeer t)) (\<lambda>(packets, h, peer).
       Inr (t\<lparr>tePendingPackets := packets, teHeap := h, tePeer := peer\<rparr>))"

text \<open>\<^verbatim>\<open>Clear\<close> frees the block of \<^verbatim>\<open>back()\<close> and pops the front.\<close>

fun enet_clear :: "PendingPacket list \<Rightarrow> u8 list option list \<Rightarrow> u8 list option list result" where
  "enet_clear [] h = Inr h"
| "enet_clear (packet # packets) h =
     ebind (heap_free (ppData (last (packet # packets))) h) (enet_clear packets)"

definition Enet_Clear :: "'e NetTransmitterEnet \<Rightarrow> 'e NetTransmitterEnet result" where
  "Enet_Clear t =
     ebind (enet_clear (tePendingPackets t) (teHeap t)) (\<lambda>h.
       Inr (t\<lparr>tePendingPackets := [], teHeap := h\<rparr>))"

section \<open>Headers\<close>

definition header :: "bool \<Rightarrow> nat \<Rightarrow> nat \<Rightarrow> bool list" where
  "header ack channel_bits channel_index = ack # nat_bits channel_bits channel_index"

lemma CreateDefaultMessage_spec:
  assumes "winv w" "ci < 2 ^ cb" "cb \<le> 64"
  shows "\<exists>w'. CreateDefaultMessage dbg (int ci) (int cb) ack w = Inr w' \<and> wrote w w' (header ack cb ci)"
proof -
  have v: "(if ack then 1 else 0) = (of_bool ack :: u64)" by simp
  from WriteBits_flag [OF assms(1), of dbg ack] obtain w1
    where 1: "WriteBits dbg (of_bool ack) 1 w = Inr w1" and wr1: "wrote w w1 [ack]" by blast
  from WriteBits_nat [OF wrote_winv [OF wr1] assms(2,3), of dbg] obtain w2
    where 2: "WriteBits dbg (of_nat ci) (int cb) w1 = Inr w2" and wr2: "wrote w1 w2 (nat_bits cb ci)"
    by blast
  show ?thesis
    using wrote_trans [OF wr1 wr2] by (simp only: CreateDefaultMessage_def v 1 ebind_Inr)
      (simp add: 2 header_def)
qed

lemma conv_word_index: "ci < 2 ^ 31 \<Longrightarrow> conv I32 (uint (of_nat ci :: u64)) = int ci"
proof -
  assume a: "ci < 2 ^ 31"
  then have "uint (of_nat ci :: u64) = int ci"
    by (simp add: uint_nat unsigned_of_nat take_bit_nat_eq_self)
  then show "conv I32 (uint (of_nat ci :: u64)) = int ci"
    using a by (simp add: conv_id in_ctype_def ctype_min_def ctype_max_def)
qed

lemma GetDefaultMessageInfo_spec:
  assumes "rinv r" "rbits r = header ack cb ci @ rest" "ci < 2 ^ cb" "cb \<le> 31"
    and "cb = (if ack then sb else rb)"
  shows "\<exists>r'. GetDefaultMessageInfo (int sb) (int rb) r = Inr ((ack, int ci), r')
    \<and> consumed r r' (header ack cb ci) \<and> rbits r' = rest"
proof -
  from assms(2) have b: "rbits r = ack # nat_bits cb ci @ rest" by (simp add: header_def)
  from ReadUBits_flag [OF assms(1) b] obtain r1 where 1: "ReadUBits 1 r = Inr (of_bool ack, r1)"
    and c1: "consumed r r1 [ack]" and b1: "rbits r1 = nat_bits cb ci @ rest" by blast
  from ReadUBits_nat [OF consumed_rinv [OF c1] b1] assms(3,4) obtain r2
    where 2: "ReadUBits (int cb) r1 = Inr (of_nat ci, r2)"
    and c2: "consumed r1 r2 (nat_bits cb ci)" and b2: "rbits r2 = rest" by auto
  have "(2 :: nat) ^ cb \<le> 2 ^ 31" using assms(4) by (intro power_increasing) auto
  then have i: "conv I32 (uint (of_nat ci :: u64)) = int ci"
    using conv_word_index assms(3) by (meson order_less_le_trans)
  have "consumed r r2 (header ack cb ci)"
    using consumed_trans [OF c1 c2] by (simp add: header_def)
  with 1 2 b2 i assms(5) show ?thesis
    by (cases ack) (simp_all add: GetDefaultMessageInfo_def Let_def)
qed

section \<open>The contract\<close>

text \<open>What a pipe does to the writer: append. (The bit count is left out: \<^verbatim>\<open>WriteBuffer\<close> does not
  always keep it.)\<close>

definition appended :: "NetBitWriterVector \<Rightarrow> NetBitWriterVector \<Rightarrow> bool list \<Rightarrow> bool" where
  "appended w w' bs \<longleftrightarrow> winv w' \<and> wbits w' = wbits w @ bs"

lemma wrote_appended: "wrote w w' bs \<Longrightarrow> appended w w' bs"
  by (simp add: appended_def wrote_winv wrote_wbits)

lemma appended_trans: "appended w w1 xs \<Longrightarrow> appended w1 w2 ys \<Longrightarrow> appended w w2 (xs @ ys)"
  by (simp add: appended_def)

lemma appended_winv: "appended w w' bs \<Longrightarrow> winv w'"
  by (simp add: appended_def)

lemma appended_wbits: "appended w w' bs \<Longrightarrow> wbits w' = wbits w @ bs"
  by (simp add: appended_def)

text \<open>
  From a state in order (\<open>tinv\<close>) a writer is handed out, and whatever a pipe appends to it is
  sent behind the header; \<open>sends\<close> is what sending means for the implementation.
\<close>

locale transmitter =
  fixes T :: "'t NetTransmitter"
    and tinv :: "'t \<Rightarrow> bool"
    and sends :: "'t \<Rightarrow> 't \<Rightarrow> bool list \<Rightarrow> bool"
  assumes create_send: "tinv t \<Longrightarrow> ci < 2 ^ cb \<Longrightarrow> cb \<le> 64 \<Longrightarrow>
    \<exists>t'. CreateWriter T mode (int ci) (int cb) ack t = Inr t' \<and> winv (theWriter T t')
      \<and> (\<forall>w bs. appended (theWriter T t') w bs \<longrightarrow>
           (\<exists>t''. SendWriter T (setWriter T w t') = Inr t'' \<and> tinv t''
              \<and> sends t t'' (header ack cb ci @ bs)))"

context transmitter
begin

lemma with_message:
  assumes "tinv t" "ci < 2 ^ cb" "cb \<le> 64"
    and body: "\<And>w. winv w \<Longrightarrow> \<exists>w'. body w = Inr w' \<and> appended w w' bs"
  shows "\<exists>t'. with_message T mode (int ci) (int cb) body t = Inr t' \<and> tinv t'
    \<and> sends t t' (header False cb ci @ bs)"
proof -
  from create_send [OF assms(1-3), of mode False] obtain t1
    where 1: "CreateWriter T mode (int ci) (int cb) False t = Inr t1" and i: "winv (theWriter T t1)"
    and s: "\<And>w bs. appended (theWriter T t1) w bs \<Longrightarrow> \<exists>t''. SendWriter T (setWriter T w t1) = Inr t''
      \<and> tinv t'' \<and> sends t t'' (header False cb ci @ bs)"
    by blast
  from body [OF i] obtain w where 2: "body (theWriter T t1) = Inr w"
    and wr: "appended (theWriter T t1) w bs" by blast
  from s [OF wr] obtain t2 where 3: "SendWriter T (setWriter T w t1) = Inr t2" "tinv t2"
    "sends t t2 (header False cb ci @ bs)" by blast
  with 1 2 show ?thesis
    by (simp add: with_message_def CreateMessage_def Transmitter_SendMessage_def)
qed

end

definition memory_ready :: "NetTransmitterMemory \<Rightarrow> bool" where
  "memory_ready t \<longleftrightarrow> winv (tmPendingPacket t) \<and> wbits (tmPendingPacket t) = []"

text \<open>A packet that carries a message: its bits, then the unused bits of the last byte.\<close>

definition carries :: "NetBitReaderVector \<Rightarrow> bool list \<Rightarrow> bool" where
  "carries p bs \<longleftrightarrow> rinv p \<and> (\<exists>pad. length pad < 8 \<and> rbits p = bs @ pad)"

definition memory_sends :: "NetTransmitterMemory \<Rightarrow> NetTransmitterMemory \<Rightarrow> bool list \<Rightarrow> bool" where
  "memory_sends t t' bs \<longleftrightarrow>
     (\<exists>p. tmOutgoingPackets t' = tmOutgoingPackets t @ [p] \<and> carries p bs)"

lemma Reset_fresh [simp]: "winv (Reset w)" "wbits (Reset w) = []"
  by (simp_all add: Reset_def winv_def wbits_def wlen_def)

lemma memory_ready_init [simp]:
  "memory_ready NetTransmitterMemory_init" "tmOutgoingPackets NetTransmitterMemory_init = []"
  by (simp_all add: memory_ready_def NetTransmitterMemory_init_def)

lemma carries_of_writer:
  assumes "winv w"
  shows "carries (fst (NetBitReaderVector_of_writer w)) (wbits w)"
proof -
  have e: "rbits (fst (NetBitReaderVector_of_writer w)) = rbits (NetBitReaderBuffer_init (wBuffer w))"
    "rinv (fst (NetBitReaderVector_of_writer w))"
    by (simp_all add: NetBitReaderVector_of_writer_def NetBitReaderVector_init_def
        NetBitReaderBuffer_init_def rbits_def rinv_def)
  show ?thesis
    using reader_of_writer [OF assms] by (simp add: carries_def e)
qed

interpretation memory: transmitter "Memory dbg" memory_ready memory_sends for dbg
proof
  fix t :: NetTransmitterMemory and ci cb :: nat and mode :: NetPipeMode and ack :: bool
  assume t: "memory_ready t" and ci: "ci < 2 ^ cb" "cb \<le> 64"
  from t have w: "winv (tmPendingPacket t)" "wbits (tmPendingPacket t) = []"
    by (simp_all add: memory_ready_def)
  from CreateDefaultMessage_spec [OF w(1) ci, of dbg ack] obtain w1
    where 1: "CreateDefaultMessage dbg (int ci) (int cb) ack (tmPendingPacket t) = Inr w1"
    and wr: "wrote (tmPendingPacket t) w1 (header ack cb ci)" by blast
  have b1: "wbits w1 = header ack cb ci" using wrote_wbits [OF wr] w(2) by simp
  let ?t = "t\<lparr>tmPendingPacket := w1\<rparr>"
  have s: "\<exists>t''. SendWriter (Memory dbg) (setWriter (Memory dbg) w' ?t) = Inr t'' \<and> memory_ready t''
      \<and> memory_sends t t'' (header ack cb ci @ bs)" if "appended w1 w' bs" for w' bs
  proof -
    have "wbits w' = header ack cb ci @ bs" "winv w'"
      using appended_wbits [OF that] appended_winv [OF that] b1 by simp_all
    then have "carries (NetBitReaderVector_init (wBuffer w')) (header ack cb ci @ bs)"
      using carries_of_writer [of w'] by (simp add: NetBitReaderVector_of_writer_def)
    then show ?thesis
      by (auto simp: Memory_def Memory_SendWriter_def NetBitReaderVector_of_writer_def
          memory_ready_def memory_sends_def)
  qed
  show "\<exists>t'. CreateWriter (Memory dbg) mode (int ci) (int cb) ack t = Inr t'
      \<and> winv (theWriter (Memory dbg) t')
      \<and> (\<forall>w bs. appended (theWriter (Memory dbg) t') w bs \<longrightarrow>
           (\<exists>t''. SendWriter (Memory dbg) (setWriter (Memory dbg) w t') = Inr t'' \<and> memory_ready t''
              \<and> memory_sends t t'' (header ack cb ci @ bs)))"
    using 1 wrote_winv [OF wr] s
    by (intro exI [of _ ?t]) (simp add: Memory_def Memory_CreateWriter_def)
qed

interpretation null: transmitter NetTransmitterNull "\<lambda>w. winv w" "\<lambda>_ _ _. True"
  by unfold_locales
    (simp add: NetTransmitterNull_def Null_CreateWriter_def Null_SendWriter_def)

text \<open>
  What ENet receives: with no lag simulated the packet at once, else it waits in the queue, in an
  allocated block of its own.
\<close>

definition enet_ready :: "'e NetTransmitterEnet \<Rightarrow> bool" where
  "enet_ready t \<longleftrightarrow> winv (teWriter t) \<and> wbits (teWriter t) = []"

definition is_message :: "u8 list \<Rightarrow> bool list \<Rightarrow> bool" where
  "is_message data bs \<longleftrightarrow> (\<exists>pad. length pad < 8 \<and> buffer_bits data = bs @ pad)"

definition enet_sends ::
    "'e enet_send \<Rightarrow> int \<Rightarrow> 'e NetTransmitterEnet \<Rightarrow> 'e NetTransmitterEnet \<Rightarrow> bool list \<Rightarrow> bool" where
  "enet_sends send now t t' bs \<longleftrightarrow> (\<exists>data flags. is_message data bs \<and> teLagSim t' = teLagSim t \<and>
     (if teLagSim t = 0 then
        tePeer t' = send data flags (tePeer t) \<and> tePendingPackets t' = tePendingPackets t
          \<and> teHeap t' = teHeap t
      else
        tePeer t' = tePeer t \<and> teHeap t' = teHeap t @ [Some data]
          \<and> tePendingPackets t' = tePendingPackets t @
              [\<lparr>ppSendTime = now + teLagSim t, ppData = length (teHeap t),
                ppSize = length data, ppFlags = flags\<rparr>]))"

lemma is_message_writer: "winv w \<Longrightarrow> is_message (wBuffer w) (wbits w)"
  using reader_of_writer [of w] by (simp add: is_message_def)

interpretation enet: transmitter "Enet dbg reliable unsequenced send now" enet_ready
    "enet_sends send now" for dbg reliable unsequenced and send :: "'e enet_send" and now
proof
  fix t :: "'e NetTransmitterEnet" and ci cb :: nat and mode :: NetPipeMode and ack :: bool
  let ?T = "Enet dbg reliable unsequenced send now"
  assume t: "enet_ready t" and ci: "ci < 2 ^ cb" "cb \<le> 64"
  from t have w: "winv (teWriter t)" "wbits (teWriter t) = []"
    by (simp_all add: enet_ready_def)
  from CreateDefaultMessage_spec [OF w(1) ci, of dbg ack] obtain w1
    where 1: "CreateDefaultMessage dbg (int ci) (int cb) ack (teWriter t) = Inr w1"
    and wr: "wrote (teWriter t) w1 (header ack cb ci)" by blast
  have b1: "wbits w1 = header ack cb ci" using wrote_wbits [OF wr] w(2) by simp
  let ?t = "t\<lparr>teWriterMode := mode, teWriter := w1\<rparr>"
  have s: "\<exists>t''. SendWriter ?T (setWriter ?T w' ?t) = Inr t'' \<and> enet_ready t''
      \<and> enet_sends send now t t'' (header ack cb ci @ bs)" if "appended w1 w' bs" for w' bs
  proof -
    have "wbits w' = header ack cb ci @ bs" "winv w'"
      using appended_wbits [OF that] appended_winv [OF that] b1 by simp_all
    then have m: "is_message (wBuffer w') (header ack cb ci @ bs)"
      using is_message_writer by metis
    show ?thesis
      using m by (cases "teLagSim t = 0")
        (auto simp: Enet_def Enet_SendWriter_def Let_def enet_ready_def enet_sends_def)
  qed
  show "\<exists>t'. CreateWriter ?T mode (int ci) (int cb) ack t = Inr t' \<and> winv (theWriter ?T t')
      \<and> (\<forall>w bs. appended (theWriter ?T t') w bs \<longrightarrow>
           (\<exists>t''. SendWriter ?T (setWriter ?T w t') = Inr t'' \<and> enet_ready t''
              \<and> enet_sends send now t t'' (header ack cb ci @ bs)))"
    using 1 wrote_winv [OF wr] s
    by (intro exI [of _ ?t]) (simp add: Enet_def Enet_CreateWriter_def)
qed


section \<open>The lag simulation\<close>

text \<open>Each queued packet owns a block that holds its data.\<close>

definition queue_owns :: "u8 list option list \<Rightarrow> PendingPacket list \<Rightarrow> bool" where
  "queue_owns h ps \<longleftrightarrow> distinct (map ppData ps) \<and>
     (\<forall>p \<in> set ps. ppData p < length h \<and> (\<exists>data. h ! ppData p = Some data \<and> ppSize p = length data))"

definition queued :: "u8 list option list \<Rightarrow> PendingPacket \<Rightarrow> u8 list \<times> u32" where
  "queued h p = (the (h ! ppData p), ppFlags p)"

lemma queue_owns_SendWriter:
  assumes "queue_owns (teHeap t) (tePendingPackets t)"
    and "Enet_SendWriter reliable unsequenced send now t = Inr t'"
  shows "queue_owns (teHeap t') (tePendingPackets t')"
  using assms by (fastforce simp: Enet_SendWriter_def Let_def queue_owns_def nth_append split: if_splits)

lemma queue_owns_Cons:
  assumes "queue_owns h (p # ps)"
  shows "\<exists>data. h ! ppData p = Some data \<and> ppSize p = length data \<and> ppData p < length h
    \<and> queue_owns (h[ppData p := None]) ps \<and> map (queued (h[ppData p := None])) ps = map (queued h) ps"
  using assms by (fastforce simp: queue_owns_def queued_def nth_list_update)

lemma enet_update_keeps_None:
  "enet_update send now k ps h peer = Inr (ps', h', peer') \<Longrightarrow> i < length h \<Longrightarrow> h ! i = None \<Longrightarrow> h' ! i = None"
proof (induction send now k ps h peer rule: enet_update.induct)
  case (1 send now k h peer)
  then show ?case by simp
next
  case (2 send now k packet packets h peer)
  then show ?case
    by (auto simp: heap_free_def Let_def nth_list_update split: if_splits option.splits)
qed

text \<open>The first \<open>n\<close> packets are due, and the next one is not.\<close>

abbreviation due :: "(nat \<Rightarrow> int) \<Rightarrow> nat \<Rightarrow> PendingPacket list \<Rightarrow> nat \<Rightarrow> bool" where
  "due now k ps n \<equiv> n \<le> length ps \<and> (\<forall>i<n. ppSendTime (ps ! i) \<le> now (k + i))
     \<and> (n < length ps \<longrightarrow> now (k + n) < ppSendTime (ps ! n))"

lemma enet_update_due:
  assumes "queue_owns h ps"
  shows "\<exists>n h'. due now k ps n \<and> enet_update send now k ps h peer =
      Inr (drop n ps, h', fold (\<lambda>(data, flags). send data flags) (map (queued h) (take n ps)) peer)
    \<and> (\<forall>p \<in> set (take n ps). h' ! ppData p = None) \<and> (\<forall>p \<in> set (drop n ps). h' ! ppData p = h ! ppData p)
    \<and> length h' = length h"
  using assms
proof (induction ps arbitrary: h k peer)
  case Nil
  then show ?case by simp
next
  case (Cons p ps)
  show ?case
  proof (cases "now k < ppSendTime p")
    case True
    then show ?thesis by (intro exI [of _ 0] exI [of _ h]) simp
  next
    case False
    let ?h = "h[ppData p := None]"
    from queue_owns_Cons [OF Cons.prems(1)] obtain data where
      d: "h ! ppData p = Some data" "ppSize p = length data" "ppData p < length h"
      and o: "queue_owns ?h ps" and q: "map (queued ?h) ps = map (queued h) ps" by blast
    from Cons.IH [OF o, of "Suc k" "send data (ppFlags p) peer"] obtain n h' where n: "due now (Suc k) ps n"
        and h': "enet_update send now (Suc k) ps ?h (send data (ppFlags p) peer) =
          Inr (drop n ps, h', fold (\<lambda>(data, flags). send data flags) (map (queued ?h) (take n ps)) (send data (ppFlags p) peer))"
          "\<forall>p \<in> set (take n ps). h' ! ppData p = None" "\<forall>p \<in> set (drop n ps). h' ! ppData p = ?h ! ppData p"
          "length h' = length h"
      by auto
    have t: "map (queued ?h) (take n ps) = map (queued h) (take n ps)" using q by (metis take_map)
    have other: "ppData p \<noteq> ppData p'" if "p' \<in> set ps" for p'
      using Cons.prems that by (auto simp: queue_owns_def)
    have p: "h' ! ppData p = None" using enet_update_keeps_None [OF h'(1)] d(3) by simp
    have "due now k (p # ps) (Suc n)" using n False by (auto simp: nth_Cons split: nat.split)
    moreover have "enet_update send now k (p # ps) h peer = Inr (drop (Suc n) (p # ps), h',
        fold (\<lambda>(data, flags). send data flags) (map (queued h) (take (Suc n) (p # ps))) peer)"
      using d False h'(1) by (simp add: heap_free_def Let_def queued_def [of h p] t)
    moreover have "\<forall>q \<in> set (take (Suc n) (p # ps)). h' ! ppData q = None" using h'(2) p by simp
    moreover have "\<forall>q \<in> set (drop (Suc n) (p # ps)). h' ! ppData q = h ! ppData q"
      using h'(3) other by (auto dest: in_set_dropD)
    ultimately show ?thesis using h'(4) by blast
  qed
qed

text \<open>C17: \<^verbatim>\<open>Update\<close> of the lag simulation takes from the front of the queue the packets whose time has come, up to the
  first whose time has not, hands them to ENet unchanged, in the order they were sent in and with their flags, and
  frees the block of each. The others stay queued, with their blocks. No freed block is touched.\<close>

theorem enet_Update_flushes:
  assumes "queue_owns (teHeap t) (tePendingPackets t)"
  shows "\<exists>n t'. n \<le> length (tePendingPackets t) \<and> (\<forall>i<n. ppSendTime (tePendingPackets t ! i) \<le> now i)
    \<and> (n < length (tePendingPackets t) \<longrightarrow> now n < ppSendTime (tePendingPackets t ! n))
    \<and> Enet_Update send now t = Inr t' \<and> tePendingPackets t' = drop n (tePendingPackets t)
    \<and> tePeer t' = fold (\<lambda>(data, flags). send data flags)
        (map (queued (teHeap t)) (take n (tePendingPackets t))) (tePeer t)
    \<and> (\<forall>p \<in> set (take n (tePendingPackets t)). teHeap t' ! ppData p = None)
    \<and> (\<forall>p \<in> set (drop n (tePendingPackets t)). teHeap t' ! ppData p = teHeap t ! ppData p)"
proof -
  obtain n h' where "due now 0 (tePendingPackets t) n"
    "enet_update send now 0 (tePendingPackets t) (teHeap t) (tePeer t) = Inr (drop n (tePendingPackets t), h',
      fold (\<lambda>(data, flags). send data flags) (map (queued (teHeap t)) (take n (tePendingPackets t))) (tePeer t))"
    "\<forall>p \<in> set (take n (tePendingPackets t)). h' ! ppData p = None"
    "\<forall>p \<in> set (drop n (tePendingPackets t)). h' ! ppData p = teHeap t ! ppData p"
    using enet_update_due [OF assms, of now 0 send "tePeer t"] by blast
  then show ?thesis by (intro exI [of _ n]) (simp add: Enet_Update_def)
qed

abbreviation lag_sample :: "(u8 list \<times> u32) list NetTransmitterEnet" where
  "lag_sample \<equiv> \<lparr>teWriter = NetBitWriterVector_init, teWriterMode = kReliable, tePeer = [], teLagSim = 5,
     tePendingPackets = [\<lparr>ppSendTime = 5, ppData = 0, ppSize = 1, ppFlags = 1\<rparr>,
       \<lparr>ppSendTime = 6, ppData = 1, ppSize = 2, ppFlags = 0\<rparr>],
     teHeap = [Some [7], Some [8, 9]]\<rparr>"

theorem enet_Update_flushes_witness:
  "\<exists>t'. Enet_Update (\<lambda>data flags sent. sent @ [(data, flags)]) (\<lambda>k. 5) lag_sample = Inr t'
    \<and> tePendingPackets t' = drop 1 (tePendingPackets lag_sample) \<and> tePeer t' = [([7], 1)]"
proof -
  have "queue_owns (teHeap lag_sample) (tePendingPackets lag_sample)"
    by (simp add: queue_owns_def)
  from enet_Update_flushes [OF this, of "\<lambda>k. 5" "\<lambda>data flags sent. sent @ [(data, flags)]"]
  obtain n t' where n: "n \<le> length (tePendingPackets lag_sample)" "\<forall>i<n. ppSendTime (tePendingPackets lag_sample ! i) \<le> 5"
      "n < length (tePendingPackets lag_sample) \<longrightarrow> 5 < ppSendTime (tePendingPackets lag_sample ! n)"
    and t: "Enet_Update (\<lambda>data flags sent. sent @ [(data, flags)]) (\<lambda>k. 5) lag_sample = Inr t'"
      "tePendingPackets t' = drop n (tePendingPackets lag_sample)"
      "tePeer t' = fold (\<lambda>(data, flags). \<lambda>sent. sent @ [(data, flags)])
        (map (queued (teHeap lag_sample)) (take n (tePendingPackets lag_sample))) (tePeer lag_sample)" by blast
  have "n \<noteq> 0" using n(3) by (intro notI) simp
  moreover have "n \<noteq> 2" using n(2) by (intro notI) (auto dest: spec [of _ 1])
  ultimately have "n = 1" using n(1) by simp
  then show ?thesis using t by (simp add: queued_def)
qed

text \<open>\<^verbatim>\<open>Clear\<close> with two or more pending packets frees the block of
  the last one twice.\<close>

theorem enet_Clear_double_free:
  assumes "queue_owns (teHeap t) (tePendingPackets t)"
  shows "Enet_Clear t = Inl Undefined \<longleftrightarrow> 2 \<le> length (tePendingPackets t)"
proof (cases "tePendingPackets t")
  case Nil
  then show ?thesis by (simp add: Enet_Clear_def)
next
  case (Cons p ps)
  note own = assms [unfolded Cons]
  show ?thesis
  proof (cases ps)
    case Nil
    with own Cons show ?thesis by (auto simp: Enet_Clear_def queue_owns_def heap_free_def)
  next
    case (Cons q qs)
    let ?a = "ppData (last ps)"
    have l: "last ps \<in> set ps" using Cons by simp
    then have a: "?a < length (teHeap t)" "teHeap t ! ?a \<noteq> None"
      using own by (auto simp: queue_owns_def)
    show ?thesis
      using a Cons \<open>tePendingPackets t = p # ps\<close> by (simp add: Enet_Clear_def heap_free_def)
  qed
qed

theorem enet_Clear_double_free_witness: "Enet_Clear lag_sample = Inl Undefined"
proof -
  have "queue_owns (teHeap lag_sample) (tePendingPackets lag_sample)"
    by (simp add: queue_owns_def)
  from enet_Clear_double_free [OF this] show ?thesis by simp
qed

end
