(* ===== verification/Pipes.thy ===== *)
theory Pipes
  imports Transmitter Serialize
begin

text \<open>
  The pipes without feedback: \<^verbatim>\<open>NetPipeBuffer.h\<close>, \<^verbatim>\<open>NetPipeFullState.h\<close>,
  \<^verbatim>\<open>NetPipeFullStateSeq.h\<close> and \<^verbatim>\<open>NetPipeDeltaStateReliable.h\<close>. A sender writes one message per
  call; the receiver decodes it and calls the callback registered with it.

  A callback acts on the state \<open>'e\<close> of the application and may throw. The locale \<open>pipe\<close> is what
  the protocol relies on: whatever the sending side wrote becomes one call of the callback.
\<close>

section \<open>What the pipes share\<close>

text \<open>The members of a sender besides the transmitter: the arguments of \<^verbatim>\<open>Initialize\<close>.\<close>

record pipe_channel =
  pcMode :: NetPipeMode
  pcChannelIndex :: int
  pcChannelBits :: int

definition Pipe_Initialize :: "NetPipeMode \<Rightarrow> int \<Rightarrow> int \<Rightarrow> pipe_channel" where
  "Pipe_Initialize mode channel_index channel_bits =
     \<lparr>pcMode = mode, pcChannelIndex = channel_index, pcChannelBits = channel_bits\<rparr>"

type_synonym ('a, 'e) callback = "('a \<Rightarrow> 'e \<Rightarrow> 'e result) option"

definition run_callback :: "('a, 'e) callback \<Rightarrow> 'a \<Rightarrow> 'e \<Rightarrow> 'e result" where
  "run_callback cb v e = (case cb of None \<Rightarrow> Inr e | Some f \<Rightarrow> f v e)"

lemma run_callback_simps [simp]:
  "run_callback None v e = Inr e" "run_callback (Some f) v e = f v e"
  by (simp_all add: run_callback_def)

section \<open>Buffers\<close>

definition SendData ::
    "bool \<Rightarrow> 't NetTransmitter \<Rightarrow> pipe_channel \<Rightarrow> u8 list \<Rightarrow> 't \<Rightarrow> 't result" where
  "SendData dbg T c data =
     with_message T (pcMode c) (pcChannelIndex c) (pcChannelBits c) (\<lambda>writer.
       ebind (WriteBits dbg (of_nat (length data)) 32 writer) (WriteBuffer dbg data))"

definition Buffer_RegisterCallback ::
    "(u8 list \<Rightarrow> 'e \<Rightarrow> 'e result) \<Rightarrow> (u8 list, 'e) callback \<Rightarrow> (u8 list, 'e) callback" where
  "Buffer_RegisterCallback func cb = Some func"

definition Buffer_GotMessage ::
    "(u8 list, 'e) callback \<Rightarrow> NetBitReaderBuffer \<Rightarrow> 'e \<Rightarrow> (NetBitReaderBuffer \<times> 'e) result" where
  "Buffer_GotMessage cb reader e =
     ebind (ReadUBits 32 reader) (\<lambda>(size, reader).
     ebind (ReadBuffer (unat size) reader) (\<lambda>(buffer, reader).
     ebind (run_callback cb buffer e) (\<lambda>e. Inr (reader, e))))"

section \<open>Full states\<close>

definition FullState_SyncState ::
    "'a serializer \<Rightarrow> 't NetTransmitter \<Rightarrow> pipe_channel \<Rightarrow> 'a \<Rightarrow> 't \<Rightarrow> 't result" where
  "FullState_SyncState ser T c state =
     with_message T (pcMode c) (pcChannelIndex c) (pcChannelBits c) (ser state)"

text \<open>\<^verbatim>\<open>m_DefaultData\<close> is the value behind the pointer, \<^verbatim>\<open>None\<close> a null pointer.\<close>

record ('a, 'e) FullStateReceiver =
  fsUpdateCallback :: "('a, 'e) callback"
  fsDefaultData :: "'a option"

text \<open>\<open>get_default\<close> stands for \<^verbatim>\<open>StormReflGetDefault<DataClass>()\<close>.\<close>

definition FullState_Initialize ::
    "'a option \<Rightarrow> ('a, 'e) FullStateReceiver \<Rightarrow> ('a, 'e) FullStateReceiver" where
  "FullState_Initialize get_default rc = rc\<lparr>fsDefaultData := get_default\<rparr>"

definition FullState_SetDefault ::
    "'a option \<Rightarrow> ('a, 'e) FullStateReceiver \<Rightarrow> ('a, 'e) FullStateReceiver" where
  "FullState_SetDefault default_data_ptr rc = rc\<lparr>fsDefaultData := default_data_ptr\<rparr>"

definition FullState_RegisterCallback ::
    "('a \<Rightarrow> 'e \<Rightarrow> 'e result) \<Rightarrow> ('a, 'e) FullStateReceiver \<Rightarrow> ('a, 'e) FullStateReceiver" where
  "FullState_RegisterCallback func rc = rc\<lparr>fsUpdateCallback := Some func\<rparr>"

definition FullState_GotMessage ::
    "'a deserializer \<Rightarrow> ('a, 'e) FullStateReceiver \<Rightarrow> NetBitReaderBuffer \<Rightarrow> 'e
       \<Rightarrow> (NetBitReaderBuffer \<times> 'e) result" where
  "FullState_GotMessage deser rc reader e =
     (case fsDefaultData rc of
        None \<Rightarrow> Inr (reader, e)
      | Some inst \<Rightarrow>
          ebind (deser inst reader) (\<lambda>(inst, reader).
          ebind (run_callback (fsUpdateCallback rc) inst e) (\<lambda>e. Inr (reader, e))))"

section \<open>Full states with a sequence number\<close>

text \<open>
  The sequence number is written as 32 bits and read as the four bytes of a \<^verbatim>\<open>uint32_t\<close>, which are
  little-endian as the bit stream is. The file holds its text twice, between the markers of an
  unresolved merge.
\<close>

definition u32_of_bytes :: "u8 list \<Rightarrow> u32" where
  "u32_of_bytes bs = ucast (word_of_bits (buffer_bits bs))"

definition FullStateSeq_SyncState ::
    "bool \<Rightarrow> 'a serializer \<Rightarrow> 't NetTransmitter \<Rightarrow> pipe_channel \<Rightarrow> u32 \<Rightarrow> 'a \<Rightarrow> 't \<Rightarrow> 't result" where
  "FullStateSeq_SyncState dbg ser T c seq state =
     with_message T (pcMode c) (pcChannelIndex c) (pcChannelBits c) (\<lambda>writer.
       ebind (WriteBits dbg (ucast seq) 32 writer) (ser state))"

record ('a, 'e) FullStateSeqReceiver =
  fqUpdateCallback :: "(u32 \<times> 'a, 'e) callback"
  fqDefaultData :: "'a option"

definition FullStateSeq_Initialize ::
    "'a option \<Rightarrow> ('a, 'e) FullStateSeqReceiver \<Rightarrow> ('a, 'e) FullStateSeqReceiver" where
  "FullStateSeq_Initialize get_default rc = rc\<lparr>fqDefaultData := get_default\<rparr>"

definition FullStateSeq_SetDefault ::
    "'a option \<Rightarrow> ('a, 'e) FullStateSeqReceiver \<Rightarrow> ('a, 'e) FullStateSeqReceiver" where
  "FullStateSeq_SetDefault default_data_ptr rc = rc\<lparr>fqDefaultData := default_data_ptr\<rparr>"

definition FullStateSeq_RegisterCallback ::
    "(u32 \<times> 'a \<Rightarrow> 'e \<Rightarrow> 'e result) \<Rightarrow> ('a, 'e) FullStateSeqReceiver
       \<Rightarrow> ('a, 'e) FullStateSeqReceiver" where
  "FullStateSeq_RegisterCallback func rc = rc\<lparr>fqUpdateCallback := Some func\<rparr>"

definition FullStateSeq_GotMessage ::
    "'a deserializer \<Rightarrow> ('a, 'e) FullStateSeqReceiver \<Rightarrow> NetBitReaderBuffer \<Rightarrow> 'e
       \<Rightarrow> (NetBitReaderBuffer \<times> 'e) result" where
  "FullStateSeq_GotMessage deser rc reader e =
     (case fqDefaultData rc of
        None \<Rightarrow> Inr (reader, e)
      | Some inst \<Rightarrow>
          ebind (NetDeserializeType_pod [0, 0, 0, 0] reader) (\<lambda>(seq, reader).
          ebind (deser inst reader) (\<lambda>(inst, reader).
          ebind (run_callback (fqUpdateCallback rc) (u32_of_bytes seq, inst) e) (\<lambda>e. Inr (reader, e)))))"

section \<open>Differences over a reliable channel\<close>

text \<open>
  Both sides keep the last state: the sender the one it sent last, the receiver the one it decoded
  last. The shared pointers are the states behind them (nobody writes to a state that was handed
  over). \<open>D\<close> holds the serializers of \<^verbatim>\<open>DataClass\<close>; \<open>fresh\<close> is what
  \<^verbatim>\<open>make_shared<DataClass>()\<close> constructs. \<^verbatim>\<open>StormReflCopy\<close> is an assignment.
\<close>

record 'a DeltaReliableSender =
  drChannelIndex :: int
  drChannelBits :: int
  drLastSyncedState :: "'a option"

definition DeltaReliable_Initialize ::
    "int \<Rightarrow> int \<Rightarrow> 'a DeltaReliableSender \<Rightarrow> 'a DeltaReliableSender" where
  "DeltaReliable_Initialize channel_index channel_bits s =
     s\<lparr>drChannelIndex := channel_index, drChannelBits := channel_bits\<rparr>"

definition DeltaReliable_SyncState ::
    "'a field \<Rightarrow> 't NetTransmitter \<Rightarrow> 'a DeltaReliableSender \<Rightarrow> 'a \<Rightarrow> 't
       \<Rightarrow> ('a DeltaReliableSender \<times> 't) result" where
  "DeltaReliable_SyncState D T s current_state t =
     ebind (with_message T kReliable (drChannelIndex s) (drChannelBits s) (\<lambda>writer.
       case drLastSyncedState s of
         Some synced \<Rightarrow> ebind (fDeltaSer D current_state synced writer) (\<lambda>(_, writer). Inr writer)
       | None \<Rightarrow> fSer D current_state writer) t) (\<lambda>t.
     Inr (s\<lparr>drLastSyncedState := Some current_state\<rparr>, t))"

record ('a, 'e) DeltaReliableReceiver =
  drUpdateCallback :: "('a, 'e) callback"
  drReferenceState :: "'a option"

definition DeltaReliable_RegisterCallback ::
    "('a \<Rightarrow> 'e \<Rightarrow> 'e result) \<Rightarrow> ('a, 'e) DeltaReliableReceiver \<Rightarrow> ('a, 'e) DeltaReliableReceiver" where
  "DeltaReliable_RegisterCallback func rc = rc\<lparr>drUpdateCallback := Some func\<rparr>"

definition DeltaReliable_GotMessage ::
    "'a field \<Rightarrow> 'a \<Rightarrow> ('a, 'e) DeltaReliableReceiver \<Rightarrow> NetBitReaderBuffer \<Rightarrow> 'e
       \<Rightarrow> (('a, 'e) DeltaReliableReceiver \<times> NetBitReaderBuffer \<times> 'e) result" where
  "DeltaReliable_GotMessage D fresh rc reader e =
     ebind (case drReferenceState rc of
              Some reference \<Rightarrow> fDeltaDeser D reference reader
            | None \<Rightarrow> fDeser D fresh reader) (\<lambda>(inst, reader).
     ebind (run_callback (drUpdateCallback rc) inst e) (\<lambda>e.
     Inr (rc\<lparr>drReferenceState := Some inst\<rparr>, reader, e)))"

section \<open>The contract of a pipe\<close>

text \<open>
  \<open>body\<close> is the body of a message, \<open>got\<close> the receiver's \<^verbatim>\<open>GotMessage\<close>, \<open>deliver_to\<close> what it
  promises to do to the application.
\<close>

locale pipe =
  fixes body :: "'m \<Rightarrow> NetBitWriterVector \<Rightarrow> NetBitWriterVector result"
    and got :: "NetBitReaderBuffer \<Rightarrow> 'e \<Rightarrow> (NetBitReaderBuffer \<times> 'e) result"
    and deliver_to :: "'m \<Rightarrow> 'e \<Rightarrow> 'e result"
    and wf :: "'m \<Rightarrow> bool"
    and enc :: "'m \<Rightarrow> bool list"
  assumes body_enc: "winv w \<Longrightarrow> wf m \<Longrightarrow> \<exists>w'. body m w = Inr w' \<and> appended w w' (enc m)"
    and got_enc: "rinv r \<Longrightarrow> wf m \<Longrightarrow> rbits r = enc m @ rest \<Longrightarrow> deliver_to m e = Inr e' \<Longrightarrow>
      \<exists>r'. got r e = Inr (r', e') \<and> rinv r' \<and> rbits r' = rest"

text \<open>Buffers shorter than \<open>2 ^ 32\<close> bytes.\<close>

definition buffer_enc :: "u8 list \<Rightarrow> bool list" where
  "buffer_enc data = nat_bits 32 (length data) @ buffer_bits data"

lemma unat_of_nat_32: "n < 2 ^ 32 \<Longrightarrow> unat (of_nat n :: u64) = n"
  by (rule unat_of_nat_bound [of _ 32]) auto

interpretation buffer_pipe: pipe
    "\<lambda>data writer. ebind (WriteBits dbg (of_nat (length data)) 32 writer) (WriteBuffer dbg data)"
    "Buffer_GotMessage cb" "run_callback cb" "\<lambda>data. length data < 2 ^ 32" buffer_enc for dbg cb
proof
  fix w :: NetBitWriterVector and m :: "u8 list"
  assume w: "winv w" and m: "length m < 2 ^ 32"
  from WriteBits_nat [OF w m, of dbg] obtain w1 where
    1: "WriteBits dbg (of_nat (length m)) 32 w = Inr w1" and a1: "wrote w w1 (nat_bits 32 (length m))"
    by auto
  from WriteBuffer_spec [OF wrote_winv [OF a1], of dbg m] obtain w2 where
    2: "WriteBuffer dbg m w1 = Inr w2" and a2: "appended w1 w2 (buffer_bits m)"
    by (auto simp: appended_def)
  show "\<exists>w'. ebind (WriteBits dbg (of_nat (length m)) 32 w) (WriteBuffer dbg m) = Inr w'
      \<and> appended w w' (buffer_enc m)"
    using 1 2 appended_trans [OF wrote_appended [OF a1] a2] by (simp add: buffer_enc_def)
next
  fix r :: NetBitReaderBuffer and m :: "u8 list" and rest :: "bool list" and e e' :: 'a
  assume r: "rinv r" and m: "length m < 2 ^ 32" and b: "rbits r = buffer_enc m @ rest"
    and e: "run_callback cb m e = Inr e'"
  have b: "rbits r = nat_bits 32 (length m) @ buffer_bits m @ rest" using b by (simp add: buffer_enc_def)
  from ReadUBits_nat [OF r b m] obtain r1 where 1: "ReadUBits 32 r = Inr (of_nat (length m), r1)"
    and c1: "consumed r r1 (nat_bits 32 (length m))" and b1: "rbits r1 = buffer_bits m @ rest" by auto
  from ReadBuffer_spec [OF consumed_rinv [OF c1] b1] obtain r2 where
    2: "ReadBuffer (length m) r1 = Inr (m, r2)" and c2: "consumed r1 r2 (buffer_bits m)" by blast
  show "\<exists>r'. Buffer_GotMessage cb r e = Inr (r', e') \<and> rinv r' \<and> rbits r' = rest"
    using 1 2 e unat_of_nat_32 [OF m] consumed_rinv [OF c2] consumed_rest [OF c2 b1]
    by (simp add: Buffer_GotMessage_def)
qed

text \<open>Full states of a type whose serializers keep the contract of \<^verbatim>\<open>NetSerializer\<close>.\<close>

lemma full_state_pipe:
  assumes "value_codec ser deser ok obj enc" and d: "fsDefaultData rc = Some d" "obj d"
  shows "pipe ser (FullState_GotMessage deser rc) (run_callback (fsUpdateCallback rc)) ok enc"
proof
  note ser_enc = value_codec.ser_enc [OF assms(1)] and deser_rest = value_codec.deser_rest [OF assms(1)]
  show "\<exists>w'. ser m w = Inr w' \<and> appended w w' (enc m)" if "winv w" "ok m" for w m
    using ser_enc [OF that] wrote_appended by blast
  show "\<exists>r'. FullState_GotMessage deser rc r e = Inr (r', e') \<and> rinv r' \<and> rbits r' = rest"
    if "rinv r" "ok m" "rbits r = enc m @ rest" "run_callback (fsUpdateCallback rc) m e = Inr e'"
    for r m rest e e'
    using deser_rest [OF that(1,2) d(2) that(3)] d(1) that(4)
    by (fastforce simp: FullState_GotMessage_def dest: consumed_rinv)
qed

text \<open>The four bytes of a sequence number.\<close>

definition u32_bytes :: "u32 \<Rightarrow> u8 list" where
  "u32_bytes v = map (\<lambda>i. ucast (drop_bit (8 * i) v)) [0..<4]"

lemma length_u32_bytes [simp]: "length (u32_bytes v) = 4"
  by (simp add: u32_bytes_def)

lemma buffer_bits_u32_bytes: "buffer_bits (u32_bytes v) = bits_of 32 (ucast v)"
proof (rule nth_equalityI)
  show "length (buffer_bits (u32_bytes v)) = length (bits_of 32 (ucast v))" by simp
next
  fix i assume "i < length (buffer_bits (u32_bytes v))"
  then have i: "i < 32" "i div 8 < 4" by simp_all
  have "8 * (i div 8) + i mod 8 = i" by simp
  with i show "buffer_bits (u32_bytes v) ! i = bits_of 32 (ucast v) ! i"
    by (simp add: buffer_bits_nth u32_bytes_def bit_ucast_iff bit_drop_bit_eq)
qed

lemma take_bit_ucast_32: "take_bit 32 (ucast (v :: u32) :: u64) = ucast v"
  by (rule bit_word_eqI) (auto simp: bit_take_bit_iff bit_ucast_iff dest: bit_imp_le_length)

lemma u32_of_u32_bytes: "u32_of_bytes (u32_bytes v) = v"
proof -
  have "u32_of_bytes (u32_bytes v) = ucast (ucast v :: u64)"
    by (simp add: u32_of_bytes_def buffer_bits_u32_bytes word_of_bits_bits_of take_bit_ucast_32)
  then show ?thesis
    by (simp only:) (rule bit_word_eqI, auto simp: bit_ucast_iff dest: bit_imp_le_length)
qed

lemma full_state_seq_pipe:
  assumes "value_codec ser deser ok obj enc" and rc: "fqDefaultData rc = Some d" and d: "obj d"
  shows "pipe (\<lambda>(seq, state) writer. ebind (WriteBits dbg (ucast seq) 32 writer) (ser state))
    (FullStateSeq_GotMessage deser rc) (run_callback (fqUpdateCallback rc)) (\<lambda>(seq, state). ok state)
    (\<lambda>(seq, state). bits_of 32 (ucast seq) @ enc state)"
proof
  note ser_enc = value_codec.ser_enc [OF assms(1)] and deser_rest = value_codec.deser_rest [OF assms(1)]
  fix w :: NetBitWriterVector and m :: "u32 \<times> 'a"
  obtain seq state where m: "m = (seq, state)" by force
  assume w: "winv w" and "case m of (seq, state) \<Rightarrow> ok state"
  then have ok: "ok state" by (simp add: m)
  have "writable dbg (ucast seq) 32"
    using writable_take_bit [of dbg 32 "ucast seq"] by (simp only: take_bit_ucast_32)
  with WriteBits_spec [of w 32 dbg "ucast seq"] w obtain w1 where
    1: "WriteBits dbg (ucast seq) 32 w = Inr w1" and a1: "wrote w w1 (bits_of 32 (ucast seq))"
    by auto
  from ser_enc [OF wrote_winv [OF a1] ok] obtain w2 where
    2: "ser state w1 = Inr w2" and a2: "wrote w1 w2 (enc state)" by blast
  show "\<exists>w'. (case m of (seq, state) \<Rightarrow> \<lambda>writer. ebind (WriteBits dbg (ucast seq) 32 writer) (ser state)) w
      = Inr w' \<and> appended w w' (case m of (seq, state) \<Rightarrow> bits_of 32 (ucast seq) @ enc state)"
    using 1 2 wrote_appended [OF wrote_trans [OF a1 a2]] by (simp add: m)
next
  note deser_rest = value_codec.deser_rest [OF assms(1)]
  fix r :: NetBitReaderBuffer and m :: "u32 \<times> 'a" and rest :: "bool list" and e e'
  obtain seq state where m: "m = (seq, state)" by force
  assume r: "rinv r" and "case m of (seq, state) \<Rightarrow> ok state"
    and "rbits r = (case m of (seq, state) \<Rightarrow> bits_of 32 (ucast seq) @ enc state) @ rest"
    and cb: "run_callback (fqUpdateCallback rc) m e = Inr e'"
  then have ok: "ok state" and b: "rbits r = buffer_bits (u32_bytes seq) @ enc state @ rest"
    by (simp_all add: m buffer_bits_u32_bytes)
  have "length (u32_bytes seq) = 4" "length [0, 0, 0, 0 :: u8] = 4" by (simp_all add: u32_bytes_def)
  from pod_codec.deser_rest [OF r this b] obtain r1 where
    1: "NetDeserializeType_pod [0, 0, 0, 0] r = Inr (u32_bytes seq, r1)"
    and c1: "consumed r r1 (buffer_bits (u32_bytes seq))" and b1: "rbits r1 = enc state @ rest" by blast
  from deser_rest [OF consumed_rinv [OF c1] ok d b1] obtain r2 where
    2: "deser d r1 = Inr (state, r2)" "consumed r1 r2 (enc state)" "rbits r2 = rest" by blast
  show "\<exists>r'. FullStateSeq_GotMessage deser rc r e = Inr (r', e') \<and> rinv r' \<and> rbits r' = rest"
    using 1 2 cb rc by (simp add: FullStateSeq_GotMessage_def u32_of_u32_bytes m consumed_rinv)
qed

end
