(* ===== verification/Protocol.thy ===== *)
theory Protocol
  imports Pipes
begin

text \<open>
  \<^verbatim>\<open>NetProtocol.h\<close>, \<^verbatim>\<open>NetProtocolSender.h\<close>, \<^verbatim>\<open>NetProtocolReceiver.h\<close>,
  \<^verbatim>\<open>NetProtocolFuncs.h\<close> and the message path of \<^verbatim>\<open>NetServer.h\<close> and \<^verbatim>\<open>NetClient.h\<close>: a protocol is a tuple
  of senders and one of receivers, and a message goes to the one its header names.

  The tuples of different pipe types are lists over one type of senders \<open>'s\<close> and one of receivers
  \<open>'r\<close> (a sum of the pipe types), and the member functions of the pipes are functions on these:
  \<open>init\<close> is \<^verbatim>\<open>Initialize\<close>, \<open>got_ack\<close> a sender's \<^verbatim>\<open>GotAck\<close>, \<open>got\<close> a receiver's \<^verbatim>\<open>GotMessage\<close>.
  Besides the receiver, \<^verbatim>\<open>GotMessage\<close> acts on \<open>'w\<close>: the transmitter that takes the acknowledgements
  and the application behind the callbacks.
\<close>

section \<open>Senders\<close>

type_synonym 's initialize = "NetPipeMode \<Rightarrow> int \<Rightarrow> int \<Rightarrow> 's \<Rightarrow> 's"
type_synonym 's got_ack = "'s \<Rightarrow> NetBitReaderBuffer \<Rightarrow> ('s \<times> NetBitReaderBuffer) result"
type_synonym ('r, 'w) got_message =
  "'r \<Rightarrow> NetBitReaderBuffer \<Rightarrow> 'w \<Rightarrow> ('r \<times> NetBitReaderBuffer \<times> 'w) result"

text \<open>\<^verbatim>\<open>GetRequiredBits(sizeof...(MessagePipeTypes) - 1)\<close>\<close>

definition channel_bits :: "nat \<Rightarrow> int" where
  "channel_bits n = int (GetRequiredBits U64 (conv U64 (int n - 1)))"

fun InitSender :: "'s initialize \<Rightarrow> int \<Rightarrow> NetPipeMode list \<Rightarrow> int \<Rightarrow> 's list \<Rightarrow> 's list" where
  "InitSender init channel_index (mode # modes) bits (sender # senders) =
     init mode channel_index bits sender # InitSender init (channel_index + 1) modes bits senders"
| "InitSender init channel_index modes bits senders = senders"

definition NetProtocolSender :: "'s initialize \<Rightarrow> NetPipeMode list \<Rightarrow> 's list \<Rightarrow> 's list" where
  "NetProtocolSender init modes senders = InitSender init 0 modes (channel_bits (length senders)) senders"

fun ProcessAck :: "'s got_ack \<Rightarrow> int \<Rightarrow> int \<Rightarrow> NetBitReaderBuffer \<Rightarrow> 's list
    \<Rightarrow> ('s list \<times> NetBitReaderBuffer) result" where
  "ProcessAck got_ack channel_index target_index reader [] = Inr ([], reader)"
| "ProcessAck got_ack channel_index target_index reader (sender # senders) =
     (if channel_index = target_index then
        ebind (got_ack sender reader) (\<lambda>(sender, reader). Inr (sender # senders, reader))
      else
        ebind (ProcessAck got_ack (channel_index + 1) target_index reader senders)
          (\<lambda>(senders, reader). Inr (sender # senders, reader)))"

definition Sender_GotAck_channel ::
    "'s got_ack \<Rightarrow> NetBitReaderBuffer \<Rightarrow> int \<Rightarrow> 's list \<Rightarrow> ('s list \<times> NetBitReaderBuffer) result" where
  "Sender_GotAck_channel got_ack reader target_channel senders =
     ProcessAck got_ack 0 target_channel reader senders"

definition Sender_GotAck ::
    "'s got_ack \<Rightarrow> NetBitReaderBuffer \<Rightarrow> 's list \<Rightarrow> ('s list \<times> NetBitReaderBuffer) result" where
  "Sender_GotAck got_ack reader senders =
     ebind (ReadUBits (channel_bits (length senders)) reader) (\<lambda>(v, reader).
       Sender_GotAck_channel got_ack reader (conv I32 (uint v)) senders)"

section \<open>Receivers\<close>

fun InitReceiver :: "'r initialize \<Rightarrow> int \<Rightarrow> int \<Rightarrow> 'r list \<Rightarrow> 'r list" where
  "InitReceiver init channel_index bits [] = []"
| "InitReceiver init channel_index bits (receiver # receivers) =
     init kUnreliableSequenced channel_index bits receiver
       # InitReceiver init (channel_index + 1) bits receivers"

definition NetProtocolReceiver :: "'r initialize \<Rightarrow> int \<Rightarrow> 'r list \<Rightarrow> 'r list" where
  "NetProtocolReceiver init bits receivers = InitReceiver init 0 bits receivers"

fun ProcessMessage :: "('r, 'w) got_message \<Rightarrow> int \<Rightarrow> int \<Rightarrow> NetBitReaderBuffer \<Rightarrow> 'r list \<Rightarrow> 'w
    \<Rightarrow> ('r list \<times> NetBitReaderBuffer \<times> 'w) result" where
  "ProcessMessage got channel_index target_index reader [] e = Inr ([], reader, e)"
| "ProcessMessage got channel_index target_index reader (receiver # receivers) e =
     (if channel_index = target_index then
        ebind (got receiver reader e) (\<lambda>(receiver, reader, e). Inr (receiver # receivers, reader, e))
      else
        ebind (ProcessMessage got (channel_index + 1) target_index reader receivers e)
          (\<lambda>(receivers, reader, e). Inr (receiver # receivers, reader, e)))"

definition Receiver_GotMessage_channel ::
    "('r, 'w) got_message \<Rightarrow> NetBitReaderBuffer \<Rightarrow> int \<Rightarrow> 'r list \<Rightarrow> 'w
       \<Rightarrow> ('r list \<times> NetBitReaderBuffer \<times> 'w) result" where
  "Receiver_GotMessage_channel got reader target_channel receivers e =
     ProcessMessage got 0 target_channel reader receivers e"

definition Receiver_GotMessage ::
    "('r, 'w) got_message \<Rightarrow> NetBitReaderBuffer \<Rightarrow> 'r list \<Rightarrow> 'w
       \<Rightarrow> ('r list \<times> NetBitReaderBuffer \<times> 'w) result" where
  "Receiver_GotMessage got reader receivers e =
     ebind (ReadUBits (channel_bits (length receivers)) reader) (\<lambda>(v, reader).
       Receiver_GotMessage_channel got reader (conv I32 (uint v)) receivers e)"

section \<open>Protocols\<close>

record ('s, 'r) NetProtocol =
  npSenders :: "'s list"
  npReceivers :: "'r list"

text \<open>
  The symmetric protocol has the senders and the receivers of the same pipes, the asymmetric one
  the receivers of one list of pipes and the senders of another; both tell the receivers the number
  of bits of the receivers' own list.
\<close>

definition SymmetricProtocol ::
    "'s initialize \<Rightarrow> 'r initialize \<Rightarrow> NetPipeMode list \<Rightarrow> 's list \<Rightarrow> 'r list \<Rightarrow> ('s, 'r) NetProtocol" where
  "SymmetricProtocol init_s init_r modes senders receivers =
     \<lparr>npSenders = NetProtocolSender init_s modes senders,
      npReceivers = NetProtocolReceiver init_r (channel_bits (length receivers)) receivers\<rparr>"

definition AsymmetricProtocol ::
    "'s initialize \<Rightarrow> 'r initialize \<Rightarrow> NetPipeMode list \<Rightarrow> 's list \<Rightarrow> 'r list \<Rightarrow> ('s, 'r) NetProtocol" where
  "AsymmetricProtocol init_s init_r opposite_modes senders receivers =
     \<lparr>npSenders = NetProtocolSender init_s opposite_modes senders,
      npReceivers = NetProtocolReceiver init_r (channel_bits (length receivers)) receivers\<rparr>"

text \<open>Both classes have the same two \<^verbatim>\<open>GotMessage\<close> functions.\<close>

definition Protocol_GotMessage_channel ::
    "'s got_ack \<Rightarrow> ('r, 'w) got_message \<Rightarrow> NetBitReaderBuffer \<Rightarrow> bool \<Rightarrow> int \<Rightarrow> ('s, 'r) NetProtocol \<times> 'w
       \<Rightarrow> (NetBitReaderBuffer \<times> ('s, 'r) NetProtocol \<times> 'w) result" where
  "Protocol_GotMessage_channel got_ack got reader ack channel_index = (\<lambda>(P, e).
     if ack then
       ebind (Sender_GotAck_channel got_ack reader channel_index (npSenders P)) (\<lambda>(senders, reader).
         Inr (reader, P\<lparr>npSenders := senders\<rparr>, e))
     else
       ebind (Receiver_GotMessage_channel got reader channel_index (npReceivers P) e)
         (\<lambda>(receivers, reader, e). Inr (reader, P\<lparr>npReceivers := receivers\<rparr>, e)))"

definition Protocol_GotMessage ::
    "'s got_ack \<Rightarrow> ('r, 'w) got_message \<Rightarrow> NetBitReaderBuffer \<Rightarrow> ('s, 'r) NetProtocol \<times> 'w
       \<Rightarrow> (NetBitReaderBuffer \<times> ('s, 'r) NetProtocol \<times> 'w) result" where
  "Protocol_GotMessage got_ack got reader = (\<lambda>(P, e).
     ebind (ReadUBits 1 reader) (\<lambda>(is_ack, reader).
       if conv I32 (uint is_ack) \<noteq> 0 then
         ebind (Sender_GotAck got_ack reader (npSenders P)) (\<lambda>(senders, reader).
           Inr (reader, P\<lparr>npSenders := senders\<rparr>, e))
       else
         ebind (Receiver_GotMessage got reader (npReceivers P) e)
           (\<lambda>(receivers, reader, e). Inr (reader, P\<lparr>npReceivers := receivers\<rparr>, e))))"

definition NetGetProtocolPipeModes :: "('p \<Rightarrow> NetPipeMode) \<Rightarrow> 'p list \<Rightarrow> NetPipeMode list" where
  "NetGetProtocolPipeModes PipeMode pipes = map PipeMode pipes"

section \<open>Clients and servers\<close>

text \<open>
  A client has one protocol once it is connected (dereferencing the empty optional before that is
  undefined), and insists that a message is read to its end.
\<close>

definition Client_GotConnection ::
    "(('s, 'r) NetProtocol \<Rightarrow> 'w \<Rightarrow> (('s, 'r) NetProtocol \<times> 'w) result) \<Rightarrow> ('s, 'r) NetProtocol
       \<Rightarrow> ('s, 'r) NetProtocol option \<times> 'w \<Rightarrow> (('s, 'r) NetProtocol option \<times> 'w) result" where
  "Client_GotConnection InitConnection protocol = (\<lambda>(_, e).
     ebind (InitConnection protocol e) (\<lambda>(P, e). Inr (Some P, e)))"

definition Client_GotMessage ::
    "'s got_ack \<Rightarrow> ('r, 'w) got_message \<Rightarrow> NetBitReaderBuffer \<Rightarrow> ('s, 'r) NetProtocol option \<times> 'w
       \<Rightarrow> (('s, 'r) NetProtocol option \<times> 'w) result" where
  "Client_GotMessage got_ack got reader = (\<lambda>(P, e).
     case P of
       None \<Rightarrow> Inl Undefined
     | Some P \<Rightarrow>
         ebind (Protocol_GotMessage got_ack got reader (P, e)) (\<lambda>(reader, P, e).
           if IsEmpty reader then Inr (Some P, e) else Inl RuntimeError))"

definition Client_GotMessage_channel ::
    "'s got_ack \<Rightarrow> ('r, 'w) got_message \<Rightarrow> NetBitReaderBuffer \<Rightarrow> bool \<Rightarrow> int
       \<Rightarrow> ('s, 'r) NetProtocol option \<times> 'w \<Rightarrow> (('s, 'r) NetProtocol option \<times> 'w) result" where
  "Client_GotMessage_channel got_ack got reader ack channel_index = (\<lambda>(P, e).
     case P of
       None \<Rightarrow> Inl Undefined
     | Some P \<Rightarrow>
         ebind (Protocol_GotMessage_channel got_ack got reader ack channel_index (P, e))
           (\<lambda>(reader, P, e). if IsEmpty reader then Inr (Some P, e) else Inl RuntimeError))"

text \<open>
  The server keeps its clients in \<^verbatim>\<open>StaticSizedArrayAlloc\<close> of an external library; its operations
  are the parameter \<open>A\<close>, on the allocator's state \<open>'k\<close>. \<open>saAllocateRaw j\<close> takes the slot \<open>j\<close>, or returns \<^verbatim>\<open>nullptr\<close>,
  which the server writes through; \<open>saUpdate\<close> is a write to a slot that is taken. A slot holds the user's
  \<^verbatim>\<open>ClientDef\<close>, which \<^verbatim>\<open>ConstructClient\<close> builds, and the protocol.
\<close>

record ('k, 'v) slot_array =
  saAllocateRaw :: "nat \<Rightarrow> 'k \<Rightarrow> 'k option"
  saElement :: "nat \<Rightarrow> 'k \<Rightarrow> 'v option"
  saFree :: "nat \<Rightarrow> 'k \<Rightarrow> 'k"
  saUpdate :: "nat \<Rightarrow> 'v \<Rightarrow> 'k \<Rightarrow> 'k"

definition Server_GotNewConnection ::
    "('k, 'c \<times> ('s, 'r) NetProtocol) slot_array \<Rightarrow> (u32 \<Rightarrow> u16 \<Rightarrow> bool)
       \<Rightarrow> (nat \<Rightarrow> ('s, 'r) NetProtocol \<Rightarrow> 'w \<Rightarrow> ('c \<times> ('s, 'r) NetProtocol \<times> 'w) result)
       \<Rightarrow> ('s, 'r) NetProtocol \<Rightarrow> nat \<Rightarrow> u32 \<Rightarrow> u16 \<Rightarrow> 'k \<times> 'w \<Rightarrow> ('k \<times> 'w) result" where
  "Server_GotNewConnection A AllowNewConnection ConstructClient protocol connection_id
       remote_host remote_port = (\<lambda>(clients, e).
     if \<not> AllowNewConnection remote_host remote_port then Inr (clients, e)
     else case saAllocateRaw A connection_id clients of
       None \<Rightarrow> Inl Undefined
     | Some clients \<Rightarrow>
         ebind (ConstructClient connection_id protocol e) (\<lambda>(client, P, e).
           Inr (saUpdate A connection_id (client, P) clients, e)))"

definition Server_ConnectionLost ::
    "('k, 'c \<times> ('s, 'r) NetProtocol) slot_array \<Rightarrow> ('c \<Rightarrow> ('s, 'r) NetProtocol \<Rightarrow> 'w \<Rightarrow> 'w result)
       \<Rightarrow> nat \<Rightarrow> 'k \<times> 'w \<Rightarrow> ('k \<times> 'w) result" where
  "Server_ConnectionLost A CleanupClient connection_id = (\<lambda>(clients, e).
     case saElement A connection_id clients of
       None \<Rightarrow> Inr (clients, e)
     | Some (client, P) \<Rightarrow>
         ebind (CleanupClient client P e) (\<lambda>e. Inr (saFree A connection_id clients, e)))"

definition Server_GotMessage ::
    "('k, 'c \<times> ('s, 'r) NetProtocol) slot_array \<Rightarrow> 's got_ack \<Rightarrow> ('r, 'w) got_message \<Rightarrow> nat
       \<Rightarrow> NetBitReaderBuffer \<Rightarrow> 'k \<times> 'w \<Rightarrow> ('k \<times> 'w) result" where
  "Server_GotMessage A got_ack got connection_id reader = (\<lambda>(clients, e).
     case saElement A connection_id clients of
       None \<Rightarrow> Inr (clients, e)
     | Some (client, P) \<Rightarrow>
         ebind (Protocol_GotMessage got_ack got reader (P, e)) (\<lambda>(_, P, e).
           Inr (saUpdate A connection_id (client, P) clients, e)))"

definition Server_GotMessage_channel ::
    "('k, 'c \<times> ('s, 'r) NetProtocol) slot_array \<Rightarrow> 's got_ack \<Rightarrow> ('r, 'w) got_message \<Rightarrow> nat
       \<Rightarrow> NetBitReaderBuffer \<Rightarrow> bool \<Rightarrow> int \<Rightarrow> 'k \<times> 'w \<Rightarrow> ('k \<times> 'w) result" where
  "Server_GotMessage_channel A got_ack got connection_id reader ack channel_index = (\<lambda>(clients, e).
     case saElement A connection_id clients of
       None \<Rightarrow> Inr (clients, e)
     | Some (client, P) \<Rightarrow>
         ebind (Protocol_GotMessage_channel got_ack got reader ack channel_index (P, e))
           (\<lambda>(_, P, e). Inr (saUpdate A connection_id (client, P) clients, e)))"

section \<open>Dispatch\<close>

lemma channel_bits_eq:
  assumes "0 < n" "n < 2 ^ 31"
  shows "channel_bits n = int (size_bits (n - 1))" "n \<le> 2 ^ size_bits (n - 1)" "size_bits (n - 1) \<le> 31"
proof -
  have "int (n - 1) = int n - 1" using assms by simp
  moreover have "in_ctype U64 (int n - 1)"
    using assms by (simp add: in_ctype_def ctype_min_def ctype_max_def)
  ultimately show "channel_bits n = int (size_bits (n - 1))"
    by (simp add: channel_bits_def conv_id)
  have "n - 1 < 2 ^ size_bits (n - 1)"
    using size_bits(3) [of "n - 1" "n - 1"] assms by simp
  then show "n \<le> 2 ^ size_bits (n - 1)" using assms(1) by linarith
  have "wide U64" "in_ctype U64 (int (n - 1))"
    using assms by (simp_all add: wide_def in_ctype_def ctype_min_def ctype_max_def)
  from required_bits(1) [OF this, of 31] assms show "size_bits (n - 1) \<le> 31" by simp
qed

lemma ProcessMessage_hit:
  "i < length rs \<Longrightarrow> ProcessMessage got ci (ci + int i) r rs e =
     ebind (got (rs ! i) r e) (\<lambda>(x, r, e). Inr (rs[i := x], r, e))"
proof (induction rs arbitrary: i ci)
  case Nil
  then show ?case by simp
next
  case (Cons x rs)
  show ?case
  proof (cases i)
    case 0
    then show ?thesis by (cases "got x r e") auto
  next
    case (Suc j)
    have "ProcessMessage got (ci + 1) (ci + int i) r rs e =
        ebind (got (rs ! j) r e) (\<lambda>(y, r, e). Inr (rs[j := y], r, e))"
      using Cons.IH [of j "ci + 1"] Cons.prems Suc
      by (cases "got (rs ! j) r e") (simp_all add: algebra_simps split: prod.splits)
    moreover have "(x # rs) ! i = rs ! j" "\<And>y. (x # rs)[i := y] = x # rs[j := y]" "ci \<noteq> ci + int i"
      using Suc by simp_all
    ultimately show ?thesis by (cases "got (rs ! j) r e") auto
  qed
qed

lemma ProcessMessage_miss:
  "ti < ci \<or> ci + int (length rs) \<le> ti \<Longrightarrow> ProcessMessage got ci ti r rs e = Inr (rs, r, e)"
  by (induction rs arbitrary: ci) auto

lemma ProcessAck_hit:
  "i < length ss \<Longrightarrow> ProcessAck got_ack ci (ci + int i) r ss =
     ebind (got_ack (ss ! i) r) (\<lambda>(x, r). Inr (ss[i := x], r))"
proof (induction ss arbitrary: i ci)
  case Nil
  then show ?case by simp
next
  case (Cons x ss)
  show ?case
  proof (cases i)
    case 0
    then show ?thesis by (cases "got_ack x r") auto
  next
    case (Suc j)
    have "ProcessAck got_ack (ci + 1) (ci + int i) r ss =
        ebind (got_ack (ss ! j) r) (\<lambda>(y, r). Inr (ss[j := y], r))"
      using Cons.IH [of j "ci + 1"] Cons.prems Suc
      by (cases "got_ack (ss ! j) r") (simp_all add: algebra_simps split: prod.splits)
    moreover have "(x # ss) ! i = ss ! j" "\<And>y. (x # ss)[i := y] = x # ss[j := y]" "ci \<noteq> ci + int i"
      using Suc by simp_all
    ultimately show ?thesis by (cases "got_ack (ss ! j) r") auto
  qed
qed

lemma ProcessAck_miss:
  "ti < ci \<or> ci + int (length ss) \<le> ti \<Longrightarrow> ProcessAck got_ack ci ti r ss = Inr (ss, r)"
  by (induction ss arbitrary: ci) auto

lemma Protocol_header:
  assumes "rinv r" "rbits r = header ack (size_bits (n - 1)) i @ rest"
    and "n = (if ack then length (npSenders P) else length (npReceivers P))"
    and "0 < n" "n < 2 ^ 31" "i < 2 ^ size_bits (n - 1)"
  shows "\<exists>r'. rinv r' \<and> rbits r' = rest \<and>
    Protocol_GotMessage got_ack got r (P, e) =
      Protocol_GotMessage_channel got_ack got r' ack (int i) (P, e)"
proof -
  note cb = channel_bits_eq [OF assms(4,5)]
  from assms(2) have b: "rbits r = ack # nat_bits (size_bits (n - 1)) i @ rest" by (simp add: header_def)
  from ReadUBits_flag [OF assms(1) b] obtain r1 where 1: "ReadUBits 1 r = Inr (of_bool ack, r1)"
    and c1: "consumed r r1 [ack]" and b1: "rbits r1 = nat_bits (size_bits (n - 1)) i @ rest" by blast
  from ReadUBits_nat [OF consumed_rinv [OF c1] b1 assms(6)] cb(3) obtain r2
    where 2: "ReadUBits (int (size_bits (n - 1))) r1 = Inr (of_nat i, r2)"
    and c2: "consumed r1 r2 (nat_bits (size_bits (n - 1)) i)" and b2: "rbits r2 = rest" by auto
  have "(2 :: nat) ^ size_bits (n - 1) \<le> 2 ^ 31" using cb(3) by (intro power_increasing) auto
  then have i: "conv I32 (uint (of_nat i :: u64)) = int i"
    using conv_word_index assms(6) by (meson order_less_le_trans)
  have f: "conv I32 (uint (of_bool ack :: u64)) \<noteq> 0 \<longleftrightarrow> ack"
    by (cases ack) (simp_all add: conv_id in_ctype_def ctype_min_def ctype_max_def)
  have "Protocol_GotMessage got_ack got r (P, e) =
      Protocol_GotMessage_channel got_ack got r2 ack (int i) (P, e)"
    using 1 2 assms(3) i f cb(1)
    by (cases ack) (simp_all add: Protocol_GotMessage_def Protocol_GotMessage_channel_def
        Sender_GotAck_def Receiver_GotMessage_def)
  with consumed_rinv [OF c2] b2 show ?thesis by blast
qed

lemma Protocol_GotMessage_at:
  assumes "rinv r" "rbits r = header ack (size_bits (n - 1)) i @ rest"
    and "n = (if ack then length (npSenders P) else length (npReceivers P))"
    and "i < n" "n < 2 ^ 31"
  shows "\<exists>r'. rinv r' \<and> rbits r' = rest \<and> Protocol_GotMessage got_ack got r (P, e) =
    (if ack then
       ebind (got_ack (npSenders P ! i) r') (\<lambda>(x, r).
         Inr (r, P\<lparr>npSenders := (npSenders P)[i := x]\<rparr>, e))
     else
       ebind (got (npReceivers P ! i) r' e) (\<lambda>(x, r, e).
         Inr (r, P\<lparr>npReceivers := (npReceivers P)[i := x]\<rparr>, e)))"
proof -
  have n: "0 < n" using assms(4) by simp
  have "i < 2 ^ size_bits (n - 1)"
    using channel_bits_eq(2) [OF n assms(5)] assms(4) by linarith
  from Protocol_header [OF assms(1-3) n assms(5) this, of got_ack got e] obtain r' where
    c: "rinv r' \<and> rbits r' = rest \<and> Protocol_GotMessage got_ack got r (P, e) =
      Protocol_GotMessage_channel got_ack got r' ack (int i) (P, e)" ..
  then have r': "rinv r'" "rbits r' = rest" and p: "Protocol_GotMessage got_ack got r (P, e) =
      Protocol_GotMessage_channel got_ack got r' ack (int i) (P, e)" by simp_all
  show ?thesis
  proof (cases ack)
    case True
    then have "i < length (npSenders P)" using assms(3,4) by simp
    from ProcessAck_hit [OF this, of got_ack 0 r'] have
      "ProcessAck got_ack 0 (int i) r' (npSenders P) =
        ebind (got_ack (npSenders P ! i) r') (\<lambda>(x, r). Inr ((npSenders P)[i := x], r))" by simp
    with r' p True show ?thesis
      by (cases "got_ack (npSenders P ! i) r'")
        (auto simp: Protocol_GotMessage_channel_def Sender_GotAck_channel_def)
  next
    case False
    then have "i < length (npReceivers P)" using assms(3,4) by simp
    from ProcessMessage_hit [OF this, of got 0 r' e] have
      "ProcessMessage got 0 (int i) r' (npReceivers P) e =
        ebind (got (npReceivers P ! i) r' e) (\<lambda>(x, r, e). Inr ((npReceivers P)[i := x], r, e))" by simp
    with r' p False show ?thesis
      by (cases "got (npReceivers P ! i) r' e")
        (auto simp: Protocol_GotMessage_channel_def Receiver_GotMessage_channel_def)
  qed
qed

text \<open>C12: a message whose header names channel \<open>i\<close> goes to the \<open>i\<close>-th sender
  (an acknowledgement) or the \<open>i\<close>-th receiver (any other message) with the reader just behind the
  header; no other channel changes, and what that channel does is all that happens.\<close>

theorem Protocol_dispatch:
  assumes "rinv r" "rbits r = header ack (size_bits (n - 1)) i @ rest"
    and "n = (if ack then length (npSenders P) else length (npReceivers P))"
    and "i < n" "n < 2 ^ 31"
  shows "\<exists>r'. rinv r' \<and> rbits r' = rest \<and> Protocol_GotMessage got_ack got r (P, e) =
    (if ack then
       ebind (got_ack (npSenders P ! i) r') (\<lambda>(x, r).
         Inr (r, P\<lparr>npSenders := (npSenders P)[i := x]\<rparr>, e))
     else
       ebind (got (npReceivers P ! i) r' e) (\<lambda>(x, r, e).
         Inr (r, P\<lparr>npReceivers := (npReceivers P)[i := x]\<rparr>, e)))"
  by (rule Protocol_GotMessage_at [OF assms])

text \<open>A two-channel protocol whose receivers count the messages they get.\<close>

theorem Protocol_dispatch_witness:
  "\<exists>r'. rbits r' = [False, False, False, False, False, False] \<and>
    Protocol_GotMessage (\<lambda>s r. Inr (s, r)) (\<lambda>n r e. Inr (Suc n, r, e + 1))
      (NetBitReaderBuffer_init [2]) (\<lparr>npSenders = [()], npReceivers = [0, 7]\<rparr>, 5 :: int) =
    Inr (r', \<lparr>npSenders = [()], npReceivers = [0, 8]\<rparr>, 6)"
proof -
  let ?P = "\<lparr>npSenders = [()], npReceivers = [0, 7 :: nat]\<rparr>"
  have "size_bits (2 - 1) = 1" by code_simp
  then have "rbits (NetBitReaderBuffer_init [2]) = header False (size_bits (2 - 1)) 1 @ [False, False, False, False, False, False]"
    by (simp add: header_def byte_bits_def upt_rec)
  from Protocol_dispatch [OF rbits_init(2) this, of ?P "\<lambda>s r. Inr (s, r)"
      "\<lambda>n r e. Inr (Suc n, r, e + 1)" 5]
  show ?thesis by auto
qed

section \<open>End to end\<close>

context pipe
begin

lemma channel_delivery:
  assumes P: "i < n" "n = length (npReceivers P)" "n < 2 ^ 31"
    and chan: "\<And>r e r' e'. got r e = Inr (r', e') \<Longrightarrow>
      got_channel (npReceivers P ! i) r e = Inr (npReceivers P ! i, r', e')"
    and "list_all2 (\<lambda>p m. carries p (header False (size_bits (n - 1)) i @ enc m)) ps ms"
    and "\<forall>m \<in> set ms. wf m" "efold deliver_to ms e = Inr e'"
  shows "deliver (\<lambda>r s. ebind (Protocol_GotMessage got_ack got_channel r s) (\<lambda>(_, s). Inr s)) ps (P, e)
    = Inr (P, e')"
  using assms(5-7)
proof (induction ps ms arbitrary: e rule: list_all2_induct)
  case Nil
  then show ?case by simp
next
  case (Cons p ps m ms)
  let ?r = "NetBitReaderBuffer.truncate p"
  from Cons.prems(2) obtain e1 where e1: "deliver_to m e = Inr e1" "efold deliver_to ms e1 = Inr e'"
    by (auto simp: ebind_eq_Inr)
  from Cons.hyps(1) obtain pad where p: "rinv p"
    "rbits p = header False (size_bits (n - 1)) i @ enc m @ pad" by (auto simp: carries_def)
  have "rinv ?r" "rbits ?r = header False (size_bits (n - 1)) i @ enc m @ pad"
    using p by (simp_all add: rinv_def rbits_def NetBitReaderBuffer.defs)
  from Protocol_GotMessage_at [OF this, of P got_ack got_channel e] P obtain r' where
    r': "rinv r'" "rbits r' = enc m @ pad" and d: "Protocol_GotMessage got_ack got_channel ?r (P, e) =
      ebind (got_channel (npReceivers P ! i) r' e) (\<lambda>(x, r, e).
        Inr (r, P\<lparr>npReceivers := (npReceivers P)[i := x]\<rparr>, e))" by auto
  from got_enc [OF r'(1) _ r'(2) e1(1)] Cons.prems(1) obtain r2 where "got r' e = Inr (r2, e1)" by auto
  from chan [OF this] d have "Protocol_GotMessage got_ack got_channel ?r (P, e) = Inr (r2, P, e1)"
    by simp
  then show ?case using Cons.IH [OF _ e1(2)] Cons.prems(1) by simp
qed

lemma memory_messages:
  assumes "memory_ready t" "i < 2 ^ cb" "cb \<le> 64" "\<forall>m \<in> set ms. wf m"
  shows "\<exists>t' ps. efold (\<lambda>m. with_message (Memory dbg) mode (int i) (int cb) (body m)) ms t = Inr t'
    \<and> memory_ready t' \<and> tmOutgoingPackets t' = tmOutgoingPackets t @ ps
    \<and> list_all2 (\<lambda>p m. carries p (header False cb i @ enc m)) ps ms"
  using assms(1,4)
proof (induction ms arbitrary: t)
  case Nil
  then show ?case by simp
next
  case (Cons m ms)
  have b: "winv w \<Longrightarrow> \<exists>w'. body m w = Inr w' \<and> appended w w' (enc m)" for w
    using body_enc Cons.prems(2) by simp
  from memory.with_message [OF Cons.prems(1) assms(2,3) b, of dbg mode] obtain t1 where
    1: "with_message (Memory dbg) mode (int i) (int cb) (body m) t = Inr t1" "memory_ready t1"
    and s: "memory_sends t t1 (header False cb i @ enc m)" by blast
  from s obtain p where p: "tmOutgoingPackets t1 = tmOutgoingPackets t @ [p]"
    "carries p (header False cb i @ enc m)" by (auto simp: memory_sends_def)
  from Cons.IH [OF 1(2)] Cons.prems(2) obtain t2 ps where
    2: "efold (\<lambda>m. with_message (Memory dbg) mode (int i) (int cb) (body m)) ms t1 = Inr t2"
      "memory_ready t2" "tmOutgoingPackets t2 = tmOutgoingPackets t1 @ ps"
      "list_all2 (\<lambda>p m. carries p (header False cb i @ enc m)) ps ms" by auto
  show ?case
    using 1 2 p by (intro exI [of _ t2] exI [of _ "p # ps"]) simp
qed

lemma end_to_end:
  assumes P: "i < n" "n = length (npReceivers P)" "n < 2 ^ 31"
    and chan: "\<And>r e r' e'. got r e = Inr (r', e') \<Longrightarrow>
      got_channel (npReceivers P ! i) r e = Inr (npReceivers P ! i, r', e')"
    and t: "memory_ready t" "tmOutgoingPackets t = []"
    and ms: "\<forall>m \<in> set ms. wf m" "efold deliver_to ms e = Inr e'"
  shows "\<exists>t1 t2. efold (\<lambda>m. with_message (Memory dbg) mode (int i) (channel_bits n) (body m)) ms t = Inr t1
    \<and> memory_ready t2 \<and> tmOutgoingPackets t2 = []
    \<and> SendToProtocol (\<lambda>r s. ebind (Protocol_GotMessage got_ack got_channel r s) (\<lambda>(_, s). Inr s)) t1 (P, e)
       = Inr (ms \<noteq> [], t2, P, e')"
proof -
  have n: "0 < n" using P(1) by simp
  note cb = channel_bits_eq [OF n P(3)]
  have "i < 2 ^ size_bits (n - 1)" using cb(2) P(1) by linarith
  from memory_messages [OF t(1) this _ ms(1), of dbg mode] cb(3) t(2) obtain t1 ps where
    1: "efold (\<lambda>m. with_message (Memory dbg) mode (int i) (int (size_bits (n - 1))) (body m)) ms t = Inr t1"
      "memory_ready t1" "tmOutgoingPackets t1 = ps"
      "list_all2 (\<lambda>p m. carries p (header False (size_bits (n - 1)) i @ enc m)) ps ms" by auto
  have d: "deliver (\<lambda>r s. ebind (Protocol_GotMessage got_ack got_channel r s) (\<lambda>(_, s). Inr s)) ps (P, e)
      = Inr (P, e')"
    by (rule channel_delivery [where n = n and i = i and got_channel = got_channel and P = P,
          OF P _ 1(4) ms]) (rule chan)
  have l: "ps = [] \<longleftrightarrow> ms = []" using 1(4) by (auto simp: list_all2_iff)
  have ready: "memory_ready (t1\<lparr>tmOutgoingPackets := []\<rparr>)" using 1(2) by (simp add: memory_ready_def)
  show ?thesis
  proof (cases "ps = []")
    case True
    then show ?thesis using 1 d l cb(1) by (intro exI [of _ t1]) (simp add: SendToProtocol_def)
  next
    case False
    then show ?thesis using 1 d l cb(1) ready
      by (intro exI [of _ t1] exI [of _ "t1\<lparr>tmOutgoingPackets := []\<rparr>"]) (simp add: SendToProtocol_def)
  qed
qed

end

section \<open>The pipes in a protocol\<close>

text \<open>The receivers a tuple of pipes holds; the pipes of the other theories extend the list.\<close>

datatype ('a, 'e) Receiver =
    RBuffer "(u8 list, 'e) callback"
  | RFullState "'a deserializer" "('a, 'e) FullStateReceiver"
  | RFullStateSeq "'a deserializer" "('a, 'e) FullStateSeqReceiver"
  | RDeltaReliable "'a field" 'a "('a, 'e) DeltaReliableReceiver"

fun Receiver_got :: "(('a, 'e) Receiver, 'e) got_message" where
  "Receiver_got (RBuffer cb) reader e =
     ebind (Buffer_GotMessage cb reader e) (\<lambda>(reader, e). Inr (RBuffer cb, reader, e))"
| "Receiver_got (RFullState deser rc) reader e =
     ebind (FullState_GotMessage deser rc reader e) (\<lambda>(reader, e). Inr (RFullState deser rc, reader, e))"
| "Receiver_got (RFullStateSeq deser rc) reader e =
     ebind (FullStateSeq_GotMessage deser rc reader e)
       (\<lambda>(reader, e). Inr (RFullStateSeq deser rc, reader, e))"
| "Receiver_got (RDeltaReliable D fresh rc) reader e =
     ebind (DeltaReliable_GotMessage D fresh rc reader e)
       (\<lambda>(rc, reader, e). Inr (RDeltaReliable D fresh rc, reader, e))"

text \<open>What \<^verbatim>\<open>SendToProtocol\<close> calls: the protocol's \<^verbatim>\<open>GotMessage\<close>; the reader is popped with its packet.\<close>

definition Protocol_packet ::
    "'s got_ack \<Rightarrow> ('r, 'w) got_message \<Rightarrow> NetBitReaderBuffer \<Rightarrow> ('s, 'r) NetProtocol \<times> 'w
       \<Rightarrow> (('s, 'r) NetProtocol \<times> 'w) result" where
  "Protocol_packet got_ack got reader s =
     ebind (Protocol_GotMessage got_ack got reader s) (\<lambda>(_, s). Inr s)"

text \<open>C8: full states of any type with correct serializers, sent one after the
  other over channel \<open>i\<close>, through the memory transmitter, to the protocol of the other side, reach
  the callback of the receiver of channel \<open>i\<close>: each once, unchanged, in the order they were sent in.
  Nothing on the way throws.\<close>

theorem full_state_end_to_end:
  assumes "value_codec ser deser ok obj enc"
    and "npReceivers P ! i = RFullState deser rc" "fsDefaultData rc = Some d" "obj d"
    and "fsUpdateCallback rc = Some f" "efold f states e = Inr e'" "\<forall>v \<in> set states. ok v"
    and "i < n" "n = length (npReceivers P)" "n < 2 ^ 31"
    and "c = Pipe_Initialize mode (int i) (channel_bits n)"
    and "memory_ready t" "tmOutgoingPackets t = []"
  shows "\<exists>t1 t2. efold (FullState_SyncState ser (Memory dbg) c) states t = Inr t1
    \<and> SendToProtocol (Protocol_packet got_ack Receiver_got) t1 (P, e) = Inr (states \<noteq> [], t2, P, e')
    \<and> tmOutgoingPackets t2 = []"
proof -
  note p = full_state_pipe [OF assms(1,3,4)]
  have chan: "Receiver_got (npReceivers P ! i) r x = Inr (npReceivers P ! i, r', x')"
    if "FullState_GotMessage deser rc r x = Inr (r', x')" for r x r' x'
    using that assms(2) by simp
  have cb: "efold (run_callback (fsUpdateCallback rc)) states e = Inr e'"
  proof -
    have "run_callback (fsUpdateCallback rc) = f" using assms(5) by (intro ext) simp
    then show ?thesis using assms(6) by simp
  qed
  have pk: "Protocol_packet got_ack Receiver_got =
      (\<lambda>r s. ebind (Protocol_GotMessage got_ack Receiver_got r s) (\<lambda>(_, s). Inr s))"
    by (intro ext) (simp add: Protocol_packet_def)
  have sy: "FullState_SyncState ser (Memory dbg) c =
      (\<lambda>m. with_message (Memory dbg) mode (int i) (channel_bits n) (ser m))"
    by (intro ext) (simp add: FullState_SyncState_def assms(11) Pipe_Initialize_def)
  show ?thesis
    using pipe.end_to_end [where got_channel = Receiver_got and P = P and i = i and n = n,
        OF p assms(8-10) _ assms(12,13) assms(7) cb] chan
    unfolding pk sy by blast
qed

abbreviation log_to :: "'m \<Rightarrow> 'm list \<Rightarrow> 'm list result" where
  "log_to m seen \<equiv> Inr (seen @ [m])"

abbreviation flag_protocol :: "(unit, (bool, bool list) Receiver) NetProtocol" where
  "flag_protocol \<equiv> \<lparr>npSenders = [()], npReceivers = [RBuffer None, RFullState NetDeserializer_bool
     \<lparr>fsUpdateCallback = Some log_to, fsDefaultData = Some False\<rparr>]\<rparr>"

theorem full_state_end_to_end_witness:
  "\<exists>t1 t2. efold (FullState_SyncState (NetSerializer_bool True) (Memory True)
        (Pipe_Initialize kReliable (int 1) (channel_bits 2))) [True, False] NetTransmitterMemory_init = Inr t1
    \<and> SendToProtocol (Protocol_packet (\<lambda>s r. Inr (s, r)) Receiver_got) t1 (flag_protocol, [])
      = Inr (True, t2, flag_protocol, [True, False])"
proof -
  let ?rc = "\<lparr>fsUpdateCallback = Some log_to, fsDefaultData = Some False\<rparr>"
  have h: "npReceivers flag_protocol ! 1 = RFullState NetDeserializer_bool ?rc"
    "fsDefaultData ?rc = Some False" "fsUpdateCallback ?rc = Some log_to"
    "efold log_to [True, False] [] = Inr [True, False]" "(1 :: nat) < 2"
    "2 = length (npReceivers flag_protocol)" "(2 :: nat) < 2 ^ 31" by simp_all
  note f = full_state_end_to_end [OF bool_codec.value_codec_axioms [of True] h(1,2) _ h(3,4) _ h(5-7) refl
      memory_ready_init]
  have "\<exists>t1 t2. efold (FullState_SyncState (NetSerializer_bool True) (Memory True)
        (Pipe_Initialize kReliable (int 1) (channel_bits 2))) [True, False] NetTransmitterMemory_init = Inr t1
    \<and> SendToProtocol (Protocol_packet (\<lambda>s r. Inr (s, r)) Receiver_got) t1 (flag_protocol, [])
      = Inr ([True, False] \<noteq> [], t2, flag_protocol, [True, False]) \<and> tmOutgoingPackets t2 = []"
    by (rule f) simp_all
  then show ?thesis by (simp only: list.distinct not_False_eq_True) blast
qed

text \<open>The same for the byte buffers of \<^verbatim>\<open>NetPipeBuffer\<close> of less than
  \<open>2 ^ 32\<close> bytes, whose callback gets the bytes and their number.\<close>

theorem buffer_end_to_end:
  assumes "npReceivers P ! i = RBuffer (Some f)" "efold f buffers e = Inr e'"
    and "\<forall>data \<in> set buffers. length data < 2 ^ 32"
    and "i < n" "n = length (npReceivers P)" "n < 2 ^ 31"
    and "c = Pipe_Initialize mode (int i) (channel_bits n)"
    and "memory_ready t" "tmOutgoingPackets t = []"
  shows "\<exists>t1 t2. efold (SendData dbg (Memory dbg) c) buffers t = Inr t1
    \<and> SendToProtocol (Protocol_packet got_ack Receiver_got) t1 (P, e) = Inr (buffers \<noteq> [], t2, P, e')
    \<and> tmOutgoingPackets t2 = []"
proof -
  note p = buffer_pipe.pipe_axioms [of dbg "Some f"]
  have chan: "Receiver_got (npReceivers P ! i) r x = Inr (npReceivers P ! i, r', x')"
    if "Buffer_GotMessage (Some f) r x = Inr (r', x')" for r x r' x'
    using that assms(1) by simp
  have "run_callback (Some f) = f" by (intro ext) simp
  then have cb: "efold (run_callback (Some f)) buffers e = Inr e'" using assms(2) by simp
  have pk: "Protocol_packet got_ack Receiver_got =
      (\<lambda>r s. ebind (Protocol_GotMessage got_ack Receiver_got r s) (\<lambda>(_, s). Inr s))"
    by (intro ext) (simp add: Protocol_packet_def)
  have sy: "SendData dbg (Memory dbg) c = (\<lambda>m. with_message (Memory dbg) mode (int i) (channel_bits n)
      (\<lambda>writer. ebind (WriteBits dbg (of_nat (length m)) 32 writer) (WriteBuffer dbg m)))"
    by (intro ext) (simp add: SendData_def assms(7) Pipe_Initialize_def)
  show ?thesis
    using pipe.end_to_end [where got_channel = Receiver_got and P = P and i = i and n = n,
        OF p assms(4-6) _ assms(8,9) assms(3) cb] chan
    unfolding pk sy by blast
qed

abbreviation buffer_protocol :: "(unit, (unit, u8 list list) Receiver) NetProtocol" where
  "buffer_protocol \<equiv> \<lparr>npSenders = [()], npReceivers = [RBuffer (Some log_to)]\<rparr>"

theorem buffer_end_to_end_witness:
  "\<exists>t1 t2. efold (SendData True (Memory True) (Pipe_Initialize kReliable (int 0) (channel_bits 1)))
        [[1, 2, 3 :: u8], []] NetTransmitterMemory_init = Inr t1
    \<and> SendToProtocol (Protocol_packet (\<lambda>s r. Inr (s, r)) Receiver_got) t1 (buffer_protocol, [])
      = Inr (True, t2, buffer_protocol, [[1, 2, 3], []])"
proof -
  have h: "npReceivers buffer_protocol ! 0 = RBuffer (Some log_to)"
    "efold log_to [[1, 2, 3 :: u8], []] [] = Inr [[1, 2, 3], []]"
    "\<forall>data \<in> set [[1, 2, 3 :: u8], []]. length data < 2 ^ 32"
    "(0 :: nat) < 1" "1 = length (npReceivers buffer_protocol)" "(1 :: nat) < 2 ^ 31" by simp_all
  have "\<exists>t1 t2. efold (SendData True (Memory True) (Pipe_Initialize kReliable (int 0) (channel_bits 1)))
        [[1, 2, 3 :: u8], []] NetTransmitterMemory_init = Inr t1
    \<and> SendToProtocol (Protocol_packet (\<lambda>s r. Inr (s, r)) Receiver_got) t1 (buffer_protocol, [])
      = Inr ([[1, 2, 3 :: u8], []] \<noteq> [], t2, buffer_protocol, [[1, 2, 3], []]) \<and> tmOutgoingPackets t2 = []"
    by (rule buffer_end_to_end [OF h refl memory_ready_init])
  then show ?thesis by (simp only: list.distinct not_False_eq_True) blast
qed

text \<open>
  The client's check: a message read to its last bit leaves fewer than eight bits, at most one
  byte, so it passes.
\<close>

lemma consumed_message_IsEmpty:
  assumes "rinv r" "length (rbits r) < 8"
  shows "IsEmpty r"
  using assms by (auto simp: IsEmpty_def length_rbits rinv_def)

text \<open>A connected client takes a message exactly if the channel
  reads it to the end, up to the unused bits of the last byte; it throws
  \<^verbatim>\<open>std::runtime_error\<close> if two bytes or more are left, as they are when no callback or no default
  value is registered.\<close>

theorem Client_GotMessage_reads_all:
  assumes "Protocol_GotMessage got_ack got r (P, e) = Inr (r', P', e')" "rinv r'"
  shows "(length (rbits r') < 8 \<longrightarrow> Client_GotMessage got_ack got r (Some P, e) = Inr (Some P', e'))
    \<and> (16 \<le> length (rbits r') \<longrightarrow> Client_GotMessage got_ack got r (Some P, e) = Inl RuntimeError)"
  using assms consumed_message_IsEmpty [OF assms(2)]
  by (auto simp: Client_GotMessage_def IsEmpty_def length_rbits)

theorem Client_GotMessage_reads_all_witness:
  "Client_GotMessage (\<lambda>s r. Inr (s, r)) (\<lambda>x r e. Inr (x, r, e)) (NetBitReaderBuffer_init [0, 1, 2])
     (Some \<lparr>npSenders = [()], npReceivers = [()]\<rparr>, ()) = Inl RuntimeError"
proof -
  have p: "Protocol_GotMessage (\<lambda>s r. Inr (s, r)) (\<lambda>x r e. Inr (x, r, e)) (NetBitReaderBuffer_init [0, 1, 2])
      (\<lparr>npSenders = [()], npReceivers = [()]\<rparr>, ()) =
    Inr (\<lparr>rBytes = [0, 1, 2], rOffset = 0, rBit = 2, rTotalBits = 2\<rparr>,
      \<lparr>npSenders = [()], npReceivers = [()]\<rparr>, ())"
    by code_simp
  show ?thesis
    using Client_GotMessage_reads_all [OF p] by (simp add: rinv_def rbits_def)
qed

end
