(* ===== verification/DeltaPipes.thy ===== *)
theory DeltaPipes
  imports Protocol
begin

text \<open>
  \<^verbatim>\<open>NetPipeDeltaStateReliable.h\<close> over a protocol: the stream of states a sender syncs is the stream
  of states the receiver's callback gets, as long as each differs from the one before.
\<close>

section \<open>One message\<close>

text \<open>\<open>ref\<close> is the state both sides hold.\<close>

definition delta_body :: "('a \<Rightarrow> bool list) \<Rightarrow> ('a \<Rightarrow> 'a \<Rightarrow> bool list) \<Rightarrow> 'a option \<Rightarrow> 'a \<Rightarrow> bool list" where
  "delta_body enc denc ref v = (case ref of None \<Rightarrow> enc v | Some u \<Rightarrow> denc v u)"

lemma class_ser:
  "field_ok D S \<Longrightarrow> winv w \<Longrightarrow> sWf S v \<Longrightarrow> \<exists>w'. fSer D v w = Inr w' \<and> appended w w' (sEnc S v)"
  using field_ser [of D S w v] wrote_appended by blast

lemma class_deser:
  "field_ok D S \<Longrightarrow> rinv r \<Longrightarrow> sWf S v \<Longrightarrow> sObj S v0 \<Longrightarrow> rbits r = sEnc S v @ rest \<Longrightarrow>
    \<exists>r'. fDeser D v0 r = Inr (v, r') \<and> rinv r' \<and> rbits r' = rest"
  using field_deser [of D S r v v0 rest] by (blast dest: consumed_rinv)

lemma class_dser:
  "field_ok D S \<Longrightarrow> winv w \<Longrightarrow> sWf S v \<Longrightarrow> sWf S u \<Longrightarrow>
    \<exists>w'. fDeltaSer D v u w = Inr (v \<noteq> u, w') \<and> appended w w' (sDenc S v u)"
  using field_dser [of D S w v u] wrote_appended by blast

lemma class_dder:
  "field_ok D S \<Longrightarrow> rinv r \<Longrightarrow> sWf S v \<Longrightarrow> sWf S u \<Longrightarrow> v \<noteq> u \<Longrightarrow> rbits r = sDenc S v u @ rest \<Longrightarrow>
    \<exists>r'. fDeltaDeser D u r = Inr (v, r') \<and> rinv r' \<and> rbits r' = rest"
  using field_dder [of D S r v u rest] by (blast dest: consumed_rinv)

lemma DeltaReliable_SyncState_memory:
  assumes "field_ok D S" "memory_ready t" "sWf S v"
    and "\<And>u. drLastSyncedState s = Some u \<Longrightarrow> sWf S u"
    and "drChannelIndex s = int i" "drChannelBits s = int cb" "i < 2 ^ cb" "cb \<le> 64"
  shows "\<exists>t'. DeltaReliable_SyncState D (Memory dbg) s v t = Inr (s\<lparr>drLastSyncedState := Some v\<rparr>, t')
    \<and> memory_ready t' \<and> memory_sends t t' (header False cb i @ delta_body (sEnc S) (sDenc S) (drLastSyncedState s) v)"
proof -
  let ?body = "\<lambda>w. case drLastSyncedState s of
      Some u \<Rightarrow> ebind (fDeltaSer D v u w) (\<lambda>(_, w). Inr w) | None \<Rightarrow> fSer D v w"
  have "\<exists>w'. ?body w = Inr w' \<and> appended w w' (delta_body (sEnc S) (sDenc S) (drLastSyncedState s) v)"
    if "winv w" for w
  proof (cases "drLastSyncedState s")
    case None
    then show ?thesis
      using class_ser [OF assms(1) that assms(3)] by (simp add: delta_body_def)
  next
    case (Some u)
    then show ?thesis
      using class_dser [OF assms(1) that assms(3) assms(4) [OF Some]] by (auto simp: delta_body_def)
  qed
  from memory.with_message [OF assms(2,7,8) this, of dbg kReliable] show ?thesis
    by (auto simp: DeltaReliable_SyncState_def assms(5,6))
qed

lemma DeltaReliable_GotMessage_body:
  assumes "field_ok D S" "rinv r" "sWf S v" "sObj S fresh"
    and "\<And>u. drReferenceState rc = Some u \<Longrightarrow> sWf S u \<and> v \<noteq> u"
    and "rbits r = delta_body (sEnc S) (sDenc S) (drReferenceState rc) v @ rest"
    and "run_callback (drUpdateCallback rc) v e = Inr e'"
  shows "\<exists>r'. DeltaReliable_GotMessage D fresh rc r e = Inr (rc\<lparr>drReferenceState := Some v\<rparr>, r', e')
    \<and> rinv r' \<and> rbits r' = rest"
proof (cases "drReferenceState rc")
  case None
  then have "rbits r = sEnc S v @ rest" using assms(6) by (simp add: delta_body_def)
  from class_deser [OF assms(1-4) this] show ?thesis
    using None assms(7) by (auto simp: DeltaReliable_GotMessage_def)
next
  case (Some u)
  then have b: "rbits r = sDenc S v u @ rest" and u: "sWf S u" "v \<noteq> u"
    using assms(5,6) by (simp_all add: delta_body_def)
  from class_dder [OF assms(1-3) u b] show ?thesis
    using Some assms(7) by (auto simp: DeltaReliable_GotMessage_def)
qed

section \<open>A stream of states\<close>

text \<open>The states a stream may have after \<open>ref\<close>: well-formed, each different from the one before.\<close>

fun changing :: "('a \<Rightarrow> bool) \<Rightarrow> 'a option \<Rightarrow> 'a list \<Rightarrow> bool" where
  "changing ok ref [] \<longleftrightarrow> True"
| "changing ok ref (v # vs) \<longleftrightarrow> ok v \<and> ref \<noteq> Some v \<and> changing ok (Some v) vs"

fun stream_bits :: "('a \<Rightarrow> bool list) \<Rightarrow> ('a \<Rightarrow> 'a \<Rightarrow> bool list) \<Rightarrow> 'a option \<Rightarrow> 'a list \<Rightarrow> bool list list" where
  "stream_bits enc denc ref [] = []"
| "stream_bits enc denc ref (v # vs) = delta_body enc denc ref v # stream_bits enc denc (Some v) vs"

definition DeltaReliable_sync ::
    "'a field \<Rightarrow> 't NetTransmitter \<Rightarrow> 'a \<Rightarrow> 'a DeltaReliableSender \<times> 't
       \<Rightarrow> ('a DeltaReliableSender \<times> 't) result" where
  "DeltaReliable_sync D T v = (\<lambda>(s, t). DeltaReliable_SyncState D T s v t)"

lemma DeltaReliable_stream_sent:
  assumes "field_ok D S"
    and "memory_ready t" "changing (sWf S) (drLastSyncedState s) vs"
    and "\<And>u. drLastSyncedState s = Some u \<Longrightarrow> sWf S u"
    and "drChannelIndex s = int i" "drChannelBits s = int cb" "i < 2 ^ cb" "cb \<le> 64"
  shows "\<exists>s' t' ps. efold (DeltaReliable_sync D (Memory dbg)) vs (s, t) = Inr (s', t')
    \<and> memory_ready t' \<and> tmOutgoingPackets t' = tmOutgoingPackets t @ ps
    \<and> list_all2 (\<lambda>p bs. carries p (header False cb i @ bs)) ps (stream_bits (sEnc S) (sDenc S) (drLastSyncedState s) vs)"
  using assms(2-6)
proof (induction vs arbitrary: s t)
  case Nil
  then show ?case by simp
next
  case (Cons v vs)
  from DeltaReliable_SyncState_memory [OF assms(1) Cons.prems(1) _ Cons.prems(3-5) assms(7,8), of v dbg]
    Cons.prems(2) obtain t1 where
    1: "DeltaReliable_SyncState D (Memory dbg) s v t = Inr (s\<lparr>drLastSyncedState := Some v\<rparr>, t1)"
      "memory_ready t1"
      "memory_sends t t1 (header False cb i @ delta_body (sEnc S) (sDenc S) (drLastSyncedState s) v)" by auto
  from 1(3) obtain p where p: "tmOutgoingPackets t1 = tmOutgoingPackets t @ [p]"
    "carries p (header False cb i @ delta_body (sEnc S) (sDenc S) (drLastSyncedState s) v)"
    by (auto simp: memory_sends_def)
  let ?s = "s\<lparr>drLastSyncedState := Some v\<rparr>"
  have "changing (sWf S) (drLastSyncedState ?s) vs" "\<And>u. drLastSyncedState ?s = Some u \<Longrightarrow> sWf S u"
    "drChannelIndex ?s = int i" "drChannelBits ?s = int cb"
    using Cons.prems by simp_all
  from Cons.IH [OF 1(2) this] obtain s' t' ps where
    "efold (DeltaReliable_sync D (Memory dbg)) vs (?s, t1) = Inr (s', t')" "memory_ready t'"
    "tmOutgoingPackets t' = tmOutgoingPackets t1 @ ps"
    "list_all2 (\<lambda>p bs. carries p (header False cb i @ bs)) ps (stream_bits (sEnc S) (sDenc S) (Some v) vs)" by auto
  with 1 p show ?case
    by (intro exI [of _ s'] exI [of _ t'] exI [of _ "p # ps"]) (simp add: DeltaReliable_sync_def [where v = v])
qed

lemma DeltaReliable_stream_got:
  assumes "field_ok D S" "sObj S fresh"
    and P: "i < n" "n < 2 ^ 31"
    and "n = length (npReceivers P)" "npReceivers P ! i = RDeltaReliable D fresh rc"
    and "changing (sWf S) (drReferenceState rc) vs" "\<And>u. drReferenceState rc = Some u \<Longrightarrow> sWf S u"
    and "list_all2 (\<lambda>p bs. carries p (header False (size_bits (n - 1)) i @ bs)) ps
      (stream_bits (sEnc S) (sDenc S) (drReferenceState rc) vs)"
    and "efold (run_callback (drUpdateCallback rc)) vs e = Inr e'"
  shows "\<exists>P'. deliver (Protocol_packet got_ack Receiver_got) ps (P, e) = Inr (P', e')"
  using assms(5-10)
proof (induction vs arbitrary: P rc ps e)
  case Nil
  then show ?case by simp
next
  case (Cons v vs)
  from Cons.prems(5) obtain p ps' where ps: "ps = p # ps'"
    and p: "carries p (header False (size_bits (n - 1)) i @ delta_body (sEnc S) (sDenc S) (drReferenceState rc) v)"
    and ps': "list_all2 (\<lambda>p bs. carries p (header False (size_bits (n - 1)) i @ bs)) ps'
      (stream_bits (sEnc S) (sDenc S) (Some v) vs)" by (auto simp: list_all2_Cons2)
  let ?r = "NetBitReaderBuffer.truncate p"
  from p obtain pad where "rinv ?r"
    "rbits ?r = header False (size_bits (n - 1)) i @ delta_body (sEnc S) (sDenc S) (drReferenceState rc) v @ pad"
    by (auto simp: carries_def rinv_def rbits_def NetBitReaderBuffer.defs)
  from Protocol_GotMessage_at [OF this, of P got_ack Receiver_got e] Cons.prems(1) P obtain r' where
    r': "rinv r'" "rbits r' = delta_body (sEnc S) (sDenc S) (drReferenceState rc) v @ pad" and
    d: "Protocol_GotMessage got_ack Receiver_got ?r (P, e) =
      ebind (Receiver_got (npReceivers P ! i) r' e) (\<lambda>(x, r, e).
        Inr (r, P\<lparr>npReceivers := (npReceivers P)[i := x]\<rparr>, e))" by auto
  from Cons.prems(6) obtain e1 where e1: "run_callback (drUpdateCallback rc) v e = Inr e1"
    "efold (run_callback (drUpdateCallback rc)) vs e1 = Inr e'" by (auto simp: ebind_eq_Inr)
  have v: "sWf S v" "\<And>u. drReferenceState rc = Some u \<Longrightarrow> sWf S u \<and> v \<noteq> u"
    using Cons.prems(3,4) by auto
  from DeltaReliable_GotMessage_body [OF assms(1) r'(1) v(1) assms(2) v(2) r'(2) e1(1)] obtain r2 where
    g: "DeltaReliable_GotMessage D fresh rc r' e = Inr (rc\<lparr>drReferenceState := Some v\<rparr>, r2, e1)" by blast
  let ?rc = "rc\<lparr>drReferenceState := Some v\<rparr>"
  let ?P = "P\<lparr>npReceivers := (npReceivers P)[i := RDeltaReliable D fresh ?rc]\<rparr>"
  have "Protocol_packet got_ack Receiver_got ?r (P, e) = Inr (?P, e1)"
    using d g Cons.prems(2) by (simp add: Protocol_packet_def)
  moreover have "\<exists>P'. deliver (Protocol_packet got_ack Receiver_got) ps' (?P, e1) = Inr (P', e')"
  proof (rule Cons.IH [of ?P ?rc])
    show "n = length (npReceivers ?P)" "npReceivers ?P ! i = RDeltaReliable D fresh ?rc"
      using Cons.prems(1) P(1) by simp_all
    show "changing (sWf S) (drReferenceState ?rc) vs" "\<And>u. drReferenceState ?rc = Some u \<Longrightarrow> sWf S u"
      using Cons.prems(3) by simp_all
    show "efold (run_callback (drUpdateCallback ?rc)) vs e1 = Inr e'" using e1(2) by simp
  qed (use ps' in simp)
  ultimately show ?case by (simp add: ps)
qed


abbreviation delta_flag_protocol :: "(unit, (bool, bool list) Receiver) NetProtocol" where
  "delta_flag_protocol \<equiv> \<lparr>npSenders = [()], npReceivers =
     [RDeltaReliable (bool_field True False) False \<lparr>drUpdateCallback = Some log_to, drReferenceState = None\<rparr>]\<rparr>"


section \<open>A state that did not change\<close>

text \<open>Plain data as a data class: bytes, compared as a whole.\<close>

definition pod_class :: "bool \<Rightarrow> u8 list field" where
  "pod_class dbg = \<lparr>fStatic = False, fSer = NetSerializeType_pod dbg, fDeser = NetDeserializeType_pod,
     fDeltaSer = NetSerializeDeltaType (=) (NetSerializeType_pod dbg),
     fDeltaDeser = NetDeserializeDeltaType NetDeserializeType_pod\<rparr>"

text \<open>The sender ignores that the difference is empty and sends the
  message all the same; the receiver reads a difference from what is not there. For plain data of
  any positive size (a \<^verbatim>\<open>uint32_t\<close>, say), syncing a state that equals the one before makes the
  receiver throw \<^verbatim>\<open>std::out_of_range\<close>.\<close>

theorem delta_reliable_unchanged:
  assumes "v \<noteq> []" "drLastSyncedState s = Some v"
    and "drChannelIndex s = int i" "drChannelBits s = int cb" "i < 2 ^ cb" "cb \<le> 64" "memory_ready t"
  shows "\<exists>t' p. DeltaReliable_SyncState (pod_class dbg) (Memory dbg) s v t = Inr (s, t')
    \<and> tmOutgoingPackets t' = tmOutgoingPackets t @ [p]
    \<and> (\<exists>pad. length pad < 8 \<and> rbits p = header False cb i @ pad)
    \<and> (\<forall>rc fresh r e. drReferenceState rc = Some v \<and> rinv r \<and> length (rbits r) < 8 \<longrightarrow>
         DeltaReliable_GotMessage (pod_class dbg) fresh rc r e = Inl OutOfRange)"
proof -
  have b: "\<exists>w'. (case drLastSyncedState s of
      Some u \<Rightarrow> ebind (fDeltaSer (pod_class dbg) v u w) (\<lambda>(_, w). Inr w)
    | None \<Rightarrow> fSer (pod_class dbg) v w) = Inr w' \<and> appended w w' []" if "winv w" for w
    using that assms(2) by (simp add: pod_class_def NetSerializeDeltaType_def appended_def)
  from memory.with_message [OF assms(7,5,6) b, of dbg kReliable] obtain t' where
    t': "with_message (Memory dbg) kReliable (int i) (int cb) (\<lambda>w. case drLastSyncedState s of
      Some u \<Rightarrow> ebind (fDeltaSer (pod_class dbg) v u w) (\<lambda>(_, w). Inr w)
    | None \<Rightarrow> fSer (pod_class dbg) v w) t = Inr t'" "memory_sends t t' (header False cb i)" by auto
  have s: "s\<lparr>drLastSyncedState := Some v\<rparr> = s" using assms(2) by simp
  have 1: "DeltaReliable_SyncState (pod_class dbg) (Memory dbg) s v t = Inr (s, t')"
    using t'(1) s by (simp add: DeltaReliable_SyncState_def assms(3,4))
  obtain c cs where v: "v = c # cs" using assms(1) by (cases v) auto
  have 2: "DeltaReliable_GotMessage (pod_class dbg) fresh rc r e = Inl OutOfRange"
    if "drReferenceState rc = Some v" "rinv r" "length (rbits r) < 8" for rc fresh r e
    using that ReadUBits_short [of r 8]
    by (simp add: DeltaReliable_GotMessage_def pod_class_def NetDeserializeDeltaType_def v)
  show ?thesis
    using 1 2 t'(2) by (auto simp: memory_sends_def carries_def)
qed

theorem delta_reliable_unchanged_witness:
  "\<exists>t' p. DeltaReliable_SyncState (pod_class True) (Memory True)
      \<lparr>drChannelIndex = 0, drChannelBits = 1, drLastSyncedState = Some [7, 0, 0, 0]\<rparr> [7, 0, 0, 0]
      NetTransmitterMemory_init
    = Inr (\<lparr>drChannelIndex = 0, drChannelBits = 1, drLastSyncedState = Some [7, 0, 0, 0]\<rparr>, t')
    \<and> tmOutgoingPackets t' = [p]"
  using delta_reliable_unchanged [of "[7, 0, 0, 0]"
      "\<lparr>drChannelIndex = 0, drChannelBits = 1, drLastSyncedState = Some [7, 0, 0, 0]\<rparr>" 0 1
      NetTransmitterMemory_init True]
  by auto

end
