(* ===== verification/DeltaState.thy ===== *)
theory DeltaState
  imports DeltaPipes
begin

text \<open>
  \<^verbatim>\<open>NetPipeDeltaState.h\<close> and \<^verbatim>\<open>NetStateStore.h\<close>: the pipe that sends differences to the last
  acknowledged state. Both sides keep \<^verbatim>\<open>DataStoreSize\<close> numbered states; a message names the slot
  its state goes to and the slot of its reference.

  The operations of both ends, and what one message and its acknowledgement do over any
  transmitter that keeps its contract.
\<close>

section \<open>The state store\<close>

text \<open>An array of shared pointers; \<open>None\<close> is a null pointer.\<close>

type_synonym 'a state_store = "'a option list"

definition StoreState :: "'a state_store \<Rightarrow> 'a \<Rightarrow> int \<Rightarrow> 'a state_store result" where
  "StoreState store state index =
     (if 0 \<le> index \<and> index < int (length store) then Inr (store[nat index := Some state])
      else Inl Undefined)"

definition StateStore_Get :: "'a state_store \<Rightarrow> int \<Rightarrow> 'a option result" where
  "StateStore_Get store index =
     (if 0 \<le> index \<and> index < int (length store) then Inr (store ! nat index) else Inl Undefined)"

section \<open>The sender\<close>

record 'a DeltaStateSender =
  dsChannel :: pipe_channel
  dsLastAckedState :: int
  dsNextStateSlot :: int
  dsStateStore :: "'a state_store"

definition DeltaStateSender_init :: "nat \<Rightarrow> pipe_channel \<Rightarrow> 'a DeltaStateSender" where
  "DeltaStateSender_init N channel =
     \<lparr>dsChannel = channel, dsLastAckedState = -1, dsNextStateSlot = -1,
      dsStateStore = replicate N None\<rparr>"

definition DeltaStateSender_Initialize ::
    "NetPipeMode \<Rightarrow> int \<Rightarrow> int \<Rightarrow> 'a DeltaStateSender \<Rightarrow> 'a DeltaStateSender" where
  "DeltaStateSender_Initialize mode index bits s =
     s\<lparr>dsChannel := Pipe_Initialize mode index bits\<rparr>"

text \<open>
  The check of the \<^verbatim>\<open>_DEBUG\<close> build: the difference is decoded again; if the result is not the
  state (\<^verbatim>\<open>StormReflCompare\<close>, the parameter \<open>same\<close>), it is encoded and decoded once more and the
  function returns without sending.
\<close>

definition delta_check ::
    "bool \<Rightarrow> 'a field \<Rightarrow> ('a \<Rightarrow> 'a \<Rightarrow> bool) \<Rightarrow> 'a \<Rightarrow> 'a \<Rightarrow> bool result" where
  "delta_check dbg D same current reference =
     (if \<not> dbg then Inr True
      else
        ebind (fDeltaSer D current reference NetBitWriterVector_init) (\<lambda>(_, test_writer).
        ebind (fDeltaDeser D reference (NetBitReaderBuffer_init (wBuffer test_writer))) (\<lambda>(copy, _).
          Inr (same current copy))))"

definition DeltaState_SyncState ::
    "bool \<Rightarrow> 'a field \<Rightarrow> ('a \<Rightarrow> 'a \<Rightarrow> bool) \<Rightarrow> nat \<Rightarrow> 't NetTransmitter \<Rightarrow> 'a DeltaStateSender \<Rightarrow> 'a \<Rightarrow> 't
       \<Rightarrow> ('a DeltaStateSender \<times> 't) result" where
  "DeltaState_SyncState dbg D same N T s current_state t =
     (let c = dsChannel s; slot_bits = int (count_bits (N - 1)) in
      ebind (CreateMessage T (pcMode c) (pcChannelIndex c) (pcChannelBits c) t) (\<lambda>t.
      ebind (if dsLastAckedState s \<noteq> -1 then StateStore_Get (dsStateStore s) (dsLastAckedState s)
             else Inr None) (\<lambda>reference_state.
      let next_state_slot = (dsNextStateSlot s + 1) mod int N in
      if next_state_slot = dsLastAckedState s then Inr (s, t)
      else
        ebind (StoreState (dsStateStore s) current_state next_state_slot) (\<lambda>store.
        let s = s\<lparr>dsNextStateSlot := next_state_slot, dsStateStore := store\<rparr> in
        ebind (WriteBits dbg (word_of_int next_state_slot) slot_bits (theWriter T t)) (\<lambda>w.
        ebind (WriteBits dbg (word_of_int (if dsLastAckedState s \<noteq> -1 then dsLastAckedState s else int N))
                 slot_bits w) (\<lambda>w.
        case reference_state of
          Some reference \<Rightarrow>
            ebind (fDeltaSer D current_state reference w) (\<lambda>(_, w).
            ebind (delta_check dbg D same current_state reference) (\<lambda>fine.
              if \<not> fine then Inr (s, setWriter T w t)
              else ebind (Transmitter_SendMessage T (setWriter T w t)) (\<lambda>t. Inr (s, t))))
        | None \<Rightarrow>
            ebind (fSer D current_state w) (\<lambda>w.
            ebind (Transmitter_SendMessage T (setWriter T w t)) (\<lambda>t. Inr (s, t)))))))))"

definition DeltaState_GotAck ::
    "nat \<Rightarrow> 'a DeltaStateSender \<Rightarrow> NetBitReaderBuffer \<Rightarrow> ('a DeltaStateSender \<times> NetBitReaderBuffer) result" where
  "DeltaState_GotAck N s reader =
     ebind (ReadUBits (int (count_bits (N - 1))) reader) (\<lambda>(v, reader).
       Inr (s\<lparr>dsLastAckedState := conv I32 (uint v)\<rparr>, reader))"

section \<open>The receiver\<close>

record ('a, 'e) DeltaStateReceiver =
  dvChannel :: pipe_channel
  dvUpdateCallback :: "('a, 'e) callback"
  dvStateStore :: "'a state_store"

definition DeltaStateReceiver_Initialize ::
    "NetPipeMode \<Rightarrow> int \<Rightarrow> int \<Rightarrow> ('a, 'e) DeltaStateReceiver \<Rightarrow> ('a, 'e) DeltaStateReceiver" where
  "DeltaStateReceiver_Initialize mode index bits rc =
     rc\<lparr>dvChannel := Pipe_Initialize mode index bits\<rparr>"

definition DeltaState_RegisterCallback ::
    "('a \<Rightarrow> 'e \<Rightarrow> 'e result) \<Rightarrow> ('a, 'e) DeltaStateReceiver \<Rightarrow> ('a, 'e) DeltaStateReceiver" where
  "DeltaState_RegisterCallback func rc = rc\<lparr>dvUpdateCallback := Some func\<rparr>"

text \<open>Dereferencing the null pointer of an empty slot is undefined.\<close>

definition DeltaState_GotMessage ::
    "bool \<Rightarrow> 'a field \<Rightarrow> 'a \<Rightarrow> nat \<Rightarrow> 't NetTransmitter \<Rightarrow> ('a, 'e) DeltaStateReceiver
       \<Rightarrow> NetBitReaderBuffer \<Rightarrow> 't \<times> 'e
       \<Rightarrow> (('a, 'e) DeltaStateReceiver \<times> NetBitReaderBuffer \<times> 't \<times> 'e) result" where
  "DeltaState_GotMessage dbg D fresh N T rc reader = (\<lambda>(t, e).
     ebind (ReadUBits (int (count_bits (N - 1))) reader) (\<lambda>(v, reader).
     ebind (ReadUBits (int (count_bits N)) reader) (\<lambda>(u, reader).
     let state_slot = conv I32 (uint v); ref_slot = conv I32 (uint u); c = dvChannel rc in
     ebind (if ref_slot \<noteq> int N then
              ebind (StateStore_Get (dvStateStore rc) ref_slot) (\<lambda>reference_state.
              case reference_state of
                None \<Rightarrow> Inl Undefined
              | Some reference \<Rightarrow> fDeltaDeser D reference reader)
            else fDeser D fresh reader) (\<lambda>(inst, reader).
     ebind (StoreState (dvStateStore rc) inst state_slot) (\<lambda>store.
     ebind (run_callback (dvUpdateCallback rc) inst e) (\<lambda>e.
     ebind (CreateAck T (pcMode c) (pcChannelIndex c) (pcChannelBits c) t) (\<lambda>t.
     ebind (WriteBits dbg (word_of_int state_slot) (int (count_bits (N - 1))) (theWriter T t)) (\<lambda>w.
     ebind (SendAck T (setWriter T w t)) (\<lambda>t.
       Inr (rc\<lparr>dvStateStore := store\<rparr>, reader, t, e))))))))))"

section \<open>One message and its acknowledgement\<close>

lemma slot_conv: "k < 2 ^ 31 \<Longrightarrow> conv I32 (uint (of_nat k :: u64)) = int k"
  by (rule conv_word_index)

lemma word_of_int_nat: "word_of_int (int k) = (of_nat k :: u64)"
  by simp

lemma StoreState_nth: "k < length store \<Longrightarrow> StoreState store v (int k) = Inr (store[k := Some v])"
  by (simp add: StoreState_def)

lemma StateStore_Get_nth: "k < length store \<Longrightarrow> StateStore_Get store (int k) = Inr (store ! k)"
  by (simp add: StateStore_Get_def)

lemma delta_check_fine:
  assumes "field_ok D S" "sWf S v" "sWf S u" "v \<noteq> u" "same v v"
  shows "delta_check dbg D same v u = Inr True"
proof (cases dbg)
  case True
  from class_dser [OF assms(1) wbits_init(2) assms(2,3)] obtain w where
    1: "fDeltaSer D v u NetBitWriterVector_init = Inr (v \<noteq> u, w)"
    and a: "appended NetBitWriterVector_init w (sDenc S v u)" by blast
  from reader_of_writer [OF appended_winv [OF a]] obtain pad where
    "rbits (NetBitReaderBuffer_init (wBuffer w)) = sDenc S v u @ pad"
    using appended_wbits [OF a] by auto
  from class_dder [OF assms(1) rbits_init(2) assms(2-4) this] obtain r where
    "fDeltaDeser D u (NetBitReaderBuffer_init (wBuffer w)) = Inr (v, r)" by blast
  with 1 True assms(5) show ?thesis by (simp add: delta_check_def)
qed (simp add: delta_check_def)

text \<open>The reference a sender in a given state uses: the acknowledged slot and what it holds.\<close>

definition uses_reference :: "'a DeltaStateSender \<Rightarrow> (nat \<times> 'a) option \<Rightarrow> bool" where
  "uses_reference s ref \<longleftrightarrow>
     (case ref of
        None \<Rightarrow> dsLastAckedState s = -1
      | Some (a, u) \<Rightarrow> dsLastAckedState s = int a \<and> a < length (dsStateStore s) \<and> dsStateStore s ! a = Some u)"

definition message_body :: "'a field_spec \<Rightarrow> nat \<Rightarrow> nat \<Rightarrow> (nat \<times> 'a) option \<Rightarrow> 'a \<Rightarrow> bool list" where
  "message_body S N k ref v =
     nat_bits (count_bits (N - 1)) k
       @ nat_bits (count_bits (N - 1)) (case ref of None \<Rightarrow> N | Some (a, _) \<Rightarrow> a)
       @ delta_body (sEnc S) (sDenc S) (map_option snd ref) v"

context transmitter
begin

lemma DeltaState_SyncState_sends:
  assumes D: "field_ok D S" "sWf S v" "same v v"
    and N: "0 < N" "N < 2 ^ 31" "count_bits N = b" "count_bits (N - 1) = b"
    and T: "tinv t" "pcChannelIndex (dsChannel s) = int i" "pcChannelBits (dsChannel s) = int cb"
      "i < 2 ^ cb" "cb \<le> 64"
    and s: "length (dsStateStore s) = N" "(dsNextStateSlot s + 1) mod int N = int k"
      "dsLastAckedState s \<noteq> int k" "uses_reference s ref"
    and ref: "\<And>a u. ref = Some (a, u) \<Longrightarrow> sWf S u \<and> v \<noteq> u"
  shows "\<exists>t'. DeltaState_SyncState dbg D same N T s v t =
      Inr (s\<lparr>dsNextStateSlot := int k, dsStateStore := (dsStateStore s)[k := Some v]\<rparr>, t')
    \<and> tinv t' \<and> sends t t' (header False cb i @ message_body S N k ref v)"
proof -
  let ?s = "s\<lparr>dsNextStateSlot := int k, dsStateStore := (dsStateStore s)[k := Some v]\<rparr>"
  let ?x = "case ref of None \<Rightarrow> N | Some (a, _) \<Rightarrow> a"
  have k: "k < N" using s(2) N(1) pos_mod_bound [of "int N" "dsNextStateSlot s + 1"] by simp
  have m: "N - 1 < 2 ^ 31" using N(2) by linarith
  have b64: "b \<le> 64" using count_bits(1) [OF m] unfolding N(4) by linarith
  have kb: "k < 2 ^ b" using count_bits(3) [OF m, of k] k unfolding N(4) by linarith
  have x: "?x \<le> N" using s(1,4) by (cases ref) (auto simp: uses_reference_def)
  have xb: "?x < 2 ^ b" using count_bits(3) [OF N(2) x] unfolding N(3) .
  from create_send [OF T(1,4,5), of "pcMode (dsChannel s)" False] obtain t1 where
    1: "CreateWriter T (pcMode (dsChannel s)) (int i) (int cb) False t = Inr t1"
    and i1: "winv (theWriter T t1)"
    and send: "\<And>w bs. appended (theWriter T t1) w bs \<Longrightarrow>
      \<exists>t''. SendWriter T (setWriter T w t1) = Inr t'' \<and> tinv t'' \<and> sends t t'' (header False cb i @ bs)"
    by blast
  from WriteBits_nat [OF i1 kb b64, of dbg] obtain w1 where
    2: "WriteBits dbg (of_nat k) (int b) (theWriter T t1) = Inr w1"
    and a1: "wrote (theWriter T t1) w1 (nat_bits b k)" by blast
  from WriteBits_nat [OF wrote_winv [OF a1] xb b64, of dbg] obtain w2 where
    3: "WriteBits dbg (of_nat ?x) (int b) w1 = Inr w2" and a2: "wrote w1 w2 (nat_bits b ?x)" by blast
  have mb: "message_body S N k ref v = nat_bits b k @ nat_bits b ?x @ delta_body (sEnc S) (sDenc S) (map_option snd ref) v"
    by (simp only: message_body_def N(4))
  have store: "StoreState (dsStateStore s) v (int k) = Inr ((dsStateStore s)[k := Some v])"
    by (rule StoreState_nth) (use s(1) k in simp)
  let ?bits = "\<lambda>y. nat_bits b k @ nat_bits b ?x @ y"
  have app: "appended (theWriter T t1) w (?bits y)" if "appended w2 w y" for w y
    using appended_trans [OF appended_trans [OF wrote_appended [OF a1] wrote_appended [OF a2]] that] by simp
  have w2: "winv w2" using wrote_winv [OF a2] .
  show ?thesis
  proof (cases ref)
    case None
    from class_ser [OF D(1) w2 D(2)] obtain w3 where
      4: "fSer D v w2 = Inr w3" and a3: "appended w2 w3 (sEnc S v)" by blast
    from send [OF app [OF a3]] obtain t2 where
      5: "SendWriter T (setWriter T w3 t1) = Inr t2" "tinv t2"
        "sends t t2 (header False cb i @ ?bits (sEnc S v))" by blast
    have la: "dsLastAckedState s = -1" using s(4) None by (simp add: uses_reference_def)
    have "DeltaState_SyncState dbg D same N T s v t = Inr (?s, t2)"
      unfolding DeltaState_SyncState_def Let_def N(4) CreateMessage_def Transmitter_SendMessage_def
      using s(3) 1 2 3 4 5(1) store None la
      by (simp add: T(2,3) s(2) del: of_nat_mod)
    moreover have "message_body S N k ref v = ?bits (sEnc S v)" unfolding mb by (simp add: None delta_body_def)
    ultimately show ?thesis using 5(2,3) by metis
  next
    case (Some au)
    obtain a u where au: "au = (a, u)" by force
    have u: "sWf S u" "v \<noteq> u" using ref Some au by auto
    from class_dser [OF D(1) w2 D(2) u(1)] obtain w3 where
      4: "fDeltaSer D v u w2 = Inr (v \<noteq> u, w3)" and a3: "appended w2 w3 (sDenc S v u)" by blast
    from send [OF app [OF a3]] obtain t2 where
      5: "SendWriter T (setWriter T w3 t1) = Inr t2" "tinv t2"
        "sends t t2 (header False cb i @ ?bits (sDenc S v u))" by blast
    have la: "dsLastAckedState s = int a" "StateStore_Get (dsStateStore s) (int a) = Inr (Some u)"
      using s(4) Some au by (simp_all add: uses_reference_def StateStore_Get_nth)
    have "delta_check dbg D same v u = Inr True"
      by (rule delta_check_fine [OF D(1,2) u]) (rule D(3))
    then have "DeltaState_SyncState dbg D same N T s v t = Inr (?s, t2)"
      unfolding DeltaState_SyncState_def Let_def N(4) CreateMessage_def Transmitter_SendMessage_def
      using s(3) 1 2 3 4 5(1) store Some au la
      by (simp add: T(2,3) s(2) del: of_nat_mod)
    moreover have "message_body S N k ref v = ?bits (sDenc S v u)" unfolding mb by (simp add: Some au delta_body_def)
    ultimately show ?thesis using 5(2,3) by metis
  qed
qed

lemma DeltaState_GotMessage_receives:
  assumes D: "field_ok D S" "sWf S v" "sObj S fresh"
    and N: "0 < N" "N < 2 ^ 31" "count_bits N = b" "count_bits (N - 1) = b"
    and T: "tinv t" "pcChannelIndex (dvChannel rc) = int i" "pcChannelBits (dvChannel rc) = int cb"
      "i < 2 ^ cb" "cb \<le> 64"
    and rc: "length (dvStateStore rc) = N" "k < N"
    and ref: "\<And>a u. ref = Some (a, u) \<Longrightarrow> a < N \<and> dvStateStore rc ! a = Some u \<and> sWf S u \<and> v \<noteq> u"
    and r: "rinv r" "rbits r = message_body S N k ref v @ rest"
    and e: "run_callback (dvUpdateCallback rc) v e = Inr e'"
  shows "\<exists>r' t'. DeltaState_GotMessage dbg D fresh N T rc r (t, e) =
      Inr (rc\<lparr>dvStateStore := (dvStateStore rc)[k := Some v]\<rparr>, r', t', e')
    \<and> rinv r' \<and> rbits r' = rest \<and> tinv t' \<and> sends t t' (header True cb i @ nat_bits b k)"
proof -
  let ?x = "case ref of None \<Rightarrow> N | Some (a, _) \<Rightarrow> a"
  have m: "N - 1 < 2 ^ 31" using N(2) by linarith
  have b32: "b < 32" using count_bits(1) [OF m] unfolding N(4) .
  then have b64: "b < 64" by simp
  have kb: "k < 2 ^ b" using count_bits(3) [OF m, of k] rc(2) unfolding N(4) by linarith
  have x: "?x \<le> N" using ref by (cases ref) (auto simp: less_imp_le)
  have xb: "?x < 2 ^ b" using count_bits(3) [OF N(2) x] unfolding N(3) .
  have r0: "rbits r = nat_bits b k @ nat_bits b ?x @ delta_body (sEnc S) (sDenc S) (map_option snd ref) v @ rest"
    using r(2) by (simp only: message_body_def N(4) append.assoc)
  from ReadUBits_nat [OF r(1) r0 kb b64] obtain r1 where
    1: "ReadUBits (int b) r = Inr (of_nat k, r1)" and c1: "consumed r r1 (nat_bits b k)"
    and b1: "rbits r1 = nat_bits b ?x @ delta_body (sEnc S) (sDenc S) (map_option snd ref) v @ rest" by blast
  from ReadUBits_nat [OF consumed_rinv [OF c1] b1 xb b64] obtain r2 where
    2: "ReadUBits (int b) r1 = Inr (of_nat ?x, r2)" and c2: "consumed r1 r2 (nat_bits b ?x)"
    and b2: "rbits r2 = delta_body (sEnc S) (sDenc S) (map_option snd ref) v @ rest" by blast
  have cv: "conv I32 (uint (of_nat k :: u64)) = int k" "conv I32 (uint (of_nat ?x :: u64)) = int ?x"
    using slot_conv [of k] slot_conv [of ?x] rc(2) N(2) x by linarith+
  have "\<exists>r3. (if int ?x \<noteq> int N then
        ebind (StateStore_Get (dvStateStore rc) (int ?x)) (\<lambda>reference_state.
          case reference_state of None \<Rightarrow> Inl Undefined | Some reference \<Rightarrow> fDeltaDeser D reference r2)
      else fDeser D fresh r2) = Inr (v, r3) \<and> rinv r3 \<and> rbits r3 = rest"
  proof (cases ref)
    case None
    then have "rbits r2 = sEnc S v @ rest" using b2 by (simp add: delta_body_def)
    from class_deser [OF D(1) consumed_rinv [OF c2] D(2,3) this] show ?thesis using None by simp
  next
    case (Some au)
    obtain a u where au: "au = (a, u)" by force
    have u: "a < N" "dvStateStore rc ! a = Some u" "sWf S u" "v \<noteq> u" using ref Some au by auto
    have "rbits r2 = sDenc S v u @ rest" using b2 Some au by (simp add: delta_body_def)
    from class_dder [OF D(1) consumed_rinv [OF c2] D(2) u(3,4) this] show ?thesis
      using Some au u(1,2) rc(1) by (simp add: StateStore_Get_nth)
  qed
  then obtain r3 where 3: "(if int ?x \<noteq> int N then
        ebind (StateStore_Get (dvStateStore rc) (int ?x)) (\<lambda>reference_state.
          case reference_state of None \<Rightarrow> Inl Undefined | Some reference \<Rightarrow> fDeltaDeser D reference r2)
      else fDeser D fresh r2) = Inr (v, r3)" and i3: "rinv r3" "rbits r3 = rest" by blast
  have 4: "StoreState (dvStateStore rc) v (int k) = Inr ((dvStateStore rc)[k := Some v])"
    by (rule StoreState_nth) (use rc in simp)
  from create_send [OF T(1,4,5), of "pcMode (dvChannel rc)" True] obtain t1 where
    5: "CreateWriter T (pcMode (dvChannel rc)) (int i) (int cb) True t = Inr t1"
    and i1: "winv (theWriter T t1)"
    and send: "\<And>w bs. appended (theWriter T t1) w bs \<Longrightarrow>
      \<exists>t''. SendWriter T (setWriter T w t1) = Inr t'' \<and> tinv t'' \<and> sends t t'' (header True cb i @ bs)"
    by blast
  have b64': "b \<le> 64" using b64 by simp
  from WriteBits_nat [OF i1 kb b64', of dbg] obtain w1 where
    6: "WriteBits dbg (of_nat k) (int b) (theWriter T t1) = Inr w1"
    and a1: "wrote (theWriter T t1) w1 (nat_bits b k)" by blast
  from send [OF wrote_appended [OF a1]] obtain t2 where
    7: "SendWriter T (setWriter T w1 t1) = Inr t2" "tinv t2" "sends t t2 (header True cb i @ nat_bits b k)"
    by blast
  have "DeltaState_GotMessage dbg D fresh N T rc r (t, e) =
      Inr (rc\<lparr>dvStateStore := (dvStateStore rc)[k := Some v]\<rparr>, r3, t2, e')"
    unfolding DeltaState_GotMessage_def Let_def N(3,4) CreateAck_def SendAck_def
    by (simp only: prod.case 1 2 ebind_Inr cv 3 4 e T(2,3) 5 word_of_int_nat 6 7(1))
  with i3 7 show ?thesis by blast
qed

end

end
