(* ===== verification/DeltaLink.thy ===== *)
theory DeltaLink
  imports DeltaState "HOL-Library.Sublist"
begin

text \<open>
  The two ends of a delta state pipe with the packets and the acknowledgements between them: a
  state machine, in which packets and acknowledgements may be lost but not reordered. The
  invariant says that the reference of every message on its way is in the receiver's store; from
  it follow that no state is corrupted and that no message is refused, as long as the sender is
  used with care (\<open>careful\<close>). The last section has a run that fails for each thing it must not do.
\<close>

section \<open>The link as a state machine\<close>

text \<open>
  Both ends with their transmitters, and what the receiver's callback was called with. The packets
  on their way are the queues of the transmitters. \<open>lkSynced\<close> records the states that were sent.
\<close>

record 'a delta_params =
  dlDebug :: bool
  dlClass :: "'a field"
  dlSame :: "'a \<Rightarrow> 'a \<Rightarrow> bool"
  dlFresh :: 'a
  dlSize :: nat
  dlIndex :: nat
  dlBits :: nat

record 'a delta_link =
  lkSender :: "'a DeltaStateSender"
  lkOut :: NetTransmitterMemory
  lkReceiver :: "('a, 'a list) DeltaStateReceiver"
  lkBack :: NetTransmitterMemory
  lkGot :: "'a list"
  lkSynced :: "'a list"

definition pop_packet :: "NetTransmitterMemory \<Rightarrow> NetTransmitterMemory" where
  "pop_packet t = t\<lparr>tmOutgoingPackets := tl (tmOutgoingPackets t)\<rparr>"

definition front_message ::
    "'a delta_params \<Rightarrow> NetTransmitterMemory \<Rightarrow> ((bool \<times> int) \<times> NetBitReaderBuffer) result" where
  "front_message G t = GetDefaultMessageInfo (int (dlBits G)) (int (dlBits G))
     (NetBitReaderBuffer.truncate (hd (tmOutgoingPackets t)))"

text \<open>
  What happens on a link: a state is synced, the message in front arrives or is lost, the
  acknowledgement in front arrives or is lost. A step is a call of the code that returns.
\<close>

datatype 'a delta_action = Sync 'a | Deliver | Lose | Ack | LoseAck

inductive delta_step :: "'a delta_params \<Rightarrow> 'a delta_link \<Rightarrow> 'a delta_action \<Rightarrow> 'a delta_link \<Rightarrow> bool"
  for G where
  sync: "DeltaState_SyncState (dlDebug G) (dlClass G) (dlSame G) (dlSize G) (Memory (dlDebug G))
      (lkSender L) v (lkOut L) = Inr (s', t') \<Longrightarrow>
    delta_step G L (Sync v) (L\<lparr>lkSender := s', lkOut := t', lkSynced := lkSynced L @ [v]\<rparr>)"
| deliver: "tmOutgoingPackets (lkOut L) \<noteq> [] \<Longrightarrow>
    front_message G (lkOut L) = Inr ((False, ci), r) \<Longrightarrow>
    DeltaState_GotMessage (dlDebug G) (dlClass G) (dlFresh G) (dlSize G) (Memory (dlDebug G))
      (lkReceiver L) r (lkBack L, lkGot L) = Inr (rc', r', t', got') \<Longrightarrow>
    delta_step G L Deliver (L\<lparr>lkOut := pop_packet (lkOut L), lkReceiver := rc', lkBack := t', lkGot := got'\<rparr>)"
| lose: "tmOutgoingPackets (lkOut L) \<noteq> [] \<Longrightarrow>
    delta_step G L Lose (L\<lparr>lkOut := pop_packet (lkOut L)\<rparr>)"
| ack: "tmOutgoingPackets (lkBack L) \<noteq> [] \<Longrightarrow>
    front_message G (lkBack L) = Inr ((True, ci), r) \<Longrightarrow>
    DeltaState_GotAck (dlSize G) (lkSender L) r = Inr (s', r') \<Longrightarrow>
    delta_step G L Ack (L\<lparr>lkBack := pop_packet (lkBack L), lkSender := s'\<rparr>)"
| lose_ack: "tmOutgoingPackets (lkBack L) \<noteq> [] \<Longrightarrow>
    delta_step G L LoseAck (L\<lparr>lkBack := pop_packet (lkBack L)\<rparr>)"

inductive_cases delta_stepE: "delta_step G L act L'"

text \<open>
  The code sends any state, also one that is the reference or one for which it has no free slot.
  The sender is used with care if it is given states of its class that differ from the reference,
  is not called while it is stalled, and does not go round its slots before an acknowledgement.
\<close>

definition acked_state :: "'a DeltaStateSender \<Rightarrow> 'a option" where
  "acked_state s =
     (let a = nat (dsLastAckedState s) in
      if 0 \<le> dsLastAckedState s \<and> a < length (dsStateStore s) then dsStateStore s ! a else None)"

fun careful :: "'a delta_params \<Rightarrow> 'a field_spec \<Rightarrow> 'a delta_link \<Rightarrow> 'a delta_action \<Rightarrow> bool" where
  "careful G S L (Sync v) \<longleftrightarrow> sWf S v
     \<and> acked_state (lkSender L) \<noteq> Some v
     \<and> (dsNextStateSlot (lkSender L) + 1) mod int (dlSize G) \<noteq> dsLastAckedState (lkSender L)
     \<and> (dsLastAckedState (lkSender L) = -1 \<longrightarrow> length (lkSynced L) < dlSize G)"
| "careful G S L act \<longleftrightarrow> True"

inductive careful_run ::
    "'a delta_params \<Rightarrow> 'a field_spec \<Rightarrow> 'a delta_link \<Rightarrow> 'a delta_action list \<Rightarrow> 'a delta_link \<Rightarrow> bool"
  for G S where
  stop: "careful_run G S L [] L"
| act: "careful G S L act \<Longrightarrow> delta_step G L act L' \<Longrightarrow> careful_run G S L' acts L'' \<Longrightarrow>
    careful_run G S L (act # acts) L''"

text \<open>The states that a run syncs.\<close>

fun synced :: "'a delta_action list \<Rightarrow> 'a list" where
  "synced [] = []"
| "synced (Sync v # acts) = v # synced acts"
| "synced (_ # acts) = synced acts"

text \<open>The same steps as a program, to run the link on given actions.\<close>

fun perform :: "'a delta_params \<Rightarrow> 'a delta_action \<Rightarrow> 'a delta_link \<Rightarrow> 'a delta_link option" where
  "perform G (Sync v) L =
     (case DeltaState_SyncState (dlDebug G) (dlClass G) (dlSame G) (dlSize G) (Memory (dlDebug G)) (lkSender L) v (lkOut L) of
        Inl e \<Rightarrow> None
      | Inr (s, t) \<Rightarrow> Some (L\<lparr>lkSender := s, lkOut := t, lkSynced := lkSynced L @ [v]\<rparr>))"
| "perform G Deliver L =
     (if tmOutgoingPackets (lkOut L) = [] then None
      else case front_message G (lkOut L) of
        Inr ((False, ci), r) \<Rightarrow>
          (case DeltaState_GotMessage (dlDebug G) (dlClass G) (dlFresh G) (dlSize G) (Memory (dlDebug G))
                  (lkReceiver L) r (lkBack L, lkGot L) of
             Inl e \<Rightarrow> None
           | Inr (rc, _, t, got) \<Rightarrow>
               Some (L\<lparr>lkOut := pop_packet (lkOut L), lkReceiver := rc, lkBack := t, lkGot := got\<rparr>))
      | _ \<Rightarrow> None)"
| "perform G Lose L =
     (if tmOutgoingPackets (lkOut L) = [] then None else Some (L\<lparr>lkOut := pop_packet (lkOut L)\<rparr>))"
| "perform G Ack L =
     (if tmOutgoingPackets (lkBack L) = [] then None
      else case front_message G (lkBack L) of
        Inr ((True, ci), r) \<Rightarrow>
          (case DeltaState_GotAck (dlSize G) (lkSender L) r of
             Inl e \<Rightarrow> None
           | Inr (s, _) \<Rightarrow> Some (L\<lparr>lkBack := pop_packet (lkBack L), lkSender := s\<rparr>))
      | _ \<Rightarrow> None)"
| "perform G LoseAck L =
     (if tmOutgoingPackets (lkBack L) = [] then None else Some (L\<lparr>lkBack := pop_packet (lkBack L)\<rparr>))"

fun run_link :: "'a delta_params \<Rightarrow> 'a delta_action list \<Rightarrow> 'a delta_link \<Rightarrow> 'a delta_link option" where
  "run_link G [] L = Some L"
| "run_link G (act # acts) L = Option.bind (perform G act L) (run_link G acts)"

fun run_carefully ::
    "'a delta_params \<Rightarrow> 'a field_spec \<Rightarrow> 'a delta_action list \<Rightarrow> 'a delta_link \<Rightarrow> 'a delta_link option" where
  "run_carefully G S [] L = Some L"
| "run_carefully G S (act # acts) L =
     (if careful G S L act then Option.bind (perform G act L) (run_carefully G S acts) else None)"

lemma perform_step: "perform G act L = Some L' \<longleftrightarrow> delta_step G L act L'"
proof
  show "delta_step G L act L'" if "perform G act L = Some L'"
    using that by (cases act) (auto intro: delta_step.intros split: if_splits sum.splits bool.splits)
  show "perform G act L = Some L'" if "delta_step G L act L'"
    using that by cases simp_all
qed

lemma run_carefully_run: "run_carefully G S acts L = Some L' \<Longrightarrow> careful_run G S L acts L'"
proof (induction acts arbitrary: L)
  case (Cons act acts)
  then obtain L1 where "careful G S L act" "perform G act L = Some L1" "run_carefully G S acts L1 = Some L'"
    by (auto simp: bind_eq_Some_conv split: if_splits)
  then show ?case using Cons.IH by (auto simp: perform_step intro: careful_run.act)
qed (auto intro: careful_run.stop)

definition delta_link_init :: "'a delta_params \<Rightarrow> 'a delta_link" where
  "delta_link_init G =
     (let c = Pipe_Initialize kUnreliableSequenced (int (dlIndex G)) (int (dlBits G)) in
      \<lparr>lkSender = DeltaStateSender_init (dlSize G) c, lkOut = NetTransmitterMemory_init,
       lkReceiver = \<lparr>dvChannel = c, dvUpdateCallback = Some (\<lambda>v seen. Inr (seen @ [v])),
         dvStateStore = replicate (dlSize G) None\<rparr>,
       lkBack = NetTransmitterMemory_init, lkGot = [], lkSynced = []\<rparr>)"

section \<open>The invariant\<close>

text \<open>
  The states synced are numbered; state \<open>q\<close> is in slot \<open>q mod N\<close>. \<open>A\<close> is the number of the state
  acknowledged last, \<open>R\<close> is one more than the number of the state received last, and a message on
  its way is the number of its state and that of its reference.
\<close>

definition oldest :: "nat option \<Rightarrow> nat" where
  "oldest A = (case A of None \<Rightarrow> 0 | Some a \<Rightarrow> a)"

definition sender_ok :: "'a delta_params \<Rightarrow> 'a field_spec \<Rightarrow> 'a DeltaStateSender \<Rightarrow> 'a list \<Rightarrow> nat option \<Rightarrow> bool" where
  "sender_ok G S s h A \<longleftrightarrow>
     pcChannelIndex (dsChannel s) = int (dlIndex G) \<and> pcChannelBits (dsChannel s) = int (dlBits G)
     \<and> length (dsStateStore s) = dlSize G
     \<and> (dsNextStateSlot s + 1) mod int (dlSize G) = int (length h mod dlSize G)
     \<and> dsLastAckedState s = (case A of None \<Rightarrow> -1 | Some a \<Rightarrow> int (a mod dlSize G))
     \<and> (\<forall>q < length h. length h \<le> q + dlSize G \<longrightarrow> dsStateStore s ! (q mod dlSize G) = Some (h ! q))
     \<and> (\<forall>v \<in> set h. sWf S v)"

definition receiver_ok :: "'a delta_params \<Rightarrow> ('a, 'a list) DeltaStateReceiver \<Rightarrow> bool" where
  "receiver_ok G rc \<longleftrightarrow>
     pcChannelIndex (dvChannel rc) = int (dlIndex G) \<and> pcChannelBits (dvChannel rc) = int (dlBits G)
     \<and> dvUpdateCallback rc = Some (\<lambda>v seen. Inr (seen @ [v])) \<and> length (dvStateStore rc) = dlSize G"

definition kept :: "'a delta_params \<Rightarrow> ('a, 'a list) DeltaStateReceiver \<Rightarrow> 'a list \<Rightarrow> nat \<Rightarrow> bool" where
  "kept G rc h k \<longleftrightarrow> k < length h \<and> dvStateStore rc ! (k mod dlSize G) = Some (h ! k)"

definition window_ok :: "'a delta_params \<Rightarrow> 'a list \<Rightarrow> nat option \<Rightarrow> nat \<Rightarrow> bool" where
  "window_ok G h A R \<longleftrightarrow> R \<le> length h \<and> length h \<le> oldest A + dlSize G \<and> (\<forall>a. A = Some a \<longrightarrow> a < R)"

definition acks_ok ::
    "'a delta_params \<Rightarrow> ('a, 'a list) DeltaStateReceiver \<Rightarrow> 'a list \<Rightarrow> nat option \<Rightarrow> nat \<Rightarrow> nat list \<Rightarrow> bool" where
  "acks_ok G rc h A R acks \<longleftrightarrow> sorted acks
     \<and> (\<forall>k \<in> set acks. k < R \<and> oldest A \<le> k \<and> kept G rc h k) \<and> (\<forall>a. A = Some a \<longrightarrow> kept G rc h a)"

definition flight_ok ::
    "'a delta_params \<Rightarrow> ('a, 'a list) DeltaStateReceiver \<Rightarrow> 'a list \<Rightarrow> nat \<Rightarrow> (nat \<times> nat option) list \<Rightarrow> bool" where
  "flight_ok G rc h R msgs \<longleftrightarrow> sorted_wrt (<) (map fst msgs)
     \<and> (\<forall>(q, ref) \<in> set msgs. R \<le> q \<and> q < length h
          \<and> (\<forall>a. ref = Some a \<longrightarrow> a < R \<and> kept G rc h a \<and> q < a + dlSize G \<and> h ! q \<noteq> h ! a))"

definition message_packet ::
    "'a delta_params \<Rightarrow> 'a field_spec \<Rightarrow> 'a list \<Rightarrow> NetBitReaderVector \<Rightarrow> nat \<times> nat option \<Rightarrow> bool" where
  "message_packet G S h p m \<longleftrightarrow> carries p (header False (dlBits G) (dlIndex G)
     @ message_body S (dlSize G) (fst m mod dlSize G)
         (map_option (\<lambda>a. (a mod dlSize G, h ! a)) (snd m)) (h ! fst m))"

definition ack_packet :: "'a delta_params \<Rightarrow> NetBitReaderVector \<Rightarrow> nat \<Rightarrow> bool" where
  "ack_packet G p k \<longleftrightarrow> carries p (header True (dlBits G) (dlIndex G)
     @ nat_bits (count_bits (dlSize G - 1)) (k mod dlSize G))"

definition link_ok ::
    "'a delta_params \<Rightarrow> 'a field_spec \<Rightarrow> 'a delta_link \<Rightarrow> nat option \<Rightarrow> nat
       \<Rightarrow> (nat \<times> nat option) list \<Rightarrow> nat list \<Rightarrow> bool" where
  "link_ok G S L A R msgs acks \<longleftrightarrow>
     sender_ok G S (lkSender L) (lkSynced L) A \<and> receiver_ok G (lkReceiver L)
     \<and> window_ok G (lkSynced L) A R \<and> acks_ok G (lkReceiver L) (lkSynced L) A R acks
     \<and> flight_ok G (lkReceiver L) (lkSynced L) R msgs
     \<and> memory_ready (lkOut L) \<and> memory_ready (lkBack L)
     \<and> list_all2 (message_packet G S (lkSynced L)) (tmOutgoingPackets (lkOut L)) msgs
     \<and> list_all2 (ack_packet G) (tmOutgoingPackets (lkBack L)) acks
     \<and> subseq (lkGot L) (take R (lkSynced L))"

text \<open>The assumptions on a link: a data class in order, slots whose numbers, and the number of slots
  itself, fit the slot field, a channel index that fits its field.\<close>

definition params_ok :: "'a delta_params \<Rightarrow> 'a field_spec \<Rightarrow> bool" where
  "params_ok G S \<longleftrightarrow> field_ok (dlClass G) S \<and> sObj S (dlFresh G) \<and> (\<forall>v. dlSame G v v)
     \<and> 0 < dlSize G \<and> dlSize G < 2 ^ 31 \<and> count_bits (dlSize G) = count_bits (dlSize G - 1)
     \<and> dlIndex G < 2 ^ dlBits G \<and> dlBits G \<le> 31"

lemma slot_neq: "a < p \<Longrightarrow> p < a + N \<Longrightarrow> p mod N \<noteq> a mod (N :: nat)"
proof
  assume a: "a < p" "p < a + N" and e: "p mod N = a mod N"
  then have "N dvd p - a" by (simp add: mod_eq_dvd_iff_nat)
  moreover have "0 < p - a" "p - a < N" using a by linarith+
  ultimately show False using nat_dvd_not_less by blast
qed

lemma kept_mono: "kept G rc h k \<Longrightarrow> kept G rc (h @ [v]) k"
  by (auto simp: kept_def nth_append)

lemma kept_store:
  assumes "kept G rc h k" "k < q" "q < k + dlSize G" "length (dvStateStore rc) = dlSize G"
  shows "kept G (rc\<lparr>dvStateStore := (dvStateStore rc)[q mod dlSize G := Some (h ! q)]\<rparr>) h k"
  using assms slot_neq [OF assms(2,3)] by (auto simp: kept_def nth_list_update)

lemma link_ok_init: "params_ok G S \<Longrightarrow> link_ok G S (delta_link_init G) None 0 [] []"
  by (simp add: params_ok_def link_ok_def delta_link_init_def Let_def sender_ok_def receiver_ok_def
      window_ok_def acks_ok_def flight_ok_def DeltaStateSender_init_def Pipe_Initialize_def oldest_def)

section \<open>The steps keep the invariant\<close>

text \<open>Putting a state into its slot keeps the states of the slots behind it, each message on its
  way and each packet.\<close>

lemma sender_ok_sync:
  assumes s: "sender_ok G S s h A" and v: "sWf S v" and N: "0 < dlSize G"
  shows "sender_ok G S (s\<lparr>dsNextStateSlot := int (length h mod dlSize G),
    dsStateStore := (dsStateStore s)[length h mod dlSize G := Some v]\<rparr>) (h @ [v]) A"
proof -
  let ?N = "dlSize G" and ?l = "length h"
  let ?s' = "s\<lparr>dsNextStateSlot := int (?l mod ?N), dsStateStore := (dsStateStore s)[?l mod ?N := Some v]\<rparr>"
  have st: "length (dsStateStore s) = ?N" using s by (simp add: sender_ok_def)
  have "dsStateStore ?s' ! (q mod ?N) = Some ((h @ [v]) ! q)" if "q < Suc ?l" "Suc ?l \<le> q + ?N" for q
  proof (cases "q = ?l")
    case True
    then show ?thesis using st N by simp
  next
    case False
    then have "q < ?l" "?l < q + ?N" using that by linarith+
    then show ?thesis using slot_neq [of q ?l ?N] s by (simp add: sender_ok_def nth_append)
  qed
  moreover have "(int (?l mod ?N) + 1) mod int ?N = int (Suc ?l mod ?N)"
    by (simp add: zmod_int mod_add_right_eq add.commute)
  ultimately show ?thesis using s v st by (simp add: sender_ok_def)
qed

lemma in_flight:
  assumes "flight_ok G rc h R msgs" "(q, ref) \<in> set msgs"
  shows "R \<le> q" "q < length h"
    and "ref = Some a \<Longrightarrow> a < R \<and> kept G rc h a \<and> q < a + dlSize G \<and> h ! q \<noteq> h ! a"
  using assms by (auto simp: flight_ok_def)

lemma flight_ok_sync:
  assumes fl: "flight_ok G rc h R msgs" and R: "R \<le> length h"
    and new: "\<And>a. A = Some a \<Longrightarrow> a < R \<and> kept G rc h a \<and> length h < a + dlSize G \<and> v \<noteq> h ! a"
  shows "flight_ok G rc (h @ [v]) R (msgs @ [(length h, A)])"
proof -
  have old: "(h @ [v]) ! q = h ! q" if "q < length h" for q using that by (simp add: nth_append)
  have new': "\<forall>a. A = Some a \<longrightarrow> a < R \<and> kept G rc (h @ [v]) a \<and> length h < a + dlSize G
      \<and> (h @ [v]) ! length h \<noteq> (h @ [v]) ! a"
    using new R by (auto simp: kept_mono old)
  have sm: "\<forall>x \<in> set msgs. fst x < length h" using fl by (auto simp: flight_ok_def)
  have each: "R \<le> q \<and> q < Suc (length h) \<and> (\<forall>a. ref = Some a \<longrightarrow> a < R \<and> kept G rc (h @ [v]) a
      \<and> q < a + dlSize G \<and> (h @ [v]) ! q \<noteq> (h @ [v]) ! a)" if m: "(q, ref) \<in> set msgs" for q ref
  proof -
    note f = in_flight [OF fl m]
    have "a < R \<and> kept G rc (h @ [v]) a \<and> q < a + dlSize G \<and> (h @ [v]) ! q \<noteq> (h @ [v]) ! a"
      if "ref = Some a" for a
      using f(3) [OF that] kept_mono [of G rc h a v] old [OF f(2)] old [of a] R by simp
    with f(1,2) show ?thesis by simp
  qed
  from fl have "sorted_wrt (<) (map fst msgs)" by (simp add: flight_ok_def)
  then show ?thesis using new' R sm each by (auto simp: flight_ok_def sorted_wrt_append)
qed

lemma packets_sync:
  assumes fl: "flight_ok G rc h R msgs" and l: "list_all2 (message_packet G S h) ps msgs"
  shows "list_all2 (message_packet G S (h @ [v])) ps msgs"
proof (rule list.rel_mono_strong [OF l])
  fix x m
  assume m: "message_packet G S h x m" "m \<in> set msgs"
  obtain q ref where q: "m = (q, ref)" by force
  have "q < length h" "\<And>a. ref = Some a \<Longrightarrow> a < length h"
    using in_flight [OF fl m(2) [unfolded q]] by (auto simp: kept_def)
  then show "message_packet G S (h @ [v]) x m"
    using m(1) by (cases ref) (simp_all add: message_packet_def q nth_append)
qed

text \<open>The sender has room for another state: the one it acknowledged last keeps its slot.\<close>

lemma sync_room:
  assumes "sender_ok G S s h A" "window_ok G h A R"
    and "(dsNextStateSlot s + 1) mod int (dlSize G) \<noteq> dsLastAckedState s"
    and "dsLastAckedState s = -1 \<longrightarrow> length h < dlSize G"
  shows "length h < oldest A + dlSize G"
proof (cases A)
  case None
  then show ?thesis using assms(1,4) by (simp add: sender_ok_def oldest_def)
next
  case (Some a)
  then have "length h mod dlSize G \<noteq> a mod dlSize G" using assms(1,3) by (simp add: sender_ok_def)
  moreover have "length h \<le> a + dlSize G" using assms(2) Some by (simp add: window_ok_def oldest_def)
  ultimately show ?thesis using Some by (cases "length h = a + dlSize G") (auto simp: oldest_def)
qed

lemma sync_reference:
  assumes "sender_ok G S s h A" "window_ok G h A R" "length h < oldest A + dlSize G" "A = Some a"
  shows "a < R" "a < length h" "length h < a + dlSize G"
    and "dsStateStore s ! (a mod dlSize G) = Some (h ! a)" "sWf S (h ! a)"
proof -
  show "a < R" using assms(2,4) by (simp add: window_ok_def)
  then show l: "a < length h" using assms(2) by (simp add: window_ok_def)
  show f: "length h < a + dlSize G" using assms(3,4) by (simp add: oldest_def)
  show "dsStateStore s ! (a mod dlSize G) = Some (h ! a)" "sWf S (h ! a)"
    using assms(1) l f by (simp_all add: sender_ok_def)
qed

lemma link_ok_sync:
  assumes G: "params_ok G S" and inv: "link_ok G S L A R msgs acks"
    and v: "sWf S v" "\<And>a u. uses_reference (lkSender L) (Some (a, u)) \<Longrightarrow> v \<noteq> u"
    and go: "(dsNextStateSlot (lkSender L) + 1) mod int (dlSize G) \<noteq> dsLastAckedState (lkSender L)"
      "dsLastAckedState (lkSender L) = -1 \<longrightarrow> length (lkSynced L) < dlSize G"
  shows "\<exists>s' t'. DeltaState_SyncState (dlDebug G) (dlClass G) (dlSame G) (dlSize G) (Memory (dlDebug G))
      (lkSender L) v (lkOut L) = Inr (s', t')
    \<and> link_ok G S (L\<lparr>lkSender := s', lkOut := t', lkSynced := lkSynced L @ [v]\<rparr>) A R
        (msgs @ [(length (lkSynced L), A)]) acks"
proof -
  let ?N = "dlSize G" and ?h = "lkSynced L" and ?s = "lkSender L"
  let ?l = "length ?h"
  let ?ref = "map_option (\<lambda>a. (a mod ?N, ?h ! a)) A"
  note g = G [unfolded params_ok_def]
  note i = inv [unfolded link_ok_def]
  from i have s: "sender_ok G S ?s ?h A" and w: "window_ok G ?h A R"
    and ak: "acks_ok G (lkReceiver L) ?h A R acks" and fl: "flight_ok G (lkReceiver L) ?h R msgs"
    by simp_all
  have N: "0 < ?N" using g by simp
  have full: "?l < oldest A + ?N" using sync_room [OF s w go] .
  note A = sync_reference [OF s w full]
  have ref: "uses_reference ?s ?ref"
    using s A N by (cases A) (auto simp: uses_reference_def sender_ok_def)
  have vref: "sWf S u \<and> v \<noteq> u" if "?ref = Some (a, u)" for a u
    using that A(5) v(2) ref by (cases A) auto
  from g have g1: "field_ok (dlClass G) S" "dlSame G v v" "?N < 2 ^ 31"
    "count_bits ?N = count_bits (?N - 1)" "dlIndex G < 2 ^ dlBits G" "dlBits G \<le> 64" by simp_all
  have ready: "memory_ready (lkOut L)" using i by simp
  from s have s1: "pcChannelIndex (dsChannel ?s) = int (dlIndex G)"
    "pcChannelBits (dsChannel ?s) = int (dlBits G)" "length (dsStateStore ?s) = ?N"
    "(dsNextStateSlot ?s + 1) mod int ?N = int (?l mod ?N)" by (simp_all add: sender_ok_def)
  have s2: "dsLastAckedState ?s \<noteq> int (?l mod ?N)" using go(1) s1(4) by simp
  from memory.DeltaState_SyncState_sends [where same = "dlSame G" and ref = ?ref and v = v
      and dbg = "dlDebug G" and dbga = "dlDebug G", OF g1(1) v(1) g1(2) N g1(3,4) refl ready s1(1,2) g1(5,6)
      s1(3,4) s2 ref vref]
  obtain t' where
    c: "DeltaState_SyncState (dlDebug G) (dlClass G) (dlSame G) ?N (Memory (dlDebug G)) ?s v (lkOut L) =
        Inr (?s\<lparr>dsNextStateSlot := int (?l mod ?N),
          dsStateStore := (dsStateStore ?s)[?l mod ?N := Some v]\<rparr>, t')
      \<and> memory_ready t'
      \<and> memory_sends (lkOut L) t' (header False (dlBits G) (dlIndex G) @ message_body S ?N (?l mod ?N) ?ref v)"
    ..
  note 1 = conjunct1 [OF c] and t' = conjunct1 [OF conjunct2 [OF c]] conjunct2 [OF conjunct2 [OF c]]
  let ?s' = "?s\<lparr>dsNextStateSlot := int (?l mod ?N), dsStateStore := (dsStateStore ?s)[?l mod ?N := Some v]\<rparr>"
  have sender: "sender_ok G S ?s' (?h @ [v]) A" by (rule sender_ok_sync [OF s v(1) N])
  have window: "window_ok G (?h @ [v]) A R"
    using w full by (auto simp: window_ok_def)
  have acks: "acks_ok G (lkReceiver L) (?h @ [v]) A R acks"
    using ak by (auto simp: acks_ok_def kept_mono)
  have flight: "flight_ok G (lkReceiver L) (?h @ [v]) R (msgs @ [(?l, A)])"
    by (rule flight_ok_sync [OF fl]) (use w A vref ak in \<open>auto simp: window_ok_def acks_ok_def\<close>)
  from t'(2) obtain p where p: "tmOutgoingPackets t' = tmOutgoingPackets (lkOut L) @ [p]"
    "carries p (header False (dlBits G) (dlIndex G) @ message_body S ?N (?l mod ?N) ?ref v)"
    by (auto simp: memory_sends_def)
  have "message_packet G S (?h @ [v]) p (?l, A)"
    using p(2) A(2) by (cases A) (simp_all add: message_packet_def nth_append)
  then have packets: "list_all2 (message_packet G S (?h @ [v])) (tmOutgoingPackets t') (msgs @ [(?l, A)])"
    using packets_sync [OF fl, of S "tmOutgoingPackets (lkOut L)" v] i by (simp add: p(1) list_all2_appendI)
  have sub: "subseq (lkGot L) (take R (?h @ [v]))"
    using i w by (simp add: window_ok_def)
  show ?thesis
    using 1 sender window acks flight packets sub t'(1) i by (auto simp: link_ok_def)
qed

lemma front_message_spec:
  assumes "params_ok G S" "tmOutgoingPackets t = p # ps"
    and "carries p (header ack (dlBits G) (dlIndex G) @ bs)"
  shows "\<exists>r pad. front_message G t = Inr ((ack, int (dlIndex G)), r) \<and> rinv r \<and> rbits r = bs @ pad"
proof -
  from assms(3) obtain pad where "rinv p" "rbits p = header ack (dlBits G) (dlIndex G) @ bs @ pad"
    by (auto simp: carries_def)
  then have "rinv (NetBitReaderBuffer.truncate p)"
    "rbits (NetBitReaderBuffer.truncate p) = header ack (dlBits G) (dlIndex G) @ bs @ pad"
    by (simp_all add: rinv_def rbits_def NetBitReaderBuffer.defs)
  from GetDefaultMessageInfo_spec [OF this, of "dlBits G" "dlBits G"] assms(1) obtain r where
    "GetDefaultMessageInfo (int (dlBits G)) (int (dlBits G)) (NetBitReaderBuffer.truncate p)
      = Inr ((ack, int (dlIndex G)), r)" "consumed (NetBitReaderBuffer.truncate p) r (header ack (dlBits G) (dlIndex G))"
      "rbits r = bs @ pad"
    by (auto simp: params_ok_def)
  then show ?thesis
    using assms(2) consumed_rinv by (auto simp: front_message_def)
qed

lemma subseq_snoc_take:
  assumes "subseq xs (take R h)" "R \<le> q" "q < length h"
  shows "subseq (xs @ [h ! q]) (take (Suc q) h)"
proof -
  have "take q h = take R h @ take (q - R) (drop R h)"
    using assms(2) by (metis le_add_diff_inverse take_add)
  moreover have "subseq (xs @ []) (take R h @ take (q - R) (drop R h))"
    using assms(1) by (intro list_emb_append_mono) auto
  ultimately have "subseq xs (take q h)" by simp
  then show ?thesis
    using assms(3) by (simp add: take_Suc_conv_app_nth list_emb_append_mono)
qed

lemma pop_packet_ready [simp]: "memory_ready (pop_packet t) = memory_ready t"
  "tmOutgoingPackets (pop_packet t) = tl (tmOutgoingPackets t)"
  by (simp_all add: pop_packet_def memory_ready_def)

text \<open>Receiving state \<open>q\<close> keeps the references of the messages behind it and of the
  acknowledgements on their way back.\<close>

lemma acks_ok_received:
  assumes ak: "acks_ok G rc h A R acks" and w: "window_ok G h A R" and q: "R \<le> q" "q < length h"
    and l: "length (dvStateStore rc) = dlSize G" and N: "0 < dlSize G"
  shows "acks_ok G (rc\<lparr>dvStateStore := (dvStateStore rc)[q mod dlSize G := Some (h ! q)]\<rparr>) h A (Suc q) (acks @ [q])"
    (is "acks_ok G ?rc' h A _ _")
proof -
  have keep: "kept G ?rc' h k" if "kept G rc h k" "k < R" "oldest A \<le> k" for k
    using kept_store [OF that(1) _ _ l, of q] that(2,3) q w by (simp add: window_ok_def)
  have new: "kept G ?rc' h q" using q(2) l N by (simp add: kept_def)
  have "oldest A \<le> q" using w q(1) by (auto simp: window_ok_def oldest_def split: option.splits)
  then show ?thesis
    using ak new keep q(1) w by (fastforce simp: acks_ok_def sorted_append window_ok_def oldest_def)
qed

lemma flight_ok_received:
  assumes fl: "flight_ok G rc h R ((q, ref) # msgs)" and l: "length (dvStateStore rc) = dlSize G"
  shows "flight_ok G (rc\<lparr>dvStateStore := (dvStateStore rc)[q mod dlSize G := Some (h ! q)]\<rparr>) h (Suc q) msgs"
    (is "flight_ok G ?rc' h _ _")
proof -
  have "Suc q \<le> q2 \<and> q2 < length h \<and> (\<forall>a. ref2 = Some a \<longrightarrow> a < Suc q \<and> kept G ?rc' h a
      \<and> q2 < a + dlSize G \<and> h ! q2 \<noteq> h ! a)" if m: "(q2, ref2) \<in> set msgs" for q2 ref2
  proof -
    have q: "R \<le> q" "q < q2" using fl m by (auto simp: flight_ok_def)
    have m': "(q2, ref2) \<in> set ((q, ref) # msgs)" using m by simp
    note f = in_flight [OF fl m']
    have "kept G ?rc' h a" if "ref2 = Some a" for a
      using kept_store [OF _ _ _ l, of h a q] f(3) [OF that] q by simp
    with f q show ?thesis by fastforce
  qed
  then show ?thesis using fl by (auto simp: flight_ok_def)
qed

lemma link_ok_deliver:
  assumes G: "params_ok G S" and inv: "link_ok G S L A R msgs acks"
    and out: "tmOutgoingPackets (lkOut L) \<noteq> []"
  shows "\<exists>r rc' r' t' q ref msgs'. front_message G (lkOut L) = Inr ((False, int (dlIndex G)), r)
    \<and> DeltaState_GotMessage (dlDebug G) (dlClass G) (dlFresh G) (dlSize G) (Memory (dlDebug G))
        (lkReceiver L) r (lkBack L, lkGot L) = Inr (rc', r', t', lkGot L @ [lkSynced L ! q])
    \<and> msgs = (q, ref) # msgs'
    \<and> link_ok G S (L\<lparr>lkOut := pop_packet (lkOut L), lkReceiver := rc', lkBack := t',
          lkGot := lkGot L @ [lkSynced L ! q]\<rparr>) A (Suc q) msgs' (acks @ [q])"
proof -
  let ?N = "dlSize G" and ?h = "lkSynced L" and ?rc = "lkReceiver L"
  note g = G [unfolded params_ok_def]
  note i = inv [unfolded link_ok_def]
  from i have s: "sender_ok G S (lkSender L) ?h A" and rcv: "receiver_ok G ?rc" and w: "window_ok G ?h A R"
    and ak: "acks_ok G ?rc ?h A R acks" and fl: "flight_ok G ?rc ?h R msgs" by simp_all
  from out obtain p ps where ps: "tmOutgoingPackets (lkOut L) = p # ps" by (meson neq_Nil_conv)
  with i obtain m msgs' where ms: "msgs = m # msgs'" and pm: "message_packet G S ?h p m"
    and pms: "list_all2 (message_packet G S ?h) ps msgs'" by (auto simp: list_all2_Cons1)
  obtain q ref where m: "m = (q, ref)" by force
  let ?ref = "map_option (\<lambda>a. (a mod ?N, ?h ! a)) ref"
  have q: "R \<le> q" "q < length ?h" "\<And>a. ref = Some a \<Longrightarrow> a < R \<and> kept G ?rc ?h a \<and> q < a + ?N \<and> ?h ! q \<noteq> ?h ! a"
    using fl by (simp_all add: flight_ok_def ms m)
  have ok: "sWf S v" if "v \<in> set ?h" for v using s that by (simp add: sender_ok_def)
  from pm have "carries p (header False (dlBits G) (dlIndex G) @ message_body S ?N (q mod ?N) ?ref (?h ! q))"
    by (simp add: message_packet_def m)
  from front_message_spec [OF G ps this] obtain r pad where
    f: "front_message G (lkOut L) = Inr ((False, int (dlIndex G)), r)"
    and r: "rinv r" "rbits r = message_body S ?N (q mod ?N) ?ref (?h ! q) @ pad" by blast
  from g have g1: "field_ok (dlClass G) S" "sObj S (dlFresh G)" "0 < ?N" "?N < 2 ^ 31"
    "count_bits ?N = count_bits (?N - 1)" "dlIndex G < 2 ^ dlBits G" "dlBits G \<le> 64" by simp_all
  from rcv have c: "pcChannelIndex (dvChannel ?rc) = int (dlIndex G)"
    "pcChannelBits (dvChannel ?rc) = int (dlBits G)" "length (dvStateStore ?rc) = ?N" "q mod ?N < ?N"
    using g1(3) by (simp_all add: receiver_ok_def)
  have refd: "a < ?N \<and> dvStateStore ?rc ! a = Some u \<and> sWf S u \<and> ?h ! q \<noteq> u" if "?ref = Some (a, u)" for a u
    using that q(3) ok g1(3) by (cases ref) (auto simp: kept_def)
  have cb: "run_callback (dvUpdateCallback ?rc) (?h ! q) (lkGot L) = Inr (lkGot L @ [?h ! q])"
    using rcv by (simp add: receiver_ok_def)
  have bk: "memory_ready (lkBack L)" using i by simp
  have "\<exists>r' t'. DeltaState_GotMessage (dlDebug G) (dlClass G) (dlFresh G) ?N (Memory (dlDebug G)) ?rc r
      (lkBack L, lkGot L) = Inr (?rc\<lparr>dvStateStore := (dvStateStore ?rc)[q mod ?N := Some (?h ! q)]\<rparr>, r', t',
        lkGot L @ [?h ! q]) \<and> rinv r' \<and> rbits r' = pad \<and> memory_ready t'
      \<and> memory_sends (lkBack L) t' (header True (dlBits G) (dlIndex G) @ nat_bits (count_bits (?N - 1)) (q mod ?N))"
    by (rule memory.DeltaState_GotMessage_receives [where v = "?h ! q" and ref = ?ref,
      OF g1(1) ok [OF nth_mem [OF q(2)]] g1(2-5) refl bk c(1,2) g1(6,7) c(3,4) _ r cb]) (rule refd)
  then obtain r' t' where d: "DeltaState_GotMessage (dlDebug G) (dlClass G) (dlFresh G) ?N (Memory (dlDebug G)) ?rc r
      (lkBack L, lkGot L) = Inr (?rc\<lparr>dvStateStore := (dvStateStore ?rc)[q mod ?N := Some (?h ! q)]\<rparr>, r', t',
        lkGot L @ [?h ! q]) \<and> rinv r' \<and> rbits r' = pad \<and> memory_ready t'
      \<and> memory_sends (lkBack L) t' (header True (dlBits G) (dlIndex G) @ nat_bits (count_bits (?N - 1)) (q mod ?N))"
    by (elim exE)
  let ?rc' = "?rc\<lparr>dvStateStore := (dvStateStore ?rc)[q mod ?N := Some (?h ! q)]\<rparr>"
  have R: "receiver_ok G ?rc'" using rcv by (simp add: receiver_ok_def)
  have W: "window_ok G ?h A (Suc q)" using w q by (auto simp: window_ok_def)
  have K: "acks_ok G ?rc' ?h A (Suc q) (acks @ [q])" by (rule acks_ok_received [OF ak w q(1,2) c(3) g1(3)])
  have F: "flight_ok G ?rc' ?h (Suc q) msgs'" by (rule flight_ok_received [OF fl [unfolded ms m] c(3)])
  have B: "list_all2 (ack_packet G) (tmOutgoingPackets t') (acks @ [q])"
  proof -
    from d obtain x where "tmOutgoingPackets t' = tmOutgoingPackets (lkBack L) @ [x]"
      "carries x (header True (dlBits G) (dlIndex G) @ nat_bits (count_bits (?N - 1)) (q mod ?N))"
      by (auto simp: memory_sends_def)
    then show ?thesis using i by (simp add: ack_packet_def list_all2_appendI)
  qed
  have sub: "subseq (lkGot L @ [?h ! q]) (take (Suc q) ?h)"
    using subseq_snoc_take [OF _ q(1,2)] i by simp
  have "link_ok G S (L\<lparr>lkOut := pop_packet (lkOut L), lkReceiver := ?rc', lkBack := t',
      lkGot := lkGot L @ [?h ! q]\<rparr>) A (Suc q) msgs' (acks @ [q])"
    using s R W K F B sub pms ps d i by (simp add: link_ok_def)
  with f d ms m show ?thesis by blast
qed

lemma link_ok_lose:
  assumes inv: "link_ok G S L A R msgs acks" and out: "tmOutgoingPackets (lkOut L) \<noteq> []"
  shows "\<exists>m msgs'. msgs = m # msgs' \<and> link_ok G S (L\<lparr>lkOut := pop_packet (lkOut L)\<rparr>) A R msgs' acks"
proof -
  from out obtain p ps where ps: "tmOutgoingPackets (lkOut L) = p # ps" by (meson neq_Nil_conv)
  with inv obtain m msgs' where ms: "msgs = m # msgs'" by (auto simp: link_ok_def list_all2_Cons1)
  then show ?thesis using inv ps by (simp add: link_ok_def flight_ok_def)
qed

lemma link_ok_lose_ack:
  assumes inv: "link_ok G S L A R msgs acks" and out: "tmOutgoingPackets (lkBack L) \<noteq> []"
  shows "\<exists>k acks'. acks = k # acks' \<and> link_ok G S (L\<lparr>lkBack := pop_packet (lkBack L)\<rparr>) A R msgs acks'"
proof -
  from out obtain p ps where ps: "tmOutgoingPackets (lkBack L) = p # ps" by (meson neq_Nil_conv)
  with inv obtain k acks' where ms: "acks = k # acks'" by (auto simp: link_ok_def list_all2_Cons1)
  then show ?thesis using inv ps by (simp add: link_ok_def acks_ok_def)
qed

lemma link_ok_ack:
  assumes G: "params_ok G S" and inv: "link_ok G S L A R msgs acks"
    and out: "tmOutgoingPackets (lkBack L) \<noteq> []"
  shows "\<exists>r s' r' k acks'. front_message G (lkBack L) = Inr ((True, int (dlIndex G)), r)
    \<and> DeltaState_GotAck (dlSize G) (lkSender L) r = Inr (s', r') \<and> acks = k # acks'
    \<and> link_ok G S (L\<lparr>lkBack := pop_packet (lkBack L), lkSender := s'\<rparr>) (Some k) R msgs acks'"
proof -
  let ?N = "dlSize G" and ?h = "lkSynced L" and ?s = "lkSender L"
  let ?b = "count_bits (?N - 1)"
  note g = G [unfolded params_ok_def]
  note i = inv [unfolded link_ok_def]
  from out obtain p ps where ps: "tmOutgoingPackets (lkBack L) = p # ps" by (meson neq_Nil_conv)
  with i obtain k acks' where ks: "acks = k # acks'" and pk: "ack_packet G p k"
    and pks: "list_all2 (ack_packet G) ps acks'" by (auto simp: list_all2_Cons1)
  from i have s: "sender_ok G S ?s ?h A" and w: "window_ok G ?h A R"
    and ak: "acks_ok G (lkReceiver L) ?h A R acks" by simp_all
  from ak have k: "k < R" "oldest A \<le> k" "kept G (lkReceiver L) ?h k" by (simp_all add: acks_ok_def ks)
  from pk have "carries p (header True (dlBits G) (dlIndex G) @ nat_bits ?b (k mod ?N))"
    by (simp only: ack_packet_def)
  from front_message_spec [OF G ps this] obtain r pad where
    f: "front_message G (lkBack L) = Inr ((True, int (dlIndex G)), r)"
    and r: "rinv r" "rbits r = nat_bits ?b (k mod ?N) @ pad" by blast
  have N: "0 < ?N" "?N < 2 ^ 31" using g by simp_all
  then have m: "?N - 1 < 2 ^ 31" by linarith
  have kN: "k mod ?N < ?N" using N by simp
  then have "k mod ?N \<le> ?N - 1" by linarith
  note kb = count_bits(3) [OF m this]
  have "?b < 64" using count_bits(1) [OF m] by linarith
  from ReadUBits_nat [OF r kb this] obtain r' where
    1: "ReadUBits (int ?b) r = Inr (of_nat (k mod ?N), r')" by blast
  have cv: "conv I32 (uint (of_nat (k mod ?N) :: u64)) = int (k mod ?N)"
    by (rule slot_conv) (use kN N(2) in linarith)
  have 2: "DeltaState_GotAck ?N ?s r = Inr (?s\<lparr>dsLastAckedState := int (k mod ?N)\<rparr>, r')"
    unfolding DeltaState_GotAck_def by (simp only: 1 ebind_Inr prod.case cv)
  have S: "sender_ok G S (?s\<lparr>dsLastAckedState := int (k mod ?N)\<rparr>) ?h (Some k)"
    using s by (simp add: sender_ok_def)
  have W: "window_ok G ?h (Some k) R" using w k by (simp add: window_ok_def oldest_def)
  have K: "acks_ok G (lkReceiver L) ?h (Some k) R acks'"
    using ak k by (simp add: acks_ok_def ks oldest_def)
  have "link_ok G S (L\<lparr>lkBack := pop_packet (lkBack L), lkSender := ?s\<lparr>dsLastAckedState := int (k mod ?N)\<rparr>\<rparr>)
      (Some k) R msgs acks'"
    using i S W K pks ps by (simp add: link_ok_def)
  with f 2 ks show ?thesis by blast
qed

definition link_inv :: "'a delta_params \<Rightarrow> 'a field_spec \<Rightarrow> 'a delta_link \<Rightarrow> bool" where
  "link_inv G S L \<longleftrightarrow> (\<exists>A R msgs acks. link_ok G S L A R msgs acks)"

lemma delta_step_inv:
  assumes G: "params_ok G S" and "delta_step G L act L'" "careful G S L act" "link_inv G S L"
  shows "link_inv G S L'"
  using assms(2)
proof (cases rule: delta_step.cases)
  case (sync v s' t')
  from assms(4) obtain A R msgs acks where i: "link_ok G S L A R msgs acks" by (auto simp: link_inv_def)
  have c: "sWf S v" "v \<noteq> u" if "uses_reference (lkSender L) (Some (a, u))" for a u
    using assms(3) that by (auto simp: sync(1) uses_reference_def acked_state_def)
  have g: "(dsNextStateSlot (lkSender L) + 1) mod int (dlSize G) \<noteq> dsLastAckedState (lkSender L)"
    "dsLastAckedState (lkSender L) = -1 \<longrightarrow> length (lkSynced L) < dlSize G" "sWf S v"
    using assms(3) by (simp_all add: sync(1))
  from link_ok_sync [OF G i g(3) c(2) g(1,2)] sync(3) show ?thesis
    unfolding sync(2) link_inv_def by fastforce
next
  case (deliver ci r rc' r' t' got')
  from assms(4) obtain A R msgs acks where i: "link_ok G S L A R msgs acks" by (auto simp: link_inv_def)
  from link_ok_deliver [OF G i deliver(3)] deliver(4,5) show ?thesis
    unfolding deliver(2) link_inv_def by fastforce
next
  case lose
  from assms(4) obtain A R msgs acks where i: "link_ok G S L A R msgs acks" by (auto simp: link_inv_def)
  from link_ok_lose [OF i lose(3)] show ?thesis unfolding lose(2) link_inv_def by blast
next
  case (ack ci r s' r')
  from assms(4) obtain A R msgs acks where i: "link_ok G S L A R msgs acks" by (auto simp: link_inv_def)
  from link_ok_ack [OF G i ack(3)] ack(4,5) show ?thesis unfolding ack(2) link_inv_def by fastforce
next
  case lose_ack
  from assms(4) obtain A R msgs acks where i: "link_ok G S L A R msgs acks" by (auto simp: link_inv_def)
  from link_ok_lose_ack [OF i lose_ack(3)] show ?thesis unfolding lose_ack(2) link_inv_def by blast
qed

lemma careful_run_inv:
  assumes G: "params_ok G S" and "careful_run G S L acts L'" "link_inv G S L"
  shows "link_inv G S L'"
  using assms(2,3) by induction (auto intro: delta_step_inv [OF G])

lemma careful_run_synced: "careful_run G S L acts L' \<Longrightarrow> lkSynced L' = lkSynced L @ synced acts"
proof (induction rule: careful_run.induct)
  case (act L act L' acts L'')
  from act.hyps(2) act.IH show ?case by (cases act) (auto elim: delta_stepE)
qed simp

lemma careful_run_init:
  assumes "params_ok G S" "careful_run G S (delta_link_init G) acts L"
  shows "link_inv G S L" "lkSynced L = synced acts"
proof -
  have "link_inv G S (delta_link_init G)" using link_ok_init [OF assms(1)] by (auto simp: link_inv_def)
  then show "link_inv G S L" by (rule careful_run_inv [OF assms])
  show "lkSynced L = synced acts"
    using careful_run_synced [OF assms(2)] by (simp add: delta_link_init_def Let_def)
qed

text \<open>C1: whatever messages and acknowledgements are lost on the way (none overtakes another), the states the receiver's
  callback has been called with are, in order, some of the states the run has synced: no state is
  corrupted, repeated or reordered. This is so if the number of slots is not a power of two
  (\<open>params_ok\<close>) and the sender is used with care: each state differs from the one acknowledged last,
  there is a free slot for it, and not more states than there are slots are synced before the first
  acknowledgement arrives. \<open>delta_state_unchanged\<close>, \<open>delta_state_stall\<close>, \<open>delta_state_wraps\<close> and
  \<open>delta_state_power_of_two\<close> show that each of these is needed.\<close>

theorem delta_link_subsequence:
  assumes "params_ok G S" "careful_run G S (delta_link_init G) acts L"
  shows "subseq (lkGot L) (synced acts)"
proof -
  from careful_run_init(1) [OF assms] obtain A R msgs acks where "link_ok G S L A R msgs acks"
    by (auto simp: link_inv_def)
  then have "subseq (lkGot L @ []) (take R (lkSynced L) @ drop R (lkSynced L))"
    by (intro list_emb_append_mono) (auto simp: link_ok_def)
  then show ?thesis by (simp add: careful_run_init(2) [OF assms])
qed

text \<open>C11: after a careful run (\<open>careful_run\<close>: each state synced differs from the one acknowledged last and finds a
  free slot, and not more states than there are slots are synced before the first acknowledgement) over a channel
  whose number of slots is not a power of two (\<open>params_ok\<close>), whatever was lost: the next packet on its way is
  decoded without an error, its state, one of those synced, is handed to the callback, and an acknowledgement is
  sent; the next acknowledgement on its way is taken by the sender.\<close>

theorem delta_link_progress:
  assumes "params_ok G S" "careful_run G S (delta_link_init G) acts L"
  shows "(tmOutgoingPackets (lkOut L) \<noteq> [] \<longrightarrow>
      (\<exists>L' v. delta_step G L Deliver L' \<and> lkGot L' = lkGot L @ [v] \<and> v \<in> set (synced acts)
        \<and> tmOutgoingPackets (lkOut L') = tl (tmOutgoingPackets (lkOut L))
        \<and> length (tmOutgoingPackets (lkBack L')) = Suc (length (tmOutgoingPackets (lkBack L)))))
    \<and> (tmOutgoingPackets (lkBack L) \<noteq> [] \<longrightarrow>
      (\<exists>L'. delta_step G L Ack L' \<and> tmOutgoingPackets (lkBack L') = tl (tmOutgoingPackets (lkBack L))
        \<and> dsLastAckedState (lkSender L') \<noteq> -1))"
proof (intro conjI impI)
  note inv = careful_run_init [OF assms]
  obtain A R msgs acks where i: "link_ok G S L A R msgs acks" using inv(1) by (auto simp: link_inv_def)
  show "\<exists>L' v. delta_step G L Deliver L' \<and> lkGot L' = lkGot L @ [v] \<and> v \<in> set (synced acts)
        \<and> tmOutgoingPackets (lkOut L') = tl (tmOutgoingPackets (lkOut L))
        \<and> length (tmOutgoingPackets (lkBack L')) = Suc (length (tmOutgoingPackets (lkBack L)))"
    if o: "tmOutgoingPackets (lkOut L) \<noteq> []"
  proof -
    from link_ok_deliver [OF assms(1) i o] obtain r rc' r' t' q ref msgs' where
      d: "front_message G (lkOut L) = Inr ((False, int (dlIndex G)), r)"
        "DeltaState_GotMessage (dlDebug G) (dlClass G) (dlFresh G) (dlSize G) (Memory (dlDebug G))
          (lkReceiver L) r (lkBack L, lkGot L) = Inr (rc', r', t', lkGot L @ [lkSynced L ! q])"
        "msgs = (q, ref) # msgs'"
        "link_ok G S (L\<lparr>lkOut := pop_packet (lkOut L), lkReceiver := rc', lkBack := t',
          lkGot := lkGot L @ [lkSynced L ! q]\<rparr>) A (Suc q) msgs' (acks @ [q])" by blast
    have "q < length (lkSynced L)" using i d(3) by (simp add: link_ok_def flight_ok_def)
    then have v: "lkSynced L ! q \<in> set (synced acts)" by (simp add: inv(2) [symmetric])
    have "length (tmOutgoingPackets t') = Suc (length (tmOutgoingPackets (lkBack L)))"
      using i d(4) by (auto simp: link_ok_def dest!: list_all2_lengthD)
    with v delta_step.deliver [OF o d(1,2)] show ?thesis by (fastforce simp: pop_packet_def)
  qed
  show "\<exists>L'. delta_step G L Ack L' \<and> tmOutgoingPackets (lkBack L') = tl (tmOutgoingPackets (lkBack L))
        \<and> dsLastAckedState (lkSender L') \<noteq> -1"
    if o: "tmOutgoingPackets (lkBack L) \<noteq> []"
  proof -
    from link_ok_ack [OF assms(1) i o] obtain r s' r' k acks' where
      d: "front_message G (lkBack L) = Inr ((True, int (dlIndex G)), r)"
        "DeltaState_GotAck (dlSize G) (lkSender L) r = Inr (s', r')"
        "link_ok G S (L\<lparr>lkBack := pop_packet (lkBack L), lkSender := s'\<rparr>) (Some k) R msgs acks'" by blast
    from d(3) have "dsLastAckedState s' = int (k mod dlSize G)" by (simp add: link_ok_def sender_ok_def)
    with delta_step.ack [OF o d(1,2)] show ?thesis by (fastforce simp: pop_packet_def)
  qed
qed

text \<open>A link with three slots over a channel of its own, whose states are flags.\<close>

definition flag_link :: "bool delta_params" where
  "flag_link = \<lparr>dlDebug = True, dlClass = bool_field True False, dlSame = (=), dlFresh = False, dlSize = 3,
     dlIndex = 0, dlBits = 1\<rparr>"

lemma flag_link_ok: "params_ok flag_link bool_spec"
proof -
  have "count_bits 3 = 2" "count_bits 2 = 2" by code_simp+
  then show ?thesis by (simp add: params_ok_def flag_link_def bool_field_ok)
qed

text \<open>A run with two acknowledged states and one that is lost.\<close>

abbreviation flag_run :: "bool delta_action list" where
  "flag_run \<equiv> [Sync True, Deliver, Ack, Sync False, Lose, Sync False, Deliver]"

lemma flag_run_careful:
  "\<exists>L. careful_run flag_link bool_spec (delta_link_init flag_link) flag_run L \<and> lkGot L = [True, False]
    \<and> tmOutgoingPackets (lkBack L) \<noteq> []"
proof -
  have "map_option (\<lambda>L. (lkGot L, tmOutgoingPackets (lkBack L) = []))
      (run_carefully flag_link bool_spec flag_run (delta_link_init flag_link)) = Some ([True, False], False)"
    by code_simp
  then show ?thesis using run_carefully_run by fastforce
qed

theorem delta_link_subsequence_witness:
  "\<exists>L. careful_run flag_link bool_spec (delta_link_init flag_link) flag_run L \<and> lkGot L = [True, False]
    \<and> subseq (lkGot L) [True, False, False]"
  using flag_run_careful delta_link_subsequence [OF flag_link_ok, of flag_run] by auto

theorem delta_link_progress_witness:
  "\<exists>L L'. careful_run flag_link bool_spec (delta_link_init flag_link) flag_run L \<and> lkGot L = [True, False]
    \<and> delta_step flag_link L Ack L'"
  using flag_run_careful delta_link_progress [OF flag_link_ok, of flag_run] by metis

section \<open>Where the pipe fails\<close>

lemma count_bits_power:
  assumes "1 \<le> k" "k < 31"
  shows "count_bits (2 ^ k - 1) = k"
proof (rule GetRequiredBits_unique)
  have p: "(2 :: int) ^ k \<le> 2 ^ 30" using assms(2) by (intro power_increasing) auto
  have i: "int (2 ^ k - 1) = 2 ^ k - 1" by (simp add: of_nat_diff)
  show "wide I32" by (simp add: wide_def)
  show "0 \<le> int (2 ^ k - 1)" "int (2 ^ k - 1) < 2 ^ k" "1 \<le> k" using assms(1) i by simp_all
  have "- 2147483648 < (2 :: int) ^ k" by (rule order_less_trans [of _ 0]) simp_all
  with p i show "in_ctype I32 (int (2 ^ k - 1))"
    by (simp add: in_ctype_def ctype_min_def ctype_max_def)
  have "(2 :: int) ^ k = 2 * 2 ^ (k - 1)" using assms(1) by (metis One_nat_def Suc_pred' less_eq_Suc_le power_Suc)
  moreover have "(1 :: int) \<le> 2 ^ (k - 1)" by simp
  ultimately show "k = 1 \<or> 2 ^ (k - 1) \<le> int (2 ^ k - 1)" unfolding i by linarith
qed

text \<open>The slot of a missing reference is \<^verbatim>\<open>DataStoreSize\<close>, in the bits of
  \<^verbatim>\<open>DataStoreSize - 1\<close>. For every power of two it does not fit: the first message of a pipe with such
  a store throws \<^verbatim>\<open>std::out_of_range\<close> in a debug build.\<close>

theorem delta_state_power_of_two:
  assumes "1 \<le> k" "k < 31" "N = 2 ^ k" "s = DeltaStateSender_init N c"
    and "pcChannelIndex c = int i" "pcChannelBits c = int cb" "i < 2 ^ cb" "cb \<le> 64" "memory_ready t"
  shows "DeltaState_SyncState True D same N (Memory dbg) s v t = Inl OutOfRange"
proof -
  from memory.create_send [OF assms(9,7,8), of dbg "pcMode c" False] obtain t1 where
    1: "CreateWriter (Memory dbg) (pcMode c) (int i) (int cb) False t = Inr t1"
    and i: "winv (theWriter (Memory dbg) t1)" by blast
  have N: "0 < N" using assms(3) by simp
  have b: "count_bits (N - 1) = k" using count_bits_power [OF assms(1,2)] assms(3) by simp
  from WriteBits_nat [OF i, of 0 k True] assms(2) obtain w where
    2: "WriteBits True (of_nat 0) (int k) (theWriter (Memory dbg) t1) = Inr w" by auto
  have "\<not> writable True (of_nat N) k"
    using assms(2) by (simp add: writable_def assms(3) take_bit_eq_mod)
  then have 3: "WriteBits True (of_nat N) (int k) w = Inl OutOfRange"
    by (intro WriteBits_reject) (use assms(1) in simp_all)
  have 4: "StoreState (replicate N None) v (int 0) = Inr ((replicate N None)[0 := Some v])"
    by (rule StoreState_nth) (use N in simp)
  show ?thesis
    unfolding DeltaState_SyncState_def Let_def b CreateMessage_def assms(4)
    using 1 2 3 4 by (simp add: DeltaStateSender_init_def assms(5,6))
qed

theorem delta_state_power_of_two_witness:
  "DeltaState_SyncState True (bool_field True False) (=) 32 (Memory True)
     (DeltaStateSender_init 32 (Pipe_Initialize kReliable (int 1) (int 2))) True NetTransmitterMemory_init
   = Inl OutOfRange"
  by (rule delta_state_power_of_two [where k = 5 and i = 1 and cb = 2, OF _ _ _ refl _ _ _ _ memory_ready_init(1)])
    (simp_all add: Pipe_Initialize_def)

text \<open>When every slot but the acknowledged one is in use, \<^verbatim>\<open>SyncState\<close> returns
  without sending, but the header of its message stays in the writer: the transmitter is no longer
  ready, and the next message, of whatever channel, comes behind a second header.\<close>

theorem delta_state_stall:
  assumes "(dsNextStateSlot s + 1) mod int N = dsLastAckedState s" "dsLastAckedState s = int a"
    and "a < length (dsStateStore s)"
    and "pcChannelIndex (dsChannel s) = int i" "pcChannelBits (dsChannel s) = int cb" "i < 2 ^ cb" "cb \<le> 64"
    and "memory_ready t"
  shows "\<exists>t'. DeltaState_SyncState dbg D same N (Memory dbg) s v t = Inr (s, t')
    \<and> tmOutgoingPackets t' = tmOutgoingPackets t \<and> wbits (tmPendingPacket t') = header False cb i
    \<and> \<not> memory_ready t'"
proof -
  from assms(8) have r: "winv (tmPendingPacket t)" "wbits (tmPendingPacket t) = []"
    by (simp_all add: memory_ready_def)
  from CreateDefaultMessage_spec [OF r(1) assms(6,7), of dbg False] obtain w where
    1: "CreateDefaultMessage dbg (int i) (int cb) False (tmPendingPacket t) = Inr w"
    and w: "wrote (tmPendingPacket t) w (header False cb i)" by blast
  have b: "wbits w = header False cb i" using wrote_wbits [OF w] r(2) by simp
  have "DeltaState_SyncState dbg D same N (Memory dbg) s v t = Inr (s, t\<lparr>tmPendingPacket := w\<rparr>)"
    using 1 assms(1-5) by (simp add: DeltaState_SyncState_def Let_def CreateMessage_def Memory_def
        Memory_CreateWriter_def StateStore_Get_def)
  then show ?thesis
    using b by (intro exI [of _ "t\<lparr>tmPendingPacket := w\<rparr>"]) (simp add: memory_ready_def header_def)
qed

theorem delta_state_stall_witness:
  "\<exists>t'. DeltaState_SyncState True (bool_field True False) (=) 3 (Memory True)
      \<lparr>dsChannel = Pipe_Initialize kReliable (int 0) (int 1), dsLastAckedState = 0, dsNextStateSlot = 2,
       dsStateStore = [Some True, Some False, Some True]\<rparr> False NetTransmitterMemory_init
    = Inr (\<lparr>dsChannel = Pipe_Initialize kReliable (int 0) (int 1), dsLastAckedState = 0, dsNextStateSlot = 2,
       dsStateStore = [Some True, Some False, Some True]\<rparr>, t')
    \<and> wbits (tmPendingPacket t') = [False, False]"
  using delta_state_stall [of "\<lparr>dsChannel = Pipe_Initialize kReliable (int 0) (int 1), dsLastAckedState = 0,
      dsNextStateSlot = 2, dsStateStore = [Some True, Some False, Some True]\<rparr>" 3 0 0 1
      NetTransmitterMemory_init True "bool_field True False" "(=)" False]
  by (force simp: Pipe_Initialize_def header_def)

definition pair_link :: "bool list delta_params" where
  "pair_link = (let fs = [bool_field True False, bool_field True False] in
     \<lparr>dlDebug = True,
      dlClass = \<lparr>fStatic = False, fSer = NetSerializeType_struct fs, fDeser = NetDeserializeType_struct fs,
        fDeltaSer = NetSerializeDeltaType_struct True fs, fDeltaDeser = NetDeserializeDeltaType_struct fs\<rparr>,
      dlSame = (=), dlFresh = [False, False], dlSize = 3, dlIndex = 0, dlBits = 1\<rparr>)"

text \<open>With three slots, four states are sent before anything is
  acknowledged, the fourth again into slot 0; only the first arrives. Its acknowledgement makes
  slot 0 the reference, which is the first state to the receiver and the fourth to the sender: the
  next state, \<open>[True, True]\<close>, arrives as \<open>[False, True]\<close>, a state that was never synced.\<close>

theorem delta_state_wraps:
  "map_option lkGot (run_link pair_link
     [Sync [False, False], Sync [True, True], Sync [False, True], Sync [True, False],
      Deliver, Lose, Lose, Lose, Ack, Sync [True, True], Deliver] (delta_link_init pair_link))
   = Some [[False, False], [False, True]]"
  by code_simp

text \<open>A state that is the acknowledged one is sent all the same, as a difference without bits. The receiver of
  a release build decodes the padding behind it: the flag arrives as another value.\<close>

theorem delta_state_unchanged:
  "map_option lkGot (run_link (flag_link\<lparr>dlDebug := False, dlClass := bool_field False False\<rparr>)
     [Sync True, Deliver, Ack, Sync True, Deliver] (delta_link_init flag_link))
   = Some [True, False]"
  by code_simp

end
