(* ===== verification/TypeDatabase.thy ===== *)
theory TypeDatabase
  imports Serialize "HOL-Library.List_Lexorder" "HOL-Library.Char_ord" "HOL-Library.Multiset"
begin

text \<open>
  \<^verbatim>\<open>NetReflectionTypeDatabase.h\<close>, \<^verbatim>\<open>NetReflectionTypeDatabase.cpp\<close> and the registration of
  \<^verbatim>\<open>NetReflectionTypeDatabaseRegister.h\<close>: the classes derived from a base class, numbered so that
  both ends of a connection agree on the numbers.

  The objects of all the classes are one type \<open>'v\<close>; the function pointers of \<^verbatim>\<open>NetTypeInfo\<close> are
  functions on it. The linked list of registrations is a list, its head first.
\<close>

section \<open>Type information\<close>

text \<open>\<^verbatim>\<open>m_HeapCreate\<close> returns a new object, which \<open>tiNew\<close> is the value of, or a null pointer.
  \<^verbatim>\<open>m_Cast\<close> and \<^verbatim>\<open>m_ConstCast\<close> are pointer casts of the external reflection library.\<close>

record 'v NetTypeInfo =
  tiClassName :: string
  tiTypeNameHash :: u32
  tiTypeIdHash :: u64
  tiParentIdHash :: u64
  tiParentClassId :: u64
  tiClassId :: u64
  tiAllocator :: "nat option"
  tiAbstract :: bool
  tiNew :: "'v option"
  tiSerialize :: "'v serializer"
  tiSerializeDelta :: "'v delta_serializer"
  tiDeserialize :: "'v deserializer"
  tiDeserializeDelta :: "'v deserializer"
  tiCompare :: "'v \<Rightarrow> 'v \<Rightarrow> bool"

abbreviation NET_INVALID_TYPE_HASH :: u64 where
  "NET_INVALID_TYPE_HASH \<equiv> 0"

abbreviation NET_INVALID_CLASS_ID :: u64 where
  "NET_INVALID_CLASS_ID \<equiv> 0x7FFFFFFF"

record 'v NetTypeDatabase =
  dbTypeInfoList :: "'v NetTypeInfo list"
  dbInitialized :: bool
  dbDefaultTypeInfo :: "'v NetTypeInfo option"
  dbDefaultTypeClassId :: u64
  dbDefaultTypeNameHash :: u64
  dbTypes :: "'v NetTypeInfo list"

text \<open>A database is a static object: its members are zero before the constructor runs.\<close>

definition NetTypeDatabase_init :: "'v NetTypeInfo list \<Rightarrow> 'v NetTypeDatabase" where
  "NetTypeDatabase_init type_info_list =
     \<lparr>dbTypeInfoList = type_info_list, dbInitialized = False, dbDefaultTypeInfo = None,
      dbDefaultTypeClassId = 0, dbDefaultTypeNameHash = 0, dbTypes = []\<rparr>"

definition AddClass :: "'v NetTypeInfo \<Rightarrow> 'v NetTypeDatabase \<Rightarrow> 'v NetTypeDatabase result" where
  "AddClass type_info db =
     (if dbInitialized db then Inl LogicError
      else
        let db = (if dbDefaultTypeNameHash db = 0 \<and> \<not> tiAbstract type_info
                  then db\<lparr>dbDefaultTypeNameHash := ucast (tiTypeNameHash type_info)\<rparr> else db)
        in Inr (db\<lparr>dbTypeInfoList := type_info # dbTypeInfoList db\<rparr>))"

definition SetDefaultTypeNameHash :: "u64 \<Rightarrow> 'v NetTypeDatabase \<Rightarrow> 'v NetTypeDatabase" where
  "SetDefaultTypeNameHash type_hash db = db\<lparr>dbDefaultTypeNameHash := type_hash\<rparr>"

section \<open>Registration\<close>

text \<open>
  A registration is a static object, zero at first. What the reflection knows of a class (its name,
  the hash of its type, its serializers) is the bundle \<open>R\<close>, a record of the same fields. The macros
  set all the fields (the name's hash by the external \<^verbatim>\<open>crc32\<close>); the function template of
  \<^verbatim>\<open>NetRegisterAllTypes\<close> does not set the name's hash.
\<close>

definition NET_REGISTER_TYPE_IMPL ::
    "(string \<Rightarrow> u32) \<Rightarrow> 'v NetTypeInfo \<Rightarrow> u64 \<Rightarrow> 'v NetTypeInfo" where
  "NET_REGISTER_TYPE_IMPL crc32 R parent_hash =
     R\<lparr>tiAbstract := False, tiTypeNameHash := crc32 (tiClassName R), tiParentIdHash := parent_hash,
       tiParentClassId := NET_INVALID_CLASS_ID, tiClassId := 0\<rparr>"

definition NET_REGISTER_ABSTRACT_TYPE_IMPL ::
    "(string \<Rightarrow> u32) \<Rightarrow> 'v NetTypeInfo \<Rightarrow> u64 \<Rightarrow> 'v NetTypeInfo" where
  "NET_REGISTER_ABSTRACT_TYPE_IMPL crc32 R parent_hash =
     R\<lparr>tiAbstract := True, tiTypeNameHash := crc32 (tiClassName R), tiParentIdHash := parent_hash,
       tiParentClassId := NET_INVALID_CLASS_ID, tiAllocator := None, tiNew := None, tiClassId := 0\<rparr>"

definition NetInitializeTypeRegistration :: "'v NetTypeInfo \<Rightarrow> 'v NetTypeInfo" where
  "NetInitializeTypeRegistration R =
     R\<lparr>tiTypeNameHash := 0, tiAbstract := False, tiParentIdHash := NET_INVALID_TYPE_HASH,
       tiParentClassId := NET_INVALID_CLASS_ID, tiClassId := 0\<rparr>"

definition NetRegisterChildType :: "'v NetTypeInfo \<Rightarrow> u64 \<Rightarrow> 'v NetTypeDatabase \<Rightarrow> 'v NetTypeDatabase result" where
  "NetRegisterChildType R base_hash db =
     AddClass ((NetInitializeTypeRegistration R)\<lparr>tiParentIdHash := base_hash\<rparr>) db"

text \<open>The types of a file, each with the hash of its base (\<^verbatim>\<open>MyBase\<close>), visited from the last to the
  first; those whose base is the base type are its children.\<close>

fun NetCheckChildType :: "('v NetTypeInfo \<times> u64) list \<Rightarrow> u64 \<Rightarrow> 'v NetTypeDatabase \<Rightarrow> 'v NetTypeDatabase result" where
  "NetCheckChildType [] base_hash db = Inr db"
| "NetCheckChildType ((R, my_base) # types) base_hash db =
     ebind (if my_base = base_hash then NetRegisterChildType R base_hash db else Inr db)
       (NetCheckChildType types base_hash)"

definition NetRegisterBaseType ::
    "('v NetTypeInfo \<times> u64) list \<Rightarrow> 'v NetTypeInfo \<Rightarrow> 'v NetTypeDatabase \<Rightarrow> 'v NetTypeDatabase result" where
  "NetRegisterBaseType file_types R db =
     ebind (AddClass (NetInitializeTypeRegistration R) db)
       (NetCheckChildType (rev file_types) (tiTypeIdHash R))"

section \<open>Numbering the classes\<close>

text \<open>
  \<^verbatim>\<open>std::sort\<close> by \<^verbatim>\<open>strcmp\<close> of the class names; the order of the characters of a string is that of
  their unsigned codes. (For equal names, which one program cannot have, \<^verbatim>\<open>std::sort\<close> leaves the order
  open.) The base is the first class whose hash is the parent's.
\<close>

fun find_hash :: "u64 \<Rightarrow> nat \<Rightarrow> 'v NetTypeInfo list \<Rightarrow> nat option" where
  "find_hash type_hash index [] = None"
| "find_hash type_hash index (info # infos) =
     (if tiTypeIdHash info = type_hash then Some index else find_hash type_hash (Suc index) infos)"

definition finalize_info :: "'v NetTypeInfo list \<Rightarrow> nat \<Rightarrow> 'v NetTypeInfo \<Rightarrow> 'v NetTypeInfo" where
  "finalize_info all_reg_info class_id info =
     (let info = info\<lparr>tiClassId := of_nat class_id\<rparr> in
      if tiParentIdHash info \<noteq> NET_INVALID_TYPE_HASH then
        (case find_hash (tiParentIdHash info) 0 all_reg_info of
           Some base_index \<Rightarrow> info\<lparr>tiParentClassId := of_nat base_index\<rparr>
         | None \<Rightarrow> info)
      else info)"

fun finalize_loop ::
    "'v NetTypeInfo list \<Rightarrow> nat \<Rightarrow> 'v NetTypeInfo list \<Rightarrow> 'v NetTypeDatabase \<Rightarrow> 'v NetTypeDatabase" where
  "finalize_loop all_reg_info class_id [] db = db"
| "finalize_loop all_reg_info class_id (info # infos) db =
     (let info = finalize_info all_reg_info class_id info;
          db = (if ucast (tiTypeNameHash info) = dbDefaultTypeNameHash db
                then db\<lparr>dbDefaultTypeInfo := Some info, dbDefaultTypeClassId := of_nat (length (dbTypes db))\<rparr>
                else db)
      in finalize_loop all_reg_info (Suc class_id) infos (db\<lparr>dbTypes := dbTypes db @ [info]\<rparr>))"

definition registered :: "'v NetTypeInfo list \<Rightarrow> 'v NetTypeInfo list" where
  "registered infos = sort_key tiClassName (filter (\<lambda>info. \<not> tiAbstract info) infos)"

definition FinalizeList :: "'v NetTypeDatabase \<Rightarrow> 'v NetTypeDatabase" where
  "FinalizeList db =
     (let all_reg_info = registered (dbTypeInfoList db);
          db = finalize_loop all_reg_info 0 all_reg_info (db\<lparr>dbTypes := []\<rparr>)
      in db\<lparr>dbTypeInfoList := [], dbInitialized := True\<rparr>)"

section \<open>Looking up\<close>

text \<open>The lookups finalize the list first if nobody has; doing so again changes nothing.\<close>

definition finalized :: "'v NetTypeDatabase \<Rightarrow> 'v NetTypeDatabase" where
  "finalized db = (if \<not> dbInitialized db then FinalizeList db else db)"

definition GetDefaultClassId :: "'v NetTypeDatabase \<Rightarrow> u64" where
  "GetDefaultClassId db = dbDefaultTypeClassId db"

definition GetClassId :: "u64 \<Rightarrow> 'v NetTypeDatabase \<Rightarrow> (u64 \<times> 'v NetTypeDatabase) result" where
  "GetClassId type_hash db =
     (let db = finalized db in
      case find_hash type_hash 0 (dbTypes db) of
        Some index \<Rightarrow> Inr (of_nat index, db)
      | None \<Rightarrow> Inl OutOfRange)"

definition GetNumTypes :: "'v NetTypeDatabase \<Rightarrow> nat \<times> 'v NetTypeDatabase" where
  "GetNumTypes db = (let db = finalized db in (length (dbTypes db), db))"

definition GetDefaultTypeInfo :: "'v NetTypeDatabase \<Rightarrow> 'v NetTypeInfo option \<times> 'v NetTypeDatabase" where
  "GetDefaultTypeInfo db = (let db = finalized db in (dbDefaultTypeInfo db, db))"

definition GetTypeInfo :: "u64 \<Rightarrow> 'v NetTypeDatabase \<Rightarrow> ('v NetTypeInfo \<times> 'v NetTypeDatabase) result" where
  "GetTypeInfo class_id db =
     (let db = finalized db in
      if unat class_id < length (dbTypes db) then Inr (dbTypes db ! unat class_id, db)
      else Inl Undefined)"

text \<open>\<^verbatim>\<open>InheritsFrom\<close> follows the parents; \<open>None\<close> is a loop that does not end.\<close>

partial_function (option) InheritsFrom ::
    "'v NetTypeDatabase \<Rightarrow> u64 \<Rightarrow> u64 \<Rightarrow> bool result option" where
  "InheritsFrom db class_id base_class_id =
     (if class_id = NET_INVALID_CLASS_ID then Some (Inr False)
      else if class_id = base_class_id then Some (Inr True)
      else if unat class_id < length (dbTypes db)
      then InheritsFrom db (tiParentClassId (dbTypes db ! unat class_id)) base_class_id
      else Some (Inl Undefined))"

section \<open>The numbering\<close>

lemma finalize_loop_fields [simp]:
  "dbTypes (finalize_loop all_reg i infos db) =
     dbTypes db @ map (\<lambda>(k, info). finalize_info all_reg k info) (enumerate i infos)"
  by (induction infos arbitrary: i db) (simp_all add: Let_def)

text \<open>\<open>class_table\<close> is the table of a set of registered classes, by itself.\<close>

definition class_table :: "'v NetTypeInfo list \<Rightarrow> 'v NetTypeInfo list" where
  "class_table infos =
     map (\<lambda>(k, info). finalize_info (registered infos) k info) (enumerate 0 (registered infos))"

lemma FinalizeList_types: "dbTypes (FinalizeList db) = class_table (dbTypeInfoList db)"
  by (simp add: FinalizeList_def Let_def class_table_def)

lemma length_class_table [simp]: "length (class_table infos) = length (registered infos)"
  by (simp add: class_table_def)

lemma class_table_nth:
  "k < length (registered infos) \<Longrightarrow>
    class_table infos ! k = finalize_info (registered infos) k (registered infos ! k)"
  by (simp add: class_table_def nth_enumerate_eq)

lemma finalize_info_simps [simp]:
  "tiTypeIdHash (finalize_info all_reg k info) = tiTypeIdHash info"
  "tiClassName (finalize_info all_reg k info) = tiClassName info"
  "tiClassId (finalize_info all_reg k info) = of_nat k"
  "tiTypeNameHash (finalize_info all_reg k info) = tiTypeNameHash info"
  "tiAbstract (finalize_info all_reg k info) = tiAbstract info"
  by (simp_all add: finalize_info_def Let_def split: option.splits)

lemma find_hash_Some:
  "find_hash h i infos = Some k \<longleftrightarrow> (\<exists>j < length infos. k = i + j \<and> tiTypeIdHash (infos ! j) = h
     \<and> (\<forall>j' < j. tiTypeIdHash (infos ! j') \<noteq> h))"
proof (induction infos arbitrary: i)
  case Nil
  then show ?case by simp
next
  case (Cons info infos)
  show ?case
  proof (cases "tiTypeIdHash info = h")
    case True
    then show ?thesis by (auto intro!: exI [of _ 0]) (metis gr0I nth_Cons_0)
  next
    case False
    show ?thesis
    proof
      assume "find_hash h i (info # infos) = Some k"
      then obtain j where "j < length infos" "k = Suc i + j" "tiTypeIdHash (infos ! j) = h"
        "\<forall>j' < j. tiTypeIdHash (infos ! j') \<noteq> h" using False Cons by auto
      then show "\<exists>j < length (info # infos). k = i + j \<and> tiTypeIdHash ((info # infos) ! j) = h
          \<and> (\<forall>j' < j. tiTypeIdHash ((info # infos) ! j') \<noteq> h)"
        using False by (intro exI [of _ "Suc j"]) (auto simp: less_Suc_eq_0_disj)
    next
      assume "\<exists>j < length (info # infos). k = i + j \<and> tiTypeIdHash ((info # infos) ! j) = h
          \<and> (\<forall>j' < j. tiTypeIdHash ((info # infos) ! j') \<noteq> h)"
      then obtain j where j: "j < length (info # infos)" "k = i + j" "tiTypeIdHash ((info # infos) ! j) = h"
        "\<forall>j' < j. tiTypeIdHash ((info # infos) ! j') \<noteq> h" by blast
      then obtain l where "j = Suc l" using False by (cases j) auto
      with j have "l < length infos \<and> k = Suc i + l \<and> tiTypeIdHash (infos ! l) = h
          \<and> (\<forall>j' < l. tiTypeIdHash (infos ! j') \<noteq> h)" by fastforce
      then show "find_hash h i (info # infos) = Some k" using False Cons by auto
    qed
  qed
qed

lemma find_hash_nth:
  assumes "distinct (map tiTypeIdHash infos)" "k < length infos"
  shows "find_hash (tiTypeIdHash (infos ! k)) i infos = Some (i + k)"
  using assms by (auto simp: find_hash_Some distinct_conv_nth)

text \<open>C7: the table of classes, and with it every class id and parent id, depends
  only on which classes are registered, not on the order in which the static initializers of the
  program ran: two programs with the same classes agree on the ids.\<close>

theorem class_ids_agree:
  assumes "mset (dbTypeInfoList db) = mset (dbTypeInfoList db')"
    and "distinct (map tiClassName (filter (\<lambda>info. \<not> tiAbstract info) (dbTypeInfoList db)))"
  shows "dbTypes (FinalizeList db) = dbTypes (FinalizeList db')"
proof -
  let ?f = "\<lambda>infos. filter (\<lambda>info. \<not> tiAbstract info) infos"
  have m: "mset (?f (dbTypeInfoList db)) = mset (?f (dbTypeInfoList db'))"
    using assms(1) by simp
  have "inj_on tiClassName (set (?f (dbTypeInfoList db)))" using assms(2) by (simp add: distinct_map)
  then have "registered (dbTypeInfoList db) = registered (dbTypeInfoList db')"
    unfolding registered_def using m by (intro sort_key_inj_key_eq) simp_all
  then show ?thesis by (simp add: FinalizeList_types class_table_def)
qed

text \<open>C38: in a finalized table of classes with different hashes, every registered class that
  is not abstract has an entry, the entries are sorted by name, an entry's id is its index, and
  \<^verbatim>\<open>GetClassId\<close> of its hash and \<^verbatim>\<open>GetTypeInfo\<close> of its id both lead to it.\<close>

theorem class_id_lookup:
  assumes "\<not> dbInitialized db" "info \<in> set (dbTypeInfoList db)" "\<not> tiAbstract info"
    and "distinct (map tiTypeIdHash (filter (\<lambda>info. \<not> tiAbstract info) (dbTypeInfoList db)))"
    and "length (dbTypeInfoList db) < 2 ^ 64"
  shows "\<exists>k info'. GetClassId (tiTypeIdHash info) db = Inr (of_nat k, FinalizeList db)
    \<and> GetTypeInfo (of_nat k) db = Inr (info', FinalizeList db)
    \<and> tiClassName info' = tiClassName info \<and> tiTypeIdHash info' = tiTypeIdHash info
    \<and> tiClassId info' = of_nat k \<and> k < length (dbTypes (FinalizeList db))
    \<and> sorted (map tiClassName (dbTypes (FinalizeList db)))"
proof -
  let ?all = "registered (dbTypeInfoList db)"
  let ?f = "filter (\<lambda>info. \<not> tiAbstract info) (dbTypeInfoList db)"
  have "info \<in> set ?all" using assms(2,3) by (simp add: registered_def)
  then obtain k where k: "k < length ?all" "?all ! k = info" by (auto simp: in_set_conv_nth)
  have "mset (map tiTypeIdHash ?all) = mset (map tiTypeIdHash ?f)" by (simp add: registered_def)
  then have d: "distinct (map tiTypeIdHash ?all)" using assms(4) mset_eq_imp_distinct_iff by blast
  have hs: "map tiTypeIdHash (class_table (dbTypeInfoList db)) = map tiTypeIdHash ?all"
    by (rule nth_equalityI) (simp_all add: class_table_nth)
  have ns: "map tiClassName (class_table (dbTypeInfoList db)) = map tiClassName ?all"
    by (rule nth_equalityI) (simp_all add: class_table_nth)
  have "find_hash (tiTypeIdHash (class_table (dbTypeInfoList db) ! k)) 0 (class_table (dbTypeInfoList db))
      = Some (0 + k)"
    by (rule find_hash_nth) (use d k hs in simp_all)
  then have fh: "find_hash (tiTypeIdHash info) 0 (class_table (dbTypeInfoList db)) = Some k"
    using k by (simp add: class_table_nth)
  have "length ?all \<le> length (dbTypeInfoList db)" by (simp add: registered_def)
  then have "unat (of_nat k :: u64) = k"
    using k(1) assms(5) by (simp add: unsigned_of_nat take_bit_nat_eq_self)
  then show ?thesis
    using assms(1) k fh ns
    by (intro exI [of _ k] exI [of _ "class_table (dbTypeInfoList db) ! k"])
      (simp add: GetClassId_def GetTypeInfo_def finalized_def FinalizeList_types class_table_nth
        registered_def Let_def)
qed

section \<open>Inheritance\<close>

text \<open>
  A registration as the macros and templates make it: no parent id yet; the type hashes of different classes
  differ; and the classes are ranked, a parent before its children, as C++ classes are. \<open>parent_of\<close> is what C++
  derives from what, of all the classes registered, abstract or not; \<open>derives\<close> is reflexive. \<open>concrete_parent_of\<close> are
  the steps that the table keeps.
\<close>

definition well_registered :: "(u64 \<Rightarrow> nat) \<Rightarrow> 'v NetTypeInfo list \<Rightarrow> bool" where
  "well_registered rank infos \<longleftrightarrow>
     (\<forall>info \<in> set infos. tiParentClassId info = NET_INVALID_CLASS_ID
        \<and> (tiParentIdHash info \<noteq> NET_INVALID_TYPE_HASH \<longrightarrow>
             rank (tiParentIdHash info) < rank (tiTypeIdHash info)))
     \<and> distinct (map tiTypeIdHash infos)
     \<and> length infos < 2 ^ 31 - 1"

definition parent_of :: "'v NetTypeInfo list \<Rightarrow> (u64 \<times> u64) set" where
  "parent_of infos = {(tiTypeIdHash info, tiParentIdHash info) | info.
     info \<in> set infos \<and> tiParentIdHash info \<noteq> NET_INVALID_TYPE_HASH}"

definition derives :: "'v NetTypeInfo list \<Rightarrow> u64 \<Rightarrow> u64 \<Rightarrow> bool" where
  "derives infos h h' \<longleftrightarrow> (h, h') \<in> (parent_of infos)\<^sup>*"

definition abstract_between :: "'v NetTypeInfo list \<Rightarrow> u64 \<Rightarrow> u64 \<Rightarrow> bool" where
  "abstract_between infos h h' \<longleftrightarrow>
     (\<exists>a \<in> set infos. tiAbstract a \<and> derives infos h (tiTypeIdHash a) \<and> derives infos (tiTypeIdHash a) h')"

definition concrete_parent_of :: "'v NetTypeInfo list \<Rightarrow> (u64 \<times> u64) set" where
  "concrete_parent_of infos = parent_of (filter (\<lambda>info. \<not> tiAbstract info) infos)"

lemma same_hash:
  assumes "well_registered rank infos" "x \<in> set infos" "y \<in> set infos" "tiTypeIdHash x = tiTypeIdHash y"
  shows "x = y"
proof -
  have "inj_on tiTypeIdHash (set infos)" using assms(1) by (simp add: well_registered_def distinct_map)
  then show ?thesis using assms(2-4) unfolding inj_on_def by blast
qed

lemma derives_rank:
  assumes "well_registered rank infos" "derives infos h h'"
  shows "h = h' \<or> rank h' < rank h"
  using assms(2) unfolding derives_def
proof (induction rule: converse_rtrancl_induct)
  case (step x z)
  then have "rank z < rank x" using assms(1) by (auto simp: parent_of_def well_registered_def)
  then show ?case using step.IH by auto
qed simp

lemma parent_unique:
  assumes "well_registered rank infos" "(x, y) \<in> parent_of infos" "(x, z) \<in> parent_of infos"
  shows "y = z"
proof -
  obtain a where a: "a \<in> set infos" "tiTypeIdHash a = x" "tiParentIdHash a = y" using assms(2) by (auto simp: parent_of_def)
  obtain b where b: "b \<in> set infos" "tiTypeIdHash b = x" "tiParentIdHash b = z" using assms(3) by (auto simp: parent_of_def)
  show ?thesis using same_hash [OF assms(1) a(1) b(1)] a b by simp
qed

text \<open>The chain of the table: it is broken where a class is abstract, and only there.\<close>

lemma concrete_chain:
  assumes w: "well_registered rank infos" and c: "y \<in> set infos" "\<not> tiAbstract y"
  shows "(h, tiTypeIdHash y) \<in> (concrete_parent_of infos)\<^sup>*
    \<longleftrightarrow> derives infos h (tiTypeIdHash y) \<and> \<not> abstract_between infos h (tiTypeIdHash y)"
proof
  assume "(h, tiTypeIdHash y) \<in> (concrete_parent_of infos)\<^sup>*"
  then show "derives infos h (tiTypeIdHash y) \<and> \<not> abstract_between infos h (tiTypeIdHash y)"
  proof (induction rule: converse_rtrancl_induct)
    case base
    have "\<not> abstract_between infos (tiTypeIdHash y) (tiTypeIdHash y)"
    proof
      assume "abstract_between infos (tiTypeIdHash y) (tiTypeIdHash y)"
      then obtain a where a: "a \<in> set infos" "tiAbstract a" "derives infos (tiTypeIdHash y) (tiTypeIdHash a)"
        "derives infos (tiTypeIdHash a) (tiTypeIdHash y)" by (auto simp: abstract_between_def)
      then have "tiTypeIdHash a = tiTypeIdHash y"
        using derives_rank [OF w a(3)] derives_rank [OF w a(4)] by (metis less_asym)
      then show False using same_hash [OF w a(1) c(1)] a(2) c(2) by simp
    qed
    then show ?case by (simp add: derives_def)
  next
    case (step x z)
    then obtain info where i: "info \<in> set infos" "\<not> tiAbstract info" "tiTypeIdHash info = x"
      by (auto simp: concrete_parent_of_def parent_of_def)
    have e: "(x, z) \<in> parent_of infos" using step.hyps(1) by (auto simp: concrete_parent_of_def parent_of_def)
    have "\<not> abstract_between infos x (tiTypeIdHash y)"
    proof
      assume "abstract_between infos x (tiTypeIdHash y)"
      then obtain a where a: "a \<in> set infos" "tiAbstract a" "derives infos x (tiTypeIdHash a)"
        "derives infos (tiTypeIdHash a) (tiTypeIdHash y)" by (auto simp: abstract_between_def)
      have "x \<noteq> tiTypeIdHash a" using same_hash [OF w i(1) a(1)] i a(2) by auto
      then obtain z' where "(x, z') \<in> parent_of infos" "derives infos z' (tiTypeIdHash a)"
        using a(3) unfolding derives_def by (metis converse_rtranclE)
      then have "derives infos z (tiTypeIdHash a)" using parent_unique [OF w e] by metis
      then show False using step.IH a by (auto simp: abstract_between_def)
    qed
    then show ?case using step.IH e by (auto simp: derives_def)
  qed
next
  assume "derives infos h (tiTypeIdHash y) \<and> \<not> abstract_between infos h (tiTypeIdHash y)"
  then have "(h, tiTypeIdHash y) \<in> (parent_of infos)\<^sup>*" "\<not> abstract_between infos h (tiTypeIdHash y)"
    by (simp_all add: derives_def)
  then show "(h, tiTypeIdHash y) \<in> (concrete_parent_of infos)\<^sup>*"
  proof (induction rule: converse_rtrancl_induct)
    case (step x z)
    then obtain info where i: "info \<in> set infos" "tiTypeIdHash info = x" "tiParentIdHash info = z"
        "z \<noteq> NET_INVALID_TYPE_HASH" by (auto simp: parent_of_def)
    have d: "derives infos x (tiTypeIdHash y)" using step.hyps by (simp add: derives_def)
    have "\<not> tiAbstract info" using step.prems d i by (auto simp: abstract_between_def derives_def)
    then have "(x, z) \<in> concrete_parent_of infos" using i by (auto simp: concrete_parent_of_def parent_of_def)
    moreover have "\<not> abstract_between infos z (tiTypeIdHash y)"
      using step.prems step.hyps(1) unfolding abstract_between_def derives_def
      by (meson converse_rtrancl_into_rtrancl)
    ultimately show ?case using step.IH by (meson converse_rtrancl_into_rtrancl)
  qed simp
qed

lemma registered_facts:
  assumes "well_registered rank infos"
  shows "distinct (map tiTypeIdHash (registered infos))" "length (registered infos) < 2 ^ 31 - 1"
    and "set (registered infos) = {info \<in> set infos. \<not> tiAbstract info}"
proof -
  have m: "mset (map tiTypeIdHash (registered infos)) =
      mset (map tiTypeIdHash (filter (\<lambda>info. \<not> tiAbstract info) infos))"
    by (simp add: registered_def)
  show "distinct (map tiTypeIdHash (registered infos))"
    using assms mset_eq_imp_distinct_iff [OF m] by (simp add: well_registered_def distinct_map_filter)
  have "length (registered infos) \<le> length infos" by (simp add: registered_def)
  then show "length (registered infos) < 2 ^ 31 - 1" using assms by (simp add: well_registered_def)
  show "set (registered infos) = {info \<in> set infos. \<not> tiAbstract info}" by (auto simp: registered_def)
qed

lemma class_id_small:
  assumes "k < 2 ^ 31 - 1"
  shows "unat (of_nat k :: u64) = k" "(of_nat k :: u64) \<noteq> NET_INVALID_CLASS_ID"
proof -
  show u: "unat (of_nat k :: u64) = k"
    using assms by (simp add: unsigned_of_nat take_bit_nat_eq_self)
  show "(of_nat k :: u64) \<noteq> NET_INVALID_CLASS_ID"
  proof
    assume "(of_nat k :: u64) = NET_INVALID_CLASS_ID"
    then have "unat (of_nat k :: u64) = unat NET_INVALID_CLASS_ID" by simp
    with u assms show False by simp
  qed
qed

lemma class_table_parent:
  assumes w: "well_registered rank infos" and k: "k < length (registered infos)"
  shows "(tiParentClassId (class_table infos ! k) = NET_INVALID_CLASS_ID
      \<and> (\<forall>h. h \<in> tiTypeIdHash ` set (registered infos) \<longrightarrow>
           (tiTypeIdHash (registered infos ! k), h) \<notin> concrete_parent_of infos))
    \<or> (\<exists>p < length (registered infos). tiParentClassId (class_table infos ! k) = of_nat p
      \<and> tiParentIdHash (registered infos ! k) = tiTypeIdHash (registered infos ! p)
      \<and> (tiTypeIdHash (registered infos ! k), tiTypeIdHash (registered infos ! p)) \<in> concrete_parent_of infos)"
proof -
  let ?x = "registered infos ! k"
  note f = registered_facts [OF w]
  have x: "?x \<in> set infos" "\<not> tiAbstract ?x" "tiParentClassId ?x = NET_INVALID_CLASS_ID"
    using nth_mem [OF k] f(3) w by (auto simp: well_registered_def)
  have only: "tiParentIdHash y = tiParentIdHash ?x" if "y \<in> set infos" "\<not> tiAbstract y"
      "tiTypeIdHash y = tiTypeIdHash ?x" for y
  proof -
    from that f(3) obtain l where "l < length (registered infos)" "registered infos ! l = y"
      by (metis (mono_tags, lifting) in_set_conv_nth mem_Collect_eq)
    with that(3) k f(1) have "l = k" by (simp add: distinct_conv_nth) (metis (full_types))
    with \<open>registered infos ! l = y\<close> show ?thesis by simp
  qed
  show ?thesis
  proof (cases "tiParentIdHash ?x = NET_INVALID_TYPE_HASH")
    case True
    have "(tiTypeIdHash ?x, h) \<notin> concrete_parent_of infos" for h
    proof
      assume "(tiTypeIdHash ?x, h) \<in> concrete_parent_of infos"
      then obtain info where "info \<in> set infos" "\<not> tiAbstract info" "tiTypeIdHash info = tiTypeIdHash ?x"
        "tiParentIdHash info \<noteq> NET_INVALID_TYPE_HASH" by (auto simp: concrete_parent_of_def parent_of_def)
      with only [of info] True show False by simp
    qed
    with True x(3) k show ?thesis by (simp add: class_table_nth finalize_info_def)
  next
    case False
    show ?thesis
    proof (cases "find_hash (tiParentIdHash ?x) 0 (registered infos)")
      case None
      have "tiParentIdHash ?x \<notin> tiTypeIdHash ` set (registered infos)"
      proof
        assume "tiParentIdHash ?x \<in> tiTypeIdHash ` set (registered infos)"
        then obtain p where "p < length (registered infos)" "tiTypeIdHash (registered infos ! p) = tiParentIdHash ?x"
          by (metis (no_types, lifting) image_iff in_set_conv_nth)
        with find_hash_nth [OF f(1)] None show False by (metis option.distinct(1))
      qed
      moreover have "h = tiParentIdHash ?x" if "(tiTypeIdHash ?x, h) \<in> concrete_parent_of infos" for h
        using that only by (auto simp: concrete_parent_of_def parent_of_def)
      ultimately show ?thesis
        using None x(3) k False by (auto simp: class_table_nth finalize_info_def Let_def)
    next
      case (Some p)
      then have p: "p < length (registered infos)" "tiTypeIdHash (registered infos ! p) = tiParentIdHash ?x"
        by (auto simp: find_hash_Some)
      moreover have "(tiTypeIdHash ?x, tiParentIdHash ?x) \<in> concrete_parent_of infos"
        using x False by (auto simp: concrete_parent_of_def parent_of_def)
      ultimately show ?thesis
        using Some k False by (auto simp: class_table_nth finalize_info_def Let_def)
    qed
  qed
qed

lemma InheritsFrom_table:
  assumes w: "well_registered rank infos" and db: "dbTypes db = class_table infos"
    and "i < length (registered infos)" "j < length (registered infos)"
  shows "InheritsFrom db (of_nat i) (of_nat j) = Some (Inr
    ((tiTypeIdHash (registered infos ! i), tiTypeIdHash (registered infos ! j)) \<in> (concrete_parent_of infos)\<^sup>*))"
  using assms(3)
proof (induction "rank (tiTypeIdHash (registered infos ! i))" arbitrary: i rule: less_induct)
  case less
  let ?h = "\<lambda>k. tiTypeIdHash (registered infos ! k)"
  note f = registered_facts [OF w]
  have small: "k < 2 ^ 31 - 1" if "k < length (registered infos)" for k
    using that f(2) by linarith
  note ci = class_id_small [OF small [OF less.prems]] and cj = class_id_small [OF small [OF assms(4)]]
  have eq: "(of_nat i :: u64) = of_nat j \<longleftrightarrow> i = j" using ci(1) cj(1) by metis
  have inj: "?h i = ?h j \<longleftrightarrow> i = j"
    using f(1) less.prems assms(4) by (auto simp: distinct_conv_nth)
  show ?case
  proof (cases "i = j")
    case True
    then show ?thesis using cj(2) by (subst InheritsFrom.simps) simp
  next
    case False
    have step: "InheritsFrom db (of_nat i) (of_nat j) =
        InheritsFrom db (tiParentClassId (class_table infos ! i)) (of_nat j)"
      using False eq ci less.prems by (subst InheritsFrom.simps) (simp add: db)
    from class_table_parent [OF w less.prems] show ?thesis
    proof
      assume a: "tiParentClassId (class_table infos ! i) = NET_INVALID_CLASS_ID
        \<and> (\<forall>h. h \<in> tiTypeIdHash ` set (registered infos) \<longrightarrow> (?h i, h) \<notin> concrete_parent_of infos)"
      have "(?h i, ?h j) \<notin> (concrete_parent_of infos)\<^sup>*"
      proof
        assume "(?h i, ?h j) \<in> (concrete_parent_of infos)\<^sup>*"
        then obtain y where y: "(?h i, y) \<in> concrete_parent_of infos" "(y, ?h j) \<in> (concrete_parent_of infos)\<^sup>*"
          using False inj by (metis converse_rtranclE)
        have "y \<in> tiTypeIdHash ` set (registered infos)"
        proof (cases "y = ?h j")
          case True
          then show ?thesis using assms(4) by simp
        next
          case False
          then obtain z where "(y, z) \<in> concrete_parent_of infos" using y(2) by (metis converse_rtranclE)
          then show ?thesis by (auto simp: concrete_parent_of_def parent_of_def f(3))
        qed
        with a y(1) show False by blast
      qed
      then show ?thesis using step a by (subst (asm) InheritsFrom.simps) simp
    next
      assume "\<exists>p < length (registered infos). tiParentClassId (class_table infos ! i) = of_nat p
        \<and> tiParentIdHash (registered infos ! i) = ?h p \<and> (?h i, ?h p) \<in> concrete_parent_of infos"
      then obtain p where p: "p < length (registered infos)"
        "tiParentClassId (class_table infos ! i) = of_nat p"
        "tiParentIdHash (registered infos ! i) = ?h p" "(?h i, ?h p) \<in> concrete_parent_of infos" by blast
      have unique: "y = ?h p" if "(?h i, y) \<in> concrete_parent_of infos" for y
      proof -
        from that obtain x where x: "x \<in> set (registered infos)" "tiTypeIdHash x = ?h i" "y = tiParentIdHash x"
          by (auto simp: concrete_parent_of_def parent_of_def f(3))
        then obtain l where "l < length (registered infos)" "registered infos ! l = x"
          by (auto simp: in_set_conv_nth)
        with x f(1) less.prems have "x = registered infos ! i"
          by (metis distinct_conv_nth length_map nth_map)
        with x p(3) show ?thesis by simp
      qed
      have "rank (?h p) < rank (?h i)"
        using p(3,4) w less.prems f(3) nth_mem [OF less.prems]
        by (auto simp: well_registered_def concrete_parent_of_def parent_of_def)
      from less.hyps [OF this p(1)] step p(2) have
        "InheritsFrom db (of_nat i) (of_nat j) = Some (Inr ((?h p, ?h j) \<in> (concrete_parent_of infos)\<^sup>*))" by simp
      moreover have "(?h i, ?h j) \<in> (concrete_parent_of infos)\<^sup>* \<longleftrightarrow> (?h p, ?h j) \<in> (concrete_parent_of infos)\<^sup>*"
        using p(4) False inj unique by (metis converse_rtranclE converse_rtrancl_into_rtrancl)
      ultimately show ?thesis by simp
    qed
  qed
qed

text \<open>An abstract class has no entry, so the chain of a class that derives from a concrete one through an abstract
  one ends early: \<^verbatim>\<open>InheritsFrom\<close> denies the derivation.\<close>

lemma InheritsFrom_exact:
  assumes w: "well_registered rank (dbTypeInfoList db)"
    and ij: "i < length (dbTypes (FinalizeList db))" "j < length (dbTypes (FinalizeList db))"
  shows "InheritsFrom (FinalizeList db) (of_nat i) (of_nat j) = Some (Inr
    (derives (dbTypeInfoList db) (tiTypeIdHash (dbTypes (FinalizeList db) ! i)) (tiTypeIdHash (dbTypes (FinalizeList db) ! j))
      \<and> \<not> abstract_between (dbTypeInfoList db) (tiTypeIdHash (dbTypes (FinalizeList db) ! i))
          (tiTypeIdHash (dbTypes (FinalizeList db) ! j))))"
proof -
  let ?infos = "dbTypeInfoList db"
  have l: "i < length (registered ?infos)" "j < length (registered ?infos)" using ij by (simp_all add: FinalizeList_types)
  have j: "registered ?infos ! j \<in> set ?infos" "\<not> tiAbstract (registered ?infos ! j)"
    using nth_mem [OF l(2)] registered_facts(3) [OF w] by auto
  show ?thesis
    using InheritsFrom_table [OF w FinalizeList_types l] concrete_chain [OF w j] l
    by (simp add: FinalizeList_types class_table_nth)
qed

lemma InheritsFrom_denies:
  assumes "well_registered rank (dbTypeInfoList db)"
    and "i < length (dbTypes (FinalizeList db))" "j < length (dbTypes (FinalizeList db))"
    and "abstract_between (dbTypeInfoList db) (tiTypeIdHash (dbTypes (FinalizeList db) ! i))
      (tiTypeIdHash (dbTypes (FinalizeList db) ! j))"
  shows "InheritsFrom (FinalizeList db) (of_nat i) (of_nat j) = Some (Inr False)"
  using InheritsFrom_exact [OF assms(1-3)] assms(4) by simp

text \<open>C37: for classes registered as C++ classes can be, the loop of \<^verbatim>\<open>InheritsFrom\<close> ends for any two class ids of the
  table and stays inside it. It says yes exactly if the first class is the second or derives from it, by the
  derivation among all registered classes, and no abstract class lies between them: a class that derives from a
  concrete one through an abstract one is denied.\<close>

theorem InheritsFrom_terminates:
  assumes "well_registered rank (dbTypeInfoList db)"
    and "i < length (dbTypes (FinalizeList db))" "j < length (dbTypes (FinalizeList db))"
  shows "InheritsFrom (FinalizeList db) (of_nat i) (of_nat j) = Some (Inr
    (derives (dbTypeInfoList db) (tiTypeIdHash (dbTypes (FinalizeList db) ! i)) (tiTypeIdHash (dbTypes (FinalizeList db) ! j))
      \<and> \<not> abstract_between (dbTypeInfoList db) (tiTypeIdHash (dbTypes (FinalizeList db) ! i))
          (tiTypeIdHash (dbTypes (FinalizeList db) ! j))))"
  by (rule InheritsFrom_exact [OF assms])

section \<open>The default class\<close>

lemma finalize_loop_default:
  assumes "\<forall>info \<in> set infos. tiTypeNameHash info = 0"
  shows "(dbDefaultTypeNameHash db \<noteq> 0 \<longrightarrow>
      dbDefaultTypeInfo (finalize_loop all_reg i infos db) = dbDefaultTypeInfo db)
    \<and> (dbDefaultTypeNameHash db = 0 \<longrightarrow> infos \<noteq> [] \<longrightarrow>
      dbDefaultTypeInfo (finalize_loop all_reg i infos db)
        = Some (finalize_info all_reg (i + length infos - 1) (last infos))
      \<and> dbDefaultTypeClassId (finalize_loop all_reg i infos db) = of_nat (length (dbTypes db) + length infos - 1))"
  using assms
proof (induction infos arbitrary: i db)
  case Nil
  then show ?case by simp
next
  case (Cons info infos)
  let ?info = "finalize_info all_reg i info"
  let ?db = "(if ucast (tiTypeNameHash ?info) = dbDefaultTypeNameHash db
      then db\<lparr>dbDefaultTypeInfo := Some ?info, dbDefaultTypeClassId := of_nat (length (dbTypes db))\<rparr>
      else db)\<lparr>dbTypes := dbTypes db @ [?info]\<rparr>"
  have e: "finalize_loop all_reg i (info # infos) db = finalize_loop all_reg (Suc i) infos ?db"
    by (simp add: Let_def)
  show ?case
  proof (cases "infos = []")
    case True
    then show ?thesis using Cons.prems by (simp add: Let_def)
  next
    case False
    with Cons.IH [of ?db "Suc i"] Cons.prems show ?thesis unfolding e by (auto simp: Let_def)
  qed
qed

text \<open>Classes registered by \<^verbatim>\<open>NetRegisterAllTypes\<close> have no name hash. The
  default class is then not the one registered first, as it is with the macros, but the last by
  name; and once \<^verbatim>\<open>NET_SET_DEFAULT_TYPE\<close> has asked for a class by the hash of its name, there is no
  default class at all, and default-constructing an object calls through a null pointer.\<close>

theorem default_class_unnamed:
  assumes "\<forall>info \<in> set (dbTypeInfoList db). \<exists>R. tiTypeNameHash info = tiTypeNameHash (NetInitializeTypeRegistration R)"
    and "registered (dbTypeInfoList db) \<noteq> []" "dbDefaultTypeInfo db = None"
  shows "(dbDefaultTypeNameHash db = 0 \<longrightarrow>
      dbDefaultTypeInfo (FinalizeList db) = Some (last (dbTypes (FinalizeList db)))
      \<and> dbDefaultTypeClassId (FinalizeList db) = of_nat (length (dbTypes (FinalizeList db)) - 1))
    \<and> (dbDefaultTypeNameHash db \<noteq> 0 \<longrightarrow> dbDefaultTypeInfo (FinalizeList db) = None)"
proof -
  let ?all = "registered (dbTypeInfoList db)"
  have z: "\<forall>info \<in> set ?all. tiTypeNameHash info = 0"
    using assms(1) by (auto simp: registered_def NetInitializeTypeRegistration_def)
  have l: "last (class_table (dbTypeInfoList db)) = finalize_info ?all (length ?all - 1) (last ?all)"
  proof -
    have "class_table (dbTypeInfoList db) \<noteq> []" using assms(2) by (metis length_class_table length_0_conv)
    then show ?thesis
      using assms(2) class_table_nth [of "length ?all - 1" "dbTypeInfoList db"] by (simp add: last_conv_nth)
  qed
  show ?thesis
    using finalize_loop_default [OF z, of "db\<lparr>dbTypes := []\<rparr>" ?all 0] assms(2,3) l
    by (simp add: FinalizeList_types) (simp add: FinalizeList_def Let_def)
qed

section \<open>Concrete classes\<close>

definition class_entry :: "string \<Rightarrow> u32 \<Rightarrow> u64 \<Rightarrow> u64 \<Rightarrow> bool NetTypeInfo" where
  "class_entry name name_hash type_hash parent_hash =
     \<lparr>tiClassName = name, tiTypeNameHash = name_hash, tiTypeIdHash = type_hash,
      tiParentIdHash = parent_hash, tiParentClassId = NET_INVALID_CLASS_ID, tiClassId = 0,
      tiAllocator = Some (unat type_hash), tiAbstract = False, tiNew = Some False,
      tiSerialize = NetSerializer_bool True,
      tiSerializeDelta = NetSerializeDeltaType (=) (NetSerializer_bool True), tiDeserialize = NetDeserializer_bool,
      tiDeserializeDelta = NetDeserializeDeltaType NetDeserializer_bool, tiCompare = (=)\<rparr>"

abbreviation shapes :: "bool NetTypeInfo list" where
  "shapes \<equiv> [class_entry ''Square'' 11 7 3, class_entry ''Shape'' 12 3 0]"

theorem class_ids_agree_witness:
  "dbTypes (FinalizeList (NetTypeDatabase_init shapes)) = dbTypes (FinalizeList (NetTypeDatabase_init (rev shapes)))"
  by (rule class_ids_agree) (simp_all add: NetTypeDatabase_init_def class_entry_def)

theorem class_id_lookup_witness:
  "\<exists>k. GetClassId 7 (NetTypeDatabase_init shapes) = Inr (of_nat k, FinalizeList (NetTypeDatabase_init shapes))
    \<and> k < length (dbTypes (FinalizeList (NetTypeDatabase_init shapes)))"
  using class_id_lookup [of "NetTypeDatabase_init shapes" "class_entry ''Square'' 11 7 3"]
  by (auto simp: NetTypeDatabase_init_def class_entry_def)

text \<open>A square is a shape; a cube is a solid, which is an abstract shape.\<close>

abbreviation solids :: "bool NetTypeInfo list" where
  "solids \<equiv> (class_entry ''Cube'' 13 8 4) # (class_entry ''Solid'' 14 4 3)\<lparr>tiAbstract := True\<rparr> # shapes"

lemma solids_registered:
  "well_registered (\<lambda>h. if h = 8 then 2 else if h = 3 then 0 else 1) (dbTypeInfoList (NetTypeDatabase_init solids))"
  by (simp add: well_registered_def class_entry_def NetTypeDatabase_init_def)

lemma solids_types:
  "map tiTypeIdHash (dbTypes (FinalizeList (NetTypeDatabase_init solids))) = [8, 3, 7]"
  by (simp add: FinalizeList_types NetTypeDatabase_init_def class_table_def registered_def class_entry_def)

lemma parent_of_Cons:
  "parent_of [] = {}"
  "parent_of (info # infos) = (if tiParentIdHash info \<noteq> NET_INVALID_TYPE_HASH
     then insert (tiTypeIdHash info, tiParentIdHash info) (parent_of infos) else parent_of infos)"
  by (auto simp: parent_of_def)

lemma solids_parents: "parent_of solids = {(8, 4), (4, 3), (7, 3)}"
  by (simp add: parent_of_Cons class_entry_def)

text \<open>The square inherits from the shape; the cube does too in C++, but \<^verbatim>\<open>InheritsFrom\<close> denies it.\<close>

theorem InheritsFrom_terminates_witness:
  "InheritsFrom (FinalizeList (NetTypeDatabase_init solids)) (of_nat 2) (of_nat 1) = Some (Inr True)
    \<and> InheritsFrom (FinalizeList (NetTypeDatabase_init solids)) (of_nat 0) (of_nat 1) = Some (Inr False)
    \<and> derives solids 8 3"
proof -
  let ?db = "NetTypeDatabase_init solids"
  have l: "length (dbTypes (FinalizeList ?db)) = 3" using arg_cong [OF solids_types, of length] by simp
  have h: "tiTypeIdHash (dbTypes (FinalizeList ?db) ! k) = [8, 3, 7] ! k" if "k < 3" for k
    using that l nth_map [of k "dbTypes (FinalizeList ?db)" tiTypeIdHash] solids_types by simp
  have n: "dbTypeInfoList ?db = solids" by (simp_all add: NetTypeDatabase_init_def)
  have d: "derives solids 7 3" "derives solids 8 4" "derives solids 4 3" "derives solids 8 3"
    unfolding derives_def solids_parents
    by (auto intro: converse_rtrancl_into_rtrancl)
  have "x \<in> {7, 3}" if "derives solids 7 x" for x
    using that unfolding derives_def solids_parents by (induction rule: rtrancl_induct) auto
  then have "\<not> abstract_between solids 7 3" by (force simp: abstract_between_def class_entry_def)
  moreover have "abstract_between solids 8 3" using d by (auto simp: abstract_between_def class_entry_def)
  ultimately show ?thesis
    using InheritsFrom_terminates [OF solids_registered, of 2 1]
      InheritsFrom_terminates [OF solids_registered, of 0 1] l h [of 0] h [of 1] h [of 2] d n
    by simp
qed

theorem default_class_unnamed_witness:
  "dbDefaultTypeInfo (FinalizeList ((NetTypeDatabase_init
      (map NetInitializeTypeRegistration shapes))\<lparr>dbDefaultTypeNameHash := 12\<rparr>)) = None"
  using default_class_unnamed [of "(NetTypeDatabase_init
      (map NetInitializeTypeRegistration shapes))\<lparr>dbDefaultTypeNameHash := 12\<rparr>"]
  by (force simp: NetTypeDatabase_init_def registered_def class_entry_def NetInitializeTypeRegistration_def)

end
