(* ===== verification/Polymorphic.thy ===== *)
theory Polymorphic
  imports TypeDatabase
begin

text \<open>
  \<^verbatim>\<open>NetReflectionPolymorphic.h\<close>: an owned object of any class of a type database, with the id and
  the type hash of its class, and its four serializers.

  An object on the heap carries the allocator it came from: the pool of its class, or
  \<^verbatim>\<open>operator new\<close> (\<open>None\<close>). Giving it back to another one runs another class's destructor on it and
  puts its memory into another class's pool, which is undefined.
\<close>

section \<open>Objects on the heap\<close>

record 'v heap_object =
  obValue :: 'v
  obAllocator :: "nat option"

definition HeapCreate :: "'v NetTypeInfo \<Rightarrow> 'v heap_object option" where
  "HeapCreate info =
     (case tiNew info of None \<Rightarrow> None
      | Some v \<Rightarrow> Some \<lparr>obValue = v, obAllocator = tiAllocator info\<rparr>)"

text \<open>The function of an abstract class does nothing.\<close>

definition HeapDestroy :: "'v NetTypeInfo \<Rightarrow> 'v heap_object option \<Rightarrow> unit result" where
  "HeapDestroy info ptr =
     (if tiAbstract info then Inr ()
      else case ptr of
        None \<Rightarrow> Inl Undefined
      | Some ob \<Rightarrow> if tiAllocator info \<noteq> None \<and> obAllocator ob = tiAllocator info then Inr () else Inl Undefined)"

definition deref :: "'v heap_object option \<Rightarrow> 'v result" where
  "deref ptr = (case ptr of None \<Rightarrow> Inl Undefined | Some ob \<Rightarrow> Inr (obValue ob))"

definition store_value :: "'v heap_object option \<Rightarrow> 'v \<Rightarrow> 'v heap_object option" where
  "store_value ptr v = map_option (\<lambda>ob. ob\<lparr>obValue := v\<rparr>) ptr"

definition type_info :: "'v NetTypeDatabase \<Rightarrow> u64 \<Rightarrow> 'v NetTypeInfo result" where
  "type_info db class_id = ebind (GetTypeInfo class_id db) (\<lambda>(info, _). Inr info)"

section \<open>Construction and assignment\<close>

record 'v NetPolymorphic =
  poPtr :: "'v heap_object option"
  poClassId :: u64
  poTypeHash :: u64

text \<open>The default constructor; \<open>base_hash\<close> is \<^verbatim>\<open>typeid(BaseClass).hash_code()\<close>. Without a default
  class it calls a null function pointer.\<close>

definition Polymorphic_init :: "'v NetTypeDatabase \<Rightarrow> u64 \<Rightarrow> 'v NetPolymorphic result" where
  "Polymorphic_init db base_hash =
     (case fst (GetDefaultTypeInfo db) of
        None \<Rightarrow> Inl Undefined
      | Some info \<Rightarrow> Inr \<lparr>poPtr = HeapCreate info, poClassId = GetDefaultClassId (finalized db),
          poTypeHash = base_hash\<rparr>)"

definition Polymorphic_of_type :: "'v NetTypeDatabase \<Rightarrow> u64 \<Rightarrow> 'v NetPolymorphic result" where
  "Polymorphic_of_type db type_hash =
     ebind (GetClassId type_hash db) (\<lambda>(class_id, _).
     ebind (type_info db class_id) (\<lambda>info.
       Inr \<lparr>poPtr = HeapCreate info, poClassId = class_id, poTypeHash = tiTypeIdHash info\<rparr>))"

definition Polymorphic_copy :: "'v NetTypeDatabase \<Rightarrow> 'v NetPolymorphic \<Rightarrow> 'v NetPolymorphic result" where
  "Polymorphic_copy db rhs =
     ebind (type_info db (poClassId rhs)) (\<lambda>info.
     ebind (deref (HeapCreate info)) (\<lambda>_.
     ebind (deref (poPtr rhs)) (\<lambda>v.
       Inr \<lparr>poPtr = store_value (HeapCreate info) v, poClassId = poClassId rhs,
         poTypeHash = poTypeHash rhs\<rparr>)))"

definition Polymorphic_of_data :: "'v NetTypeDatabase \<Rightarrow> u64 \<Rightarrow> 'v \<Rightarrow> 'v NetPolymorphic result" where
  "Polymorphic_of_data db class_id v =
     ebind (type_info db class_id) (\<lambda>info.
     ebind (deref (HeapCreate info)) (\<lambda>_.
       Inr \<lparr>poPtr = store_value (HeapCreate info) v, poClassId = class_id,
         poTypeHash = tiTypeIdHash info\<rparr>))"

text \<open>From a value of a derived class, copied or moved: \<^verbatim>\<open>new DataType(rhs)\<close>, not the pool.\<close>

definition Polymorphic_of_value :: "'v NetTypeDatabase \<Rightarrow> u64 \<Rightarrow> 'v \<Rightarrow> 'v NetPolymorphic result" where
  "Polymorphic_of_value db type_hash v =
     ebind (GetClassId type_hash db) (\<lambda>(class_id, _).
     ebind (type_info db class_id) (\<lambda>info.
       Inr \<lparr>poPtr = Some \<lparr>obValue = v, obAllocator = None\<rparr>, poClassId = tiClassId info,
         poTypeHash = tiTypeIdHash info\<rparr>))"

definition Polymorphic_destroy :: "'v NetTypeDatabase \<Rightarrow> 'v NetPolymorphic \<Rightarrow> unit result" where
  "Polymorphic_destroy db p = ebind (type_info db (poClassId p)) (\<lambda>info. HeapDestroy info (poPtr p))"

text \<open>In a self-assignment (\<open>rhs = None\<close>) \<^verbatim>\<open>rhs.m_Ptr\<close> is the new object already.\<close>

definition Polymorphic_assign ::
    "'v NetTypeDatabase \<Rightarrow> 'v NetPolymorphic \<Rightarrow> 'v NetPolymorphic option \<Rightarrow> 'v NetPolymorphic result" where
  "Polymorphic_assign db this rhs =
     ebind (type_info db (poClassId this)) (\<lambda>info.
     ebind (HeapDestroy info (poPtr this)) (\<lambda>_.
     let other = (case rhs of None \<Rightarrow> this | Some p \<Rightarrow> p) in
     ebind (type_info db (poClassId other)) (\<lambda>new_info.
     let ptr = HeapCreate new_info in
     ebind (deref ptr) (\<lambda>_.
     ebind (deref (case rhs of None \<Rightarrow> ptr | Some p \<Rightarrow> poPtr p)) (\<lambda>v.
       Inr \<lparr>poPtr = store_value ptr v, poClassId = poClassId other, poTypeHash = poTypeHash other\<rparr>)))))"

definition Polymorphic_eq :: "'v NetTypeDatabase \<Rightarrow> 'v NetPolymorphic \<Rightarrow> 'v NetPolymorphic \<Rightarrow> bool result" where
  "Polymorphic_eq db p rhs =
     (if poClassId p \<noteq> poClassId rhs then Inr False
      else ebind (type_info db (poClassId p)) (\<lambda>info.
        ebind (deref (poPtr p)) (\<lambda>v. ebind (deref (poPtr rhs)) (\<lambda>v'. Inr (tiCompare info v v')))))"

text \<open>\<^verbatim>\<open>SetType\<close> destroys the old object with the information of the new class.\<close>

definition Polymorphic_SetType ::
    "'v NetTypeDatabase \<Rightarrow> u64 \<Rightarrow> bool \<Rightarrow> 'v NetPolymorphic \<Rightarrow> 'v NetPolymorphic result" where
  "Polymorphic_SetType db class_id force p =
     (if class_id = poClassId p \<and> \<not> force then Inr p
      else ebind (type_info db class_id) (\<lambda>info.
        ebind (if poPtr p \<noteq> None then HeapDestroy info (poPtr p) else Inr ()) (\<lambda>_.
          Inr \<lparr>poPtr = HeapCreate info, poClassId = class_id, poTypeHash = tiTypeIdHash info\<rparr>)))"

definition Polymorphic_SetType_of ::
    "'v NetTypeDatabase \<Rightarrow> u64 \<Rightarrow> bool \<Rightarrow> 'v NetPolymorphic \<Rightarrow> 'v NetPolymorphic result" where
  "Polymorphic_SetType_of db type_hash force p =
     ebind (GetClassId type_hash db) (\<lambda>(class_id, _). Polymorphic_SetType db class_id force p)"

definition Polymorphic_Is :: "u64 \<Rightarrow> 'v NetPolymorphic \<Rightarrow> bool" where
  "Polymorphic_Is type_hash p \<longleftrightarrow> poTypeHash p = type_hash"

text \<open>\<^verbatim>\<open>Get<T>\<close>: the object, or a null pointer if its class does not derive from \<^verbatim>\<open>T\<close>; the outer
  \<open>option\<close> is the end of the loop of \<^verbatim>\<open>InheritsFrom\<close>.\<close>

definition Polymorphic_Get ::
    "'v NetTypeDatabase \<Rightarrow> u64 \<Rightarrow> 'v NetPolymorphic \<Rightarrow> 'v heap_object option result option" where
  "Polymorphic_Get db type_hash p =
     (case GetClassId type_hash db of
        Inl e \<Rightarrow> Some (Inl e)
      | Inr (base_class_id, db) \<Rightarrow>
          map_option (\<lambda>res. ebind res (\<lambda>b. Inr (if b then poPtr p else None)))
            (InheritsFrom db (poClassId p) base_class_id))"

section \<open>Serializers\<close>

definition NetSerializer_Polymorphic ::
    "bool \<Rightarrow> 'v NetTypeDatabase \<Rightarrow> 'v NetPolymorphic serializer" where
  "NetSerializer_Polymorphic dbg db val w =
     ebind (type_info db (poClassId val)) (\<lambda>info.
     ebind (WriteBits dbg (poClassId val)
       (int (GetRequiredBits U64 (conv U64 (int (fst (GetNumTypes db)) - 1)))) w) (\<lambda>w.
     ebind (deref (poPtr val)) (\<lambda>v. tiSerialize info v w)))"

definition NetSerializerDelta_Polymorphic ::
    "bool \<Rightarrow> 'v NetTypeDatabase \<Rightarrow> 'v NetPolymorphic delta_serializer" where
  "NetSerializerDelta_Polymorphic dbg db to src w =
     (if poClassId to \<noteq> poClassId src then
        ebind (WriteBits dbg 1 1 w) (\<lambda>w.
        ebind (NetSerializer_Polymorphic dbg db to w) (\<lambda>w. Inr (True, w)))
      else
        ebind (Reserve dbg 1 w) (\<lambda>(cursor, w).
        ebind (type_info db (poClassId to)) (\<lambda>info.
        ebind (deref (poPtr to)) (\<lambda>v.
        ebind (deref (poPtr src)) (\<lambda>u.
        ebind (tiSerializeDelta info v u w) (\<lambda>(changed, w).
          if changed then ebind (CursorWriteBits dbg 0 1 cursor w) (\<lambda>(_, w). Inr (True, w))
          else ebind (RollBack cursor w) (\<lambda>w. Inr (False, w))))))))"

definition NetDeserializer_Polymorphic :: "'v NetTypeDatabase \<Rightarrow> 'v NetPolymorphic deserializer" where
  "NetDeserializer_Polymorphic db val r =
     ebind (ReadUBits (int (GetRequiredBits U64 (conv U64 (int (fst (GetNumTypes db)) - 1)))) r) (\<lambda>(class_id, r).
     ebind (Polymorphic_SetType db class_id False val) (\<lambda>val.
     ebind (type_info db (poClassId val)) (\<lambda>info.
     ebind (deref (poPtr val)) (\<lambda>v.
     ebind (tiDeserialize info v r) (\<lambda>(v, r).
       Inr (val\<lparr>poPtr := store_value (poPtr val) v\<rparr>, r))))))"

definition NetDeserializerDelta_Polymorphic :: "'v NetTypeDatabase \<Rightarrow> 'v NetPolymorphic deserializer" where
  "NetDeserializerDelta_Polymorphic db val r =
     ebind (ReadUBits 1 r) (\<lambda>(change_class, r).
       if change_class \<noteq> 0 then NetDeserializer_Polymorphic db val r
       else
         ebind (type_info db (poClassId val)) (\<lambda>info.
         ebind (deref (poPtr val)) (\<lambda>v.
         ebind (tiDeserializeDelta info v r) (\<lambda>(v, r).
           Inr (val\<lparr>poPtr := store_value (poPtr val) v\<rparr>, r)))))"

section \<open>Well-formed objects\<close>

text \<open>
  A finalized database of concrete classes: every class can be created, has a pool of its own, and
  serializers that keep their contract (\<open>Ss\<close>).
\<close>

definition class_ok :: "'v NetTypeInfo \<Rightarrow> 'v field_spec \<Rightarrow> bool" where
  "class_ok info S \<longleftrightarrow> element_codec (tiSerialize info) (tiDeserialize info) (sWf S) (sObj S) (sEnc S)
     (tiSerializeDelta info) (tiDeserializeDelta info) (sDenc S)
     \<and> \<not> tiAbstract info \<and> (\<exists>v. tiNew info = Some v \<and> sObj S v) \<and> tiAllocator info \<noteq> None"

definition database_ok :: "'v NetTypeDatabase \<Rightarrow> 'v field_spec list \<Rightarrow> bool" where
  "database_ok db Ss \<longleftrightarrow> dbInitialized db \<and> list_all2 class_ok (dbTypes db) Ss
     \<and> dbTypes db \<noteq> [] \<and> length (dbTypes db) < 2 ^ 31 \<and> distinct (map tiAllocator (dbTypes db))
     \<and> (\<forall>k < length (dbTypes db). tiClassId (dbTypes db ! k) = of_nat k)"

text \<open>The pointer owns an object of the class it says, from that class's pool.\<close>

definition typed :: "'v NetTypeDatabase \<Rightarrow> nat \<Rightarrow> 'v \<Rightarrow> 'v NetPolymorphic \<Rightarrow> bool" where
  "typed db k v p \<longleftrightarrow> k < length (dbTypes db) \<and> poClassId p = of_nat k
     \<and> poTypeHash p = tiTypeIdHash (dbTypes db ! k)
     \<and> poPtr p = Some \<lparr>obValue = v, obAllocator = tiAllocator (dbTypes db ! k)\<rparr>"

lemma class_index:
  assumes "database_ok db Ss" "k < length (dbTypes db)"
  shows "unat (of_nat k :: u64) = k" "type_info db (of_nat k) = Inr (dbTypes db ! k)"
    "class_ok (dbTypes db ! k) (Ss ! k)"
proof -
  have "k < 2 ^ 31" using assms by (auto simp: database_ok_def)
  then show u: "unat (of_nat k :: u64) = k" by (simp add: unsigned_of_nat take_bit_nat_eq_self)
  show "type_info db (of_nat k) = Inr (dbTypes db ! k)"
    using assms u by (simp add: type_info_def GetTypeInfo_def finalized_def database_ok_def)
  show "class_ok (dbTypes db ! k) (Ss ! k)"
    using assms by (auto simp: database_ok_def list_all2_conv_all_nth)
qed

lemma class_create:
  assumes "class_ok info S"
  shows "\<exists>v. tiNew info = Some v \<and> sObj S v \<and> HeapCreate info = Some \<lparr>obValue = v, obAllocator = tiAllocator info\<rparr>"
  using assms by (auto simp: class_ok_def HeapCreate_def)

lemma HeapDestroy_own:
  "class_ok info S \<Longrightarrow> HeapDestroy info (Some \<lparr>obValue = v, obAllocator = tiAllocator info\<rparr>) = Inr ()"
  by (auto simp: class_ok_def HeapDestroy_def)

lemma HeapDestroy_other:
  assumes "database_ok db Ss" "k < length (dbTypes db)" "l < length (dbTypes db)" "k \<noteq> l"
  shows "HeapDestroy (dbTypes db ! l) (Some \<lparr>obValue = v, obAllocator = tiAllocator (dbTypes db ! k)\<rparr>) = Inl Undefined"
proof -
  have "tiAllocator (dbTypes db ! k) \<noteq> tiAllocator (dbTypes db ! l)"
    using assms by (auto simp: database_ok_def distinct_conv_nth)
  then show ?thesis
    using class_index(3) [OF assms(1,3)] by (auto simp: HeapDestroy_def class_ok_def)
qed

text \<open>C31: a well-typed object, one of the class it says and from that class's pool, can be destroyed, copied,
  assigned from a well-typed object of any class, and set to its own class with \<^verbatim>\<open>SetType\<close>, without anything
  undefined. The copy and the assigned object are well-typed, of the class of their source and with its value; so is
  an object constructed from a class id and data. \<^verbatim>\<open>SetType\<close> makes a new well-typed object if it is forced, and
  changes nothing if not. Not among these are the constructor from a value, which takes its memory from
  \<^verbatim>\<open>operator new\<close>, \<^verbatim>\<open>SetType\<close> to another class and self-assignment (\<open>Polymorphic_wrong_pool\<close>).\<close>

theorem Polymorphic_typed:
  assumes "database_ok db Ss" "typed db k v p" "typed db l u q"
  shows "Polymorphic_destroy db p = Inr ()
    \<and> (\<exists>p'. Polymorphic_copy db p = Inr p' \<and> typed db k v p')
    \<and> (\<exists>p'. Polymorphic_assign db p (Some q) = Inr p' \<and> typed db l u p')
    \<and> (\<exists>p'. Polymorphic_of_data db (of_nat k) v = Inr p' \<and> typed db k v p')
    \<and> (\<exists>p' v'. Polymorphic_SetType db (of_nat k) True p = Inr p' \<and> typed db k v' p' \<and> sObj (Ss ! k) v')
    \<and> Polymorphic_SetType db (of_nat k) False p = Inr p"
proof -
  from assms(2,3) have k: "k < length (dbTypes db)" and l: "l < length (dbTypes db)"
    by (simp_all add: typed_def)
  note ck = class_index [OF assms(1) k] and cl = class_index [OF assms(1) l]
  from class_create [OF ck(3)] obtain v0 where v0: "sObj (Ss ! k) v0"
    "HeapCreate (dbTypes db ! k) = Some \<lparr>obValue = v0, obAllocator = tiAllocator (dbTypes db ! k)\<rparr>" by blast
  from class_create [OF cl(3)] obtain u0 where u0:
    "HeapCreate (dbTypes db ! l) = Some \<lparr>obValue = u0, obAllocator = tiAllocator (dbTypes db ! l)\<rparr>" by blast
  note p = assms(2,3) [unfolded typed_def]
  note d = HeapDestroy_own [OF ck(3), of v]
  show ?thesis
    using p ck(2) cl(2) v0 u0 d
    by (simp add: Polymorphic_destroy_def Polymorphic_copy_def Polymorphic_assign_def Polymorphic_of_data_def
        Polymorphic_SetType_def typed_def deref_def store_value_def)
qed

text \<open>Where the code goes wrong on a well-typed object. \<^verbatim>\<open>SetType\<close> to another
  class destroys the old object as one of the new class; an object made from a value of a derived
  class is destroyed as one of the pool it is not from; a self-assignment replaces the value by a
  new object's.\<close>

theorem Polymorphic_wrong_pool:
  assumes "database_ok db Ss" "typed db k v p"
  shows "(\<forall>l < length (dbTypes db). l \<noteq> k \<longrightarrow> Polymorphic_SetType db (of_nat l) force p = Inl Undefined)
    \<and> (\<forall>h. \<forall>p'. Polymorphic_of_value db h v = Inr p' \<longrightarrow> Polymorphic_destroy db p' = Inl Undefined)
    \<and> (\<exists>v0 p'. tiNew (dbTypes db ! k) = Some v0 \<and> Polymorphic_assign db p None = Inr p' \<and> typed db k v0 p')"
proof (intro conjI allI impI)
  from assms(2) have k: "k < length (dbTypes db)" by (simp add: typed_def)
  note p = assms(2) [unfolded typed_def]
  note ck = class_index [OF assms(1) k]
  show "Polymorphic_SetType db (of_nat l) force p = Inl Undefined" if l: "l < length (dbTypes db)" "l \<noteq> k" for l
  proof -
    note cl = class_index [OF assms(1) l(1)]
    have "(of_nat l :: u64) \<noteq> of_nat k" using cl(1) ck(1) l(2) by metis
    then show ?thesis
      using p cl(2) HeapDestroy_other [OF assms(1) k l(1)] l(2) by (simp add: Polymorphic_SetType_def)
  qed
  show "Polymorphic_destroy db p' = Inl Undefined" if "Polymorphic_of_value db h v = Inr p'" for h p'
  proof -
    from that obtain class_id info where i: "GetClassId h db = Inr (class_id, db)" "type_info db class_id = Inr info"
      "p' = \<lparr>poPtr = Some \<lparr>obValue = v, obAllocator = None\<rparr>, poClassId = tiClassId info, poTypeHash = tiTypeIdHash info\<rparr>"
      using assms(1) by (auto simp: Polymorphic_of_value_def ebind_eq_Inr GetClassId_def finalized_def
          database_ok_def split: option.splits)
    from i(2) obtain j where j: "j < length (dbTypes db)" "info = dbTypes db ! j"
      using assms(1) by (auto simp: type_info_def ebind_eq_Inr GetTypeInfo_def finalized_def
          database_ok_def split: if_splits)
    note cj = class_index [OF assms(1) j(1)]
    have "tiClassId info = of_nat j" using assms(1) j by (simp add: database_ok_def)
    then show ?thesis
      using i(3) j cj(2,3) by (auto simp: Polymorphic_destroy_def HeapDestroy_def class_ok_def)
  qed
  from class_create [OF ck(3)] obtain v0 where v0: "tiNew (dbTypes db ! k) = Some v0"
    "HeapCreate (dbTypes db ! k) = Some \<lparr>obValue = v0, obAllocator = tiAllocator (dbTypes db ! k)\<rparr>" by blast
  then show "\<exists>v0 p'. tiNew (dbTypes db ! k) = Some v0 \<and> Polymorphic_assign db p None = Inr p' \<and> typed db k v0 p'"
    using p ck(2) HeapDestroy_own [OF ck(3), of v]
    by (simp add: Polymorphic_assign_def typed_def deref_def store_value_def)
qed

section \<open>On the wire\<close>

lemma class_codecs:
  assumes "class_ok info S"
  shows "value_codec (tiSerialize info) (tiDeserialize info) (sWf S) (sObj S) (sEnc S)"
    and "delta_codec (tiSerializeDelta info) (tiDeserializeDelta info) (sWf S) (sDenc S)"
  using assms by (simp_all add: class_ok_def element_codec_def)

abbreviation class_bits :: "'v NetTypeDatabase \<Rightarrow> nat" where
  "class_bits db \<equiv> size_bits (length (dbTypes db) - 1)"

lemma class_bits_eq:
  assumes "database_ok db Ss"
  shows "int (GetRequiredBits U64 (conv U64 (int (fst (GetNumTypes db)) - 1))) = int (class_bits db)"
    and "k < length (dbTypes db) \<Longrightarrow> k < 2 ^ class_bits db" "class_bits db < 64"
proof -
  have n: "0 < length (dbTypes db)" "length (dbTypes db) < 2 ^ 31" using assms by (simp_all add: database_ok_def)
  have "int (length (dbTypes db) - 1) = int (length (dbTypes db)) - 1" using n(1) by (simp add: of_nat_diff Suc_leI)
  moreover have "in_ctype U64 (int (length (dbTypes db)) - 1)"
    using n by (simp add: in_ctype_def ctype_min_def ctype_max_def)
  ultimately show "int (GetRequiredBits U64 (conv U64 (int (fst (GetNumTypes db)) - 1))) = int (class_bits db)"
    using assms by (simp add: conv_id GetNumTypes_def finalized_def database_ok_def)
  have m: "length (dbTypes db) - 1 < 2 ^ 63"
    by (rule less_le_trans [OF less_imp_diff_less [OF n(2)]]) simp
  show "class_bits db < 64" using size_bits(1) [OF m] by simp
  show "k < 2 ^ class_bits db" if "k < length (dbTypes db)"
    using size_bits(3) [OF m, of k] that by linarith
qed

definition poly_enc :: "'v NetTypeDatabase \<Rightarrow> 'v field_spec list \<Rightarrow> nat \<Rightarrow> 'v \<Rightarrow> bool list" where
  "poly_enc db Ss k v = nat_bits (class_bits db) k @ sEnc (Ss ! k) v"

lemma poly_ser:
  assumes "database_ok db Ss" "typed db k v p" "sWf (Ss ! k) v" "winv w"
  shows "\<exists>w'. NetSerializer_Polymorphic dbg db p w = Inr w' \<and> wrote w w' (poly_enc db Ss k v)"
proof -
  note p = assms(2) [unfolded typed_def]
  then have k: "k < length (dbTypes db)" by simp
  note b = class_bits_eq [OF assms(1)]
  have "class_bits db \<le> 64" using b(3) by simp
  from WriteBits_nat [OF assms(4) b(2) [OF k] this, of dbg] obtain w1 where
    1: "WriteBits dbg (of_nat k) (int (class_bits db)) w = Inr w1" "wrote w w1 (nat_bits (class_bits db) k)" by blast
  from value_codec.ser_enc [OF class_codecs(1) [OF class_index(3) [OF assms(1) k]] wrote_winv [OF 1(2)] assms(3)]
  obtain w2 where 2: "tiSerialize (dbTypes db ! k) v w1 = Inr w2" "wrote w1 w2 (sEnc (Ss ! k) v)" by blast
  show ?thesis
    unfolding NetSerializer_Polymorphic_def b(1)
    using p 1(1) 2(1) class_index(2) [OF assms(1) k] wrote_trans [OF 1(2) 2(2)]
    by (simp add: deref_def poly_enc_def)
qed

lemma poly_deser:
  assumes "database_ok db Ss" "sWf (Ss ! k) v" "rinv r" "rbits r = poly_enc db Ss k v @ rest"
    and "typed db k v0 q" "sObj (Ss ! k) v0"
  shows "\<exists>r' q'. NetDeserializer_Polymorphic db q r = Inr (q', r') \<and> typed db k v q'
    \<and> consumed r r' (poly_enc db Ss k v) \<and> rbits r' = rest"
proof -
  note q = assms(5) [unfolded typed_def]
  then have k: "k < length (dbTypes db)" by simp
  note b = class_bits_eq [OF assms(1)]
  have r0: "rbits r = nat_bits (class_bits db) k @ sEnc (Ss ! k) v @ rest"
    using assms(4) by (simp add: poly_enc_def)
  from ReadUBits_nat [OF assms(3) r0 b(2) [OF k] b(3)] obtain r1 where
    1: "ReadUBits (int (class_bits db)) r = Inr (of_nat k, r1)" "consumed r r1 (nat_bits (class_bits db) k)"
      "rbits r1 = sEnc (Ss ! k) v @ rest" by blast
  from value_codec.deser_rest [OF class_codecs(1) [OF class_index(3) [OF assms(1) k]] consumed_rinv [OF 1(2)]
      assms(2,6) 1(3)]
  obtain r2 where 2: "tiDeserialize (dbTypes db ! k) v0 r1 = Inr (v, r2)"
    "consumed r1 r2 (sEnc (Ss ! k) v)" "rbits r2 = rest" by blast
  show ?thesis
    unfolding NetDeserializer_Polymorphic_def b(1)
    using q 1(1) 2(1,3) class_index(2) [OF assms(1) k] consumed_trans [OF 1(2) 2(2)]
    by (simp add: Polymorphic_SetType_def deref_def store_value_def typed_def poly_enc_def)
qed

lemma poly_delta_ser:
  assumes "database_ok db Ss" "typed db k v p" "typed db k u q" "sWf (Ss ! k) v" "sWf (Ss ! k) u" "winv w"
  shows "\<exists>w'. NetSerializerDelta_Polymorphic dbg db p q w = Inr (v \<noteq> u, w')
    \<and> wrote w w' (if v = u then [] else False # sDenc (Ss ! k) v u)"
proof -
  note p = assms(2,3) [unfolded typed_def]
  then have k: "k < length (dbTypes db)" by simp
  note ck = class_index [OF assms(1) k]
  from Reserve_flag [OF assms(6), of dbg] obtain c w1 where
    1: "Reserve dbg 1 w = Inr (c, w1)" "wrote w w1 [False]" "reserved c w" "cSize c = 1" by blast
  from delta_codec.dser_denc [OF class_codecs(2) [OF ck(3)] wrote_winv [OF 1(2)] assms(4,5)] obtain w2 where
    2: "tiSerializeDelta (dbTypes db ! k) v u w1 = Inr (v \<noteq> u, w2)" "wrote w1 w2 (sDenc (Ss ! k) v u)" by blast
  have w02: "wrote w w2 (False # sDenc (Ss ! k) v u)" using wrote_trans [OF 1(2) 2(2)] by simp
  show ?thesis
  proof (cases "v = u")
    case True
    from RollBack_spec [OF assms(6) wrote_winv [OF 2(2)] 1(3) wrote_wbits [OF w02]] obtain w3 where
      "RollBack c w2 = Inr w3" "wrote w w3 []" by blast
    with True 1 2 p ck(2) show ?thesis by (simp add: NetSerializerDelta_Polymorphic_def deref_def)
  next
    case False
    from CursorWriteBits_flag [OF assms(6) 1(3) w02, of dbg False] 1(4) obtain c' w3 where
      "CursorWriteBits dbg 0 1 c w2 = Inr (c', w3)" "wrote w w3 (False # sDenc (Ss ! k) v u)" by auto
    with False 1 2 p ck(2) show ?thesis by (simp add: NetSerializerDelta_Polymorphic_def deref_def)
  qed
qed

lemma poly_delta_deser:
  assumes "database_ok db Ss" "typed db k u q" "sWf (Ss ! k) v" "sWf (Ss ! k) u" "v \<noteq> u" "rinv r"
    and "rbits r = False # sDenc (Ss ! k) v u @ rest"
  shows "\<exists>r' q'. NetDeserializerDelta_Polymorphic db q r = Inr (q', r') \<and> typed db k v q'
    \<and> rinv r' \<and> rbits r' = rest"
proof -
  note q = assms(2) [unfolded typed_def]
  then have k: "k < length (dbTypes db)" by simp
  note ck = class_index [OF assms(1) k]
  from ReadUBits_flag [OF assms(6,7)] obtain r1 where
    1: "ReadUBits 1 r = Inr (0, r1)" "consumed r r1 [False]" "rbits r1 = sDenc (Ss ! k) v u @ rest" by auto
  from delta_codec.dder_rest [OF class_codecs(2) [OF ck(3)] consumed_rinv [OF 1(2)] assms(3,4,5) 1(3)]
  obtain r2 where 2: "tiDeserializeDelta (dbTypes db ! k) u r1 = Inr (v, r2)"
    "consumed r1 r2 (sDenc (Ss ! k) v u)" "rbits r2 = rest" by blast
  then show ?thesis
    using 1(1) q ck(2) consumed_rinv [OF 2(2)]
    by (simp add: NetDeserializerDelta_Polymorphic_def deref_def store_value_def typed_def)
qed

text \<open>C32: two objects of one class. The difference is reported exactly when the
  values differ; an equal object leaves the writer as it was, and a different one is a 0 and the
  class's own difference, which the delta deserializer turns the receiver's object into, in place.
  The whole object, class id and value, is read back into any object of the class.\<close>

theorem Polymorphic_roundtrip:
  assumes "database_ok db Ss" "typed db k v p" "typed db k u q" "sWf (Ss ! k) v" "sWf (Ss ! k) u" "winv w"
  shows "(\<exists>w' bs. NetSerializerDelta_Polymorphic dbg db p q w = Inr (v \<noteq> u, w') \<and> winv w'
      \<and> wbits w' = wbits w @ bs \<and> (v = u \<longrightarrow> bs = [])
      \<and> (\<forall>r rest. v \<noteq> u \<and> rinv r \<and> rbits r = bs @ rest \<longrightarrow>
          (\<exists>r' q'. NetDeserializerDelta_Polymorphic db q r = Inr (q', r') \<and> typed db k v q'
            \<and> rinv r' \<and> rbits r' = rest)))
    \<and> (\<exists>w' bs. NetSerializer_Polymorphic dbg db p w = Inr w' \<and> winv w' \<and> wbits w' = wbits w @ bs
      \<and> (\<forall>r rest. rinv r \<and> rbits r = bs @ rest \<longrightarrow>
          (\<exists>r' q'. NetDeserializer_Polymorphic db q r = Inr (q', r') \<and> typed db k v q'
            \<and> rinv r' \<and> rbits r' = rest)))"
proof (rule conjI)
  let ?bs = "if v = u then [] else False # sDenc (Ss ! k) v u"
  from poly_delta_ser [OF assms] obtain w' where
    d: "NetSerializerDelta_Polymorphic dbg db p q w = Inr (v \<noteq> u, w')" "wrote w w' ?bs" by blast
  have "\<exists>r' q'. NetDeserializerDelta_Polymorphic db q r = Inr (q', r') \<and> typed db k v q'
      \<and> rinv r' \<and> rbits r' = rest" if "v \<noteq> u" "rinv r" "rbits r = ?bs @ rest" for r rest
    using poly_delta_deser [OF assms(1,3,4,5) that(1,2)] that(3) that(1) by simp
  then show "\<exists>w' bs. NetSerializerDelta_Polymorphic dbg db p q w = Inr (v \<noteq> u, w') \<and> winv w'
      \<and> wbits w' = wbits w @ bs \<and> (v = u \<longrightarrow> bs = [])
      \<and> (\<forall>r rest. v \<noteq> u \<and> rinv r \<and> rbits r = bs @ rest \<longrightarrow>
          (\<exists>r' q'. NetDeserializerDelta_Polymorphic db q r = Inr (q', r') \<and> typed db k v q'
            \<and> rinv r' \<and> rbits r' = rest))"
    using d(1) wrote_winv [OF d(2)] wrote_wbits [OF d(2)]
    by (intro exI [of _ w'] exI [of _ ?bs]) (intro conjI impI allI; simp)
  have obj: "sObj (Ss ! k) u"
    using value_codec.wf_obj [OF class_codecs(1) [OF class_index(3) [OF assms(1)]] assms(5)] assms(3)
    by (simp add: typed_def)
  from poly_ser [OF assms(1,2,4,6)] obtain w' where
    s: "NetSerializer_Polymorphic dbg db p w = Inr w'" "wrote w w' (poly_enc db Ss k v)" by blast
  have "\<exists>r' q'. NetDeserializer_Polymorphic db q r = Inr (q', r') \<and> typed db k v q'
      \<and> rinv r' \<and> rbits r' = rest" if "rinv r" "rbits r = poly_enc db Ss k v @ rest" for r rest
    using poly_deser [OF assms(1,4) that assms(3) obj] by (blast dest: consumed_rinv)
  then show "\<exists>w' bs. NetSerializer_Polymorphic dbg db p w = Inr w' \<and> winv w' \<and> wbits w' = wbits w @ bs
      \<and> (\<forall>r rest. rinv r \<and> rbits r = bs @ rest \<longrightarrow>
          (\<exists>r' q'. NetDeserializer_Polymorphic db q r = Inr (q', r') \<and> typed db k v q'
            \<and> rinv r' \<and> rbits r' = rest))"
    using s(1) wrote_winv [OF s(2)] wrote_wbits [OF s(2)]
    by (intro exI [of _ w'] exI [of _ "poly_enc db Ss k v"]) (intro conjI impI allI; simp)
qed

text \<open>An object of another class. What the serializers write for it, the
  full form or the difference, makes a receiver that holds an object of a different class destroy that
  object as one of the new class: the class of a polymorphic value cannot change over the wire.\<close>

theorem Polymorphic_class_change:
  assumes "database_ok db Ss" "typed db k v p" "typed db l u q" "k \<noteq> l" "sWf (Ss ! k) v" "winv w"
  shows "\<exists>w' bs. NetSerializerDelta_Polymorphic dbg db p q w = Inr (True, w') \<and> wbits w' = wbits w @ bs
    \<and> (\<forall>r rest. rinv r \<and> rbits r = bs @ rest \<longrightarrow> NetDeserializerDelta_Polymorphic db q r = Inl Undefined)"
proof -
  note p = assms(2,3) [unfolded typed_def]
  then have kl: "k < length (dbTypes db)" "l < length (dbTypes db)" by simp_all
  note ck = class_index [OF assms(1) kl(1)] and cl = class_index [OF assms(1) kl(2)]
  have ne: "(of_nat k :: u64) \<noteq> of_nat l" using ck(1) cl(1) assms(4) by metis
  note b = class_bits_eq [OF assms(1)]
  from WriteBits_flag_1 [OF assms(6), of dbg] obtain w1 where
    1: "WriteBits dbg 1 1 w = Inr w1" "wrote w w1 [True]" by blast
  from poly_ser [OF assms(1,2,5) wrote_winv [OF 1(2)], of dbg] obtain w2 where
    2: "NetSerializer_Polymorphic dbg db p w1 = Inr w2" "wrote w1 w2 (poly_enc db Ss k v)" by blast
  have "NetDeserializerDelta_Polymorphic db q r = Inl Undefined"
    if r: "rinv r" "rbits r = True # nat_bits (class_bits db) k @ sEnc (Ss ! k) v @ rest" for r rest
  proof -
    from ReadUBits_flag [OF r] obtain r1 where
      3: "ReadUBits 1 r = Inr (1, r1)" "consumed r r1 [True]"
      "rbits r1 = nat_bits (class_bits db) k @ sEnc (Ss ! k) v @ rest" by auto
    from ReadUBits_nat [OF consumed_rinv [OF 3(2)] 3(3) b(2) [OF kl(1)] b(3)] obtain r2 where
      4: "ReadUBits (int (class_bits db)) r1 = Inr (of_nat k, r2)" by blast
    have "NetDeserializer_Polymorphic db q r1 = Inl Undefined"
      unfolding NetDeserializer_Polymorphic_def b(1)
      using 4 p ne ck(2) HeapDestroy_other [OF assms(1) kl(2,1)] assms(4)
      by (simp add: Polymorphic_SetType_def)
    then show ?thesis using 3(1) by (simp add: NetDeserializerDelta_Polymorphic_def)
  qed
  then show ?thesis
    using 1(1) 2(1) p ne wrote_wbits [OF wrote_trans [OF 1(2) 2(2)]]
    by (intro exI [of _ w2] exI [of _ "True # poly_enc db Ss k v"])
      (simp add: NetSerializerDelta_Polymorphic_def poly_enc_def)
qed

section \<open>Concrete objects\<close>

text \<open>A database of two classes of one Boolean each.\<close>

definition shape_db :: "bool NetTypeDatabase" where
  "shape_db = (NetTypeDatabase_init [])\<lparr>dbInitialized := True,
     dbTypes := [class_entry ''Circle'' 1 5 0, (class_entry ''Square'' 2 7 0)\<lparr>tiClassId := 1\<rparr>]\<rparr>"

abbreviation shape_object :: "nat \<Rightarrow> bool \<Rightarrow> bool NetPolymorphic" where
  "shape_object k v \<equiv> \<lparr>poPtr = Some \<lparr>obValue = v, obAllocator = tiAllocator (dbTypes shape_db ! k)\<rparr>,
     poClassId = of_nat k, poTypeHash = tiTypeIdHash (dbTypes shape_db ! k)\<rparr>"

lemma shape_db_ok: "database_ok shape_db [bool_spec, bool_spec]"
proof -
  have "element_codec (NetSerializer_bool True) NetDeserializer_bool (sWf bool_spec) (sObj bool_spec) (sEnc bool_spec)
      (NetSerializeDeltaType (=) (NetSerializer_bool True)) (NetDeserializeDeltaType NetDeserializer_bool) (sDenc bool_spec)"
    using bool_field_ok [of True False] by (simp add: field_ok_def bool_field_def)
  then have "class_ok (class_entry a b c d) bool_spec" "class_ok ((class_entry a b c d)\<lparr>tiClassId := 1\<rparr>) bool_spec"
    for a b c d
    by (auto simp: class_ok_def class_entry_def)
  moreover have "tiAllocator (class_entry a b c d) = Some (unat c)" "tiClassId (class_entry a b c d) = 0"
    for a b c d by (simp_all add: class_entry_def)
  ultimately show ?thesis
    by (simp add: database_ok_def shape_db_def less_Suc_eq)
qed

lemma shape_typed: "k < 2 \<Longrightarrow> typed shape_db k v (shape_object k v)"
  by (simp add: typed_def) (simp add: shape_db_def)

theorem Polymorphic_typed_witness:
  "\<exists>p'. Polymorphic_assign shape_db (shape_object 0 True) (Some (shape_object 1 False)) = Inr p'
    \<and> typed shape_db 1 False p'"
  using Polymorphic_typed [OF shape_db_ok shape_typed [of 0 True] shape_typed [of 1 False]] by simp

theorem Polymorphic_wrong_pool_witness:
  "Polymorphic_SetType shape_db 1 False (shape_object 0 True) = Inl Undefined"
proof -
  have "length (dbTypes shape_db) = 2" by (simp add: shape_db_def)
  then show ?thesis
    using conjunct1 [OF Polymorphic_wrong_pool [OF shape_db_ok shape_typed [of 0 True], of False]]
    by (auto dest: spec [of _ 1])
qed

theorem Polymorphic_roundtrip_witness:
  "\<exists>w'. NetSerializerDelta_Polymorphic True shape_db (shape_object 1 True) (shape_object 1 False)
      NetBitWriterVector_init = Inr (True, w')"
  using Polymorphic_roundtrip [OF shape_db_ok shape_typed [of 1 True] shape_typed [of 1 False], of NetBitWriterVector_init True]
  by auto

theorem Polymorphic_class_change_witness:
  "\<exists>w'. NetSerializerDelta_Polymorphic True shape_db (shape_object 0 True) (shape_object 1 False)
      NetBitWriterVector_init = Inr (True, w')"
  using Polymorphic_class_change [OF shape_db_ok shape_typed [of 0 True] shape_typed [of 1 False], of NetBitWriterVector_init True]
  by auto

end
