(* ===== verification/MessagePipes.thy ===== *)
theory MessagePipes
  imports DeltaPipes Polymorphic
begin

text \<open>
  Pipes whose messages are one of many types: \<^verbatim>\<open>NetPipeMessage.h\<close>, of any class of a type
  database, \<^verbatim>\<open>NetPipeVariant.h\<close>, of a list of types given in the program, and the message senders
  of \<^verbatim>\<open>NetMessageSender.h\<close>, which send the messages of the first kind without the pipe.

  As in the type database the messages of all types are values of one type \<open>'v\<close>. A callback stored in
  a pipe takes the reader and deserializes the message by itself.
\<close>

section \<open>Messages of the classes of a database\<close>

definition class_id_bits :: "'v NetTypeDatabase \<Rightarrow> int" where
  "class_id_bits db = int (GetRequiredBits U64 (conv U64 (int (fst (GetNumTypes db)) - 1)))"

text \<open>\<open>SendMessage\<close> of a value: \<open>type_hash\<close> is \<^verbatim>\<open>typeid(DataType).hash_code()\<close> and \<open>ser\<close> the
  serializer of \<^verbatim>\<open>DataType\<close>. The other one finds the serializer in the database.\<close>

definition Message_SendMessage ::
    "bool \<Rightarrow> 'v NetTypeDatabase \<Rightarrow> 't NetTransmitter \<Rightarrow> pipe_channel \<Rightarrow> u64 \<Rightarrow> 'v serializer \<Rightarrow> 'v
       \<Rightarrow> 't \<Rightarrow> 't result" where
  "Message_SendMessage dbg db T c type_hash ser data t =
     ebind (GetClassId type_hash db) (\<lambda>(class_id, db).
       with_message T (pcMode c) (pcChannelIndex c) (pcChannelBits c) (\<lambda>writer.
         ebind (WriteBits dbg class_id (class_id_bits db) writer) (ser data)) t)"

definition Message_SendMessage_ptr ::
    "bool \<Rightarrow> 'v NetTypeDatabase \<Rightarrow> 't NetTransmitter \<Rightarrow> pipe_channel \<Rightarrow> u64 \<Rightarrow> 'v \<Rightarrow> 't \<Rightarrow> 't result" where
  "Message_SendMessage_ptr dbg db T c class_id message t =
     ebind (type_info db class_id) (\<lambda>info.
       with_message T (pcMode c) (pcChannelIndex c) (pcChannelBits c) (\<lambda>writer.
         ebind (WriteBits dbg class_id (class_id_bits db) writer) (tiSerialize info message)) t)"

type_synonym 'e reader_callback = "NetBitReaderBuffer \<Rightarrow> 'e \<Rightarrow> (NetBitReaderBuffer \<times> 'e) result"

record ('v, 'e) MessageReceiver =
  mrCallbacks :: "'e reader_callback option list"
  mrGenericCallback :: "(u64 \<times> 'v, 'e) callback"

definition MessageReceiver_init :: "'v NetTypeDatabase \<Rightarrow> ('v, 'e) MessageReceiver" where
  "MessageReceiver_init db =
     \<lparr>mrCallbacks = replicate (fst (GetNumTypes db)) None, mrGenericCallback = None\<rparr>"

definition deserialize_cb :: "'v deserializer \<Rightarrow> 'v \<Rightarrow> ('v \<Rightarrow> 'e \<Rightarrow> 'e result) \<Rightarrow> 'e reader_callback" where
  "deserialize_cb deser dt callback reader e =
     ebind (deser dt reader) (\<lambda>(dt, reader). ebind (callback dt e) (\<lambda>e. Inr (reader, e)))"

text \<open>\<open>fresh\<close> is the value of \<^verbatim>\<open>DataType dt;\<close>. Every \<^verbatim>\<open>RegisterCallback\<close> ends up here.\<close>

definition Message_RegisterCallback ::
    "'v NetTypeDatabase \<Rightarrow> u64 \<Rightarrow> 'v deserializer \<Rightarrow> 'v \<Rightarrow> ('v \<Rightarrow> 'e \<Rightarrow> 'e result)
       \<Rightarrow> ('v, 'e) MessageReceiver \<Rightarrow> ('v, 'e) MessageReceiver result" where
  "Message_RegisterCallback db type_hash deser fresh callback rc =
     ebind (GetClassId type_hash db) (\<lambda>(class_id, _).
       if unat class_id < length (mrCallbacks rc) then
         Inr (rc\<lparr>mrCallbacks := (mrCallbacks rc)[unat class_id := Some (deserialize_cb deser fresh callback)]\<rparr>)
       else Inl Undefined)"

definition Message_RegisterGenericCallback ::
    "(u64 \<times> 'v \<Rightarrow> 'e \<Rightarrow> 'e result) \<Rightarrow> ('v, 'e) MessageReceiver \<Rightarrow> ('v, 'e) MessageReceiver" where
  "Message_RegisterGenericCallback callback rc = rc\<lparr>mrGenericCallback := Some callback\<rparr>"

definition Message_GotMessage ::
    "'v NetTypeDatabase \<Rightarrow> ('v, 'e) MessageReceiver \<Rightarrow> 'e reader_callback" where
  "Message_GotMessage db rc reader e =
     ebind (ReadUBits (class_id_bits db) reader) (\<lambda>(class_id, reader).
       if fst (GetNumTypes db) \<le> unat class_id then Inr (reader, e)
       else if length (mrCallbacks rc) \<le> unat class_id then Inl Undefined
       else case mrCallbacks rc ! unat class_id of
         Some callback \<Rightarrow> callback reader e
       | None \<Rightarrow>
           (case mrGenericCallback rc of
              None \<Rightarrow> Inr (reader, e)
            | Some callback \<Rightarrow>
                ebind (type_info db class_id) (\<lambda>info.
                let ptr = HeapCreate info in
                ebind (deref ptr) (\<lambda>v.
                ebind (tiDeserialize info v reader) (\<lambda>(v, reader).
                let ptr = store_value ptr v in
                ebind (callback (class_id, v) e) (\<lambda>e.
                ebind (HeapDestroy info ptr) (\<lambda>_. Inr (reader, e))))))))"

section \<open>Message senders\<close>

text \<open>A \<^verbatim>\<open>NetMessageSender\<close> is a copy of the members of a pipe's sender. \<open>msTransmitter\<close> says which
  transmitter its pointer points to.\<close>

record NetMessageSender =
  msTransmitter :: nat
  msChannel :: pipe_channel

definition NetMessageSender_of :: "nat \<Rightarrow> pipe_channel \<Rightarrow> NetMessageSender" where
  "NetMessageSender_of transmitter_ptr c = \<lparr>msTransmitter = transmitter_ptr, msChannel = c\<rparr>"

text \<open>The transmitters of all connections: \<open>T k\<close> and the state \<open>ts k\<close>. A message acts on its own.\<close>

definition at_transmitter :: "nat \<Rightarrow> ('t \<Rightarrow> 't result) \<Rightarrow> (nat \<Rightarrow> 't) \<Rightarrow> (nat \<Rightarrow> 't) result" where
  "at_transmitter k f ts = ebind (f (ts k)) (\<lambda>t. Inr (ts(k := t)))"

definition Sender_SendMessage ::
    "bool \<Rightarrow> 'v NetTypeDatabase \<Rightarrow> (nat \<Rightarrow> 't NetTransmitter) \<Rightarrow> u64 \<Rightarrow> 'v serializer \<Rightarrow> 'v
       \<Rightarrow> NetMessageSender \<Rightarrow> (nat \<Rightarrow> 't) \<Rightarrow> (nat \<Rightarrow> 't) result" where
  "Sender_SendMessage dbg db T type_hash ser data s =
     at_transmitter (msTransmitter s) (\<lambda>t.
       ebind (GetClassId type_hash db) (\<lambda>(class_id, db).
         with_message (T (msTransmitter s)) (pcMode (msChannel s)) (pcChannelIndex (msChannel s))
           (pcChannelBits (msChannel s)) (\<lambda>writer.
             ebind (WriteBits dbg class_id (class_id_bits db) writer) (ser data)) t))"

definition Sender_SendMessage_ptr ::
    "bool \<Rightarrow> 'v NetTypeDatabase \<Rightarrow> (nat \<Rightarrow> 't NetTransmitter) \<Rightarrow> u64 \<Rightarrow> 'v
       \<Rightarrow> NetMessageSender \<Rightarrow> (nat \<Rightarrow> 't) \<Rightarrow> (nat \<Rightarrow> 't) result" where
  "Sender_SendMessage_ptr dbg db T class_id event s =
     at_transmitter (msTransmitter s) (\<lambda>t.
       ebind (type_info db class_id) (\<lambda>info.
         with_message (T (msTransmitter s)) (pcMode (msChannel s)) (pcChannelIndex (msChannel s))
           (pcChannelBits (msChannel s)) (\<lambda>writer.
             ebind (WriteBits dbg class_id (class_id_bits db) writer) (tiSerialize info event)) t))"

text \<open>
  The senders of a \<^verbatim>\<open>NetMessageSenderList\<close> are in a \<^verbatim>\<open>std::unordered_map\<close>, visited in the order the
  standard library chooses: \<open>order\<close>, the keys of the map in some order.
\<close>

type_synonym NetMessageSenderList = "u64 \<rightharpoonup> NetMessageSender"
type_synonym visiting_order = "NetMessageSenderList \<Rightarrow> u64 list"

definition for_senders ::
    "visiting_order \<Rightarrow> (u64 \<Rightarrow> bool) \<Rightarrow> (NetMessageSender \<Rightarrow> (nat \<Rightarrow> 't) \<Rightarrow> (nat \<Rightarrow> 't) result)
       \<Rightarrow> NetMessageSenderList \<Rightarrow> (nat \<Rightarrow> 't) \<Rightarrow> (nat \<Rightarrow> 't) result" where
  "for_senders order predicate send m =
     efold (\<lambda>c ts. case m c of None \<Rightarrow> Inr ts | Some s \<Rightarrow> if predicate c then send s ts else Inr ts) (order m)"

definition List_SendMessage ::
    "visiting_order \<Rightarrow> bool \<Rightarrow> 'v NetTypeDatabase \<Rightarrow> (nat \<Rightarrow> 't NetTransmitter) \<Rightarrow> u64 \<Rightarrow> 'v serializer
       \<Rightarrow> 'v \<Rightarrow> NetMessageSenderList \<Rightarrow> (nat \<Rightarrow> 't) \<Rightarrow> (nat \<Rightarrow> 't) result" where
  "List_SendMessage order dbg db T type_hash ser data =
     for_senders order (\<lambda>_. True) (Sender_SendMessage dbg db T type_hash ser data)"

definition List_SendMessage_if ::
    "visiting_order \<Rightarrow> bool \<Rightarrow> 'v NetTypeDatabase \<Rightarrow> (nat \<Rightarrow> 't NetTransmitter) \<Rightarrow> u64 \<Rightarrow> 'v serializer
       \<Rightarrow> 'v \<Rightarrow> (u64 \<Rightarrow> bool) \<Rightarrow> NetMessageSenderList \<Rightarrow> (nat \<Rightarrow> 't) \<Rightarrow> (nat \<Rightarrow> 't) result" where
  "List_SendMessage_if order dbg db T type_hash ser data predicate =
     for_senders order predicate (Sender_SendMessage dbg db T type_hash ser data)"

definition SendTargettedMessage ::
    "bool \<Rightarrow> 'v NetTypeDatabase \<Rightarrow> (nat \<Rightarrow> 't NetTransmitter) \<Rightarrow> u64 \<Rightarrow> 'v serializer
       \<Rightarrow> 'v \<Rightarrow> u64 \<Rightarrow> NetMessageSenderList \<Rightarrow> (nat \<Rightarrow> 't) \<Rightarrow> (nat \<Rightarrow> 't) result" where
  "SendTargettedMessage dbg db T type_hash ser data connection m ts =
     (case m connection of None \<Rightarrow> Inr ts | Some s \<Rightarrow> Sender_SendMessage dbg db T type_hash ser data s ts)"

definition List_SendMessage_ptr_to ::
    "bool \<Rightarrow> 'v NetTypeDatabase \<Rightarrow> (nat \<Rightarrow> 't NetTransmitter) \<Rightarrow> u64 \<Rightarrow> 'v \<Rightarrow> u64
       \<Rightarrow> NetMessageSenderList \<Rightarrow> (nat \<Rightarrow> 't) \<Rightarrow> (nat \<Rightarrow> 't) result" where
  "List_SendMessage_ptr_to dbg db T class_id event connection m ts =
     (case m connection of None \<Rightarrow> Inr ts | Some s \<Rightarrow> Sender_SendMessage_ptr dbg db T class_id event s ts)"

text \<open>\<^verbatim>\<open>emplace\<close> keeps what the key has already.\<close>

definition AddSender :: "u64 \<Rightarrow> NetMessageSender \<Rightarrow> NetMessageSenderList \<Rightarrow> NetMessageSenderList" where
  "AddSender connection_id sender m = (if m connection_id = None then m(connection_id \<mapsto> sender) else m)"

definition RemoveSender :: "u64 \<Rightarrow> NetMessageSenderList \<Rightarrow> NetMessageSenderList" where
  "RemoveSender connection_id m = m(connection_id := None)"

section \<open>Messages of the types of a list\<close>

text \<open>
  \<open>vtId\<close> tells the types apart, \<open>vtFresh\<close> is a default-constructed value, \<open>vtGetDefault\<close> is
  \<^verbatim>\<open>StormReflGetDefault<Type>()\<close>, a pointer.
\<close>

record 'v variant_type =
  vtId :: nat
  vtSer :: "'v serializer"
  vtDeser :: "'v deserializer"
  vtFresh :: 'v
  vtGetDefault :: "'v option"

fun GetTypeIndex :: "nat \<Rightarrow> nat list \<Rightarrow> int \<Rightarrow> int" where
  "GetTypeIndex t [] i = -1"
| "GetTypeIndex t (test # types) i = (if t = test then i else GetTypeIndex t types (i + 1))"

fun NetPipeVariantInit :: "'v variant_type list \<Rightarrow> 'v serializer list" where
  "NetPipeVariantInit [] = []"
| "NetPipeVariantInit (t # types) = vtSer t # NetPipeVariantInit types"

record 'v VariantSender =
  vsChannel :: pipe_channel
  vsSerializers :: "'v serializer list"

definition VariantSender_Initialize ::
    "'v variant_type list \<Rightarrow> NetPipeMode \<Rightarrow> int \<Rightarrow> int \<Rightarrow> 'v VariantSender" where
  "VariantSender_Initialize types mode channel_index bits =
     \<lparr>vsChannel = Pipe_Initialize mode channel_index bits, vsSerializers = NetPipeVariantInit types\<rparr>"

definition Variant_SendMessage ::
    "bool \<Rightarrow> 'v variant_type list \<Rightarrow> 't NetTransmitter \<Rightarrow> 'v VariantSender \<Rightarrow> 'v variant_type \<Rightarrow> 'v
       \<Rightarrow> 't \<Rightarrow> 't result" where
  "Variant_SendMessage dbg types T s D data =
     with_message T (pcMode (vsChannel s)) (pcChannelIndex (vsChannel s)) (pcChannelBits (vsChannel s)) (\<lambda>writer.
       let class_id = GetTypeIndex (vtId D) (map vtId types) 0 in
       if class_id = -1 then Inl ThrowFalse
       else ebind (WriteBits dbg (word_of_int class_id) (channel_bits (length types)) writer) (vtSer D data))"

definition Variant_SendMessage_index ::
    "bool \<Rightarrow> 'v variant_type list \<Rightarrow> 't NetTransmitter \<Rightarrow> 'v VariantSender \<Rightarrow> int \<Rightarrow> 'v \<Rightarrow> 't \<Rightarrow> 't result" where
  "Variant_SendMessage_index dbg types T s type_index data =
     with_message T (pcMode (vsChannel s)) (pcChannelIndex (vsChannel s)) (pcChannelBits (vsChannel s)) (\<lambda>writer.
       ebind (WriteBits dbg (word_of_int type_index) (channel_bits (length types)) writer) (\<lambda>writer.
         if 0 \<le> type_index \<and> nat type_index < length (vsSerializers s)
         then (vsSerializers s ! nat type_index) data writer
         else Inl Undefined))"

text \<open>The stored callbacks read \<^verbatim>\<open>m_DefaultData\<close> of the receiver when they are called.\<close>

type_synonym ('v, 'e) generic_call =
  "NetBitReaderBuffer \<Rightarrow> 'v option list \<Rightarrow> (u64 \<times> 'v \<Rightarrow> 'e \<Rightarrow> 'e result) \<Rightarrow> 'e
     \<Rightarrow> (NetBitReaderBuffer \<times> 'e) result"

record ('v, 'e) VariantReceiver =
  vrGenericCallback :: "(u64 \<times> 'v, 'e) callback"
  vrCallbacks :: "('v option list \<Rightarrow> 'e reader_callback) option list"
  vrCallGeneric :: "('v, 'e) generic_call option list"
  vrDefaultData :: "'v option list"

definition VariantReceiver_init :: "'v variant_type list \<Rightarrow> ('v, 'e) VariantReceiver" where
  "VariantReceiver_init types =
     \<lparr>vrGenericCallback = None, vrCallbacks = replicate (length types) None,
      vrCallGeneric = replicate (length types) None, vrDefaultData = replicate (length types) None\<rparr>"

definition variant_call :: "nat \<Rightarrow> 'v variant_type \<Rightarrow> ('v, 'e) generic_call" where
  "variant_call index t reader def default_callback e =
     (case def ! index of
        Some data \<Rightarrow>
          ebind (vtDeser t data reader) (\<lambda>(new_elem, reader).
          ebind (default_callback (of_nat index, new_elem) e) (\<lambda>e. Inr (reader, e)))
      | None \<Rightarrow>
          ebind (vtDeser t (vtFresh t) reader) (\<lambda>(new_elem, reader).
          ebind (default_callback (of_nat index, new_elem) e) (\<lambda>e. Inr (reader, e))))"

fun NetPipeVariantReceiverInit :: "nat \<Rightarrow> 'v variant_type list \<Rightarrow> ('v, 'e) generic_call option list" where
  "NetPipeVariantReceiverInit index [] = []"
| "NetPipeVariantReceiverInit index (t # types) =
     Some (variant_call index t) # NetPipeVariantReceiverInit (Suc index) types"

definition VariantReceiver_Initialize ::
    "'v variant_type list \<Rightarrow> ('v, 'e) VariantReceiver \<Rightarrow> ('v, 'e) VariantReceiver" where
  "VariantReceiver_Initialize types rc =
     rc\<lparr>vrDefaultData := map vtGetDefault types, vrCallGeneric := NetPipeVariantReceiverInit 0 types\<rparr>"

text \<open>A type that is not in the list does not compile here.\<close>

definition Variant_SetDefault ::
    "'v variant_type list \<Rightarrow> 'v variant_type \<Rightarrow> 'v option \<Rightarrow> ('v, 'e) VariantReceiver \<Rightarrow> ('v, 'e) VariantReceiver" where
  "Variant_SetDefault types D data_type rc =
     rc\<lparr>vrDefaultData := (vrDefaultData rc)[nat (GetTypeIndex (vtId D) (map vtId types) 0) := data_type]\<rparr>"

definition Variant_RegisterCallback ::
    "'v variant_type list \<Rightarrow> 'v variant_type \<Rightarrow> ('v \<Rightarrow> 'e \<Rightarrow> 'e result)
       \<Rightarrow> ('v, 'e) VariantReceiver \<Rightarrow> ('v, 'e) VariantReceiver result" where
  "Variant_RegisterCallback types D callback rc =
     (let class_id = GetTypeIndex (vtId D) (map vtId types) 0 in
      if class_id = -1 then Inl ThrowFalse
      else Inr (rc\<lparr>vrCallbacks := (vrCallbacks rc)[nat class_id := Some (\<lambda>default_data reader e.
        case default_data ! nat class_id of
          None \<Rightarrow> Inl Undefined
        | Some dt \<Rightarrow> deserialize_cb (vtDeser D) dt callback reader e)]\<rparr>))"

definition Variant_RegisterGenericCallback ::
    "(u64 \<times> 'v \<Rightarrow> 'e \<Rightarrow> 'e result) \<Rightarrow> ('v, 'e) VariantReceiver \<Rightarrow> ('v, 'e) VariantReceiver" where
  "Variant_RegisterGenericCallback callback rc = rc\<lparr>vrGenericCallback := Some callback\<rparr>"

definition Variant_GotMessage ::
    "'v variant_type list \<Rightarrow> ('v, 'e) VariantReceiver \<Rightarrow> 'e reader_callback" where
  "Variant_GotMessage types rc reader e =
     ebind (ReadUBits (channel_bits (length types)) reader) (\<lambda>(class_id, reader).
       if length (vrCallbacks rc) \<le> unat class_id then Inl Undefined
       else case vrCallbacks rc ! unat class_id of
         Some callback \<Rightarrow> callback (vrDefaultData rc) reader e
       | None \<Rightarrow>
           (case vrGenericCallback rc of
              None \<Rightarrow> Inr (reader, e)
            | Some generic \<Rightarrow>
                (case vrCallGeneric rc ! unat class_id of
                   None \<Rightarrow> Inl BadFunctionCall
                 | Some call \<Rightarrow> call reader (vrDefaultData rc) generic e)))"

section \<open>Messages as pipes\<close>

lemma class_id_bits_eq: "database_ok db Ss \<Longrightarrow> class_id_bits db = int (class_bits db)"
  unfolding class_id_bits_def by (rule class_bits_eq)

abbreviation message_body ::
    "bool \<Rightarrow> 'v NetTypeDatabase \<Rightarrow> nat \<times> 'v \<Rightarrow> NetBitWriterVector \<Rightarrow> NetBitWriterVector result" where
  "message_body dbg db m writer \<equiv>
     ebind (WriteBits dbg (of_nat (fst m)) (class_id_bits db) writer) (tiSerialize (dbTypes db ! fst m) (snd m))"

text \<open>A receiver with the callbacks \<open>fs\<close>, one or none for each class, and the generic callback \<open>g\<close>.\<close>

definition receives ::
    "'v NetTypeDatabase \<Rightarrow> 'v field_spec list \<Rightarrow> ('v, 'e) MessageReceiver
       \<Rightarrow> ('v \<Rightarrow> 'e \<Rightarrow> 'e result) option list \<Rightarrow> (u64 \<times> 'v, 'e) callback \<Rightarrow> bool" where
  "receives db Ss rc fs g \<longleftrightarrow> mrGenericCallback rc = g \<and> length fs = length (dbTypes db)
     \<and> length (mrCallbacks rc) = length fs
     \<and> (\<forall>k < length fs. \<exists>fresh. sObj (Ss ! k) fresh \<and>
          mrCallbacks rc ! k = map_option (deserialize_cb (tiDeserialize (dbTypes db ! k)) fresh) (fs ! k))"

lemma receives_init:
  assumes "database_ok db Ss"
  shows "receives db Ss (MessageReceiver_init db) (replicate (length (dbTypes db)) None) None"
proof -
  have "\<exists>fresh. sObj (Ss ! k) fresh" if "k < length (dbTypes db)" for k
    using class_create [OF class_index(3) [OF assms that]] by blast
  moreover have "fst (GetNumTypes db) = length (dbTypes db)"
    using assms by (simp add: GetNumTypes_def finalized_def database_ok_def)
  ultimately show ?thesis by (simp add: receives_def MessageReceiver_init_def)
qed

lemma receives_generic:
  "receives db Ss rc fs g \<Longrightarrow> receives db Ss (Message_RegisterGenericCallback f rc) fs (Some f)"
  by (simp add: receives_def Message_RegisterGenericCallback_def)

lemma receives_register:
  assumes "database_ok db Ss" "receives db Ss rc fs g" "find_hash h 0 (dbTypes db) = Some k"
    and "sObj (Ss ! k) fresh"
  shows "\<exists>rc'. Message_RegisterCallback db h (tiDeserialize (dbTypes db ! k)) fresh f rc = Inr rc'
    \<and> receives db Ss rc' (fs[k := Some f]) g"
proof -
  have k: "k < length (dbTypes db)" using assms(3) by (auto simp: find_hash_Some)
  have "finalized db = db" using assms(1) by (simp add: finalized_def database_ok_def)
  with assms(2-4) k class_index(1) [OF assms(1) k] show ?thesis
    by (auto simp: Message_RegisterCallback_def GetClassId_def Let_def receives_def nth_list_update)
qed

definition message_deliver ::
    "('v \<Rightarrow> 'e \<Rightarrow> 'e result) option list \<Rightarrow> (u64 \<times> 'v, 'e) callback \<Rightarrow> nat \<times> 'v \<Rightarrow> 'e \<Rightarrow> 'e result" where
  "message_deliver fs g m e =
     (case fs ! fst m of Some f \<Rightarrow> f (snd m) e | None \<Rightarrow> run_callback g (of_nat (fst m), snd m) e)"

definition message_ok ::
    "'v NetTypeDatabase \<Rightarrow> 'v field_spec list \<Rightarrow> ('v \<Rightarrow> 'e \<Rightarrow> 'e result) option list
       \<Rightarrow> (u64 \<times> 'v, 'e) callback \<Rightarrow> nat \<times> 'v \<Rightarrow> bool" where
  "message_ok db Ss fs g m \<longleftrightarrow> fst m < length (dbTypes db) \<and> sWf (Ss ! fst m) (snd m)
     \<and> (fs ! fst m \<noteq> None \<or> g \<noteq> None)"

lemma message_body_enc:
  assumes "database_ok db Ss" "fst m < length (dbTypes db)" "sWf (Ss ! fst m) (snd m)" "winv w"
  shows "\<exists>w'. message_body dbg db m w = Inr w' \<and> wrote w w' (poly_enc db Ss (fst m) (snd m))"
proof -
  note b = class_bits_eq [OF assms(1)]
  have "class_bits db \<le> 64" using b(3) by simp
  from WriteBits_nat [OF assms(4) b(2) [OF assms(2)] this, of dbg] obtain w1 where
    1: "WriteBits dbg (of_nat (fst m)) (int (class_bits db)) w = Inr w1"
      "wrote w w1 (nat_bits (class_bits db) (fst m))" by blast
  from value_codec.ser_enc [OF class_codecs(1) [OF class_index(3) [OF assms(1,2)]] wrote_winv [OF 1(2)] assms(3)]
  obtain w2 where 2: "tiSerialize (dbTypes db ! fst m) (snd m) w1 = Inr w2" "wrote w1 w2 (sEnc (Ss ! fst m) (snd m))"
    by blast
  show ?thesis
    using 1(1) 2(1) wrote_trans [OF 1(2) 2(2)]
    by (simp add: class_id_bits_eq [OF assms(1)] poly_enc_def)
qed

lemma read_class_id:
  assumes "database_ok db Ss" "k < 2 ^ class_bits db" "rinv r" "rbits r = nat_bits (class_bits db) k @ rest"
  shows "\<exists>r'. ReadUBits (class_id_bits db) r = Inr (of_nat k, r') \<and> rinv r' \<and> rbits r' = rest
    \<and> unat (of_nat k :: u64) = k"
proof -
  note b = class_bits_eq(3) [OF assms(1)]
  have "unat (of_nat k :: u64) = k" using unat_of_nat_bound [OF assms(2)] b by simp
  with ReadUBits_nat [OF assms(3,4,2) b] show ?thesis
    by (auto simp: class_id_bits_eq [OF assms(1)] dest: consumed_rinv)
qed

lemma message_got_enc:
  assumes "database_ok db Ss" "receives db Ss rc fs g" "message_ok db Ss fs g m"
    and "rinv r" "rbits r = poly_enc db Ss (fst m) (snd m) @ rest" "message_deliver fs g m e = Inr e'"
  shows "\<exists>r'. Message_GotMessage db rc r e = Inr (r', e') \<and> rinv r' \<and> rbits r' = rest"
proof -
  obtain k v where m: "m = (k, v)" by (cases m)
  have k: "k < length (dbTypes db)" "sWf (Ss ! k) v" "fs ! k \<noteq> None \<or> g \<noteq> None"
    using assms(3) by (simp_all add: message_ok_def m)
  note ck = class_index [OF assms(1) k(1)] and b = class_bits_eq(2) [OF assms(1) k(1)]
  have "rbits r = nat_bits (class_bits db) k @ sEnc (Ss ! k) v @ rest"
    using assms(5) by (simp add: poly_enc_def m)
  from read_class_id [OF assms(1) b assms(4) this] obtain r1 where
    1: "ReadUBits (class_id_bits db) r = Inr (of_nat k, r1)" "rinv r1" "rbits r1 = sEnc (Ss ! k) v @ rest" by blast
  have nt: "fst (GetNumTypes db) = length (dbTypes db)"
    using assms(1) by (simp add: GetNumTypes_def finalized_def database_ok_def)
  note deser = value_codec.deser_rest [OF class_codecs(1) [OF ck(3)] 1(2) k(2) _ 1(3)]
  from assms(2) k(1) obtain fresh where rc: "mrGenericCallback rc = g" "length (mrCallbacks rc) = length (dbTypes db)"
    and fresh: "sObj (Ss ! k) fresh"
      "mrCallbacks rc ! k = map_option (deserialize_cb (tiDeserialize (dbTypes db ! k)) fresh) (fs ! k)"
    by (auto simp: receives_def)
  show ?thesis
  proof (cases "fs ! k")
    case (Some f)
    from deser [OF fresh(1)] obtain r2 where
      "tiDeserialize (dbTypes db ! k) fresh r1 = Inr (v, r2)" "consumed r1 r2 (sEnc (Ss ! k) v)" "rbits r2 = rest" by blast
    with Some 1(1) ck(1) k(1) nt rc fresh(2) assms(6) show ?thesis
      by (auto simp: Message_GotMessage_def deserialize_cb_def message_deliver_def m dest: consumed_rinv)
  next
    case None
    with k(3) obtain f where g: "g = Some f" by auto
    from class_create [OF ck(3)] obtain v0 where v0: "sObj (Ss ! k) v0"
      "HeapCreate (dbTypes db ! k) = Some \<lparr>obValue = v0, obAllocator = tiAllocator (dbTypes db ! k)\<rparr>" by blast
    from deser [OF v0(1)] obtain r2 where
      "tiDeserialize (dbTypes db ! k) v0 r1 = Inr (v, r2)" "consumed r1 r2 (sEnc (Ss ! k) v)" "rbits r2 = rest" by blast
    with None g 1(1) ck(1,2) k(1) nt rc fresh(2) assms(6) v0(2) HeapDestroy_own [OF ck(3), of v] show ?thesis
      by (auto simp: Message_GotMessage_def message_deliver_def m deref_def store_value_def dest: consumed_rinv)
  qed
qed

lemma message_pipe:
  assumes "database_ok db Ss" "receives db Ss rc fs g"
  shows "pipe (message_body dbg db) (Message_GotMessage db rc) (message_deliver fs g) (message_ok db Ss fs g)
    (\<lambda>m. poly_enc db Ss (fst m) (snd m))"
proof
  show "\<exists>w'. message_body dbg db m w = Inr w' \<and> appended w w' (poly_enc db Ss (fst m) (snd m))"
    if "winv w" "message_ok db Ss fs g m" for w m
    using message_body_enc [OF assms(1) _ _ that(1), of m dbg] that(2) wrote_appended
    by (fastforce simp: message_ok_def)
  show "\<exists>r'. Message_GotMessage db rc r e = Inr (r', e') \<and> rinv r' \<and> rbits r' = rest"
    if "rinv r" "message_ok db Ss fs g m" "rbits r = poly_enc db Ss (fst m) (snd m) @ rest"
      "message_deliver fs g m e = Inr e'" for r m rest e e'
    by (rule message_got_enc [OF assms that(2,1,3,4)])
qed

lemma efold_cong:
  "(\<And>m t. m \<in> set ms \<Longrightarrow> f m t = f' m t) \<Longrightarrow> efold f ms t = efold f' ms t"
proof (induction ms arbitrary: t)
  case (Cons m ms)
  then show ?case by (cases "f m t") auto
qed simp

lemma send_ptr_body:
  assumes "database_ok db Ss" "fst m < length (dbTypes db)"
  shows "Message_SendMessage_ptr dbg db T c (of_nat (fst m)) (snd m) t =
    with_message T (pcMode c) (pcChannelIndex c) (pcChannelBits c) (message_body dbg db m) t"
  using class_index(2) [OF assms] by (simp add: Message_SendMessage_ptr_def)

text \<open>With different classes having different hashes, both ways of sending are the same.\<close>

lemma send_typed:
  assumes "database_ok db Ss" "k < length (dbTypes db)" "distinct (map tiTypeIdHash (dbTypes db))"
  shows "Message_SendMessage dbg db T c (tiTypeIdHash (dbTypes db ! k)) (tiSerialize (dbTypes db ! k)) v t =
    Message_SendMessage_ptr dbg db T c (of_nat k) v t"
proof -
  have "finalized db = db" using assms(1) by (simp add: finalized_def database_ok_def)
  then have "GetClassId (tiTypeIdHash (dbTypes db ! k)) db = Inr (of_nat k, db)"
    using find_hash_nth [OF assms(3,2), of 0] by (simp add: GetClassId_def)
  then show ?thesis
    using class_index(2) [OF assms(1,2)] by (simp add: Message_SendMessage_def Message_SendMessage_ptr_def)
qed

text \<open>C9: messages of the classes of a database, each sent over channel \<open>i\<close> with its
  class id, reach the receiver of channel \<open>i\<close> of the other side in the order they were sent in: each
  goes, unchanged, to the callback registered for its class, and if there is none to the generic
  callback with its class id. Nothing on the way throws, and every object created for a generic
  callback is given back to the pool it is from.\<close>

theorem message_end_to_end:
  assumes "database_ok db Ss" "receives db Ss rc fs g"
    and "\<forall>m \<in> set ms. message_ok db Ss fs g m" "efold (message_deliver fs g) ms e = Inr e'"
    and "\<And>r x. got (npReceivers P ! i) r x =
      ebind (Message_GotMessage db rc r x) (\<lambda>(r, x). Inr (npReceivers P ! i, r, x))"
    and "i < n" "n = length (npReceivers P)" "n < 2 ^ 31"
    and "c = Pipe_Initialize mode (int i) (channel_bits n)"
    and "memory_ready t" "tmOutgoingPackets t = []"
  shows "\<exists>t1 t2. efold (\<lambda>m. Message_SendMessage_ptr dbg db (Memory dbg) c (of_nat (fst m)) (snd m)) ms t = Inr t1
    \<and> SendToProtocol (Protocol_packet got_ack got) t1 (P, e) = Inr (ms \<noteq> [], t2, P, e')
    \<and> tmOutgoingPackets t2 = []"
proof -
  note p = message_pipe [OF assms(1,2), of dbg]
  have chan: "got (npReceivers P ! i) r x = Inr (npReceivers P ! i, r', x')"
    if "Message_GotMessage db rc r x = Inr (r', x')" for r x r' x'
    using that assms(5) by simp
  have pk: "Protocol_packet got_ack got =
      (\<lambda>r s. ebind (Protocol_GotMessage got_ack got r s) (\<lambda>(_, s). Inr s))"
    by (intro ext) (simp add: Protocol_packet_def)
  have sy: "efold (\<lambda>m. Message_SendMessage_ptr dbg db (Memory dbg) c (of_nat (fst m)) (snd m)) ms t =
      efold (\<lambda>m. with_message (Memory dbg) mode (int i) (channel_bits n) (message_body dbg db m)) ms t"
    using assms(3) by (intro efold_cong)
      (simp add: send_ptr_body [OF assms(1)] message_ok_def assms(9) Pipe_Initialize_def)
  show ?thesis
    using pipe.end_to_end [where got_channel = got and P = P and i = i and n = n,
        OF p assms(6-8) _ assms(10,11,3,4)] chan
    unfolding pk sy by blast
qed

section \<open>Messages to many connections\<close>

lemma for_senders_list:
  assumes "distinct cs" "\<And>c s. c \<in> set cs \<Longrightarrow> m c = Some s \<Longrightarrow> predicate c \<Longrightarrow>
      \<exists>t'. f s (ts (msTransmitter s)) = Inr t'"
    and "\<And>c c' s s'. c \<in> set cs \<Longrightarrow> c' \<in> set cs \<Longrightarrow> m c = Some s \<Longrightarrow> m c' = Some s' \<Longrightarrow>
      msTransmitter s = msTransmitter s' \<Longrightarrow> c = c'"
  shows "\<exists>ts'. efold (\<lambda>c ts. case m c of None \<Rightarrow> Inr ts
      | Some s \<Rightarrow> if predicate c then at_transmitter (msTransmitter s) (f s) ts else Inr ts) cs ts = Inr ts'
    \<and> (\<forall>c \<in> set cs. \<forall>s. m c = Some s \<and> predicate c \<longrightarrow>
         f s (ts (msTransmitter s)) = Inr (ts' (msTransmitter s)))
    \<and> (\<forall>k. (\<forall>c \<in> set cs. \<forall>s. m c = Some s \<and> predicate c \<longrightarrow> msTransmitter s \<noteq> k) \<longrightarrow> ts' k = ts k)"
  using assms
proof (induction cs arbitrary: ts)
  case Nil
  then show ?case by simp
next
  case (Cons c cs)
  let ?go = "\<lambda>c ts. case m c of None \<Rightarrow> Inr ts
      | Some s \<Rightarrow> if predicate c then at_transmitter (msTransmitter s) (f s) ts else Inr ts"
  show ?case
  proof (cases "\<exists>s. m c = Some s \<and> predicate c")
    case False
    then have "?go c ts = Inr ts" by (auto split: option.splits)
    with Cons.IH [of ts] Cons.prems False show ?thesis by fastforce
  next
    case True
    then obtain s where s: "m c = Some s" "predicate c" by blast
    from Cons.prems(2) [of c s] s obtain t' where t': "f s (ts (msTransmitter s)) = Inr t'" by auto
    let ?ts = "ts(msTransmitter s := t')"
    have go: "?go c ts = Inr ?ts" using s t' by (simp add: at_transmitter_def)
    have ne: "msTransmitter s' \<noteq> msTransmitter s" if "c' \<in> set cs" "m c' = Some s'" for c' s'
      using Cons.prems(1) Cons.prems(3) [of c' c s' s] that s by auto
    have "\<exists>t'. f s' (?ts (msTransmitter s')) = Inr t'"
      if "c' \<in> set cs" "m c' = Some s'" "predicate c'" for c' s'
      using Cons.prems(2) [of c' s'] ne that by simp
    moreover have "c1 = c2" if "c1 \<in> set cs" "c2 \<in> set cs" "m c1 = Some s1" "m c2 = Some s2"
        "msTransmitter s1 = msTransmitter s2" for c1 c2 s1 s2
      using Cons.prems(3) [of c1 c2 s1 s2] that by simp
    moreover have "distinct cs" using Cons.prems(1) by simp
    ultimately obtain ts' where ts': "efold ?go cs ?ts = Inr ts'"
      "\<forall>c \<in> set cs. \<forall>s. m c = Some s \<and> predicate c \<longrightarrow> f s (?ts (msTransmitter s)) = Inr (ts' (msTransmitter s))"
      "\<forall>k. (\<forall>c \<in> set cs. \<forall>s. m c = Some s \<and> predicate c \<longrightarrow> msTransmitter s \<noteq> k) \<longrightarrow> ts' k = ?ts k"
      using Cons.IH [of ?ts] by blast
    have "ts' (msTransmitter s) = t'" using ts'(3) ne by fastforce
    with ts' go s t' ne show ?thesis by (intro exI [of _ ts']) auto
  qed
qed

text \<open>A message to all connections a predicate holds for (or to all of them)
  reaches each of their transmitters once, as the pipe of that connection would have sent it, and no
  other transmitter, whatever order the standard library visits the senders in.\<close>

theorem broadcast_order:
  assumes "distinct (order m)" "set (order m) = dom m"
    and "inj_on (\<lambda>c. map_option msTransmitter (m c)) (dom m)"
    and "send = (\<lambda>s. Message_SendMessage dbg db (T (msTransmitter s)) (msChannel s) type_hash ser data)"
    and "\<forall>c s. m c = Some s \<and> predicate c \<longrightarrow> (\<exists>t'. send s (ts (msTransmitter s)) = Inr t')"
  shows "\<exists>ts'. List_SendMessage_if order dbg db T type_hash ser data predicate m ts = Inr ts'
    \<and> (\<forall>c s. m c = Some s \<and> predicate c \<longrightarrow> send s (ts (msTransmitter s)) = Inr (ts' (msTransmitter s)))
    \<and> (\<forall>k. (\<forall>c s. m c = Some s \<and> predicate c \<longrightarrow> msTransmitter s \<noteq> k) \<longrightarrow> ts' k = ts k)
    \<and> ((\<forall>c. predicate c) \<longrightarrow> List_SendMessage order dbg db T type_hash ser data m ts = Inr ts')"
proof -
  have s: "Sender_SendMessage dbg db T type_hash ser data = (\<lambda>s. at_transmitter (msTransmitter s) (send s))"
    by (intro ext) (simp add: Sender_SendMessage_def Message_SendMessage_def [abs_def] assms(4))
  have inj: "c = c'" if "m c = Some s" "m c' = Some s'" "msTransmitter s = msTransmitter s'" for c c' s s'
    using inj_onD [OF assms(3), of c c'] that by auto
  from for_senders_list [OF assms(1), of m predicate send ts] assms(5) inj obtain ts' where
    ts': "efold (\<lambda>c ts. case m c of None \<Rightarrow> Inr ts
      | Some s \<Rightarrow> if predicate c then at_transmitter (msTransmitter s) (send s) ts else Inr ts) (order m) ts = Inr ts'"
    "\<forall>c \<in> set (order m). \<forall>s. m c = Some s \<and> predicate c \<longrightarrow> send s (ts (msTransmitter s)) = Inr (ts' (msTransmitter s))"
    "\<forall>k. (\<forall>c \<in> set (order m). \<forall>s. m c = Some s \<and> predicate c \<longrightarrow> msTransmitter s \<noteq> k) \<longrightarrow> ts' k = ts k"
    by blast
  have all: "(\<forall>c. predicate c) \<Longrightarrow> predicate = (\<lambda>_. True)" by (intro ext) simp
  have d: "m c = Some s \<Longrightarrow> c \<in> set (order m)" for c s using assms(2) by auto
  show ?thesis
  proof (intro exI [of _ ts'] conjI allI impI)
    show "List_SendMessage_if order dbg db T type_hash ser data predicate m ts = Inr ts'"
      using ts'(1) by (simp add: List_SendMessage_if_def for_senders_def s)
    then show "List_SendMessage order dbg db T type_hash ser data m ts = Inr ts'" if "\<forall>c. predicate c"
      using all [OF that] by (simp add: List_SendMessage_if_def List_SendMessage_def)
    show "send s (ts (msTransmitter s)) = Inr (ts' (msTransmitter s))" if "m c = Some s \<and> predicate c" for c s
      using ts'(2) d that by blast
    show "ts' k = ts k" if "\<forall>c s. m c = Some s \<and> predicate c \<longrightarrow> msTransmitter s \<noteq> k" for k
      using ts'(3) that by blast
  qed
qed

section \<open>Variants as pipes\<close>

definition type_ok :: "'v variant_type \<Rightarrow> 'v field_spec \<Rightarrow> bool" where
  "type_ok D S \<longleftrightarrow> value_codec (vtSer D) (vtDeser D) (sWf S) (sObj S) (sEnc S) \<and> sObj S (vtFresh D)
     \<and> pred_option (sObj S) (vtGetDefault D)"

definition types_ok :: "'v variant_type list \<Rightarrow> 'v field_spec list \<Rightarrow> bool" where
  "types_ok types Ss \<longleftrightarrow> list_all2 type_ok types Ss \<and> distinct (map vtId types)
     \<and> types \<noteq> [] \<and> length types < 2 ^ 31"

lemma GetTypeIndex_nth:
  "distinct types \<Longrightarrow> k < length types \<Longrightarrow> GetTypeIndex (types ! k) types i = i + int k"
  by (induction types arbitrary: i k) (auto simp: nth_Cons' split: if_splits)

lemma GetTypeIndex_none: "t \<notin> set types \<Longrightarrow> GetTypeIndex t types i = -1"
  by (induction types arbitrary: i) auto

lemma NetPipeVariantInit_map: "NetPipeVariantInit types = map vtSer types"
  by (induction types) simp_all

lemma NetPipeVariantReceiverInit_nth:
  "k < length types \<Longrightarrow> NetPipeVariantReceiverInit i types ! k = Some (variant_call (i + k) (types ! k))"
  by (induction types arbitrary: i k) (auto simp: nth_Cons')

lemma length_NetPipeVariantReceiverInit [simp]:
  "length (NetPipeVariantReceiverInit i types) = length types"
  by (induction types arbitrary: i) simp_all

text \<open>A receiver after \<^verbatim>\<open>Initialize\<close> with the callbacks \<open>fs\<close> and the generic callback \<open>g\<close>.\<close>

definition variant_receives ::
    "'v variant_type list \<Rightarrow> 'v field_spec list \<Rightarrow> ('v, 'e) VariantReceiver
       \<Rightarrow> ('v \<Rightarrow> 'e \<Rightarrow> 'e result) option list \<Rightarrow> (u64 \<times> 'v, 'e) callback \<Rightarrow> bool" where
  "variant_receives types Ss rc fs g \<longleftrightarrow> vrGenericCallback rc = g
     \<and> vrCallGeneric rc = NetPipeVariantReceiverInit 0 types
     \<and> length fs = length types \<and> length (vrCallbacks rc) = length types
     \<and> list_all2 (\<lambda>d S. pred_option (sObj S) d) (vrDefaultData rc) Ss
     \<and> (\<forall>k < length types. vrCallbacks rc ! k = map_option (\<lambda>f default_data reader e.
          case default_data ! k of None \<Rightarrow> Inl Undefined
          | Some dt \<Rightarrow> deserialize_cb (vtDeser (types ! k)) dt f reader e) (fs ! k))"

lemma variant_receives_init:
  assumes "types_ok types Ss"
  shows "variant_receives types Ss (VariantReceiver_Initialize types (VariantReceiver_init types))
    (replicate (length types) None) None"
proof -
  have "list_all2 (\<lambda>d S. pred_option (sObj S) d) (map vtGetDefault types) Ss"
    using assms by (auto simp: types_ok_def type_ok_def list_all2_conv_all_nth)
  then show ?thesis
    by (simp add: variant_receives_def VariantReceiver_Initialize_def VariantReceiver_init_def)
qed

lemma variant_receives_generic:
  "variant_receives types Ss rc fs g \<Longrightarrow>
    variant_receives types Ss (Variant_RegisterGenericCallback f rc) fs (Some f)"
  by (simp add: variant_receives_def Variant_RegisterGenericCallback_def)

lemma variant_receives_register:
  assumes "types_ok types Ss" "variant_receives types Ss rc fs g" "k < length types"
  shows "\<exists>rc'. Variant_RegisterCallback types (types ! k) f rc = Inr rc'
    \<and> variant_receives types Ss rc' (fs[k := Some f]) g"
proof -
  have "GetTypeIndex (vtId (types ! k)) (map vtId types) 0 = int k"
    using GetTypeIndex_nth [of "map vtId types" k 0] assms by (simp add: types_ok_def)
  with assms(2,3) show ?thesis
    by (simp add: Variant_RegisterCallback_def Let_def variant_receives_def nth_list_update)
qed

lemma type_index:
  assumes "types_ok types Ss" "k < length types"
  shows "channel_bits (length types) = int (size_bits (length types - 1))"
    "k < 2 ^ size_bits (length types - 1)" "size_bits (length types - 1) < 64"
    "unat (of_nat k :: u64) = k" "type_ok (types ! k) (Ss ! k)"
    "GetTypeIndex (vtId (types ! k)) (map vtId types) 0 = int k"
proof -
  have n: "0 < length types" "length types < 2 ^ 31" using assms by (auto simp: types_ok_def)
  note c = channel_bits_eq [OF n]
  show "channel_bits (length types) = int (size_bits (length types - 1))"
    "size_bits (length types - 1) < 64" using c by simp_all
  show k: "k < 2 ^ size_bits (length types - 1)" using c(2) assms(2) by linarith
  then show "unat (of_nat k :: u64) = k" using unat_of_nat_bound [of k] c(3) by simp
  show "type_ok (types ! k) (Ss ! k)" using assms by (auto simp: types_ok_def list_all2_conv_all_nth)
  show "GetTypeIndex (vtId (types ! k)) (map vtId types) 0 = int k"
    using GetTypeIndex_nth [of "map vtId types" k 0] assms by (simp add: types_ok_def)
qed

definition variant_enc :: "'v variant_type list \<Rightarrow> 'v field_spec list \<Rightarrow> nat \<times> 'v \<Rightarrow> bool list" where
  "variant_enc types Ss m = nat_bits (size_bits (length types - 1)) (fst m) @ sEnc (Ss ! fst m) (snd m)"

text \<open>A callback of its own needs a default value, the generic one does not.\<close>

definition variant_ok ::
    "'v variant_type list \<Rightarrow> 'v field_spec list \<Rightarrow> ('v, 'e) VariantReceiver
       \<Rightarrow> ('v \<Rightarrow> 'e \<Rightarrow> 'e result) option list \<Rightarrow> (u64 \<times> 'v, 'e) callback \<Rightarrow> nat \<times> 'v \<Rightarrow> bool" where
  "variant_ok types Ss rc fs g m \<longleftrightarrow> fst m < length types \<and> sWf (Ss ! fst m) (snd m)
     \<and> (if fs ! fst m \<noteq> None then vrDefaultData rc ! fst m \<noteq> None else g \<noteq> None)"

abbreviation variant_body ::
    "bool \<Rightarrow> 'v variant_type list \<Rightarrow> nat \<times> 'v \<Rightarrow> NetBitWriterVector \<Rightarrow> NetBitWriterVector result" where
  "variant_body dbg types m writer \<equiv>
     ebind (WriteBits dbg (of_nat (fst m)) (channel_bits (length types)) writer) (vtSer (types ! fst m) (snd m))"

lemma variant_body_enc:
  assumes "types_ok types Ss" "fst m < length types" "sWf (Ss ! fst m) (snd m)" "winv w"
  shows "\<exists>w'. variant_body dbg types m w = Inr w' \<and> wrote w w' (variant_enc types Ss m)"
proof -
  note t = type_index [OF assms(1,2)]
  have "size_bits (length types - 1) \<le> 64" using t(3) by simp
  from WriteBits_nat [OF assms(4) t(2) this, of dbg] obtain w1 where
    1: "WriteBits dbg (of_nat (fst m)) (int (size_bits (length types - 1))) w = Inr w1"
      "wrote w w1 (nat_bits (size_bits (length types - 1)) (fst m))" by blast
  from t(5) have "value_codec (vtSer (types ! fst m)) (vtDeser (types ! fst m)) (sWf (Ss ! fst m))
      (sObj (Ss ! fst m)) (sEnc (Ss ! fst m))" by (simp add: type_ok_def)
  from value_codec.ser_enc [OF this wrote_winv [OF 1(2)] assms(3)] obtain w2 where
    2: "vtSer (types ! fst m) (snd m) w1 = Inr w2" "wrote w1 w2 (sEnc (Ss ! fst m) (snd m))" by blast
  show ?thesis
    using 1(1) 2(1) wrote_trans [OF 1(2) 2(2)] by (simp add: t(1) variant_enc_def)
qed

lemma variant_got_enc:
  assumes "types_ok types Ss" "variant_receives types Ss rc fs g" "variant_ok types Ss rc fs g m"
    and "rinv r" "rbits r = variant_enc types Ss m @ rest" "message_deliver fs g m e = Inr e'"
  shows "\<exists>r'. Variant_GotMessage types rc r e = Inr (r', e') \<and> rinv r' \<and> rbits r' = rest"
proof -
  obtain k v where m: "m = (k, v)" by (cases m)
  have k: "k < length types" "sWf (Ss ! k) v"
    and some: "if fs ! k \<noteq> None then vrDefaultData rc ! k \<noteq> None else g \<noteq> None"
    using assms(3) by (auto simp: variant_ok_def m split: if_splits)
  note t = type_index [OF assms(1) k(1)]
  have "rbits r = nat_bits (size_bits (length types - 1)) k @ sEnc (Ss ! k) v @ rest"
    using assms(5) by (simp add: variant_enc_def m)
  from ReadUBits_nat [OF assms(4) this t(2,3)] obtain r1 where
    1: "ReadUBits (channel_bits (length types)) r = Inr (of_nat k, r1)"
      "consumed r r1 (nat_bits (size_bits (length types - 1)) k)" "rbits r1 = sEnc (Ss ! k) v @ rest"
    by (auto simp: t(1))
  from t(5) have "value_codec (vtSer (types ! k)) (vtDeser (types ! k)) (sWf (Ss ! k))
      (sObj (Ss ! k)) (sEnc (Ss ! k))" by (simp add: type_ok_def)
  note deser = value_codec.deser_rest [OF this consumed_rinv [OF 1(2)] k(2) _ 1(3)]
  have l: "length (vrCallbacks rc) = length types" "vrGenericCallback rc = g"
    "vrCallGeneric rc ! k = Some (variant_call k (types ! k))"
    using assms(2) NetPipeVariantReceiverInit_nth [OF k(1), of 0] by (simp_all add: variant_receives_def)
  have cb: "vrCallbacks rc ! k = map_option (\<lambda>f default_data reader e.
      case default_data ! k of None \<Rightarrow> Inl Undefined
      | Some dt \<Rightarrow> deserialize_cb (vtDeser (types ! k)) dt f reader e) (fs ! k)"
    using assms(2) k(1) by (simp add: variant_receives_def)
  have d: "pred_option (sObj (Ss ! k)) (vrDefaultData rc ! k)"
  proof -
    have "length types = length Ss" using assms(1) by (auto simp: types_ok_def list_all2_iff)
    then show ?thesis using assms(2) k(1) by (auto simp: variant_receives_def list_all2_conv_all_nth)
  qed
  show ?thesis
  proof (cases "fs ! k")
    case (Some f)
    with some obtain dt where dt: "vrDefaultData rc ! k = Some dt" by auto
    with d deser [of dt] obtain r2 where
      "vtDeser (types ! k) dt r1 = Inr (v, r2)" "consumed r1 r2 (sEnc (Ss ! k) v)" "rbits r2 = rest" by auto
    with Some dt 1(1) k(1) l(1) cb t(4) assms(6) show ?thesis
      by (auto simp: Variant_GotMessage_def deserialize_cb_def message_deliver_def m dest: consumed_rinv)
  next
    case None
    with some obtain f where g: "g = Some f" by auto
    let ?dt = "case vrDefaultData rc ! k of Some dt \<Rightarrow> dt | None \<Rightarrow> vtFresh (types ! k)"
    have "sObj (Ss ! k) ?dt" using d t(5) by (auto simp: type_ok_def split: option.splits)
    from deser [OF this] obtain r2 where
      "vtDeser (types ! k) ?dt r1 = Inr (v, r2)" "consumed r1 r2 (sEnc (Ss ! k) v)" "rbits r2 = rest" by blast
    with None g 1(1) k(1) l cb t(4) assms(6) show ?thesis
      by (cases "vrDefaultData rc ! k")
        (auto simp: Variant_GotMessage_def variant_call_def message_deliver_def m dest: consumed_rinv)
  qed
qed

lemma variant_pipe:
  assumes "types_ok types Ss" "variant_receives types Ss rc fs g"
  shows "pipe (variant_body dbg types) (Variant_GotMessage types rc) (message_deliver fs g)
    (variant_ok types Ss rc fs g) (variant_enc types Ss)"
proof
  show "\<exists>w'. variant_body dbg types m w = Inr w' \<and> appended w w' (variant_enc types Ss m)"
    if "winv w" "variant_ok types Ss rc fs g m" for w m
    using variant_body_enc [OF assms(1) _ _ that(1), of m dbg] that(2) wrote_appended
    by (fastforce simp: variant_ok_def)
  show "\<exists>r'. Variant_GotMessage types rc r e = Inr (r', e') \<and> rinv r' \<and> rbits r' = rest"
    if "rinv r" "variant_ok types Ss rc fs g m" "rbits r = variant_enc types Ss m @ rest"
      "message_deliver fs g m e = Inr e'" for r m rest e e'
    by (rule variant_got_enc [OF assms that(2,1,3,4)])
qed

text \<open>C21: the same for messages of a list of types, each sent with the index of its type:
  each reaches the callback of its type, which needs a default value to start from, or the generic
  callback, which does not.\<close>

theorem variant_end_to_end:
  assumes "types_ok types Ss" "variant_receives types Ss rc fs g"
    and "\<forall>m \<in> set ms. variant_ok types Ss rc fs g m" "efold (message_deliver fs g) ms e = Inr e'"
    and "\<And>r x. got (npReceivers P ! i) r x =
      ebind (Variant_GotMessage types rc r x) (\<lambda>(r, x). Inr (npReceivers P ! i, r, x))"
    and "i < n" "n = length (npReceivers P)" "n < 2 ^ 31"
    and "s = VariantSender_Initialize types mode (int i) (channel_bits n)"
    and "memory_ready t" "tmOutgoingPackets t = []"
  shows "\<exists>t1 t2. efold (\<lambda>m. Variant_SendMessage dbg types (Memory dbg) s (types ! fst m) (snd m)) ms t = Inr t1
    \<and> efold (\<lambda>m. Variant_SendMessage_index dbg types (Memory dbg) s (int (fst m)) (snd m)) ms t = Inr t1
    \<and> SendToProtocol (Protocol_packet got_ack got) t1 (P, e) = Inr (ms \<noteq> [], t2, P, e')
    \<and> tmOutgoingPackets t2 = []"
proof -
  note p = variant_pipe [OF assms(1,2), of dbg]
  have chan: "got (npReceivers P ! i) r x = Inr (npReceivers P ! i, r', x')"
    if "Variant_GotMessage types rc r x = Inr (r', x')" for r x r' x'
    using that assms(5) by simp
  have pk: "Protocol_packet got_ack got =
      (\<lambda>r s. ebind (Protocol_GotMessage got_ack got r s) (\<lambda>(_, s). Inr s))"
    by (intro ext) (simp add: Protocol_packet_def)
  let ?sent = "efold (\<lambda>m. with_message (Memory dbg) mode (int i) (channel_bits n) (variant_body dbg types m)) ms t"
  have sy: "efold (\<lambda>m. Variant_SendMessage dbg types (Memory dbg) s (types ! fst m) (snd m)) ms t = ?sent"
    using assms(3) type_index(6) [OF assms(1)]
    by (intro efold_cong) (simp add: Variant_SendMessage_def variant_ok_def assms(9)
        VariantSender_Initialize_def Pipe_Initialize_def Let_def)
  have sx: "efold (\<lambda>m. Variant_SendMessage_index dbg types (Memory dbg) s (int (fst m)) (snd m)) ms t = ?sent"
    using assms(3) by (intro efold_cong) (simp add: Variant_SendMessage_index_def variant_ok_def assms(9)
        VariantSender_Initialize_def Pipe_Initialize_def NetPipeVariantInit_map)
  show ?thesis
    using pipe.end_to_end [where got_channel = got and P = P and i = i and n = n,
        OF p assms(6-8) _ assms(10,11,3,4)] chan
    unfolding pk sy sx by blast
qed

text \<open>A class id the receiver has no class for, which the bits of the field have room
  for unless the number of classes is a power of two. A receiver of database classes leaves the
  message alone; a receiver of a list of types reads past the end of its array of callbacks.\<close>

theorem foreign_class_id:
  assumes "database_ok db Ss" "types_ok types Ts" "length (vrCallbacks vrc) = length types"
    and "length types = length (dbTypes db)" "length types \<le> k" "k < 2 ^ size_bits (length types - 1)"
    and "rinv r" "rbits r = nat_bits (size_bits (length types - 1)) k @ rest"
  shows "(\<exists>r'. Message_GotMessage db mrc r e = Inr (r', e) \<and> rbits r' = rest)
    \<and> Variant_GotMessage types vrc r e' = Inl Undefined"
proof
  have "k < 2 ^ class_bits db" "rbits r = nat_bits (class_bits db) k @ rest" using assms(4,6,8) by simp_all
  from read_class_id [OF assms(1) this(1) assms(7) this(2)] obtain r1 where
    1: "ReadUBits (class_id_bits db) r = Inr (of_nat k, r1)" "rbits r1 = rest" "unat (of_nat k :: u64) = k" by blast
  moreover have "fst (GetNumTypes db) = length (dbTypes db)"
    using assms(1) by (simp add: GetNumTypes_def finalized_def database_ok_def)
  ultimately show "\<exists>r'. Message_GotMessage db mrc r e = Inr (r', e) \<and> rbits r' = rest"
    using assms(4,5) by (simp add: Message_GotMessage_def)
  have "0 < length types" using assms(2) by (simp add: types_ok_def)
  note t = type_index [OF assms(2) this]
  from ReadUBits_nat [OF assms(7,8,6) t(3)] obtain r2 where
    "ReadUBits (channel_bits (length types)) r = Inr (of_nat k, r2)" by (auto simp: t(1))
  then show "Variant_GotMessage types vrc r e' = Inl Undefined"
    using 1(3) assms(3,5) by (simp add: Variant_GotMessage_def)
qed

section \<open>Concrete messages\<close>

abbreviation shape_receiver :: "(bool, (u64 \<times> bool) list) MessageReceiver" where
  "shape_receiver \<equiv> Message_RegisterGenericCallback log_to (MessageReceiver_init shape_db)"

lemma shape_db_types: "length (dbTypes shape_db) = 2"
  by (simp add: shape_db_def)

lemma shape_receives: "receives shape_db [bool_spec, bool_spec] shape_receiver [None, None] (Some log_to)"
  using receives_generic [OF receives_init [OF shape_db_ok], of log_to]
  by (simp add: shape_db_types numeral_2_eq_2)

abbreviation one_channel :: "'r \<Rightarrow> (unit, 'r) NetProtocol" where
  "one_channel rc \<equiv> \<lparr>npSenders = [()], npReceivers = [rc]\<rparr>"

text \<open>The receiver's part of a protocol of one message pipe.\<close>

definition shape_got :: "((bool, (u64 \<times> bool) list) MessageReceiver, (u64 \<times> bool) list) got_message" where
  "shape_got rc r x = ebind (Message_GotMessage shape_db rc r x) (\<lambda>(r, x). Inr (rc, r, x))"

theorem message_end_to_end_witness:
  "\<exists>t1 t2. efold (\<lambda>m. Message_SendMessage_ptr True shape_db (Memory True)
        (Pipe_Initialize kReliable (int 0) (channel_bits 1)) (of_nat (fst m)) (snd m))
        [(1, True), (0, False)] NetTransmitterMemory_init = Inr t1
    \<and> SendToProtocol (Protocol_packet (\<lambda>s r. Inr (s, r)) shape_got) t1 (one_channel shape_receiver, []) =
      Inr ([(1 :: nat, True), (0, False)] \<noteq> [], t2, one_channel shape_receiver, [(1, True), (0, False)])
    \<and> tmOutgoingPackets t2 = []"
proof -
  let ?ms = "[(1 :: nat, True), (0, False)]" and ?fs = "[None, None] :: (bool \<Rightarrow> (u64 \<times> bool) list \<Rightarrow> (u64 \<times> bool) list result) option list"
  have ok: "\<forall>m \<in> set ?ms. message_ok shape_db [bool_spec, bool_spec] ?fs (Some log_to) m"
    by (simp add: message_ok_def shape_db_types)
  have d: "efold (message_deliver ?fs (Some log_to)) ?ms [] = Inr [(1, True), (0, False)]"
    by (simp add: message_deliver_def)
  have got: "shape_got (npReceivers (one_channel shape_receiver) ! 0) r x = ebind (Message_GotMessage shape_db shape_receiver r x)
      (\<lambda>(r, x). Inr (npReceivers (one_channel shape_receiver) ! 0, r, x))" for r x
    by (simp add: shape_got_def)
  have n: "(0 :: nat) < 1" "1 = length (npReceivers (one_channel shape_receiver))" "(1 :: nat) < 2 ^ 31" by simp_all
  show ?thesis
    by (rule message_end_to_end [where got = shape_got and P = "one_channel shape_receiver" and i = 0
          and mode = kReliable, OF shape_db_ok shape_receives ok d got n refl memory_ready_init])
qed

abbreviation flag_type :: "nat \<Rightarrow> bool variant_type" where
  "flag_type k \<equiv> \<lparr>vtId = k, vtSer = NetSerializer_bool True, vtDeser = NetDeserializer_bool, vtFresh = False,
     vtGetDefault = None\<rparr>"

abbreviation flag_types :: "nat \<Rightarrow> bool variant_type list" where
  "flag_types n \<equiv> map flag_type [0..<n]"

abbreviation flag_receiver :: "nat \<Rightarrow> (bool, (u64 \<times> bool) list) VariantReceiver" where
  "flag_receiver n \<equiv> Variant_RegisterGenericCallback log_to
     (VariantReceiver_Initialize (flag_types n) (VariantReceiver_init (flag_types n)))"

lemma flag_types_ok: "0 < n \<Longrightarrow> n < 2 ^ 31 \<Longrightarrow> types_ok (flag_types n) (replicate n bool_spec)"
proof -
  have "value_codec (NetSerializer_bool True) NetDeserializer_bool (sWf bool_spec) (sObj bool_spec) (sEnc bool_spec)"
    using field_ok_codecs(1) [OF bool_field_ok [of True False]] by (simp add: bool_field_def)
  then show "0 < n \<Longrightarrow> n < 2 ^ 31 \<Longrightarrow> types_ok (flag_types n) (replicate n bool_spec)"
    by (simp add: types_ok_def type_ok_def list_all2_conv_all_nth comp_def)
qed

definition flag_got :: "((bool, (u64 \<times> bool) list) VariantReceiver, (u64 \<times> bool) list) got_message" where
  "flag_got rc r x = ebind (Variant_GotMessage (flag_types 3) rc r x) (\<lambda>(r, x). Inr (rc, r, x))"

theorem variant_end_to_end_witness:
  "\<exists>t1 t2. efold (\<lambda>m. Variant_SendMessage True (flag_types 3) (Memory True)
        (VariantSender_Initialize (flag_types 3) kReliable (int 0) (channel_bits 1))
        (flag_types 3 ! fst m) (snd m)) [(2, True), (0, False)] NetTransmitterMemory_init = Inr t1
    \<and> efold (\<lambda>m. Variant_SendMessage_index True (flag_types 3) (Memory True)
        (VariantSender_Initialize (flag_types 3) kReliable (int 0) (channel_bits 1))
        (int (fst m)) (snd m)) [(2, True), (0, False)] NetTransmitterMemory_init = Inr t1
    \<and> SendToProtocol (Protocol_packet (\<lambda>s r. Inr (s, r)) flag_got) t1 (one_channel (flag_receiver 3), []) =
      Inr ([(2 :: nat, True), (0, False)] \<noteq> [], t2, one_channel (flag_receiver 3), [(2, True), (0, False)])
    \<and> tmOutgoingPackets t2 = []"
proof -
  let ?ms = "[(2 :: nat, True), (0, False)]"
  let ?fs = "replicate (length (flag_types 3)) None :: (bool \<Rightarrow> (u64 \<times> bool) list \<Rightarrow> (u64 \<times> bool) list result) option list"
  have "(0 :: nat) < 3" "(3 :: nat) < 2 ^ 31" by simp_all
  note types = flag_types_ok [OF this]
  note rc = variant_receives_generic [OF variant_receives_init [OF types], of log_to]
  have ok: "\<forall>m \<in> set ?ms. variant_ok (flag_types 3) (replicate 3 bool_spec) (flag_receiver 3) ?fs (Some log_to) m"
    by (simp add: variant_ok_def)
  have d: "efold (message_deliver ?fs (Some log_to)) ?ms [] = Inr [(2, True), (0, False)]"
    by (simp add: message_deliver_def)
  have got: "flag_got (npReceivers (one_channel (flag_receiver 3)) ! 0) r x =
      ebind (Variant_GotMessage (flag_types 3) (flag_receiver 3) r x)
        (\<lambda>(r, x). Inr (npReceivers (one_channel (flag_receiver 3)) ! 0, r, x))" for r x
    by (simp add: flag_got_def)
  have n: "(0 :: nat) < 1" "1 = length (npReceivers (one_channel (flag_receiver 3)))" "(1 :: nat) < 2 ^ 31"
    by simp_all
  show ?thesis
    by (rule variant_end_to_end [where got = flag_got and P = "one_channel (flag_receiver 3)" and i = 0
          and mode = kReliable, OF types rc ok d got n refl memory_ready_init])
qed

theorem foreign_class_id_witness:
  "Variant_GotMessage (flag_types 3) (flag_receiver 3) (NetBitReaderBuffer_init [3]) [] = Inl Undefined"
proof -
  let ?db = "shape_db\<lparr>dbTypes := dbTypes shape_db @ [(class_entry ''Triangle'' 3 9 0)\<lparr>tiClassId := 2\<rparr>]\<rparr>"
  have "class_ok ((class_entry ''Triangle'' 3 9 0)\<lparr>tiClassId := 2\<rparr>) bool_spec"
    using class_index(3) [OF shape_db_ok, of 0] by (simp add: shape_db_def class_ok_def class_entry_def)
  then have "database_ok ?db [bool_spec, bool_spec, bool_spec]"
    using shape_db_ok
    by (auto simp: database_ok_def shape_db_def class_entry_def less_Suc_eq)
  moreover have "size_bits (length (flag_types 3) - 1) = 2" by simp code_simp
  ultimately have *: "database_ok ?db [bool_spec, bool_spec, bool_spec]" "size_bits (length (flag_types 3) - 1) = 2"
    by blast+
  have "(0 :: nat) < 3" "(3 :: nat) < 2 ^ 31" by simp_all
  note types = flag_types_ok [OF this]
  have l: "length (vrCallbacks (flag_receiver 3)) = length (flag_types 3)" "length (flag_types 3) = length (dbTypes ?db)"
    "length (flag_types 3) \<le> 3" "(3 :: nat) < 2 ^ size_bits (length (flag_types 3) - 1)"
    using *(2) by (simp_all add: Variant_RegisterGenericCallback_def VariantReceiver_Initialize_def
        VariantReceiver_init_def shape_db_types)
  have r: "rinv (NetBitReaderBuffer_init [3])" "rbits (NetBitReaderBuffer_init [3]) =
      nat_bits (size_bits (length (flag_types 3) - 1)) 3 @ [False, False, False, False, False, False]"
    unfolding *(2) by (simp_all add: byte_bits_def upt_rec nat_bits_def bits_of_def)
  show ?thesis by (rule conjunct2 [OF foreign_class_id [OF *(1) types l r]])
qed

theorem broadcast_order_witness:
  "\<exists>ts'. List_SendMessage_if (\<lambda>m. [5]) True shape_db (\<lambda>_. Memory True) 7 (NetSerializer_bool True) True
     (\<lambda>_. True) [5 \<mapsto> NetMessageSender_of 0 (Pipe_Initialize kReliable (int 0) (int 1))]
     (\<lambda>_. NetTransmitterMemory_init) = Inr ts'"
proof -
  let ?s = "NetMessageSender_of 0 (Pipe_Initialize kReliable (int 0) (int 1))"
  let ?send = "\<lambda>s. Message_SendMessage True shape_db (Memory True) (msChannel s) 7 (NetSerializer_bool True) True"
  have d: "distinct (map tiTypeIdHash (dbTypes shape_db))" "tiTypeIdHash (dbTypes shape_db ! 1) = 7"
    "tiSerialize (dbTypes shape_db ! 1) = NetSerializer_bool True"
    by (simp_all add: shape_db_def class_entry_def)
  have 1: "1 < length (dbTypes shape_db)" by (simp add: shape_db_types)
  have b: "\<exists>w'. message_body True shape_db (1, True) w = Inr w' \<and> appended w w' (poly_enc shape_db [bool_spec, bool_spec] 1 True)"
    if w: "winv w" for w
  proof -
    have "fst (1 :: nat, True) < length (dbTypes shape_db)"
      "sWf ([bool_spec, bool_spec] ! fst (1 :: nat, True)) (snd (1 :: nat, True))" using 1 by simp_all
    from message_body_enc [OF shape_db_ok this w, of True] obtain w' where
      w': "message_body True shape_db (1, True) w = Inr w' \<and> wrote w w' (poly_enc shape_db [bool_spec, bool_spec] 1 True)"
      unfolding fst_conv snd_conv ..
    show ?thesis
      by (rule exI [of _ w'], rule conjI [OF conjunct1 [OF w'] wrote_appended [OF conjunct2 [OF w']]])
  qed
  let ?c = "Pipe_Initialize kReliable (int 0) (int 1)"
  have "?send ?s NetTransmitterMemory_init =
      Message_SendMessage_ptr True shape_db (Memory True) ?c (of_nat (fst (1 :: nat, True))) (snd (1 :: nat, True)) NetTransmitterMemory_init"
    using send_typed [OF shape_db_ok 1 d(1), of True "Memory True" ?c True] d(2,3)
    by (simp add: NetMessageSender_of_def)
  also have "\<dots> = with_message (Memory True) kReliable (int 0) (int 1) (message_body True shape_db (1, True)) NetTransmitterMemory_init"
    using send_ptr_body [OF shape_db_ok, of "(1, True)" True "Memory True" ?c] 1 by (simp add: Pipe_Initialize_def)
  finally have e: "?send ?s NetTransmitterMemory_init = \<dots>" .
  have "(0 :: nat) < 2 ^ 1" "(1 :: nat) \<le> 64" by simp_all
  from memory.with_message [OF memory_ready_init(1) this b, of True kReliable] have
    ok: "\<exists>t'. ?send ?s NetTransmitterMemory_init = Inr t'" unfolding e by blast
  have order: "distinct [5 :: u64]" "set [5 :: u64] = dom [5 \<mapsto> ?s]"
    "inj_on (\<lambda>c. map_option msTransmitter ([5 \<mapsto> ?s] c)) (dom [5 \<mapsto> ?s])" by simp_all
  have all: "\<forall>c s. [5 \<mapsto> ?s] c = Some s \<and> True \<longrightarrow> (\<exists>t'. ?send s NetTransmitterMemory_init = Inr t')"
    using ok by auto
  from broadcast_order [where T = "\<lambda>_. Memory True" and order = "\<lambda>_. [5]" and ts = "\<lambda>_. NetTransmitterMemory_init",
      OF order refl all] show ?thesis by (elim exE conjE) (rule exI)
qed

end
