(* ===== verification/Replay.thy ===== *)
theory Replay
  imports Protocol
begin

text \<open>
  Recording and replaying: \<^verbatim>\<open>NetTransmitterReplayStream.h\<close> and \<^verbatim>\<open>.cpp\<close>, a transmitter that keeps
  what it is given in a chain of blocks with the time it was sent at, and
  \<^verbatim>\<open>NetReplayStreamReader.h\<close>, which hands a recording to a protocol when its times have come.

  Pointers have eight bytes. The contents of a block that \<^verbatim>\<open>malloc\<close> returned as the \<open>k\<close>-th are
  \<open>fresh k\<close>. The clock's readings are \<open>now\<close>.
\<close>

section \<open>The recorder\<close>

abbreviation kNetTransmitterBufferSize :: nat where
  "kNetTransmitterBufferSize \<equiv> 4088"

text \<open>\<open>rsBlocks\<close> is the chain from the initial block on; \<open>rsCurrentBlock\<close> says which one
  \<^verbatim>\<open>m_CurrentBlock\<close> points to.\<close>

record NetTransmitterReplayStream =
  rsStartTime :: u32
  rsWriter :: NetBitWriterVector
  rsBlocks :: "u8 list list"
  rsCurrentOffset :: nat
  rsCurrentBlock :: nat

definition ReplayStream_init :: "(nat \<Rightarrow> u8 list) \<Rightarrow> u32 \<Rightarrow> NetTransmitterReplayStream" where
  "ReplayStream_init fresh now = \<lparr>rsStartTime = now, rsWriter = NetBitWriterVector_init,
     rsBlocks = [fresh 0], rsCurrentOffset = 0, rsCurrentBlock = 0\<rparr>"

definition memcpy_at :: "nat \<Rightarrow> u8 list \<Rightarrow> u8 list \<Rightarrow> u8 list" where
  "memcpy_at offset data buffer = take offset buffer @ data @ drop (offset + length data) buffer"

definition copy_to_current :: "u8 list \<Rightarrow> NetTransmitterReplayStream \<Rightarrow> NetTransmitterReplayStream" where
  "copy_to_current data s =
     s\<lparr>rsBlocks := (rsBlocks s)[rsCurrentBlock s :=
         memcpy_at (rsCurrentOffset s) data (rsBlocks s ! rsCurrentBlock s)]\<rparr>"

function WriteData :: "(nat \<Rightarrow> u8 list) \<Rightarrow> u8 list \<Rightarrow> NetTransmitterReplayStream \<Rightarrow> NetTransmitterReplayStream" where
  "WriteData fresh data s =
     (if 0 < length data then
        let space_avail = kNetTransmitterBufferSize - rsCurrentOffset s in
        if length data \<le> space_avail then
          (copy_to_current data s)\<lparr>rsCurrentOffset := rsCurrentOffset s + length data\<rparr>
        else
          let s = copy_to_current (take space_avail data) s;
              blocks = take (Suc (rsCurrentBlock s)) (rsBlocks s)
          in WriteData fresh (drop space_avail data)
               (s\<lparr>rsCurrentOffset := 0, rsBlocks := blocks @ [fresh (length blocks)],
                  rsCurrentBlock := Suc (rsCurrentBlock s)\<rparr>)
      else s)"
  by pat_completeness auto
termination
  by (relation "measure (\<lambda>(_, data, s). 2 * length data +
      (if kNetTransmitterBufferSize \<le> rsCurrentOffset s then 1 else 0))") (auto simp: Let_def)

declare WriteData.simps [simp del]

definition Replay_CreateWriter ::
    "bool \<Rightarrow> NetPipeMode \<Rightarrow> int \<Rightarrow> int \<Rightarrow> bool \<Rightarrow> NetTransmitterReplayStream
       \<Rightarrow> NetTransmitterReplayStream result" where
  "Replay_CreateWriter dbg mode channel_index bits ack s =
     ebind (CreateDefaultMessage dbg channel_index bits ack (rsWriter s)) (\<lambda>w. Inr (s\<lparr>rsWriter := w\<rparr>))"

definition Replay_SendWriter ::
    "(nat \<Rightarrow> u8 list) \<Rightarrow> u32 \<Rightarrow> NetTransmitterReplayStream \<Rightarrow> NetTransmitterReplayStream result" where
  "Replay_SendWriter fresh now s =
     (let data = wBuffer (rsWriter s);
          size = of_nat (length data) :: u32;
          time = now - rsStartTime s;
          s = WriteData fresh (u32_bytes time) s;
          s = WriteData fresh (u32_bytes size) s;
          s = WriteData fresh (take (unat size) data) s
      in Inr (s\<lparr>rsWriter := Reset (rsWriter s)\<rparr>))"

definition Replay :: "bool \<Rightarrow> (nat \<Rightarrow> u8 list) \<Rightarrow> u32 \<Rightarrow> NetTransmitterReplayStream NetTransmitter" where
  "Replay dbg fresh now = \<lparr>CreateWriter = Replay_CreateWriter dbg, SendWriter = Replay_SendWriter fresh now,
     theWriter = rsWriter, setWriter = (\<lambda>w s. s\<lparr>rsWriter := w\<rparr>)\<rparr>"

definition Replay_Start :: "u32 \<Rightarrow> NetTransmitterReplayStream \<Rightarrow> NetTransmitterReplayStream" where
  "Replay_Start now s = s\<lparr>rsStartTime := now\<rparr>"

text \<open>\<open>None\<close> is a file that could not be opened, \<open>Some\<close> what was written to it.\<close>

definition SaveToFile :: "bool \<Rightarrow> NetTransmitterReplayStream \<Rightarrow> u8 list option" where
  "SaveToFile opened s =
     (if \<not> opened then None
      else Some (concat (map (\<lambda>(k, block).
        if k = rsCurrentBlock s then take (rsCurrentOffset s) block
        else take kNetTransmitterBufferSize block) (enumerate 0 (rsBlocks s)))))"

definition Replay_Clear :: "NetTransmitterReplayStream \<Rightarrow> NetTransmitterReplayStream" where
  "Replay_Clear s = s\<lparr>rsBlocks := take 1 (rsBlocks s), rsCurrentBlock := 0, rsCurrentOffset := 0\<rparr>"

section \<open>The player\<close>

text \<open>\<open>rrBuffer\<close> is what is left of the recording from \<^verbatim>\<open>m_Buffer\<close> on: reading behind it is undefined.\<close>

abbreviation INT_MAX :: u32 where
  "INT_MAX \<equiv> 0x7FFFFFFF"

record NetReplayStreamReader =
  rrStartTime :: u32
  rrBuffer :: "u8 list"
  rrRemainingSize :: nat
  rrNextPacketSize :: u32
  rrNextPacketTime :: u32

definition ReadNextPacket :: "NetReplayStreamReader \<Rightarrow> NetReplayStreamReader result" where
  "ReadNextPacket r =
     (if rrRemainingSize r < 8 then Inr (r\<lparr>rrNextPacketSize := 0, rrNextPacketTime := INT_MAX\<rparr>)
      else if length (rrBuffer r) < 8 then Inl Undefined
      else
        let time = u32_of_bytes (take 4 (rrBuffer r));
            size = u32_of_bytes (take 4 (drop 4 (rrBuffer r)));
            r = r\<lparr>rrBuffer := drop 8 (rrBuffer r)\<rparr>
        in
        if rrRemainingSize r < unat size then Inr (r\<lparr>rrNextPacketSize := 0, rrNextPacketTime := INT_MAX\<rparr>)
        else Inr (r\<lparr>rrNextPacketSize := size, rrNextPacketTime := time\<rparr>))"

definition NetReplayStreamReader_init :: "u32 \<Rightarrow> u8 list \<Rightarrow> NetReplayStreamReader result" where
  "NetReplayStreamReader_init now buffer =
     ReadNextPacket \<lparr>rrStartTime = now, rrBuffer = buffer, rrRemainingSize = length buffer,
       rrNextPacketSize = 0, rrNextPacketTime = 0\<rparr>"

text \<open>The loop of \<^verbatim>\<open>Update\<close>; \<open>None\<close> if it does not end. \<open>got\<close> is the protocol's \<^verbatim>\<open>GotMessage\<close>.\<close>

partial_function (option) update_loop ::
    "(NetBitReaderBuffer \<Rightarrow> 'p \<Rightarrow> 'p result) \<Rightarrow> u32 \<Rightarrow> NetReplayStreamReader \<Rightarrow> 'p
       \<Rightarrow> (NetReplayStreamReader \<times> 'p) result option" where
  "update_loop got cur_time r p =
     (if rrNextPacketTime r \<le> cur_time then
        if length (rrBuffer r) < unat (rrNextPacketSize r) then Some (Inl Undefined)
        else
          (case got (NetBitReaderBuffer_init (take (unat (rrNextPacketSize r)) (rrBuffer r))) p of
             Inl e \<Rightarrow> Some (Inl e)
           | Inr p \<Rightarrow>
               (case ReadNextPacket (r\<lparr>rrBuffer := drop (unat (rrNextPacketSize r)) (rrBuffer r)\<rparr>) of
                  Inl e \<Rightarrow> Some (Inl e)
                | Inr r \<Rightarrow> update_loop got cur_time r p))
      else Some (Inr (r, p)))"

definition Replay_Update ::
    "(NetBitReaderBuffer \<Rightarrow> 'p \<Rightarrow> 'p result) \<Rightarrow> u32 \<Rightarrow> NetReplayStreamReader \<Rightarrow> 'p
       \<Rightarrow> (NetReplayStreamReader \<times> 'p) result option" where
  "Replay_Update got now r p = update_loop got (now - rrStartTime r) r p"

definition SkiptToNextPacket :: "u32 \<Rightarrow> NetReplayStreamReader \<Rightarrow> NetReplayStreamReader" where
  "SkiptToNextPacket now r =
     (if rrNextPacketTime r = INT_MAX then r
      else
        let cur_time = now - rrStartTime r in
        if cur_time < rrNextPacketTime r
        then r\<lparr>rrStartTime := rrStartTime r - (rrNextPacketTime r - cur_time)\<rparr>
        else r)"

definition IsFinished :: "NetReplayStreamReader \<Rightarrow> bool" where
  "IsFinished r \<longleftrightarrow> rrNextPacketTime r = INT_MAX"

record NetReplayStreamCursor =
  rcCurrentTime :: u32
  rcRemainingSize :: nat
  rcNextPacketSize :: u32
  rcNextPacketTime :: u32

definition GetCursor :: "u32 \<Rightarrow> NetReplayStreamReader \<Rightarrow> NetReplayStreamCursor" where
  "GetCursor now r = \<lparr>rcCurrentTime = now - rrStartTime r, rcRemainingSize = rrRemainingSize r,
     rcNextPacketSize = rrNextPacketSize r, rcNextPacketTime = rrNextPacketTime r\<rparr>"

text \<open>The cursor has no position in the buffer.\<close>

definition LoadCursor :: "u32 \<Rightarrow> NetReplayStreamCursor \<Rightarrow> NetReplayStreamReader \<Rightarrow> NetReplayStreamReader" where
  "LoadCursor now cursor r = r\<lparr>rrStartTime := now - rcCurrentTime cursor,
     rrNextPacketSize := rcNextPacketSize cursor, rrNextPacketTime := rcNextPacketTime cursor,
     rrRemainingSize := rcRemainingSize cursor\<rparr>"

section \<open>What is recorded\<close>

definition replay_ok :: "NetTransmitterReplayStream \<Rightarrow> bool" where
  "replay_ok s \<longleftrightarrow> length (rsBlocks s) = Suc (rsCurrentBlock s)
     \<and> (\<forall>b \<in> set (rsBlocks s). length b = kNetTransmitterBufferSize)
     \<and> rsCurrentOffset s \<le> kNetTransmitterBufferSize"

definition written :: "NetTransmitterReplayStream \<Rightarrow> u8 list" where
  "written s = concat (butlast (rsBlocks s)) @ take (rsCurrentOffset s) (last (rsBlocks s))"

abbreviation blocks_ok :: "(nat \<Rightarrow> u8 list) \<Rightarrow> bool" where
  "blocks_ok fresh \<equiv> \<forall>k. length (fresh k) = kNetTransmitterBufferSize"

lemma replay_ok_blocks:
  assumes "replay_ok s"
  obtains bs b where "rsBlocks s = bs @ [b]" "rsCurrentBlock s = length bs"
    "\<forall>b \<in> set bs. length b = kNetTransmitterBufferSize" "length b = kNetTransmitterBufferSize"
    "rsCurrentOffset s \<le> kNetTransmitterBufferSize"
proof -
  have l: "length (rsBlocks s) = Suc (rsCurrentBlock s)" using assms by (simp add: replay_ok_def)
  then have "rsBlocks s \<noteq> []" by auto
  then have e: "rsBlocks s = butlast (rsBlocks s) @ [last (rsBlocks s)]" by simp
  have "\<forall>b \<in> set (butlast (rsBlocks s) @ [last (rsBlocks s)]). length b = kNetTransmitterBufferSize"
    using assms e unfolding replay_ok_def by metis
  then show thesis
    using that [OF e] l assms by (simp add: replay_ok_def)
qed

lemma memcpy_at:
  assumes "offset + length data \<le> length buffer"
  shows "length (memcpy_at offset data buffer) = length buffer"
    "take (offset + length data) (memcpy_at offset data buffer) = take offset buffer @ data"
proof -
  have "length (take offset buffer) = offset" using assms by simp
  then show "length (memcpy_at offset data buffer) = length buffer"
    "take (offset + length data) (memcpy_at offset data buffer) = take offset buffer @ data"
    using assms by (simp_all add: memcpy_at_def)
qed

lemma WriteData_written:
  assumes "blocks_ok fresh"
  shows "replay_ok s \<Longrightarrow> replay_ok (WriteData fresh data s) \<and> written (WriteData fresh data s) = written s @ data
    \<and> rsWriter (WriteData fresh data s) = rsWriter s \<and> rsStartTime (WriteData fresh data s) = rsStartTime s"
proof (induction "length data + (if kNetTransmitterBufferSize \<le> rsCurrentOffset s then 1 else 0) + length data"
    arbitrary: data s rule: less_induct)
  case less
  from less.prems obtain bs b where s: "rsBlocks s = bs @ [b]" "rsCurrentBlock s = length bs"
    "\<forall>b \<in> set bs. length b = kNetTransmitterBufferSize" "length b = kNetTransmitterBufferSize"
    "rsCurrentOffset s \<le> kNetTransmitterBufferSize" by (rule replay_ok_blocks)
  let ?o = "rsCurrentOffset s"
  let ?n = "kNetTransmitterBufferSize - ?o"
  show ?case
  proof (cases "data = []")
    case True
    then show ?thesis using less.prems by (simp add: WriteData.simps [of fresh "[]"])
  next
    case data: False
    show ?thesis
    proof (cases "length data \<le> ?n")
      case True
      note m = memcpy_at [of ?o data b]
      have "?o + length data \<le> length b" using True s(4,5) by simp
      with True data s m show ?thesis
        by (subst (1 2 3 4) WriteData.simps) (auto simp: copy_to_current_def Let_def replay_ok_def written_def)
    next
      case False
      let ?s = "s\<lparr>rsCurrentOffset := 0,
        rsBlocks := bs @ [memcpy_at ?o (take ?n data) b, fresh (Suc (length bs))], rsCurrentBlock := Suc (length bs)\<rparr>"
      have step: "WriteData fresh data s = WriteData fresh (drop ?n data) ?s"
        using data False s by (subst WriteData.simps) (simp add: copy_to_current_def Let_def)
      have l: "?o + length (take ?n data) = kNetTransmitterBufferSize" using False s(5) by simp
      then have m: "length (memcpy_at ?o (take ?n data) b) = kNetTransmitterBufferSize"
        "take kNetTransmitterBufferSize (memcpy_at ?o (take ?n data) b) = take ?o b @ take ?n data"
        using memcpy_at [of ?o "take ?n data" b] s(4) by simp_all
      then have "replay_ok ?s" using s assms by (auto simp: replay_ok_def)
      moreover have "written ?s = written s @ take ?n data" using m s by (simp add: written_def butlast_append)
      moreover have "length (drop ?n data) + (if kNetTransmitterBufferSize \<le> rsCurrentOffset ?s then 1 else 0)
          + length (drop ?n data)
        < length data + (if kNetTransmitterBufferSize \<le> rsCurrentOffset s then 1 else 0) + length data"
        using False s(5) by auto
      ultimately show ?thesis using less.hyps [of "drop ?n data" ?s] step by simp
    qed
  qed
qed

lemma SaveToFile_written:
  assumes "replay_ok s"
  shows "SaveToFile True s = Some (written s)"
proof -
  from assms obtain bs b where s: "rsBlocks s = bs @ [b]" "rsCurrentBlock s = length bs"
    "\<forall>b \<in> set bs. length b = kNetTransmitterBufferSize" by (rule replay_ok_blocks)
  let ?f = "\<lambda>(k, block). if k = length bs then take (rsCurrentOffset s) block
    else take kNetTransmitterBufferSize block"
  have "map ?f (enumerate 0 bs) = bs"
    using s(3) by (intro nth_equalityI) (simp_all add: nth_enumerate_eq)
  then show ?thesis
    using s(1,2) by (simp add: SaveToFile_def written_def enumerate_append_eq)
qed

text \<open>C14: the chain of blocks is a byte string: writing data of any length, over the ends of
  however many blocks, appends it to what a file would hold, and a cleared recorder holds nothing.
  What \<^verbatim>\<open>malloc\<close> left in a new block never shows.\<close>

theorem replay_file:
  assumes "blocks_ok fresh" "replay_ok s" "SaveToFile True s = Some file"
  shows "replay_ok (WriteData fresh data s) \<and> SaveToFile True (WriteData fresh data s) = Some (file @ data)
    \<and> replay_ok (Replay_Clear s) \<and> SaveToFile True (Replay_Clear s) = Some []"
proof -
  note w = WriteData_written [OF assms(1,2), of data]
  from assms(2) obtain bs b where s: "rsBlocks s = bs @ [b]" "rsCurrentBlock s = length bs"
    "\<forall>b \<in> set bs. length b = kNetTransmitterBufferSize" "length b = kNetTransmitterBufferSize"
    "rsCurrentOffset s \<le> kNetTransmitterBufferSize" by (rule replay_ok_blocks)
  then have c: "replay_ok (Replay_Clear s)" by (cases bs) (auto simp: replay_ok_def Replay_Clear_def)
  moreover have "written (Replay_Clear s) = []"
    using s by (cases bs) (auto simp: written_def Replay_Clear_def)
  ultimately show ?thesis
    using w SaveToFile_written [OF assms(2)] SaveToFile_written [OF c] assms(3)
      SaveToFile_written [OF conjunct1 [OF w]] by simp
qed

section \<open>Recordings\<close>

definition packet_bytes :: "u32 \<times> u8 list \<Rightarrow> u8 list" where
  "packet_bytes p = u32_bytes (fst p) @ u32_bytes (of_nat (length (snd p))) @ snd p"

definition recording :: "(u32 \<times> u8 list) list \<Rightarrow> u8 list" where
  "recording ps = concat (map packet_bytes ps)"

lemma recording_simps [simp]:
  "recording [] = []" "recording (p # ps) = packet_bytes p @ recording ps"
  "recording (ps @ qs) = recording ps @ recording qs"
  by (simp_all add: recording_def)

definition replay_ready :: "NetTransmitterReplayStream \<Rightarrow> bool" where
  "replay_ready s \<longleftrightarrow> replay_ok s \<and> winv (rsWriter s) \<and> wbits (rsWriter s) = []"

text \<open>The size of a message is cut to 32 bits.\<close>

definition replay_sends ::
    "u32 \<Rightarrow> NetTransmitterReplayStream \<Rightarrow> NetTransmitterReplayStream \<Rightarrow> bool list \<Rightarrow> bool" where
  "replay_sends now s s' bs \<longleftrightarrow> rsStartTime s' = rsStartTime s \<and> (\<exists>data. is_message data bs \<and>
     written s' = written s @ u32_bytes (now - rsStartTime s) @ u32_bytes (of_nat (length data))
       @ take (unat (of_nat (length data) :: u32)) data)"

lemma replay_ready_init:
  "blocks_ok fresh \<Longrightarrow> replay_ready (ReplayStream_init fresh start)"
  "written (ReplayStream_init fresh start) = []" "rsStartTime (ReplayStream_init fresh start) = start"
  by (simp_all add: replay_ready_def replay_ok_def ReplayStream_init_def written_def)

lemma Replay_SendWriter_spec:
  assumes "blocks_ok fresh" "replay_ok s" "winv (rsWriter s)"
  shows "\<exists>s'. Replay_SendWriter fresh now s = Inr s' \<and> replay_ready s' \<and> rsStartTime s' = rsStartTime s
    \<and> written s' = written s @ u32_bytes (now - rsStartTime s) @ u32_bytes (of_nat (length (wBuffer (rsWriter s))))
       @ take (unat (of_nat (length (wBuffer (rsWriter s))) :: u32)) (wBuffer (rsWriter s))"
proof -
  note w = WriteData_written [OF assms(1)]
  let ?size = "of_nat (length (wBuffer (rsWriter s))) :: u32"
  obtain s1 where s1: "s1 = WriteData fresh (u32_bytes (now - rsStartTime s)) s" by blast
  obtain s2 where s2: "s2 = WriteData fresh (u32_bytes ?size) s1" by blast
  obtain s3 where s3: "s3 = WriteData fresh (take (unat ?size) (wBuffer (rsWriter s))) s2" by blast
  note w1 = w [OF assms(2), of "u32_bytes (now - rsStartTime s)", folded s1]
  note w2 = w [OF conjunct1 [OF w1], of "u32_bytes ?size", folded s2]
  note w3 = w [OF conjunct1 [OF w2], of "take (unat ?size) (wBuffer (rsWriter s))", folded s3]
  have e: "Replay_SendWriter fresh now s = Inr (s3\<lparr>rsWriter := Reset (rsWriter s3)\<rparr>)"
    unfolding Replay_SendWriter_def Let_def s1 [symmetric] s2 [symmetric] s3 [symmetric] ..
  have r: "replay_ready (s3\<lparr>rsWriter := Reset (rsWriter s3)\<rparr>)"
    using w3 by (simp add: replay_ready_def replay_ok_def)
  have "written (s3\<lparr>rsWriter := x\<rparr>) = written s3" for x by (simp add: written_def)
  then show ?thesis using r w1 w2 w3 unfolding e by simp
qed

lemma replay_transmitter:
  assumes "blocks_ok fresh"
  shows "transmitter (Replay dbg fresh now) replay_ready (replay_sends now)"
proof
  fix s :: NetTransmitterReplayStream and ci cb :: nat and mode :: NetPipeMode and ack :: bool
  let ?T = "Replay dbg fresh now"
  assume s: "replay_ready s" and ci: "ci < 2 ^ cb" "cb \<le> 64"
  from s have w: "winv (rsWriter s)" "wbits (rsWriter s) = []" and ok: "replay_ok s"
    by (simp_all add: replay_ready_def)
  from CreateDefaultMessage_spec [OF w(1) ci, of dbg ack] obtain w1
    where 1: "CreateDefaultMessage dbg (int ci) (int cb) ack (rsWriter s) = Inr w1"
    and wr: "wrote (rsWriter s) w1 (header ack cb ci)" by blast
  have b1: "wbits w1 = header ack cb ci" using wrote_wbits [OF wr] w(2) by simp
  let ?s = "s\<lparr>rsWriter := w1\<rparr>"
  have send: "\<exists>s''. SendWriter ?T (setWriter ?T w' ?s) = Inr s'' \<and> replay_ready s''
      \<and> replay_sends now s s'' (header ack cb ci @ bs)" if "appended w1 w' bs" for w' bs
  proof -
    have b: "wbits w' = header ack cb ci @ bs" and i: "winv w'"
      using appended_wbits [OF that] appended_winv [OF that] b1 by simp_all
    have m: "is_message (wBuffer w') (header ack cb ci @ bs)" using is_message_writer [OF i] b by simp
    have o: "replay_ok (s\<lparr>rsWriter := w'\<rparr>)" using ok by (simp add: replay_ok_def)
    have wr: "written (s\<lparr>rsWriter := w'\<rparr>) = written s" by (simp add: written_def)
    from Replay_SendWriter_spec [OF assms o, of now] i obtain s'' where
      "Replay_SendWriter fresh now (s\<lparr>rsWriter := w'\<rparr>) = Inr s''" "replay_ready s''" "rsStartTime s'' = rsStartTime s"
      "written s'' = written s @ u32_bytes (now - rsStartTime s) @ u32_bytes (of_nat (length (wBuffer w')))
         @ take (unat (of_nat (length (wBuffer w')) :: u32)) (wBuffer w')" by (auto simp: wr)
    then show ?thesis using m by (auto simp: Replay_def replay_sends_def)
  qed
  show "\<exists>s'. CreateWriter ?T mode (int ci) (int cb) ack s = Inr s' \<and> winv (theWriter ?T s')
      \<and> (\<forall>w bs. appended (theWriter ?T s') w bs \<longrightarrow>
           (\<exists>s''. SendWriter ?T (setWriter ?T w s') = Inr s'' \<and> replay_ready s''
              \<and> replay_sends now s s'' (header ack cb ci @ bs)))"
    using 1 wrote_winv [OF wr] send
    by (intro exI [of _ ?s]) (simp add: Replay_def Replay_CreateWriter_def)
qed

text \<open>Messages of less than \<open>2 ^ 31\<close> bytes, recorded one after the other.\<close>

context pipe
begin

lemma replay_messages:
  assumes "blocks_ok fresh" "i < 2 ^ cb" "cb \<le> 31"
  shows "replay_ready s \<Longrightarrow> \<forall>x \<in> set ms. wf (snd x) \<and> length (enc (snd x)) \<le> 2 ^ 33 \<Longrightarrow>
    \<exists>s' ds. efold (\<lambda>x. with_message (Replay dbg fresh (fst x)) mode (int i) (int cb) (body (snd x))) ms s = Inr s'
    \<and> replay_ready s' \<and> written s' = written s @ recording ds \<and> rsStartTime s' = rsStartTime s
    \<and> list_all2 (\<lambda>d x. fst d = fst x - rsStartTime s \<and> length (snd d) < 2 ^ 32
        \<and> is_message (snd d) (header False cb i @ enc (snd x))) ds ms"
proof (induction ms arbitrary: s)
  case Nil
  then show ?case by (intro exI [of _ s] exI [of _ "[]"]) simp
next
  case (Cons x ms)
  have b: "winv w \<Longrightarrow> \<exists>w'. body (snd x) w = Inr w' \<and> appended w w' (enc (snd x))" for w
    using body_enc Cons.prems(2) by simp
  have "cb \<le> 64" using assms(3) by simp
  from transmitter.with_message [OF replay_transmitter [OF assms(1)] Cons.prems(1) assms(2) this b, of dbg "fst x" mode]
  obtain s1 where 1: "with_message (Replay dbg fresh (fst x)) mode (int i) (int cb) (body (snd x)) s = Inr s1"
    "replay_ready s1" "replay_sends (fst x) s s1 (header False cb i @ enc (snd x))" by blast
  from 1(3) obtain data where d: "is_message data (header False cb i @ enc (snd x))" "rsStartTime s1 = rsStartTime s"
    "written s1 = written s @ u32_bytes (fst x - rsStartTime s) @ u32_bytes (of_nat (length data))
       @ take (unat (of_nat (length data) :: u32)) data" by (auto simp: replay_sends_def)
  from d(1) obtain pad where "length pad < 8" "buffer_bits data = header False cb i @ enc (snd x) @ pad"
    by (auto simp: is_message_def)
  then have "8 * length data = Suc cb + length (enc (snd x)) + length pad"
    by (metis length_append length_buffer_bits length_nat_bits header_def add.assoc length_Cons)
  then have l: "length data < 2 ^ 32" using \<open>length pad < 8\<close> assms(3) Cons.prems(2) by simp
  then have u: "unat (of_nat (length data) :: u32) = length data"
    by (simp add: unsigned_of_nat take_bit_nat_eq_self)
  let ?p = "(fst x - rsStartTime s, data)"
  from Cons.IH [OF 1(2)] Cons.prems(2) obtain s2 ds where
    2: "efold (\<lambda>x. with_message (Replay dbg fresh (fst x)) mode (int i) (int cb) (body (snd x))) ms s1 = Inr s2"
      "replay_ready s2" "written s2 = written s1 @ recording ds" "rsStartTime s2 = rsStartTime s1"
      "list_all2 (\<lambda>d x. fst d = fst x - rsStartTime s1 \<and> length (snd d) < 2 ^ 32
        \<and> is_message (snd d) (header False cb i @ enc (snd x))) ds ms" by auto
  show ?case
    using 1(1) 2 d l u by (intro exI [of _ s2] exI [of _ "?p # ds"]) (simp add: packet_bytes_def)
qed

end

section \<open>Playing\<close>

lemma u32_of_packet:
  "u32_of_bytes (take 4 (packet_bytes p @ rest)) = fst p"
  "u32_of_bytes (take 4 (drop 4 (packet_bytes p @ rest))) = of_nat (length (snd p))"
  "drop 8 (packet_bytes p @ rest) = snd p @ rest" "8 \<le> length (packet_bytes p @ rest)"
  by (simp_all add: packet_bytes_def u32_of_u32_bytes)

text \<open>The player has read the head of the first of the packets \<open>ps\<close>.\<close>

definition positioned :: "NetReplayStreamReader \<Rightarrow> (u32 \<times> u8 list) list \<Rightarrow> bool" where
  "positioned r ps \<longleftrightarrow> ps \<noteq> [] \<and> rrBuffer r = snd (hd ps) @ recording (tl ps)
     \<and> rrNextPacketTime r = fst (hd ps) \<and> rrNextPacketSize r = of_nat (length (snd (hd ps)))
     \<and> 8 \<le> rrRemainingSize r \<and> (\<forall>p \<in> set ps. length (snd p) < 2 ^ 32 \<and> length (snd p) \<le> rrRemainingSize r)"

lemma unat_length_32: "length xs < 2 ^ 32 \<Longrightarrow> unat (of_nat (length xs) :: u32) = length xs"
  by (simp add: unsigned_of_nat take_bit_nat_eq_self)

lemma ReadNextPacket_positioned:
  assumes "rrBuffer r = recording ps" "ps \<noteq> []" "8 \<le> rrRemainingSize r"
    and "\<forall>p \<in> set ps. length (snd p) < 2 ^ 32 \<and> length (snd p) \<le> rrRemainingSize r"
  shows "\<exists>r'. ReadNextPacket r = Inr r' \<and> positioned r' ps \<and> rrStartTime r' = rrStartTime r"
proof -
  from assms(2) obtain p qs where ps: "ps = p # qs" by (cases ps) auto
  have "unat (of_nat (length (snd p)) :: u32) = length (snd p)" using assms(4) ps unat_length_32 [of "snd p"] by simp
  moreover obtain b where b: "b = packet_bytes p @ recording qs" by blast
  note u = u32_of_packet [of p "recording qs", folded b]
  have "rrBuffer r = b" using assms(1) ps b by simp
  ultimately show ?thesis
    using assms(3,4) ps u by (simp add: ReadNextPacket_def positioned_def)
qed

lemma ReadNextPacket_end: "rrBuffer r = [] \<Longrightarrow> 8 \<le> rrRemainingSize r \<Longrightarrow> ReadNextPacket r = Inl Undefined"
  by (simp add: ReadNextPacket_def)

abbreviation play :: "(NetBitReaderBuffer \<Rightarrow> 'p \<Rightarrow> 'p result) \<Rightarrow> u32 \<times> u8 list \<Rightarrow> 'p \<Rightarrow> 'p result" where
  "play got p \<equiv> got (NetBitReaderBuffer_init (snd p))"

lemma update_due:
  assumes "positioned r (p # ps)" "fst p \<le> cur" "play got p s = Inr s'"
  shows "update_loop got cur r s =
    (case ReadNextPacket (r\<lparr>rrBuffer := recording ps\<rparr>) of
       Inl e \<Rightarrow> Some (Inl e) | Inr r \<Rightarrow> update_loop got cur r s')"
proof -
  have "unat (rrNextPacketSize r) = length (snd p)"
    using assms(1) unat_length_32 [of "snd p"] by (simp add: positioned_def)
  then show ?thesis
    using assms by (subst update_loop.simps) (simp add: positioned_def)
qed

lemma update_play:
  "positioned r (ps @ q # qs) \<Longrightarrow> \<forall>p \<in> set ps. fst p \<le> cur \<Longrightarrow> cur < fst q \<Longrightarrow>
    efold (play got) ps s = Inr s' \<Longrightarrow>
    \<exists>r'. update_loop got cur r s = Some (Inr (r', s')) \<and> positioned r' (q # qs)"
proof (induction ps arbitrary: r s)
  case Nil
  then have "\<not> rrNextPacketTime r \<le> cur" by (simp add: positioned_def)
  with Nil show ?case by (subst update_loop.simps) simp
next
  case (Cons p ps)
  from Cons.prems(4) obtain s1 where s1: "play got p s = Inr s1" "efold (play got) ps s1 = Inr s'"
    by (auto simp: ebind_eq_Inr)
  have due: "fst p \<le> cur" using Cons.prems(2) by simp
  have pos: "positioned r (p # (ps @ q # qs))" using Cons.prems(1) by simp
  let ?r = "r\<lparr>rrBuffer := recording (ps @ q # qs)\<rparr>"
  have "\<exists>r'. ReadNextPacket ?r = Inr r' \<and> positioned r' (ps @ q # qs) \<and> rrStartTime r' = rrStartTime ?r"
    by (rule ReadNextPacket_positioned) (use pos in \<open>auto simp: positioned_def\<close>)
  then obtain r1 where r1: "ReadNextPacket ?r = Inr r1" "positioned r1 (ps @ q # qs)" by blast
  show ?case
    using update_due [where got = got, OF pos due s1(1)] r1 Cons.IH [OF r1(2) _ Cons.prems(3) s1(2)] Cons.prems(2) by simp
qed

lemma update_overrun:
  "positioned r ps \<Longrightarrow> \<forall>p \<in> set ps. fst p \<le> cur \<Longrightarrow> efold (play got) ps s = Inr s' \<Longrightarrow>
    update_loop got cur r s = Some (Inl Undefined)"
proof (induction ps arbitrary: r s)
  case Nil
  then show ?case by (simp add: positioned_def)
next
  case (Cons p ps)
  from Cons.prems(3) obtain s1 where s1: "play got p s = Inr s1" "efold (play got) ps s1 = Inr s'"
    by (auto simp: ebind_eq_Inr)
  have due: "fst p \<le> cur" using Cons.prems(2) by simp
  let ?r = "r\<lparr>rrBuffer := recording ps\<rparr>"
  show ?case
  proof (cases "ps = []")
    case True
    with Cons.prems(1) have "ReadNextPacket ?r = Inl Undefined"
      by (intro ReadNextPacket_end) (simp_all add: positioned_def)
    then show ?thesis using update_due [where got = got, OF Cons.prems(1) due s1(1)] by simp
  next
    case False
    have "\<exists>r'. ReadNextPacket ?r = Inr r' \<and> positioned r' ps \<and> rrStartTime r' = rrStartTime ?r"
      by (rule ReadNextPacket_positioned) (use Cons.prems(1) False in \<open>auto simp: positioned_def\<close>)
    then obtain r1 where r1: "ReadNextPacket ?r = Inr r1" "positioned r1 ps" by blast
    show ?thesis
      using update_due [where got = got, OF Cons.prems(1) due s1(1)] r1 Cons.IH [OF r1(2) _ s1(2)] Cons.prems(2) by simp
  qed
qed

lemma player_init:
  assumes "ps \<noteq> []" "\<forall>p \<in> set ps. length (snd p) < 2 ^ 32"
  shows "\<exists>r. NetReplayStreamReader_init now (recording ps) = Inr r \<and> positioned r ps \<and> rrStartTime r = now"
proof -
  have l: "length (snd p) + 8 \<le> length (recording ps)" if "p \<in> set ps" for p
    using that by (induction ps) (auto simp: packet_bytes_def)
  have "8 \<le> length (recording ps)" using assms(1) l by (cases ps) (auto simp: packet_bytes_def)
  let ?r = "\<lparr>rrStartTime = now, rrBuffer = recording ps, rrRemainingSize = length (recording ps),
      rrNextPacketSize = 0, rrNextPacketTime = 0\<rparr>"
  have "\<forall>p \<in> set ps. length (snd p) < 2 ^ 32 \<and> length (snd p) \<le> rrRemainingSize ?r"
    using assms(2) l by (auto dest: add_leD1)
  from ReadNextPacket_positioned [of ?r ps, OF _ assms(1) _ this] \<open>8 \<le> length (recording ps)\<close>
  show ?thesis by (simp add: NetReplayStreamReader_init_def)
qed

section \<open>Recording and playing\<close>

lemma deliver_play:
  "deliver got (map (\<lambda>d. NetBitReaderVector_init (snd d)) ds) p = efold (play got) ds p"
proof (induction ds arbitrary: p)
  case (Cons d ds)
  have "NetBitReaderBuffer.truncate (NetBitReaderVector_init (snd d)) = NetBitReaderBuffer_init (snd d)"
    by (simp add: NetBitReaderVector_init_def NetBitReaderBuffer_init_def NetBitReaderBuffer.truncate_def)
  then show ?case using Cons.IH by (cases "play got d p") simp_all
qed simp

lemma carries_init: "is_message d bs \<Longrightarrow> carries (NetBitReaderVector_init d) bs"
  by (auto simp: is_message_def carries_def NetBitReaderVector_init_def rbits_def rinv_def)

text \<open>What a recording of messages is: for each, the time since its start and a packet that holds it.\<close>

definition recorded :: "('m \<Rightarrow> bool list) \<Rightarrow> u32 \<Rightarrow> u32 \<times> u8 list \<Rightarrow> u32 \<times> 'm \<Rightarrow> bool" where
  "recorded bits start d x \<longleftrightarrow> fst d = fst x - start \<and> length (snd d) < 2 ^ 32 \<and> is_message (snd d) (bits (snd x))"

lemma record_saved:
  assumes "pipe body got deliver_to ok enc" "blocks_ok fresh" "i < 2 ^ cb" "cb \<le> 31"
    and "\<forall>x \<in> set ms. ok (snd x) \<and> length (enc (snd x)) \<le> 2 ^ 33"
  shows "\<exists>s ds. efold (\<lambda>x. with_message (Replay dbg fresh (fst x)) mode (int i) (int cb) (body (snd x)))
      ms (ReplayStream_init fresh start) = Inr s
    \<and> SaveToFile True s = Some (recording ds) \<and> list_all2 (recorded (\<lambda>m. header False cb i @ enc m) start) ds ms"
proof -
  note init = replay_ready_init(1) [OF assms(2), of start] replay_ready_init(2,3) [of fresh start]
  from pipe.replay_messages [OF assms(1-4) init(1) assms(5), of dbg mode] obtain s ds where
    s: "efold (\<lambda>x. with_message (Replay dbg fresh (fst x)) mode (int i) (int cb) (body (snd x)))
        ms (ReplayStream_init fresh start) = Inr s" "replay_ready s" "written s = recording ds"
      "list_all2 (recorded (\<lambda>m. header False cb i @ enc m) start) ds ms"
    by (auto simp: init(2,3) recorded_def [abs_def])
  then show ?thesis using SaveToFile_written s(2,3) by (auto simp: replay_ready_def)
qed

text \<open>Playing packets that are all due but the last.\<close>

lemma play_recorded:
  assumes "\<forall>d \<in> set (ds @ [d']). length (snd d) < 2 ^ 32" "\<forall>d \<in> set ds. fst d \<le> cur" "cur < fst d'"
    and "efold (play got) ds s = Inr s'"
  shows "\<exists>r r'. NetReplayStreamReader_init now (recording (ds @ [d'])) = Inr r
    \<and> Replay_Update got (now + cur) r s = Some (Inr (r', s')) \<and> rrNextPacketTime r' = fst d'"
proof -
  have "ds @ [d'] \<noteq> []" by simp
  from player_init [OF this assms(1), of now] obtain r where
    r: "NetReplayStreamReader_init now (recording (ds @ [d'])) = Inr r" "positioned r (ds @ [d'])" "rrStartTime r = now"
    by blast
  from update_play [OF r(2) assms(2-4)] obtain r' where
    r': "update_loop got cur r s = Some (Inr (r', s'))" "positioned r' [d']" by blast
  have "Replay_Update got (now + cur) r s = Some (Inr (r', s'))" using r'(1) r(3) by (simp add: Replay_Update_def)
  then show ?thesis using r(1) r'(2) by (auto simp: positioned_def)
qed

lemma recorded_list:
  assumes "list_all2 (recorded bits start) ds ms"
  shows "\<forall>d \<in> set ds. length (snd d) < 2 ^ 32"
    and "\<forall>x \<in> set ms. fst x - start \<le> cur \<Longrightarrow> \<forall>d \<in> set ds. fst d \<le> cur"
    and "list_all2 (\<lambda>p m. carries p (bits m)) (map (\<lambda>d. NetBitReaderVector_init (snd d)) ds) (map snd ms)"
  using assms by (induction rule: list_all2_induct) (auto simp: recorded_def carries_init)

lemma recorded_snoc:
  assumes "list_all2 (recorded bits start) ds (ms @ [m'])"
  shows "\<exists>ds1 d'. ds = ds1 @ [d'] \<and> list_all2 (recorded bits start) ds1 ms \<and> fst d' = fst m' - start"
proof -
  from assms [unfolded list_all2_append2] obtain ds1 ds2 where
    d: "ds = ds1 @ ds2" "list_all2 (recorded bits start) ds1 ms" "list_all2 (recorded bits start) ds2 [m']" by blast
  from d(3) [unfolded list_all2_Cons2] obtain d' where "ds2 = [d']" "recorded bits start d' m'" by auto
  with d(1,2) show ?thesis by (auto simp: recorded_def)
qed

text \<open>The player as the channel's delivery.\<close>

lemma play_channel:
  assumes "pipe body got deliver_to ok enc" "i < n" "n = length (npReceivers P)" "n < 2 ^ 31"
    and "\<And>r x r' x'. got r x = Inr (r', x') \<Longrightarrow>
      got_channel (npReceivers P ! i) r x = Inr (npReceivers P ! i, r', x')"
    and "list_all2 (recorded (\<lambda>m. header False (size_bits (n - 1)) i @ enc m) start) ds ms"
    and "\<forall>x \<in> set ms. ok (snd x)" "efold deliver_to (map snd ms) e = Inr e'"
  shows "efold (play (Protocol_packet got_ack got_channel)) ds (P, e) = Inr (P, e')"
proof -
  have pk: "Protocol_packet got_ack got_channel =
      (\<lambda>r s. ebind (Protocol_GotMessage got_ack got_channel r s) (\<lambda>(_, s). Inr s))"
    by (intro ext) (simp add: Protocol_packet_def)
  have "\<forall>m \<in> set (map snd ms). ok m" using assms(7) by auto
  from pipe.channel_delivery [where n = n and i = i and got_channel = got_channel and P = P,
      OF assms(1-4) _ recorded_list(3) [OF assms(6)] this assms(8)] assms(5)
  have "deliver (Protocol_packet got_ack got_channel) (map (\<lambda>d. NetBitReaderVector_init (snd d)) ds) (P, e) = Inr (P, e')"
    unfolding pk by blast
  then show ?thesis unfolding deliver_play .
qed

text \<open>C13: messages of any pipe recorded at the times \<open>fst x\<close> and saved. A player that
  reads the file and is updated at a time when the last message is not due yet hands each of the
  messages before it to the protocol, which brings it to its channel's callback: all of them, once
  each, in the order of the recording; then it waits for the last one.\<close>

theorem replay_end_to_end:
  assumes "pipe body got deliver_to ok enc" "blocks_ok fresh"
    and "\<forall>x \<in> set (ms @ [m']). ok (snd x) \<and> length (enc (snd x)) \<le> 2 ^ 33"
    and "\<forall>x \<in> set ms. fst x - start \<le> cur" "cur < fst m' - start"
    and "i < n" "n = length (npReceivers P)" "n < 2 ^ 31"
    and "\<And>r x r' x'. got r x = Inr (r', x') \<Longrightarrow>
      got_channel (npReceivers P ! i) r x = Inr (npReceivers P ! i, r', x')"
    and "efold deliver_to (map snd ms) e = Inr e'"
  shows "\<exists>s file r r'. efold (\<lambda>x. with_message (Replay dbg fresh (fst x)) mode (int i) (channel_bits n) (body (snd x)))
      (ms @ [m']) (ReplayStream_init fresh start) = Inr s
    \<and> SaveToFile True s = Some file \<and> NetReplayStreamReader_init now file = Inr r
    \<and> Replay_Update (Protocol_packet got_ack got_channel) (now + cur) r (P, e) = Some (Inr (r', (P, e')))
    \<and> rrNextPacketTime r' = fst m' - start"
proof -
  have n: "0 < n" using assms(6) by simp
  note cb = channel_bits_eq [OF n assms(8)]
  have i: "i < 2 ^ size_bits (n - 1)" using cb(2) assms(6) by linarith
  from record_saved [OF assms(1,2) i cb(3) assms(3), of dbg mode start] obtain s ds where
    s: "efold (\<lambda>x. with_message (Replay dbg fresh (fst x)) mode (int i) (channel_bits n) (body (snd x)))
        (ms @ [m']) (ReplayStream_init fresh start) = Inr s" "SaveToFile True s = Some (recording ds)"
      "list_all2 (recorded (\<lambda>m. header False (size_bits (n - 1)) i @ enc m) start) ds (ms @ [m'])"
    unfolding cb(1) by blast
  from recorded_snoc [OF s(3)] obtain ds1 d' where ds: "ds = ds1 @ [d']"
      "list_all2 (recorded (\<lambda>m. header False (size_bits (n - 1)) i @ enc m) start) ds1 ms"
      "fst d' = fst m' - start" by blast
  have ok: "\<forall>x \<in> set ms. ok (snd x)" using assms(3) by simp
  have "efold (play (Protocol_packet got_ack got_channel)) ds1 (P, e) = Inr (P, e')"
    using play_channel [where got_channel = got_channel and P = P and i = i and n = n,
        OF assms(1,6-8) _ ds(2) ok assms(10)] assms(9) by blast
  note plays = this
  have due: "cur < fst d'" using ds(3) assms(5) by simp
  from play_recorded [OF recorded_list(1) [OF s(3), unfolded ds(1)] recorded_list(2) [OF ds(2) assms(4)] due plays, of now]
  obtain r r' where r: "NetReplayStreamReader_init now (recording (ds1 @ [d'])) = Inr r"
      "Replay_Update (Protocol_packet got_ack got_channel) (now + cur) r (P, e) = Some (Inr (r', (P, e')))"
      "rrNextPacketTime r' = fst d'" by blast
  show ?thesis using s(1) s(2) [unfolded ds(1)] r(1,2) r(3) [unfolded ds(3)] by blast
qed

text \<open>The player never takes what it has read off \<^verbatim>\<open>m_RemainingSize\<close>. Once the last
  message of a recording has been played it reads the head of another message behind the end of the
  file: no recording of one message or more can be played to its end.\<close>

theorem replay_overrun:
  assumes "ps \<noteq> []" "\<forall>p \<in> set ps. length (snd p) < 2 ^ 32 \<and> fst p \<le> cur"
    and "efold (play got) ps s = Inr s'"
  shows "\<exists>r. NetReplayStreamReader_init now (recording ps) = Inr r
    \<and> Replay_Update got (now + cur) r s = Some (Inl Undefined)"
proof -
  have l: "\<forall>p \<in> set ps. length (snd p) < 2 ^ 32" and t: "\<forall>p \<in> set ps. fst p \<le> cur" using assms(2) by auto
  from player_init [OF assms(1) l, of now] obtain r where
    r: "NetReplayStreamReader_init now (recording ps) = Inr r" "positioned r ps" "rrStartTime r = now" by blast
  from update_overrun [OF r(2) t assms(3)] r(1,3) show ?thesis by (simp add: Replay_Update_def)
qed

section \<open>A concrete recording\<close>

definition junk :: "nat \<Rightarrow> u8 list" where
  "junk k = replicate kNetTransmitterBufferSize 0xCC"

lemma junk_ok: "blocks_ok junk"
  by (simp add: junk_def)

theorem replay_file_witness:
  "SaveToFile True (WriteData junk (replicate 5000 7) (ReplayStream_init junk 0)) = Some (replicate 5000 7)"
proof -
  have "replay_ok (ReplayStream_init junk 0)"
    using replay_ready_init(1) [OF junk_ok] by (simp add: replay_ready_def)
  moreover have "SaveToFile True (ReplayStream_init junk 0) = Some []"
    by (simp add: SaveToFile_def ReplayStream_init_def)
  ultimately show ?thesis
    using replay_file [OF junk_ok, of "ReplayStream_init junk 0" "[]" "replicate 5000 7"] by simp
qed

theorem replay_end_to_end_witness:
  "\<exists>s file r r'. efold (\<lambda>x. with_message (Replay True junk (fst x)) kReliable (int 0) (channel_bits 1)
      (\<lambda>writer. ebind (WriteBits True (of_nat (length (snd x))) 32 writer) (WriteBuffer True (snd x))))
      ([(10, [1, 2]), (20, [3])] @ [(30, [])]) (ReplayStream_init junk 10) = Inr s
    \<and> SaveToFile True s = Some file \<and> NetReplayStreamReader_init 500 file = Inr r
    \<and> Replay_Update (Protocol_packet (\<lambda>s r. Inr (s, r)) Receiver_got) (500 + 15) r (buffer_protocol, [])
      = Some (Inr (r', (buffer_protocol, [[1, 2], [3]])))
    \<and> rrNextPacketTime r' = fst (30, [] :: u8 list) - 10"
proof -
  let ?ms = "[(10 :: u32, [1, 2 :: u8]), (20, [3])]" and ?m = "(30 :: u32, [] :: u8 list)"
  have h: "\<forall>x \<in> set (?ms @ [?m]). length (snd x) < 2 ^ 32 \<and> length (buffer_enc (snd x)) \<le> 2 ^ 33"
    "\<forall>x \<in> set ?ms. fst x - 10 \<le> 15" "15 < fst ?m - 10" by (simp_all add: buffer_enc_def)
  have n: "(0 :: nat) < 1" "1 = length (npReceivers buffer_protocol)" "(1 :: nat) < 2 ^ 31" by simp_all
  have chan: "Receiver_got (npReceivers buffer_protocol ! 0) r x = Inr (npReceivers buffer_protocol ! 0, r', x')"
    if "Buffer_GotMessage (Some log_to) r x = Inr (r', x')" for r x r' x'
    using that by simp
  have d: "efold (run_callback (Some log_to)) (map snd ?ms) [] = Inr [[1, 2], [3]]" by simp
  show ?thesis
    by (rule replay_end_to_end [where got_channel = Receiver_got and P = buffer_protocol and i = 0,
          OF buffer_pipe.pipe_axioms junk_ok h n chan d])
qed

theorem replay_overrun_witness:
  "\<exists>r. NetReplayStreamReader_init 0 (recording [(3, [7])]) = Inr r
    \<and> Replay_Update (\<lambda>_ k. Inr (Suc k)) (0 + 5) r 0 = Some (Inl Undefined)"
  by (rule replay_overrun [where s' = 1]) simp_all

end
