(* ===== verification/FixedPoint.thy ===== *)
theory FixedPoint
  imports Numbers
begin

text \<open>
  \<^verbatim>\<open>NetReflectionFixedPoint.h\<close> and \<^verbatim>\<open>NetReflectionFixedPointRange.h\<close>: fixed-point numbers in an
  integer type, and evenly spaced ranges of them.

  A number is its \<^verbatim>\<open>m_Value\<close>, an \<open>int\<close> in the range of the storage type. Shifts to the left are those
  of C++20 and of every compiler, \<open>x * 2 ^ n\<close> converted back to the type, for negative numbers too;
  sums, differences and products that leave \<^verbatim>\<open>int\<close> or \<^verbatim>\<open>int64_t\<close> are undefined. The width of \<^verbatim>\<open>long\<close> is a parameter. The
  conversions from and to \<^verbatim>\<open>float\<close> are left out.
\<close>

section \<open>Wide products\<close>

definition shl :: "ctype \<Rightarrow> int \<Rightarrow> nat \<Rightarrow> int" where
  "shl t x n = conv t (push_bit n x)"

definition to_type :: "ctype \<Rightarrow> (ctype \<times> int) result \<Rightarrow> int result" where
  "to_type t r = ebind r (\<lambda>(_, x). Inr (conv t x))"

text \<open>The overload for \<^verbatim>\<open>int64_t\<close>, where there is no 128-bit product: all platforms but 64-bit Windows.\<close>

definition FixedPointMultiplyWide64 :: "int \<Rightarrow> int \<Rightarrow> nat \<Rightarrow> int result" where
  "FixedPointMultiplyWide64 a b FractionalBits =
     (let mask = conv U64 (shl U64 1 FractionalBits - 1);
          xlo = conv U64 a AND mask;
          xhi = drop_bit FractionalBits a;
          ylo = conv U64 b AND mask;
          yhi = drop_bit FractionalBits b;
          lolo = conv U64 (xlo * ylo)
      in
      ebind (c_binop OpMul I64 (conv I64 xlo) I64 yhi) (\<lambda>(_, lohi).
      ebind (c_binop OpMul I64 xhi I64 (conv I64 ylo)) (\<lambda>(_, hilo).
      ebind (c_binop OpMul I64 xhi I64 yhi) (\<lambda>(_, hihi).
      let loResult = drop_bit FractionalBits lolo;
          hiResult = shl I64 hihi FractionalBits
      in
      ebind (c_binop OpAdd I64 (conv I64 loResult) I64 lohi) (\<lambda>(_, s).
      ebind (c_binop OpAdd I64 s I64 hilo) (\<lambda>(_, s).
      ebind (c_binop OpAdd I64 s I64 hiResult) (\<lambda>(_, sum). Inr sum)))))))"

text \<open>
  The type the narrower overloads compute in, and the overload a call with two values of a type selects
  (a narrow unsigned type is promoted to \<^verbatim>\<open>int\<close>; for \<^verbatim>\<open>uint32_t\<close> and \<^verbatim>\<open>uint64_t\<close> the call is
  ambiguous and does not compile).
\<close>

fun wider :: "ctype \<Rightarrow> ctype" where
  "wider I32 = I64" | "wider I16 = I32" | "wider I8 = I16" | "wider t = t"

fun overload :: "ctype \<Rightarrow> ctype" where
  "overload U8 = I32" | "overload U16 = I32" | "overload t = t"

definition FixedPointMultiplyWide :: "ctype \<Rightarrow> int \<Rightarrow> int \<Rightarrow> nat \<Rightarrow> int result" where
  "FixedPointMultiplyWide t a b FractionalBits =
     (if t = I64 then FixedPointMultiplyWide64 a b FractionalBits
      else ebind (c_binop OpMul (wider t) a (wider t) b) (\<lambda>(_, p). Inr (conv t (drop_bit FractionalBits p))))"

section \<open>Wide quotients\<close>

function reduce_divider :: "int \<Rightarrow> int \<Rightarrow> int \<times> int" where
  "reduce_divider divider bit_pos =
     (if divider AND 0xF = 0 \<and> 4 \<le> bit_pos then reduce_divider (drop_bit 4 divider) (bit_pos - 4)
      else (divider, bit_pos))"
  by pat_completeness auto
termination
  by (relation "measure (\<lambda>(_, bit_pos). nat bit_pos)") auto

declare reduce_divider.simps [simp del]

function divide_loop :: "int \<Rightarrow> int \<Rightarrow> int \<Rightarrow> int \<Rightarrow> int" where
  "divide_loop divider remainder quo bit_pos =
     (if remainder \<noteq> 0 \<and> 0 \<le> bit_pos then
        let shift = min (int (CountLeadingZeros U64 remainder)) bit_pos;
            remainder = shl U64 remainder (nat shift);
            bit_pos = bit_pos - shift;
            quot = remainder div divider;
            remainder = remainder mod divider;
            quo = conv U64 (quo + shl U64 quot (nat bit_pos));
            remainder = shl U64 remainder 1
        in divide_loop divider remainder quo (bit_pos - 1)
      else quo)"
  by pat_completeness auto
termination
  by (relation "measure (\<lambda>(_, _, _, bit_pos). nat (bit_pos + 1))") (auto simp: Let_def)

declare divide_loop.simps [simp del]

definition abs64 :: "int \<Rightarrow> int result" where
  "abs64 x = (if 0 \<le> x then Inr x else ebind (c_binop OpSub I32 0 I64 x) (\<lambda>(_, y). Inr (conv U64 y)))"

definition FixedPointDivideWide64 :: "ctype \<Rightarrow> int \<Rightarrow> int \<Rightarrow> nat \<Rightarrow> int result" where
  "FixedPointDivideWide64 long a b FractionalBits =
     (if b = 0 then Inl LogicError
      else
        ebind (abs64 a) (\<lambda>remainder.
        ebind (abs64 b) (\<lambda>divider.
        let (divider, bit_pos) = reduce_divider divider (int FractionalBits + 1);
            quo = divide_loop divider remainder 0 bit_pos;
            quo = conv U64 (quo + 1);
            result = conv long (drop_bit 1 quo)
        in
        if conv U64 (a XOR b) AND 2 ^ 63 \<noteq> 0
        then to_type I64 (c_binop OpSub I32 0 long result)
        else Inr (conv I64 result))))"

definition FixedPointDivideWide :: "ctype \<Rightarrow> ctype \<Rightarrow> int \<Rightarrow> int \<Rightarrow> nat \<Rightarrow> int result" where
  "FixedPointDivideWide long t a b FractionalBits =
     (if t = I64 then FixedPointDivideWide64 long a b FractionalBits
      else
        to_type t (c_binop OpDiv (promote (wider t)) (shl (promote (wider t)) a FractionalBits) (wider t) b))"

section \<open>The number type\<close>

text \<open>
  The template arguments \<^verbatim>\<open>StorageType\<close>, \<^verbatim>\<open>NumBits\<close> and \<^verbatim>\<open>FractionalBits\<close>, and the platform's
  \<^verbatim>\<open>long\<close>. \<^verbatim>\<open>kMask\<close> compares the number of bits with \<^verbatim>\<open>sizeof(StorageType)\<close>, in bytes.
\<close>

record fixed_type =
  StorageType :: ctype
  NumBits :: nat
  FractionalBits :: nat
  LongType :: ctype

definition kOne :: "fixed_type \<Rightarrow> int" where
  "kOne fx = shl (StorageType fx) 1 (FractionalBits fx)"

definition kFractionalMask :: "fixed_type \<Rightarrow> int" where
  "kFractionalMask fx = conv (StorageType fx) (shl (StorageType fx) 1 (FractionalBits fx) - 1)"

definition kMask :: "fixed_type \<Rightarrow> int" where
  "kMask fx =
     (if ctype_bits (StorageType fx) div 8 \<le> NumBits fx then conv (StorageType fx) (- 1)
      else conv (StorageType fx) (shl (StorageType fx) 1 (NumBits fx) - 1))"

definition Fixed_Set :: "fixed_type \<Rightarrow> int \<Rightarrow> int" where
  "Fixed_Set fx val = conv (StorageType fx) (val AND kMask fx)"

definition CreateFromRawVal :: "fixed_type \<Rightarrow> int \<Rightarrow> int" where
  "CreateFromRawVal fx val = conv (StorageType fx) val"

definition Epsilon :: "fixed_type \<Rightarrow> int" where
  "Epsilon fx = CreateFromRawVal fx 1"

definition NetFixedPoint_of_int :: "fixed_type \<Rightarrow> int \<Rightarrow> int" where
  "NetFixedPoint_of_int fx val = shl (StorageType fx) (conv (StorageType fx) val) (FractionalBits fx)"

definition NetFixedPoint_int :: "fixed_type \<Rightarrow> int \<Rightarrow> int" where
  "NetFixedPoint_int fx m_Value = conv I32 (drop_bit (FractionalBits fx) m_Value)"

text \<open>An arithmetic operator on two raw values, and on the raw value and an \<^verbatim>\<open>int\<close>, stored back.\<close>

definition raw_op :: "fixed_type \<Rightarrow> binop \<Rightarrow> int \<Rightarrow> int \<Rightarrow> int result" where
  "raw_op fx f a b = to_type (StorageType fx) (c_binop f (StorageType fx) a (StorageType fx) b)"

definition raw_op_int :: "fixed_type \<Rightarrow> binop \<Rightarrow> int \<Rightarrow> int \<Rightarrow> int result" where
  "raw_op_int fx f a b = to_type (StorageType fx) (c_binop f (StorageType fx) a I32 b)"

subsection \<open>From a string\<close>

definition is_digit :: "char \<Rightarrow> bool" where
  "is_digit c \<longleftrightarrow> 48 \<le> (of_char c :: int) \<and> of_char c \<le> (57 :: int)"

definition digit_value :: "char \<Rightarrow> int" where
  "digit_value c = of_char c - 48"

fun whole_digits :: "fixed_type \<Rightarrow> string \<Rightarrow> int \<Rightarrow> (int \<times> string) result" where
  "whole_digits fx [] val = Inr (val, [])"
| "whole_digits fx (c # str) val =
     (if \<not> is_digit c then Inr (val, c # str)
      else
        ebind (raw_op_int fx OpMul val 10) (\<lambda>val.
        ebind (raw_op_int fx OpAdd val (digit_value c)) (\<lambda>val.
        whole_digits fx str val)))"

fun frac_digits :: "fixed_type \<Rightarrow> string \<Rightarrow> int \<Rightarrow> int \<Rightarrow> int result" where
  "frac_digits fx [] val dividend = Inr val"
| "frac_digits fx (c # str) val dividend =
     (if \<not> is_digit c then Inr val
      else if 32 \<le> FractionalBits fx then Inl Undefined
      else
        let t = StorageType fx; frac = shl I32 (digit_value c) (FractionalBits fx) in
        ebind (raw_op_int fx OpMul dividend 10) (\<lambda>dividend.
        ebind (c_binop OpAdd I32 frac (promote t) (drop_bit 2 dividend)) (\<lambda>(ts, s).
        ebind (c_binop OpDiv ts s t dividend) (\<lambda>(tq, q).
        ebind (to_type t (c_binop OpAdd t val tq q)) (\<lambda>val.
        frac_digits fx str val dividend)))))"

definition NetFixedPoint_of_string :: "fixed_type \<Rightarrow> string \<Rightarrow> int result" where
  "NetFixedPoint_of_string fx str =
     (let negative = (take 1 str = ''-'');
          str = (if negative then tl str else str);
          str = (if take 1 str = ''+'' then tl str else str)
      in
      ebind (whole_digits fx str 0) (\<lambda>(val, str).
      let val = shl (StorageType fx) val (FractionalBits fx) in
      ebind (if take 1 str = ''.'' then frac_digits fx (tl str) val 1 else Inr val) (\<lambda>val.
      if negative then raw_op fx OpSub 0 val else Inr val)))"

subsection \<open>Operators\<close>

definition Fixed_inc :: "fixed_type \<Rightarrow> int \<Rightarrow> int result" where
  "Fixed_inc fx m_Value = ebind (raw_op fx OpAdd m_Value (kOne fx)) (\<lambda>x. Inr (Fixed_Set fx x))"

definition Fixed_dec :: "fixed_type \<Rightarrow> int \<Rightarrow> int result" where
  "Fixed_dec fx m_Value = ebind (raw_op fx OpSub m_Value (kOne fx)) (\<lambda>x. Inr (Fixed_Set fx x))"

definition Fixed_not :: "fixed_type \<Rightarrow> int \<Rightarrow> int" where
  "Fixed_not fx m_Value = (if m_Value \<noteq> 0 then CreateFromRawVal fx 0 else CreateFromRawVal fx (kOne fx))"

definition Fixed_add :: "fixed_type \<Rightarrow> int \<Rightarrow> int \<Rightarrow> int result" where
  "Fixed_add fx m_Value val = raw_op fx OpAdd m_Value val"

definition Fixed_sub :: "fixed_type \<Rightarrow> int \<Rightarrow> int \<Rightarrow> int result" where
  "Fixed_sub fx m_Value val = raw_op fx OpSub m_Value val"

definition Fixed_mul :: "fixed_type \<Rightarrow> int \<Rightarrow> int \<Rightarrow> int result" where
  "Fixed_mul fx m_Value val =
     ebind (FixedPointMultiplyWide (overload (StorageType fx)) m_Value val (FractionalBits fx))
       (\<lambda>x. Inr (CreateFromRawVal fx x))"

definition Fixed_div :: "fixed_type \<Rightarrow> int \<Rightarrow> int \<Rightarrow> int result" where
  "Fixed_div fx m_Value val =
     ebind (FixedPointDivideWide (LongType fx) (overload (StorageType fx)) m_Value val (FractionalBits fx))
       (\<lambda>x. Inr (CreateFromRawVal fx x))"

definition Fixed_add_assign :: "fixed_type \<Rightarrow> int \<Rightarrow> int \<Rightarrow> int result" where
  "Fixed_add_assign fx m_Value val = ebind (raw_op fx OpAdd m_Value val) (\<lambda>x. Inr (Fixed_Set fx x))"

definition Fixed_sub_assign :: "fixed_type \<Rightarrow> int \<Rightarrow> int \<Rightarrow> int result" where
  "Fixed_sub_assign fx m_Value val = ebind (raw_op fx OpSub m_Value val) (\<lambda>x. Inr (Fixed_Set fx x))"

definition Fixed_mul_assign :: "fixed_type \<Rightarrow> int \<Rightarrow> int \<Rightarrow> int result" where
  "Fixed_mul_assign fx m_Value val = ebind (Fixed_mul fx m_Value val) (\<lambda>x. Inr (Fixed_Set fx x))"

definition Fixed_div_assign :: "fixed_type \<Rightarrow> int \<Rightarrow> int \<Rightarrow> int result" where
  "Fixed_div_assign fx m_Value val = ebind (Fixed_div fx m_Value val) (\<lambda>x. Inr (Fixed_Set fx x))"

definition Fixed_compare :: "cmpop \<Rightarrow> fixed_type \<Rightarrow> int \<Rightarrow> int \<Rightarrow> bool" where
  "Fixed_compare f fx m_Value val = c_compare f (StorageType fx) m_Value (StorageType fx) val"

definition Invert :: "fixed_type \<Rightarrow> int \<Rightarrow> int result" where
  "Invert fx m_Value = raw_op fx OpSub 0 m_Value"

definition Fixed_Abs :: "fixed_type \<Rightarrow> int \<Rightarrow> int result" where
  "Fixed_Abs fx m_Value =
     (if 0 < m_Value then Inr (CreateFromRawVal fx m_Value) else raw_op fx OpSub 0 m_Value)"

definition Frac :: "fixed_type \<Rightarrow> int \<Rightarrow> int" where
  "Frac fx m_Value = CreateFromRawVal fx (m_Value AND kFractionalMask fx)"

definition Floor :: "fixed_type \<Rightarrow> int \<Rightarrow> int result" where
  "Floor fx m_Value = raw_op fx OpSub m_Value (Frac fx m_Value)"

definition Round :: "fixed_type \<Rightarrow> int \<Rightarrow> int result" where
  "Round fx m_Value =
     (let t = StorageType fx;
          frac = m_Value AND kFractionalMask fx;
          val = m_Value AND NOT (kFractionalMask fx);
          pos = shl t 1 (FractionalBits fx - 1)
      in if FractionalBits fx = 0 then Inl Undefined
         else if pos < frac then raw_op fx OpAdd val (kOne fx)
         else Inr (CreateFromRawVal fx val))"

definition Ceil :: "fixed_type \<Rightarrow> int \<Rightarrow> int result" where
  "Ceil fx m_Value =
     ebind (Floor fx m_Value) (\<lambda>f.
       if f \<noteq> m_Value then raw_op fx OpAdd f (kOne fx) else Inr (CreateFromRawVal fx m_Value))"

definition Fixed_Min :: "fixed_type \<Rightarrow> int \<Rightarrow> int \<Rightarrow> int" where
  "Fixed_Min fx m_Value m = (if m_Value \<le> m then CreateFromRawVal fx m_Value else CreateFromRawVal fx m)"

definition Fixed_Max :: "fixed_type \<Rightarrow> int \<Rightarrow> int \<Rightarrow> int" where
  "Fixed_Max fx m_Value m = (if m \<le> m_Value then CreateFromRawVal fx m_Value else CreateFromRawVal fx m)"

definition Clamp :: "int \<Rightarrow> int \<Rightarrow> int \<Rightarrow> int" where
  "Clamp m_Value lo hi = (if m_Value < lo then lo else if hi < m_Value then hi else m_Value)"

definition RandomRange :: "fixed_type \<Rightarrow> int \<Rightarrow> int \<Rightarrow> int \<Rightarrow> int result" where
  "RandomRange fx range_low range_high rand_val =
     (let t = StorageType fx in
      ebind (c_binop OpSub t range_high t range_low) (\<lambda>(td, diff).
      if diff = 0 then Inr range_low
      else
        ebind (c_binop OpMod t rand_val td diff) (\<lambda>(tm, m).
        to_type t (c_binop OpAdd t range_low tm m))))"

subsection \<open>Square roots\<close>

text \<open>
  \<^verbatim>\<open>Clz\<close>: the two masks are \<^verbatim>\<open>int\<close>s whatever the storage type. Shifting one by a negative amount or by
  its width is undefined.
\<close>

function clz_nibbles :: "ctype \<Rightarrow> int \<Rightarrow> int \<Rightarrow> nat \<Rightarrow> (int \<times> nat) result" where
  "clz_nibbles t byte_mask val bits =
     ebind (c_binop OpAnd t val I32 byte_mask) (\<lambda>(_, m).
       if m = 0 \<and> bits < 32 then clz_nibbles t byte_mask (shl t val 4) (bits + 4) else Inr (val, bits))"
  by pat_completeness auto
termination
  by (relation "measure (\<lambda>(_, _, _, bits). 32 - bits)") auto

declare clz_nibbles.simps [simp del]

function clz_bits :: "ctype \<Rightarrow> int \<Rightarrow> int \<Rightarrow> nat \<Rightarrow> nat result" where
  "clz_bits t bit_mask val bits =
     ebind (c_binop OpAnd t val I32 bit_mask) (\<lambda>(_, m).
       if m = 0 \<and> bits < 8 then clz_bits t bit_mask (shl t val 1) (bits + 1) else Inr bits)"
  by pat_completeness auto
termination
  by (relation "measure (\<lambda>(_, _, _, bits). 8 - bits)") auto

declare clz_bits.simps [simp del]

definition Clz :: "fixed_type \<Rightarrow> int \<Rightarrow> nat result" where
  "Clz fx m_Value =
     (let t = StorageType fx in
      if NumBits fx < 4 \<or> 32 < NumBits fx then Inl Undefined
      else
        let byte_mask = shl I32 0xF (NumBits fx - 4); bit_mask = shl I32 1 (NumBits fx - 1) in
        ebind (clz_nibbles t byte_mask m_Value 0) (\<lambda>(val, bits). clz_bits t bit_mask val bits))"

fun sqrt_loop :: "fixed_type \<Rightarrow> int \<Rightarrow> nat \<Rightarrow> int \<Rightarrow> int result" where
  "sqrt_loop fx m_Value 0 guess_fixed = Inr guess_fixed"
| "sqrt_loop fx m_Value (Suc i) guess_fixed =
     ebind (Fixed_div fx m_Value guess_fixed) (\<lambda>dv.
     ebind (c_binop OpAdd (StorageType fx) (drop_bit 1 dv) (StorageType fx) (drop_bit 1 guess_fixed)) (\<lambda>(_, avg).
     if avg = guess_fixed then Inr guess_fixed
     else sqrt_loop fx m_Value i (CreateFromRawVal fx avg)))"

definition Fixed_Sqrt :: "fixed_type \<Rightarrow> int \<Rightarrow> int result" where
  "Fixed_Sqrt fx m_Value =
     (if m_Value \<le> 0 then Inr (CreateFromRawVal fx 0)
      else
        ebind (Clz fx m_Value) (\<lambda>zeros.
        let t = StorageType fx;
            guess_bits = (int (FractionalBits fx) + (int (NumBits fx) - int zeros)) sdiv 2
        in
        if guess_bits < 0 \<or> int (ctype_bits (promote t)) \<le> guess_bits then Inl Undefined
        else
          let guess = shl t 1 (nat guess_bits);
              guess = (if guess = 0 then kOne fx else guess)
          in sqrt_loop fx m_Value 4 (CreateFromRawVal fx guess)))"

subsection \<open>Series\<close>

text \<open>
  One step \<^verbatim>\<open>div += one; x *= *this; x /= div;\<close> of the unrolled series, and the run of them that
  alternately subtracts and adds the term reached after two.
\<close>

definition series_step :: "fixed_type \<Rightarrow> int \<Rightarrow> int \<Rightarrow> int \<times> int \<Rightarrow> (int \<times> int) result" where
  "series_step fx this one = (\<lambda>(x, dv).
     ebind (Fixed_add_assign fx dv one) (\<lambda>dv.
     ebind (Fixed_mul_assign fx x this) (\<lambda>x.
     ebind (Fixed_div_assign fx x dv) (\<lambda>x. Inr (x, dv)))))"

fun series_terms :: "fixed_type \<Rightarrow> int \<Rightarrow> int \<Rightarrow> bool list \<Rightarrow> int \<times> int \<Rightarrow> int \<Rightarrow> int result" where
  "series_terms fx this one [] _ val = Inr val"
| "series_terms fx this one (positive # signs) xd val =
     ebind (series_step fx this one xd) (\<lambda>xd.
     ebind (series_step fx this one xd) (\<lambda>(x, dv).
     ebind (if positive then Fixed_add_assign fx val x else Fixed_sub_assign fx val x) (\<lambda>val.
     series_terms fx this one signs (x, dv) val)))"

definition SinSlow :: "fixed_type \<Rightarrow> int \<Rightarrow> int result" where
  "SinSlow fx m_Value =
     (let one = CreateFromRawVal fx (kOne fx);
          val = CreateFromRawVal fx m_Value;
          x = CreateFromRawVal fx m_Value
      in
      ebind (Fixed_add_assign fx one one) (\<lambda>dv.
      ebind (Fixed_mul_assign fx x m_Value) (\<lambda>x.
      ebind (Fixed_div_assign fx x dv) (\<lambda>x.
      ebind (series_step fx m_Value one (x, dv)) (\<lambda>(x, dv).
      ebind (Fixed_sub_assign fx val x) (\<lambda>val.
      series_terms fx m_Value one [True, False, True, False, True, False, True, False] (x, dv) val))))))"

definition CosSlow :: "fixed_type \<Rightarrow> int \<Rightarrow> int result" where
  "CosSlow fx m_Value =
     (let one = CreateFromRawVal fx (kOne fx);
          val = CreateFromRawVal fx (kOne fx);
          x = drop_bit 1 (CreateFromRawVal fx m_Value)
      in
      ebind (Fixed_mul_assign fx x m_Value) (\<lambda>x.
      ebind (Fixed_sub_assign fx val x) (\<lambda>val.
      ebind (Fixed_mul_assign fx x m_Value) (\<lambda>x.
      let x = drop_bit 2 x in
      ebind (Fixed_add fx one one) (\<lambda>dv.
      ebind (Fixed_add fx dv one) (\<lambda>dv.
      ebind (Fixed_mul_assign fx x m_Value) (\<lambda>x.
      ebind (Fixed_div_assign fx x dv) (\<lambda>x.
      ebind (Fixed_add_assign fx val x) (\<lambda>val.
      ebind (Fixed_add fx one one) (\<lambda>two.
      ebind (Fixed_add_assign fx dv two) (\<lambda>dv.
      ebind (Fixed_mul_assign fx x m_Value) (\<lambda>x.
      ebind (Fixed_div_assign fx x dv) (\<lambda>x.
      ebind (series_step fx m_Value one (x, dv)) (\<lambda>(x, dv).
      ebind (Fixed_sub_assign fx val x) (\<lambda>val.
      series_terms fx m_Value one [True, False, True, False, True, False] (x, dv) val)))))))))))))))"

fun atan_terms :: "fixed_type \<Rightarrow> int \<Rightarrow> int \<Rightarrow> bool list \<Rightarrow> int \<Rightarrow> int \<Rightarrow> int \<Rightarrow> int result" where
  "atan_terms fx this two [] x dv val = Inr val"
| "atan_terms fx this two (positive # signs) x dv val =
     ebind (Fixed_add_assign fx dv two) (\<lambda>dv.
     ebind (Fixed_mul_assign fx x this) (\<lambda>x.
     ebind (Fixed_mul_assign fx x this) (\<lambda>x.
     ebind (Fixed_div fx x dv) (\<lambda>q.
     ebind (if positive then Fixed_add_assign fx val q else Fixed_sub_assign fx val q) (\<lambda>val.
     atan_terms fx this two signs x dv val)))))"

definition AtanSlow :: "fixed_type \<Rightarrow> int \<Rightarrow> int result" where
  "AtanSlow fx m_Value =
     (let one = CreateFromRawVal fx (kOne fx) in
      ebind (Fixed_add fx one one) (\<lambda>two.
      atan_terms fx m_Value two
        [False, True, False, True, False, True, False, True, False, True, False]
        (CreateFromRawVal fx m_Value) one (CreateFromRawVal fx m_Value)))"

subsection \<open>Serializers\<close>

definition NetSerializer_fixed :: "bool \<Rightarrow> fixed_type \<Rightarrow> int serializer" where
  "NetSerializer_fixed dbg fx val w =
     (if \<not> ctype_signed (StorageType fx) then WriteBits dbg (word_of_int val) (int (NumBits fx)) w
      else WriteSBits dbg (word_of_int val) (int (NumBits fx)) w)"

definition NetDeserializer_fixed :: "fixed_type \<Rightarrow> int deserializer" where
  "NetDeserializer_fixed fx val r =
     (if \<not> ctype_signed (StorageType fx) then
        ebind (ReadUBits (int (NumBits fx)) r) (\<lambda>(raw_val, r).
          Inr (CreateFromRawVal fx (conv (StorageType fx) (uint raw_val)), r))
      else
        ebind (ReadSBits (int (NumBits fx)) r) (\<lambda>(raw_val, r).
          Inr (CreateFromRawVal fx (conv (StorageType fx) (sint raw_val)), r)))"

section \<open>Products are exact\<close>

lemma conv_I64_id: "- (2 ^ 63) \<le> x \<Longrightarrow> x < 2 ^ 63 \<Longrightarrow> conv I64 x = x"
  by (rule conv_id) (simp add: in_ctype_def ctype_min_def ctype_max_def)

lemma conv_U64_id: "0 \<le> x \<Longrightarrow> x < 2 ^ 64 \<Longrightarrow> conv U64 x = x"
  by (rule conv_id) (simp add: in_ctype_def ctype_min_def ctype_max_def)

lemma c_binop_I64:
  assumes "\<bar>x\<bar> < 2 ^ 63" "\<bar>y\<bar> < 2 ^ 63"
  shows "\<bar>x * y\<bar> < 2 ^ 63 \<Longrightarrow> c_binop OpMul I64 x I64 y = Inr (I64, x * y)"
    and "\<bar>x + y\<bar> < 2 ^ 63 \<Longrightarrow> c_binop OpAdd I64 x I64 y = Inr (I64, x + y)"
  using assms
  by (simp_all add: c_binop_def Let_def conv_I64_id arith_result_def in_ctype_def ctype_min_def ctype_max_def
      abs_less_iff)


lemma abs_floor_le:
  fixes x m :: int
  assumes "0 < m" "\<bar>x\<bar> \<le> k * m"
  shows "\<bar>x div m\<bar> \<le> k"
proof -
  have "x div m \<le> k * m div m" using assms by (intro zdiv_mono1) auto
  moreover have "- k * m div m \<le> x div m" using assms by (intro zdiv_mono1) auto
  moreover have "- k * m div m = - k" "k * m div m = k"
    using assms(1) by (simp_all del: mult_minus_left)
  ultimately show ?thesis by (simp add: abs_le_iff)
qed

lemma abs_prod_le:
  fixes x y :: int
  shows "\<bar>x\<bar> \<le> a \<Longrightarrow> \<bar>y\<bar> \<le> b \<Longrightarrow> \<bar>x * y\<bar> \<le> a * b"
  unfolding abs_mult by (intro mult_mono) auto

text \<open>The four partial products add up to the product.\<close>

lemma partial_products:
  fixes a b m :: int
  assumes "0 < m"
  shows "a * b div m = (a mod m) * (b mod m) div m + (a mod m) * (b div m) + (a div m) * (b mod m)
    + (a div m) * (b div m) * m"
proof -
  have "a * b = (a div m * m + a mod m) * (b div m * m + b mod m)" by simp
  also have "\<dots> = (a mod m) * (b mod m)
    + ((a mod m) * (b div m) + (a div m) * (b mod m) + (a div m) * (b div m) * m) * m"
    by (simp only: algebra_simps)
  finally show ?thesis using assms by simp
qed

lemma shl_U64_mask: "f < 64 \<Longrightarrow> conv U64 (shl U64 1 f - 1) = mask f"
proof -
  assume f: "f < 64"
  then have "(2 :: int) ^ f < 2 ^ 64" by (intro power_strict_increasing) auto
  then show ?thesis by (simp add: shl_def conv_U64_id mask_eq_exp_minus_1)
qed

lemma conv_U64_mask: "f < 64 \<Longrightarrow> conv U64 x AND mask f = x mod 2 ^ f"
  by (simp add: conv_def flip: take_bit_eq_mask take_bit_eq_mod)

lemma FixedPointMultiplyWide64_exact:
  assumes f: "f \<le> 32" and a: "\<bar>a\<bar> < 2 ^ 61" and b: "\<bar>b\<bar> < 2 ^ 61" and ab: "\<bar>a * b\<bar> \<le> 2 ^ (61 + f)"
  shows "FixedPointMultiplyWide64 a b f = Inr (a * b div 2 ^ f)"
proof -
  define m where "m = (2 :: int) ^ f"
  have m0: "0 < m" by (simp add: m_def)
  have m32: "m \<le> 2 ^ 32" unfolding m_def using f by (intro power_increasing) auto
  have m61: "m * 2 ^ (61 - f) = 2 ^ 61" unfolding m_def using f by (simp flip: power_add)
  define xlo ylo xhi yhi where "xlo = a mod m" and "ylo = b mod m" and "xhi = a div m" and "yhi = b div m"
  have lo: "0 \<le> xlo" "xlo < m" "0 \<le> ylo" "ylo < m" using m0 by (simp_all add: xlo_def ylo_def)
  have hi: "\<bar>xhi\<bar> \<le> 2 ^ (61 - f)" "\<bar>yhi\<bar> \<le> 2 ^ (61 - f)"
    unfolding xhi_def yhi_def using a b m61 m0 by (auto intro!: abs_floor_le simp: mult.commute)
  have pr: "\<bar>xlo * yhi\<bar> \<le> 2 ^ 61" "\<bar>xhi * ylo\<bar> \<le> 2 ^ 61"
    using abs_prod_le [OF _ hi(2), of xlo m] abs_prod_le [OF hi(1), of ylo m] lo m61 by (simp_all add: mult.commute)
  have lolo: "0 \<le> xlo * ylo" "xlo * ylo < 2 ^ 64"
  proof -
    have "xlo * ylo \<le> (2 ^ 32 - 1) * (2 ^ 32 - 1)" using lo m32 by (intro mult_mono) auto
    then show "xlo * ylo < 2 ^ 64" by simp
  qed (use lo in simp)
  have lod: "0 \<le> xlo * ylo div m" "xlo * ylo div m < m"
  proof -
    show "0 \<le> xlo * ylo div m" using lo m0 by (simp add: pos_imp_zdiv_nonneg_iff)
    have "xlo * ylo \<le> (m - 1) * m" using lo by (intro mult_mono) auto
    then have "xlo * ylo div m \<le> (m - 1) * m div m" using m0 by (intro zdiv_mono1) auto
    then show "xlo * ylo div m < m" using m0 by simp
  qed
  have sum: "a * b div m = xlo * ylo div m + xlo * yhi + xhi * ylo + xhi * yhi * m"
    unfolding xlo_def ylo_def xhi_def yhi_def by (rule partial_products [OF m0])
  have abm: "\<bar>a * b div m\<bar> \<le> 2 ^ 61"
    using ab m0 by (intro abs_floor_le) (simp_all add: m_def power_add mult.commute)
  have h: "\<bar>xhi * yhi * m\<bar> < 2 ^ 63" 
    using sum abm pr lod m32 unfolding abs_le_iff abs_less_iff by simp
  moreover have "\<bar>xhi * yhi\<bar> * 1 \<le> \<bar>xhi * yhi\<bar> * m" using m0 by (intro mult_left_mono) auto
  ultimately have hh: "\<bar>xhi * yhi\<bar> < 2 ^ 63" using m0 by (simp add: abs_mult)
  have hs: "shl I64 (xhi * yhi) f = xhi * yhi * m"
    using h by (simp add: shl_def push_bit_eq_mult m_def conv_I64_id abs_less_iff)
  have small: "\<bar>xlo\<bar> < 2 ^ 63" "\<bar>ylo\<bar> < 2 ^ 63" using lo m32 by simp_all
  have hib: "\<bar>xhi\<bar> < 2 ^ 63" "\<bar>yhi\<bar> < 2 ^ 63"
  proof -
    have "(2 :: int) ^ (61 - f) \<le> 2 ^ 61" by (intro power_increasing) auto
    then show "\<bar>xhi\<bar> < 2 ^ 63" "\<bar>yhi\<bar> < 2 ^ 63" using hi by simp_all
  qed
  have e: "xlo = conv U64 a AND mask f" "ylo = conv U64 b AND mask f" "xhi = drop_bit f a" "yhi = drop_bit f b"
    using f by (simp_all add: xlo_def ylo_def xhi_def yhi_def m_def conv_U64_mask drop_bit_eq_div)
  have dl: "drop_bit f (xlo * ylo) = xlo * ylo div m" by (simp add: m_def drop_bit_eq_div)
  have ps: "\<bar>xlo * ylo div m\<bar> < 2 ^ 63" "\<bar>xlo * ylo div m + xlo * yhi\<bar> < 2 ^ 63"
    "\<bar>xlo * ylo div m + xlo * yhi + xhi * ylo\<bar> < 2 ^ 63" "\<bar>a * b div m\<bar> < 2 ^ 63"
    "\<bar>xlo * yhi\<bar> < 2 ^ 63" "\<bar>xhi * ylo\<bar> < 2 ^ 63"
    using pr lod m32 abm unfolding abs_le_iff abs_less_iff by simp_all
  have c64: "conv I64 x = x" if "\<bar>x\<bar> < 2 ^ 63" for x
    using that by (intro conv_I64_id) (simp_all add: abs_less_iff)
  have "f < 64" using f by simp
  note cl = conv_U64_id [OF lolo] c64 [OF small(1)] c64 [OF small(2)] c64 [OF ps(1)]
  note ops = c_binop_I64(1) [OF small(1) hib(2) ps(5)] c_binop_I64(1) [OF hib(1) small(2) ps(6)]
    c_binop_I64(1) [OF hib hh] c_binop_I64(2) [OF ps(1,5) ps(2)] c_binop_I64(2) [OF ps(2,6) ps(3)]
    c_binop_I64(2) [OF ps(3) h, folded sum, OF ps(4)]
  show ?thesis
    unfolding FixedPointMultiplyWide64_def Let_def shl_U64_mask [OF \<open>f < 64\<close>]
    unfolding e [symmetric] cl ops hs dl ebind_Inr prod.case
    by (simp add: m_def)
qed

text \<open>The product of the low halves is 64 bits wide: with more than 32 fractional bits it can wrap, and with it the
  result. With 40 fractional bits one half times one half (\<open>2 ^ 39\<close> is one half) is zero, not a quarter.\<close>

lemma FixedPointMultiplyWide64_wraps:
  "FixedPointMultiplyWide64 (2 ^ 39) (2 ^ 39) 40 = Inr 0" "(2 :: int) ^ 39 * 2 ^ 39 div 2 ^ 40 = 2 ^ 38"
  by code_simp+

text \<open>C24: the product of two raw values of a signed storage type is the exact product shifted right, converted to
  that type. For 8, 16 and 32 bits this holds of any two values. For 64 bits, where the product is assembled from four
  partial products, it holds if at most 32 bits are fractional, both operands are below \<open>2 ^ 61\<close> in magnitude and the
  shifted product is at most \<open>2 ^ 61\<close>; \<open>FixedPointMultiplyWide64_wraps\<close> shows a wrong product with 40 fractional bits.\<close>

theorem FixedPointMultiplyWide_exact:
  assumes "ctype_signed t" "in_ctype t a" "in_ctype t b"
    and "t = I64 \<Longrightarrow> f \<le> 32 \<and> \<bar>a\<bar> < 2 ^ 61 \<and> \<bar>b\<bar> < 2 ^ 61 \<and> \<bar>a * b\<bar> \<le> 2 ^ (61 + f)"
  shows "FixedPointMultiplyWide t a b f = Inr (conv t (a * b div 2 ^ f))"
proof (cases "t = I64")
  case True
  then have "\<bar>a * b div 2 ^ f\<bar> \<le> 2 ^ 61"
    using assms(4) by (intro abs_floor_le) (simp_all add: power_add)
  then have "conv I64 (a * b div 2 ^ f) = a * b div 2 ^ f"
    unfolding abs_le_iff by (intro conv_I64_id) simp_all
  then show ?thesis
    using True assms(4) FixedPointMultiplyWide64_exact by (simp add: FixedPointMultiplyWide_def)
next
  case False
  define M where "M = (2 :: int) ^ (ctype_bits t - 1)"
  have "\<bar>a\<bar> \<le> M" "\<bar>b\<bar> \<le> M"
    using assms(1-3) by (cases t; simp add: M_def in_ctype_def ctype_min_def ctype_max_def abs_le_iff)+
  then have p: "\<bar>a * b\<bar> \<le> M * M" by (rule abs_prod_le)
  have w: "in_ctype (promote (wider t)) a" "in_ctype (promote (wider t)) b" "in_ctype (promote (wider t)) (a * b)"
    using False assms(1-3) p
    by (cases t; simp add: M_def in_ctype_def ctype_min_def ctype_max_def abs_le_iff)+
  then have "c_binop OpMul (wider t) a (wider t) b = Inr (promote (wider t), a * b)"
    by (simp add: c_binop_def Let_def conv_id arith_result_id)
  then show ?thesis using False by (simp add: FixedPointMultiplyWide_def drop_bit_eq_div)
qed

theorem FixedPointMultiplyWide_exact_witness:
  "FixedPointMultiplyWide I64 (- 98304) 163840 16 = Inr (- 245760)"
  using FixedPointMultiplyWide_exact [of I64 "- 98304" 163840 16]
  by (simp add: in_ctype_def ctype_min_def ctype_max_def conv_I64_id)

section \<open>Quotients are rounded to nearest\<close>

lemma reduce_divider_quo:
  assumes "0 < D" "0 \<le> p" "reduce_divider D p = (D', p')"
  shows "0 < D' \<and> D' \<le> D \<and> 0 \<le> p' \<and> (\<forall>N. N * 2 ^ nat p div D = N * 2 ^ nat p' div D')"
  using assms
proof (induction D p rule: reduce_divider.induct)
  case (1 D p)
  show ?case
  proof (cases "D AND 0xF = 0 \<and> 4 \<le> p")
    case True
    have "D AND mask 4 = 0" using True by (simp add: mask_eq_exp_minus_1)
    then have "D mod 16 = 0" by (simp flip: take_bit_eq_mask add: take_bit_eq_mod)
    then obtain E where D: "D = E * 16" by (metis mod_eq_0_iff_dvd dvd_def mult.commute)
    have d: "drop_bit 4 D = E" using D by (simp add: drop_bit_eq_div)
    have E: "0 < E" using "1.prems"(1) D by simp
    have r: "reduce_divider E (p - 4) = (D', p')"
      using "1.prems"(3) True d by (simp add: reduce_divider.simps [of D p])
    have ih: "0 < D' \<and> D' \<le> E \<and> 0 \<le> p' \<and> (\<forall>N. N * 2 ^ nat (p - 4) div E = N * 2 ^ nat p' div D')"
      using "1.IH" [OF True] d E r True by simp
    have "nat p = nat (p - 4) + 4" using conjunct2 [OF True] by linarith
    then have "(2 :: int) ^ nat p = 2 ^ nat (p - 4) * 16" by (simp add: power_add)
    then have "N * 2 ^ nat p div D = N * 2 ^ nat (p - 4) div E" for N
      using D by (simp flip: mult.assoc)
    with ih D E show ?thesis by simp
  next
    case False
    with "1.prems" show ?thesis by (auto simp: reduce_divider.simps [of D p] split: if_splits)
  qed
qed

lemma clz_shift:
  assumes "0 < R" "R < 2 ^ 64" "s \<le> CountLeadingZeros U64 R"
  shows "R * 2 ^ s < 2 ^ 64"
proof -
  let ?c = "CountLeadingZeros U64 R"
  have "leading 64 (nat R) ?c"
    using CountLeadingZeros_leading [of U64 R] assms(1,2)
    by (simp add: wide_def in_ctype_def ctype_min_def ctype_max_def)
  then have "int (nat R * 2 ^ ?c) < int (2 ^ 64)" unfolding leading_def by (simp only: of_nat_less_iff) 
  then have "R * 2 ^ ?c < 2 ^ 64" using assms(1) by simp
  moreover have "R * 2 ^ s \<le> R * 2 ^ ?c"
    using assms by (intro mult_left_mono power_increasing) auto
  ultimately show ?thesis by linarith
qed

lemma conv_U64_add: "conv U64 (x + conv U64 y) = conv U64 (x + y)" "conv U64 (conv U64 x + y) = conv U64 (x + y)"
  by (simp_all add: conv_def take_bit_add [symmetric] take_bit_eq_mod mod_simps)

lemma divide_loop_quo:
  assumes "0 < D" "D \<le> 2 ^ 63" "0 \<le> R" "R < 2 ^ 64" "0 \<le> p" "0 \<le> q" "q < 2 ^ 64"
  shows "divide_loop D R q p = conv U64 (q + R * 2 ^ nat p div D)"
  using assms
proof (induction "nat (p + 1)" arbitrary: R q p rule: less_induct)
  case less
  show ?case
  proof (cases "R = 0")
    case True
    then show ?thesis using less.prems by (simp add: divide_loop.simps conv_U64_id)
  next
    case False
    then have c: "R \<noteq> 0 \<and> 0 \<le> p" using less.prems by simp
    define s where "s = min (int (CountLeadingZeros U64 R)) p"
    define R' where "R' = R * 2 ^ nat s"
    define p' where "p' = p - s"
    have s: "0 \<le> s" "s \<le> p" "nat s \<le> CountLeadingZeros U64 R" using c by (auto simp: s_def)
    have R': "0 \<le> R'" "R' < 2 ^ 64" using clz_shift [OF _ _ s(3)] less.prems c by (auto simp: R'_def)
    have sh: "shl U64 R (nat s) = R'" using R' by (simp add: shl_def R'_def push_bit_eq_mult conv_U64_id)
    have m: "0 \<le> R' mod D" "R' mod D < D" using less.prems by simp_all
    have m2: "R' mod D * 2 < 2 ^ 64" using m(2) less.prems(2) by (simp del: pos_mod_bound)
    have sh1: "shl U64 (R' mod D) 1 = R' mod D * 2"
      using m less.prems(2) by (simp add: shl_def push_bit_eq_mult conv_U64_id)
    define q' where "q' = conv U64 (q + R' div D * 2 ^ nat p')"
    have q': "conv U64 (q + shl U64 (R' div D) (nat p')) = q'"
      by (simp add: q'_def shl_def push_bit_eq_mult conv_U64_add)
    have u: "0 \<le> q'" "q' < 2 ^ 64"
      using take_bit_int_less_exp [of 64 "q + R' div D * 2 ^ nat p'"] by (simp_all add: q'_def conv_def)
    have p': "0 \<le> p'" using s by (simp add: p'_def)
    have step: "divide_loop D R q p = divide_loop D (R' mod D * 2) q' (p' - 1)"
      unfolding divide_loop.simps [of D R q p] Let_def s_def [symmetric] p'_def [symmetric] sh q' sh1
      using c by (rule if_P)
    have "nat p = nat s + nat p'" using s by (simp add: p'_def)
    then have "R * 2 ^ nat p = R' * 2 ^ nat p'" by (simp add: R'_def power_add)
    also have "\<dots> = (R' div D * D + R' mod D) * 2 ^ nat p'" by (simp only: div_mult_mod_eq)
    also have "\<dots> = R' mod D * 2 ^ nat p' + R' div D * 2 ^ nat p' * D" by (simp only: algebra_simps)
    finally have dv: "R * 2 ^ nat p div D = R' mod D * 2 ^ nat p' div D + R' div D * 2 ^ nat p'"
      using less.prems(1) by simp
    show ?thesis
    proof (cases "p' = 0")
      case True
      have "divide_loop D (R' mod D * 2) q' (- 1) = q'" by (simp add: divide_loop.simps)
      moreover have "R' mod D div D = 0" using m by simp
      ultimately show ?thesis using step dv True by (simp add: q'_def)
    next
      case F: False
      then have e: "R' mod D * 2 * 2 ^ nat (p' - 1) = R' mod D * 2 ^ nat p'"
        using p' by (cases "nat p'") (auto simp: nat_diff_distrib)
      have "divide_loop D (R' mod D * 2) q' (p' - 1) = conv U64 (q' + R' mod D * 2 * 2 ^ nat (p' - 1) div D)"
        using m(1) m2 u less.prems(1,2) F p' s by (intro less.hyps) (auto simp: p'_def)
      then show ?thesis using step dv e by (simp add: q'_def conv_U64_add add_ac)
    qed
  qed
qed


lemma xor_sign_bit:
  assumes "\<bar>a\<bar> < 2 ^ 63" "\<bar>b\<bar> < 2 ^ 63"
  shows "conv U64 (a XOR b) AND 2 ^ 63 \<noteq> 0 \<longleftrightarrow> (a < 0) \<noteq> (b < 0)"
proof -
  have "conv U64 (a XOR b) AND 2 ^ 63 \<noteq> 0 \<longleftrightarrow> bit (a XOR b) 63"
    unfolding and_exp_eq_0_iff_not_bit by (simp add: conv_def bit_take_bit_iff bit_xor_iff)
  moreover have "bit x 63 \<longleftrightarrow> x < 0" if "\<bar>x\<bar> < 2 ^ 63" for x :: int
  proof (cases "0 \<le> x")
    case False
    have "x div 2 ^ 63 = - 1" using that False by (intro int_div_pos_eq [where r = "x + 2 ^ 63"]) simp_all
    then show ?thesis using False by (simp add: bit_int_def)
  qed (use that in \<open>simp add: bit_int_def\<close>)
  ultimately show ?thesis using assms by (simp add: bit_xor_iff)
qed

lemma abs64_Inr: "\<bar>x\<bar> < 2 ^ 63 \<Longrightarrow> abs64 x = Inr \<bar>x\<bar>"
  by (simp add: abs64_def c_binop_def Let_def arith_type_def arith_result_def conv_id
      in_ctype_def ctype_min_def ctype_max_def conv_I64_id conv_U64_id abs_if split: if_splits)

definition round_quo :: "nat \<Rightarrow> int \<Rightarrow> int \<Rightarrow> int" where
  "round_quo f a b = (\<bar>a\<bar> * 2 ^ (f + 1) div \<bar>b\<bar> + 1) div 2"

lemma round_quo_nearest:
  assumes "b \<noteq> 0"
  shows "2 * \<bar>round_quo f a b * \<bar>b\<bar> - \<bar>a\<bar> * 2 ^ f\<bar> \<le> \<bar>b\<bar>"
proof -
  define N D where "N = \<bar>a\<bar> * 2 ^ f" and "D = \<bar>b\<bar>"
  have D: "0 < D" using assms by (simp add: D_def)
  define Q where "Q = 2 * N div D"
  have 1: "Q * D \<le> 2 * N" "2 * N < Q * D + D"
  proof -
    have "2 * N = Q * D + 2 * N mod D" by (simp add: Q_def)
    then show "Q * D \<le> 2 * N" "2 * N < Q * D + D" using D pos_mod_bound [OF D, of "2 * N"]
      pos_mod_sign [OF D, of "2 * N"] by linarith+
  qed
  have r: "round_quo f a b = (Q + 1) div 2" by (simp add: round_quo_def Q_def N_def D_def mult.assoc mult.left_commute)
  have "(Q + 1) div 2 * 2 = Q \<or> (Q + 1) div 2 * 2 = Q + 1" by arith
  then have "round_quo f a b * D * 2 = Q * D \<or> round_quo f a b * D * 2 = Q * D + D"
    unfolding r by (metis distrib_right mult.commute mult.left_commute mult_1)
  moreover have "2 * \<bar>K - N\<bar> \<le> D" if "K * 2 = L \<or> K * 2 = L + D" "L \<le> 2 * N" "2 * N < L + D" for K L :: int
    using that by (auto simp: abs_if)
  ultimately have "2 * \<bar>round_quo f a b * D - N\<bar> \<le> D" using 1 by blast
  then show ?thesis by (simp add: N_def D_def)
qed


lemma FixedPointDivideWide64_rounds_lemma:
  assumes "\<bar>a\<bar> < 2 ^ 63" "\<bar>b\<bar> < 2 ^ 63" "\<bar>a\<bar> * 2 ^ (f + 1) div \<bar>b\<bar> < 2 ^ 64 - 1"
  shows "FixedPointDivideWide64 I64 a b f =
    (if b = 0 then Inl LogicError
     else Inr (if (a < 0) \<noteq> (b < 0) then - round_quo f a b else round_quo f a b))"
proof (cases "b = 0")
  case False
  obtain D p where D: "reduce_divider \<bar>b\<bar> (int f + 1) = (D, p)" by (cases "reduce_divider \<bar>b\<bar> (int f + 1)")
  have n: "nat (int f + 1) = f + 1" by simp
  have r: "0 < D" "D \<le> \<bar>b\<bar>" "0 \<le> p" "\<bar>a\<bar> * 2 ^ (f + 1) div \<bar>b\<bar> = \<bar>a\<bar> * 2 ^ nat p div D"
    using reduce_divider_quo [OF _ _ D] False unfolding n by auto
  define Q where "Q = \<bar>a\<bar> * 2 ^ nat p div D"
  have Q: "0 \<le> Q" "Q < 2 ^ 64 - 1"
    using r assms(3) by (simp_all add: Q_def pos_imp_zdiv_nonneg_iff)
  have "divide_loop D \<bar>a\<bar> 0 p = conv U64 (0 + \<bar>a\<bar> * 2 ^ nat p div D)"
    using r assms by (intro divide_loop_quo) simp_all
  then have l: "divide_loop D \<bar>a\<bar> 0 p = Q" using Q by (simp add: conv_U64_id flip: Q_def)
  have rq: "round_quo f a b = (Q + 1) div 2" unfolding round_quo_def r(4) Q_def ..
  have h: "0 \<le> (Q + 1) div 2" "(Q + 1) div 2 < 2 ^ 63" using Q by simp_all
  have c: "conv U64 (Q + 1) = Q + 1" "drop_bit 1 (Q + 1) = (Q + 1) div 2"
    using Q by (simp_all add: conv_U64_id drop_bit_eq_div)
  have o: "c_binop OpSub I32 0 I64 ((Q + 1) div 2) = Inr (I64, - ((Q + 1) div 2))"
    using h by (simp add: c_binop_def Let_def arith_type_def arith_result_def conv_id
        in_ctype_def ctype_min_def ctype_max_def conv_I64_id)
  show ?thesis
    using False h o unfolding FixedPointDivideWide64_def abs64_Inr [OF assms(1)] abs64_Inr [OF assms(2)]
      ebind_Inr Let_def D prod.case l c xor_sign_bit [OF assms(1,2)] rq
    by (simp add: to_type_def conv_I64_id)
qed (simp add: FixedPointDivideWide64_def)

text \<open>C23: the 64-bit quotient, found by normalising shifts and repeated division, terminates and is
  the quotient of the shifted dividend rounded to nearest, halves away from zero, with the sign of the
  quotient, where that fits and \<^verbatim>\<open>long\<close> has 64 bits; a zero divisor throws.\<close>

theorem FixedPointDivideWide64_rounds:
  assumes "\<bar>a\<bar> < 2 ^ 63" "\<bar>b\<bar> < 2 ^ 63" "\<bar>a\<bar> * 2 ^ (f + 1) div \<bar>b\<bar> < 2 ^ 64 - 1"
  shows "FixedPointDivideWide64 I64 a b f =
    (if b = 0 then Inl LogicError
     else Inr (if (a < 0) \<noteq> (b < 0) then - round_quo f a b else round_quo f a b))"
  using assms by (rule FixedPointDivideWide64_rounds_lemma)

theorem FixedPointDivideWide64_rounds_witness: "FixedPointDivideWide64 I64 (- 65536) 196608 16 = Inr (- 21845)"
  using FixedPointDivideWide64_rounds [of "- 65536" 196608 16] by (simp add: round_quo_def)

end
