(* ===== verification/FixedLaws.thy ===== *)
theory FixedLaws
  imports FixedPoint
begin

text \<open>
  Laws of the fixed-point numbers: rounding, what \<^verbatim>\<open>Set\<close> masks, the constructors and the serializers.
\<close>

section \<open>Rounding\<close>

definition rounding_ok :: "fixed_type \<Rightarrow> int \<Rightarrow> bool" where
  "rounding_ok fx m \<longleftrightarrow> ctype_signed (StorageType fx) \<and> 0 < FractionalBits fx
     \<and> FractionalBits fx < ctype_bits (StorageType fx) - 1
     \<and> in_ctype (StorageType fx) m \<and> in_ctype (StorageType fx) (m + 2 ^ FractionalBits fx)"

lemma signed_range:
  "ctype_signed t \<Longrightarrow> in_ctype t x \<longleftrightarrow> - (2 ^ (ctype_bits t - 1)) \<le> x \<and> x < 2 ^ (ctype_bits t - 1)"
  by (cases t) (auto simp: in_ctype_def ctype_min_def ctype_max_def)

lemma in_ctype_power:
  assumes "ctype_signed t" "k < ctype_bits t - 1"
  shows "in_ctype t (2 ^ k)" "0 \<le> x \<Longrightarrow> x < 2 ^ k \<Longrightarrow> in_ctype t x"
proof -
  have "(2 :: int) ^ k < 2 ^ (ctype_bits t - 1)" using assms(2) by (intro power_strict_increasing) auto
  moreover have "- (2 ^ (ctype_bits t - 1)) \<le> (0 :: int)" by simp
  moreover have "(0 :: int) < 2 ^ k" by simp
  ultimately show "in_ctype t (2 ^ k)" "0 \<le> x \<Longrightarrow> x < 2 ^ k \<Longrightarrow> in_ctype t x"
    unfolding signed_range [OF assms(1)] by linarith+
qed

lemma and_not_mask: "m AND NOT (mask F) = m - m mod (2 :: int) ^ F"
proof -
  have "m AND NOT (mask F) = push_bit F (drop_bit F m)"
    by (rule bit_eqI) (auto simp: bit_and_iff bit_not_iff bit_mask_iff bit_push_bit_iff bit_drop_bit_eq)
  also have "\<dots> = m - m mod 2 ^ F"
    by (simp add: push_bit_eq_mult drop_bit_eq_div minus_mod_eq_div_mult)
  finally show ?thesis .
qed

lemma floor_in_ctype:
  assumes "ctype_signed t" "F < ctype_bits t - 1" "in_ctype t m"
  shows "in_ctype t (m - m mod 2 ^ F)"
proof -
  define B P K where "B = (2 :: int) ^ (ctype_bits t - 1)" and "P = (2 :: int) ^ F"
    and "K = (2 :: int) ^ (ctype_bits t - 1 - F)"
  have K: "B = K * P"
    unfolding B_def P_def K_def using assms(2) by (simp flip: power_add)
  have m: "- B \<le> m" "m < B" using assms(3) unfolding signed_range [OF assms(1)] B_def by blast+
  have P: "0 < P" by (simp add: P_def)
  have "- K * P div P \<le> m div P" using m K P by (intro zdiv_mono1) simp_all
  then have "- K \<le> m div P" using P by (simp del: mult_minus_left)
  then have "- K * P \<le> m div P * P" by (rule mult_right_mono) (use P in simp)
  then have "- B \<le> m - m mod P" unfolding K minus_mod_eq_div_mult by (simp only: mult_minus_left)
  moreover have "0 \<le> m mod P" using P by simp
  ultimately show ?thesis
    using m unfolding signed_range [OF assms(1)] B_def [symmetric] P_def [symmetric] by linarith
qed

lemma fraction_facts:
  assumes "rounding_ok fx m"
  shows "kOne fx = 2 ^ FractionalBits fx" "kFractionalMask fx = mask (FractionalBits fx)"
    "shl (StorageType fx) 1 (FractionalBits fx - 1) = 2 ^ (FractionalBits fx - 1)"
    "Frac fx m = m mod 2 ^ FractionalBits fx"
    "m AND NOT (mask (FractionalBits fx)) = m - m mod 2 ^ FractionalBits fx"
    "in_ctype (StorageType fx) (m - m mod 2 ^ FractionalBits fx)"
proof -
  define t F where "t = StorageType fx" and "F = FractionalBits fx"
  have s: "ctype_signed t" "0 < F" "F < ctype_bits t - 1" "in_ctype t m"
    using assms by (simp_all add: rounding_ok_def t_def F_def)
  have F1: "F - 1 < ctype_bits t - 1" using s by simp
  note c = in_ctype_power [OF s(1,3)] and c1 = in_ctype_power(1) [OF s(1) F1]
  have sh: "shl t 1 F = 2 ^ F" "shl t 1 (F - 1) = 2 ^ (F - 1)"
    using c(1) c1 by (simp_all add: shl_def conv_id)
  have one: "kOne fx = 2 ^ F" by (simp add: kOne_def sh flip: t_def F_def)
  have mask: "conv t (mask F) = mask F"
    by (intro conv_id c(2)) (simp_all add: mask_eq_exp_minus_1)
  then have m: "kFractionalMask fx = mask F"
    by (simp add: kFractionalMask_def sh mask_eq_exp_minus_1 flip: t_def F_def)
  have "in_ctype t (m mod 2 ^ F)" by (intro c(2)) simp_all
  then have "Frac fx m = m mod 2 ^ F"
    by (simp add: Frac_def CreateFromRawVal_def m conv_id flip: t_def F_def take_bit_eq_mask take_bit_eq_mod)
  then show "kOne fx = 2 ^ FractionalBits fx" "kFractionalMask fx = mask (FractionalBits fx)"
    "shl (StorageType fx) 1 (FractionalBits fx - 1) = 2 ^ (FractionalBits fx - 1)"
    "Frac fx m = m mod 2 ^ FractionalBits fx"
    "m AND NOT (mask (FractionalBits fx)) = m - m mod 2 ^ FractionalBits fx"
    "in_ctype (StorageType fx) (m - m mod 2 ^ FractionalBits fx)"
    using one m sh(2) floor_in_ctype [OF s(1,3,4)] by (simp_all add: t_def F_def and_not_mask)
qed

lemma raw_op_exact:
  assumes "in_ctype (StorageType fx) a" "in_ctype (StorageType fx) b"
  shows "in_ctype (StorageType fx) (a + b) \<Longrightarrow> raw_op fx OpAdd a b = Inr (a + b)"
    and "in_ctype (StorageType fx) (a - b) \<Longrightarrow> raw_op fx OpSub a b = Inr (a - b)"
  using assms by (simp_all add: raw_op_def to_type_def c_binop_same arith_result_id in_ctype_promote conv_id)

lemma round_half_down:
  fixes d H r :: int
  assumes "0 < H" "0 \<le> r" "r < 2 * H"
  shows "(d * (2 * H) + r + (H - 1)) div (2 * H) * (2 * H) = (if H < r then d * (2 * H) + 2 * H else d * (2 * H))"
proof (cases "H < r")
  case True
  have "(d * (2 * H) + r + (H - 1)) div (2 * H) = d + 1"
    using True assms by (intro int_div_pos_eq [where r = "r - H - 1"]) (simp_all add: algebra_simps)
  then show ?thesis using True by (simp only: if_True distrib_right mult_1)
next
  case False
  have "(d * (2 * H) + r + (H - 1)) div (2 * H) = d"
    using False assms by (intro int_div_pos_eq [where r = "r + H - 1"]) (simp_all add: algebra_simps)
  then show ?thesis using False by (simp only: if_False)
qed

lemma rounding_laws:
  assumes "rounding_ok fx m"
  shows "Frac fx m = m mod 2 ^ FractionalBits fx
    \<and> Floor fx m = Inr (m div 2 ^ FractionalBits fx * 2 ^ FractionalBits fx)
    \<and> Ceil fx m = Inr (- (- m div 2 ^ FractionalBits fx) * 2 ^ FractionalBits fx)
    \<and> Round fx m = Inr ((m + (2 ^ (FractionalBits fx - 1) - 1)) div 2 ^ FractionalBits fx * 2 ^ FractionalBits fx)"
proof -
  define t F P d r where "t = StorageType fx" and "F = FractionalBits fx" and "P = (2 :: int) ^ F"
    and "d = m div P" and "r = m mod P"
  note f = fraction_facts [OF assms, folded t_def F_def, folded P_def, folded r_def]
  have s: "ctype_signed t" "0 < F" "in_ctype t m" "in_ctype t (m + P)"
    using assms by (simp_all add: rounding_ok_def t_def F_def P_def)
  have P: "0 < P" by (simp add: P_def)
  have r: "0 \<le> r" "r < P" "m = d * P + r"
    using P unfolding r_def d_def by (simp_all only: div_mult_mod_eq pos_mod_sign pos_mod_bound)
  have dP: "m - r = d * P" using r by simp
  have tP: "in_ctype t P" "in_ctype t r" "in_ctype t (d * P)" "in_ctype t (d * P + P)"
  proof -
    have F: "F < ctype_bits t - 1" using assms by (simp add: rounding_ok_def t_def F_def)
    note c = in_ctype_power [OF s(1) F, folded P_def]
    show "in_ctype t P" "in_ctype t r" using c r by blast+
    show dp: "in_ctype t (d * P)" using f(6) unfolding dP .
    show "in_ctype t (d * P + P)"
      using dp s(4) r P unfolding signed_range [OF s(1)] by linarith
  qed
  have fl: "Floor fx m = Inr (d * P)"
    using raw_op_exact(2) [of fx m r] s tP by (simp add: Floor_def f(4) dP flip: t_def)
  have ce: "Ceil fx m = Inr (- (- m div P) * P)"
  proof (cases "r = 0")
    case True
    then show ?thesis
      using fl r P s by (simp add: Ceil_def CreateFromRawVal_def conv_id flip: t_def)
  next
    case False
    have "- m div P = - d - 1" using False P by (simp add: zdiv_zminus1_eq_if r_def d_def)
    then have "- (- m div P) * P = d * P + P" by (simp add: distrib_right)
    then show ?thesis
      using fl False r raw_op_exact(1) [of fx "d * P" P] tP by (simp add: Ceil_def f(1) flip: t_def)
  qed
  have ro: "Round fx m = Inr ((m + (2 ^ (F - 1) - 1)) div P * P)"
  proof -
    define H where "H = (2 :: int) ^ (F - 1)"
    have fr: "m AND mask F = r" by (simp add: r_def P_def flip: take_bit_eq_mask take_bit_eq_mod)
    have H: "0 < H" "P = 2 * H" using s(2) by (simp_all add: H_def P_def flip: power_Suc)
    have e: "(m + (H - 1)) div P * P = (if H < r then d * P + P else d * P)"
      using round_half_down [OF H(1), of r d] r unfolding H(2) [symmetric] by (simp only: add.assoc simp_thms)
    show ?thesis
      unfolding Round_def Let_def t_def [symmetric] F_def [symmetric] f(1,2,3,5) fr dP H_def [symmetric] e
      using s(2) raw_op_exact(1) [of fx "d * P" P] tP
      by (simp add: CreateFromRawVal_def conv_id flip: t_def)
  qed
  show ?thesis using f(4) fl ce ro by (simp add: r_def d_def P_def F_def)
qed


text \<open>\<^verbatim>\<open>Frac\<close>, \<^verbatim>\<open>Floor\<close>, \<^verbatim>\<open>Ceil\<close> and \<^verbatim>\<open>Round\<close> of a number whose next multiple of one fits: the remainder, the
  multiples of one below and above, and the nearest one, a half rounded down, for negative numbers too.\<close>

theorem fixed_rounding:
  assumes "rounding_ok fx m"
  shows "Frac fx m = m mod 2 ^ FractionalBits fx
    \<and> Floor fx m = Inr (m div 2 ^ FractionalBits fx * 2 ^ FractionalBits fx)
    \<and> Ceil fx m = Inr (- (- m div 2 ^ FractionalBits fx) * 2 ^ FractionalBits fx)
    \<and> Round fx m = Inr ((m + (2 ^ (FractionalBits fx - 1) - 1)) div 2 ^ FractionalBits fx * 2 ^ FractionalBits fx)"
  using assms by (rule rounding_laws)

theorem fixed_rounding_witness:
  "let fx = \<lparr>StorageType = I32, NumBits = 32, FractionalBits = 16, LongType = I64\<rparr> in
    Floor fx (- 98304) = Inr (- 131072) \<and> Ceil fx (- 98304) = Inr (- 65536) \<and> Round fx (- 98304) = Inr (- 131072)"
  using fixed_rounding [of "\<lparr>StorageType = I32, NumBits = 32, FractionalBits = 16, LongType = I64\<rparr>" "- 98304"]
  by (simp add: rounding_ok_def in_ctype_def ctype_min_def ctype_max_def)

section \<open>What is masked\<close>

text \<open>
  \<^verbatim>\<open>Set\<close> is meant to confine a result to \<^verbatim>\<open>NumBits\<close>. Its mask is the identity as soon as \<^verbatim>\<open>NumBits\<close>
  reaches the number of bytes of the type, so sums keep bits above \<^verbatim>\<open>NumBits\<close>.
\<close>

lemma Set_unconfined:
  assumes "ctype_bits (StorageType fx) div 8 \<le> NumBits fx" "in_ctype (StorageType fx) x"
  shows "Fixed_Set fx x = x"
proof -
  have "conv t (x AND conv t (- 1)) = x" if "in_ctype t x" for t
    using that by (cases t) (auto simp: conv_def in_ctype_def ctype_min_def ctype_max_def take_bit_int_eq_self_iff
        signed_take_bit_int_eq_self and.commute [of x] simp flip: take_bit_eq_mask)
  then show ?thesis using assms by (simp add: Fixed_Set_def kMask_def)
qed

lemma Set_exceeds_NumBits:
  "let fx = \<lparr>StorageType = I32, NumBits = 16, FractionalBits = 8, LongType = I64\<rparr> in
    Fixed_add_assign fx 0x7FFF 1 = Inr 0x8000"
  by code_simp

text \<open>
  \<^verbatim>\<open>Clz\<close> counts single bits only up to a total of 8: it is wrong from a ninth leading zero bit that is
  not a multiple of four on.
\<close>

lemma Clz_stops_early:
  "Clz \<lparr>StorageType = I32, NumBits = 16, FractionalBits = 8, LongType = I64\<rparr> 1 = Inr 12"
  "Clz \<lparr>StorageType = I32, NumBits = 16, FractionalBits = 8, LongType = I64\<rparr> 0x400 = Inr 5"
  by code_simp+

section \<open>Serialized numbers\<close>

definition fixed_range :: "fixed_type \<Rightarrow> int \<Rightarrow> bool" where
  "fixed_range fx v \<longleftrightarrow>
     (if ctype_signed (StorageType fx) then - (2 ^ (NumBits fx - 1)) \<le> v \<and> v < 2 ^ (NumBits fx - 1)
      else 0 \<le> v \<and> v < 2 ^ NumBits fx)"

definition fixed_enc :: "fixed_type \<Rightarrow> int \<Rightarrow> bool list" where
  "fixed_enc fx v = bits_of (NumBits fx) (word_of_int v)"

definition fixed_ok :: "fixed_type \<Rightarrow> bool" where
  "fixed_ok fx \<longleftrightarrow> 0 < NumBits fx \<and> NumBits fx < 64 \<and> NumBits fx \<le> ctype_bits (StorageType fx)"

text \<open>Whatever the value, its low \<^verbatim>\<open>NumBits\<close> bits are what is read back.\<close>

lemma NetDeserializer_fixed_value:
  assumes "fixed_ok fx" "rinv r" "rbits r = fixed_enc fx v @ rest"
  shows "\<exists>r'. NetDeserializer_fixed fx v0 r =
      Inr (if ctype_signed (StorageType fx) then signed_take_bit (NumBits fx - 1) v else take_bit (NumBits fx) v, r')
    \<and> consumed r r' (fixed_enc fx v) \<and> rbits r' = rest"
proof -
  let ?t = "StorageType fx" and ?n = "NumBits fx"
  have n: "0 < ?n" "?n < 64" "?n \<le> ctype_bits ?t" using assms(1) by (simp_all add: fixed_ok_def)
  show ?thesis
  proof (cases "ctype_signed ?t")
    case True
    obtain r' where r': "ReadSBits (int ?n) r = Inr (signed_take_bit (?n - 1) (word_of_int v), r')"
        "consumed r r' (fixed_enc fx v)" "rbits r' = rest"
      using ReadSBits_value [OF assms(2), of "int ?n" "word_of_int v" rest] assms(3) n by (auto simp: fixed_enc_def)
    have e: "signed_take_bit (?n - 1) (word_of_int v :: u64) = word_of_int (signed_take_bit (?n - 1) v)"
      by (rule bit_word_eqI) (auto simp: bit_signed_take_bit_iff bit_word_of_int_iff min_def)
    have b: "- (2 ^ (?n - 1)) \<le> signed_take_bit (?n - 1) v" "signed_take_bit (?n - 1) v < 2 ^ (?n - 1)"
      by (rule signed_take_bit_int_greater_eq_minus_exp signed_take_bit_int_less_exp)+
    have "(2 :: int) ^ (?n - 1) \<le> 2 ^ 63" using n by (intro power_increasing) auto
    then have "sint (signed_take_bit (?n - 1) (word_of_int v) :: u64) = signed_take_bit (?n - 1) v"
      unfolding e using b by (intro sint_word_of_int_u64) linarith+
    moreover have "(2 :: int) ^ (?n - 1) \<le> 2 ^ (ctype_bits ?t - 1)" using n by (intro power_increasing) auto
    then have "conv ?t (signed_take_bit (?n - 1) v) = signed_take_bit (?n - 1) v"
      using b by (intro conv_id) (simp only: signed_range [OF True], linarith)
    ultimately show ?thesis using True r' by (simp add: NetDeserializer_fixed_def CreateFromRawVal_def)
  next
    case False
    obtain r' where r': "ReadUBits (int ?n) r = Inr (take_bit ?n (word_of_int v), r')"
        "consumed r r' (fixed_enc fx v)" "rbits r' = rest"
      using ReadUBits_value [OF assms(2), of "int ?n" "word_of_int v" rest] assms(3) n by (auto simp: fixed_enc_def)
    have "uint (take_bit ?n (word_of_int v) :: u64) = take_bit ?n v"
      using n by (simp add: unsigned_take_bit_eq uint_word_of_int_eq min_def)
    moreover have "conv ?t (take_bit ?n v) = take_bit ?n v"
      using False n by (simp add: conv_def min_def)
    ultimately show ?thesis using False r' by (simp add: NetDeserializer_fixed_def CreateFromRawVal_def)
  qed
qed


lemma NetSerializer_fixed_wrote:
  assumes "fixed_ok fx" "winv w" "dbg \<longrightarrow> fixed_range fx v"
  shows "\<exists>w'. NetSerializer_fixed dbg fx v w = Inr w' \<and> wrote w w' (fixed_enc fx v)"
proof -
  let ?t = "StorageType fx" and ?n = "NumBits fx"
  have n: "0 < ?n" "?n < 64" using assms(1) by (simp_all add: fixed_ok_def)
  have le: "(2 :: int) ^ (?n - 1) \<le> 2 ^ 63" using n by (intro power_increasing) auto
  show ?thesis
  proof (cases "ctype_signed ?t")
    case True
    show ?thesis
    proof (cases dbg)
      case d: True
      then have "fits_signed ?n (word_of_int v)"
        using assms(3) True le sint_word_of_int_u64 [of v] by (simp add: fits_signed_def fixed_range_def)
      then show ?thesis
        using WriteSBits_spec [OF assms(2), of "int ?n" "word_of_int v" dbg] n True
        by (simp add: NetSerializer_fixed_def fixed_enc_def)
    next
      case False
      then show ?thesis
        using WriteBits_spec [OF assms(2), of "int ?n" dbg "word_of_int v"] n True
        by (simp add: NetSerializer_fixed_def fixed_enc_def WriteSBits_def writable_def)
    qed
  next
    case False
    have "writable dbg (word_of_int v) ?n"
      using assms(3) False n
      by (auto simp: writable_def fixed_range_def take_bit_of_int take_bit_int_eq_self)
    then show ?thesis
      using WriteBits_spec [OF assms(2), of "int ?n" dbg "word_of_int v"] n False
      by (simp add: NetSerializer_fixed_def fixed_enc_def)
  qed
qed

lemma fixed_codec:
  assumes "fixed_ok fx"
  shows "value_codec (NetSerializer_fixed dbg fx) (NetDeserializer_fixed fx) (fixed_range fx) (\<lambda>_. True) (fixed_enc fx)"
proof
  show "\<exists>r'. NetDeserializer_fixed fx v0 r = Inr (v, r') \<and> consumed r r' (fixed_enc fx v)"
    if "rinv r" "fixed_range fx v" "rbits r = fixed_enc fx v @ rest" for r v v0 rest
  proof -
    have "(if ctype_signed (StorageType fx) then signed_take_bit (NumBits fx - 1) v else take_bit (NumBits fx) v) = v"
      using that(2) by (simp add: fixed_range_def signed_take_bit_int_eq_self take_bit_int_eq_self split: if_splits)
    then show ?thesis using NetDeserializer_fixed_value [OF assms that(1,3), of v0] by auto
  qed
qed (use NetSerializer_fixed_wrote [OF assms] in auto)

interpretation meters: value_codec
    "NetSerializer_fixed dbg \<lparr>StorageType = I32, NumBits = 20, FractionalBits = 8, LongType = I64\<rparr>"
    "NetDeserializer_fixed \<lparr>StorageType = I32, NumBits = 20, FractionalBits = 8, LongType = I64\<rparr>"
    "fixed_range \<lparr>StorageType = I32, NumBits = 20, FractionalBits = 8, LongType = I64\<rparr>" "\<lambda>_. True"
    "fixed_enc \<lparr>StorageType = I32, NumBits = 20, FractionalBits = 8, LongType = I64\<rparr>" for dbg
  by (rule fixed_codec) (simp add: fixed_ok_def)

text \<open>A fixed-point number in the range of its \<^verbatim>\<open>NumBits\<close> is restored by the deserializer, from
  a debug or a release build; a release build sends any other number, and the reader gets its low
  \<^verbatim>\<open>NumBits\<close> bits, sign-extended for a signed storage type.\<close>

theorem fixed_roundtrip:
  assumes "fixed_ok fx" "winv w" "dbg \<longrightarrow> fixed_range fx v"
  shows "\<exists>w' bs. NetSerializer_fixed dbg fx v w = Inr w' \<and> wbits w' = wbits w @ bs
    \<and> (\<forall>v0 r rest. rinv r \<and> rbits r = bs @ rest \<longrightarrow>
         (\<exists>r'. NetDeserializer_fixed fx v0 r =
             Inr (if fixed_range fx v then v
                  else if ctype_signed (StorageType fx) then signed_take_bit (NumBits fx - 1) v
                  else take_bit (NumBits fx) v, r') \<and> rbits r' = rest))"
proof -
  have e: "(if ctype_signed (StorageType fx) then signed_take_bit (NumBits fx - 1) v else take_bit (NumBits fx) v)
    = (if fixed_range fx v then v
       else if ctype_signed (StorageType fx) then signed_take_bit (NumBits fx - 1) v else take_bit (NumBits fx) v)"
    by (simp add: fixed_range_def signed_take_bit_int_eq_self take_bit_int_eq_self split: if_splits)
  obtain w' where w': "NetSerializer_fixed dbg fx v w = Inr w'" "wrote w w' (fixed_enc fx v)"
    using NetSerializer_fixed_wrote [OF assms] by blast
  show ?thesis
  proof (intro exI [of _ w'] exI [of _ "fixed_enc fx v"] conjI allI impI)
    show "NetSerializer_fixed dbg fx v w = Inr w'" by (rule w'(1))
    show "wbits w' = wbits w @ fixed_enc fx v" using w'(2) by (simp add: wrote_def)
    fix v0 and r :: NetBitReaderBuffer and rest
    assume "rinv r \<and> rbits r = fixed_enc fx v @ rest"
    then show "\<exists>r'. NetDeserializer_fixed fx v0 r =
             Inr (if fixed_range fx v then v
                  else if ctype_signed (StorageType fx) then signed_take_bit (NumBits fx - 1) v
                  else take_bit (NumBits fx) v, r') \<and> rbits r' = rest"
      using NetDeserializer_fixed_value [OF assms(1), of r v rest v0] unfolding e [symmetric] by blast
  qed
qed

theorem fixed_roundtrip_witness:
  "\<exists>w' bs. NetSerializer_fixed False \<lparr>StorageType = I32, NumBits = 16, FractionalBits = 8, LongType = I64\<rparr>
      0x8000 NetBitWriterVector_init = Inr w' \<and> wbits w' = bs
    \<and> (\<forall>v0 r rest. rinv r \<and> rbits r = bs @ rest \<longrightarrow>
         (\<exists>r'. NetDeserializer_fixed \<lparr>StorageType = I32, NumBits = 16, FractionalBits = 8, LongType = I64\<rparr> v0 r =
             Inr (- 0x8000, r') \<and> rbits r' = rest))"
  using fixed_roundtrip [where fx = "\<lparr>StorageType = I32, NumBits = 16, FractionalBits = 8, LongType = I64\<rparr>"
      and w = NetBitWriterVector_init and dbg = False and v = "0x8000"]
  by (simp add: fixed_ok_def fixed_range_def)

lemma sdiv_nonneg:
  fixes a b :: int
  assumes "0 \<le> a" "0 < b"
  shows "a sdiv b = a div b" "a smod b = a mod b"
  using assms
  by (cases "a = 0"; simp add: signed_divide_int_def signed_modulo_int_def minus_div_mult_eq_mod)+

text \<open>a random number drawn between two bounds is one of the numbers from the lower one up to, and
  without, the upper one, for a non-negative source.\<close>

theorem RandomRange_between:
  assumes "in_ctype (StorageType fx) lo" "in_ctype (StorageType fx) hi" "in_ctype (StorageType fx) (hi - lo)"
    and "in_ctype (StorageType fx) n" "lo < hi" "0 \<le> n"
  shows "RandomRange fx lo hi n = Inr (lo + n mod (hi - lo)) \<and> lo \<le> lo + n mod (hi - lo) \<and> lo + n mod (hi - lo) < hi"
proof -
  let ?t = "StorageType fx"
  have d: "c_binop OpSub ?t hi ?t lo = Inr (promote ?t, hi - lo)"
    using assms(1-3) by (simp add: c_binop_same arith_result_id in_ctype_promote)
  have at: "arith_type ?t (promote ?t) = promote ?t" by (cases ?t) (simp_all add: arith_type_def)
  have pos: "0 < hi - lo" using assms(5) by simp
  have m: "0 \<le> n mod (hi - lo)" "n mod (hi - lo) < hi - lo" using pos by simp_all
  have q: "n sdiv (hi - lo) = n div (hi - lo)" "n smod (hi - lo) = n mod (hi - lo)"
    using sdiv_nonneg [OF assms(6) pos] by simp_all
  have it: "in_ctype ?t (n mod (hi - lo))" "in_ctype ?t (n div (hi - lo))" "in_ctype ?t (lo + n mod (hi - lo))"
  proof -
    have "0 \<le> n div (hi - lo)" "n div (hi - lo) \<le> n"
      using assms(6) pos zdiv_mono2 [of n 1 "hi - lo"] by (simp_all add: pos_imp_zdiv_nonneg_iff)
    moreover have "ctype_min ?t \<le> 0" by (cases ?t) (simp_all add: ctype_min_def)
    ultimately show "in_ctype ?t (n mod (hi - lo))" "in_ctype ?t (n div (hi - lo))" "in_ctype ?t (lo + n mod (hi - lo))"
      using m assms(1-4) unfolding in_ctype_def by linarith+
  qed
  note p = in_ctype_promote [OF it(1)] in_ctype_promote [OF it(2)] in_ctype_promote [OF it(3)]
    in_ctype_promote [OF assms(1)] in_ctype_promote [OF assms(3)] in_ctype_promote [OF assms(4)]
  have o: "c_binop OpMod ?t n (promote ?t) (hi - lo) = Inr (promote ?t, n mod (hi - lo))"
    using pos p by (simp add: c_binop_def Let_def at conv_id q arith_result_id)
  have a: "c_binop OpAdd ?t lo (promote ?t) (n mod (hi - lo)) = Inr (promote ?t, lo + n mod (hi - lo))"
    using p by (simp add: c_binop_def Let_def at conv_id arith_result_id)
  show ?thesis
    using assms(5) pos m it(3) by (simp add: RandomRange_def d o a to_type_def conv_id)
qed

theorem RandomRange_between_witness:
  "RandomRange \<lparr>StorageType = I32, NumBits = 32, FractionalBits = 8, LongType = I64\<rparr> (- 256) 512 1000 = Inr (- 24)"
  using RandomRange_between [of "\<lparr>StorageType = I32, NumBits = 32, FractionalBits = 8, LongType = I64\<rparr>" "- 256" 512 1000]
  by (simp add: in_ctype_def ctype_min_def ctype_max_def)

end
