(* ===== verification/FixedLUT.thy ===== *)
theory FixedLUT
  imports FixedLaws
begin

text \<open>
  \<^verbatim>\<open>NetReflectionFixedPointRange.h\<close> and \<^verbatim>\<open>NetReflectionFixedPointLUT.h\<close>: evenly spaced ranges of
  fixed-point numbers, and the sine, cosine and arc tangent by tables filled over such ranges. An access
  outside of a table is \<open>Undefined\<close>. The loop over a range ends when the counter of elements is
  \<open>- 1\<close>; it is a partial function, as a range of no element counts down from below that.
\<close>

section \<open>Ranges\<close>

record NetFixedPointRangeInclusive =
  m_Val :: int
  m_Inc :: int
  m_Rem :: int
  m_HalfRem :: int
  m_Final :: int
  m_Elems :: int

record range_iterator = NetFixedPointRangeInclusive +
  m_FinalVal :: int
  m_Extra :: int

definition NetFixedPointRangeInclusive_init ::
    "fixed_type \<Rightarrow> int \<Rightarrow> int \<Rightarrow> int \<Rightarrow> NetFixedPointRangeInclusive result" where
  "NetFixedPointRangeInclusive_init fx start end_val num_segs =
     (let t = StorageType fx in
      ebind (c_binop OpSub t end_val t start) (\<lambda>(ts, offset).
      ebind (c_binop OpSub I32 num_segs I32 1) (\<lambda>(_, segs).
      ebind (to_type t (c_binop OpDiv ts offset I32 segs)) (\<lambda>inc.
      ebind (to_type t (c_binop OpMod ts offset I32 segs)) (\<lambda>rm.
      ebind (to_type t (c_binop OpDiv t rm I32 2)) (\<lambda>half.
      Inr \<lparr>m_Val = start, m_Inc = inc, m_Rem = rm, m_HalfRem = half, m_Final = end_val,
           m_Elems = conv t segs\<rparr>))))))"

definition CreateFixedPointRange ::
    "fixed_type \<Rightarrow> int \<Rightarrow> int \<Rightarrow> int \<Rightarrow> NetFixedPointRangeInclusive result" where
  "CreateFixedPointRange fx start end_val num_segs = NetFixedPointRangeInclusive_init fx start end_val num_segs"

definition CreateFixedPointRange_to ::
    "fixed_type \<Rightarrow> int \<Rightarrow> int \<Rightarrow> NetFixedPointRangeInclusive result" where
  "CreateFixedPointRange_to fx end_val num_segs = NetFixedPointRangeInclusive_init fx 0 end_val num_segs"

definition range_begin :: "NetFixedPointRangeInclusive \<Rightarrow> range_iterator" where
  "range_begin r =
     \<lparr>m_Val = m_Val r, m_Inc = m_Inc r, m_Rem = m_Rem r, m_HalfRem = m_HalfRem r, m_Final = m_Final r,
      m_Elems = m_Elems r, m_FinalVal = m_Val r, m_Extra = 0\<rparr>"

definition range_end :: "NetFixedPointRangeInclusive \<Rightarrow> range_iterator" where
  "range_end r =
     \<lparr>m_Val = m_Final r, m_Inc = m_Inc r, m_Rem = m_Rem r, m_HalfRem = m_HalfRem r, m_Final = m_Final r,
      m_Elems = - 1, m_FinalVal = m_Final r, m_Extra = 0\<rparr>"

definition range_next :: "fixed_type \<Rightarrow> range_iterator \<Rightarrow> range_iterator result" where
  "range_next fx i =
     (let t = StorageType fx in
      ebind (raw_op fx OpAdd (m_Val i) (m_Inc i)) (\<lambda>val.
      ebind (raw_op fx OpAdd (m_Extra i) (m_Rem i)) (\<lambda>extra.
      ebind (c_binop OpAdd t extra t (m_HalfRem i)) (\<lambda>(ts, s).
      ebind (if c_compare CmpGt ts s t (m_Rem i) then raw_op_int fx OpAdd val 1 else Inr val) (\<lambda>final_val.
      ebind (if m_Rem i < extra then
               ebind (raw_op_int fx OpAdd val 1) (\<lambda>val.
               ebind (raw_op fx OpSub extra (m_Rem i)) (\<lambda>extra. Inr (val, extra)))
             else Inr (val, extra)) (\<lambda>(val, extra).
      ebind (raw_op_int fx OpSub (m_Elems i) 1) (\<lambda>elems.
      Inr (i\<lparr>m_Val := val, m_Extra := extra, m_FinalVal := final_val, m_Elems := elems\<rparr>))))))))"

definition range_deref :: "fixed_type \<Rightarrow> range_iterator \<Rightarrow> int" where
  "range_deref fx i = CreateFromRawVal fx (if m_Elems i = 0 then m_Final i else m_FinalVal i)"

definition range_equal :: "range_iterator \<Rightarrow> range_iterator \<Rightarrow> bool" where
  "range_equal i j \<longleftrightarrow> m_Elems i = m_Elems j"

text \<open>\<^verbatim>\<open>for (auto val : range)\<close>: the numbers the body sees.\<close>

partial_function (option) range_for ::
    "fixed_type \<Rightarrow> range_iterator \<Rightarrow> range_iterator \<Rightarrow> int list result option" where
  "range_for fx i end_itr =
     (if range_equal i end_itr then Some (Inr [])
      else
        case range_next fx i of
          Inl e \<Rightarrow> Some (Inl e)
        | Inr j \<Rightarrow>
            Option.bind (range_for fx j end_itr) (\<lambda>vals.
              Some (ebind vals (\<lambda>vs. Inr (range_deref fx i # vs)))))"

definition range_vals :: "fixed_type \<Rightarrow> NetFixedPointRangeInclusive \<Rightarrow> int list result option" where
  "range_vals fx r = range_for fx (range_begin r) (range_end r)"

section \<open>Tables\<close>

record NetFixedPointVals =
  kZeroF :: int
  kOneF :: int
  kTwoF :: int
  kHalfF :: int
  kQuarter :: int
  kEighth :: int
  kNegOneF :: int
  kPi :: int
  kPiOver2 :: int
  kPiOver4 :: int
  kPiOver6 :: int
  kPiOver8 :: int
  kPiTimes2 :: int
  kSqrt2 :: int
  kSqrt3 :: int

definition NetFixedPointVals_init :: "fixed_type \<Rightarrow> NetFixedPointVals result" where
  "NetFixedPointVals_init fx =
     (let num = NetFixedPoint_of_int fx; str = NetFixedPoint_of_string fx in
      ebind (str ''0.5'') (\<lambda>half.
      ebind (str ''0.25'') (\<lambda>quarter.
      ebind (str ''0.125'') (\<lambda>eighth.
      ebind (str ''3.14159265359'') (\<lambda>pi.
      ebind (str ''1.57079632679'') (\<lambda>pi2.
      ebind (str ''0.78539816339'') (\<lambda>pi4.
      ebind (str ''0.52359877559'') (\<lambda>pi6.
      ebind (str ''0.39269908169'') (\<lambda>pi8.
      ebind (str ''6.28318530718'') (\<lambda>pi_times2.
      ebind (str ''1.41421356237'') (\<lambda>sqrt2.
      ebind (str ''1.73205080757'') (\<lambda>sqrt3.
      Inr \<lparr>kZeroF = num 0, kOneF = num 1, kTwoF = num 2, kHalfF = half, kQuarter = quarter,
           kEighth = eighth, kNegOneF = num (- 1), kPi = pi, kPiOver2 = pi2, kPiOver4 = pi4,
           kPiOver6 = pi6, kPiOver8 = pi8, kPiTimes2 = pi_times2, kSqrt2 = sqrt2, kSqrt3 = sqrt3\<rparr>))))))))))))"

definition LUTElements :: nat where
  "LUTElements = 2048"

definition LUTBits :: nat where
  "LUTBits = GetRequiredBits I32 (int LUTElements)"

text \<open>The table is no bigger than the fraction, by a \<^verbatim>\<open>static_assert\<close>; so no shift below is negative.\<close>

definition lut_ok :: "fixed_type \<Rightarrow> bool" where
  "lut_ok fx \<longleftrightarrow> LUTBits + 2 \<le> FractionalBits fx"

definition kLUTShiftBits :: "fixed_type \<Rightarrow> nat" where
  "kLUTShiftBits fx = FractionalBits fx - LUTBits + 1"

definition kLUTQuarterShiftBits :: "fixed_type \<Rightarrow> nat" where
  "kLUTQuarterShiftBits fx = (FractionalBits fx - 1) - LUTBits"

definition kLUTQuarterShiftMask :: "fixed_type \<Rightarrow> int" where
  "kLUTQuarterShiftMask fx = shl I32 1 (kLUTQuarterShiftBits fx) - 1"

record NetFixedPointLUT =
  m_SinLut :: "int list"
  m_CosLut :: "int list"
  m_AtanLut :: "int list"

fun map_result :: "(int \<Rightarrow> int result) \<Rightarrow> int list \<Rightarrow> int list result" where
  "map_result f [] = Inr []"
| "map_result f (x # xs) = ebind (f x) (\<lambda>y. ebind (map_result f xs) (\<lambda>ys. Inr (y # ys)))"

definition AtanReduced :: "fixed_type \<Rightarrow> int \<Rightarrow> int \<Rightarrow> int result" where
  "AtanReduced fx val threshold = AtanSlow fx val"

text \<open>\<^verbatim>\<open>Init\<close>: the tables and \<^verbatim>\<open>kLutInterval\<close>.\<close>

definition NetFixedPointLUT_Init :: "fixed_type \<Rightarrow> NetFixedPointVals \<Rightarrow> (int \<times> NetFixedPointLUT) result option" where
  "NetFixedPointLUT_Init fx vals =
     (case ebind (Fixed_div fx (NetFixedPoint_of_int fx (int (LUTElements - 1))) (kPiOver2 vals)) (\<lambda>interval.
           ebind (CreateFixedPointRange_to fx (kPiOver2 vals) (int LUTElements + 1)) (\<lambda>r. Inr (interval, r))) of
        Inl e \<Rightarrow> Some (Inl e)
      | Inr (interval, r) \<Rightarrow>
          (case range_vals fx r of
             None \<Rightarrow> None
           | Some angles \<Rightarrow>
               (case ebind angles (\<lambda>angles.
                     ebind (map_result (SinSlow fx) angles) (\<lambda>sines.
                     ebind (map_result (CosSlow fx) angles) (\<lambda>cosines.
                     ebind (Fixed_sub_assign fx (kTwoF vals) (kSqrt3 vals)) (\<lambda>threshold.
                     ebind (CreateFixedPointRange_to fx (kOneF vals) (int LUTElements + 1)) (\<lambda>r.
                     Inr (sines, cosines, threshold, r)))))) of
                  Inl e \<Rightarrow> Some (Inl e)
                | Inr (sines, cosines, threshold, r) \<Rightarrow>
                    (case range_vals fx r of
                       None \<Rightarrow> None
                     | Some ratios \<Rightarrow>
                         Some (ebind ratios (\<lambda>ratios.
                           ebind (map_result (\<lambda>val. AtanReduced fx val threshold) ratios) (\<lambda>atans.
                           Inr (interval, \<lparr>m_SinLut = sines, m_CosLut = cosines, m_AtanLut = atans\<rparr>))))))))"

definition lut_at :: "int list \<Rightarrow> int \<Rightarrow> int result" where
  "lut_at lut i = (if 0 \<le> i \<and> nat i < length lut then Inr (lut ! nat i) else Inl Undefined)"

definition SampleLut :: "fixed_type \<Rightarrow> int \<Rightarrow> nat \<Rightarrow> int \<Rightarrow> int list \<Rightarrow> int result" where
  "SampleLut fx val shift_bits shift_mask lut =
     (let t = StorageType fx;
          raw_index = drop_bit shift_bits val;
          index_error = conv t (val AND shift_mask);
          index_error = shl t index_error (FractionalBits fx - shift_bits);
          index1 = raw_index
      in
      ebind (c_binop OpAdd t raw_index I32 1) (\<lambda>(_, index2).
      if index1 = int LUTElements then lut_at lut index1
      else
        ebind (lut_at lut index1) (\<lambda>val1.
        ebind (lut_at lut index2) (\<lambda>val2.
        ebind (Fixed_sub fx val2 val1) (\<lambda>diff.
        ebind (Fixed_mul fx index_error diff) (\<lambda>delta.
        Fixed_add fx val1 delta))))))"

text \<open>The angle as a fraction of a turn.\<close>

definition turn_fraction :: "fixed_type \<Rightarrow> NetFixedPointVals \<Rightarrow> int \<Rightarrow> int result" where
  "turn_fraction fx vals fixed =
     ebind (Fixed_div_assign fx fixed (kPiTimes2 vals)) (\<lambda>fixed.
     ebind (Floor fx fixed) (\<lambda>f. Fixed_sub_assign fx fixed f))"

definition Sin :: "fixed_type \<Rightarrow> NetFixedPointVals \<Rightarrow> NetFixedPointLUT \<Rightarrow> int \<Rightarrow> int result" where
  "Sin fx vals lut fixed =
     (let bits = kLUTQuarterShiftBits fx; sample = (\<lambda>x. SampleLut fx x bits (int bits) (m_SinLut lut)) in
      ebind (turn_fraction fx vals fixed) (\<lambda>fixed.
      if Fixed_compare CmpLt fx fixed (kHalfF vals) then
        if Fixed_compare CmpLt fx fixed (kQuarter vals) then sample fixed
        else ebind (Fixed_sub fx (kHalfF vals) fixed) sample
      else
        ebind (Fixed_sub_assign fx fixed (kHalfF vals)) (\<lambda>fixed.
        if Fixed_compare CmpLt fx fixed (kQuarter vals) then ebind (sample fixed) (Invert fx)
        else ebind (Fixed_sub fx (kHalfF vals) fixed) (\<lambda>x. ebind (sample x) (Invert fx)))))"

definition Cos :: "fixed_type \<Rightarrow> NetFixedPointVals \<Rightarrow> NetFixedPointLUT \<Rightarrow> int \<Rightarrow> int result" where
  "Cos fx vals lut fixed =
     (let bits = kLUTQuarterShiftBits fx; sample = (\<lambda>x. SampleLut fx x bits (int bits) (m_CosLut lut)) in
      ebind (turn_fraction fx vals fixed) (\<lambda>fixed.
      if Fixed_compare CmpLt fx fixed (kHalfF vals) then
        if Fixed_compare CmpLt fx fixed (kQuarter vals) then sample fixed
        else ebind (Fixed_sub fx (kHalfF vals) fixed) (\<lambda>x. ebind (sample x) (Invert fx))
      else
        ebind (Fixed_sub_assign fx fixed (kHalfF vals)) (\<lambda>fixed.
        if Fixed_compare CmpLt fx fixed (kQuarter vals) then ebind (sample fixed) (Invert fx)
        else ebind (Fixed_sub fx (kHalfF vals) fixed) sample)))"

text \<open>In the second case the series is evaluated as well, and its value dropped.\<close>

definition Atan2 :: "fixed_type \<Rightarrow> NetFixedPointVals \<Rightarrow> NetFixedPointLUT \<Rightarrow> int \<Rightarrow> int \<Rightarrow> int result" where
  "Atan2 fx vals lut y x =
     (if y = 0 then (if 0 \<le> x then Inr (CreateFromRawVal fx 0) else Inr (kPi vals))
      else if x = 0 then
        (if 0 \<le> y then Inr (kPiOver2 vals) else Fixed_add fx (kPiOver2 vals) (kPi vals))
      else
        let bits = kLUTShiftBits fx in
        ebind (Fixed_Abs fx x) (\<lambda>x_abs.
        ebind (Fixed_Abs fx y) (\<lambda>y_abs.
        ebind (if Fixed_compare CmpGt fx x_abs y_abs then
                 ebind (Fixed_div fx y_abs x_abs) (\<lambda>ratio. SampleLut fx ratio bits (int bits) (m_AtanLut lut))
               else
                 ebind (Fixed_div fx x_abs y_abs) (\<lambda>ratio.
                 ebind (AtanSlow fx ratio) (\<lambda>test_val.
                 ebind (SampleLut fx ratio bits (int bits) (m_AtanLut lut)) (\<lambda>val.
                 Fixed_sub fx (kPiOver2 vals) val)))) (\<lambda>val.
        ebind (if x < 0 then Fixed_sub fx (kPi vals) val else Inr val) (\<lambda>val.
        if y < 0 then Fixed_sub fx (kPiTimes2 vals) val else Inr val)))))"

section \<open>What a range yields\<close>

lemma arith_type_I32 [simp]: "arith_type t I32 = promote t"
  by (cases t) (simp_all add: arith_type_def)

lemma promote_idem [simp]: "promote (promote t) = promote t"
  by (cases t) simp_all

lemma in_ctype_one: "in_ctype t 1"
  by (cases t) (simp_all add: in_ctype_def ctype_min_def ctype_max_def)

lemma raw_op_int_one:
  assumes "in_ctype (StorageType fx) a"
  shows "in_ctype (StorageType fx) (a + 1) \<Longrightarrow> raw_op_int fx OpAdd a 1 = Inr (a + 1)"
    and "in_ctype (StorageType fx) (a - 1) \<Longrightarrow> raw_op_int fx OpSub a 1 = Inr (a - 1)"
  using assms
  by (simp_all add: raw_op_int_def to_type_def c_binop_def Let_def arith_result_id in_ctype_promote conv_id
      in_ctype_one)

text \<open>The state after \<open>k\<close> increments, and the number the iterator stands for.\<close>

definition range_carry :: "int \<Rightarrow> nat \<Rightarrow> int" where
  "range_carry rm k = (if rm = 0 \<or> k = 0 then 0 else int k - 1)"

definition range_point :: "int \<Rightarrow> int \<Rightarrow> int \<Rightarrow> nat \<Rightarrow> int" where
  "range_point start inc rm k =
     start + int k * inc + (if k = 1 \<and> 2 \<le> rm then 1 else range_carry rm k)"

definition range_state :: "int \<Rightarrow> int \<Rightarrow> int \<Rightarrow> int \<Rightarrow> nat \<Rightarrow> nat \<Rightarrow> range_iterator" where
  "range_state start end_val inc rm n k =
     \<lparr>m_Val = start + int k * inc + range_carry rm k, m_Inc = inc, m_Rem = rm, m_HalfRem = rm div 2,
      m_Final = end_val, m_Elems = int n - int k, m_FinalVal = range_point start inc rm k,
      m_Extra = (if k = 0 then 0 else rm)\<rparr>"

definition range_fits :: "fixed_type \<Rightarrow> int \<Rightarrow> int \<Rightarrow> int \<Rightarrow> nat \<Rightarrow> bool" where
  "range_fits fx start inc rm n \<longleftrightarrow> ctype_signed (StorageType fx) \<and> 0 \<le> inc \<and> 0 \<le> rm
     \<and> in_ctype (StorageType fx) inc \<and> in_ctype (StorageType fx) start \<and> in_ctype (StorageType fx) (start + (int n + 1) * (inc + 1))
     \<and> in_ctype (StorageType fx) (rm * 3) \<and> in_ctype (StorageType fx) (int n)"

lemma in_ctype_between: "in_ctype t a \<Longrightarrow> in_ctype t b \<Longrightarrow> a \<le> x \<Longrightarrow> x \<le> b \<Longrightarrow> in_ctype t x"
  by (simp add: in_ctype_def)

lemma in_ctype_0: "in_ctype t 0"
  by (cases t) (simp_all add: in_ctype_def ctype_min_def ctype_max_def)

lemma arith_type_promote: "arith_type (promote t) t = promote t" "arith_type t (promote t) = promote t"
  by (cases t; simp add: arith_type_def)+

lemma range_growth:
  assumes "0 \<le> inc" "k \<le> n"
  shows "int k * inc + inc + int k + 1 \<le> (int n + 1) * (inc + 1)"
proof -
  have "(int k + 1) * inc \<le> (int n + 1) * inc" using assms by (intro mult_right_mono) auto
  then show ?thesis using assms unfolding distrib_left distrib_right by simp
qed

lemma range_point_in_ctype:
  assumes "range_fits fx start inc rm n" "k \<le> n"
  shows "in_ctype (StorageType fx) (range_point start inc rm k)"
proof -
  have s: "0 \<le> inc" using assms by (simp add: range_fits_def)
  then have "0 \<le> int k * inc" by simp
  then have "start \<le> range_point start inc rm k" "range_point start inc rm k \<le> start + (int n + 1) * (inc + 1)"
    using range_growth [OF s assms(2)] s by (auto simp: range_point_def range_carry_def)
  then show ?thesis using assms(1) unfolding range_fits_def by (blast intro: in_ctype_between)
qed

lemma range_next_state:
  assumes ok: "range_fits fx start inc rm n" and k: "k \<le> n"
  shows "range_next fx (range_state start end_val inc rm n k) = Inr (range_state start end_val inc rm n (k + 1))"
proof -
  let ?t = "StorageType fx"
  define v where "v = start + int k * inc + range_carry rm k"
  define ex where "ex = (if k = 0 then 0 else rm)"
  have s: "0 \<le> inc" "0 \<le> rm" using ok by (simp_all add: range_fits_def)
  define U where "U = start + (int n + 1) * (inc + 1)"
  have U: "in_ctype ?t start" "in_ctype ?t U" "in_ctype ?t (rm * 3)" "in_ctype ?t (int n)"
    using ok by (simp_all add: range_fits_def U_def)
  note le = range_growth [OF s(1) k]
  have c: "0 \<le> range_carry rm k" "range_carry rm k \<le> int k" by (auto simp: range_carry_def)
  have ki: "0 \<le> int k * inc" using s by simp
  have tv: "in_ctype ?t v" "in_ctype ?t (v + inc)" "in_ctype ?t (v + inc + 1)"
    unfolding v_def using le c ki s by (intro in_ctype_between [OF U(1,2)]; simp add: U_def)+
  have ti: "in_ctype ?t inc" "in_ctype ?t rm" "in_ctype ?t ex" "in_ctype ?t (ex + rm)" "in_ctype ?t (rm div 2)"
    "in_ctype ?t (ex + rm + rm div 2)"
    using ok s by (auto simp: range_fits_def ex_def intro: in_ctype_between [OF in_ctype_0 U(3)])
  have te: "in_ctype ?t (int n - int k)" "in_ctype ?t (int n - int k - 1)"
  proof -
    have "ctype_min ?t \<le> - 1" using ok by (cases ?t) (simp_all add: range_fits_def ctype_min_def)
    then show "in_ctype ?t (int n - int k)" "in_ctype ?t (int n - int k - 1)"
      using U(4) k by (simp_all add: in_ctype_def)
  qed
  have cmp: "c_compare CmpGt (promote ?t) a ?t b \<longleftrightarrow> b < a" if "in_ctype ?t a" "in_ctype ?t b" for a b
    using that by (simp add: c_compare_def Let_def arith_type_promote conv_id in_ctype_promote)
  have sum: "c_binop OpAdd ?t (ex + rm) ?t (rm div 2) = Inr (promote ?t, ex + rm + rm div 2)"
    using ti by (simp add: c_binop_same arith_result_id in_ctype_promote)
  have "range_next fx (range_state start end_val inc rm n k) =
    Inr \<lparr>m_Val = (if rm < ex + rm then v + inc + 1 else v + inc), m_Inc = inc, m_Rem = rm, m_HalfRem = rm div 2,
      m_Final = end_val, m_Elems = int n - int k - 1,
      m_FinalVal = (if rm < ex + rm + rm div 2 then v + inc + 1 else v + inc),
      m_Extra = (if rm < ex + rm then ex else ex + rm)\<rparr>"
    using ti tv te raw_op_exact(1) [of fx v inc] raw_op_exact(1) [of fx ex rm] raw_op_exact(2) [of fx "ex + rm" rm]
      raw_op_int_one(1) [of fx "v + inc"] raw_op_int_one(2) [of fx "int n - int k"]
    unfolding range_next_def Let_def range_state_def range_iterator.select_convs
      NetFixedPointRangeInclusive.select_convs v_def [symmetric] ex_def [symmetric]
    by (simp add: sum cmp)
  also have "\<dots> = Inr (range_state start end_val inc rm n (k + 1))"
  proof -
    have "rm < ex + rm \<longleftrightarrow> k \<noteq> 0 \<and> rm \<noteq> 0" using s by (auto simp: ex_def)
    moreover have "rm < ex + rm + rm div 2 \<longleftrightarrow> (if k = 0 then 2 \<le> rm else rm \<noteq> 0)"
      using s by (simp add: ex_def) presburger
    ultimately show ?thesis
      by (auto simp: range_state_def range_point_def range_carry_def v_def ex_def distrib_right)
  qed
  finally show ?thesis .
qed

lemma range_for_states:
  assumes ok: "range_fits fx start inc rm n" and e: "in_ctype (StorageType fx) end_val" and k: "k \<le> n + 1"
  shows "range_for fx (range_state start end_val inc rm n k) (range_end r)
    = Some (Inr (map (\<lambda>j. if j = n then end_val else range_point start inc rm j) [k..<n + 1]))"
  using k
proof (induction "n + 1 - k" arbitrary: k)
  case 0
  then have "k = n + 1" by simp
  then show ?case by (simp add: range_for.simps range_equal_def range_state_def range_end_def)
next
  case (Suc d)
  then have kn: "k \<le> n" by simp
  have ne: "\<not> range_equal (range_state start end_val inc rm n k) (range_end r)"
    using kn by (simp add: range_equal_def range_state_def range_end_def)
  have p: "range_deref fx (range_state start end_val inc rm n k) = (if k = n then end_val else range_point start inc rm k)"
  proof (cases "k = n")
    case True
    then show ?thesis using e by (simp add: range_deref_def CreateFromRawVal_def range_state_def conv_id)
  next
    case False
    then show ?thesis
      using kn range_point_in_ctype [OF ok kn] by (simp add: range_deref_def CreateFromRawVal_def range_state_def conv_id)
  qed
  have "range_for fx (range_state start end_val inc rm n (k + 1)) (range_end r)
    = Some (Inr (map (\<lambda>j. if j = n then end_val else range_point start inc rm j) [k + 1..<n + 1]))"
    using Suc kn by (intro Suc.hyps) auto
  then show ?case
    using ne p kn range_next_state [OF ok kn, of end_val]
    by (subst range_for.simps) (simp add: upt_conv_Cons)
qed

text \<open>C25: the loop over a range of \<open>n + 1\<close> numbers, at least two, from \<open>start\<close> up to an end that is not below it, in
  a signed storage type that the numbers fit in with some room to spare. The loop ends, and its body sees exactly
  \<open>n + 1\<close> numbers, the first and the last as given. The \<open>k\<close>-th in between is \<open>start\<close> plus \<open>k\<close> times the quotient of
  the span by \<open>n\<close>, plus a carry if the division leaves a remainder: \<open>k - 1\<close>, or one for \<open>k = 1\<close> if the remainder is
  at least two, whatever else the remainder is.\<close>

theorem range_yields:
  assumes "ctype_signed (StorageType fx)" "start \<le> end_val" "0 < n" "n < 2 ^ 31 - 1"
    and "in_ctype (StorageType fx) start" "in_ctype (StorageType fx) end_val"
    and "in_ctype (StorageType fx) (end_val - start)" "in_ctype (StorageType fx) (int n * 3)"
    and "in_ctype (StorageType fx) (start + (int n + 1) * ((end_val - start) div int n + 1))"
  shows "\<exists>r. CreateFixedPointRange fx start end_val (int n + 1) = Inr r
    \<and> range_vals fx r = Some (Inr (start
        # map (range_point start ((end_val - start) div int n) ((end_val - start) mod int n)) [1..<n] @ [end_val]))"
proof -
  let ?t = "StorageType fx"
  define D inc rm where "D = end_val - start" and "inc = D div int n" and "rm = D mod int n"
  have D: "0 \<le> D" "in_ctype ?t D" using assms by (simp_all add: D_def)
  have n: "0 < int n" using assms(3) by simp
  have b: "0 \<le> inc" "inc \<le> D" "0 \<le> rm" "rm < int n"
    using D n zdiv_mono2 [of D 1 "int n"] by (simp_all add: inc_def rm_def pos_imp_zdiv_nonneg_iff)
  have fits: "range_fits fx start inc rm n"
    using assms D b n by (auto simp: range_fits_def inc_def D_def intro: in_ctype_between [OF in_ctype_0 assms(8)]
      in_ctype_between [OF in_ctype_0 assms(7)])
  have i: "in_ctype ?t inc" "in_ctype ?t rm" "in_ctype ?t (int n)" "in_ctype ?t (rm div 2)" "in_ctype I32 (int n)"
    using fits assms(4) b n
    by (auto simp: range_fits_def in_ctype_def [of I32] ctype_min_def ctype_max_def intro: in_ctype_between [OF in_ctype_0 assms(8)])
  have t2: "in_ctype ?t 2" by (cases ?t) (simp_all add: in_ctype_def ctype_min_def ctype_max_def)
  have two: "rm sdiv 2 = rm div 2" "D sdiv int n = inc" "D smod int n = rm"
    using sdiv_nonneg [OF D(1) n] sdiv_nonneg(1) [OF b(3), of 2] by (simp_all add: inc_def rm_def)
  note pr = in_ctype_promote [OF D(2)] in_ctype_promote [OF i(1)] in_ctype_promote [OF i(2)]
    in_ctype_promote [OF i(3)] in_ctype_promote [OF i(4)] in_ctype_promote [OF t2]
  have segs: "c_binop OpSub I32 (int n + 1) I32 1 = Inr (I32, int n)"
    using assms(3,4) by (simp add: c_binop_def Let_def arith_result_id conv_id in_ctype_def ctype_min_def ctype_max_def)
  have off: "c_binop OpSub ?t end_val ?t start = Inr (promote ?t, D)"
    using assms(5,6) pr(1) by (simp add: c_binop_same arith_result_id D_def)
  have dv: "c_binop OpDiv (promote ?t) D I32 (int n) = Inr (promote ?t, inc)"
    "c_binop OpMod (promote ?t) D I32 (int n) = Inr (promote ?t, rm)" "c_binop OpDiv ?t rm I32 2 = Inr (promote ?t, rm div 2)"
    using n pr two by (simp_all add: c_binop_def Let_def arith_result_id conv_id promote_idem)
  have r: "CreateFixedPointRange fx start end_val (int n + 1) = Inr \<lparr>m_Val = start, m_Inc = inc, m_Rem = rm,
      m_HalfRem = rm div 2, m_Final = end_val, m_Elems = int n\<rparr>" (is "_ = Inr ?r")
    using i by (simp add: CreateFixedPointRange_def NetFixedPointRangeInclusive_init_def Let_def segs off dv to_type_def conv_id)
  have l: "[0..<n + 1] = 0 # [1..<n] @ [n]" using assms(3) by (simp add: upt_conv_Cons)
  have m: "map (\<lambda>j. if j = n then end_val else range_point start inc rm j) [1..<n] = map (range_point start inc rm) [1..<n]"
    by simp
  have "range_begin ?r = range_state start end_val inc rm n 0"
    by (simp add: range_begin_def range_state_def range_point_def range_carry_def)
  then have "range_vals fx ?r = Some (Inr (start # map (range_point start inc rm) [1..<n] @ [end_val]))"
    using range_for_states [OF fits assms(6), of 0 ?r] assms(3) m unfolding range_vals_def l
    by (simp add: range_point_def range_carry_def)
  with r show ?thesis unfolding inc_def rm_def D_def by blast
qed

theorem range_yields_witness:
  "\<exists>r. CreateFixedPointRange \<lparr>StorageType = I32, NumBits = 32, FractionalBits = 8, LongType = I64\<rparr> 0 10 9 = Inr r
    \<and> range_vals \<lparr>StorageType = I32, NumBits = 32, FractionalBits = 8, LongType = I64\<rparr> r
      = Some (Inr [0, 2, 3, 5, 7, 9, 11, 13, 10])"
  using range_yields [of "\<lparr>StorageType = I32, NumBits = 32, FractionalBits = 8, LongType = I64\<rparr>" 0 10 8]
  by (simp add: in_ctype_def ctype_min_def ctype_max_def range_point_def range_carry_def upt_rec)

end
