(* ===== verification/FixedTrig.thy ===== *)
theory FixedTrig
  imports FixedLUT
begin

text \<open>The tables are never read outside of their bounds.\<close>

definition trig_type :: "fixed_type \<Rightarrow> bool" where
  "trig_type fx \<longleftrightarrow> StorageType fx = I64 \<and> LongType fx = I64 \<and> 8 \<le> NumBits fx
     \<and> lut_ok fx \<and> FractionalBits fx \<le> 32"

definition trig_vals :: "fixed_type \<Rightarrow> NetFixedPointVals \<Rightarrow> bool" where
  "trig_vals fx vals \<longleftrightarrow> kHalfF vals = 2 ^ (FractionalBits fx - 1)
     \<and> 2 ^ (FractionalBits fx - 2) - 1 \<le> kQuarter vals \<and> kQuarter vals \<le> 2 ^ (FractionalBits fx - 2)
     \<and> 2 ^ FractionalBits fx \<le> kPiTimes2 vals \<and> kPiTimes2 vals < 2 ^ 62"

definition trig_table :: "int list \<Rightarrow> bool" where
  "trig_table lut \<longleftrightarrow> length lut = LUTElements + 1 \<and> (\<forall>y\<in>set lut. \<bar>y\<bar> < 2 ^ 40)"

lemma LUTBits_12: "LUTBits = 12"
  unfolding LUTBits_def LUTElements_def
  by (rule GetRequiredBits_unique; simp add: wide_def in_ctype_def ctype_min_def ctype_max_def)

lemma I64_range: "in_ctype I64 x \<longleftrightarrow> - (2 ^ 63) \<le> x \<and> x < 2 ^ 63"
  by (auto simp: in_ctype_def ctype_min_def ctype_max_def)

lemma lut_at_ok:
  assumes "trig_table lut" "0 \<le> i" "i \<le> 2048"
  shows "\<exists>y. lut_at lut i = Inr y \<and> \<bar>y\<bar> < 2 ^ 40"
proof -
  have "nat i < length lut" using assms by (simp add: trig_table_def LUTElements_def)
  then show ?thesis using assms nth_mem [of "nat i" lut] by (auto simp: lut_at_def trig_table_def)
qed

lemma Fixed_mul_I64:
  assumes "StorageType fx = I64" "FractionalBits fx \<le> 32" "\<bar>a\<bar> < 2 ^ 61" "\<bar>b\<bar> < 2 ^ 61" "\<bar>a * b\<bar> \<le> 2 ^ 61"
  shows "Fixed_mul fx a b = Inr (a * b div 2 ^ FractionalBits fx)" "\<bar>a * b div 2 ^ FractionalBits fx\<bar> \<le> 2 ^ 61"
proof -
  let ?P = "(2 :: int) ^ FractionalBits fx"
  have "(2 :: int) ^ 61 * 1 \<le> 2 ^ 61 * ?P" by (intro mult_left_mono) auto
  then have le: "\<bar>a * b\<bar> \<le> 2 ^ 61 * ?P" using assms(5) by linarith
  then show b: "\<bar>a * b div ?P\<bar> \<le> 2 ^ 61" by (intro abs_floor_le) simp_all
  have "FixedPointMultiplyWide64 a b (FractionalBits fx) = Inr (a * b div ?P)"
    using assms le by (intro FixedPointMultiplyWide64_exact) (simp_all add: power_add)
  then show "Fixed_mul fx a b = Inr (a * b div ?P)"
    using assms(1) b
    by (simp add: Fixed_mul_def FixedPointMultiplyWide_def CreateFromRawVal_def conv_id I64_range abs_le_iff)
qed

lemma raw_op_I64:
  assumes "StorageType fx = I64" "\<bar>a\<bar> < 2 ^ 62" "\<bar>b\<bar> < 2 ^ 62"
  shows "raw_op fx OpAdd a b = Inr (a + b)" "raw_op fx OpSub a b = Inr (a - b)"
  using assms raw_op_exact [of fx a b] by (simp_all add: I64_range abs_less_iff)

lemma SampleLut_total:
  assumes "trig_type fx" "trig_table lut" "0 \<le> v" "v \<le> 2 ^ (FractionalBits fx - 2) + 1"
  shows "\<exists>y. SampleLut fx v (kLUTQuarterShiftBits fx) (int (kLUTQuarterShiftBits fx)) lut = Inr y \<and> \<bar>y\<bar> < 2 ^ 62"
proof -
  define F s where "F = FractionalBits fx" and "s = kLUTQuarterShiftBits fx"
  have F: "14 \<le> F" "F \<le> 32" "StorageType fx = I64"
    using assms(1) by (simp_all add: trig_type_def lut_ok_def LUTBits_12 F_def)
  have s: "s = F - 13" "1 \<le> s" "s \<le> 19" "F - s = 13"
    using F by (simp_all add: s_def kLUTQuarterShiftBits_def LUTBits_12 F_def)
  define i where "i = drop_bit s v"
  have p: "(2 :: int) ^ (F - 2) = 2 ^ s * 2048" 
  proof -
    have "F - 2 = s + 11" using s F by simp
    then show ?thesis by (simp add: power_add)
  qed
  have i: "0 \<le> i" "i \<le> 2048"
  proof -
    have "(2 :: int) ^ 1 \<le> 2 ^ s" using s by (intro power_increasing) auto
    then have "(2 ^ s * 2048 + 1) div 2 ^ s = (2048 :: int)" by (intro int_div_pos_eq [where r = 1]) simp_all
    moreover have "v div 2 ^ s \<le> (2 ^ s * 2048 + 1) div 2 ^ s"
      using assms(4) p by (intro zdiv_mono1) (simp_all flip: F_def)
    ultimately show "i \<le> 2048" by (simp add: i_def drop_bit_eq_div)
    show "0 \<le> i" using assms(3) by (simp add: i_def)
  qed
  define e where "e = v AND int s"
  have e: "0 \<le> e" "e \<le> 19"
    using assms(3) s AND_upper2 [of "int s" v] by (simp_all add: e_def)
  have ie: "shl I64 (conv I64 e) (F - s) = e * 8192"
    using e s by (simp add: shl_def conv_id I64_range push_bit_eq_mult)
  have nx: "c_binop OpAdd I64 i I32 1 = Inr (I64, i + 1)"
    using i by (simp add: c_binop_def Let_def arith_result_id conv_id I64_range in_ctype_one)
  show ?thesis
  proof (cases "i = 2048")
    case True
    obtain y where "lut_at lut i = Inr y" "\<bar>y\<bar> < 2 ^ 40" using lut_at_ok [OF assms(2) i] by blast
    then show ?thesis
      using nx True F by (simp add: SampleLut_def Let_def LUTElements_def flip: i_def s_def)
  next
    case False
    obtain y1 where y1: "lut_at lut i = Inr y1" "\<bar>y1\<bar> < 2 ^ 40" using lut_at_ok [OF assms(2) i] by blast
    obtain y2 where y2: "lut_at lut (i + 1) = Inr y2" "\<bar>y2\<bar> < 2 ^ 40"
      using lut_at_ok [OF assms(2), of "i + 1"] i False by auto
    have d: "\<bar>y2 - y1\<bar> \<le> 2 ^ 41" using y1 y2 by (simp add: abs_if split: if_splits)
    have pe: "\<bar>e * 8192 * (y2 - y1)\<bar> \<le> 19 * 8192 * 2 ^ 41" using e d by (intro abs_prod_le) simp_all
    have m: "Fixed_mul fx (e * 8192) (y2 - y1) = Inr (e * 8192 * (y2 - y1) div 2 ^ F)"
      "\<bar>e * 8192 * (y2 - y1) div 2 ^ F\<bar> \<le> 2 ^ 61"
      using Fixed_mul_I64 [of fx "e * 8192" "y2 - y1"] F e d pe by (simp_all add: F_def)
    have "Fixed_sub fx y2 y1 = Inr (y2 - y1)"
      using raw_op_I64 [of fx y2 y1] F y1 y2 by (simp add: Fixed_sub_def)
    moreover have "Fixed_add fx y1 (e * 8192 * (y2 - y1) div 2 ^ F) = Inr (y1 + e * 8192 * (y2 - y1) div 2 ^ F)"
      using raw_op_I64 [of fx y1] F y1 m(2) by (simp add: Fixed_add_def)
    moreover have "\<bar>y1 + e * 8192 * (y2 - y1) div 2 ^ F\<bar> < 2 ^ 62" using y1 m(2) by (simp add: abs_if split: if_splits)
    ultimately show ?thesis
      using nx False F y1 y2 m ie
      by (simp add: SampleLut_def Let_def LUTElements_def flip: i_def s_def F_def e_def)
  qed
qed


lemma Set_I64: "trig_type fx \<Longrightarrow> in_ctype I64 x \<Longrightarrow> Fixed_Set fx x = x"
  by (intro Set_unconfined) (simp_all add: trig_type_def)

lemma turn_fraction_total:
  assumes "trig_type fx" "trig_vals fx vals" "\<bar>x\<bar> < 2 ^ 60"
  shows "\<exists>v. turn_fraction fx vals x = Inr v \<and> 0 \<le> v \<and> v < 2 ^ FractionalBits fx"
proof -
  define F P where "F = FractionalBits fx" and "P = kPiTimes2 vals"
  have F: "14 \<le> F" "F \<le> 32" "StorageType fx = I64" "LongType fx = I64"
    using assms(1) by (simp_all add: trig_type_def lut_ok_def LUTBits_12 F_def)
  have P: "2 ^ F \<le> P" "P < 2 ^ 62" using assms(2) by (simp_all add: trig_vals_def F_def P_def)
  have P0: "0 < P" using P(1) less_le_trans [of 0 "2 ^ F" P] by simp
  have q: "\<bar>x\<bar> * 2 ^ (F + 1) div \<bar>P\<bar> \<le> \<bar>x\<bar> * 2"
  proof -
    have "\<bar>x\<bar> * 2 ^ (F + 1) \<le> \<bar>x\<bar> * 2 * P"
      using mult_left_mono [OF P(1), of "\<bar>x\<bar> * 2"] by (simp add: mult.commute mult.left_commute)
    then have "\<bar>x\<bar> * 2 ^ (F + 1) div P \<le> \<bar>x\<bar> * 2 * P div P" using P0 by (intro zdiv_mono1)
    then show ?thesis using P0 by simp
  qed
  define r where "r = (if (x < 0) \<noteq> (P < 0) then - round_quo F x P else round_quo F x P)"
  have "0 \<le> \<bar>x\<bar> * 2 ^ (F + 1) div \<bar>P\<bar>" using P0 by (simp add: pos_imp_zdiv_nonneg_iff)
  then have rq: "0 \<le> round_quo F x P" "round_quo F x P \<le> \<bar>x\<bar> + 1"
    using q unfolding round_quo_def by linarith+
  then have r: "\<bar>r\<bar> \<le> \<bar>x\<bar> + 1" by (auto simp: r_def abs_if split: if_splits)
  have "\<bar>x\<bar> * 2 ^ (F + 1) div \<bar>P\<bar> < 2 ^ 64 - 1" using q assms(3) by simp
  then have "FixedPointDivideWide64 I64 x P F = Inr r"
    using FixedPointDivideWide64_rounds_lemma [of x P F] P P0 assms(3) by (simp add: r_def)
  then have d: "Fixed_div_assign fx x P = Inr r"
    using F r assms(3) Set_I64 [OF assms(1), of r]
    by (simp add: Fixed_div_assign_def Fixed_div_def FixedPointDivideWide_def CreateFromRawVal_def conv_id
        I64_range abs_le_iff flip: F_def)
  have le: "(2 :: int) ^ F \<le> 2 ^ 32" using F by (intro power_increasing) auto
  have "in_ctype I64 (r + y)" if "0 \<le> y" "y \<le> 2 ^ 32" for y
    using that r assms(3) unfolding I64_range abs_le_iff by simp
  from this [of 0] this [OF _ le] have ro: "rounding_ok fx r"
    using F by (simp add: rounding_ok_def flip: F_def)
  have m: "0 \<le> r mod 2 ^ F" "r mod 2 ^ F < 2 ^ F" by simp_all
  have e: "r - r div 2 ^ F * 2 ^ F = r mod 2 ^ F" by (rule minus_div_mult_eq_mod)
  have fl: "Floor fx r = Inr (r div 2 ^ F * 2 ^ F)" using rounding_laws [OF ro] by (simp add: F_def)
  have rb: "r \<le> 2 ^ 61" "- r \<le> 2 ^ 61" using r assms(3) unfolding abs_le_iff by simp_all
  have "\<bar>r\<bar> < 2 ^ 62" using rb by (simp add: abs_less_iff)
  moreover have "\<bar>r div 2 ^ F * 2 ^ F\<bar> < 2 ^ 62"
  proof -
    have "\<bar>r - y\<bar> < 2 ^ 62" if "0 \<le> y" "y \<le> 2 ^ 32" for y
      using that rb by (simp add: abs_less_iff)
    from this [OF m(1)] show ?thesis using m(2) le unfolding minus_mod_eq_div_mult by linarith
  qed
  ultimately have "raw_op fx OpSub r (r div 2 ^ F * 2 ^ F) = Inr (r mod 2 ^ F)"
    unfolding e [symmetric] by (rule raw_op_I64(2) [OF F(3)])
  moreover have "Fixed_Set fx (r mod 2 ^ F) = r mod 2 ^ F"
  proof -
    have "in_ctype I64 y" if "0 \<le> y" "y \<le> 2 ^ 32" for y
      using that by (simp add: I64_range)
    from this [OF m(1)] show ?thesis using m(2) le by (intro Set_I64 [OF assms(1)]) linarith
  qed
  ultimately have "turn_fraction fx vals x = Inr (r mod 2 ^ F)"
    by (simp add: turn_fraction_def d fl Fixed_sub_assign_def flip: P_def)
  then show ?thesis using m by (simp add: F_def)
qed

lemma Fixed_compare_I64:
  "StorageType fx = I64 \<Longrightarrow> \<bar>a\<bar> < 2 ^ 62 \<Longrightarrow> \<bar>b\<bar> < 2 ^ 62 \<Longrightarrow> Fixed_compare CmpLt fx a b \<longleftrightarrow> a < b"
  by (simp add: Fixed_compare_def c_compare_def Let_def conv_id I64_range abs_less_iff)

text \<open>The four quarters of a turn: whichever is looked up is in the table, from either end.\<close>

lemma quarters:
  assumes "trig_type fx" "trig_vals fx vals" "0 \<le> v" "v < 2 ^ FractionalBits fx"
  defines "half \<equiv> kHalfF vals" and "quarter \<equiv> kQuarter vals" and "bound \<equiv> 2 ^ (FractionalBits fx - 2) + 1"
  shows "Fixed_compare CmpLt fx v half \<longleftrightarrow> v < half" "Fixed_compare CmpLt fx v quarter \<longleftrightarrow> v < quarter"
    "Fixed_sub fx half v = Inr (half - v)" "Fixed_sub_assign fx v half = Inr (v - half)"
    "Fixed_compare CmpLt fx (v - half) quarter \<longleftrightarrow> v - half < quarter"
    "Fixed_sub fx half (v - half) = Inr (half - (v - half))"
    "v < quarter \<Longrightarrow> v \<le> bound" "\<not> v < quarter \<Longrightarrow> half - v \<le> bound"
    "\<not> v < half \<Longrightarrow> v - half < quarter \<Longrightarrow> v - half \<le> bound"
    "\<not> v - half < quarter \<Longrightarrow> half - (v - half) \<le> bound" "0 \<le> half - (v - half)"
proof -
  define F Q where "F = FractionalBits fx" and "Q = (2 :: int) ^ (F - 2)"
  have F: "14 \<le> F" "F \<le> 32" "StorageType fx = I64"
    using assms(1) by (simp_all add: trig_type_def lut_ok_def LUTBits_12 F_def)
  have "F = (F - 2) + 2" "F - 1 = (F - 2) + 1" using F by simp_all
  then have p: "2 ^ F = Q * 4" "2 ^ (F - 1) = Q * 2"
    unfolding Q_def by (metis power_add power2_eq_square mult_2 numeral_Bit0, metis power_add power_one_right)
  have Q: "Q \<le> 2 ^ 30" unfolding Q_def using F by (intro power_increasing) auto
  have b: "half = Q * 2" "Q - 1 \<le> quarter" "quarter \<le> Q" "v < Q * 4" "bound = Q + 1"
    using assms p by (simp_all add: trig_vals_def F_def Q_def)
  have Q0: "0 < Q" by (simp add: Q_def)
  have a: "\<bar>v\<bar> < 2 ^ 62" "\<bar>half\<bar> < 2 ^ 62" "\<bar>quarter\<bar> < 2 ^ 62" "\<bar>v - half\<bar> < 2 ^ 62"
    using b Q Q0 assms(3) by (simp_all add: abs_less_iff)
  have "in_ctype I64 (v - half)" using a(4) by (simp add: I64_range abs_less_iff)
  then show "Fixed_sub_assign fx v half = Inr (v - half)"
    using raw_op_I64 [OF F(3) a(1,2)] Set_I64 [OF assms(1)] by (simp add: Fixed_sub_assign_def)
  show "Fixed_compare CmpLt fx v half \<longleftrightarrow> v < half" "Fixed_compare CmpLt fx v quarter \<longleftrightarrow> v < quarter"
    "Fixed_compare CmpLt fx (v - half) quarter \<longleftrightarrow> v - half < quarter"
    using a by (simp_all add: Fixed_compare_I64 [OF F(3)])
  show "Fixed_sub fx half v = Inr (half - v)" "Fixed_sub fx half (v - half) = Inr (half - (v - half))"
    using a by (simp_all add: Fixed_sub_def raw_op_I64 [OF F(3)])
  show "v < quarter \<Longrightarrow> v \<le> bound" "\<not> v < quarter \<Longrightarrow> half - v \<le> bound"
    "\<not> v < half \<Longrightarrow> v - half < quarter \<Longrightarrow> v - half \<le> bound"
    "\<not> v - half < quarter \<Longrightarrow> half - (v - half) \<le> bound" "0 \<le> half - (v - half)"
    using b by linarith+
qed

lemma Invert_total: "trig_type fx \<Longrightarrow> \<bar>y\<bar> < 2 ^ 62 \<Longrightarrow> Invert fx y = Inr (- y)"
  using raw_op_I64 [of fx 0 y] by (simp add: Invert_def trig_type_def)



text \<open>
  The constants of a 64-bit type with 16 fractional bits are as required. With 17, a quarter is one unit
  short, as each digit of \<^verbatim>\<open>"0.25"\<close> is rounded on its own; with 32-bit storage, the eleven digits of \<^verbatim>\<open>pi\<close>
  overflow the power of ten they are divided by.
\<close>

abbreviation fixed64 :: "nat \<Rightarrow> fixed_type" where
  "fixed64 F \<equiv> \<lparr>StorageType = I64, NumBits = 64, FractionalBits = F, LongType = I64\<rparr>"

lemma constants_16: "\<exists>vals. NetFixedPointVals_init (fixed64 16) = Inr vals \<and> trig_vals (fixed64 16) vals"
proof -
  have "case NetFixedPointVals_init (fixed64 16) of Inl e \<Rightarrow> False | Inr vals \<Rightarrow> trig_vals (fixed64 16) vals"
    by code_simp
  then show ?thesis by (auto split: sum.splits)
qed

lemma quarter_17: "NetFixedPoint_of_string (fixed64 17) ''0.25'' = Inr (2 ^ 15 - 1)"
  by code_simp

lemma constants_I32:
  "NetFixedPointVals_init \<lparr>StorageType = I32, NumBits = 32, FractionalBits = 16, LongType = I64\<rparr> = Inl Undefined"
  by code_simp


text \<open>
  The mask passed to \<^verbatim>\<open>SampleLut\<close> is a number of bits: half way between two entries the value of the
  first one is returned, where the mask \<^verbatim>\<open>kLUTQuarterShiftMask\<close> would give the mean.
\<close>

lemma SampleLut_weight:
  "kLUTQuarterShiftBits (fixed64 17) = 4" "kLUTQuarterShiftMask (fixed64 17) = 15"
  "SampleLut (fixed64 17) 8 4 4 [0, 65536] = Inr 0" "SampleLut (fixed64 17) 8 4 15 [0, 65536] = Inr 32768"
  by code_simp+

end
