(* ===== verification/BitBuffer.thy ===== *)
theory BitBuffer
  imports Serialize
begin

text \<open>
  \<^verbatim>\<open>NetReflectionBitBuffer.h\<close> and \<^verbatim>\<open>NetReflectionBitBuffer.cpp\<close>: a bit buffer that is itself a
  value. The application writes values into its writer, the whole is sent as a number of bits and
  those bits, and the other side reads the values from a reader over its copy.

  A \<^verbatim>\<open>NetReflectionBitBuffer\<close> is its \<^verbatim>\<open>m_DataWriter\<close>, a \<^verbatim>\<open>NetReflectionBitBufferReader\<close> its \<^verbatim>\<open>m_DataReader\<close>.
  Bytes behind the end of the vector are \<open>Undefined\<close> to read.
\<close>

section \<open>The buffer\<close>

definition BitBuffer_init :: NetBitWriterVector where
  "BitBuffer_init = NetBitWriterVector_init"

definition BitBuffer_Reset :: "NetBitWriterVector \<Rightarrow> NetBitWriterVector" where
  "BitBuffer_Reset m_DataWriter = Reset m_DataWriter"

definition CreateReader :: "NetBitWriterVector \<Rightarrow> NetBitReaderBuffer" where
  "CreateReader m_DataWriter = NetBitReaderBuffer_init (wBuffer m_DataWriter)"

definition BitBuffer_WriteData :: "'t serializer \<Rightarrow> 't \<Rightarrow> NetBitWriterVector \<Rightarrow> NetBitWriterVector result" where
  "BitBuffer_WriteData s t m_DataWriter = s t m_DataWriter"

definition BitBuffer_ReadData ::
    "'t deserializer \<Rightarrow> 't \<Rightarrow> NetBitReaderBuffer \<Rightarrow> (bool \<times> 't \<times> NetBitReaderBuffer) result" where
  "BitBuffer_ReadData d t m_DataReader = ebind (d t m_DataReader) (\<lambda>(t, r). Inr (True, t, r))"

section \<open>Serializers\<close>

function write_words ::
    "bool \<Rightarrow> int \<Rightarrow> u8 list \<Rightarrow> NetBitWriterVector \<Rightarrow> (int \<times> u8 list \<times> NetBitWriterVector) result" where
  "write_words dbg bits ptr w =
     (if 64 \<le> bits then
        if length ptr < 8 then Inl Undefined
        else ebind (WriteBits dbg (le64 (take 8 ptr)) 64 w) (write_words dbg (bits - 64) (drop 8 ptr))
      else Inr (bits, ptr, w))"
  by pat_completeness auto
termination
  by (relation "measure (\<lambda>(_, bits, _, _). nat bits)") auto

function write_bytes ::
    "bool \<Rightarrow> int \<Rightarrow> u8 list \<Rightarrow> NetBitWriterVector \<Rightarrow> (int \<times> u8 list \<times> NetBitWriterVector) result" where
  "write_bytes dbg bits u8_ptr w =
     (if 8 \<le> bits then
        if u8_ptr = [] then Inl Undefined
        else ebind (WriteBits dbg (ucast (hd u8_ptr)) 8 w) (write_bytes dbg (bits - 8) (tl u8_ptr))
      else Inr (bits, u8_ptr, w))"
  by pat_completeness auto
termination
  by (relation "measure (\<lambda>(_, bits, _, _). nat bits)") auto

definition NetSerializer_BitBuffer :: "bool \<Rightarrow> NetBitWriterVector serializer" where
  "NetSerializer_BitBuffer dbg val w =
     (let bits = wTotalBits val in
      ebind (WriteBits dbg (word_of_int bits) 16 w) (\<lambda>w.
      if bits = 0 then Inr w
      else
        ebind (write_words dbg bits (wBuffer val) w) (\<lambda>(bits, ptr, w).
        ebind (write_bytes dbg bits ptr w) (\<lambda>(bits, u8_ptr, w).
        if u8_ptr = [] then Inl Undefined else WriteBits dbg (ucast (hd u8_ptr)) bits w))))"

function read_words ::
    "bool \<Rightarrow> nat \<Rightarrow> NetBitReaderBuffer \<Rightarrow> NetBitWriterVector
       \<Rightarrow> (nat \<times> NetBitReaderBuffer \<times> NetBitWriterVector) result" where
  "read_words dbg bits r w =
     (if 64 \<le> bits then
        ebind (ReadUBits 64 r) (\<lambda>(v, r).
        ebind (WriteBits dbg v 64 w) (\<lambda>w. read_words dbg (bits - 64) r w))
      else Inr (bits, r, w))"
  by pat_completeness auto
termination
  by (relation "measure (\<lambda>(_, bits, _, _). bits)") auto

function read_bytes ::
    "bool \<Rightarrow> nat \<Rightarrow> NetBitReaderBuffer \<Rightarrow> NetBitWriterVector
       \<Rightarrow> (nat \<times> NetBitReaderBuffer \<times> NetBitWriterVector) result" where
  "read_bytes dbg bits r w =
     (if 8 \<le> bits then
        ebind (ReadUBits 8 r) (\<lambda>(v, r).
        ebind (WriteBits dbg v 8 w) (\<lambda>w. read_bytes dbg (bits - 8) r w))
      else Inr (bits, r, w))"
  by pat_completeness auto
termination
  by (relation "measure (\<lambda>(_, bits, _, _). bits)") auto

definition NetDeserializer_BitBuffer :: "bool \<Rightarrow> NetBitWriterVector deserializer" where
  "NetDeserializer_BitBuffer dbg val r =
     ebind (ReadUBits 16 r) (\<lambda>(bits, r).
     let val = BitBuffer_Reset val in
     if bits = 0 then Inr (val, r)
     else
       ebind (read_words dbg (unat bits) r val) (\<lambda>(bits, r, val).
       ebind (read_bytes dbg bits r val) (\<lambda>(bits, r, val).
       ebind (ReadUBits (int bits) r) (\<lambda>(v, r).
       ebind (WriteBits dbg v (int bits) val) (\<lambda>val. Inr (val, r))))))"

declare write_words.simps [simp del] write_bytes.simps [simp del]
  read_words.simps [simp del] read_bytes.simps [simp del]

section \<open>Writing\<close>

lemma write_words_spec:
  "winv w \<Longrightarrow> n \<le> 8 * length ptr \<Longrightarrow>
    \<exists>w'. write_words dbg (int n) ptr w = Inr (int (n mod 64), drop (8 * (n div 64)) ptr, w')
      \<and> wrote w w' (take (64 * (n div 64)) (buffer_bits ptr))"
proof (induction n arbitrary: ptr w rule: less_induct)
  case (less n)
  show ?case
  proof (cases "64 \<le> n")
    case False
    then show ?thesis using less.prems by (simp add: write_words.simps)
  next
    case True
    then obtain m where m: "n = m + 64" by (metis add.commute le_add_diff_inverse)
    have l: "length (buffer_bits (take 8 ptr)) = 64" using True less.prems by simp
    have "bits_of 64 (le64 (take 8 ptr)) = buffer_bits (take 8 ptr)"
      using bits_of_word_of_bits [of "buffer_bits (take 8 ptr)"] unfolding l
      by (simp add: le64_def flip: buffer_bits_def)
    then obtain w1 where w1: "WriteBits dbg (le64 (take 8 ptr)) 64 w = Inr w1" "wrote w w1 (buffer_bits (take 8 ptr))"
      using WriteBits_spec [OF less.prems(1), of 64 dbg "le64 (take 8 ptr)"] by auto
    obtain w2 where w2: "write_words dbg (int m) (drop 8 ptr) w1
        = Inr (int (m mod 64), drop (8 * (m div 64)) (drop 8 ptr), w2)"
      "wrote w1 w2 (take (64 * (m div 64)) (buffer_bits (drop 8 ptr)))"
    proof -
      have "m < n" "m \<le> 8 * length (drop 8 ptr)" using less.prems m by auto
      then show ?thesis using less.IH [OF _ wrote_winv [OF w1(2)]] that by blast
    qed
    have split: "buffer_bits ptr = buffer_bits (take 8 ptr) @ buffer_bits (drop 8 ptr)"
      by (simp flip: buffer_bits_simps(3))
    have t: "take (64 * (n div 64)) (buffer_bits ptr)
      = buffer_bits (take 8 ptr) @ take (64 * (m div 64)) (buffer_bits (drop 8 ptr))"
    proof -
      have "n div 64 = Suc (m div 64)" using m by simp
      then show ?thesis unfolding split using l by simp
    qed
    have "write_words dbg (int n) ptr w = write_words dbg (int m) (drop 8 ptr) w1"
      using w1 less.prems m by (subst write_words.simps) simp
    moreover have "n div 64 = Suc (m div 64)" "n mod 64 = m mod 64" using m by simp_all
    ultimately show ?thesis
      unfolding t using w2 wrote_trans [OF w1(2) w2(2)] by (simp add: add.commute)
  qed
qed

lemma write_bytes_spec:
  "winv w \<Longrightarrow> n \<le> 8 * length ptr \<Longrightarrow>
    \<exists>w'. write_bytes dbg (int n) ptr w = Inr (int (n mod 8), drop (n div 8) ptr, w')
      \<and> wrote w w' (take (8 * (n div 8)) (buffer_bits ptr))"
proof (induction n arbitrary: ptr w rule: less_induct)
  case (less n)
  show ?case
  proof (cases "8 \<le> n")
    case False
    then show ?thesis using less.prems by (simp add: write_bytes.simps)
  next
    case True
    then obtain m where m: "n = m + 8" by (metis add.commute le_add_diff_inverse)
    obtain b bs where p: "ptr = b # bs" using True less.prems by (cases ptr) auto
    obtain w1 where w1: "WriteBits dbg (ucast b) 8 w = Inr w1" "wrote w w1 (byte_bits b)"
      using WriteBits_spec [of w 8 dbg "ucast b"] less.prems by auto
    obtain w2 where w2: "write_bytes dbg (int m) bs w1 = Inr (int (m mod 8), drop (m div 8) bs, w2)"
      "wrote w1 w2 (take (8 * (m div 8)) (buffer_bits bs))"
      using less.IH [of m w1 bs] less.prems m p wrote_winv [OF w1(2)] by auto
    have "write_bytes dbg (int n) ptr w = write_bytes dbg (int m) bs w1"
      using w1 m p by (subst write_bytes.simps) simp
    moreover have "(m + 8) div 8 = Suc (m div 8)" by simp
    ultimately show ?thesis
      using w2 m p wrote_trans [OF w1(2) w2(2)] by simp
  qed
qed


text \<open>
  A buffer whose count of bits is right; and one whose last byte has nothing above its used bits, which
  the debug build needs.
\<close>

definition bb_ok :: "NetBitWriterVector \<Rightarrow> bool" where
  "bb_ok b \<longleftrightarrow> winv b \<and> wTotalBits b = int (length (wbits b)) \<and> length (wbits b) < 2 ^ 16"

definition bb_clean :: "NetBitWriterVector \<Rightarrow> bool" where
  "bb_clean b \<longleftrightarrow> wBuffer b = [] \<or> take_bit (wBit b) (last (wBuffer b)) = last (wBuffer b)"

definition bb_enc :: "NetBitWriterVector \<Rightarrow> bool list" where
  "bb_enc b = nat_bits 16 (length (wbits b)) @ wbits b"

lemma bb_length:
  assumes "bb_ok b" "wBuffer b \<noteq> []"
  shows "length (wbits b) = 8 * (length (wBuffer b) - 1) + wBit b" "0 < wBit b" "wBit b \<le> 8"
  using assms by (cases "wBuffer b"; auto simp: bb_ok_def length_wbits wlen_def winv_def)+

lemma div_mod_64:
  fixes n :: nat
  shows "8 * (n div 64) + n mod 64 div 8 = n div 8" "n mod 64 mod 8 = n mod 8"
proof -
  have m: "n mod 64 = 8 * (n div 8 mod 8) + n mod 8" using mod_mult2_eq [of n 8 8] by simp
  have "n div 64 = n div 8 div 8" using div_mult2_eq [of n 8 8] by simp
  moreover have "n mod 64 div 8 = n div 8 mod 8" unfolding m by (simp add: div_add1_eq)
  ultimately show "8 * (n div 64) + n mod 64 div 8 = n div 8" by simp
  show "n mod 64 mod 8 = n mod 8" unfolding m by simp
qed

lemma bb_ser:
  assumes b: "bb_ok b" and part: "wbits b = [] \<or> length (wbits b) mod 8 \<noteq> 0" and dbg: "dbg \<longrightarrow> bb_clean b"
    and w: "winv w"
  shows "\<exists>w'. NetSerializer_BitBuffer dbg b w = Inr w' \<and> wrote w w' (bb_enc b)"
proof -
  define n where "n = length (wbits b)"
  have n: "wTotalBits b = int n" "n < 2 ^ 16" using b by (simp_all add: bb_ok_def n_def)
  obtain w1 where w1: "WriteBits dbg (word_of_int (int n)) 16 w = Inr w1" "wrote w w1 (nat_bits 16 n)"
    using WriteBits_nat [OF w, of n 16 dbg] n by auto
  show ?thesis
  proof (cases "n = 0")
    case True
    then show ?thesis using w1 n by (simp add: NetSerializer_BitBuffer_def bb_enc_def n_def)
  next
    case False
    have ne: "wBuffer b \<noteq> []" using False by (auto simp: n_def wbits_def)
    define L where "L = length (wBuffer b)"
    have l: "n = 8 * (L - 1) + wBit b" "0 < wBit b" "wBit b \<le> 8" "0 < L"
      using bb_length [OF b ne] ne by (simp_all add: n_def L_def)
    have bit: "wBit b < 8"
      using part False l by (cases "wBit b = 8") (auto simp: n_def)
    have nd: "n div 8 = L - 1" "n mod 8 = wBit b" "n \<le> 8 * L" using l bit by simp_all
    obtain w2 where w2: "write_words dbg (int n) (wBuffer b) w1
        = Inr (int (n mod 64), drop (8 * (n div 64)) (wBuffer b), w2)"
      "wrote w1 w2 (take (64 * (n div 64)) (buffer_bits (wBuffer b)))"
      using write_words_spec [OF wrote_winv [OF w1(2)], of n "wBuffer b" dbg] nd by (auto simp: L_def)
    define rest where "rest = drop (8 * (n div 64)) (wBuffer b)"
    have k: "8 * (n div 64) + n mod 64 div 8 = L - 1" "n mod 64 mod 8 = wBit b"
      unfolding nd(1,2) [symmetric] by (simp_all only: div_mod_64)
    have "64 * (n div 64) + n mod 64 = n" by simp
    then have rl: "n mod 64 \<le> 8 * length rest" using nd(3) unfolding rest_def L_def length_drop by linarith
    obtain w3 where w3: "write_bytes dbg (int (n mod 64)) rest w2
        = Inr (int (n mod 64 mod 8), drop (n mod 64 div 8) rest, w3)"
      "wrote w2 w3 (take (8 * (n mod 64 div 8)) (buffer_bits rest))"
      using write_bytes_spec [OF wrote_winv [OF w2(2)] rl, of dbg] by auto
    define z where "z = last (wBuffer b)"
    have dz: "drop (n mod 64 div 8) rest = [z]"
    proof -
      have "drop (L - 1) (wBuffer b) = [z]"
        using append_butlast_last_id [OF ne] by (metis L_def z_def append_eq_conv_conj length_butlast)
      then show ?thesis using k(1) by (simp add: rest_def add.commute)
    qed
    have "\<exists>w4. WriteBits dbg (ucast z) (int (wBit b)) w3 = Inr w4 \<and> wrote w3 w4 (take (wBit b) (byte_bits z))"
    proof -
      have "bits_of (wBit b) (ucast z) = take (wBit b) (byte_bits z)"
        using take_bits_of [of "wBit b" 8 "ucast z"] bit by simp
      moreover have "writable dbg (ucast z) (wBit b)"
      proof -
        have "take_bit (wBit b) (ucast z :: u64) = ucast z" if "take_bit (wBit b) z = z"
          by (rule bit_word_eqI) (metis that bit_take_bit_iff bit_ucast_iff)
        then show ?thesis using dbg ne by (auto simp: writable_def bb_clean_def z_def)
      qed
      ultimately show ?thesis
        using WriteBits_spec [OF wrote_winv [OF w3(2)], of "int (wBit b)" dbg "ucast z"] by simp
    qed
    then obtain w4 where w4: "WriteBits dbg (ucast z) (int (wBit b)) w3 = Inr w4" "wrote w3 w4 (take (wBit b) (byte_bits z))"
      by blast
    have bits: "wbits b = take (64 * (n div 64)) (buffer_bits (wBuffer b))
        @ take (8 * (n mod 64 div 8)) (buffer_bits rest) @ take (wBit b) (byte_bits z)"
    proof -
      have "wbits b = buffer_bits (take (L - 1) (wBuffer b)) @ take (wBit b) (byte_bits z)"
        using wbits_last [of b] b ne by (simp add: bb_ok_def z_def L_def butlast_conv_take)
      moreover have "8 * (L - 1) = 64 * (n div 64) + 8 * (n mod 64 div 8)" using k(1) by linarith
      ultimately show ?thesis
        by (simp add: buffer_bits_take take_add rest_def buffer_bits_drop)
    qed
    have "NetSerializer_BitBuffer dbg b w = Inr w4"
      using w1(1) w2(1) w3(1) w4(1) n False k dz
      by (simp add: NetSerializer_BitBuffer_def Let_def flip: rest_def)
    moreover have "bb_enc b = nat_bits 16 n @ wbits b" by (simp add: bb_enc_def n_def)
    then have "wrote w w4 (bb_enc b)"
      unfolding bits
      using wrote_trans [OF wrote_trans [OF wrote_trans [OF w1(2) w2(2)] w3(2)] w4(2)] by simp
    ultimately show ?thesis by blast
  qed
qed


section \<open>Reading\<close>

lemma WriteBits_bits:
  assumes "winv w" "length xs \<le> 63"
  shows "\<exists>w'. WriteBits dbg (word_of_bits xs) (int (length xs)) w = Inr w' \<and> wrote w w' xs"
proof -
  have "take_bit (length xs) (word_of_bits xs) = word_of_bits xs"
    by (rule bit_word_eqI) (auto simp: bit_take_bit_iff bit_word_of_bits)
  then show ?thesis
    using WriteBits_spec [OF assms(1), of "int (length xs)" dbg "word_of_bits xs"] bits_of_word_of_bits [of xs] assms(2)
    by (simp add: writable_def)
qed

lemma read_words_spec:
  "rinv r \<Longrightarrow> winv w \<Longrightarrow> 0 < rBit r \<or> length xs < 64 \<Longrightarrow> rbits r = xs @ rest \<Longrightarrow>
    \<exists>r' w'. read_words dbg (length xs) r w = Inr (length xs mod 64, r', w')
      \<and> consumed r r' (take (64 * (length xs div 64)) xs) \<and> wrote w w' (take (64 * (length xs div 64)) xs)"
proof (induction "length xs" arbitrary: xs r w rule: less_induct)
  case less
  show ?case
  proof (cases "64 \<le> length xs")
    case False
    then show ?thesis using less.prems by (simp add: read_words.simps)
  next
    case True
    define ys zs where "ys = take 64 xs" and "zs = drop 64 xs"
    have xs: "xs = ys @ zs" "length ys = 64" using True by (simp_all add: ys_def zs_def)
    have rb: "0 < rBit r" "rBit r < 8" using less.prems(1,3) True by (simp_all add: rinv_def)
    have "64 \<le> 8 * length (rBytes r) - rBit r"
      using arg_cong [OF less.prems(4), of length] True by (simp add: length_rbits)
    then have "9 \<le> length (rBytes r)" using rb by linarith
    then obtain r1 where r1: "ReadUBits 64 r = Inr (word_of_bits ys, r1)" "consumed r r1 ys" "rBit r1 = rBit r"
      using ReadUBits_64 [OF rb] less.prems(4) xs by auto
    have rest1: "rbits r1 = zs @ rest" using r1(2) less.prems(4) xs by (simp add: consumed_def)
    obtain w1 where w1: "WriteBits dbg (word_of_bits ys) 64 w = Inr w1" "wrote w w1 ys"
      using WriteBits_spec [OF less.prems(2), of 64 dbg "word_of_bits ys"] bits_of_word_of_bits [of ys] xs(2)
      by auto
    obtain r2 w2 where 2: "read_words dbg (length zs) r1 w1 = Inr (length zs mod 64, r2, w2)"
      "consumed r1 r2 (take (64 * (length zs div 64)) zs)" "wrote w1 w2 (take (64 * (length zs div 64)) zs)"
      using less.hyps [OF _ consumed_rinv [OF r1(2)] wrote_winv [OF w1(2)] _ rest1] r1(3) rb xs by auto
    have l: "length xs = length zs + 64" "length xs div 64 = Suc (length zs div 64)" using xs by simp_all
    have t: "take (64 * (length xs div 64)) xs = ys @ take (64 * (length zs div 64)) zs"
      unfolding l(2) using xs by simp
    have "read_words dbg (length xs) r w = read_words dbg (length zs) r1 w1"
      using r1(1) w1(1) l by (subst read_words.simps) simp
    then show ?thesis
      unfolding t using 2 l consumed_trans [OF r1(2) 2(2)] wrote_trans [OF w1(2) 2(3)] by auto
  qed
qed

lemma read_bytes_spec:
  "rinv r \<Longrightarrow> winv w \<Longrightarrow> rbits r = xs @ rest \<Longrightarrow>
    \<exists>r' w'. read_bytes dbg (length xs) r w = Inr (length xs mod 8, r', w')
      \<and> consumed r r' (take (8 * (length xs div 8)) xs) \<and> wrote w w' (take (8 * (length xs div 8)) xs)"
proof (induction "length xs" arbitrary: xs r w rule: less_induct)
  case less
  show ?case
  proof (cases "8 \<le> length xs")
    case False
    then show ?thesis using less.prems by (simp add: read_bytes.simps)
  next
    case True
    define ys zs where "ys = take 8 xs" and "zs = drop 8 xs"
    have xs: "xs = ys @ zs" "length ys = 8" using True by (simp_all add: ys_def zs_def)
    obtain r1 where r1: "ReadUBits 8 r = Inr (word_of_bits ys, r1)" "consumed r r1 ys"
      using ReadUBits_spec [OF less.prems(1), of 8] less.prems(3) xs by auto
    have rest1: "rbits r1 = zs @ rest" using r1(2) less.prems(3) xs by (simp add: consumed_def)
    obtain w1 where w1: "WriteBits dbg (word_of_bits ys) 8 w = Inr w1" "wrote w w1 ys"
      using WriteBits_bits [OF less.prems(2), of ys dbg] xs(2) by auto
    obtain r2 w2 where 2: "read_bytes dbg (length zs) r1 w1 = Inr (length zs mod 8, r2, w2)"
      "consumed r1 r2 (take (8 * (length zs div 8)) zs)" "wrote w1 w2 (take (8 * (length zs div 8)) zs)"
      using less.hyps [OF _ consumed_rinv [OF r1(2)] wrote_winv [OF w1(2)] rest1] xs by auto
    have l: "length xs = length zs + 8" "length xs div 8 = Suc (length zs div 8)" using xs by simp_all
    have t: "take (8 * (length xs div 8)) xs = ys @ take (8 * (length zs div 8)) zs"
      unfolding l(2) using xs by simp
    have "read_bytes dbg (length xs) r w = read_bytes dbg (length zs) r1 w1"
      using r1(1) w1(1) l by (subst read_bytes.simps) simp
    then show ?thesis
      unfolding t using 2 l consumed_trans [OF r1(2) 2(2)] wrote_trans [OF w1(2) 2(3)] by auto
  qed
qed


lemma wTotalBits_init: "wTotalBits NetBitWriterVector_init = 0"
  by (simp add: NetBitWriterVector_init_def)

lemma offset_mod_8:
  fixes a b j x y :: nat
  assumes "8 * a - y = 8 * j + (8 * b - x)" "x < 8" "y < 8" "x \<le> 8 * b" "y \<le> 8 * a"
  shows "x = y"
proof -
  have "8 * a = 8 * j + (8 * b - x) + y" using assms(1,5) by simp
  then have "8 * a + x = 8 * (j + b) + y" using assms(4) by simp
  then have "(8 * a + x) mod 8 = (8 * (j + b) + y) mod 8" by (rule arg_cong)
  then show ?thesis using assms(2,3) by (simp only: mod_mult_self4 mod_less)
qed

lemma rinv_rBit: "rinv r \<Longrightarrow> rBit r < 8 \<and> rBit r \<le> 8 * length (rBytes r)"
  by (cases "rBytes r") (auto simp: rinv_def)

lemma consumed_rBit:
  assumes "rinv r" "consumed r r' bs" "length bs = 8 * j"
  shows "rBit r' = rBit r"
proof -
  have r': "rinv r'" "length (rbits r) = length bs + length (rbits r')" using assms(2) by (simp_all add: consumed_def)
  show ?thesis
    using offset_mod_8 [of "length (rBytes r)" "rBit r" j "length (rBytes r')" "rBit r'"] r'(2) assms(3)
      rinv_rBit [OF assms(1)] rinv_rBit [OF r'(1)] unfolding length_rbits by simp
qed

lemma bb_deser:
  assumes b: "bb_ok b" and r: "rinv r" "rbits r = bb_enc b @ rest" and off: "0 < rBit r \<or> length (wbits b) < 64"
  shows "\<exists>b' r'. NetDeserializer_BitBuffer dbg val r = Inr (b', r')
    \<and> bb_ok b' \<and> wbits b' = wbits b \<and> consumed r r' (bb_enc b)"
proof -
  define xs where "xs = wbits b"
  have n: "length xs < 2 ^ 16" using b by (simp add: bb_ok_def xs_def)
  obtain r1 where r1: "ReadUBits 16 r = Inr (of_nat (length xs), r1)" "consumed r r1 (nat_bits 16 (length xs))"
      "rbits r1 = xs @ rest"
    using ReadUBits_nat [OF r(1), of 16 "length xs" "xs @ rest"] r(2) n by (auto simp: bb_enc_def xs_def)
  have u: "unat (of_nat (length xs) :: u64) = length xs"
    using n unat_of_nat_bound [of "length xs" 16] by simp
  have z: "(of_nat (length xs) :: u64) = 0 \<longleftrightarrow> xs = []" 
    using arg_cong [of "of_nat (length xs) :: u64" 0 unat] u by auto
  define v0 where "v0 = BitBuffer_Reset val"
  have v0: "winv v0" "wbits v0 = []" "wTotalBits v0 = 0"
    by (simp_all add: v0_def BitBuffer_Reset_def Reset_def winv_def wbits_def wlen_def)
  have fin: "bb_ok b' \<and> wbits b' = wbits b" if "wrote v0 b' xs" for b'
    using that v0 n by (simp add: wrote_def bb_ok_def xs_def)
  show ?thesis
  proof (cases "xs = []")
    case True
    then show ?thesis
      using r1 z v0 fin [of v0] by (auto simp: NetDeserializer_BitBuffer_def bb_enc_def xs_def Let_def simp flip: v0_def)
  next
    case False
    note i1 = consumed_rinv [OF r1(2)]
    have "0 < rBit r1 \<or> length xs < 64" using consumed_rBit [OF r(1) r1(2), of 2] off by (simp add: xs_def)
    then obtain r2 w2 where 2: "read_words dbg (length xs) r1 v0 = Inr (length xs mod 64, r2, w2)"
      "consumed r1 r2 (take (64 * (length xs div 64)) xs)" "wrote v0 w2 (take (64 * (length xs div 64)) xs)"
      using read_words_spec [OF i1 v0(1) _ r1(3), of dbg] by blast
    define ys where "ys = drop (64 * (length xs div 64)) xs"
    have ly: "length ys = length xs mod 64" by (simp add: ys_def minus_mult_div_eq_mod)
    have split: "xs = take (64 * (length xs div 64)) xs @ ys" by (simp add: ys_def)
    have rest2: "rbits r2 = ys @ rest" using 2(2) r1(3) split by (metis append.assoc consumed_rest)
    obtain r3 w3 where 3: "read_bytes dbg (length ys) r2 w2 = Inr (length ys mod 8, r3, w3)"
      "consumed r2 r3 (take (8 * (length ys div 8)) ys)" "wrote w2 w3 (take (8 * (length ys div 8)) ys)"
      using read_bytes_spec [OF consumed_rinv [OF 2(2)] wrote_winv [OF 2(3)] rest2, of dbg] by blast
    define zs where "zs = drop (8 * (length ys div 8)) ys"
    have lz: "length zs = length ys mod 8" by (simp add: zs_def minus_mult_div_eq_mod)
    have split2: "ys = take (8 * (length ys div 8)) ys @ zs" by (simp add: zs_def)
    have rest3: "rbits r3 = zs @ rest" using 3(2) rest2 split2 by (metis append.assoc consumed_rest)
    have z8: "length zs < 8" by (simp add: lz)
    obtain r4 where r4: "ReadUBits (int (length zs)) r3 = Inr (word_of_bits zs, r4)" "consumed r3 r4 zs"
      using ReadUBits_spec [OF consumed_rinv [OF 3(2)], of "int (length zs)"] rest3 z8 by auto
    obtain w4 where w4: "WriteBits dbg (word_of_bits zs) (int (length zs)) w3 = Inr w4" "wrote w3 w4 zs"
      using WriteBits_bits [OF wrote_winv [OF 3(3)], of zs dbg] z8 by auto
    have "wrote v0 w4 xs"
      using wrote_trans [OF wrote_trans [OF 2(3) 3(3)] w4(2)] split split2 by (metis append.assoc)
    moreover have "consumed r r4 (bb_enc b)"
      using consumed_trans [OF consumed_trans [OF consumed_trans [OF r1(2) 2(2)] 3(2)] r4(2)] split split2
      unfolding bb_enc_def xs_def [symmetric] by (metis append.assoc)
    moreover have "NetDeserializer_BitBuffer dbg val r = Inr (w4, r4)"
      using r1(1) 2(1) 3(1) r4(1) w4(1) u z False ly lz
      by (simp add: NetDeserializer_BitBuffer_def Let_def flip: v0_def)
    ultimately show ?thesis using fin by blast
  qed
qed

text \<open>C28: what the application writes into a bit buffer, of any type whose serializer keeps its contract, it
  reads from the copy on the other side after the buffer has travelled, provided that the sender is a release
  build (a debug build refuses a buffer in which a reservation was rolled back, \<open>rollback_leaves_bits\<close>), that the
  buffer has less than \<open>2 ^ 16\<close> bits (its count on the wire has 16), that it does not end at a byte boundary, and
  that, from 64 bits on, it does not lie at one in the packet.\<close>

theorem bit_buffer_end_to_end:
  assumes codec: "value_codec ser deser sent obj enc" and v: "sent v" "obj v0"
    and len: "length (enc v) mod 8 \<noteq> 0" "length (enc v) < 2 ^ 16" and w: "winv w"
  shows "\<exists>b w' bs. BitBuffer_WriteData ser v BitBuffer_init = Inr b
    \<and> NetSerializer_BitBuffer False b w = Inr w' \<and> wbits w' = wbits w @ bs
    \<and> (\<forall>val r rest. rinv r \<and> rbits r = bs @ rest \<and> (0 < rBit r \<or> length (enc v) < 64) \<longrightarrow>
         (\<exists>b' r' r''. NetDeserializer_BitBuffer dbg val r = Inr (b', r') \<and> rbits r' = rest
           \<and> BitBuffer_ReadData deser v0 (CreateReader b') = Inr (True, v, r'')))"
proof -
  obtain b where b: "ser v NetBitWriterVector_init = Inr b" "wrote NetBitWriterVector_init b (enc v)"
    using value_codec.ser_enc [OF codec wbits_init(2) v(1)] by blast
  have wb: "wbits b = enc v" "bb_ok b"
    using b(2) len(2) by (simp_all add: wrote_def bb_ok_def wTotalBits_init)
  obtain w' where w': "NetSerializer_BitBuffer False b w = Inr w'" "wrote w w' (bb_enc b)"
    using bb_ser [OF wb(2) _ _ w, of False] len(1) wb(1) by auto
  have reads: "\<exists>r''. BitBuffer_ReadData deser v0 (CreateReader b') = Inr (True, v, r'')"
    if b': "bb_ok b'" "wbits b' = enc v" for b'
  proof -
    obtain pad where "rbits (NetBitReaderBuffer_init (wBuffer b')) = enc v @ pad"
      using reader_of_writer [of b'] b' by (auto simp: bb_ok_def)
    then show ?thesis
      using value_codec.deser_enc [OF codec rbits_init(2) v]
      by (fastforce simp: BitBuffer_ReadData_def CreateReader_def)
  qed
  have "\<exists>b' r' r''. NetDeserializer_BitBuffer dbg val r = Inr (b', r') \<and> rbits r' = rest
           \<and> BitBuffer_ReadData deser v0 (CreateReader b') = Inr (True, v, r'')"
    if "rinv r \<and> rbits r = bb_enc b @ rest \<and> (0 < rBit r \<or> length (enc v) < 64)" for val r rest
    using bb_deser [OF wb(2), of r rest dbg val] that wb(1) reads by (metis consumed_rest)
  then show ?thesis
    using b(1) w' by (auto simp: BitBuffer_WriteData_def BitBuffer_init_def wrote_wbits)
qed

theorem bit_buffer_end_to_end_witness:
  "\<exists>b w' bs. BitBuffer_WriteData (NetSerializer_bool True) True BitBuffer_init = Inr b
    \<and> NetSerializer_BitBuffer False b NetBitWriterVector_init = Inr w' \<and> wbits w' = bs
    \<and> (\<forall>val r rest. rinv r \<and> rbits r = bs @ rest \<longrightarrow>
         (\<exists>b' r' r''. NetDeserializer_BitBuffer True val r = Inr (b', r') \<and> rbits r' = rest
           \<and> BitBuffer_ReadData NetDeserializer_bool False (CreateReader b') = Inr (True, True, r'')))"
  using bit_buffer_end_to_end [OF bool_codec.value_codec_axioms, where v = True and ?v0.0 = False
      and w = NetBitWriterVector_init and dbg = True]
  by simp

text \<open>A buffer that ends at a byte boundary makes the serializer read the byte behind its vector.\<close>

theorem BitBuffer_overread:
  assumes b: "bb_ok b" "wbits b \<noteq> []" "length (wbits b) mod 8 = 0" and w: "winv w"
  shows "NetSerializer_BitBuffer dbg b w = Inl Undefined"
proof -
  define n where "n = length (wbits b)"
  have n: "wTotalBits b = int n" "n < 2 ^ 16" "n \<noteq> 0" using b by (simp_all add: bb_ok_def n_def)
  have ne: "wBuffer b \<noteq> []" using b(2) by (auto simp: wbits_def)
  define L where "L = length (wBuffer b)"
  have l: "n = 8 * (L - 1) + wBit b" "0 < wBit b" "wBit b \<le> 8" "0 < L"
    using bb_length [OF b(1) ne] ne by (simp_all add: n_def L_def)
  have "wBit b mod 8 = 0" using b(3) l(1) by (simp flip: n_def)
  then have "wBit b = 8" using l(2,3) by (cases "wBit b < 8") auto
  then have nd: "n div 8 = L" "n \<le> 8 * L" using l by simp_all
  obtain w1 where w1: "WriteBits dbg (word_of_int (int n)) 16 w = Inr w1" "wrote w w1 (nat_bits 16 n)"
    using WriteBits_nat [OF w, of n 16 dbg] n by auto
  obtain w2 where w2: "write_words dbg (int n) (wBuffer b) w1
      = Inr (int (n mod 64), drop (8 * (n div 64)) (wBuffer b), w2)"
    "wrote w1 w2 (take (64 * (n div 64)) (buffer_bits (wBuffer b)))"
    using write_words_spec [OF wrote_winv [OF w1(2)], of n "wBuffer b" dbg] nd by (auto simp: L_def)
  define rest where "rest = drop (8 * (n div 64)) (wBuffer b)"
  have "64 * (n div 64) + n mod 64 = n" by simp
  then have rl: "n mod 64 \<le> 8 * length rest" using nd(2) unfolding rest_def L_def length_drop by linarith
  obtain w3 where w3: "write_bytes dbg (int (n mod 64)) rest w2
      = Inr (int (n mod 64 mod 8), drop (n mod 64 div 8) rest, w3)"
    using write_bytes_spec [OF wrote_winv [OF w2(2)] rl, of dbg] by blast
  have "drop (n mod 64 div 8) rest = []"
    using div_mod_64(1) [of n] nd(1) by (simp add: rest_def L_def)
  then show ?thesis
    using w1(1) w2(1) w3 n by (simp add: NetSerializer_BitBuffer_def Let_def flip: rest_def)
qed


theorem BitBuffer_overread_witness:
  "NetSerializer_BitBuffer True \<lparr>wBuffer = [5], wBit = 8, wTotalBits = 8\<rparr> NetBitWriterVector_init = Inl Undefined"
  using BitBuffer_overread [of "\<lparr>wBuffer = [5], wBit = 8, wTotalBits = 8\<rparr>" NetBitWriterVector_init True]
  by (simp add: bb_ok_def wbits_def wlen_def byte_bits_def) (simp add: winv_def NetBitWriterVector_init_def)

text \<open>
  A serializer that rolls a reservation back leaves bits above the used ones of the last byte: a debug
  build then refuses to send the buffer.
\<close>

lemma rollback_leaves_bits:
  "ebind (WriteBits True 1 1 BitBuffer_init) (\<lambda>b.
   ebind (Reserve True 1 b) (\<lambda>(cursor, b).
   ebind (WriteBits True 1 1 b) (\<lambda>b.
   ebind (RollBack cursor b) (\<lambda>b.
   NetSerializer_BitBuffer True b NetBitWriterVector_init)))) = Inl OutOfRange"
  by code_simp

end
