(* ===== verification/NetRandom.thy ===== *)
theory NetRandom
  imports Codec
begin

text \<open>
  \<^verbatim>\<open>NetRandom.h\<close>, \<^verbatim>\<open>NetRandom.cpp\<close> and \<^verbatim>\<open>NetReflectionRandom.h\<close>: a generator of 32 bits of state that
  mixes in a table filled once at the start of the program. The table and the variables it is computed
  from are \<^verbatim>\<open>unsigned long\<close>, whose width is a type parameter here. The variables only the unused macros
  touch are left out.
\<close>

section \<open>The table\<close>

record 'ul kiss =
  kz :: 'ul
  kw :: 'ul
  kjsr :: 'ul
  kjcong :: 'ul

definition znew :: "'n::len word \<Rightarrow> 'n word" where
  "znew z = 36969 * (z AND 65535) + drop_bit 16 z"

definition wnew :: "'n::len word \<Rightarrow> 'n word" where
  "wnew w = 18000 * (w AND 65535) + drop_bit 16 w"

definition MWC :: "'n::len word \<Rightarrow> 'n word \<Rightarrow> 'n word \<times> 'n word \<times> 'n word" where
  "MWC z w = (let z = znew z; w = wnew w in (push_bit 16 z + w, z, w))"

definition SHR3 :: "'n::len word \<Rightarrow> 'n word" where
  "SHR3 jsr =
     (let jsr = jsr XOR push_bit 17 jsr;
          jsr = jsr XOR drop_bit 13 jsr
      in jsr XOR push_bit 5 jsr)"

definition CONG :: "'n::len word \<Rightarrow> 'n word" where
  "CONG jcong = 69069 * jcong + 1234567"

definition KISS :: "'n::len word kiss \<Rightarrow> 'n word \<times> 'n word kiss" where
  "KISS s =
     (let (mwc, z, w) = MWC (kz s) (kw s);
          jcong = CONG (kjcong s);
          jsr = SHR3 (kjsr s)
      in ((mwc XOR jcong) + jsr, \<lparr>kz = z, kw = w, kjsr = jsr, kjcong = jcong\<rparr>))"

fun fill_table :: "nat \<Rightarrow> 'n::len word kiss \<Rightarrow> 'n word list" where
  "fill_table 0 s = []"
| "fill_table (Suc n) s = (let (v, s) = KISS s in v # fill_table n s)"

definition settable :: "'n::len word \<Rightarrow> 'n word \<Rightarrow> 'n word \<Rightarrow> 'n word \<Rightarrow> 'n word list" where
  "settable i1 i2 i3 i4 = fill_table 256 \<lparr>kz = i1, kw = i2, kjsr = i3, kjcong = i4\<rparr>"

definition NetRandomInit :: "'n::len word list" where
  "NetRandomInit = settable 12345 65435 34221 12345"

section \<open>The generator\<close>

definition NetRandom_init :: u32 where
  "NetRandom_init = 0"

definition NetRandom_of :: "u32 \<Rightarrow> u32" where
  "NetRandom_of seed = seed"

definition GetRandom :: "'n::len word list \<Rightarrow> u32 \<Rightarrow> u32 \<times> u32" where
  "GetRandom t m_State =
     (let z = drop_bit 16 m_State;
          w = m_State AND 0x0000FFFF;
          index = ucast (drop_bit 12 m_State) :: u8;
          m_State = fst (MWC z w) XOR ucast (NOT (t ! unat index))
      in (m_State, m_State))"

definition GetRandom64 :: "'n::len word list \<Rightarrow> u32 \<Rightarrow> u64 \<times> u32" where
  "GetRandom64 t m_State =
     (let (r1, m_State) = GetRandom t m_State;
          r = push_bit 32 (ucast r1 :: u64);
          (r2, m_State) = GetRandom t m_State
      in (r OR ucast r2, m_State))"

definition GetSeed :: "u32 \<Rightarrow> u32" where
  "GetSeed m_State = m_State"

definition NetSerializer_Random :: "bool \<Rightarrow> u32 serializer" where
  "NetSerializer_Random dbg val w = WriteBits dbg (ucast (GetSeed val)) 32 w"

definition NetDeserializer_Random :: "u32 deserializer" where
  "NetDeserializer_Random val r =
     ebind (ReadUBits 32 r) (\<lambda>(v, r). let seed = ucast v in Inr (NetRandom_of seed, r))"

section \<open>The same sequence on both sides\<close>

lemma length_fill_table [simp]: "length (fill_table n s) = n"
  by (induction n arbitrary: s) (auto simp: split_beta)

text \<open>The index is a byte: the table is never left.\<close>

lemma table_index: "unat (ucast (drop_bit 12 m_State) :: u8) < length (NetRandomInit :: 'n::len word list)"
  using unsigned_less [of "ucast (drop_bit 12 m_State) :: u8"] by (simp add: NetRandomInit_def settable_def)

fun randoms :: "'n::len word list \<Rightarrow> nat \<Rightarrow> u32 \<Rightarrow> u32 list" where
  "randoms t 0 m_State = []"
| "randoms t (Suc n) m_State = (let (r, m_State) = GetRandom t m_State in r # randoms t n m_State)"

definition random_enc :: "u32 \<Rightarrow> bool list" where
  "random_enc s = nat_bits 32 (unat s)"

lemma random_codec:
  "value_codec (NetSerializer_Random dbg) NetDeserializer_Random (\<lambda>_. True) (\<lambda>_. True) random_enc"
proof
  have b: "unat s < 2 ^ 32" for s :: u32 using unsigned_less [of s] by simp
  have c: "of_nat (unat s) = (ucast s :: u64)" for s :: u32 unfolding ucast_eq uint_nat by simp
  show "\<exists>w'. NetSerializer_Random dbg v w = Inr w' \<and> wrote w w' (random_enc v)" if "winv w" for w v
    using WriteBits_nat [OF that b [of v]] by (simp add: NetSerializer_Random_def GetSeed_def random_enc_def c)
  show "\<exists>r'. NetDeserializer_Random v0 r = Inr (v, r') \<and> consumed r r' (random_enc v)"
    if r: "rinv r" "rbits r = random_enc v @ rest" for r v v0 rest
  proof -
    have "ucast (ucast v :: u64) = v"
      by (rule bit_word_eqI) (simp add: bit_ucast_iff)
    then show ?thesis
      using ReadUBits_nat [OF r(1), of 32 "unat v" rest] r(2) b [of v]
      by (auto simp: NetDeserializer_Random_def NetRandom_of_def random_enc_def c)
  qed
qed simp

interpretation random_value: value_codec "NetSerializer_Random dbg" NetDeserializer_Random
    "\<lambda>_. True" "\<lambda>_. True" random_enc for dbg
  by (rule random_codec)

text \<open>a generator that is sent continues on the other side with the sequence of the sender's, for as
  long as one likes.\<close>

theorem random_sequence:
  assumes "winv w"
  shows "\<exists>w' bs. NetSerializer_Random dbg s w = Inr w' \<and> wbits w' = wbits w @ bs
    \<and> (\<forall>s0 r rest. rinv r \<and> rbits r = bs @ rest \<longrightarrow>
         (\<exists>s' r'. NetDeserializer_Random s0 r = Inr (s', r') \<and> rbits r' = rest
           \<and> (\<forall>t n. randoms t n s' = randoms t n s)))"
  using random_value.value_roundtrip [OF assms, where v = s and dbg = dbg] by metis

theorem random_sequence_witness:
  "\<exists>w' bs. NetSerializer_Random True 4711 NetBitWriterVector_init = Inr w' \<and> wbits w' = bs
    \<and> (\<forall>s0 r rest. rinv r \<and> rbits r = bs @ rest \<longrightarrow>
         (\<exists>s' r'. NetDeserializer_Random s0 r = Inr (s', r') \<and> rbits r' = rest
           \<and> (\<forall>t n. randoms t n s' = randoms t n 4711)))"
  using random_sequence [of NetBitWriterVector_init True 4711] by simp

lemma table_0: "NetRandomInit ! 0 = fst (KISS \<lparr>kz = 12345, kw = 65435, kjsr = 34221, kjcong = 12345\<rparr>)"
proof -
  have "fill_table (Suc n) s ! 0 = fst (KISS s)" for n and s :: "'n::len word kiss"
    by (simp add: split_beta)
  from this [of 255] show ?thesis by (simp add: NetRandomInit_def settable_def)
qed

text \<open>
  the table depends on the width of \<^verbatim>\<open>unsigned long\<close>, as \<^verbatim>\<open>SHR3\<close> shifts bits out of the lower half
  and back: two platforms that share a generator in a state that looks up the first entry draw different
  numbers from it.
\<close>

theorem random_width:
  assumes "ucast (drop_bit 12 s) = (0 :: u8)"
  shows "fst (GetRandom (NetRandomInit :: 32 word list) s) \<noteq> fst (GetRandom (NetRandomInit :: 64 word list) s)"
proof -
  let ?s = "\<lparr>kz = 12345, kw = 65435, kjsr = 34221, kjcong = 12345\<rparr>"
  have "ucast (NOT (fst (KISS (?s :: 32 word kiss)))) \<noteq> (ucast (NOT (fst (KISS (?s :: 64 word kiss)))) :: u32)"
    by code_simp
  then have "x XOR ucast (NOT ((NetRandomInit :: 32 word list) ! 0))
      \<noteq> (x XOR ucast (NOT ((NetRandomInit :: 64 word list) ! 0)) :: u32)" for x
    unfolding table_0 by (metis bit.xor_left_self)
  then show ?thesis using assms by (simp add: GetRandom_def Let_def)
qed

theorem random_width_witness:
  "fst (GetRandom (NetRandomInit :: 32 word list) 7) \<noteq> fst (GetRandom (NetRandomInit :: 64 word list) 7)"
  using random_width [of 7] by simp

end
