(* ===== verification/PoolAllocator.thy ===== *)
theory PoolAllocator
  imports StormPrelude
begin

text \<open>
  \<^verbatim>\<open>NetPoolAllocator.h\<close>: objects of one type in blocks that are never given back, with the free
  places in a list that runs through the places themselves.

  A place is a block and the number of the element in it. A cell of memory holds an \<^verbatim>\<open>Elem\<close> with its
  \<^verbatim>\<open>m_Next\<close> or an object; to read one where the other is, or to destroy an object twice, is \<open>Undefined\<close>.
  \<^verbatim>\<open>malloc\<close> is an argument, the number of the block it returns, or \<open>None\<close> for the null pointer. \<^verbatim>\<open>assert\<close>
  ends a debug build only. \<^verbatim>\<open>m_Allocated\<close> is a C++ \<^verbatim>\<open>int\<close>; the model does not bound it (\<open>2 ^ 31\<close> objects in one pool).
\<close>

section \<open>Memory\<close>

type_synonym place = "nat \<times> nat"

datatype 't cell = Elem (m_Next: "place option") | Obj 't

record 't memory =
  mBlock :: "nat \<Rightarrow> nat option option"
  mCell :: "place \<Rightarrow> 't cell option"

record NetPoolAllocator =
  m_FirstBlock :: "nat option"
  m_Current :: "place option"
  m_Allocated :: int

definition NetPoolAllocator_init :: NetPoolAllocator where
  "NetPoolAllocator_init = \<lparr>m_FirstBlock = None, m_Current = None, m_Allocated = 0\<rparr>"

section \<open>Operations\<close>

definition grow_elem :: "nat \<Rightarrow> nat \<Rightarrow> place option \<times> 't memory \<Rightarrow> place option \<times> 't memory" where
  "grow_elem block index = (\<lambda>(cur, m).
     (Some (block, index), m\<lparr>mCell := (mCell m)((block, index) \<mapsto> Elem cur)\<rparr>))"

text \<open>\<open>malloc\<close> is what \<^verbatim>\<open>malloc\<close> returns if it is called; the result is not checked.\<close>

definition Pool_Grow ::
    "nat \<Rightarrow> nat option \<Rightarrow> NetPoolAllocator \<Rightarrow> 't memory \<Rightarrow> (NetPoolAllocator \<times> 't memory) result" where
  "Pool_Grow kElemsPerBlock malloc p m =
     (case malloc of
        None \<Rightarrow> Inl Undefined
      | Some block \<Rightarrow>
          let m = m\<lparr>mBlock := (mBlock m)(block \<mapsto> m_FirstBlock p)\<rparr>;
              (cur, m) = fold (grow_elem block) [0..<kElemsPerBlock] (m_Current p, m)
          in Inr (p\<lparr>m_FirstBlock := Some block, m_Current := cur\<rparr>, m))"

definition Allocate ::
    "nat \<Rightarrow> nat option \<Rightarrow> 't \<Rightarrow> NetPoolAllocator \<Rightarrow> 't memory \<Rightarrow> (place \<times> NetPoolAllocator \<times> 't memory) result" where
  "Allocate kElemsPerBlock malloc new_T p m =
     ebind (if m_Current p = None then Pool_Grow kElemsPerBlock malloc p m else Inr (p, m)) (\<lambda>(p, m).
      case m_Current p of
        None \<Rightarrow> Inl Undefined
      | Some ptr \<Rightarrow>
          (case mCell m ptr of
             Some (Elem nx) \<Rightarrow>
               Inr (ptr, p\<lparr>m_Current := nx, m_Allocated := m_Allocated p + 1\<rparr>,
                    m\<lparr>mCell := (mCell m)(ptr \<mapsto> Obj new_T)\<rparr>)
           | _ \<Rightarrow> Inl Undefined))"

definition Deallocate ::
    "bool \<Rightarrow> place \<Rightarrow> NetPoolAllocator \<Rightarrow> 't memory \<Rightarrow> (NetPoolAllocator \<times> 't memory) result" where
  "Deallocate dbg t p m =
     (case mCell m t of
        Some (Obj _) \<Rightarrow>
          let m = m\<lparr>mCell := (mCell m)(t \<mapsto> Elem (m_Current p))\<rparr>;
              p = p\<lparr>m_Allocated := m_Allocated p - 1\<rparr>
          in if dbg \<and> m_Allocated p < 0 then Inl AssertionFailed
             else Inr (p\<lparr>m_Current := Some t\<rparr>, m)
      | _ \<Rightarrow> Inl Undefined)"

definition free_block :: "nat \<Rightarrow> 't memory \<Rightarrow> 't memory" where
  "free_block block m =
     m\<lparr>mBlock := (mBlock m)(block := None), mCell := (\<lambda>a. if fst a = block then None else mCell m a)\<rparr>"

text \<open>The loop runs as long as there is a block; a chain of blocks in a circle would be freed twice.\<close>

partial_function (option) destroy_blocks :: "nat option \<Rightarrow> 't memory \<Rightarrow> 't memory result option" where
  "destroy_blocks first m =
     (case first of
        None \<Rightarrow> Some (Inr m)
      | Some prev \<Rightarrow>
          (case mBlock m prev of
             None \<Rightarrow> Some (Inl Undefined)
           | Some next_block \<Rightarrow> destroy_blocks next_block (free_block prev m)))"

definition DestroyAllBlocks ::
    "bool \<Rightarrow> NetPoolAllocator \<Rightarrow> 't memory \<Rightarrow> (NetPoolAllocator \<times> 't memory) result option" where
  "DestroyAllBlocks dbg p m =
     (if dbg \<and> m_Allocated p \<noteq> 0 then Some (Inl AssertionFailed)
      else map_option (map_sum id (\<lambda>m. (p\<lparr>m_FirstBlock := None, m_Current := None\<rparr>, m)))
             (destroy_blocks (m_FirstBlock p) m))"

definition NetPoolAllocator_move :: "NetPoolAllocator \<Rightarrow> NetPoolAllocator \<times> NetPoolAllocator" where
  "NetPoolAllocator_move rhs = (rhs, rhs\<lparr>m_FirstBlock := None, m_Current := None\<rparr>)"

definition NetPoolAllocator_move_assign ::
    "bool \<Rightarrow> NetPoolAllocator \<Rightarrow> NetPoolAllocator \<Rightarrow> 't memory
       \<Rightarrow> (NetPoolAllocator \<times> NetPoolAllocator \<times> 't memory) result option" where
  "NetPoolAllocator_move_assign dbg rhs p m =
     map_option (map_sum id (\<lambda>(_, m). (rhs, rhs\<lparr>m_FirstBlock := None, m_Current := None\<rparr>, m)))
       (DestroyAllBlocks dbg p m)"

section \<open>The abstract allocator\<close>

text \<open>What the application sees: the places in use and what is in them.\<close>

fun free_list :: "'t memory \<Rightarrow> place option \<Rightarrow> place list \<Rightarrow> bool" where
  "free_list m cur [] \<longleftrightarrow> cur = None"
| "free_list m cur (a # as) \<longleftrightarrow> cur = Some a \<and> (\<exists>nx. mCell m a = Some (Elem nx) \<and> free_list m nx as)"

fun block_list :: "'t memory \<Rightarrow> nat option \<Rightarrow> nat list \<Rightarrow> bool" where
  "block_list m first [] \<longleftrightarrow> first = None"
| "block_list m first (b # bs) \<longleftrightarrow> first = Some b \<and> (\<exists>nx. mBlock m b = Some nx \<and> block_list m nx bs)"

definition pool_holds ::
    "nat \<Rightarrow> NetPoolAllocator \<Rightarrow> 't memory \<Rightarrow> place list \<Rightarrow> nat list \<Rightarrow> (place \<rightharpoonup> 't) \<Rightarrow> bool" where
  "pool_holds k p m as bs objs \<longleftrightarrow>
     free_list m (m_Current p) as \<and> distinct as \<and> block_list m (m_FirstBlock p) bs \<and> distinct bs
     \<and> set as \<union> dom objs = set bs \<times> {..<k} \<and> set as \<inter> dom objs = {}
     \<and> (\<forall>a x. objs a = Some x \<longrightarrow> mCell m a = Some (Obj x))
     \<and> m_Allocated p = int (card (dom objs))"

lemma free_list_cong:
  "free_list m cur as \<Longrightarrow> (\<And>a. a \<in> set as \<Longrightarrow> mCell m' a = mCell m a) \<Longrightarrow> free_list m' cur as"
  by (induction as arbitrary: cur) auto

lemma block_list_cong:
  "block_list m first bs \<Longrightarrow> (\<And>b. b \<in> set bs \<Longrightarrow> mBlock m' b = mBlock m b) \<Longrightarrow> block_list m' first bs"
  by (induction bs arbitrary: first) auto

lemma block_list_live: "block_list m first bs \<Longrightarrow> b \<in> set bs \<Longrightarrow> mBlock m b \<noteq> None"
  by (induction bs arbitrary: first) auto

lemma grow_elems:
  assumes "free_list m cur as" "\<forall>a\<in>set as. fst a \<noteq> block"
  shows "case fold (grow_elem block) [0..<k] (cur, m) of (cur', m') \<Rightarrow>
    free_list m' cur' (map (Pair block) (rev [0..<k]) @ as)
    \<and> mBlock m' = mBlock m \<and> (\<forall>a. fst a \<noteq> block \<longrightarrow> mCell m' a = mCell m a)"
proof (induction k)
  case 0
  then show ?case using assms by simp
next
  case (Suc k)
  obtain cur1 m1 where 1: "fold (grow_elem block) [0..<k] (cur, m) = (cur1, m1)" by fastforce
  have fl: "free_list m1 cur1 (map (Pair block) (rev [0..<k]) @ as)" using Suc 1 by simp
  have "free_list (m1\<lparr>mCell := (mCell m1)((block, k) \<mapsto> Elem cur1)\<rparr>) cur1 (map (Pair block) (rev [0..<k]) @ as)"
    by (rule free_list_cong [OF fl]) (use assms(2) in auto)
  moreover have "fold (grow_elem block) [0..<Suc k] (cur, m)
      = (Some (block, k), m1\<lparr>mCell := (mCell m1)((block, k) \<mapsto> Elem cur1)\<rparr>)"
    using 1 by (simp add: grow_elem_def)
  ultimately show ?case using Suc 1 by auto
qed

lemma pool_holdsD:
  assumes "pool_holds k p m as bs objs"
  shows "free_list m (m_Current p) as" "distinct as" "block_list m (m_FirstBlock p) bs" "distinct bs"
    "set as \<union> dom objs = set bs \<times> {..<k}" "set as \<inter> dom objs = {}"
    "\<And>a x. objs a = Some x \<Longrightarrow> mCell m a = Some (Obj x)" "m_Allocated p = int (card (dom objs))"
    "finite (dom objs)"
proof -
  show "free_list m (m_Current p) as" "distinct as" "block_list m (m_FirstBlock p) bs" "distinct bs"
    "set as \<union> dom objs = set bs \<times> {..<k}" "set as \<inter> dom objs = {}"
    "\<And>a x. objs a = Some x \<Longrightarrow> mCell m a = Some (Obj x)" "m_Allocated p = int (card (dom objs))"
    using assms unfolding pool_holds_def by blast+
  then show "finite (dom objs)" by (metis finite_Un finite_cartesian_product finite_lessThan finite_set)
qed

lemma pool_holdsI:
  assumes "free_list m (m_Current p) as" "distinct as" "block_list m (m_FirstBlock p) bs" "distinct bs"
    "set as \<union> dom objs = set bs \<times> {..<k}" "set as \<inter> dom objs = {}"
    "\<And>a x. objs a = Some x \<Longrightarrow> mCell m a = Some (Obj x)" "m_Allocated p = int (card (dom objs))"
  shows "pool_holds k p m as bs objs"
  using assms unfolding pool_holds_def by blast


section \<open>Refinement\<close>

lemma Grow_holds:
  assumes h: "pool_holds k p m as bs objs" and none: "m_Current p = None" and fresh: "mBlock m block = None"
  shows "\<exists>p' m'. Pool_Grow k (Some block) p m = Inr (p', m')
    \<and> pool_holds k p' m' (map (Pair block) (rev [0..<k])) (block # bs) objs"
proof -
  note d = pool_holdsD [OF h]
  define m1 where "m1 = m\<lparr>mBlock := (mBlock m)(block \<mapsto> m_FirstBlock p)\<rparr>"
  obtain cur m2 where f: "fold (grow_elem block) [0..<k] (None, m1) = (cur, m2)" by fastforce
  have as: "as = []" using d(1) none by (cases as) auto
  have nb: "block \<notin> set bs" using block_list_live [OF d(3)] fresh by blast
  have g: "free_list m2 cur (map (Pair block) (rev [0..<k]))" "mBlock m2 = mBlock m1"
      "\<And>a. fst a \<noteq> block \<Longrightarrow> mCell m2 a = mCell m a"
    using grow_elems [of m1 None "[]" block k] f by (auto simp: m1_def)
  let ?p = "p\<lparr>m_FirstBlock := Some block, m_Current := cur\<rparr>"
  have new: "set (map (Pair block) (rev [0..<k])) = {block} \<times> {..<k}" by auto
  have dom: "dom objs = set bs \<times> {..<k}" using d(5) as by simp
  have "pool_holds k ?p m2 (map (Pair block) (rev [0..<k])) (block # bs) objs"
  proof (rule pool_holdsI)
    show "free_list m2 (m_Current ?p) (map (Pair block) (rev [0..<k]))" using g(1) by simp
    show "distinct (map (Pair block) (rev [0..<k]))" by (simp add: distinct_map inj_on_def)
    have "block_list m2 (m_FirstBlock p) bs"
      by (rule block_list_cong [OF d(3)]) (use nb in \<open>auto simp: g(2) m1_def\<close>)
    then show "block_list m2 (m_FirstBlock ?p) (block # bs)" by (simp add: g(2) m1_def)
    show "distinct (block # bs)" using nb d(4) by simp
    show "set (map (Pair block) (rev [0..<k])) \<union> dom objs = set (block # bs) \<times> {..<k}"
      unfolding new dom by auto
    show "set (map (Pair block) (rev [0..<k])) \<inter> dom objs = {}" unfolding new dom using nb by auto
    show "mCell m2 a = Some (Obj x)" if x: "objs a = Some x" for a x
    proof -
      have "fst a \<noteq> block" using domI [of objs, OF x] dom nb by auto
      then show ?thesis using g(3) d(7) [OF x] by simp
    qed
    show "m_Allocated ?p = int (card (dom objs))" using d(8) by simp
  qed
  moreover have "Pool_Grow k (Some block) p m = Inr (?p, m2)" using none f by (simp add: Pool_Grow_def Let_def flip: m1_def)
  ultimately show ?thesis by blast
qed

definition take_free :: "'t \<Rightarrow> NetPoolAllocator \<Rightarrow> 't memory \<Rightarrow> (place \<times> NetPoolAllocator \<times> 't memory) result" where
  "take_free x p m = (case m_Current p of None \<Rightarrow> Inl Undefined
     | Some ptr \<Rightarrow> (case mCell m ptr of
          Some (Elem nx) \<Rightarrow> Inr (ptr, p\<lparr>m_Current := nx, m_Allocated := m_Allocated p + 1\<rparr>,
              m\<lparr>mCell := (mCell m)(ptr \<mapsto> Obj x)\<rparr>)
        | _ \<Rightarrow> Inl Undefined))"

lemma take_free_holds:
  assumes h: "pool_holds k p m (a # as) bs objs"
  shows "\<exists>p' m'. take_free x p m = Inr (a, p', m') \<and> objs a = None \<and> pool_holds k p' m' as bs (objs(a \<mapsto> x))"
proof -
  note d = pool_holdsD [OF h]
  obtain nx where nx: "m_Current p = Some a" "mCell m a = Some (Elem nx)" "free_list m nx as"
    using d(1) by auto
  have oa: "a \<notin> dom objs" "a \<notin> set as" using d(2,6) by auto
  let ?m = "m\<lparr>mCell := (mCell m)(a \<mapsto> Obj x)\<rparr>"
  let ?p = "p\<lparr>m_Current := nx, m_Allocated := m_Allocated p + 1\<rparr>"
  have "pool_holds k ?p ?m as bs (objs(a \<mapsto> x))"
  proof (rule pool_holdsI)
    have "free_list ?m nx as" by (rule free_list_cong [OF nx(3)]) (use oa(2) in auto)
    then show "free_list ?m (m_Current ?p) as" by simp
    have "block_list ?m (m_FirstBlock p) bs" by (rule block_list_cong [OF d(3)]) simp
    then show "block_list ?m (m_FirstBlock ?p) bs" by simp
    show "set as \<union> dom (objs(a \<mapsto> x)) = set bs \<times> {..<k}" using d(5) by auto
    show "set as \<inter> dom (objs(a \<mapsto> x)) = {}" using d(6) oa by auto
    show "mCell ?m c = Some (Obj y)" if "(objs(a \<mapsto> x)) c = Some y" for c y
      using that d(7) [of c y] by (cases "c = a") simp_all
    show "m_Allocated ?p = int (card (dom (objs(a \<mapsto> x))))" using d(8,9) oa by simp
  qed (use d in auto)
  moreover have "take_free x p m = Inr (a, ?p, ?m)" using nx by (simp add: take_free_def)
  moreover have "objs a = None" using oa(1) by (simp add: domIff)
  ultimately show ?thesis by blast
qed

lemma Allocate_holds:
  assumes h: "pool_holds k p m as bs objs" and k: "0 < k"
    and fresh: "\<And>b. block = Some b \<Longrightarrow> mBlock m b = None" and room: "m_Current p \<noteq> None \<or> block \<noteq> None"
  shows "\<exists>a p' m' as' bs'. Allocate k block x p m = Inr (a, p', m') \<and> objs a = None
    \<and> pool_holds k p' m' as' bs' (objs(a \<mapsto> x))"
proof (cases as)
  case (Cons a as')
  then have "m_Current p = Some a" using pool_holdsD(1) [OF h] by simp
  then have "Allocate k block x p m = take_free x p m" by (simp add: Allocate_def take_free_def)
  moreover obtain p' m' where "take_free x p m = Inr (a, p', m')" "objs a = None"
      "pool_holds k p' m' as' bs (objs(a \<mapsto> x))"
    using take_free_holds [of k p m a as' bs objs x] h Cons by blast
  ultimately show ?thesis by metis
next
  case Nil
  then have none: "m_Current p = None" using pool_holdsD(1) [OF h] by simp
  then obtain b where b: "block = Some b" using room by blast
  obtain p1 m1 where g: "Pool_Grow k (Some b) p m = Inr (p1, m1)"
      "pool_holds k p1 m1 (map (Pair b) (rev [0..<k])) (b # bs) objs"
    using Grow_holds [OF h none fresh [OF b]] by blast
  obtain i js where "rev [0..<k] = i # js" using k by (cases "rev [0..<k]") auto
  then have "pool_holds k p1 m1 ((b, i) # map (Pair b) js) (b # bs) objs" using g(2) by simp
  then obtain p' m' where "take_free x p1 m1 = Inr ((b, i), p', m')" "objs (b, i) = None"
      "pool_holds k p' m' (map (Pair b) js) (b # bs) (objs((b, i) \<mapsto> x))"
    using take_free_holds [of k p1 m1 "(b, i)" _ "b # bs" objs x] by blast
  moreover have "Allocate k block x p m = take_free x p1 m1" using none g(1) b by (simp add: Allocate_def take_free_def)
  ultimately show ?thesis by metis
qed

text \<open>Where a block is needed and there is none, the null pointer is written to.\<close>

lemma Allocate_null: "m_Current p = None \<Longrightarrow> Allocate k None x p m = Inl Undefined"
  by (simp add: Allocate_def Pool_Grow_def)

lemma Deallocate_holds:
  assumes h: "pool_holds k p m as bs objs" and x: "objs a = Some x"
  shows "\<exists>p' m'. Deallocate dbg a p m = Inr (p', m') \<and> pool_holds k p' m' (a # as) bs (objs(a := None))"
proof -
  note d = pool_holdsD [OF h]
  have ad: "a \<in> dom objs" "a \<notin> set as" using x d(6) by auto
  have c: "card (dom objs) = Suc (card (dom objs - {a}))" using d(9) ad(1) by (rule card.remove)
  let ?m = "m\<lparr>mCell := (mCell m)(a \<mapsto> Elem (m_Current p))\<rparr>"
  let ?p = "p\<lparr>m_Allocated := m_Allocated p - 1, m_Current := Some a\<rparr>"
  have "pool_holds k ?p ?m (a # as) bs (objs(a := None))"
  proof (rule pool_holdsI)
    have "free_list ?m (m_Current p) as" by (rule free_list_cong [OF d(1)]) (use ad in auto)
    then show "free_list ?m (m_Current ?p) (a # as)" by simp
    have "block_list ?m (m_FirstBlock p) bs" by (rule block_list_cong [OF d(3)]) simp
    then show "block_list ?m (m_FirstBlock ?p) bs" by simp
    show "set (a # as) \<union> dom (objs(a := None)) = set bs \<times> {..<k}" using d(5) ad(1) by auto
    show "set (a # as) \<inter> dom (objs(a := None)) = {}" using d(6) by auto
    show "mCell ?m c = Some (Obj y)" if "(objs(a := None)) c = Some y" for c y
      using that d(7) [of c y] by (cases "c = a") simp_all
    show "m_Allocated ?p = int (card (dom (objs(a := None))))" using d(8) c by simp
  qed (use d ad in auto)
  moreover have "Deallocate dbg a p m = Inr (?p, ?m)"
    using d(7) [OF x] d(8) c by (simp add: Deallocate_def Let_def)
  ultimately show ?thesis by blast
qed

lemma destroy_blocks_all:
  "block_list m first bs \<Longrightarrow> distinct bs \<Longrightarrow>
    \<exists>m'. destroy_blocks first m = Some (Inr m') \<and> (\<forall>b. mBlock m' b = (if b \<in> set bs then None else mBlock m b))"
proof (induction bs arbitrary: first m)
  case Nil
  then show ?case by (simp add: destroy_blocks.simps)
next
  case (Cons b bs)
  then obtain nx where nx: "first = Some b" "mBlock m b = Some nx" "block_list m nx bs" by auto
  have "block_list (free_block b m) nx bs"
    using Cons.prems by (intro block_list_cong [OF nx(3)]) (auto simp: free_block_def)
  then obtain m' where m': "destroy_blocks nx (free_block b m) = Some (Inr m')"
      "\<forall>c. mBlock m' c = (if c \<in> set bs then None else mBlock (free_block b m) c)"
    using Cons.IH [of "free_block b m" nx] Cons.prems by auto
  moreover have "destroy_blocks first m = Some (Inr m')"
    using m'(1) nx by (simp add: destroy_blocks.simps [of "Some b"])
  moreover have "\<forall>c. mBlock m' c = (if c \<in> set (b # bs) then None else mBlock m c)"
    using m'(2) by (auto simp: free_block_def)
  ultimately show ?case by blast
qed


section \<open>Every use of the allocator\<close>

text \<open>
  The application allocates, writes to objects it holds and gives them back; \<open>k\<close> is \<^verbatim>\<open>kElemsPerBlock\<close>, and
  \<^verbatim>\<open>malloc\<close> returns any block that is not in use, or fails where no block is needed.
\<close>

inductive pool_step ::
    "nat \<Rightarrow> NetPoolAllocator \<times> 't memory \<times> (place \<rightharpoonup> 't) \<Rightarrow> NetPoolAllocator \<times> 't memory \<times> (place \<rightharpoonup> 't) \<Rightarrow> bool"
    for k where
  alloc: "\<forall>b. block = Some b \<longrightarrow> mBlock m b = None \<Longrightarrow> Allocate k block x p m = Inr (a, p', m') \<Longrightarrow>
    pool_step k (p, m, objs) (p', m', objs(a \<mapsto> x))"
| update: "objs a \<noteq> None \<Longrightarrow>
    pool_step k (p, m, objs) (p, m\<lparr>mCell := (mCell m)(a \<mapsto> Obj x)\<rparr>, objs(a \<mapsto> x))"
| dealloc: "objs a \<noteq> None \<Longrightarrow> Deallocate dbg a p m = Inr (p', m') \<Longrightarrow>
    pool_step k (p, m, objs) (p', m', objs(a := None))"

inductive_cases pool_stepE: "pool_step k s s'"

inductive pool_reaches ::
    "nat \<Rightarrow> NetPoolAllocator \<times> 't memory \<times> (place \<rightharpoonup> 't) \<Rightarrow> NetPoolAllocator \<times> 't memory \<times> (place \<rightharpoonup> 't) \<Rightarrow> bool"
    for k where
  start: "pool_reaches k s s"
| step: "pool_reaches k s s' \<Longrightarrow> pool_step k s' s'' \<Longrightarrow> pool_reaches k s s''"

lemma pool_step_holds:
  assumes k: "0 < k" and s: "pool_step k (p, m, objs) (p', m', objs')" and h: "pool_holds k p m as bs objs"
  shows "\<exists>as' bs'. pool_holds k p' m' as' bs' objs'"
  using s
proof (cases rule: pool_step.cases)
  case (alloc block x a)
  then have "m_Current p \<noteq> None \<or> block \<noteq> None" using Allocate_null [of p k x m] by (cases block; cases "m_Current p") auto
  with alloc show ?thesis using Allocate_holds [OF h k, of block x] by auto
next
  case (dealloc a dbg)
  then show ?thesis using Deallocate_holds [OF h, of a _ dbg] by auto
next
  case (update a x)
  note d = pool_holdsD [OF h]
  have a: "a \<in> dom objs" "a \<notin> set as" using update d(6) by auto
  let ?m = "m\<lparr>mCell := (mCell m)(a \<mapsto> Obj x)\<rparr>"
  have "pool_holds k p ?m as bs (objs(a \<mapsto> x))"
  proof (rule pool_holdsI)
    show "free_list ?m (m_Current p) as" by (rule free_list_cong [OF d(1)]) (use a in auto)
    show "block_list ?m (m_FirstBlock p) bs" by (rule block_list_cong [OF d(3)]) simp
    show "set as \<union> dom (objs(a \<mapsto> x)) = set bs \<times> {..<k}" using d(5) a by auto
    show "set as \<inter> dom (objs(a \<mapsto> x)) = {}" using d(6) a by auto
    show "mCell ?m c = Some (Obj y)" if "(objs(a \<mapsto> x)) c = Some y" for c y
      using that d(7) [of c y] by (cases "c = a") simp_all
    show "m_Allocated p = int (card (dom (objs(a \<mapsto> x))))" using d(8) a by (simp add: insert_absorb)
  qed (use d in auto)
  then show ?thesis using update by auto
qed

lemma pool_init_holds: "pool_holds k NetPoolAllocator_init m [] [] Map.empty"
  by (simp add: pool_holds_def NetPoolAllocator_init_def)

lemma pool_reaches_holds:
  assumes "pool_reaches k (NetPoolAllocator_init, m0, Map.empty) (p, m, objs)" "0 < k"
  shows "\<exists>as bs. pool_holds k p m as bs objs"
proof -
  have "case s' of (p, m, objs) \<Rightarrow> \<exists>as bs. pool_holds k p m as bs objs"
    if "pool_reaches k s s'" "case s of (p, m, objs) \<Rightarrow> \<exists>as bs. pool_holds k p m as bs objs" for s s'
    using that
  proof (induction rule: pool_reaches.induct)
    case (step s s' s'')
    then show ?case using pool_step_holds [OF assms(2)] by (cases s'; cases s'') fastforce
  qed
  from this [OF assms(1)] show ?thesis using pool_init_holds by fastforce
qed

text \<open>C26: however the application uses the allocator, in every state it reaches: each object it holds is in
  memory as it left it; the next allocation, if a place is free or \<^verbatim>\<open>malloc\<close> has a block, returns a place that no
  object is in, and leaves the others alone; every object can be given back, and the check on the count holds; and once there is none, the
  destruction ends, having freed every block the allocator ever took and no other.\<close>

theorem pool_safe:
  assumes "pool_reaches k (NetPoolAllocator_init, m0, Map.empty) (p, m, objs)" "0 < k"
  shows "(\<forall>a x. objs a = Some x \<longrightarrow> mCell m a = Some (Obj x))
    \<and> ((case block of None \<Rightarrow> m_Current p \<noteq> None | Some b \<Rightarrow> mBlock m b = None) \<longrightarrow> (\<exists>a p' m'. Allocate k block x p m = Inr (a, p', m') \<and> objs a = None
          \<and> (\<forall>c y. objs c = Some y \<longrightarrow> mCell m' c = Some (Obj y))))
    \<and> (\<forall>a. objs a \<noteq> None \<longrightarrow> (\<exists>p' m'. Deallocate dbg a p m = Inr (p', m')))
    \<and> (objs = Map.empty \<longrightarrow> (\<exists>p' m' bs. DestroyAllBlocks dbg p m = Some (Inr (p', m'))
          \<and> block_list m (m_FirstBlock p) bs
          \<and> (\<forall>b. mBlock m' b = (if b \<in> set bs then None else mBlock m b))))"
proof -
  obtain as bs where h: "pool_holds k p m as bs objs" using pool_reaches_holds [OF assms] by blast
  note d = pool_holdsD [OF h]
  have 1: "\<exists>a p' m'. Allocate k block x p m = Inr (a, p', m') \<and> objs a = None
          \<and> (\<forall>c y. objs c = Some y \<longrightarrow> mCell m' c = Some (Obj y))" if fresh: "case block of None \<Rightarrow> m_Current p \<noteq> None | Some b \<Rightarrow> mBlock m b = None"
  proof -
    obtain a p' m' as' bs' where a: "Allocate k block x p m = Inr (a, p', m')" "objs a = None"
        "pool_holds k p' m' as' bs' (objs(a \<mapsto> x))"
      using Allocate_holds [OF h assms(2), of block x] fresh by (cases block) auto
    have "mCell m' c = Some (Obj y)" if "objs c = Some y" for c y
      using pool_holdsD(7) [OF a(3), of c y] that a(2) by (cases "c = a") auto
    then show ?thesis using a by blast
  qed
  have 2: "\<exists>p' m'. Deallocate dbg a p m = Inr (p', m')" if "objs a \<noteq> None" for a
    using Deallocate_holds [OF h, of a _ dbg] that by blast
  have 3: "\<exists>p' m' bs. DestroyAllBlocks dbg p m = Some (Inr (p', m')) \<and> block_list m (m_FirstBlock p) bs
      \<and> (\<forall>b. mBlock m' b = (if b \<in> set bs then None else mBlock m b))" if e: "objs = Map.empty"
  proof -
    obtain m' where "destroy_blocks (m_FirstBlock p) m = Some (Inr m')"
        "\<forall>b. mBlock m' b = (if b \<in> set bs then None else mBlock m b)"
      using destroy_blocks_all [OF d(3,4)] by blast
    moreover have "m_Allocated p = 0" using d(8) e by simp
    ultimately show ?thesis using d(3) by (auto simp: DestroyAllBlocks_def)
  qed
  show ?thesis using d(7) 1 2 3 by blast
qed

theorem pool_safe_witness:
  "\<exists>p m objs. pool_reaches 2 (NetPoolAllocator_init, \<lparr>mBlock = Map.empty, mCell = Map.empty\<rparr>, Map.empty) (p, m, objs)
    \<and> objs (0, 1) = Some (7 :: nat) \<and> mCell m (0, 1) = Some (Obj 7) \<and> (\<exists>p' m'. Deallocate True (0, 1) p m = Inr (p', m'))"
proof -
  let ?m0 = "\<lparr>mBlock = Map.empty, mCell = Map.empty\<rparr> :: nat memory"
  obtain p m where a: "Allocate 2 (Some 0) 7 NetPoolAllocator_init ?m0 = Inr ((0, 1), p, m)"
    by (simp add: Allocate_def Pool_Grow_def NetPoolAllocator_init_def grow_elem_def upt_rec)
  have "pool_step 2 (NetPoolAllocator_init, ?m0, Map.empty) (p, m, Map.empty((0, 1) \<mapsto> 7))"
    by (rule pool_step.alloc [OF _ a]) simp
  then have r: "pool_reaches 2 (NetPoolAllocator_init, ?m0, Map.empty) (p, m, Map.empty((0, 1) \<mapsto> 7))"
    by (rule pool_reaches.step [OF pool_reaches.start])
  show ?thesis
    using r pool_safe [OF r, of "Some 0" 7 True] by (intro exI [of _ p] exI [of _ m] exI [of _ "Map.empty((0, 1) \<mapsto> 7)"]) simp
qed

text \<open>
  A moved-from allocator keeps its count: its destruction, with nothing left to free, fails the assertion
  of a debug build if objects were in use.
\<close>

lemma moved_from_asserts:
  assumes "pool_holds k p m as bs objs" "objs \<noteq> Map.empty"
  shows "DestroyAllBlocks True (snd (NetPoolAllocator_move p)) m = Some (Inl AssertionFailed)"
  using pool_holdsD(8,9) [OF assms(1)] assms(2)
  by (simp add: DestroyAllBlocks_def NetPoolAllocator_move_def)

end
