(* ===== verification/Dependent.thy ===== *)
theory Dependent
  imports Serialize
begin

text \<open>
  \<^verbatim>\<open>NetReflectionDependent.h\<close> and the parent objects of \<^verbatim>\<open>NetBitWriter.h\<close> and \<^verbatim>\<open>NetBitReader.h\<close>: a value
  whose encoding depends on the struct it is a member of.

  Writer and reader carry a pointer to the struct whose members are being visited, and a function that
  casts it to the type a member asks for; before the first struct that function is an uninitialised
  pointer. An object \<open>'o\<close> is what a pointer leads to when it is read, a struct the list of its members;
  \<open>cast\<close> is the external \<^verbatim>\<open>StormReflTypeInfo<T>::CastFromTypeIdHash\<close>. While a struct is deserialized its
  members see it half read.
\<close>

section \<open>Parents\<close>

type_synonym 'o caster = "nat \<Rightarrow> 'o option \<Rightarrow> 'o option"

record 'o parent_info =
  m_ParentObj :: "'o option"
  m_ParentObjectCast :: "'o caster option"

definition parent_init :: "'o parent_info" where
  "parent_init = \<lparr>m_ParentObj = None, m_ParentObjectCast = None\<rparr>"

definition GetParentObjectAs :: "nat \<Rightarrow> 'o parent_info \<Rightarrow> 'o option result" where
  "GetParentObjectAs type_id p =
     (case m_ParentObjectCast p of
        None \<Rightarrow> Inl Undefined
      | Some cast \<Rightarrow> Inr (cast type_id (m_ParentObj p)))"

definition SetParentObject :: "'o caster \<Rightarrow> 'o \<Rightarrow> 'o parent_info \<Rightarrow> 'o parent_info" where
  "SetParentObject cast t p = p\<lparr>m_ParentObj := Some t, m_ParentObjectCast := Some cast\<rparr>"

text \<open>The visitors of the members, with the parent they see, and the struct serializers around them,
  which put the outer parent back.\<close>

record 'f member =
  mStatic :: bool
  mSer :: "'f list parent_info \<Rightarrow> 'f serializer"
  mDeser :: "'f list parent_info \<Rightarrow> 'f deserializer"

fun serialize_members :: "'f member list \<Rightarrow> 'f list parent_info \<Rightarrow> 'f list serializer" where
  "serialize_members (f # fs) p (v # vs) w =
     (if mStatic f then serialize_members fs p vs w
      else ebind (mSer f p v w) (serialize_members fs p vs))"
| "serialize_members fs p vs w = Inr w"

definition NetSerializeType_parent ::
    "'f list caster \<Rightarrow> 'f member list \<Rightarrow> 'f list \<Rightarrow> 'f list parent_info \<Rightarrow> NetBitWriterVector
       \<Rightarrow> ('f list parent_info \<times> NetBitWriterVector) result" where
  "NetSerializeType_parent cast fs val p w =
     ebind (serialize_members fs (SetParentObject cast val p) val w) (\<lambda>w. Inr (p, w))"

text \<open>\<open>done\<close> are the members already visited.\<close>

fun deserialize_members ::
    "'f list caster \<Rightarrow> 'f member list \<Rightarrow> 'f list parent_info \<Rightarrow> 'f list \<Rightarrow> 'f list deserializer" where
  "deserialize_members cast (f # fs) p seen (v # vs) r =
     (if mStatic f then deserialize_members cast fs p (seen @ [v]) vs r
      else
        ebind (mDeser f (SetParentObject cast (seen @ v # vs) p) v r) (\<lambda>(v', r).
          deserialize_members cast fs p (seen @ [v']) vs r))"
| "deserialize_members cast fs p seen vs r = Inr (seen @ vs, r)"

definition NetDeserializeType_parent ::
    "'f list caster \<Rightarrow> 'f member list \<Rightarrow> 'f list \<Rightarrow> 'f list parent_info \<Rightarrow> NetBitReaderBuffer
       \<Rightarrow> ('f list \<times> 'f list parent_info \<times> NetBitReaderBuffer) result" where
  "NetDeserializeType_parent cast fs val p r =
     ebind (deserialize_members cast fs p [] val r) (\<lambda>(val, r). Inr (val, p, r))"

section \<open>Dependent values\<close>

definition NetSerializer_Dependent ::
    "nat \<Rightarrow> ('f \<Rightarrow> 'o \<Rightarrow> NetBitWriterVector \<Rightarrow> NetBitWriterVector result) \<Rightarrow> 'o parent_info \<Rightarrow> 'f serializer" where
  "NetSerializer_Dependent ParentType Serialize p val w =
     ebind (GetParentObjectAs ParentType p) (\<lambda>parent.
       case parent of None \<Rightarrow> Inl RuntimeError | Some parent \<Rightarrow> Serialize val parent w)"

definition NetDeserializer_Dependent ::
    "nat \<Rightarrow> ('f \<Rightarrow> 'o \<Rightarrow> NetBitReaderBuffer \<Rightarrow> ('f \<times> NetBitReaderBuffer) result) \<Rightarrow> 'o parent_info
       \<Rightarrow> 'f deserializer" where
  "NetDeserializer_Dependent ParentType Deserialize p val r =
     ebind (GetParentObjectAs ParentType p) (\<lambda>parent.
       case parent of None \<Rightarrow> Inl RuntimeError | Some parent \<Rightarrow> Deserialize val parent r)"

section \<open>What a member may depend on\<close>

text \<open>
  The contract of a member: its encoding may depend on the members before it, not on the later ones, of
  which the reader still has old values, and not on its own old value.
\<close>

locale member_codec =
  fixes cast :: "'f list caster"
    and ser :: "'f list parent_info \<Rightarrow> 'f serializer"
    and deser :: "'f list parent_info \<Rightarrow> 'f deserializer"
    and n :: nat
    and good :: "'f list \<Rightarrow> 'f \<Rightarrow> bool"
    and enc :: "'f list \<Rightarrow> 'f \<Rightarrow> bool list"
  assumes ser_member: "winv w \<Longrightarrow> length bef = n \<Longrightarrow> good bef v \<Longrightarrow>
      \<exists>w'. ser (SetParentObject cast (bef @ v # aft) p) v w = Inr w' \<and> wrote w w' (enc bef v)"
    and deser_member: "rinv r \<Longrightarrow> length bef = n \<Longrightarrow> good bef v \<Longrightarrow> rbits r = enc bef v @ rest \<Longrightarrow>
      \<exists>r'. deser (SetParentObject cast (bef @ v0 # aft) p) v0 r = Inr (v, r') \<and> consumed r r' (enc bef v)"

text \<open>A member that does not look at its parent, and a dependent one.\<close>

lemma plain_member:
  assumes "value_codec ser deser sent (\<lambda>_. True) enc"
  shows "member_codec cast (\<lambda>_. ser) (\<lambda>_. deser) n (\<lambda>_. sent) (\<lambda>_. enc)"
  by unfold_locales
    (use value_codec.ser_enc [OF assms] value_codec.deser_enc [OF assms] in blast)+

lemma dependent_member:
  assumes cast: "\<And>obj. length obj > n \<Longrightarrow> cast T (Some obj) = Some obj"
    and codec: "\<And>bef v0 aft. length bef = n \<Longrightarrow>
      value_codec (\<lambda>v. Serialize v (bef @ v # aft)) (\<lambda>v. Deserialize v (bef @ v # aft)) (good bef) (\<lambda>_. True) (enc bef)"
  shows "member_codec cast (NetSerializer_Dependent T Serialize) (NetDeserializer_Dependent T Deserialize) n good enc"
proof
  show "\<exists>w'. NetSerializer_Dependent T Serialize (SetParentObject cast (bef @ v # aft) p) v w = Inr w'
      \<and> wrote w w' (enc bef v)" if "winv w" "length bef = n" "good bef v" for w bef v aft p
    using value_codec.ser_enc [OF codec [OF that(2)] that(1,3), of aft] cast [of "bef @ v # aft"] that(2)
    by (simp add: NetSerializer_Dependent_def GetParentObjectAs_def SetParentObject_def)
  show "\<exists>r'. NetDeserializer_Dependent T Deserialize (SetParentObject cast (bef @ v0 # aft) p) v0 r = Inr (v, r')
      \<and> consumed r r' (enc bef v)"
    if "rinv r" "length bef = n" "good bef v" "rbits r = enc bef v @ rest" for r bef v rest v0 aft p
    using value_codec.deser_enc [OF codec [OF that(2)] that(1,3) _ that(4), of v0 aft] cast [of "bef @ v0 # aft"] that(2)
    by (simp add: NetDeserializer_Dependent_def GetParentObjectAs_def SetParentObject_def)
qed

record 'f member_spec =
  tGood :: "'f list \<Rightarrow> 'f \<Rightarrow> bool"
  tEnc :: "'f list \<Rightarrow> 'f \<Rightarrow> bool list"

fun members_ok :: "'f list caster \<Rightarrow> nat \<Rightarrow> 'f member list \<Rightarrow> 'f member_spec list \<Rightarrow> bool" where
  "members_ok cast n (f # fs) (s # ss) \<longleftrightarrow>
     \<not> mStatic f \<and> member_codec cast (mSer f) (mDeser f) n (tGood s) (tEnc s) \<and> members_ok cast (Suc n) fs ss"
| "members_ok cast n fs ss \<longleftrightarrow> fs = [] \<and> ss = []"

fun members_good :: "'f member_spec list \<Rightarrow> 'f list \<Rightarrow> 'f list \<Rightarrow> bool" where
  "members_good (s # ss) seen (v # vs) \<longleftrightarrow> tGood s seen v \<and> members_good ss (seen @ [v]) vs"
| "members_good ss seen vs \<longleftrightarrow> ss = [] \<and> vs = []"

fun dependent_enc :: "'f member_spec list \<Rightarrow> 'f list \<Rightarrow> 'f list \<Rightarrow> bool list" where
  "dependent_enc (s # ss) seen (v # vs) = tEnc s seen v @ dependent_enc ss (seen @ [v]) vs"
| "dependent_enc ss seen vs = []"

lemma serialize_members_wrote:
  "members_ok cast (length seen) fs ss \<Longrightarrow> members_good ss seen vs \<Longrightarrow> winv w \<Longrightarrow> val = seen @ vs \<Longrightarrow>
    \<exists>w'. serialize_members fs (SetParentObject cast val p) vs w = Inr w' \<and> wrote w w' (dependent_enc ss seen vs)"
proof (induction ss seen vs arbitrary: fs w rule: dependent_enc.induct [case_names more short long])
  case (more s ss seen v vs)
  obtain f fs' where fs: "fs = f # fs'" "\<not> mStatic f" "members_ok cast (Suc (length seen)) fs' ss"
      "member_codec cast (mSer f) (mDeser f) (length seen) (tGood s) (tEnc s)"
    using more.prems(1) by (cases fs) auto
  have g: "tGood s seen v" "members_good ss (seen @ [v]) vs" using more.prems(2) by auto
  obtain w1 where w1: "mSer f (SetParentObject cast val p) v w = Inr w1" "wrote w w1 (tEnc s seen v)"
    using member_codec.ser_member [OF fs(4) more.prems(3) refl g(1)] more.prems(4) by blast
  obtain w2 where "serialize_members fs' (SetParentObject cast val p) vs w1 = Inr w2"
      "wrote w1 w2 (dependent_enc ss (seen @ [v]) vs)"
    using more.IH [of fs' w1] fs(3) g(2) wrote_winv [OF w1(2)] more.prems(4) by auto
  then show ?case using fs w1 by (auto intro: wrote_trans)
next
  case (short seen vs)
  then show ?case by (cases fs; cases vs) auto
next
  case (long ss seen)
  then show ?case by (cases ss; cases fs) auto
qed

lemma deserialize_members_read:
  "members_ok cast (length seen) fs ss \<Longrightarrow> members_good ss seen vs \<Longrightarrow> rinv r \<Longrightarrow> length olds = length vs \<Longrightarrow>
    rbits r = dependent_enc ss seen vs @ rest \<Longrightarrow>
    \<exists>r'. deserialize_members cast fs p seen olds r = Inr (seen @ vs, r') \<and> consumed r r' (dependent_enc ss seen vs)"
proof (induction ss seen vs arbitrary: fs r olds rule: dependent_enc.induct [case_names more short long])
  case (more s ss seen v vs)
  obtain f fs' where fs: "fs = f # fs'" "\<not> mStatic f" "members_ok cast (Suc (length seen)) fs' ss"
      "member_codec cast (mSer f) (mDeser f) (length seen) (tGood s) (tEnc s)"
    using more.prems(1) by (cases fs) auto
  obtain u us where us: "olds = u # us" "length us = length vs" using more.prems(4) by (cases olds) auto
  have g: "tGood s seen v" "members_good ss (seen @ [v]) vs" using more.prems(2) by auto
  have rb: "rbits r = tEnc s seen v @ (dependent_enc ss (seen @ [v]) vs @ rest)" using more.prems(5) by simp
  obtain r1 where r1: "mDeser f (SetParentObject cast (seen @ u # us) p) u r = Inr (v, r1)" "consumed r r1 (tEnc s seen v)"
    using member_codec.deser_member [OF fs(4) more.prems(3) refl g(1) rb] by blast
  have "rbits r1 = dependent_enc ss (seen @ [v]) vs @ rest" using r1(2) rb by (auto dest: consumed_rest)
  then obtain r2 where "deserialize_members cast fs' p (seen @ [v]) us r1 = Inr ((seen @ [v]) @ vs, r2)"
      "consumed r1 r2 (dependent_enc ss (seen @ [v]) vs)"
    using more.IH [of fs' r1 us] fs(3) g(2) us(2) consumed_rinv [OF r1(2)] by auto
  then show ?case using fs us r1 by (auto intro: consumed_trans)
next
  case (short seen vs)
  then show ?case by (cases fs; cases vs) auto
next
  case (long ss seen)
  then show ?case by (cases ss; cases fs) auto
qed

text \<open>C27: a struct whose members may look at it while they are written and read, each at the members before
  it, is restored; the outer parent is put back on both sides.\<close>

theorem dependent_roundtrip:
  assumes "members_ok cast 0 fs ss" "members_good ss [] v" "winv w" "length old = length v"
  shows "\<exists>w' bs. NetSerializeType_parent cast fs v p w = Inr (p, w') \<and> wbits w' = wbits w @ bs
    \<and> (\<forall>q r rest. rinv r \<and> rbits r = bs @ rest \<longrightarrow>
         (\<exists>r'. NetDeserializeType_parent cast fs old q r = Inr (v, q, r') \<and> rbits r' = rest))"
proof -
  obtain w' where w': "serialize_members fs (SetParentObject cast v p) v w = Inr w'" "wrote w w' (dependent_enc ss [] v)"
    using serialize_members_wrote [of cast "[]" fs ss v w v p] assms(1-3) by auto
  have "\<exists>r'. NetDeserializeType_parent cast fs old q r = Inr (v, q, r') \<and> rbits r' = rest"
    if "rinv r \<and> rbits r = dependent_enc ss [] v @ rest" for q r rest
    using deserialize_members_read [of cast "[]" fs ss v r old rest q] that assms(1,2,4)
    by (auto simp: NetDeserializeType_parent_def dest: consumed_rest)
  with w' show ?thesis by (auto simp: NetSerializeType_parent_def wrote_wbits)
qed


section \<open>A width and a value of that width\<close>

definition sized_ser :: "nat \<Rightarrow> nat serializer" where
  "sized_ser n v w = WriteBits True (of_nat v) (int n) w"

definition sized_deser :: "nat \<Rightarrow> nat deserializer" where
  "sized_deser n v r = ebind (ReadUBits (int n) r) (\<lambda>(x, r). Inr (unat x, r))"

lemma sized_codec:
  assumes "n \<le> 63"
  shows "value_codec (sized_ser n) (sized_deser n) (\<lambda>v. v < 2 ^ n) (\<lambda>_. True) (nat_bits n)"
proof
  show "\<exists>w'. sized_ser n v w = Inr w' \<and> wrote w w' (nat_bits n v)" if "winv w" "v < 2 ^ n" for w v
    using WriteBits_nat [OF that, of True] assms by (simp add: sized_ser_def)
  show "\<exists>r'. sized_deser n v0 r = Inr (v, r') \<and> consumed r r' (nat_bits n v)"
    if "rinv r" "v < 2 ^ n" "rbits r = nat_bits n v @ rest" for r v v0 rest
    using ReadUBits_nat [OF that(1,3,2)] unat_of_nat_bound [OF that(2)] assms by (auto simp: sized_deser_def)
qed simp

definition width_member :: "nat member" where
  "width_member = \<lparr>mStatic = False, mSer = (\<lambda>_. sized_ser 6), mDeser = (\<lambda>_. sized_deser 6)\<rparr>"

definition value_member :: "nat \<Rightarrow> nat member" where
  "value_member i = \<lparr>mStatic = False,
     mSer = NetSerializer_Dependent 1 (\<lambda>v parent. sized_ser (parent ! i) v),
     mDeser = NetDeserializer_Dependent 1 (\<lambda>v parent. sized_deser (parent ! i) v)\<rparr>"

definition sized_cast :: "nat list caster" where
  "sized_cast type_id obj = (if type_id = 1 then obj else None)"

interpretation width_codec: member_codec sized_cast "mSer width_member" "mDeser width_member" 0
    "\<lambda>_ v. v < 2 ^ 6" "\<lambda>_. nat_bits 6"
  unfolding width_member_def member.select_convs by (rule plain_member [OF sized_codec]) simp

interpretation sized_value: member_codec sized_cast "mSer (value_member 0)" "mDeser (value_member 0)" 1
    "\<lambda>bef v. bef ! 0 \<le> 63 \<and> v < 2 ^ (bef ! 0)" "\<lambda>bef. nat_bits (bef ! 0)"
  unfolding value_member_def member.select_convs
proof (rule dependent_member)
  show "sized_cast 1 (Some obj) = Some obj" for obj by (simp add: sized_cast_def)
  show "value_codec (\<lambda>v. sized_ser ((bef @ v # aft) ! 0) v) (\<lambda>v. sized_deser ((bef @ v # aft) ! 0) v)
      (\<lambda>v. bef ! 0 \<le> 63 \<and> v < 2 ^ (bef ! 0)) (\<lambda>_. True) (nat_bits (bef ! 0))" if l: "length bef = 1" for bef aft
  proof -
    have "(bef @ v # aft) ! 0 = bef ! 0" for v using l by (simp add: nth_append)
    then show ?thesis
      using sized_codec [of "bef ! 0"] by (auto simp: value_codec_def)
  qed
qed

theorem dependent_roundtrip_witness:
  "\<exists>w' bs. NetSerializeType_parent sized_cast [width_member, value_member 0] [3, 5] parent_init NetBitWriterVector_init
      = Inr (parent_init, w') \<and> wbits w' = bs
    \<and> (\<forall>q r rest. rinv r \<and> rbits r = bs @ rest \<longrightarrow>
         (\<exists>r'. NetDeserializeType_parent sized_cast [width_member, value_member 0] [0, 0] q r = Inr ([3, 5], q, r')
           \<and> rbits r' = rest))"
  using dependent_roundtrip [of sized_cast "[width_member, value_member 0]"
      "[\<lparr>tGood = \<lambda>_ v. v < 2 ^ 6, tEnc = \<lambda>_. nat_bits 6\<rparr>,
        \<lparr>tGood = \<lambda>bef v. bef ! 0 \<le> 63 \<and> v < 2 ^ (bef ! 0), tEnc = \<lambda>bef. nat_bits (bef ! 0)\<rparr>]"
      "[3, 5]" NetBitWriterVector_init "[0, 0]" parent_init]
    width_codec.member_codec_axioms sized_value.member_codec_axioms
  by (simp add: width_member_def value_member_def)

text \<open>
  With the width after the value, the reader takes as many bits as the width it held before; and a
  dependent value outside of any struct calls an uninitialised pointer, one in a struct of another type
  throws.
\<close>

lemma dependent_on_later:
  "ebind (NetSerializeType_parent sized_cast [value_member 1, width_member] [5, 3] parent_init NetBitWriterVector_init)
     (\<lambda>(_, w). ebind (NetDeserializeType_parent sized_cast [value_member 1, width_member] [0, 4] parent_init
       (NetBitReaderBuffer_init (wBuffer w))) (\<lambda>(v, _). Inr v)) = Inr [13, 1]"
  by code_simp

lemma dependent_without_parent:
  "NetSerializer_Dependent T S parent_init v w = Inl Undefined"
  "cast T (Some obj) = None \<Longrightarrow> NetSerializer_Dependent T S (SetParentObject cast obj p) v w = Inl RuntimeError"
  by (simp_all add: NetSerializer_Dependent_def GetParentObjectAs_def SetParentObject_def parent_init_def)

end
