(* ===== verification/Lerp.thy ===== *)
theory Lerp
  imports ArrayList SparseLaws FixedPoint
begin

text \<open>
  \<^verbatim>\<open>NetLerp.h\<close>: interpolation between two values of a type, found by overloading as the serializers
  are. \<^verbatim>\<open>NetLerp(a, b, dst, fac)\<close> of one type is a function of its four arguments that returns the new
  \<^verbatim>\<open>dst\<close>; \<^verbatim>\<open>a\<close>, \<^verbatim>\<open>b\<close> and \<^verbatim>\<open>dst\<close> are different objects. What the floating-point operations compute is an
  argument.
\<close>

section \<open>Interpolation\<close>

type_synonym ('a, 'f) lerp = "'a \<Rightarrow> 'a \<Rightarrow> 'a \<Rightarrow> 'f \<Rightarrow> 'a result"

definition NetLerpValNumeric :: "('a \<Rightarrow> 'a \<Rightarrow> 'f \<Rightarrow> 'a) \<Rightarrow> ('a, 'f) lerp" where
  "NetLerpValNumeric blend a b dst fac = Inr (blend a b fac)"

definition NetLerpValDefault :: "('a, 'f) lerp" where
  "NetLerpValDefault a b dst fac = Inr b"

fun NetLerpVal_array :: "('a, 'f) lerp \<Rightarrow> ('a list, 'f) lerp" where
  "NetLerpVal_array lerp (x # a) (y # b) (d # dst) fac =
     ebind (lerp x y d fac) (\<lambda>d. ebind (NetLerpVal_array lerp a b dst fac) (\<lambda>dst. Inr (d # dst)))"
| "NetLerpVal_array lerp a b dst fac = Inr dst"

fun NetLerpStruct :: "('m, 'f) lerp list \<Rightarrow> ('m list, 'f) lerp" where
  "NetLerpStruct (l # ls) (x # a) (y # b) (d # dst) fac =
     ebind (l x y d fac) (\<lambda>d. ebind (NetLerpStruct ls a b dst fac) (\<lambda>dst. Inr (d # dst)))"
| "NetLerpStruct ls a b dst fac = Inr dst"

text \<open>Which of them a type without its own overload takes: the number's, the struct's or the assignment.\<close>

definition NetLerpCheckClass :: "bool \<Rightarrow> ('a, 'f) lerp \<Rightarrow> ('a, 'f) lerp" where
  "NetLerpCheckClass reflectable struct = (if reflectable then struct else NetLerpValDefault)"

definition NetLerpCheckNumeric :: "bool \<Rightarrow> bool \<Rightarrow> ('a, 'f) lerp \<Rightarrow> ('a, 'f) lerp \<Rightarrow> ('a, 'f) lerp" where
  "NetLerpCheckNumeric floating_point reflectable numeric struct =
     (if floating_point then numeric else NetLerpCheckClass reflectable struct)"

definition NetLerpVal :: "bool \<Rightarrow> bool \<Rightarrow> ('a, 'f) lerp \<Rightarrow> ('a, 'f) lerp \<Rightarrow> ('a, 'f) lerp" where
  "NetLerpVal floating_point reflectable numeric struct =
     NetLerpCheckNumeric floating_point reflectable numeric struct"

text \<open>The loop over \<^verbatim>\<open>b\<close> from \<^verbatim>\<open>index\<close> on.\<close>

function lerp_list_loop :: "nat \<Rightarrow> 'a \<Rightarrow> ('a, 'f) lerp \<Rightarrow> 'a list \<Rightarrow> 'a list \<Rightarrow> nat \<Rightarrow> 'a list \<Rightarrow> 'f \<Rightarrow> 'a list result" where
  "lerp_list_loop max_size dflt lerp a b index dst fac =
     (if index < length b then
        ebind (if index < length a then
                 ebind (EmplaceBack max_size dflt dst) (\<lambda>dst.
                 ebind (lerp (a ! index) (b ! index) (last dst) fac) (\<lambda>v.
                 Inr (dst[length dst - 1 := v])))
               else EmplaceBack max_size (b ! index) dst) (\<lambda>dst.
        lerp_list_loop max_size dflt lerp a b (Suc index) dst fac)
      else Inr dst)"
  by pat_completeness auto
termination
  by (relation "measure (\<lambda>(_, _, _, _, b, index, _, _). length b - index)") auto

declare lerp_list_loop.simps [simp del]

definition NetLerpVal_ArrayList :: "nat \<Rightarrow> 'a \<Rightarrow> ('a, 'f) lerp \<Rightarrow> ('a list, 'f) lerp" where
  "NetLerpVal_ArrayList max_size dflt lerp a b dst fac =
     lerp_list_loop max_size dflt lerp a b 0 (ArrayList_clear dst) fac"

text \<open>The loop over the elements of \<^verbatim>\<open>b\<close>, by its iterator; an iterator behind \<^verbatim>\<open>end()\<close> does not occur.\<close>

function lerp_sparse_loop ::
    "(nat \<Rightarrow> bool) \<Rightarrow> ('a, 'f) lerp \<Rightarrow> 'a NetSparseList \<Rightarrow> 'a NetSparseList \<Rightarrow> nat \<Rightarrow> 'a NetSparseList \<Rightarrow> 'f
       \<Rightarrow> 'a NetSparseList result" where
  "lerp_sparse_loop mal lerp a b itr dst fac =
     (if itr = Sparse_end b then Inr dst
      else if Sparse_end b < itr then Inl Undefined
      else
        ebind (itr_deref b itr) (\<lambda>(first, second).
        ebind (HasAt first a) (\<lambda>has.
        ebind (if has then
                 ebind (Sparse_index first a) (\<lambda>x.
                 ebind (Sparse_index first b) (\<lambda>y.
                 ebind (Sparse_EmplaceAt mal first second dst) (\<lambda>dst.
                 ebind (lerp x y second fac) (\<lambda>v. set_slot first (Live v) dst))))
               else Sparse_EmplaceAt mal first second dst) (\<lambda>dst.
        ebind (itr_inc b itr) (\<lambda>itr. lerp_sparse_loop mal lerp a b itr dst fac)))))"
  by pat_completeness auto
termination
proof (relation "measure (\<lambda>(mal, lerp, a, b, itr, dst, fac). Sparse_end b - itr)", goal_cases)
  case (2 mal lerp a b itr dst fac _ _ _ _ _ itr')
  then have "Suc itr \<le> itr'" by (auto simp: itr_inc_def dest: skip_free_ge)
  with 2 show ?case by simp
qed simp

declare lerp_sparse_loop.simps [simp del]

definition NetLerpVal_Sparse :: "(nat \<Rightarrow> bool) \<Rightarrow> ('a, 'f) lerp \<Rightarrow> ('a NetSparseList, 'f) lerp" where
  "NetLerpVal_Sparse mal lerp a b dst fac =
     ebind (Sparse_Clear dst) (\<lambda>dst. ebind (Sparse_begin b) (\<lambda>itr. lerp_sparse_loop mal lerp a b itr dst fac))"

lemma lerp_sparse_loop_alloc [alloc_rules]:
  "unless_alloc mal (lerp_sparse_loop mal lerp a b itr dst fac) (lerp_sparse_loop always lerp a b itr dst fac)"
proof (induction "Sparse_end b - itr" arbitrary: itr dst rule: less_induct)
  case less
  have later: "unless_alloc mal (lerp_sparse_loop mal lerp a b itr' dst' fac) (lerp_sparse_loop always lerp a b itr' dst' fac)"
    if "\<not> Sparse_end b < itr" "itr \<noteq> Sparse_end b" "itr_inc b itr = Inr itr'" for itr' dst'
    using less that by (force simp: itr_inc_def dest: skip_free_ge)
  show ?case
    unfolding lerp_sparse_loop.simps [of _ _ _ _ itr] by (intro alloc_rules later) assumption+
qed

lemma NetLerpVal_Sparse_alloc:
  "unless_alloc mal (NetLerpVal_Sparse mal lerp a b dst fac) (NetLerpVal_Sparse always lerp a b dst fac)"
  unfolding NetLerpVal_Sparse_def by (intro alloc_rules)

text \<open>
  \<^verbatim>\<open>dst = (StorageType)(...)\<close>: \<open>blend\<close> is the interpolation of the two raw values in \<^verbatim>\<open>float\<close>, in units of one,
  and its conversion; the assignment goes through the constructor from an integer.
\<close>

definition NetLerpVal_FixedPoint :: "fixed_type \<Rightarrow> (int \<Rightarrow> int \<Rightarrow> 'f \<Rightarrow> int) \<Rightarrow> (int, 'f) lerp" where
  "NetLerpVal_FixedPoint fx blend a b dst fac = Inr (NetFixedPoint_of_int fx (blend a b fac))"

section \<open>The contract\<close>

text \<open>An interpolation of well-formed values succeeds, and does not depend on the old \<^verbatim>\<open>dst\<close>.\<close>

locale lerper =
  fixes lerp :: "('a, 'f) lerp"
    and mix :: "'a \<Rightarrow> 'a \<Rightarrow> 'f \<Rightarrow> 'a"
    and fine :: "'a \<Rightarrow> bool"
    and obj :: "'a \<Rightarrow> bool"
  assumes lerps: "fine a \<Longrightarrow> fine b \<Longrightarrow> obj dst \<Longrightarrow> lerp a b dst fac = Inr (mix a b fac)"
    and fine_obj: "fine a \<Longrightarrow> obj a"

interpretation lerp_default: lerper NetLerpValDefault "\<lambda>a b fac. b" "\<lambda>_. True" "\<lambda>_. True"
  by unfold_locales (simp_all add: NetLerpValDefault_def)

interpretation lerp_numeric: lerper "NetLerpValNumeric blend" blend "\<lambda>_. True" "\<lambda>_. True" for blend
  by unfold_locales (simp_all add: NetLerpValNumeric_def)

interpretation lerp_fixed: lerper "NetLerpVal_FixedPoint fx blend"
    "\<lambda>a b fac. NetFixedPoint_of_int fx (blend a b fac)" "\<lambda>_. True" "\<lambda>_. True" for fx blend
  by unfold_locales (simp_all add: NetLerpVal_FixedPoint_def)

definition mix_list :: "('a \<Rightarrow> 'a \<Rightarrow> 'f \<Rightarrow> 'a) \<Rightarrow> 'a list \<Rightarrow> 'a list \<Rightarrow> 'f \<Rightarrow> 'a list" where
  "mix_list mix a b fac = map (\<lambda>i. if i < length a then mix (a ! i) (b ! i) fac else b ! i) [0..<length b]"

definition mix_map :: "('a \<Rightarrow> 'a \<Rightarrow> 'f \<Rightarrow> 'a) \<Rightarrow> (nat \<Rightarrow> 'a option) \<Rightarrow> (nat \<Rightarrow> 'a option) \<Rightarrow> 'f \<Rightarrow> nat \<Rightarrow> 'a option" where
  "mix_map mix f g fac i =
     (case g i of None \<Rightarrow> None | Some y \<Rightarrow> (case f i of None \<Rightarrow> Some y | Some x \<Rightarrow> Some (mix x y fac)))"

lemma ebind_nest: "ebind x f = Inr z \<Longrightarrow> ebind x (\<lambda>v. ebind (f v) k) = k z"
  by (cases x) simp_all

context lerper
begin

lemma lerp_list_loop_mix:
  assumes "obj dflt" "list_all fine a" "list_all fine b" "length b \<le> max_size"
  shows "index \<le> length b \<Longrightarrow> dst = take index (mix_list mix a b fac) \<Longrightarrow>
    lerp_list_loop max_size dflt lerp a b index dst fac = Inr (mix_list mix a b fac)"
proof (induction "length b - index" arbitrary: index dst)
  case 0
  then show ?case by (simp add: lerp_list_loop.simps mix_list_def)
next
  case (Suc n)
  have i: "index < length b" using Suc.hyps(2) by simp
  have l: "length dst = index" using Suc.prems i by (simp add: mix_list_def)
  have step: "take (Suc index) (mix_list mix a b fac)
      = dst @ [if index < length a then mix (a ! index) (b ! index) fac else b ! index]"
    using i Suc.prems(2) by (simp add: take_Suc_conv_app_nth mix_list_def)
  have rec: "lerp_list_loop max_size dflt lerp a b (Suc index) (take (Suc index) (mix_list mix a b fac)) fac
      = Inr (mix_list mix a b fac)"
    using Suc.hyps i by simp
  have y: "fine (b ! index)" using assms(3) i by (simp add: list_all_length)
  have full: "\<not> max_size \<le> length dst" using l i assms(4) by simp
  show ?case
  proof (cases "index < length a")
    case True
    have "fine (a ! index)" using assms(2) True by (simp add: list_all_length)
    then have "lerp (a ! index) (b ! index) dflt fac = Inr (mix (a ! index) (b ! index) fac)"
      using y assms(1) by (rule lerps)
    then show ?thesis
      using True i full rec step by (simp add: lerp_list_loop.simps [of _ _ _ _ _ index] EmplaceBack_def)
  next
    case False
    then show ?thesis
      using i full rec step by (simp add: lerp_list_loop.simps [of _ _ _ _ _ index] EmplaceBack_def)
  qed
qed

lemma lerp_array_list:
  assumes "obj dflt" "list_all fine a" "list_all fine b" "length b \<le> max_size"
  shows "NetLerpVal_ArrayList max_size dflt lerp a b dst fac = Inr (mix_list mix a b fac)"
  using lerp_list_loop_mix [OF assms, of 0 "[]" fac] by (simp add: NetLerpVal_ArrayList_def ArrayList_clear_def)

text \<open>
  The loop over the elements of the second list: below \<open>m\<close> the destination holds the mixture, from \<open>m\<close> on
  nothing.
\<close>

lemma lerp_sparse_loop_mix:
  assumes f: "sparse_ok f h c" and g: "sparse_ok g k d" "k < 2 ^ 30"
    and fine: "\<forall>i x. f i = Some x \<longrightarrow> fine x" "\<forall>i x. g i = Some x \<longrightarrow> fine x"
    and M: "M = mix_map mix f g fac"
  shows "int m \<le> k + 1 \<Longrightarrow> skip_free k (arr g d) m = Inr i \<Longrightarrow> sparse_ok p hp cp \<Longrightarrow> top_used p hp \<Longrightarrow>
    \<forall>j. p j = (if j < m then M j else None) \<Longrightarrow>
    \<exists>h' c'. lerp_sparse_loop always lerp (sparse f h c) (sparse g k d) i (sparse p hp cp) fac = Inr (sparse M h' c')
      \<and> sparse_ok M h' c' \<and> top_used M h'"
proof (induction "nat (k + 1 - int m)" arbitrary: m i p hp cp rule: less_induct)
  case less
  obtain i' where "skip_free k (arr g d) m = Inr i'" and i: "m \<le> i'" "int i' \<le> k + 1"
      "\<forall>j. m \<le> j \<and> j < i' \<longrightarrow> g j = None" "int i' \<le> k \<longrightarrow> g i' \<noteq> None"
    using skip_free_sparse [OF g(1) less.prems(1)] by auto
  with less.prems(2) have i': "i' = i" by simp
  note i = i [unfolded i']
  have none: "M j = None" if "g j = None" for j using that by (simp add: M mix_map_def)
  have p: "p j = (if j < i then M j else None)" for j
    using less.prems(5) i(1,3) none [of j] by (cases "j < m") auto
  show ?case
  proof (cases "int i = k + 1")
    case True
    have "g j = None" if "i \<le> j" for j using g(1) True that by (auto simp: sparse_ok_def)
    then have "p = M" using p none by (auto simp: fun_eq_iff)
    moreover have "Sparse_end (sparse g k d) = i" using True by (simp add: Sparse_end_def)
    ultimately show ?thesis using less.prems(3,4) by (auto simp: lerp_sparse_loop.simps)
  next
    case False
    then have ik: "int i \<le> k" and e: "i < Sparse_end (sparse g k d)" using i(2) by (auto simp: Sparse_end_def)
    obtain y where y: "g i = Some y" using i(4) ik by auto
    have small: "i < 2 ^ 30" using ik g(2) by simp
    have id: "i < d" using ik g(1) by (simp add: sparse_ok_def)
    define v where "v = (case f i of None \<Rightarrow> y | Some x \<Rightarrow> mix x y fac)"
    have Mi: "M i = Some v" by (simp add: M mix_map_def y v_def split: option.splits)
    note ins = InsertAt_sparse(2,3) [OF less.prems(3) small]
    have ic: "i < fitting i cp" by (rule fitting(1))
    let ?h = "max hp (int i)" and ?c = "fitting i cp"
    have ok: "sparse_ok (p(i \<mapsto> v)) ?h ?c" by (rule ins(2))
    have pi: "p i = None" using p [of i] by simp
    have top: "top_used (p(i \<mapsto> v)) ?h"
      using less.prems(4) ok by (auto simp: top_used_def max_def)
    have next_ok: "\<forall>j. (p(i \<mapsto> v)) j = (if j < Suc i then M j else None)"
      using p Mi by auto
    obtain i2 where i2: "skip_free k (arr g d) (Suc i) = Inr i2"
      using skip_free_sparse [OF g(1), of "Suc i"] ik by auto
    have rec: "\<exists>h' c'. lerp_sparse_loop always lerp (sparse f h c) (sparse g k d) i2 (sparse (p(i \<mapsto> v)) ?h ?c) fac
        = Inr (sparse M h' c') \<and> sparse_ok M h' c' \<and> top_used M h'"
      by (rule less.hyps [OF _ _ i2 ok top next_ok]) (use ik i(1) in auto)
    have stepped: "ebind (HasAt i (sparse f h c)) (\<lambda>has.
        if has then
          ebind (Sparse_index i (sparse f h c)) (\<lambda>x.
          ebind (Sparse_index i (sparse g k d)) (\<lambda>y'.
          ebind (Sparse_EmplaceAt always i y (sparse p hp cp)) (\<lambda>dst.
          ebind (lerp x y' y fac) (\<lambda>v. set_slot i (Live v) dst))))
        else Sparse_EmplaceAt always i y (sparse p hp cp)) = Inr (sparse (p(i \<mapsto> v)) ?h ?c)"
    proof (cases "f i")
      case None
      then show ?thesis using ins(1) [of y] by (simp add: read_sparse [OF f] v_def)
    next
      case (Some x)
      have "lerp x y y fac = Inr (mix x y fac)"
        using fine Some y by (auto intro!: lerps fine_obj)
      then show ?thesis
        using Some y ins(1) [of y] ic
        by (simp add: read_sparse [OF f] read_sparse [OF g(1)] v_def set_slot_sparse)
    qed
    have deref: "itr_deref (sparse g k d) i = Inr (i, y)"
      using id y by (simp add: itr_deref_def value_at_arr)
    have inc: "itr_inc (sparse g k d) i = Inr i2" using i2 by (simp add: itr_inc_def)
    have "lerp_sparse_loop always lerp (sparse f h c) (sparse g k d) i (sparse p hp cp) fac
        = lerp_sparse_loop always lerp (sparse f h c) (sparse g k d) i2 (sparse (p(i \<mapsto> v)) ?h ?c) fac"
      using e deref inc ebind_nest [OF stepped] by (simp add: lerp_sparse_loop.simps [of _ _ _ _ i])
    then show ?thesis using rec by simp
  qed
qed

lemma lerp_sparse:
  assumes "good a" "good b" "good dst" "m_HighestIndex b < 2 ^ 30"
    and "\<forall>i x. contents a i = Some x \<longrightarrow> fine x" "\<forall>i x. contents b i = Some x \<longrightarrow> fine x"
  shows "\<exists>dst'. NetLerpVal_Sparse always lerp a b dst fac = Inr dst' \<and> good dst'
    \<and> contents dst' = mix_map mix (contents a) (contents b) fac"
proof -
  obtain f h c where a: "a = sparse f h c" "sparse_ok f h c" "contents a = f" using goodE [OF assms(1)] .
  obtain g k d where b: "b = sparse g k d" "sparse_ok g k d" "contents b = g" using goodE [OF assms(2)] .
  obtain p hp cp where dst: "dst = sparse p hp cp" "sparse_ok p hp cp" using goodE [OF assms(3)] .
  have e: "sparse_ok (\<lambda>_. None :: 'a option) (- 1) cp" "top_used (\<lambda>_. None :: 'a option) (- 1)"
    using dst(2) by (simp_all add: sparse_ok_def top_used_def)
  have k: "- 1 \<le> k" "k < 2 ^ 30" using b assms(4) by (simp_all add: sparse_ok_def)
  obtain i where i: "skip_free k (arr g d) 0 = Inr i" using skip_free_sparse [OF b(2), of 0] k(1) by auto
  obtain h' c' where r: "lerp_sparse_loop always lerp a b i (sparse (\<lambda>_. None) (- 1) cp) fac
        = Inr (sparse (mix_map mix f g fac) h' c')"
      "sparse_ok (mix_map mix f g fac) h' c'" "top_used (mix_map mix f g fac) h'"
    using lerp_sparse_loop_mix [OF a(2) b(2) k(2) _ _ refl _ i e, of fac] assms(5,6) k(1) a b by auto
  have "NetLerpVal_Sparse always lerp a b dst fac = Inr (sparse (mix_map mix f g fac) h' c')"
    using r(1) i by (simp add: NetLerpVal_Sparse_def dst(1) Clear_sparse [OF dst(2)] Sparse_begin_def b(1))
  then show ?thesis
    using r(2,3) a(3) b(3) good_sparseI sparse_ok_contents by fastforce
qed

end

text \<open>Lists of elements whose interpolation keeps the contract keep it themselves.\<close>

lemma lerper_ArrayList:
  assumes "lerper lerp mix fine obj" "obj dflt"
  shows "lerper (NetLerpVal_ArrayList max_size dflt lerp) (mix_list mix)
    (\<lambda>xs. list_all fine xs \<and> length xs \<le> max_size) (\<lambda>_. True)"
  using lerper.lerp_array_list [OF assms] by unfold_locales auto

interpretation lerp_list: lerper "NetLerpVal_ArrayList max_size 0 (NetLerpValNumeric blend)" "mix_list blend"
    "\<lambda>xs. list_all (\<lambda>_. True) xs \<and> length xs \<le> max_size" "\<lambda>_. True"
  for max_size and blend :: "int \<Rightarrow> int \<Rightarrow> 'f \<Rightarrow> int"
  by (rule lerper_ArrayList) (auto intro: lerp_numeric.lerper_axioms)

section \<open>Properties\<close>

text \<open>C29: Interpolating two lists gives a list with the indices of the second: where the first has an
  element at the index the two are interpolated, elsewhere the second's element is copied. This holds of the
  array list within its capacity and of the sparse list, whatever the destination held before
  (unless \<^verbatim>\<open>malloc\<close> refuses a request, which throws \<^verbatim>\<open>std::bad_alloc\<close>).\<close>

theorem lerp_lists:
  assumes "lerper lerp mix fine obj" "obj dflt"
    and "list_all fine xs" "list_all fine ys" "length ys \<le> max_size"
    and "good a" "good b" "good dst" "m_HighestIndex b < 2 ^ 30"
    and "\<forall>i x. contents a i = Some x \<longrightarrow> fine x" "\<forall>i x. contents b i = Some x \<longrightarrow> fine x"
  shows "NetLerpVal_ArrayList max_size dflt lerp xs ys zs fac = Inr (mix_list mix xs ys fac)
    \<and> (NetLerpVal_Sparse mal lerp a b dst fac = Inl BadAlloc \<and> (\<exists>n. \<not> mal n)
      \<or> (\<exists>dst'. NetLerpVal_Sparse mal lerp a b dst fac = Inr dst' \<and> good dst'
        \<and> contents dst' = mix_map mix (contents a) (contents b) fac))"
  using lerper.lerp_array_list [OF assms(1-5)]
    unless_allocE [OF NetLerpVal_Sparse_alloc lerper.lerp_sparse [OF assms(1,6-11)]] by simp

theorem lerp_lists_witness:
  "NetLerpVal_ArrayList 4 (0 :: int) (NetLerpValNumeric (\<lambda>a b fac. (a + b) div fac)) [10, 20] [20, 30, 40] [7] 2
      = Inr [15, 25, 40]
    \<and> (\<exists>dst'. NetLerpVal_Sparse always (NetLerpValNumeric (\<lambda>a b fac. (a + b) div fac))
        \<lparr>m_HighestIndex = 0, m_Capacity = 1, m_Values = [Live (10 :: int)]\<rparr>
        \<lparr>m_HighestIndex = 1, m_Capacity = 2, m_Values = [Live 20, Live 7]\<rparr> NetSparseList_init 2 = Inr dst'
      \<and> good dst' \<and> contents dst' 0 = Some 15 \<and> contents dst' 1 = Some 7)"
proof -
  let ?a = "\<lparr>m_HighestIndex = 0, m_Capacity = 1, m_Values = [Live (10 :: int)]\<rparr>"
  let ?b = "\<lparr>m_HighestIndex = 1, m_Capacity = 2, m_Values = [Live (20 :: int), Live 7]\<rparr>"
  have g: "good ?a" "good ?b" by (simp_all add: good_literal)
  have l: "mix_list (\<lambda>a b fac. (a + b) div fac) [10 :: int, 20] [20, 30, 40] 2 = [15, 25, 40]"
    by (simp add: mix_list_def upt_rec)
  have m: "mix_map (\<lambda>a b fac. (a + b) div fac) (contents ?a) (contents ?b) 2 0 = Some 15"
    "mix_map (\<lambda>a b fac. (a + b) div fac) (contents ?a) (contents ?b) 2 1 = Some 7"
    by (simp_all add: mix_map_def contents_def)
  have fine: "\<forall>i x. contents L i = Some x \<longrightarrow> True" for L :: "int NetSparseList" by simp
  show ?thesis
    using lerp_lists [OF lerp_numeric.lerper_axioms [of "\<lambda>a b fac. (a + b) div fac"], where dflt = 0 and xs = "[10, 20]" and ys = "[20, 30, 40]"
        and max_size = 4 and a = ?a and b = ?b and dst = NetSparseList_init and zs = "[7]" and fac = "2 :: int" and mal = always, OF _ _ _ _ g good_init _ fine fine] l m by (fastforce simp: always_def)
qed

lemma shl_low: "n < ctype_bits t \<Longrightarrow> take_bit n (shl t x n) = 0"
  by (simp add: shl_def conv_def take_bit_signed_take_bit take_bit_push_bit)

text \<open>An interpolated fixed-point number has no fraction: the assignment goes through the constructor
  from an integer, so every bit below the point is 0, whatever the operands and the factor are.\<close>

theorem lerp_fixed_whole:
  "\<exists>v. NetLerpVal_FixedPoint fx blend a b dst fac = Inr v
    \<and> (FractionalBits fx < ctype_bits (StorageType fx) \<longrightarrow> take_bit (FractionalBits fx) v = 0)"
  by (auto simp: NetLerpVal_FixedPoint_def NetFixedPoint_of_int_def shl_low)

theorem lerp_fixed_whole_witness:
  "\<exists>v. NetLerpVal_FixedPoint \<lparr>StorageType = I32, NumBits = 20, FractionalBits = 8, LongType = I64\<rparr>
      (\<lambda>a b fac. a div 256) 384 384 0 () = Inr v \<and> take_bit 8 v = 0 \<and> v \<noteq> 384"
proof -
  have n: "take_bit 8 (384 :: int) \<noteq> 0" by simp
  obtain v where v: "NetLerpVal_FixedPoint \<lparr>StorageType = I32, NumBits = 20, FractionalBits = 8, LongType = I64\<rparr>
      (\<lambda>a b fac. a div 256) 384 384 0 () = Inr v" "take_bit 8 v = 0"
    using lerp_fixed_whole [of "\<lparr>StorageType = I32, NumBits = 20, FractionalBits = 8, LongType = I64\<rparr>"
        "\<lambda>a b fac. a div 256" 384 384 0 "()"] by auto
  then show ?thesis using n by (intro exI [of _ v]) auto
qed

end
