(* ===== verification/Robust.thy ===== *)
theory Robust
  imports Protocol Numbers ArrayList Values
begin

text \<open>
  What arrives from the network need not have been written by a serializer. This theory is about the receiving
  side on any bytes at all: what it does may throw, but is never undefined, and leaves values that the rest of
  the program can work with. \<open>calm Q\<close> says of a result that it is an exception or satisfies \<open>Q\<close>.
\<close>

section \<open>Calm results\<close>

definition calm :: "('x \<Rightarrow> bool) \<Rightarrow> 'x result \<Rightarrow> bool" where
  "calm Q r \<longleftrightarrow> (case r of Inl err \<Rightarrow> err \<noteq> Undefined | Inr x \<Rightarrow> Q x)"

named_theorems calm_rules

lemma calm_simps [simp]:
  "calm Q (Inr x) \<longleftrightarrow> Q x" "calm Q (Inl err) \<longleftrightarrow> err \<noteq> Undefined"
  by (simp_all add: calm_def)

lemma calm_bind: "calm P r \<Longrightarrow> (\<And>x. P x \<Longrightarrow> calm Q (f x)) \<Longrightarrow> calm Q (ebind r f)"
  by (cases r) simp_all

lemma calm_bind2:
  "calm (\<lambda>(x, y). P x y) r \<Longrightarrow> (\<And>x y. P x y \<Longrightarrow> calm Q (f x y)) \<Longrightarrow> calm Q (ebind r (\<lambda>(x, y). f x y))"
  by (erule calm_bind) auto

lemma calm_bind_eq: "calm P r \<Longrightarrow> (\<And>x. r = Inr x \<Longrightarrow> P x \<Longrightarrow> calm Q (f x)) \<Longrightarrow> calm Q (ebind r f)"
  by (cases r) simp_all

lemma calm_mono: "calm P r \<Longrightarrow> (\<And>x. P x \<Longrightarrow> Q x) \<Longrightarrow> calm Q r"
  by (cases r) simp_all

lemma calm_if: "(b \<Longrightarrow> calm Q r) \<Longrightarrow> (\<not> b \<Longrightarrow> calm Q s) \<Longrightarrow> calm Q (if b then r else s)"
  by simp

section \<open>Reading bits\<close>

lemma unat_word_of_bits: "length bs < 64 \<Longrightarrow> unat (word_of_bits bs) < 2 ^ length bs"
proof -
  assume l: "length bs < 64"
  have "take_bit (length bs) (word_of_bits bs) = word_of_bits bs"
    by (rule bit_word_eqI) (auto simp: bit_take_bit_iff bit_word_of_bits)
  then have "unat (word_of_bits bs) = take_bit (length bs) (unat (word_of_bits bs))"
    using l by (metis unsigned_take_bit_eq)
  also have "\<dots> < 2 ^ length bs" by simp
  finally show ?thesis .
qed

lemma ReadUBits_calm:
  assumes "rinv r" "n < 64"
  shows "calm (\<lambda>(v, r'). unat v < 2 ^ n \<and> rinv r') (ReadUBits (int n) r)"
proof (cases "n \<le> length (rbits r)")
  case True
  obtain r' where "ReadUBits (int n) r = Inr (word_of_bits (take n (rbits r)), r')"
      "consumed r r' (take n (rbits r))"
    using ReadUBits_spec [OF assms(1), of "int n"] assms(2) True by auto
  then show ?thesis
    using unat_word_of_bits [of "take n (rbits r)"] True assms(2) by (simp add: consumed_rinv min_absorb2)
next
  case False
  then show ?thesis using ReadUBits_short [OF assms(1), of "int n"] assms(2) by simp
qed

lemma ReadUBits_numeral_calm [calm_rules]:
  "rinv r \<Longrightarrow> calm (\<lambda>(v, r'). unat v < 2 \<and> rinv r') (ReadUBits 1 r)"
  "rinv r \<Longrightarrow> numeral k < (64 :: nat) \<Longrightarrow> calm (\<lambda>(v, r'). unat v < 2 ^ numeral k \<and> rinv r') (ReadUBits (numeral k) r)"
  using ReadUBits_calm [of r 1] ReadUBits_calm [of r "numeral k"] by simp_all

lemma ReadSBits_8_calm: "rinv r \<Longrightarrow> calm (\<lambda>(v, r'). rinv r') (ReadSBits 8 r)"
  unfolding ReadSBits_def
  by (rule calm_bind [OF ReadUBits_numeral_calm(2)]) (auto simp: SignExtend_def Let_def)

lemma uint_less_power:
  fixes x :: u64
  assumes "unat x < 2 ^ k" "k \<le> n"
  shows "uint x < 2 ^ n"
proof -
  have "(2 :: nat) ^ k \<le> 2 ^ n" using assms(2) by (intro power_increasing) auto
  with assms(1) have "unat x < 2 ^ n" by (rule order_less_le_trans)
  then have "int (unat x) < int (2 ^ n)" by (simp only: of_nat_less_iff)
  then show ?thesis by simp
qed

lemma conv_I32_uint:
  fixes x :: u64
  assumes "unat x < 2 ^ 31"
  shows "conv I32 (uint x) = int (unat x)"
proof -
  have u: "uint x < 2 ^ 31" by (rule uint_less_power [OF assms order_refl])
  obtain y where y: "uint x = y" "0 \<le> y" by simp
  have "conv I32 y = y" using u [unfolded y] y(2) by (intro conv_id) (simp add: in_ctype_def ctype_min_def ctype_max_def)
  then show ?thesis using y by simp
qed

lemma neg_le_uint [simp]: "- numeral k \<le> uint (x :: u64)"
  by (rule order_trans [of _ 0]) simp_all

section \<open>Deserializers\<close>

text \<open>The contract: from any bits, into an object that satisfies \<open>obj\<close>, with an object that does as the result.\<close>

locale robust =
  fixes deser :: "'a deserializer"
    and obj :: "'a \<Rightarrow> bool"
  assumes reads: "rinv r \<Longrightarrow> obj v \<Longrightarrow> calm (\<lambda>(v', r'). obj v' \<and> rinv r') (deser v r)"

lemma robustD: "robust deser obj \<Longrightarrow> rinv r \<Longrightarrow> obj v \<Longrightarrow> calm (\<lambda>(v', r'). obj v' \<and> rinv r') (deser v r)"
  by (rule robust.reads)

interpretation bool_robust: robust NetDeserializer_bool "\<lambda>_. True"
  unfolding NetDeserializer_bool_def
  by unfold_locales (rule calm_bind [OF ReadUBits_numeral_calm(1)]; auto)

interpretation pod_robust: robust NetDeserializeType_pod "\<lambda>bs. length bs = n" for n
proof
  show "calm (\<lambda>(v', r'). length v' = n \<and> rinv r') (NetDeserializeType_pod v r)" if "rinv r" "length v = n" for r v
    using that
  proof (induction v arbitrary: r n)
    case (Cons b v)
    have tail: "calm (\<lambda>(bs, r'). length bs = length v \<and> rinv r') (NetDeserializeType_pod v r')" if "rinv r'" for r'
      using Cons.IH that by simp
    then show ?case
      using Cons.prems
      unfolding NetDeserializeType_pod.simps
      by (intro calm_bind2 [OF ReadUBits_numeral_calm(2)] calm_bind2 [OF tail]) auto
  qed simp
qed

lemma array_robust:
  assumes "robust deser obj"
  shows "robust (NetDeserializer_array deser) (\<lambda>vs. list_all obj vs \<and> length vs = n)"
proof
  show "calm (\<lambda>(vs', r'). (list_all obj vs' \<and> length vs' = n) \<and> rinv r') (NetDeserializer_array deser vs r)"
    if "rinv r" "list_all obj vs \<and> length vs = n" for r vs
    using that
  proof (induction vs arbitrary: r n)
    case (Cons v vs)
    have tail: "calm (\<lambda>(vs', r'). (list_all obj vs' \<and> length vs' = length vs) \<and> rinv r') (NetDeserializer_array deser vs r')"
      if "rinv r'" for r'
      using Cons that by simp
    show ?case
      unfolding NetDeserializer_array.simps
      by (intro calm_bind2 [OF robustD [OF assms]] calm_bind2 [OF tail]) (use Cons.prems in auto)
  qed simp
qed

text \<open>A struct: every field that is not static.\<close>

fun fields_robust :: "('f \<Rightarrow> bool) list \<Rightarrow> 'f field list \<Rightarrow> bool" where
  "fields_robust (P # Ps) (f # fs) \<longleftrightarrow>
     (\<not> fStatic f \<longrightarrow> robust (fDeser f) P) \<and> robust (fDeltaDeser f) P \<and> fields_robust Ps fs"
| "fields_robust Ps fs \<longleftrightarrow> Ps = [] \<and> fs = []"

fun fields_obj :: "('f \<Rightarrow> bool) list \<Rightarrow> 'f list \<Rightarrow> bool" where
  "fields_obj (P # Ps) (v # vs) \<longleftrightarrow> P v \<and> fields_obj Ps vs"
| "fields_obj Ps vs \<longleftrightarrow> Ps = [] \<and> vs = []"

lemma fields_obj_Cons: "fields_obj (P # Ps) vs \<longleftrightarrow> (\<exists>v us. vs = v # us \<and> P v \<and> fields_obj Ps us)"
  by (cases vs) auto

lemma fields_robust_Cons: "fields_robust (P # Ps) fs \<longleftrightarrow> (\<exists>f gs. fs = f # gs
    \<and> (\<not> fStatic f \<longrightarrow> robust (fDeser f) P) \<and> robust (fDeltaDeser f) P \<and> fields_robust Ps gs)"
  by (cases fs) auto

lemma fields_Nil [simp]: "fields_obj [] vs \<longleftrightarrow> vs = []" "fields_robust [] fs \<longleftrightarrow> fs = []"
  by (cases vs; cases fs; simp)+

lemma fields_length: "fields_robust Ps fs \<Longrightarrow> length fs = length Ps"
  by (induction Ps fs rule: fields_robust.induct) auto

lemma struct_robust:
  assumes "fields_robust Ps fs"
  shows "robust (NetDeserializeType_struct fs) (fields_obj Ps)"
proof
  show "calm (\<lambda>(vs', r'). fields_obj Ps vs' \<and> rinv r') (NetDeserializeType_struct fs vs r)"
    if "rinv r" "fields_obj Ps vs" for r vs
    using that assms
  proof (induction Ps arbitrary: fs vs r)
    case (Cons P Ps)
    obtain f gs v us where e: "fs = f # gs" "vs = v # us" "P v" "fields_obj Ps us" "fields_robust Ps gs"
        "\<not> fStatic f \<longrightarrow> robust (fDeser f) P"
      using Cons.prems by (auto simp: fields_obj_Cons fields_robust_Cons)
    have tail: "calm (\<lambda>(us', r'). fields_obj Ps us' \<and> rinv r') (NetDeserializeType_struct gs us r')"
      if "rinv r'" for r'
      by (rule Cons.IH [OF that e(4,5)])
    show ?case
    proof (cases "fStatic f")
      case True
      then show ?thesis
        unfolding e NetDeserializeType_struct.simps if_P [OF True]
        by (intro calm_bind2 [OF tail]) (use e(3) Cons.prems(1) in auto)
    next
      case False
      then show ?thesis
        unfolding e NetDeserializeType_struct.simps if_not_P [OF False]
        by (intro calm_bind2 [OF robustD [of _ P]] calm_bind2 [OF tail]) (use e(3,6) False Cons.prems(1) in auto)
    qed
  qed simp
qed

text \<open>The difference of a struct, which names the fields by index.\<close>

lemma struct_delta_robust:
  assumes "fields_robust Ps fs" "length fs < 2 ^ 31"
  shows "robust (NetDeserializeDeltaType_struct fs) (fields_obj Ps)"
proof
  define n where "n = count_bits (length fs)"
  have n: "n < 64" using count_bits(1) [OF assms(2)] by (simp add: n_def)
  have members: "calm (\<lambda>(vs', r'). fields_obj Ps vs' \<and> rinv r')
      (NetMemberDeserializeDeltaVisitor n i fs vs next_index num_remaining r)"
    if "fields_robust Ps fs" "rinv r" "fields_obj Ps vs" for Ps fs vs i next_index num_remaining r
    using that
  proof (induction Ps arbitrary: fs vs i next_index num_remaining r)
    case (Cons P Ps)
    obtain f gs v us where e: "fs = f # gs" "vs = v # us" "P v" "fields_obj Ps us" "fields_robust Ps gs"
        "robust (fDeltaDeser f) P"
      using Cons.prems by (auto simp: fields_obj_Cons fields_robust_Cons)
    have tail: "calm (\<lambda>(us', r'). fields_obj Ps us' \<and> rinv r')
        (NetMemberDeserializeDeltaVisitor n (Suc i) gs us x m r')" if "rinv r'" for r' x m
      by (rule Cons.IH [OF e(5) that e(4)])
    have index: "calm (\<lambda>(x, r'). rinv r') (if m \<noteq> 0 then ebind (ReadUBits (int n) r') (\<lambda>(x, r). Inr (unat x, r))
        else Inr (next_index, r'))" if "rinv r'" for r' and m :: nat
      using that by (auto intro!: calm_bind2 [OF ReadUBits_calm [OF _ n]])
    show ?case
      unfolding e NetMemberDeserializeDeltaVisitor.simps
      by (intro calm_if calm_bind2 [OF tail] calm_bind2 [OF robustD [OF e(6)]] calm_bind2 [OF index])
        (use e(3) Cons.prems(2) in auto)
  qed simp
  show "calm (\<lambda>(vs', r'). fields_obj Ps vs' \<and> rinv r') (NetDeserializeDeltaType_struct fs vs r)"
    if "rinv r" "fields_obj Ps vs" for r vs
    unfolding NetDeserializeDeltaType_struct_def Let_def n_def [symmetric]
    by (intro calm_bind2 [OF ReadUBits_calm [OF _ n]] members [OF assms(1)]) (use that in auto)
qed

lemma pair_robust:
  assumes "robust deser1 obj1" "robust deser2 obj2"
  shows "robust (NetDeserializer_pair deser1 deser2) (\<lambda>(a, b). obj1 a \<and> obj2 b)"
  unfolding NetDeserializer_pair_def
  by unfold_locales
    (intro calm_bind2 [OF robustD [OF assms(1)]] calm_bind2 [OF robustD [OF assms(2)]]; auto)

lemma optional_robust:
  assumes "robust deser obj" "obj dflt"
  shows "robust (NetDeserializer_optional dflt deser) (pred_option obj)"
proof
  show "calm (\<lambda>(v', r'). pred_option obj v' \<and> rinv r') (NetDeserializer_optional dflt deser v r)"
    if "rinv r" "pred_option obj v" for r v
    unfolding NetDeserializer_optional_def Let_def
    using that assms(2)
    by (intro calm_bind2 [OF ReadUBits_numeral_calm(1)] calm_if)
      (cases v; auto simp: NetOptional_bool_def NetOptional_Emplace_def NetOptional_Value_def NetOptional_Clear_def
        intro!: calm_bind2 [OF robustD [OF assms(1)]])+
qed

text \<open>A string of any bytes is below \<open>2 ^ 15\<close> characters long.\<close>

lemma read_chars_calm: "rinv r \<Longrightarrow> calm (\<lambda>(cs, r'). length cs = n \<and> rinv r') (read_chars n r)"
proof (induction n arbitrary: r)
  case (Suc n)
  show ?case
    unfolding read_chars.simps
    by (intro calm_bind2 [OF ReadSBits_8_calm] calm_bind2 [OF Suc.IH]) (use Suc.prems in auto)
qed simp

interpretation string_robust: robust NetDeserializer_string "\<lambda>cs. length cs < 2 ^ 15"
proof
  show "calm (\<lambda>(cs, r'). length cs < 2 ^ 15 \<and> rinv r') (NetDeserializer_string v r)" if "rinv r" for r v
  proof -
    have len: "calm (\<lambda>(len, r'). unat len < 2 ^ 15 \<and> rinv r') (if b then ReadUBits 15 r' else ReadUBits 7 r')"
      if "rinv r'" for b r'
      using ReadUBits_numeral_calm(2) [OF that, of "num.Bit1 (num.Bit1 (num.Bit1 num.One))"]
        calm_mono [OF ReadUBits_numeral_calm(2) [OF that, of "num.Bit1 (num.Bit1 num.One)"],
          of "\<lambda>(len, r'). unat len < 2 ^ 15 \<and> rinv r'"] by auto
    have chars: "calm (\<lambda>(cs, r'). length cs < 2 ^ 15 \<and> rinv r') (read_chars n r')" if "n < 2 ^ 15" "rinv r'" for n r'
      by (rule calm_mono [OF read_chars_calm [OF that(2), of n]]) (use that(1) in auto)
    show ?thesis
      unfolding NetDeserializer_string_def
      by (intro calm_bind2 [OF ReadUBits_numeral_calm(1)] calm_bind2 [OF len] chars) (use that in auto)
  qed
qed

interpretation enum_robust: robust "NetDeserializer_enum 4" "\<lambda>_. True"
  unfolding NetDeserializer_enum_def
  by unfold_locales (intro calm_bind2 [OF ReadUBits_calm]; use count_bits(1) [of 4] in simp)

text \<open>An array list is within its capacity.\<close>

lemma vector_resize_obj: "list_all obj vs \<Longrightarrow> obj dflt \<Longrightarrow> list_all obj (vector_resize dflt n vs)"
  by (rule vector_resize_all)

lemma ArrayList_robust:
  assumes "robust deser obj" "obj dflt" "m < 2 ^ 63"
  shows "robust (NetDeserializer_ArrayList m dflt deser) (\<lambda>vs. list_all obj vs \<and> length vs \<le> m)"
proof
  note b = size_bits(1) [OF assms(3)]
  show "calm (\<lambda>(vs, r'). (list_all obj vs \<and> length vs \<le> m) \<and> rinv r') (NetDeserializer_ArrayList m dflt deser vs r)"
    if "rinv r" "list_all obj vs \<and> length vs \<le> m" for r vs
  proof -
    have resized: "calm (\<lambda>vs'. list_all obj vs' \<and> length vs' \<le> m) (ArrayList_resize m dflt n vs)" for n
      using that(2) vector_resize_all [of obj vs dflt n] assms(2) by (auto simp: ArrayList_resize_def)
    have elems: "calm (\<lambda>(us, r'). (list_all obj us \<and> length us \<le> m) \<and> rinv r') (NetDeserializer_array deser us r')"
      if "list_all obj us \<and> length us \<le> m" "rinv r'" for us r'
      by (rule calm_mono [OF robustD [OF array_robust [OF assms(1), of "length us"]]]) (use that in auto)
    show ?thesis
      unfolding NetDeserializer_ArrayList_def
      by (intro calm_bind2 [OF ReadUBits_calm [OF _ b]] calm_bind [OF resized] elems) (use that in auto)
  qed
qed

text \<open>The difference of an array list keeps the capacity, too.\<close>

lemma remove_down_calm:
  "list_all obj vs \<and> length vs \<le> m \<Longrightarrow> 0 \<le> n \<Longrightarrow> calm (\<lambda>us. list_all obj us \<and> length us \<le> m) (remove_down n vs)"
proof (induction n vs rule: remove_down.induct)
  case (1 n vs)
  show ?case
  proof (cases "int (length vs) - 1 < n \<or> vs = []")
    case False
    have "calm (\<lambda>us. list_all obj us \<and> length us \<le> m) (RemoveAt (length vs - 1) vs)"
      using 1(2) False by (cases vs rule: rev_cases) (auto simp: RemoveAt_def)
    then have "calm (\<lambda>us. list_all obj us \<and> length us \<le> m) (ebind (RemoveAt (length vs - 1) vs) (remove_down n))"
      by (rule calm_bind_eq) (use 1 False in blast)
    then show ?thesis using False by (simp add: remove_down.simps [of n vs])
  qed (use 1 in \<open>auto simp: remove_down.simps [of n vs]\<close>)
qed

lemma read_changes_calm:
  assumes "robust dder obj"
  shows "rinv r \<Longrightarrow> list_all obj vs \<Longrightarrow>
    calm (\<lambda>(us, r'). (list_all obj us \<and> length us = length vs) \<and> rinv r') (read_changes dder k vs r)"
proof (induction k arbitrary: vs r)
  case (Suc k)
  show ?case
  proof (cases vs)
    case (Cons v us)
    have tail: "calm (\<lambda>(us', r'). (list_all obj us' \<and> length us' = length us) \<and> rinv r') (read_changes dder k us r')"
      if "rinv r'" for r'
      using Suc.IH [OF that, of us] Suc.prems(2) Cons by simp
    have change: "calm (\<lambda>(v', r'). obj v' \<and> rinv r') (if b then dder v r' else Inr (v, r'))" if "rinv r'" for b r'
      using robustD [OF assms that, of v] Suc.prems(2) Cons that by simp
    show ?thesis
      unfolding Cons read_changes.simps
      by (intro calm_bind2 [OF ReadUBits_numeral_calm(1)] calm_bind2 [OF change] calm_bind2 [OF tail])
        (use Suc.prems in auto)
  qed (use Suc.prems in simp)
qed simp

lemma read_added_calm:
  assumes "robust deser obj" "obj dflt"
  shows "rinv r \<Longrightarrow> list_all obj vs \<and> length vs \<le> m \<Longrightarrow>
    calm (\<lambda>(us, r'). (list_all obj us \<and> length us \<le> m) \<and> rinv r') (read_added m dflt deser k vs r)"
proof (induction k arbitrary: vs r)
  case (Suc k)
  have added: "calm (\<lambda>us. us = vs @ [dflt] \<and> length vs < m) (EmplaceBack m dflt vs)"
    by (simp add: EmplaceBack_def)
  show ?case
    unfolding read_added.simps
    by (intro calm_bind [OF added] calm_bind2 [OF robustD [OF assms(1)]] Suc.IH) (use Suc.prems assms(2) in auto)
qed simp

lemma ArrayList_delta_robust:
  assumes "robust deser obj" "robust dder obj" "obj dflt" "m < 2 ^ 31"
  shows "robust (NetDeserializerDelta_ArrayList m dflt deser dder) (\<lambda>vs. list_all obj vs \<and> length vs \<le> m)"
proof
  have b: "size_bits m < 64" using size_bits(1) [of m] assms(4) by simp
  have b31: "size_bits m \<le> 31"
    using GetRequiredBits_le [of U64 "int m" 31] assms(4)
    by (simp add: wide_def in_ctype_def ctype_min_def ctype_max_def)
  show "calm (\<lambda>(us, r'). (list_all obj us \<and> length us \<le> m) \<and> rinv r')
      (NetDeserializerDelta_ArrayList m dflt deser dder vs r)"
    if "rinv r" and vs: "list_all obj vs \<and> length vs \<le> m" for r vs
  proof -
    have same: "calm (\<lambda>(us, r'). (list_all obj us \<and> length us \<le> m) \<and> rinv r') (read_changes dder k vs r')"
      if "rinv r'" for k r'
      by (rule calm_mono [OF read_changes_calm [OF assms(2) that, of vs k]]) (use vs in auto)
    have low: "0 \<le> min (conv I32 (int (length vs))) (conv I32 (uint x))" if "unat x < 2 ^ size_bits m" for x :: u64
    proof -
      have "uint x < 2 ^ 31" using that b31 by (rule uint_less_power)
      moreover have "0 \<le> uint x" by simp
      ultimately have "conv I32 (uint x) = uint x" "conv I32 (int (length vs)) = int (length vs)"
        using vs assms(4) by (auto simp: in_ctype_def ctype_min_def ctype_max_def intro!: conv_id)
      then show ?thesis by simp
    qed
    have resized: "calm (\<lambda>(us, r'). (list_all obj us \<and> length us \<le> m) \<and> rinv r')
        (ebind (read_changes dder (nat k) vs r') (\<lambda>(val, r). ebind (remove_down k val)
          (\<lambda>val. read_added m dflt deser (n - length val) val r)))" if "rinv r'" "0 \<le> k" for r' k n
      by (intro calm_bind2 [OF same] calm_bind [OF remove_down_calm] read_added_calm [OF assms(1,3)]) (use that in auto)
    show ?thesis
      unfolding NetDeserializerDelta_ArrayList_def Let_def
      by (intro calm_if calm_bind2 [OF ReadUBits_numeral_calm(1)] calm_bind2 [OF ReadUBits_calm [OF _ b]] resized low same)
        (use that(1) in auto)
  qed
qed

text \<open>A ranged number is in its range, as long as its lower bound is not positive.\<close>

lemma ranged_robust:
  assumes "range_ok t lo hi" "lo \<le> 0"
  shows "robust (NetDeserializer_ranged t lo hi) (in_range lo hi)"
proof
  have le: "lo \<le> hi" and i: "in_ctype t lo" using assms(1) by (simp_all add: range_ok_def)
  have b: "range_bits t lo hi < 64" by (rule range_bits(1) [OF assms(1)])
  have small: "ctype_signed (promote t) \<Longrightarrow> range_bits t lo hi \<le> ctype_bits (promote t) - 1"
  proof -
    assume s: "ctype_signed (promote t)"
    have "hi - lo < 2 ^ (ctype_bits (promote t) - 1)"
      using assms(1) s by (simp add: range_ok_def in_ctype_def ctype_max_def)
    moreover have "1 \<le> ctype_bits (promote t) - 1" by (cases t) simp_all
    ultimately show "range_bits t lo hi \<le> ctype_bits (promote t) - 1"
      using GetRequiredBits_le [of "promote t" "hi - lo"] assms(1) by (simp add: range_bits_def range_ok_def)
  qed
  have add: "calm (\<lambda>_. True) (c_binop OpAdd t (conv t (uint x)) t lo)" if x: "unat x < 2 ^ range_bits t lo hi" for x :: u64
  proof (cases "ctype_signed (promote t)")
    case True
    have u: "uint x < 2 ^ (ctype_bits (promote t) - 1)" by (rule uint_less_power [OF x small [OF True]])
    have "in_ctype (promote t) (conv t (uint x) + lo)"
    proof (cases "promote t = t")
      case True
      have c: "conv t (uint x) = uint x"
        using u True by (intro conv_id) (cases t; simp add: in_ctype_def ctype_min_def ctype_max_def)
      obtain y where y: "uint x = y" "0 \<le> y" by simp
      show ?thesis
        using c [unfolded y] u [unfolded y] y(2) True i assms(2) unfolding y by (cases t) (simp_all add: in_ctype_def ctype_min_def ctype_max_def)
    next
      case False
      then show ?thesis
        using conv_in_ctype [of t "uint x"] i by (cases t) (auto simp: in_ctype_def ctype_min_def ctype_max_def)
    qed
    then show ?thesis by (simp add: c_binop_same [OF conv_in_ctype i] arith_result_id)
  next
    case False
    then show ?thesis by (simp add: c_binop_same [OF conv_in_ctype i] arith_result_def)
  qed
  show "calm (\<lambda>(v', r'). in_range lo hi v' \<and> rinv r') (NetDeserializer_ranged t lo hi v r)" if "rinv r" for v r
    unfolding NetDeserializer_ranged_def range_span [OF assms(1)] ebind_Inr prod.case range_bits_def [symmetric]
    by (intro calm_bind2 [OF ReadUBits_calm [OF _ b]] calm_bind [OF add])
      (use that Ranged_Set_in_range [OF le] in \<open>auto split: prod.splits\<close>)
qed

section \<open>Pipes\<close>

lemma calm_bind3:
  "calm (\<lambda>(x, y, z). P x y z) r \<Longrightarrow> (\<And>x y z. P x y z \<Longrightarrow> calm Q (f x y z)) \<Longrightarrow> calm Q (ebind r (\<lambda>(x, y, z). f x y z))"
  by (erule calm_bind) auto

text \<open>A callback that is calm on what the application's state satisfies.\<close>

definition callback_ok :: "('e \<Rightarrow> bool) \<Rightarrow> ('a \<Rightarrow> bool) \<Rightarrow> ('a, 'e) callback \<Rightarrow> bool" where
  "callback_ok E obj cb \<longleftrightarrow> (\<forall>f v e. cb = Some f \<longrightarrow> obj v \<longrightarrow> E e \<longrightarrow> calm E (f v e))"

lemma run_callback_calm: "callback_ok E obj cb \<Longrightarrow> obj v \<Longrightarrow> E e \<Longrightarrow> calm E (run_callback cb v e)"
  by (cases cb) (auto simp: callback_ok_def)

lemma FullState_calm:
  assumes "robust deser obj" "pred_option obj (fsDefaultData rc)" "callback_ok E obj (fsUpdateCallback rc)" "rinv r" "E e"
  shows "calm (\<lambda>(r', e'). rinv r' \<and> E e') (FullState_GotMessage deser rc r e)"
proof (cases "fsDefaultData rc")
  case (Some inst)
  then show ?thesis
    unfolding FullState_GotMessage_def
    by simp (intro calm_bind2 [OF robustD [OF assms(1)]] calm_bind [OF run_callback_calm [OF assms(3)]];
      use assms Some in auto)
qed (use assms in \<open>simp add: FullState_GotMessage_def\<close>)

lemma FullStateSeq_calm:
  assumes "robust deser obj" "pred_option obj (fqDefaultData rc)" "callback_ok E (\<lambda>(seq, v). obj v) (fqUpdateCallback rc)"
    and "rinv r" "E e"
  shows "calm (\<lambda>(r', e'). rinv r' \<and> E e') (FullStateSeq_GotMessage deser rc r e)"
proof (cases "fqDefaultData rc")
  case (Some inst)
  have pod: "calm (\<lambda>(bs, r'). length bs = 4 \<and> rinv r') (NetDeserializeType_pod [0, 0, 0, 0] r)"
    by (rule pod_robust.reads) (use assms in simp_all)
  show ?thesis
    unfolding FullStateSeq_GotMessage_def Some option.case
    by (intro calm_bind2 [OF pod] calm_bind2 [OF robustD [OF assms(1)]] calm_bind [OF run_callback_calm [OF assms(3)]])
      (use assms Some in auto)
qed (use assms in \<open>simp add: FullStateSeq_GotMessage_def\<close>)

lemma DeltaReliable_calm:
  assumes "robust (fDeser D) obj" "robust (fDeltaDeser D) obj" "obj fresh" "pred_option obj (drReferenceState rc)"
    and "callback_ok E obj (drUpdateCallback rc)" "rinv r" "E e"
  shows "calm (\<lambda>(rc', r', e'). (pred_option obj (drReferenceState rc') \<and> drUpdateCallback rc' = drUpdateCallback rc)
    \<and> rinv r' \<and> E e') (DeltaReliable_GotMessage D fresh rc r e)"
proof -
  have inst: "calm (\<lambda>(v, r'). obj v \<and> rinv r') (case drReferenceState rc of
      Some reference \<Rightarrow> fDeltaDeser D reference r | None \<Rightarrow> fDeser D fresh r)"
    using robustD [OF assms(1), of r fresh] robustD [OF assms(2), of r] assms(3,4,6) by (auto split: option.splits)
  show ?thesis
    unfolding DeltaReliable_GotMessage_def
    by (intro calm_bind2 [OF inst] calm_bind [OF run_callback_calm [OF assms(5)]]) (use assms in auto)
qed

text \<open>
  The receivers of these three kinds; \<open>Es\<close> are facts about the application that its callbacks keep. (A receiver of buffers is not one of them, see below.)\<close>

fun receiver_ok :: "('e \<Rightarrow> bool) set \<Rightarrow> ('a \<Rightarrow> bool) \<Rightarrow> ('a, 'e) Receiver \<Rightarrow> bool" where
  "receiver_ok Es obj (RBuffer cb) \<longleftrightarrow> False"
| "receiver_ok Es obj (RFullState deser rc) \<longleftrightarrow>
     robust deser obj \<and> pred_option obj (fsDefaultData rc) \<and> (\<forall>E\<in>Es. callback_ok E obj (fsUpdateCallback rc))"
| "receiver_ok Es obj (RFullStateSeq deser rc) \<longleftrightarrow>
     robust deser obj \<and> pred_option obj (fqDefaultData rc) \<and> (\<forall>E\<in>Es. callback_ok E (\<lambda>(seq, v). obj v) (fqUpdateCallback rc))"
| "receiver_ok Es obj (RDeltaReliable D fresh rc) \<longleftrightarrow>
     robust (fDeser D) obj \<and> robust (fDeltaDeser D) obj \<and> obj fresh \<and> pred_option obj (drReferenceState rc)
     \<and> (\<forall>E\<in>Es. callback_ok E obj (drUpdateCallback rc))"

lemma Receiver_calm:
  assumes "receiver_ok Es obj x" "E \<in> Es" "rinv r" "E e"
  shows "calm (\<lambda>(x', r', e'). receiver_ok Es obj x' \<and> rinv r' \<and> E e') (Receiver_got x r e)"
proof (cases x)
  case (RFullState deser rc)
  then show ?thesis
    using assms by (auto intro!: calm_bind2 [OF FullState_calm [of deser obj rc E]])
next
  case (RFullStateSeq deser rc)
  then show ?thesis
    using assms by (auto intro!: calm_bind2 [OF FullStateSeq_calm [of deser obj rc E]])
next
  case (RDeltaReliable D fresh rc)
  then show ?thesis
    using assms by (auto intro!: calm_bind3 [OF DeltaReliable_calm [of D obj fresh rc E]])
qed (use assms in simp)

section \<open>The protocol\<close>

text \<open>Senders and receivers of any kind that are calm one by one.\<close>

definition acks_calm :: "('s \<Rightarrow> bool) \<Rightarrow> 's got_ack \<Rightarrow> bool" where
  "acks_calm sok got_ack \<longleftrightarrow> (\<forall>s r. sok s \<longrightarrow> rinv r \<longrightarrow> calm (\<lambda>(s', r'). sok s' \<and> rinv r') (got_ack s r))"

definition gets_calm :: "('r \<Rightarrow> bool) \<Rightarrow> ('w \<Rightarrow> bool) \<Rightarrow> ('r, 'w) got_message \<Rightarrow> bool" where
  "gets_calm rok E got \<longleftrightarrow> (\<forall>x r e. rok x \<longrightarrow> rinv r \<longrightarrow> E e \<longrightarrow>
     calm (\<lambda>(x', r', e'). rok x' \<and> rinv r' \<and> E e') (got x r e))"

lemma ProcessAck_calm:
  assumes "acks_calm sok got_ack"
  shows "list_all sok ss \<Longrightarrow> rinv r \<Longrightarrow>
    calm (\<lambda>(ss', r'). (list_all sok ss' \<and> length ss' = length ss) \<and> rinv r') (ProcessAck got_ack i target r ss)"
proof (induction ss arbitrary: i)
  case (Cons s ss)
  have here: "calm (\<lambda>(s', r'). sok s' \<and> rinv r') (got_ack s r)" using assms Cons.prems by (simp add: acks_calm_def)
  have tail: "calm (\<lambda>(ss', r'). (list_all sok ss' \<and> length ss' = length ss) \<and> rinv r') (ProcessAck got_ack (i + 1) target r ss)"
    using Cons by simp
  show ?case
    unfolding ProcessAck.simps by (intro calm_if calm_bind2 [OF here] calm_bind2 [OF tail]) (use Cons.prems in auto)
qed simp

lemma ProcessMessage_calm:
  assumes "gets_calm rok E got"
  shows "list_all rok xs \<Longrightarrow> rinv r \<Longrightarrow> E e \<Longrightarrow>
    calm (\<lambda>(xs', r', e'). (list_all rok xs' \<and> length xs' = length xs) \<and> rinv r' \<and> E e') (ProcessMessage got i target r xs e)"
proof (induction xs arbitrary: i)
  case (Cons x xs)
  have here: "calm (\<lambda>(x', r', e'). rok x' \<and> rinv r' \<and> E e') (got x r e)"
    using assms Cons.prems by (simp add: gets_calm_def)
  have tail: "calm (\<lambda>(xs', r', e'). (list_all rok xs' \<and> length xs' = length xs) \<and> rinv r' \<and> E e')
      (ProcessMessage got (i + 1) target r xs e)"
    using Cons by simp
  show ?case
    unfolding ProcessMessage.simps by (intro calm_if calm_bind3 [OF here] calm_bind3 [OF tail]) (use Cons.prems in auto)
qed simp

definition protocol_ok :: "('s \<Rightarrow> bool) \<Rightarrow> ('r \<Rightarrow> bool) \<Rightarrow> ('s, 'r) NetProtocol \<Rightarrow> bool" where
  "protocol_ok sok rok P \<longleftrightarrow> list_all sok (npSenders P) \<and> list_all rok (npReceivers P)
     \<and> npSenders P \<noteq> [] \<and> length (npSenders P) < 2 ^ 31 \<and> npReceivers P \<noteq> [] \<and> length (npReceivers P) < 2 ^ 31"

lemma Protocol_calm:
  assumes "acks_calm sok got_ack" "gets_calm rok E got" "protocol_ok sok rok P" "rinv r" "E e"
  shows "calm (\<lambda>(r', P', e'). rinv r' \<and> protocol_ok sok rok P' \<and> E e') (Protocol_GotMessage got_ack got r (P, e))"
proof -
  have p: "list_all sok (npSenders P)" "list_all rok (npReceivers P)"
    and s: "channel_bits (length (npSenders P)) = int (size_bits (length (npSenders P) - 1))"
      "size_bits (length (npSenders P) - 1) < 64"
    and x: "channel_bits (length (npReceivers P)) = int (size_bits (length (npReceivers P) - 1))"
      "size_bits (length (npReceivers P) - 1) < 64"
    using assms(3) channel_bits_eq [of "length (npSenders P)"] channel_bits_eq [of "length (npReceivers P)"]
    by (auto simp: protocol_ok_def)
  have ack: "calm (\<lambda>(ss', r'). (list_all sok ss' \<and> length ss' = length (npSenders P)) \<and> rinv r')
      (Sender_GotAck got_ack r' (npSenders P))" if "rinv r'" for r'
    unfolding Sender_GotAck_def Sender_GotAck_channel_def s(1)
    by (intro calm_bind2 [OF ReadUBits_calm [OF that s(2)]] ProcessAck_calm [OF assms(1) p(1)]) simp
  have got: "calm (\<lambda>(xs', r', e'). (list_all rok xs' \<and> length xs' = length (npReceivers P)) \<and> rinv r' \<and> E e')
      (Receiver_GotMessage got r' (npReceivers P) e)" if "rinv r'" for r'
    unfolding Receiver_GotMessage_def Receiver_GotMessage_channel_def x(1)
    by (intro calm_bind2 [OF ReadUBits_calm [OF that x(2)]] ProcessMessage_calm [OF assms(2) p(2)]) (use assms(5) in simp_all)
  have len: "protocol_ok sok rok (P\<lparr>npSenders := ss\<rparr>)" if "list_all sok ss \<and> length ss = length (npSenders P)" for ss
    using assms(3) that by (auto simp: protocol_ok_def)
  have len': "protocol_ok sok rok (P\<lparr>npReceivers := xs\<rparr>)" if "list_all rok xs \<and> length xs = length (npReceivers P)" for xs
    using assms(3) that by (auto simp: protocol_ok_def)
  show ?thesis
    unfolding Protocol_GotMessage_def prod.case
    by (intro calm_bind2 [OF ReadUBits_numeral_calm(1) [OF assms(4)]] calm_if calm_bind2 [OF ack] calm_bind3 [OF got])
      (use assms(5) len len' in auto)
qed

lemma Receiver_gets_calm: "E \<in> Es \<Longrightarrow> gets_calm (receiver_ok Es obj) E Receiver_got"
  unfolding gets_calm_def by (intro allI impI) (rule Receiver_calm)

section \<open>Properties\<close>

text \<open>C5: whatever bytes a packet consists of, the receiving side of a protocol whose pipes are full states, full
  states with a number or reliable differences of types with robust deserializers does nothing undefined: it
  throws, or hands the callbacks well-formed values and is ready for the next packet.\<close>

theorem any_packet:
  assumes "acks_calm sok got_ack" "protocol_ok sok (receiver_ok Es obj) P" "E \<in> Es" "E e"
  shows "calm (\<lambda>(r', P', e'). protocol_ok sok (receiver_ok Es obj) P' \<and> E e')
    (Protocol_GotMessage got_ack Receiver_got (NetBitReaderBuffer_init data) (P, e))"
  by (rule calm_mono [OF Protocol_calm [OF assms(1) Receiver_gets_calm [OF assms(3)] assms(2) _ assms(4)]]) auto

abbreviation flags_receiver :: "(bool list, bool list list) Receiver" where
  "flags_receiver \<equiv> RFullState (NetDeserializer_ArrayList 5 False NetDeserializer_bool)
     \<lparr>fsUpdateCallback = Some log_to, fsDefaultData = Some []\<rparr>"

interpretation flags_robust: robust "NetDeserializer_ArrayList 5 False NetDeserializer_bool"
    "\<lambda>vs. list_all (\<lambda>_. True) vs \<and> length vs \<le> 5"
  by (rule ArrayList_robust [OF bool_robust.robust_axioms]) simp_all

theorem any_packet_witness:
  "calm (\<lambda>(r', P', e'). \<forall>vs\<in>set e'. length vs \<le> 5)
    (Protocol_GotMessage (\<lambda>s r. Inr (s, r)) Receiver_got (NetBitReaderBuffer_init [0xE8, 0xFF])
      (\<lparr>npSenders = [()], npReceivers = [flags_receiver]\<rparr>, []))"
proof -
  let ?E = "\<lambda>e. \<forall>vs\<in>set e. length vs \<le> 5"
  let ?obj = "\<lambda>vs. list_all (\<lambda>_. True) vs \<and> length vs \<le> 5"
  have a: "acks_calm (\<lambda>_. True) (\<lambda>s r. Inr (s, r))" by (simp add: acks_calm_def)
  have p: "protocol_ok (\<lambda>_. True) (receiver_ok {?E} ?obj) \<lparr>npSenders = [()], npReceivers = [flags_receiver]\<rparr>"
    using flags_robust.robust_axioms by (simp add: protocol_ok_def callback_ok_def)
  have e: "?E ([] :: bool list list)" by simp
  show ?thesis by (rule calm_mono [OF any_packet [OF a p singletonI e, of "[0xE8, 0xFF]"]]) auto
qed

text \<open>
  Buffers are not robust: their bytes are read 64 bits at a time where they do not lie at a byte boundary, so a
  packet of 12 bytes that announces 8 of them makes the receiver read behind its end. Neither are ranged numbers
  of a positive lower bound, where the largest values on the wire overflow.
\<close>

lemma buffer_packet_overread:
  "Protocol_GotMessage (\<lambda>s r. Inr (s, r)) Receiver_got (NetBitReaderBuffer_init (32 # replicate 11 0))
     (\<lparr>npSenders = [()], npReceivers = [RBuffer None :: (unit, unit) Receiver]\<rparr>, ()) = Inl Undefined"
proof -
  have "(case Protocol_GotMessage (\<lambda>s r. Inr (s, r)) Receiver_got (NetBitReaderBuffer_init (32 # replicate 11 0))
     (\<lparr>npSenders = [()], npReceivers = [RBuffer None :: (unit, unit) Receiver]\<rparr>, ()) of
       Inl err \<Rightarrow> Some err | Inr _ \<Rightarrow> None) = Some Undefined"
    by code_simp
  then show ?thesis by (simp split: sum.splits)
qed

lemma ranged_overflow:
  "NetDeserializer_ranged I32 5 (2 ^ 31 - 1) 5 (NetBitReaderBuffer_init [255, 255, 255, 255]) = Inl Undefined"
  by code_simp

lemma enum_not_an_enumerator:
  "map_sum id fst (NetDeserializer_enum 4 0 (NetBitReaderBuffer_init [7])) = Inr 7"
  by code_simp

end
