(* ===== verification/RobustLists.thy ===== *)
theory RobustLists
  imports Robust SparseDelta NetMap
begin

text \<open>The map and the sparse list, received from any bytes.\<close>

section \<open>The map\<close>

definition map_fine :: "('v \<Rightarrow> bool) \<Rightarrow> 'v net_map \<Rightarrow> bool" where
  "map_fine obj m \<longleftrightarrow> ksorted m \<and> (\<forall>k v. map_of m k = Some v \<longrightarrow> obj v)"

text \<open>An iterator stands on an element or at the end.\<close>

definition itr_fine :: "'v net_map \<Rightarrow> int option \<Rightarrow> bool" where
  "itr_fine m itr \<longleftrightarrow> (\<forall>k. itr = Some k \<longrightarrow> map_of m k \<noteq> None)"

lemma map_fine_updates:
  assumes "map_fine obj m"
  shows "obj v \<Longrightarrow> map_fine obj (map_assign k v m)" "obj v \<Longrightarrow> map_fine obj (Map_EmplaceAt k v m)"
    and "map_fine obj (Map_Remove k m)" "map_of m k \<noteq> None \<Longrightarrow> map_fine obj (map_erase k m)"
    and "map_of m k = Some u \<Longrightarrow> obj u"
proof -
  have m: "ksorted m" "\<And>k v. map_of m k = Some v \<Longrightarrow> obj v" using assms by (simp_all add: map_fine_def)
  show "obj v \<Longrightarrow> map_fine obj (map_assign k v m)"
    using net_map.ok_put [OF m(1)] m(2) by (auto simp: map_fine_def map_of_assign)
  show "obj v \<Longrightarrow> map_fine obj (Map_EmplaceAt k v m)"
    using net_map.ok_try_put [OF m(1)] m(2)
    by (auto simp: map_fine_def Map_EmplaceAt_def map_of_emplace [OF m(1)] split: if_splits)
  show r: "map_fine obj (Map_Remove k m)"
    using net_map.ok_del [OF m(1)] m by (auto simp: map_fine_def Map_Remove_def map_of_erase split: if_splits)
  show "map_of m k \<noteq> None \<Longrightarrow> map_fine obj (map_erase k m)" using r unfolding Map_Remove_def by (cases "map_of m k") simp_all
  show "map_of m k = Some u \<Longrightarrow> obj u" by (rule m(2))
qed

lemma map_begin_fine: "itr_fine m (map_begin m)"
  by (cases m) (auto simp: itr_fine_def map_begin_def)

lemma map_next_fine:
  assumes "ksorted m"
  shows "itr_fine m (map_next m k)" "itr_fine (map_erase k m) (map_next m k)"
proof -
  have key: "map_of m k' \<noteq> None \<and> k' \<noteq> k" if n: "map_next m k = Some k'" for k'
  proof -
    obtain v rest where d: "dropWhile (\<lambda>kv. fst kv \<le> k) m = (k', v) # rest"
      using n by (cases "dropWhile (\<lambda>kv. fst kv \<le> k) m") (auto simp: map_next_def map_begin_def)
    then have "(k', v) \<in> set m" by (metis list.set_intros(1) set_dropWhileD)
    moreover have "\<not> k' \<le> k" using hd_dropWhile [of "\<lambda>kv. fst kv \<le> k" m] d by simp
    ultimately show ?thesis by (metis map_of_eq_None_iff fst_conv image_eqI order_refl)
  qed
  then show "itr_fine m (map_next m k)" "itr_fine (map_erase k m) (map_next m k)"
    by (auto simp: itr_fine_def map_of_erase [OF assms])
qed

lemma erase_dead_calm:
  "map_fine obj m \<Longrightarrow> itr_fine m itr \<Longrightarrow>
    calm (\<lambda>(m', itr'). map_fine obj m' \<and> itr_fine m' itr') (erase_dead kt input_index m itr)"
proof (induction kt input_index m itr rule: erase_dead.induct)
  case (1 kt input_index m itr)
  show ?case
  proof (cases itr)
    case (Some k)
    have k: "map_of m k \<noteq> None" using 1(3) Some by (simp add: itr_fine_def)
    have s: "ksorted m" using 1(2) by (simp add: map_fine_def)
    show ?thesis
    proof (cases "c_compare CmpLt kt k U64 (uint input_index)")
      case True
      then show ?thesis
        using 1(1) [OF Some True k map_fine_updates(4) [OF 1(2) k] map_next_fine(2) [OF s]] Some k
        by (simp add: erase_dead.simps [of _ _ m])
    qed (use 1 Some in \<open>simp add: erase_dead.simps [of _ _ m]\<close>)
  qed (use 1 in \<open>simp add: erase_dead.simps [of _ _ m]\<close>)
qed

lemma erase_rest_calm: "map_fine obj m \<Longrightarrow> itr_fine m itr \<Longrightarrow> calm (map_fine obj) (erase_rest m itr)"
proof (induction m itr rule: erase_rest.induct)
  case (1 m itr)
  show ?case
  proof (cases itr)
    case (Some k)
    have k: "map_of m k \<noteq> None" using 1(3) Some by (simp add: itr_fine_def)
    have s: "ksorted m" using 1(2) by (simp add: map_fine_def)
    show ?thesis
      using 1(1) [OF Some k map_fine_updates(4) [OF 1(2) k] map_next_fine(2) [OF s]] Some k
      by (simp add: erase_rest.simps [of m])
  qed (use 1 in \<open>simp add: erase_rest.simps [of m]\<close>)
qed

lemma map_deser_elems_calm:
  assumes "robust deser obj" "obj dflt" "b < 64"
  shows "map_fine obj m \<Longrightarrow> itr_fine m itr \<Longrightarrow> rinv r \<Longrightarrow>
    calm (\<lambda>((m', itr'), r'). (map_fine obj m' \<and> itr_fine m' itr') \<and> rinv r') (map_deser_elems kt b dflt deser n m itr r)"
proof (induction n arbitrary: m itr r)
  case (Suc n)
  show ?case
    unfolding map_deser_elems.simps Let_def
  proof (intro calm_bind2 [OF ReadUBits_calm [OF Suc.prems(3) assms(3)]]
      calm_bind2 [OF erase_dead_calm [OF Suc.prems(1,2)]] calm_if, goal_cases)
    case (1 x r1 m1 itr1)
    let ?k = "conv kt (uint x)"
    have m2: "map_fine obj (Map_EmplaceAt ?k dflt m1)" "ksorted m1"
      using 1 map_fine_updates(2) [of obj m1 dflt] assms(2) by (auto simp: map_fine_def)
    have "\<exists>old. map_of (Map_EmplaceAt ?k dflt m1) ?k = Some old"
      using m2(2) by (auto simp: Map_EmplaceAt_def map_of_emplace)
    then obtain old where old: "map_of (Map_EmplaceAt ?k dflt m1) ?k = Some old" by blast
    have i2: "itr_fine (map_assign ?k v (Map_EmplaceAt ?k dflt m1)) itr1" for v
      using 1 m2(2) by (auto simp: itr_fine_def Map_EmplaceAt_def map_of_emplace map_of_assign)
    show ?case
      unfolding old option.sel
      by (intro calm_bind2 [OF robustD [OF assms(1)]] Suc.IH)
        (use 1 i2 map_fine_updates(1,5) [OF m2(1)] old in auto)
  next
    case (2 x r1 m1 itr1)
    then obtain k where k: "itr1 = Some k" by (cases itr1) auto
    then obtain old where old: "map_of m1 k = Some old" using 2 by (auto simp: itr_fine_def)
    have s: "ksorted m1" using 2 by (simp add: map_fine_def)
    have i2: "itr_fine (map_assign k v m1) (map_next m1 k)" for v
      using map_next_fine(1) [OF s, of k] by (auto simp: itr_fine_def map_of_assign)
    show ?case
      unfolding k old option.case
      by (intro calm_bind2 [OF robustD [OF assms(1)]] Suc.IH)
        (use 2 i2 map_fine_updates(1,5) [of obj m1] old in auto)
  qed
qed simp

lemma Map_robust:
  assumes "robust deser obj" "obj dflt" "max_size < 2 ^ 63"
  shows "robust (NetDeserializer_Map kt max_size dflt deser) (map_fine obj)"
proof
  note b = size_bits(1) [OF assms(3)]
  have rest: "calm (\<lambda>(m', r'). map_fine obj m' \<and> rinv r') (ebind (erase_rest m itr) (\<lambda>m. Inr (m, r)))"
    if "map_fine obj m" "itr_fine m itr" "rinv r" for m itr r
    by (rule calm_bind [OF erase_rest_calm [OF that(1,2)]]) (use that(3) in simp)
  show "calm (\<lambda>(m', r'). map_fine obj m' \<and> rinv r') (NetDeserializer_Map kt max_size dflt deser m r)"
    if "rinv r" "map_fine obj m" for r m
    unfolding NetDeserializer_Map_def
    by (intro calm_bind2 [OF ReadUBits_calm [OF that(1) b]]
        calm_bind [OF map_deser_elems_calm [OF assms(1,2) b that(2) map_begin_fine]])
      (use rest in auto)
qed

lemma Map_delta_robust:
  assumes "robust deser obj" "robust dder obj" "obj dflt" "max_size < 2 ^ 63"
  shows "robust (NetDeserializerDelta_Map kt max_size dflt deser dder) (map_fine obj)"
proof
  note b = size_bits(1) [OF assms(4)]
  have elems: "calm (\<lambda>(m', r'). map_fine obj m' \<and> rinv r') (map_delta_deser_elems kt (size_bits max_size) dflt deser dder n m r)"
    if "rinv r" "map_fine obj m" for n m r
    using that
  proof (induction n arbitrary: m r)
    case (Suc n)
    show ?case
      unfolding map_delta_deser_elems.simps Let_def
    proof (intro calm_bind2 [OF ReadUBits_calm [OF Suc.prems(1) b]], goal_cases)
      case (1 x r1)
      let ?k = "conv kt (uint x)"
      show ?case
      proof (cases "Map_Get ?k m")
        case None
        have m2: "map_fine obj (Map_EmplaceAt ?k dflt m)" "ksorted m"
          using map_fine_updates(2) [OF Suc.prems(2) assms(3)] Suc.prems(2) by (auto simp: map_fine_def)
        have new: "map_of (Map_EmplaceAt ?k dflt m) ?k = Some dflt"
          using m2(2) None by (simp add: Map_Get_def Map_EmplaceAt_def map_of_emplace)
        show ?thesis
          unfolding None option.case new option.sel
          by (intro calm_bind2 [OF robustD [OF assms(1)]] Suc.IH)
            (use 1 assms(3) map_fine_updates(1) [OF m2(1)] in auto)
      next
        case (Some old)
        have "obj old" using map_fine_updates(5) [OF Suc.prems(2)] Some by (auto simp: Map_Get_def)
        then show ?thesis
          unfolding Some option.case
          by (intro calm_bind2 [OF ReadUBits_numeral_calm(1)] calm_if calm_bind2 [OF robustD [OF assms(2)]] Suc.IH)
            (use 1 map_fine_updates(1,3) [OF Suc.prems(2)] in auto)
      qed
    qed
  qed simp
  show "calm (\<lambda>(m', r'). map_fine obj m' \<and> rinv r') (NetDeserializerDelta_Map kt max_size dflt deser dder m r)"
    if "rinv r" "map_fine obj m" for r m
    unfolding NetDeserializerDelta_Map_def
    by (intro calm_bind2 [OF ReadUBits_calm [OF that(1) b]] elems) (use that in auto)
qed

section \<open>The sparse list\<close>

text \<open>
  The indices of a full list are below \<open>2 ^ Suc b\<close> for a key field of \<open>b\<close> bits: one that is not above the
  current index is taken for the current index.
\<close>

definition sparse_fine :: "('v \<Rightarrow> bool) \<Rightarrow> 'v NetSparseList \<Rightarrow> bool" where
  "sparse_fine obj L \<longleftrightarrow> good L \<and> (\<forall>i v. contents L i = Some v \<longrightarrow> obj v)"

lemma calm_alloc: "unless_alloc mal x y \<Longrightarrow> calm Q y \<Longrightarrow> calm Q x"
  by (auto simp: unless_alloc_def)

lemma sparse_fine_ops:
  assumes "sparse_fine obj L"
  shows "obj v \<Longrightarrow> k < 2 ^ 30 \<Longrightarrow> calm (\<lambda>L'. sparse_fine obj L' \<and> contents L' k \<noteq> None) (Sparse_EmplaceAt mal k v L)"
    and "calm (sparse_fine obj) (Sparse_RemoveAt k L)"
    and "obj v \<Longrightarrow> contents L k \<noteq> None \<Longrightarrow> calm (sparse_fine obj) (set_slot k (Live v) L)"
    and "calm (sparse_fine obj) (remove_all is L)" "calm (sparse_fine obj) (sparse_cleanup k L)"
    and "HasAt k L = Inr (contents L k \<noteq> None)"
    and "Sparse_index k L = (case contents L k of None \<Rightarrow> Inl OutOfRange | Some v \<Rightarrow> Inr v)"
    and "contents L k = Some u \<Longrightarrow> obj u"
proof -
  have g: "good L" and o: "\<And>i v. contents L i = Some v \<Longrightarrow> obj v" using assms by (simp_all add: sparse_fine_def)
  show "calm (\<lambda>L'. sparse_fine obj L' \<and> contents L' k \<noteq> None) (Sparse_EmplaceAt mal k v L)" if "obj v" "k < 2 ^ 30"
    by (rule calm_alloc [OF insert_alloc(2)]) (use good_EmplaceAt [OF g that(2), of v] that(1) o in \<open>auto simp: sparse_fine_def\<close>)
  show "calm (sparse_fine obj) (Sparse_RemoveAt k L)"
    using good_RemoveAt [OF g, of k] o by (auto simp: sparse_fine_def split: if_splits)
  show "calm (sparse_fine obj) (set_slot k (Live v) L)" if "obj v" "contents L k \<noteq> None"
    using good_set_slot [OF g that(2), of v] that(1) o by (auto simp: sparse_fine_def split: if_splits)
  show "calm (sparse_fine obj) (remove_all is L)"
    using remove_all_good [OF g, of "is"] o by (auto simp: sparse_fine_def split: if_splits)
  show "calm (sparse_fine obj) (sparse_cleanup k L)"
    using sparse_cleanup_good [OF g, of k] o by (auto simp: sparse_fine_def split: if_splits)
  show "HasAt k L = Inr (contents L k \<noteq> None)" by (rule good_HasAt [OF g])
  show "Sparse_index k L = (case contents L k of None \<Rightarrow> Inl OutOfRange | Some v \<Rightarrow> Inr v)" by (rule good_index [OF g])
  show "contents L k = Some u \<Longrightarrow> obj u" by (rule o)
qed

lemma sparse_update_calm:
  assumes "robust deser obj" "sparse_fine obj L" "contents L k \<noteq> None" "rinv r"
  shows "calm (\<lambda>(L', r'). sparse_fine obj L' \<and> rinv r') (sparse_update k deser L r)"
proof -
  obtain old where old: "contents L k = Some old" using assms(3) by blast
  have upd: "calm (sparse_fine obj) (set_slot k (Live v) L)" if "obj v" for v
    by (rule sparse_fine_ops(3) [OF assms(2) that assms(3)])
  show ?thesis
    unfolding sparse_update_def sparse_fine_ops(7) [OF assms(2)] old option.case ebind_Inr
    by (intro calm_bind2 [OF robustD [OF assms(1,4)]] calm_bind [OF upd])
      (use sparse_fine_ops(8) [OF assms(2) old] in auto)
qed

lemma sparse_deser_elems_calm:
  assumes "robust deser obj" "obj dflt" "b \<le> 28"
  shows "sparse_fine obj L \<Longrightarrow> rinv r \<Longrightarrow> cur + n < 2 ^ Suc b \<Longrightarrow> n < 2 ^ b \<Longrightarrow>
    calm (\<lambda>((cur', L'), r'). sparse_fine obj L' \<and> rinv r') (sparse_deser_elems mal b dflt deser n cur L r)"
proof (induction n arbitrary: cur L r)
  case (Suc n)
  have b: "b < 64" using assms(3) by simp
  have pow: "(2 :: nat) ^ b \<le> 2 ^ 28" "(2 :: nat) ^ Suc b \<le> 2 ^ 29"
    using power_increasing [of b 28 "2 :: nat"] assms(3) by simp_all
  show ?case
    unfolding sparse_deser_elems.simps Let_def
  proof (intro calm_bind2 [OF ReadUBits_calm [OF Suc.prems(2) b]], goal_cases)
    case (1 x r1)
    define k where "k = (if int cur < conv I32 (uint x) then nat (conv I32 (uint x)) else cur)"
    have x: "unat x < 2 ^ b" using 1 by simp
    then have "unat x < 2 ^ 31" using pow(1) by simp
    then have k: "k < 2 ^ b \<or> k = cur" using x by (simp add: k_def conv_I32_uint)
    then have k30: "k < 2 ^ 30" and next_ok: "Suc k + n < 2 ^ Suc b" "n < 2 ^ b"
      using pow Suc.prems(3,4) by auto
    have present: "calm (\<lambda>L'. sparse_fine obj L' \<and> contents L' k \<noteq> None)
        (if contents L1 k \<noteq> None then Inr L1 else Sparse_EmplaceAt mal k dflt L1)" if "sparse_fine obj L1" for L1
      using sparse_fine_ops(1) [OF that assms(2) k30] that by simp
    have placed: "calm (\<lambda>((cur', L'), r'). sparse_fine obj L' \<and> rinv r')
        (ebind (HasAt k L1) (\<lambda>has. ebind (if has then Inr L1 else Sparse_EmplaceAt mal k dflt L1)
          (\<lambda>val. ebind (sparse_update k deser val r1) (\<lambda>(val, r). sparse_deser_elems mal b dflt deser n (Suc k) val r))))"
      if "sparse_fine obj L1" for L1
      unfolding sparse_fine_ops(6) [OF that] ebind_Inr
      by (intro calm_bind [OF present [OF that]] calm_bind2 [OF sparse_update_calm [OF assms(1)]] Suc.IH)
        (use 1 next_ok in auto)
    show ?case
      unfolding k_def [symmetric]
      by (rule calm_bind [OF sparse_fine_ops(4) [OF Suc.prems(1)] placed])
  qed
qed simp

lemma Sparse_robust:
  assumes "robust deser obj" "obj dflt" "max_size < 2 ^ 28"
  shows "robust (NetDeserializer_Sparse mal max_size dflt deser) (sparse_fine obj)"
proof
  have b: "size_bits max_size < 64" "size_bits max_size \<le> 28"
    using size_bits(1) [of max_size] GetRequiredBits_le [of U64 "int max_size" 28] assms(3)
    by (simp_all add: wide_def in_ctype_def ctype_min_def ctype_max_def)
  have cleanup: "calm (\<lambda>(L', r'). sparse_fine obj L' \<and> rinv r') (ebind (sparse_cleanup cur L) (\<lambda>val. Inr (val, r)))"
    if "sparse_fine obj L" "rinv r" for cur L r
    by (rule calm_bind [OF sparse_fine_ops(5) [OF that(1)]]) (use that(2) in simp)
  show "calm (\<lambda>(L', r'). sparse_fine obj L' \<and> rinv r') (NetDeserializer_Sparse mal max_size dflt deser L r)"
    if "rinv r" "sparse_fine obj L" for r L
    unfolding NetDeserializer_Sparse_def
    by (intro calm_bind2 [OF ReadUBits_calm [OF that(1) b(1)]]
        calm_bind [OF sparse_deser_elems_calm [OF assms(1,2) b(2) that(2)]])
      (use cleanup in auto)
qed

interpretation map_of_flags: robust "NetDeserializer_Map U16 20 False NetDeserializer_bool" "map_fine (\<lambda>_. True)"
  by (rule Map_robust [OF bool_robust.robust_axioms]) simp_all

interpretation sparse_of_flags: robust "NetDeserializer_Sparse mal 20 False NetDeserializer_bool" "sparse_fine (\<lambda>_. True)"
  for mal
  by (rule Sparse_robust [OF bool_robust.robust_axioms]) simp_all

section \<open>Properties\<close>

text \<open>C16: array list, map and sparse list of elements with a robust deserializer have robust deserializers,
  and so have the differences of array list and map: from any bits at all they throw or yield a list within its
  capacity, a map with sorted keys and no key twice, a sparse list with its invariant, of well-formed elements.\<close>

theorem any_container:
  assumes "robust deser obj" "robust dder obj" "obj dflt" "n < 2 ^ 28"
  shows "robust (NetDeserializer_ArrayList n dflt deser) (\<lambda>vs. list_all obj vs \<and> length vs \<le> n)
    \<and> robust (NetDeserializerDelta_ArrayList n dflt deser dder) (\<lambda>vs. list_all obj vs \<and> length vs \<le> n)
    \<and> robust (NetDeserializer_Map kt n dflt deser) (map_fine obj)
    \<and> robust (NetDeserializerDelta_Map kt n dflt deser dder) (map_fine obj)
    \<and> robust (NetDeserializer_Sparse mal n dflt deser) (sparse_fine obj)"
  using ArrayList_robust [OF assms(1,3)] ArrayList_delta_robust [OF assms(1-3)] Map_robust [OF assms(1,3)]
    Map_delta_robust [OF assms(1-3)] Sparse_robust [OF assms(1,3,4)] assms(4) by simp

theorem any_container_witness:
  "calm (\<lambda>(m, r). map_fine (\<lambda>_. True) m) (NetDeserializer_Map U16 20 False NetDeserializer_bool [(3, True)]
     (NetBitReaderBuffer_init [0xFF, 0x12, 0x34]))"
proof -
  have "robust (NetDeserializer_Map U16 20 False NetDeserializer_bool) (map_fine (\<lambda>_. True))"
    using any_container [OF bool_robust.robust_axioms bool_robust.robust_axioms, where dflt = False and n = 20 and kt = U16] by simp
  then have "calm (\<lambda>(m, r). map_fine (\<lambda>_. True) m \<and> rinv r)
      (NetDeserializer_Map U16 20 False NetDeserializer_bool [(3, True)] (NetBitReaderBuffer_init [0xFF, 0x12, 0x34]))"
    by (rule robustD) (simp_all add: map_fine_def)
  then show ?thesis by (rule calm_mono) auto
qed

section \<open>A difference that is not robust\<close>

lemma EmplaceAt_uninitialised:
  assumes "conv I32 (int (k + 1)) \<le> 0"
  shows "Sparse_EmplaceAt mal k v NetSparseList_init = (if mal (k + 1) then Inl Undefined else Inl BadAlloc)"
proof (cases "mal (k + 1)")
  case True
  obtain vs where g: "Grow mal (k + 1) (NetSparseList_init :: 'a NetSparseList)
      = Inr \<lparr>m_HighestIndex = - 1, m_Capacity = k + 1, m_Values = vs\<rparr>" and vs: "vs = map (\<lambda>i. replicate (k + 1) Raw ! i) [0..<k + 1]"
    using assms True by (simp add: Grow_def Allocate_slots_def NetSparseList_init_def)
  have "vs ! k = Raw" "length vs = k + 1" by (simp_all add: vs del: upt_Suc replicate_Suc)
  then have "valid_at vs k = Inl Undefined" by (simp add: valid_at_def slot_at_def)
  moreover have "m_Capacity (NetSparseList_init :: 'a NetSparseList) = 0" by (simp add: NetSparseList_init_def)
  ultimately show ?thesis
    using g True by (simp add: Sparse_EmplaceAt_def GrowToFit_def raise_highest_def Let_def)
next
  case False
  then show ?thesis
    by (simp add: Sparse_EmplaceAt_def GrowToFit_def Grow_def Allocate_slots_def NetSparseList_init_def)
qed

abbreviation hostile :: "nat \<Rightarrow> NetBitReaderBuffer" where
  "hostile n \<equiv> \<lparr>rBytes = [5, 0, 0, 0, 4], rOffset = 0, rBit = n, rTotalBits = int n\<rparr>"

lemma hostile_reads:
  "ReadUBits 1 (NetBitReaderBuffer_init [5, 0, 0, 0, 4]) = Inr (1, hostile 1)"
  "ReadUBits (int (size_bits 1)) (hostile 1) = Inr (0, hostile 2)"
  "ReadUBits (int (int_bits (- 1 + 1))) (hostile 2) = Inr (1, hostile 3)"
  "ReadUBits (int (int_bits (- 1))) (hostile 3)
    = Inr (2 ^ 31, \<lparr>rBytes = [4], rOffset = 4, rBit = 3, rTotalBits = 35\<rparr>)"
  by code_simp+

text \<open>The difference of a sparse list is not robust. With the new highest index \<open>- 1\<close> its key field has
  32 bits, and one element may follow: five bytes make the receiver ask for more than \<open>2 ^ 31\<close> slots. If
  \<^verbatim>\<open>malloc\<close> serves the request, the flags of the slots are never initialised, because the bound of that loop is an
  \<^verbatim>\<open>int\<close>, and one of them is read.\<close>

lemma sparse_delta_hostile:
  "NetDeserializerDelta_Sparse mal 1 dflt deser dder NetSparseList_init (NetBitReaderBuffer_init [5, 0, 0, 0, 4])
    = (if mal (2 ^ 31 + 1) then Inl Undefined else Inl BadAlloc)"
proof -
  have 1: "ReadUBits 1 (NetBitReaderBuffer_init [5, 0, 0, 0, 4]) = Inr (1, hostile 1)"
    and 2: "ReadUBits (int (size_bits 1)) (hostile 1) = Inr (0, hostile 2)"
    and 3: "ReadUBits (int (int_bits (- 1 + 1))) (hostile 2) = Inr (1, hostile 3)"
    and 4: "ReadUBits (int (int_bits (- 1))) (hostile 3)
      = Inr (2 ^ 31, \<lparr>rBytes = [4], rOffset = 4, rBit = 3, rTotalBits = 35\<rparr>)"
    by (rule hostile_reads)+
  have h: "conv I32 (uint (0 - 1 :: u64)) = - 1" by code_simp
  have "conv I32 2147483649 \<le> 0" by code_simp
  moreover have "int (unat (2 ^ 31 :: u64) + 1) = 2147483649" by simp
  ultimately have k: "conv I32 (int (unat (2 ^ 31 :: u64) + 1)) \<le> 0" by (simp only:)
  have has: "HasAt i (NetSparseList_init :: 'a NetSparseList) = Inr False" for i
    by (simp add: HasAt_def NetSparseList_init_def)
  have n: "unat (2 ^ 31 :: u64) + 1 = 2 ^ 31 + 1" by simp
  have one: "unat (1 :: u64) = Suc 0" "(1 :: u64) \<noteq> 0" by simp_all
  show ?thesis
    unfolding NetDeserializerDelta_Sparse_def 1 ebind_Inr prod.case if_P [OF one(2)] 2 h 3 one(1)
      sparse_delta_deser_elems.simps 4 Let_def has
    by (simp only: EmplaceAt_uninitialised [OF k] n simp_thms if_True) (simp split: if_split)
qed

end
