(* ===== verification/Backend.thy ===== *)
theory Backend
  imports Robust
begin

text \<open>
  The ENet backends (\<^verbatim>\<open>NetClientBackendEnet\<close>, \<^verbatim>\<open>NetServerBackendEnet\<close>), and \<^verbatim>\<open>NetClient\<close> and \<^verbatim>\<open>NetServer\<close>
  as the interfaces they call.

  ENet is a parameter: \<open>'h\<close> is its host, \<open>'e\<close> the outgoing side of a peer (as in \<open>Transmitter\<close>), peers are
  numbers, and packets are their bytes. A backend's calls act on the backend itself, too: a callback may send,
  or disconnect. So they act on pairs of the backend and the state \<open>'w\<close> of the rest.
\<close>

section \<open>ENet\<close>

datatype enet_event =
    ENET_EVENT_TYPE_NONE
  | ENET_EVENT_TYPE_CONNECT nat u32 u16
  | ENET_EVENT_TYPE_RECEIVE nat "u8 list"
  | ENET_EVENT_TYPE_DISCONNECT nat

record ('h, 'e) enet =
  enet_host_service :: "'h \<Rightarrow> int \<times> enet_event \<times> 'h"
  enet_host_flush :: "'h \<Rightarrow> 'h"
  enet_host_destroy :: "'h \<Rightarrow> 'h"
  enet_peer_disconnect :: "'e \<Rightarrow> 'e"

text \<open>A transmitter with the members that only the backends use.\<close>

record 'e connection =
  cnTransmitter :: "'e NetTransmitterEnet"
  cnConnectionId :: nat
  cnDisconnected :: bool

definition NetTransmitterEnet_init :: "int \<Rightarrow> 'e \<Rightarrow> 'e connection" where
  "NetTransmitterEnet_init g_LagSim peer =
     \<lparr>cnTransmitter = \<lparr>teWriter = NetBitWriterVector_init, teWriterMode = kReliable, tePeer = peer,
        teLagSim = g_LagSim, tePendingPackets = [], teHeap = []\<rparr>,
      cnConnectionId = 0, cnDisconnected = False\<rparr>"

text \<open>\<^verbatim>\<open>Disconnect\<close> and \<^verbatim>\<open>ForceDisconnect\<close> on the transmitter.\<close>

definition disconnect_peer :: "('h, 'e) enet \<Rightarrow> 'e connection \<Rightarrow> 'e connection result" where
  "disconnect_peer N c =
     ebind (Enet_Clear (cnTransmitter c)) (\<lambda>t.
       Inr (c\<lparr>cnTransmitter := t\<lparr>tePeer := enet_peer_disconnect N (tePeer t)\<rparr>, cnDisconnected := True\<rparr>))"

section \<open>The client's backend\<close>

record 'x NetClientInterface =
  ciGotConnection :: "'x \<Rightarrow> 'x result"
  ciConnectionFailed :: "'x \<Rightarrow> 'x result"
  ciDisconnected :: "'x \<Rightarrow> 'x result"
  ciGotMessage :: "NetBitReaderBuffer \<Rightarrow> 'x \<Rightarrow> 'x result"

record ('h, 'e) NetClientBackendEnet =
  cbTransmitter :: "'e connection"
  cbHost :: 'h
  cbConnected :: bool

text \<open>\<open>created\<close> and \<open>enet_host_connect\<close> are what \<^verbatim>\<open>enet_host_create\<close> and \<^verbatim>\<open>enet_host_connect\<close> return.\<close>

definition NetClientBackendEnet_init ::
    "int \<Rightarrow> 'h option \<Rightarrow> ('h \<Rightarrow> 'e \<times> 'h) \<Rightarrow> ('h, 'e) NetClientBackendEnet result" where
  "NetClientBackendEnet_init g_LagSim created enet_host_connect =
     (case created of
        None \<Rightarrow> Inl RuntimeError
      | Some host \<Rightarrow>
          let (peer, host) = enet_host_connect host in
          Inr \<lparr>cbTransmitter = NetTransmitterEnet_init g_LagSim peer, cbHost = host, cbConnected = False\<rparr>)"

definition NetClientBackendEnet_destruct :: "('h, 'e) enet \<Rightarrow> ('h, 'e) NetClientBackendEnet \<Rightarrow> 'e \<times> 'h" where
  "NetClientBackendEnet_destruct N B =
     (enet_peer_disconnect N (tePeer (cnTransmitter (cbTransmitter B))),
      enet_host_destroy N (enet_host_flush N (cbHost B)))"

definition client_event ::
    "(('h, 'e) NetClientBackendEnet \<times> 'w) NetClientInterface \<Rightarrow> enet_event
       \<Rightarrow> ('h, 'e) NetClientBackendEnet \<times> 'w \<Rightarrow> (('h, 'e) NetClientBackendEnet \<times> 'w) result" where
  "client_event m_Interface e = (\<lambda>(B, w).
     case e of
       ENET_EVENT_TYPE_CONNECT peer host port \<Rightarrow> ciGotConnection m_Interface (B\<lparr>cbConnected := True\<rparr>, w)
     | ENET_EVENT_TYPE_RECEIVE peer data \<Rightarrow>
         if \<not> cnDisconnected (cbTransmitter B)
         then ciGotMessage m_Interface (NetBitReaderBuffer_init data) (B, w)
         else Inr (B, w)
     | ENET_EVENT_TYPE_DISCONNECT peer \<Rightarrow>
         if cbConnected B then ciConnectionFailed m_Interface (B, w) else ciDisconnected m_Interface (B, w)
     | ENET_EVENT_TYPE_NONE \<Rightarrow> Inr (B, w))"

partial_function (option) client_events ::
    "('h, 'e) enet \<Rightarrow> (('h, 'e) NetClientBackendEnet \<times> 'w) NetClientInterface
       \<Rightarrow> ('h, 'e) NetClientBackendEnet \<Rightarrow> 'w \<Rightarrow> (('h, 'e) NetClientBackendEnet \<times> 'w) result option" where
  "client_events N m_Interface B w =
     (case enet_host_service N (cbHost B) of (r, e, host) \<Rightarrow>
        if r = 0 then Some (Inr (B\<lparr>cbHost := host\<rparr>, w))
        else
          case client_event m_Interface e (B\<lparr>cbHost := host\<rparr>, w) of
            Inl err \<Rightarrow> Some (Inl err)
          | Inr s \<Rightarrow> client_events N m_Interface (fst s) (snd s))"

definition Client_Update ::
    "('h, 'e) enet \<Rightarrow> 'e enet_send \<Rightarrow> (nat \<Rightarrow> int) \<Rightarrow> (('h, 'e) NetClientBackendEnet \<times> 'w) NetClientInterface
       \<Rightarrow> ('h, 'e) NetClientBackendEnet \<Rightarrow> 'w \<Rightarrow> (('h, 'e) NetClientBackendEnet \<times> 'w) result option" where
  "Client_Update N send now m_Interface B w =
     (case Enet_Update send now (cnTransmitter (cbTransmitter B)) of
        Inl err \<Rightarrow> Some (Inl err)
      | Inr t \<Rightarrow> client_events N m_Interface (B\<lparr>cbTransmitter := (cbTransmitter B)\<lparr>cnTransmitter := t\<rparr>\<rparr>) w)"

definition Client_Disconnect ::
    "('h, 'e) enet \<Rightarrow> ('h, 'e) NetClientBackendEnet \<Rightarrow> ('h, 'e) NetClientBackendEnet result" where
  "Client_Disconnect N B =
     (if cnDisconnected (cbTransmitter B) then Inr B
      else ebind (disconnect_peer N (cbTransmitter B)) (\<lambda>c.
        Inr (B\<lparr>cbTransmitter := c, cbHost := enet_host_flush N (cbHost B)\<rparr>)))"

section \<open>The server's backend\<close>

record 'x NetServerInterface =
  siGotNewConnection :: "nat \<Rightarrow> u32 \<Rightarrow> u16 \<Rightarrow> 'x \<Rightarrow> 'x result"
  siConnectionLost :: "nat \<Rightarrow> 'x \<Rightarrow> 'x result"
  siGotMessage :: "nat \<Rightarrow> NetBitReaderBuffer \<Rightarrow> 'x \<Rightarrow> 'x result"

text \<open>
  \<^verbatim>\<open>StaticSizedAlloc\<close> of an external library, on its state \<open>'k\<close>: \<^verbatim>\<open>Allocate\<close> returns the id of the new
  element, \<^verbatim>\<open>None\<close> for \<^verbatim>\<open>nullptr\<close>, and a pointer to an element is its id.
\<close>

record ('k, 'v) static_alloc =
  alMaxAllocs :: "'k \<Rightarrow> nat"
  alElement :: "nat \<Rightarrow> 'k \<Rightarrow> 'v option"
  alAllocate :: "'v \<Rightarrow> 'k \<Rightarrow> nat option \<times> 'k"
  alUpdate :: "nat \<Rightarrow> 'v \<Rightarrow> 'k \<Rightarrow> 'k"
  alFree :: "nat \<Rightarrow> 'k \<Rightarrow> 'k"

text \<open>\<open>sbData p\<close> is \<^verbatim>\<open>p->data\<close>, the transmitter of the peer.\<close>

record ('h, 'k) NetServerBackendEnet =
  sbHost :: 'h
  sbTransmitters :: 'k
  sbData :: "nat \<Rightarrow> nat option"

text \<open>The settings the constructor uses are arguments of \<^verbatim>\<open>enet_host_create\<close> and of the allocator.\<close>

definition NetServerBackendEnet_init :: "'h option \<Rightarrow> 'k \<Rightarrow> ('h, 'k) NetServerBackendEnet result" where
  "NetServerBackendEnet_init created transmitters =
     (case created of
        None \<Rightarrow> Inl RuntimeError
      | Some host \<Rightarrow> Inr \<lparr>sbHost = host, sbTransmitters = transmitters, sbData = (\<lambda>_. None)\<rparr>)"

definition NetServerBackendEnet_destruct :: "('h, 'e) enet \<Rightarrow> ('h, 'k) NetServerBackendEnet \<Rightarrow> 'h" where
  "NetServerBackendEnet_destruct N B = enet_host_destroy N (sbHost B)"

fun update_transmitters ::
    "('k, 'e connection) static_alloc \<Rightarrow> 'e enet_send \<Rightarrow> (nat \<Rightarrow> nat \<Rightarrow> int) \<Rightarrow> nat list \<Rightarrow> 'k \<Rightarrow> 'k result" where
  "update_transmitters A send now [] ts = Inr ts"
| "update_transmitters A send now (index # is) ts =
     ebind (case alElement A index ts of
              None \<Rightarrow> Inr ts
            | Some tr \<Rightarrow>
                ebind (Enet_Update send (now index) (cnTransmitter tr)) (\<lambda>t.
                  Inr (alUpdate A index (tr\<lparr>cnTransmitter := t\<rparr>) ts)))
       (update_transmitters A send now is)"

definition server_event ::
    "('k, 'e connection) static_alloc \<Rightarrow> int \<Rightarrow> (nat \<Rightarrow> 'e) \<Rightarrow> (('h, 'k) NetServerBackendEnet \<times> 'w) NetServerInterface
       \<Rightarrow> enet_event \<Rightarrow> ('h, 'k) NetServerBackendEnet \<times> 'w \<Rightarrow> (('h, 'k) NetServerBackendEnet \<times> 'w) result" where
  "server_event A g_LagSim peers m_Interface e = (\<lambda>(B, w).
     case e of
       ENET_EVENT_TYPE_CONNECT peer host port \<Rightarrow>
         (case alAllocate A (NetTransmitterEnet_init g_LagSim (peers peer)) (sbTransmitters B) of
            (None, ts) \<Rightarrow> Inl Undefined
          | (Some tr, ts) \<Rightarrow>
              let id = take_bit 32 tr;
                  ts = alUpdate A tr ((NetTransmitterEnet_init g_LagSim (peers peer))\<lparr>cnConnectionId := id\<rparr>) ts
              in siGotNewConnection m_Interface id host port
                   (B\<lparr>sbTransmitters := ts, sbData := (sbData B)(peer := Some tr)\<rparr>, w))
     | ENET_EVENT_TYPE_RECEIVE peer data \<Rightarrow>
         (case sbData B peer of
            None \<Rightarrow> Inl Undefined
          | Some tr \<Rightarrow>
              (case alElement A tr (sbTransmitters B) of
                 None \<Rightarrow> Inl Undefined
               | Some c \<Rightarrow>
                   if \<not> cnDisconnected c
                   then siGotMessage m_Interface (take_bit 32 (cnConnectionId c)) (NetBitReaderBuffer_init data) (B, w)
                   else Inr (B, w)))
     | ENET_EVENT_TYPE_DISCONNECT peer \<Rightarrow>
         (case sbData B peer of
            None \<Rightarrow> Inl Undefined
          | Some tr \<Rightarrow>
              (case alElement A tr (sbTransmitters B) of
                 None \<Rightarrow> Inl Undefined
               | Some c \<Rightarrow>
                   ebind (siConnectionLost m_Interface (take_bit 32 (cnConnectionId c)) (B, w)) (\<lambda>(B, w).
                     Inr (B\<lparr>sbData := (sbData B)(peer := None), sbTransmitters := alFree A tr (sbTransmitters B)\<rparr>, w))))
     | ENET_EVENT_TYPE_NONE \<Rightarrow> Inr (B, w))"

partial_function (option) server_events ::
    "('h, 'e) enet \<Rightarrow> ('k, 'e connection) static_alloc \<Rightarrow> int \<Rightarrow> (nat \<Rightarrow> 'e)
       \<Rightarrow> (('h, 'k) NetServerBackendEnet \<times> 'w) NetServerInterface
       \<Rightarrow> ('h, 'k) NetServerBackendEnet \<Rightarrow> 'w \<Rightarrow> (('h, 'k) NetServerBackendEnet \<times> 'w) result option" where
  "server_events N A g_LagSim peers m_Interface B w =
     (case enet_host_service N (sbHost B) of (r, e, host) \<Rightarrow>
        if r = 0 then Some (Inr (B\<lparr>sbHost := host\<rparr>, w))
        else
          case server_event A g_LagSim peers m_Interface e (B\<lparr>sbHost := host\<rparr>, w) of
            Inl err \<Rightarrow> Some (Inl err)
          | Inr s \<Rightarrow> server_events N A g_LagSim peers m_Interface (fst s) (snd s))"

definition Server_Update ::
    "('h, 'e) enet \<Rightarrow> ('k, 'e connection) static_alloc \<Rightarrow> 'e enet_send \<Rightarrow> (nat \<Rightarrow> nat \<Rightarrow> int) \<Rightarrow> int \<Rightarrow> (nat \<Rightarrow> 'e)
       \<Rightarrow> (('h, 'k) NetServerBackendEnet \<times> 'w) NetServerInterface
       \<Rightarrow> ('h, 'k) NetServerBackendEnet \<Rightarrow> 'w \<Rightarrow> (('h, 'k) NetServerBackendEnet \<times> 'w) result option" where
  "Server_Update N A send now g_LagSim peers m_Interface B w =
     (case update_transmitters A send now [0..<alMaxAllocs A (sbTransmitters B)] (sbTransmitters B) of
        Inl err \<Rightarrow> Some (Inl err)
      | Inr ts \<Rightarrow> server_events N A g_LagSim peers m_Interface (B\<lparr>sbTransmitters := ts\<rparr>) w)"

definition ForceDisconnect ::
    "('h, 'e) enet \<Rightarrow> ('k, 'e connection) static_alloc \<Rightarrow> nat \<Rightarrow> ('h, 'k) NetServerBackendEnet
       \<Rightarrow> ('h, 'k) NetServerBackendEnet result" where
  "ForceDisconnect N A connection_id B =
     (case alElement A connection_id (sbTransmitters B) of
        None \<Rightarrow> Inl Undefined
      | Some tr \<Rightarrow>
          if cnDisconnected tr then Inr B
          else ebind (disconnect_peer N tr) (\<lambda>c.
            Inr (B\<lparr>sbTransmitters := alUpdate A connection_id c (sbTransmitters B)\<rparr>)))"

section \<open>The client and the server as interfaces\<close>

text \<open>\<open>P\<close> is \<^verbatim>\<open>m_Protocol\<close> of the client, \<open>a\<close> the application's state.\<close>

definition NetClient_interface ::
    "(('s, 'r) NetProtocol \<Rightarrow> 'b \<times> 'a \<Rightarrow> (('s, 'r) NetProtocol \<times> 'b \<times> 'a) result) \<Rightarrow> ('s, 'r) NetProtocol
       \<Rightarrow> 's got_ack \<Rightarrow> ('r, 'b \<times> 'a) got_message \<Rightarrow> ('b \<times> ('s, 'r) NetProtocol option \<times> 'a) NetClientInterface" where
  "NetClient_interface InitConnection protocol got_ack got =
     (let lift = (\<lambda>f (b, P, a). ebind (f (P, (b, a))) (\<lambda>(P, (b, a)). Inr (b, P, a))) in
      \<lparr>ciGotConnection = lift (Client_GotConnection InitConnection protocol),
       ciConnectionFailed = Inr,
       ciDisconnected = Inr,
       ciGotMessage = (\<lambda>reader. lift (Client_GotMessage got_ack got reader))\<rparr>)"

definition NetServer_interface ::
    "('c, 'cl \<times> ('s, 'r) NetProtocol) slot_array \<Rightarrow> (u32 \<Rightarrow> u16 \<Rightarrow> bool)
       \<Rightarrow> (nat \<Rightarrow> ('s, 'r) NetProtocol \<Rightarrow> 'b \<times> 'a \<Rightarrow> ('cl \<times> ('s, 'r) NetProtocol \<times> 'b \<times> 'a) result)
       \<Rightarrow> ('cl \<Rightarrow> ('s, 'r) NetProtocol \<Rightarrow> 'b \<times> 'a \<Rightarrow> ('b \<times> 'a) result) \<Rightarrow> ('s, 'r) NetProtocol
       \<Rightarrow> 's got_ack \<Rightarrow> ('r, 'b \<times> 'a) got_message \<Rightarrow> ('b \<times> 'c \<times> 'a) NetServerInterface" where
  "NetServer_interface S AllowNewConnection ConstructClient CleanupClient protocol got_ack got =
     (let lift = (\<lambda>f (b, c, a). ebind (f (c, (b, a))) (\<lambda>(c, (b, a)). Inr (b, c, a))) in
      \<lparr>siGotNewConnection = (\<lambda>id host port.
         lift (Server_GotNewConnection S AllowNewConnection ConstructClient protocol id host port)),
       siConnectionLost = (\<lambda>id. lift (Server_ConnectionLost S CleanupClient id)),
       siGotMessage = (\<lambda>id reader. lift (Server_GotMessage S got_ack got id reader))\<rparr>)"

section \<open>Runs of the loops\<close>

text \<open>The loop has handled the events \<open>es\<close>, none of them with an exception.\<close>

inductive client_handles ::
    "('h, 'e) enet \<Rightarrow> (('h, 'e) NetClientBackendEnet \<times> 'w) NetClientInterface
       \<Rightarrow> ('h, 'e) NetClientBackendEnet \<times> 'w \<Rightarrow> enet_event list \<Rightarrow> ('h, 'e) NetClientBackendEnet \<times> 'w \<Rightarrow> bool"
  for N m_Interface where
  none: "client_handles N m_Interface s [] s"
| event: "enet_host_service N (cbHost B) = (r, e, h) \<Longrightarrow> r \<noteq> 0 \<Longrightarrow>
    client_event m_Interface e (B\<lparr>cbHost := h\<rparr>, w) = Inr s \<Longrightarrow> client_handles N m_Interface s es s' \<Longrightarrow>
    client_handles N m_Interface (B, w) (e # es) s'"

inductive server_handles ::
    "('h, 'e) enet \<Rightarrow> ('k, 'e connection) static_alloc \<Rightarrow> int \<Rightarrow> (nat \<Rightarrow> 'e)
       \<Rightarrow> (('h, 'k) NetServerBackendEnet \<times> 'w) NetServerInterface
       \<Rightarrow> ('h, 'k) NetServerBackendEnet \<times> 'w \<Rightarrow> enet_event list \<Rightarrow> ('h, 'k) NetServerBackendEnet \<times> 'w \<Rightarrow> bool"
  for N A g peers m_Interface where
  none: "server_handles N A g peers m_Interface s [] s"
| event: "enet_host_service N (sbHost B) = (r, e, h) \<Longrightarrow> r \<noteq> 0 \<Longrightarrow>
    server_event A g peers m_Interface e (B\<lparr>sbHost := h\<rparr>, w) = Inr s \<Longrightarrow> server_handles N A g peers m_Interface s es s' \<Longrightarrow>
    server_handles N A g peers m_Interface (B, w) (e # es) s'"

text \<open>From the state \<open>s\<close> the loop ends with \<open>r\<close>: no event is left, or the next one's handler throws.\<close>

definition client_ends ::
    "(('h, 'e) NetClientBackendEnet \<times> 'w) NetClientInterface \<Rightarrow> ('h \<Rightarrow> enet_event list)
       \<Rightarrow> ('h, 'e) NetClientBackendEnet \<times> 'w \<Rightarrow> (('h, 'e) NetClientBackendEnet \<times> 'w) result \<Rightarrow> bool" where
  "client_ends m_Interface pending s r \<longleftrightarrow>
     (case r of
        Inr s' \<Rightarrow> pending (cbHost (fst s)) = [] \<and> (\<exists>h. pending h = [] \<and> s' = ((fst s)\<lparr>cbHost := h\<rparr>, snd s))
      | Inl err \<Rightarrow> err \<noteq> Undefined \<and> (\<exists>e es h. pending (cbHost (fst s)) = e # es \<and> pending h = es
          \<and> client_event m_Interface e ((fst s)\<lparr>cbHost := h\<rparr>, snd s) = Inl err))"

definition server_ends ::
    "('k, 'e connection) static_alloc \<Rightarrow> int \<Rightarrow> (nat \<Rightarrow> 'e) \<Rightarrow> (('h, 'k) NetServerBackendEnet \<times> 'w) NetServerInterface
       \<Rightarrow> ('h \<Rightarrow> enet_event list) \<Rightarrow> ('h, 'k) NetServerBackendEnet \<times> 'w
       \<Rightarrow> (('h, 'k) NetServerBackendEnet \<times> 'w) result \<Rightarrow> bool" where
  "server_ends A g peers m_Interface pending s r \<longleftrightarrow>
     (case r of
        Inr s' \<Rightarrow> pending (sbHost (fst s)) = [] \<and> (\<exists>h. pending h = [] \<and> s' = ((fst s)\<lparr>sbHost := h\<rparr>, snd s))
      | Inl err \<Rightarrow> err \<noteq> Undefined \<and> (\<exists>e es h. pending (sbHost (fst s)) = e # es \<and> pending h = es
          \<and> server_event A g peers m_Interface e ((fst s)\<lparr>sbHost := h\<rparr>, snd s) = Inl err))"

section \<open>What ENet promises\<close>

text \<open>
  \<open>pending h\<close> are the events that \<^verbatim>\<open>enet_host_service\<close> will report, one a call, before it returns 0; sending does
  not change them. A peer's connection begins with a connect event and ends with a disconnect event, messages
  come in between, and a host has at most as many connections as it was created with.
\<close>

definition enet_ok :: "('h, 'e) enet \<Rightarrow> ('h \<Rightarrow> enet_event list) \<Rightarrow> bool" where
  "enet_ok N pending \<longleftrightarrow>
     (\<forall>h. case enet_host_service N h of (r, e, h') \<Rightarrow>
        (pending h = [] \<longrightarrow> r = 0 \<and> pending h' = []) \<and> (pending h \<noteq> [] \<longrightarrow> 0 < r \<and> pending h = e # pending h'))
     \<and> (\<forall>h. pending (enet_host_flush N h) = pending h)"

fun client_lawful :: "bool \<Rightarrow> enet_event list \<Rightarrow> bool" where
  "client_lawful c [] \<longleftrightarrow> True"
| "client_lawful c (ENET_EVENT_TYPE_NONE # es) \<longleftrightarrow> client_lawful c es"
| "client_lawful c (ENET_EVENT_TYPE_CONNECT p h q # es) \<longleftrightarrow> \<not> c \<and> client_lawful True es"
| "client_lawful c (ENET_EVENT_TYPE_RECEIVE p d # es) \<longleftrightarrow> c \<and> client_lawful c es"
| "client_lawful c (ENET_EVENT_TYPE_DISCONNECT p # es) \<longleftrightarrow> client_lawful False es"

fun lawful :: "nat \<Rightarrow> nat set \<Rightarrow> enet_event list \<Rightarrow> bool" where
  "lawful n al [] \<longleftrightarrow> True"
| "lawful n al (ENET_EVENT_TYPE_NONE # es) \<longleftrightarrow> lawful n al es"
| "lawful n al (ENET_EVENT_TYPE_CONNECT p h q # es) \<longleftrightarrow> p \<notin> al \<and> card al < n \<and> lawful n (insert p al) es"
| "lawful n al (ENET_EVENT_TYPE_RECEIVE p d # es) \<longleftrightarrow> p \<in> al \<and> lawful n al es"
| "lawful n al (ENET_EVENT_TYPE_DISCONNECT p # es) \<longleftrightarrow> p \<in> al \<and> lawful n (al - {p}) es"

fun connected_after :: "nat set \<Rightarrow> enet_event list \<Rightarrow> nat set" where
  "connected_after al [] = al"
| "connected_after al (ENET_EVENT_TYPE_CONNECT p h q # es) = connected_after (insert p al) es"
| "connected_after al (ENET_EVENT_TYPE_DISCONNECT p # es) = connected_after (al - {p}) es"
| "connected_after al (_ # es) = connected_after al es"

lemma enet_service:
  assumes "enet_ok N pending" "enet_host_service N h = (r, e, h')"
  shows "pending h = [] \<Longrightarrow> r = 0 \<and> pending h' = []" "pending h \<noteq> [] \<Longrightarrow> r \<noteq> 0 \<and> pending h = e # pending h'"
proof -
  have "case enet_host_service N h of (r, e, h') \<Rightarrow>
      (pending h = [] \<longrightarrow> r = 0 \<and> pending h' = []) \<and> (pending h \<noteq> [] \<longrightarrow> 0 < r \<and> pending h = e # pending h')"
    using assms(1) unfolding enet_ok_def by (rule conjunct1 [THEN spec])
  then show "pending h = [] \<Longrightarrow> r = 0 \<and> pending h' = []" "pending h \<noteq> [] \<Longrightarrow> r \<noteq> 0 \<and> pending h = e # pending h'"
    using assms(2) by auto
qed

text \<open>A queue of packets stays one of blocks of their own; no freed block is read.\<close>

definition owns_queue :: "'e connection \<Rightarrow> bool" where
  "owns_queue c \<longleftrightarrow> queue_owns (teHeap (cnTransmitter c)) (tePendingPackets (cnTransmitter c))"

lemma enet_update_any:
  "queue_owns h ps \<Longrightarrow>
    \<exists>ps' h' peer'. enet_update send now k ps h peer = Inr (ps', h', peer') \<and> queue_owns h' ps'"
proof (induction ps arbitrary: h k peer)
  case Nil
  then show ?case by simp
next
  case (Cons p ps)
  let ?h = "h[ppData p := None]"
  from queue_owns_Cons [OF Cons.prems] obtain data where
    d: "h ! ppData p = Some data" "ppSize p = length data" "ppData p < length h" and o: "queue_owns ?h ps" by blast
  obtain ps' h' peer' where "enet_update send now (Suc k) ps ?h (send data (ppFlags p) peer) = Inr (ps', h', peer')"
      "queue_owns h' ps'"
    using Cons.IH [OF o] by blast
  then show ?case
    using d Cons.prems by (cases "now k < ppSendTime p") (auto simp: heap_free_def Let_def)
qed

lemma Enet_Update_any:
  assumes "owns_queue c"
  shows "\<exists>t. Enet_Update send now (cnTransmitter c) = Inr t \<and> owns_queue (c\<lparr>cnTransmitter := t\<rparr>)"
  using enet_update_any [OF assms [unfolded owns_queue_def], of send now 0 "tePeer (cnTransmitter c)"]
  by (auto simp: Enet_Update_def owns_queue_def)

section \<open>The client\<close>

text \<open>What a call of the interface may do to the backend: send and disconnect, not take events.\<close>

definition client_keeps ::
    "('h \<Rightarrow> enet_event list) \<Rightarrow> ('h, 'e) NetClientBackendEnet \<Rightarrow> ('h, 'e) NetClientBackendEnet \<Rightarrow> bool" where
  "client_keeps pending B B' \<longleftrightarrow> pending (cbHost B') = pending (cbHost B)"

locale client_interface =
  fixes pending :: "'h \<Rightarrow> enet_event list"
    and m_Interface :: "(('h, 'e) NetClientBackendEnet \<times> 'w) NetClientInterface"
    and ready :: "'w \<Rightarrow> bool"
  assumes connects: "calm (\<lambda>(B', w'). client_keeps pending B B' \<and> ready w') (ciGotConnection m_Interface (B, w))"
    and gets: "ready w \<Longrightarrow> calm (\<lambda>(B', w'). client_keeps pending B B' \<and> ready w')
        (ciGotMessage m_Interface (NetBitReaderBuffer_init data) (B, w))"
    and fails: "calm (\<lambda>(B', w'). client_keeps pending B B') (ciConnectionFailed m_Interface (B, w))"
    and loses: "calm (\<lambda>(B', w'). client_keeps pending B B') (ciDisconnected m_Interface (B, w))"

context client_interface
begin

lemma client_events_safe:
  assumes N: "enet_ok N pending"
  shows "client_lawful c (pending (cbHost B)) \<Longrightarrow> (c \<longrightarrow> ready w) \<Longrightarrow>
    \<exists>r es s. client_events N m_Interface B w = Some r \<and> client_handles N m_Interface (B, w) es s
      \<and> pending (cbHost B) = es @ pending (cbHost (fst s)) \<and> client_ends m_Interface pending s r"
proof (induction "pending (cbHost B)" arbitrary: c B w)
  case Nil
  obtain r e h' where s: "enet_host_service N (cbHost B) = (r, e, h')" by (metis prod_cases3)
  then have "client_events N m_Interface B w = Some (Inr (B\<lparr>cbHost := h'\<rparr>, w))" "pending h' = []"
    using enet_service(1) [OF N s] Nil.hyps by (simp_all add: client_events.simps [of N m_Interface B w])
  moreover have "client_handles N m_Interface (B, w) [] (B, w)" by (rule client_handles.none)
  ultimately show ?case using Nil.hyps by (fastforce simp: client_ends_def)
next
  case (Cons e es)
  obtain r e' h' where s: "enet_host_service N (cbHost B) = (r, e', h')" by (metis prod_cases3)
  have p: "r \<noteq> 0" "e' = e" "pending h' = es" using enet_service(2) [OF N s] Cons.hyps(2) [symmetric] by simp_all
  have l: "client_lawful c (e # es)" using Cons.prems(1) Cons.hyps(2) by simp
  let ?B = "B\<lparr>cbHost := h'\<rparr>"
  define c' where "c' = (case e of ENET_EVENT_TYPE_CONNECT _ _ _ \<Rightarrow> True
    | ENET_EVENT_TYPE_DISCONNECT _ \<Rightarrow> False | _ \<Rightarrow> c)"
  have l': "client_lawful c' es" using l by (cases e; cases c) (simp_all add: c'_def)
  have step: "calm (\<lambda>(B', w'). client_keeps pending ?B B' \<and> (c' \<longrightarrow> ready w')) (client_event m_Interface e (?B, w))"
  proof (cases e)
    case (ENET_EVENT_TYPE_CONNECT p h q)
    then show ?thesis
      using connects [of "?B\<lparr>cbConnected := True\<rparr>" w]
      by (auto simp: client_event_def c'_def client_keeps_def elim!: calm_mono)
  next
    case (ENET_EVENT_TYPE_RECEIVE p d)
    then show ?thesis
      using gets [of w ?B d] Cons.prems(2) l by (auto simp: client_event_def c'_def client_keeps_def elim!: calm_mono)
  next
    case (ENET_EVENT_TYPE_DISCONNECT p)
    then show ?thesis
      using fails [of ?B w] loses [of ?B w] by (auto simp: client_event_def c'_def elim!: calm_mono)
  qed (use Cons.prems(2) in \<open>simp add: client_event_def c'_def client_keeps_def\<close>)
  show ?case
  proof (cases "client_event m_Interface e (?B, w)")
    case (Inl err)
    then have "client_events N m_Interface B w = Some (Inl err)" "err \<noteq> Undefined"
      using step s p by (simp_all add: client_events.simps [of N m_Interface B w])
    moreover have "client_handles N m_Interface (B, w) [] (B, w)" by (rule client_handles.none)
    moreover have "client_ends m_Interface pending (B, w) (Inl err)"
      unfolding client_ends_def using Inl p(3) Cons.hyps(2) [symmetric] \<open>err \<noteq> Undefined\<close> by auto
    moreover have "pending (cbHost B) = [] @ pending (cbHost (fst (B, w)))" by simp
    ultimately show ?thesis by blast
  next
    case (Inr x)
    obtain B' w' where x: "x = (B', w')" by (cases x)
    have k: "pending (cbHost B') = es" "c' \<longrightarrow> ready w'" using step Inr x p(3) by (simp_all add: client_keeps_def)
    have "\<exists>r fs s. client_events N m_Interface B' w' = Some r \<and> client_handles N m_Interface (B', w') fs s
        \<and> pending (cbHost B') = fs @ pending (cbHost (fst s)) \<and> client_ends m_Interface pending s r"
      by (rule Cons.hyps(1) [OF k(1) [symmetric] _ k(2)]) (use l' k(1) in simp)
    then obtain r2 fs s2 where r2: "client_events N m_Interface B' w' = Some r2"
        "client_handles N m_Interface (B', w') fs s2" "es = fs @ pending (cbHost (fst s2))"
        "client_ends m_Interface pending s2 r2" using k(1) by auto
    have "client_events N m_Interface B w = Some r2"
      using Inr x s p r2(1) by (simp add: client_events.simps [of N m_Interface B w])
    moreover have "client_handles N m_Interface (B, w) (e # fs) s2"
      using client_handles.event [OF s p(1), of m_Interface w "(B', w')"] Inr x p(2) r2(2) by simp
    moreover have "pending (cbHost B) = (e # fs) @ pending (cbHost (fst s2))" using Cons.hyps(2) r2(3) by simp
    ultimately show ?thesis using r2(4) by blast
  qed
qed

lemma Client_Update_safe:
  assumes "enet_ok N pending" "owns_queue (cbTransmitter B)" "client_lawful c (pending (cbHost B))" "c \<longrightarrow> ready w"
  shows "\<exists>r t es s. Client_Update N send now m_Interface B w = Some r
    \<and> Enet_Update send now (cnTransmitter (cbTransmitter B)) = Inr t
    \<and> client_handles N m_Interface (B\<lparr>cbTransmitter := (cbTransmitter B)\<lparr>cnTransmitter := t\<rparr>\<rparr>, w) es s
    \<and> pending (cbHost B) = es @ pending (cbHost (fst s)) \<and> client_ends m_Interface pending s r"
proof -
  obtain t where "Enet_Update send now (cnTransmitter (cbTransmitter B)) = Inr t"
    using Enet_Update_any [OF assms(2)] by blast
  then show ?thesis
    using client_events_safe [OF assms(1), of c "B\<lparr>cbTransmitter := (cbTransmitter B)\<lparr>cnTransmitter := t\<rparr>\<rparr>" w] assms(3,4)
    by (simp add: Client_Update_def)
qed

end

text \<open>
  \<^verbatim>\<open>NetClient\<close> is such an interface, whatever bytes it is sent, if its pipes are calm and the application only
  sends and disconnects in its callbacks: the protocol is there from the connection on.
\<close>

definition client_app :: "('h \<Rightarrow> enet_event list) \<Rightarrow> enet_event list \<Rightarrow> ('h, 'e) NetClientBackendEnet \<times> 'a \<Rightarrow> bool" where
  "client_app pending es e \<longleftrightarrow> pending (cbHost (fst e)) = es"

lemma NetClient_is_interface:
  assumes "\<And>es P e. client_app pending es e \<Longrightarrow> protocol_ok sok rok P \<Longrightarrow>
      calm (\<lambda>(P', e'). protocol_ok sok rok P' \<and> client_app pending es e') (InitConnection P e)"
    and "protocol_ok sok rok protocol" "acks_calm sok got_ack" "\<And>es. gets_calm rok (client_app pending es) got"
  shows "client_interface pending (NetClient_interface InitConnection protocol got_ack got)
    (\<lambda>(P, a). \<exists>Q. P = Some Q \<and> protocol_ok sok rok Q)"
proof
  show "calm (\<lambda>(B', w'). client_keeps pending B B' \<and> (case w' of (P, a) \<Rightarrow> \<exists>Q. P = Some Q \<and> protocol_ok sok rok Q))
      (ciGotConnection (NetClient_interface InitConnection protocol got_ack got) (B, w))" for B w
  proof -
    obtain P a where w: "w = (P, a)" by (cases w)
    have "calm (\<lambda>(P', e'). protocol_ok sok rok P' \<and> client_app pending (pending (cbHost B)) e') (InitConnection protocol (B, a))"
      by (rule assms(1) [OF _ assms(2)]) (simp add: client_app_def)
    then show ?thesis
      unfolding w NetClient_interface_def Client_GotConnection_def Let_def
      by (cases "InitConnection protocol (B, a)") (auto simp: client_keeps_def client_app_def)
  qed
  show "calm (\<lambda>(B', w'). client_keeps pending B B' \<and> (case w' of (P, a) \<Rightarrow> \<exists>Q. P = Some Q \<and> protocol_ok sok rok Q))
      (ciGotMessage (NetClient_interface InitConnection protocol got_ack got) (NetBitReaderBuffer_init data) (B, w))"
    if P: "case w of (P, a) \<Rightarrow> \<exists>Q. P = Some Q \<and> protocol_ok sok rok Q" for data B w
  proof -
    obtain Q a where w: "w = (Some Q, a)" and Q: "protocol_ok sok rok Q" using P by (cases w) auto
    have "calm (\<lambda>(r', P', e'). rinv r' \<and> protocol_ok sok rok P' \<and> client_app pending (pending (cbHost B)) e')
        (Protocol_GotMessage got_ack got (NetBitReaderBuffer_init data) (Q, (B, a)))"
      by (rule Protocol_calm [OF assms(3,4) Q]) (simp_all add: client_app_def)
    then show ?thesis
      unfolding w NetClient_interface_def Client_GotMessage_def Let_def
      by (cases "Protocol_GotMessage got_ack got (NetBitReaderBuffer_init data) (Q, (B, a))")
        (auto simp: client_keeps_def client_app_def)
  qed
qed (auto simp: NetClient_interface_def client_keeps_def)

section \<open>The server\<close>

text \<open>What \<^verbatim>\<open>StaticSizedAlloc\<close> promises, for a capacity of \<open>n\<close> elements.\<close>

definition alloc_ok :: "('k, 'v) static_alloc \<Rightarrow> nat \<Rightarrow> bool" where
  "alloc_ok A n \<longleftrightarrow>
     (\<forall>v m. case alAllocate A v m of
        (None, m') \<Rightarrow> \<forall>i<n. alElement A i m \<noteq> None
      | (Some j, m') \<Rightarrow> j < n \<and> alElement A j m = None
          \<and> (\<forall>i. alElement A i m' = (if i = j then Some v else alElement A i m)))
     \<and> (\<forall>j v m i. alElement A j m \<noteq> None \<longrightarrow> alElement A i (alUpdate A j v m) = (if i = j then Some v else alElement A i m))
     \<and> (\<forall>j m i. alElement A i (alFree A j m) = (if i = j then None else alElement A i m))
     \<and> (\<forall>m. alMaxAllocs A m = n)"

lemma alloc_Allocate:
  assumes "alloc_ok A n"
  shows "alAllocate A v m = (None, m') \<Longrightarrow> i < n \<Longrightarrow> alElement A i m \<noteq> None"
    and "alAllocate A v m = (Some j, m') \<Longrightarrow>
      j < n \<and> alElement A j m = None \<and> (\<forall>i. alElement A i m' = (if i = j then Some v else alElement A i m))"
proof -
  have a: "case alAllocate A v m of
        (None, m') \<Rightarrow> \<forall>i<n. alElement A i m \<noteq> None
      | (Some j, m') \<Rightarrow> j < n \<and> alElement A j m = None
          \<and> (\<forall>i. alElement A i m' = (if i = j then Some v else alElement A i m))"
    by (rule assms [unfolded alloc_ok_def, THEN conjunct1, THEN spec, THEN spec])
  show "alAllocate A v m = (None, m') \<Longrightarrow> i < n \<Longrightarrow> alElement A i m \<noteq> None" using a by simp
  show "alAllocate A v m = (Some j, m') \<Longrightarrow>
      j < n \<and> alElement A j m = None \<and> (\<forall>i. alElement A i m' = (if i = j then Some v else alElement A i m))"
    using a by simp
qed

lemma alloc_simps:
  assumes "alloc_ok A n"
  shows "alElement A j m \<noteq> None \<Longrightarrow> alElement A i (alUpdate A j v m) = (if i = j then Some v else alElement A i m)"
    and "alElement A i (alFree A j m) = (if i = j then None else alElement A i m)"
    and "alMaxAllocs A m = n"
  using assms unfolding alloc_ok_def by blast+

text \<open>
  The invariant: exactly the connected peers have a transmitter, each its own, which knows its id and owns its
  queue. \<open>ids\<close> are the ids in use.
\<close>

definition ids :: "('k, 'e connection) static_alloc \<Rightarrow> 'k \<Rightarrow> nat set" where
  "ids A ts = {i. alElement A i ts \<noteq> None}"

definition sound :: "('k, 'e connection) static_alloc \<Rightarrow> nat \<Rightarrow> 'k \<Rightarrow> bool" where
  "sound A n ts \<longleftrightarrow> (\<forall>i c. alElement A i ts = Some c \<longrightarrow> cnConnectionId c = i \<and> i < n \<and> owns_queue c)"

definition tied :: "('k, 'e connection) static_alloc \<Rightarrow> nat \<Rightarrow> nat set \<Rightarrow> ('h, 'k) NetServerBackendEnet \<Rightarrow> bool" where
  "tied A n al B \<longleftrightarrow> finite al \<and> inj_on (sbData B) al \<and> (\<forall>p. p \<in> al \<longleftrightarrow> sbData B p \<noteq> None)
     \<and> sbData B ` al = Some ` ids A (sbTransmitters B) \<and> sound A n (sbTransmitters B)"

text \<open>What a call of the interface may do to the backend: send on its connections and disconnect them.\<close>

definition server_keeps ::
    "('k, 'e connection) static_alloc \<Rightarrow> nat \<Rightarrow> ('h \<Rightarrow> enet_event list) \<Rightarrow> ('h, 'k) NetServerBackendEnet
       \<Rightarrow> ('h, 'k) NetServerBackendEnet \<Rightarrow> bool" where
  "server_keeps A n pending B B' \<longleftrightarrow>
     pending (sbHost B') = pending (sbHost B) \<and> sbData B' = sbData B
     \<and> ids A (sbTransmitters B') = ids A (sbTransmitters B) \<and> sound A n (sbTransmitters B')"

lemma tied_keeps: "tied A n al B \<Longrightarrow> server_keeps A n pending B B' \<Longrightarrow> tied A n al B'"
  by (simp add: tied_def server_keeps_def)

lemma tied_sound: "tied A n al B \<Longrightarrow> sound A n (sbTransmitters B)"
  by (simp add: tied_def)

lemma tied_card: assumes "tied A n al B" shows "card (ids A (sbTransmitters B)) = card al"
proof -
  have "card (Some ` ids A (sbTransmitters B)) = card al" using assms card_image [of "sbData B" al] by (simp add: tied_def)
  then show ?thesis by (simp add: card_image)
qed

lemma tied_peer:
  assumes "tied A n al B" "p \<in> al"
  obtains j c where "sbData B p = Some j" "alElement A j (sbTransmitters B) = Some c" "cnConnectionId c = j" "j < n"
    "j \<in> ids A (sbTransmitters B)"
proof -
  obtain j where j: "sbData B p = Some j" using assms by (auto simp: tied_def)
  moreover have "sbData B p \<in> Some ` ids A (sbTransmitters B)" using assms unfolding tied_def by blast
  ultimately have i: "j \<in> ids A (sbTransmitters B)" by auto
  then obtain c where c: "alElement A j (sbTransmitters B) = Some c" by (auto simp: ids_def)
  moreover have "cnConnectionId c = j \<and> j < n" using tied_sound [OF assms(1)] c by (simp add: sound_def)
  ultimately show thesis using that j i by blast
qed

text \<open>There is room for a new connection, and the new transmitter is its own.\<close>

lemma connect_allocates:
  assumes "tied A n al B" "alloc_ok A n" "card al < n"
  obtains j ts where "alAllocate A v (sbTransmitters B) = (Some j, ts)" "j < n" "j \<notin> ids A (sbTransmitters B)"
    "\<And>i. alElement A i ts = (if i = j then Some v else alElement A i (sbTransmitters B))"
proof (cases "alAllocate A v (sbTransmitters B)")
  case (Pair x ts)
  show thesis
  proof (cases x)
    case None
    have "ids A (sbTransmitters B) \<subseteq> {..<n}" using tied_sound [OF assms(1)] by (auto simp: ids_def sound_def)
    moreover have "{..<n} \<subseteq> ids A (sbTransmitters B)"
      using alloc_Allocate(1) [OF assms(2) Pair [unfolded None]] by (auto simp: ids_def)
    ultimately have "card (ids A (sbTransmitters B)) = n" by (metis card_lessThan subset_antisym)
    then show thesis using tied_card [OF assms(1)] assms(3) by simp
  next
    case (Some j)
    show thesis
      by (rule that [OF Pair [unfolded Some]])
        (use alloc_Allocate(2) [OF assms(2) Pair [unfolded Some]] in \<open>auto simp: ids_def\<close>)
  qed
qed

lemma owns_queue_init [simp]: "owns_queue (NetTransmitterEnet_init g peer)"
  by (simp add: owns_queue_def NetTransmitterEnet_init_def queue_owns_def)


text \<open>The loop over the transmitters: each is flushed.\<close>

lemma update_transmitters_safe:
  assumes A: "alloc_ok A n"
  shows "sound A n ts \<Longrightarrow>
    \<exists>ts'. update_transmitters A send now is ts = Inr ts' \<and> sound A n ts' \<and> ids A ts' = ids A ts"
proof (induction "is" arbitrary: ts)
  case Nil
  then show ?case by simp
next
  case (Cons i js)
  show ?case
  proof (cases "alElement A i ts")
    case None
    then show ?thesis using Cons.IH [OF Cons.prems] by simp
  next
    case (Some c)
    then obtain t where t: "Enet_Update send (now i) (cnTransmitter c) = Inr t" "owns_queue (c\<lparr>cnTransmitter := t\<rparr>)"
      using Cons.prems Enet_Update_any [of c send "now i"] by (auto simp: sound_def)
    define ts1 where "ts1 = alUpdate A i (c\<lparr>cnTransmitter := t\<rparr>) ts"
    have e: "alElement A j ts1 = (if j = i then Some (c\<lparr>cnTransmitter := t\<rparr>) else alElement A j ts)" for j
      using alloc_simps(1) [OF A, of i ts j] Some by (simp add: ts1_def)
    have s: "sound A n ts1" "ids A ts1 = ids A ts" using Cons.prems t(2) Some by (auto simp: sound_def ids_def e)
    show ?thesis using Cons.IH [OF s(1)] s(2) Some t(1) by (simp add: ts1_def)
  qed
qed

locale server_interface =
  fixes A :: "('k, 'e connection) static_alloc"
    and n :: nat
    and pending :: "'h \<Rightarrow> enet_event list"
    and m_Interface :: "(('h, 'k) NetServerBackendEnet \<times> 'w) NetServerInterface"
    and holds :: "nat set \<Rightarrow> 'w \<Rightarrow> bool"
  assumes alloc: "alloc_ok A n"
    and capacity: "n < 2 ^ 32"
    and new: "holds S w \<Longrightarrow> j \<notin> S \<Longrightarrow> j < n \<Longrightarrow> sound A n (sbTransmitters B) \<Longrightarrow>
        calm (\<lambda>(B', w'). server_keeps A n pending B B' \<and> holds (insert j S) w')
          (siGotNewConnection m_Interface j host port (B, w))"
    and lost: "holds S w \<Longrightarrow> sound A n (sbTransmitters B) \<Longrightarrow>
        calm (\<lambda>(B', w'). server_keeps A n pending B B' \<and> holds (S - {j}) w') (siConnectionLost m_Interface j (B, w))"
    and got: "holds S w \<Longrightarrow> j \<in> S \<Longrightarrow> sound A n (sbTransmitters B) \<Longrightarrow>
        calm (\<lambda>(B', w'). server_keeps A n pending B B' \<and> holds S w')
          (siGotMessage m_Interface j (NetBitReaderBuffer_init data) (B, w))"

context server_interface
begin

abbreviation state_ok where
  "state_ok al es \<equiv> \<lambda>(B, w). tied A n al B \<and> holds (ids A (sbTransmitters B)) w \<and> pending (sbHost B) = es"

lemma bounded_id: "j < n \<Longrightarrow> take_bit 32 j = j"
  using capacity by (simp add: take_bit_nat_eq_self)

lemma connect_safe:
  assumes "state_ok al es (B, w)" "p \<notin> al" "card al < n"
  shows "calm (state_ok (insert p al) es)
    (server_event A g peers m_Interface (ENET_EVENT_TYPE_CONNECT p host port) (B, w))"
proof -
  have t: "tied A n al B" and h: "holds (ids A (sbTransmitters B)) w" using assms(1) by simp_all
  let ?v = "NetTransmitterEnet_init g (peers p)"
  obtain j ts where a: "alAllocate A ?v (sbTransmitters B) = (Some j, ts)" "j < n" "j \<notin> ids A (sbTransmitters B)"
    and e: "\<And>i. alElement A i ts = (if i = j then Some ?v else alElement A i (sbTransmitters B))"
    using connect_allocates [OF t alloc assms(3)] by metis
  define ts' where "ts' = alUpdate A j (?v\<lparr>cnConnectionId := j\<rparr>) ts"
  have e': "alElement A i ts' = (if i = j then Some (?v\<lparr>cnConnectionId := j\<rparr>) else alElement A i (sbTransmitters B))" for i
    using alloc_simps(1) [OF alloc, of j ts i] by (simp add: ts'_def e)
  have i: "ids A ts' = insert j (ids A (sbTransmitters B))" by (auto simp: ids_def e')
  have own: "owns_queue (?v\<lparr>cnConnectionId := j\<rparr>)"
    using owns_queue_init [of g "peers p"] by (simp add: owns_queue_def)
  have s: "sound A n ts'" using tied_sound [OF t] a(2) own by (auto simp: sound_def e')
  define B1 where "B1 = B\<lparr>sbTransmitters := ts', sbData := (sbData B)(p := Some j)\<rparr>"
  have old: "Some j \<notin> sbData B ` al" using t a(3) by (auto simp: tied_def)
  have im: "sbData B1 ` al = sbData B ` al" by (rule image_cong) (use assms(2) in \<open>auto simp: B1_def\<close>)
  have t1: "tied A n (insert p al) B1"
    unfolding tied_def
  proof (intro conjI)
    have "inj_on (sbData B1) al" using t old by (simp add: B1_def tied_def inj_on_fun_updI)
    moreover have "sbData B1 p \<notin> sbData B1 ` (al - {p})" using old assms(2) im by (simp add: B1_def)
    ultimately show "inj_on (sbData B1) (insert p al)" by (simp add: inj_on_insert)
    show "sbData B1 ` insert p al = Some ` ids A (sbTransmitters B1)"
      using t im by (simp only: image_insert) (simp add: B1_def i tied_def)
  qed (use t s in \<open>auto simp: B1_def tied_def\<close>)
  have "calm (\<lambda>(B', w'). server_keeps A n pending B1 B' \<and> holds (insert j (ids A (sbTransmitters B))) w')
      (siGotNewConnection m_Interface j host port (B1, w))"
    by (rule new [OF h a(3,2)]) (simp add: B1_def s)
  then have "calm (state_ok (insert p al) es) (siGotNewConnection m_Interface j host port (B1, w))"
    by (rule calm_mono)
      (use tied_keeps [OF t1] assms(1) in \<open>auto simp: server_keeps_def B1_def i\<close>)
  then show ?thesis using a(1,2) by (simp add: server_event_def bounded_id B1_def ts'_def Let_def)
qed

lemma receive_safe:
  assumes "state_ok al es (B, w)" "p \<in> al"
  shows "calm (state_ok al es) (server_event A g peers m_Interface (ENET_EVENT_TYPE_RECEIVE p d) (B, w))"
proof -
  have t: "tied A n al B" and h: "holds (ids A (sbTransmitters B)) w" using assms(1) by simp_all
  obtain j c where c: "sbData B p = Some j" "alElement A j (sbTransmitters B) = Some c" "cnConnectionId c = j" "j < n"
      "j \<in> ids A (sbTransmitters B)"
    by (rule tied_peer [OF t assms(2)])
  have "calm (state_ok al es) (siGotMessage m_Interface j (NetBitReaderBuffer_init d) (B, w))"
    by (rule calm_mono [OF got [OF h c(5) tied_sound [OF t], of d]])
      (use tied_keeps [OF t] assms(1) in \<open>auto simp: server_keeps_def\<close>)
  then show ?thesis using assms(1) c(1-4) by (simp add: server_event_def bounded_id)
qed

lemma disconnect_safe:
  assumes "state_ok al es (B, w)" "p \<in> al"
  shows "calm (state_ok (al - {p}) es) (server_event A g peers m_Interface (ENET_EVENT_TYPE_DISCONNECT p) (B, w))"
proof -
  have t: "tied A n al B" and h: "holds (ids A (sbTransmitters B)) w" using assms(1) by simp_all
  obtain j c where c: "sbData B p = Some j" "alElement A j (sbTransmitters B) = Some c" "cnConnectionId c = j" "j < n"
      "j \<in> ids A (sbTransmitters B)"
    by (rule tied_peer [OF t assms(2)])
  have freed: "state_ok (al - {p}) es (B'\<lparr>sbData := (sbData B')(p := None), sbTransmitters := alFree A j (sbTransmitters B')\<rparr>, w')"
    if k: "server_keeps A n pending B B'" and h': "holds (ids A (sbTransmitters B) - {j}) w'" for B' w'
  proof -
    have t': "tied A n al B'" by (rule tied_keeps [OF t k])
    have d: "sbData B' p = Some j" using k c(1) by (simp add: server_keeps_def)
    have i: "ids A (alFree A j m) = ids A m - {j}" for m by (auto simp: ids_def alloc_simps(2) [OF alloc])
    have "inj_on (sbData B') al" using t' by (simp add: tied_def)
    then have im: "sbData B' ` (al - {p}) = sbData B' ` al - {Some j}"
      using d assms(2) by (simp add: inj_on_image_set_diff [of _ al])
    define B2 where "B2 = B'\<lparr>sbData := (sbData B')(p := None), sbTransmitters := alFree A j (sbTransmitters B')\<rparr>"
    have "tied A n (al - {p}) B2"
      unfolding tied_def
    proof (intro conjI)
      show "inj_on (sbData B2) (al - {p})" using t' by (auto simp: tied_def inj_on_def B2_def)
      have "sbData B2 ` (al - {p}) = sbData B' ` (al - {p})" by (rule image_cong) (auto simp: B2_def)
      also have "\<dots> = Some ` ids A (sbTransmitters B') - {Some j}" using t' by (simp add: im tied_def)
      also have "\<dots> = Some ` ids A (sbTransmitters B2)" by (auto simp: B2_def i)
      finally show "sbData B2 ` (al - {p}) = Some ` ids A (sbTransmitters B2)" .
      show "sound A n (sbTransmitters B2)"
        using tied_sound [OF t'] by (simp add: sound_def B2_def alloc_simps(2) [OF alloc])
    qed (use t' in \<open>auto simp: tied_def B2_def\<close>)
    then show ?thesis using k h' assms(1) by (simp add: server_keeps_def i B2_def)
  qed
  show ?thesis
    using lost [OF h tied_sound [OF t], of j] c(1-4) freed
    by (cases "siConnectionLost m_Interface j (B, w)") (auto simp: server_event_def bounded_id)
qed

lemma server_events_safe:
  assumes N: "enet_ok N pending"
  shows "lawful n al (pending (sbHost B)) \<Longrightarrow> tied A n al B \<Longrightarrow> holds (ids A (sbTransmitters B)) w \<Longrightarrow>
    \<exists>r es s. server_events N A g peers m_Interface B w = Some r \<and> server_handles N A g peers m_Interface (B, w) es s
      \<and> pending (sbHost B) = es @ pending (sbHost (fst s))
      \<and> state_ok (connected_after al es) (pending (sbHost (fst s))) s \<and> server_ends A g peers m_Interface pending s r"
proof (induction "pending (sbHost B)" arbitrary: al B w)
  case Nil
  obtain r e h' where s: "enet_host_service N (sbHost B) = (r, e, h')" by (metis prod_cases3)
  then have "server_events N A g peers m_Interface B w = Some (Inr (B\<lparr>sbHost := h'\<rparr>, w))" "pending h' = []"
    using enet_service(1) [OF N s] Nil by (simp_all add: server_events.simps [of N A g peers m_Interface B w])
  moreover have "server_handles N A g peers m_Interface (B, w) [] (B, w)" by (rule server_handles.none)
  moreover have "state_ok (connected_after al []) (pending (sbHost (fst (B, w)))) (B, w)" using Nil by simp
  moreover have "server_ends A g peers m_Interface pending (B, w) (Inr (B\<lparr>sbHost := h'\<rparr>, w))"
    unfolding server_ends_def using Nil.hyps \<open>pending h' = []\<close> by auto
  moreover have "pending (sbHost B) = [] @ pending (sbHost (fst (B, w)))" by simp
  ultimately show ?case by blast
next
  case (Cons e es)
  obtain r e' h' where s: "enet_host_service N (sbHost B) = (r, e', h')" by (metis prod_cases3)
  have p: "r \<noteq> 0" "e' = e" "pending h' = es" using enet_service(2) [OF N s] Cons.hyps(2) [symmetric] by simp_all
  have l: "lawful n al (e # es)" using Cons.prems(1) Cons.hyps(2) by simp
  let ?B = "B\<lparr>sbHost := h'\<rparr>"
  have ok: "state_ok al es (?B, w)" using Cons.prems(2,3) p(3) by (simp add: tied_def)
  have step: "calm (state_ok (connected_after al [e]) es) (server_event A g peers m_Interface e (?B, w))"
    using l connect_safe [OF ok] receive_safe [OF ok] disconnect_safe [OF ok] ok
    by (cases e) (simp_all add: server_event_def)
  have next_events: "lawful n (connected_after al [e]) es" using l by (cases e) simp_all
  show ?case
  proof (cases "server_event A g peers m_Interface e (?B, w)")
    case (Inl err)
    then have "server_events N A g peers m_Interface B w = Some (Inl err)" "err \<noteq> Undefined"
      using step s p by (simp_all add: server_events.simps [of N A g peers m_Interface B w])
    moreover have "server_handles N A g peers m_Interface (B, w) [] (B, w)" by (rule server_handles.none)
    moreover have "state_ok (connected_after al []) (pending (sbHost (fst (B, w)))) (B, w)" using Cons.prems by simp
    moreover have "server_ends A g peers m_Interface pending (B, w) (Inl err)"
      unfolding server_ends_def using Inl p(3) Cons.hyps(2) [symmetric] \<open>err \<noteq> Undefined\<close> by auto
    moreover have "pending (sbHost B) = [] @ pending (sbHost (fst (B, w)))" by simp
    ultimately show ?thesis by blast
  next
    case (Inr x)
    obtain B' w' where x: "x = (B', w')" by (cases x)
    have k: "state_ok (connected_after al [e]) es (B', w')" using step Inr x by simp
    then have kp: "pending (sbHost B') = es" by simp
    have "\<exists>r fs s. server_events N A g peers m_Interface B' w' = Some r \<and> server_handles N A g peers m_Interface (B', w') fs s
        \<and> pending (sbHost B') = fs @ pending (sbHost (fst s))
        \<and> state_ok (connected_after (connected_after al [e]) fs) (pending (sbHost (fst s))) s
        \<and> server_ends A g peers m_Interface pending s r"
      by (rule Cons.hyps(1)) (use k next_events in simp_all)
    then obtain r2 fs s2 where r2: "server_events N A g peers m_Interface B' w' = Some r2"
        "server_handles N A g peers m_Interface (B', w') fs s2" "es = fs @ pending (sbHost (fst s2))"
        "state_ok (connected_after (connected_after al [e]) fs) (pending (sbHost (fst s2))) s2"
        "server_ends A g peers m_Interface pending s2 r2" unfolding kp by blast
    have "server_events N A g peers m_Interface B w = Some r2"
      using Inr x s p r2(1) by (simp add: server_events.simps [of N A g peers m_Interface B w])
    moreover have "server_handles N A g peers m_Interface (B, w) (e # fs) s2"
      using server_handles.event [OF s p(1), of A g peers m_Interface w "(B', w')"] Inr x p(2) r2(2) by simp
    moreover have "pending (sbHost B) = (e # fs) @ pending (sbHost (fst s2))" using Cons.hyps(2) r2(3) by simp
    moreover have "connected_after al (e # fs) = connected_after (connected_after al [e]) fs" by (cases e) simp_all
    then have "state_ok (connected_after al (e # fs)) (pending (sbHost (fst s2))) s2" using r2(4) by simp
    ultimately show ?thesis using r2(5) by blast
  qed
qed

lemma Server_Update_safe:
  assumes "enet_ok N pending" "lawful n al (pending (sbHost B))" "tied A n al B" "holds (ids A (sbTransmitters B)) w"
  shows "\<exists>r ts es s. Server_Update N A send now g peers m_Interface B w = Some r
    \<and> update_transmitters A send now [0..<alMaxAllocs A (sbTransmitters B)] (sbTransmitters B) = Inr ts
    \<and> server_handles N A g peers m_Interface (B\<lparr>sbTransmitters := ts\<rparr>, w) es s
    \<and> pending (sbHost B) = es @ pending (sbHost (fst s))
    \<and> state_ok (connected_after al es) (pending (sbHost (fst s))) s \<and> server_ends A g peers m_Interface pending s r"
proof -
  obtain ts where u: "update_transmitters A send now [0..<alMaxAllocs A (sbTransmitters B)] (sbTransmitters B) = Inr ts"
      "sound A n ts" "ids A ts = ids A (sbTransmitters B)"
    using update_transmitters_safe [OF alloc tied_sound [OF assms(3)]] by blast
  let ?B = "B\<lparr>sbTransmitters := ts\<rparr>"
  have "tied A n al ?B" using assms(3) u(2,3) by (simp add: tied_def)
  then show ?thesis
    using server_events_safe [OF assms(1), of al ?B w g peers] assms(2,4) u by (simp add: Server_Update_def)
qed

end

text \<open>What \<^verbatim>\<open>StaticSizedArrayAlloc\<close> promises of an array of \<open>max_clients\<close> slots: a slot of the array that is free can be
  taken. Nothing is said of an id that is not below \<open>max_clients\<close>.\<close>

definition slots_ok :: "('k, 'v) slot_array \<Rightarrow> nat \<Rightarrow> bool" where
  "slots_ok S max_clients \<longleftrightarrow>
     (\<forall>j m. j < max_clients \<longrightarrow> saElement S j m = None \<longrightarrow> saAllocateRaw S j m \<noteq> None)
     \<and> (\<forall>j v m m' i. saAllocateRaw S j m = Some m' \<longrightarrow>
          saElement S i (saUpdate S j v m') = (if i = j then Some v else saElement S i m))
     \<and> (\<forall>j v m i. saElement S j m \<noteq> None \<longrightarrow> saElement S i (saUpdate S j v m) = (if i = j then Some v else saElement S i m))
     \<and> (\<forall>j m i. saElement S i (saFree S j m) = (if i = j then None else saElement S i m))"

lemma slots_simps:
  assumes "slots_ok S max_clients"
  shows "saAllocateRaw S j m = Some m' \<Longrightarrow> saElement S i (saUpdate S j v m') = (if i = j then Some v else saElement S i m)"
    and "saElement S j m \<noteq> None \<Longrightarrow> saElement S i (saUpdate S j v m) = (if i = j then Some v else saElement S i m)"
    and "saElement S i (saFree S j m) = (if i = j then None else saElement S i m)"
    and "j < max_clients \<Longrightarrow> saElement S j m = None \<Longrightarrow> \<exists>m'. saAllocateRaw S j m = Some m'"
  using assms unfolding slots_ok_def by blast+

text \<open>Only connected peers have a client, and its protocol is well-formed.\<close>

definition clients_ok ::
    "('c, 'cl \<times> ('s, 'r) NetProtocol) slot_array \<Rightarrow> ('s \<Rightarrow> bool) \<Rightarrow> ('r \<Rightarrow> bool) \<Rightarrow> nat set \<Rightarrow> 'c \<Rightarrow> bool" where
  "clients_ok S sok rok I clients \<longleftrightarrow>
     (\<forall>i client P. saElement S i clients = Some (client, P) \<longrightarrow> i \<in> I \<and> protocol_ok sok rok P)"

lemma clients_okI:
  "(\<And>i client P. saElement S i clients = Some (client, P) \<Longrightarrow> i \<in> I \<and> protocol_ok sok rok P)
    \<Longrightarrow> clients_ok S sok rok I clients"
  unfolding clients_ok_def by blast

text \<open>What the application may do in \<open>ConstructClient\<close>, \<open>CleanupClient\<close> and the callbacks of the pipes.\<close>

abbreviation app_keeps where
  "app_keeps A n pending B e \<equiv> server_keeps A n pending B (fst e)"

definition app_ok where
  "app_ok A n pending sok rok ConstructClient CleanupClient got \<longleftrightarrow>
     (\<forall>B j P e. app_keeps A n pending B e \<longrightarrow> protocol_ok sok rok P \<longrightarrow>
        calm (\<lambda>(client, P', e'). protocol_ok sok rok P' \<and> app_keeps A n pending B e') (ConstructClient j P e))
     \<and> (\<forall>B client P e. app_keeps A n pending B e \<longrightarrow> protocol_ok sok rok P \<longrightarrow>
        calm (app_keeps A n pending B) (CleanupClient client P e))
     \<and> (\<forall>B. gets_calm rok (app_keeps A n pending B) got)"

text \<open>The three calls, one by one; \<open>I\<close> are the ids in use.\<close>

lemma NetServer_new_client:
  assumes S: "slots_ok S max_clients" and app: "app_ok A n pending sok rok ConstructClient CleanupClient got"
    and P: "protocol_ok sok rok protocol" and c: "clients_ok S sok rok I clients" and j: "j \<notin> I" "j < max_clients"
    and s: "sound A n (sbTransmitters B)"
  shows "calm (\<lambda>(B', clients', a'). server_keeps A n pending B B' \<and> clients_ok S sok rok (insert j I) clients')
    (siGotNewConnection (NetServer_interface S AllowNewConnection ConstructClient CleanupClient protocol got_ack got)
       j host port (B, clients, a))"
proof -
  have free: "saElement S j clients = None" using c j(1) by (cases "saElement S j clients") (auto simp: clients_ok_def)
  then obtain taken where taken: "saAllocateRaw S j clients = Some taken" using slots_simps(4) [OF S j(2)] by blast
  have "calm (\<lambda>(client, P', e'). protocol_ok sok rok P' \<and> app_keeps A n pending B e') (ConstructClient j protocol (B, a))"
    using app P s unfolding app_ok_def by (simp add: server_keeps_def)
  moreover have "clients_ok S sok rok (insert j I) (saUpdate S j (client, P') taken)" if "protocol_ok sok rok P'" for client P'
    using c that slots_simps(1) [OF S taken] by (auto simp: clients_ok_def split: if_splits)
  moreover have "clients_ok S sok rok (insert j I) clients" using c by (auto simp: clients_ok_def)
  ultimately show ?thesis
    using s by (cases "ConstructClient j protocol (B, a)")
      (auto simp: NetServer_interface_def Server_GotNewConnection_def Let_def server_keeps_def taken)
qed

lemma NetServer_lost_client:
  assumes S: "slots_ok S max_clients" and app: "app_ok A n pending sok rok ConstructClient CleanupClient got"
    and c: "clients_ok S sok rok I clients" and s: "sound A n (sbTransmitters B)"
  shows "calm (\<lambda>(B', clients', a'). server_keeps A n pending B B' \<and> clients_ok S sok rok (I - {j}) clients')
    (siConnectionLost (NetServer_interface S AllowNewConnection ConstructClient CleanupClient protocol got_ack got)
       j (B, clients, a))"
proof (cases "saElement S j clients")
  case None
  then have "clients_ok S sok rok (I - {j}) clients" using c by (auto simp: clients_ok_def)
  then show ?thesis using None s by (simp add: NetServer_interface_def Server_ConnectionLost_def Let_def server_keeps_def)
next
  case (Some x)
  obtain client Q where x: "x = (client, Q)" by (cases x)
  have "protocol_ok sok rok Q" using c Some x by (simp add: clients_ok_def)
  then have "calm (app_keeps A n pending B) (CleanupClient client Q (B, a))"
    using app s unfolding app_ok_def by (simp add: server_keeps_def)
  moreover have "clients_ok S sok rok (I - {j}) (saFree S j clients)"
    using c slots_simps(3) [OF S] by (auto simp: clients_ok_def split: if_splits)
  ultimately show ?thesis
    using Some x by (cases "CleanupClient client Q (B, a)")
      (auto simp: NetServer_interface_def Server_ConnectionLost_def Let_def)
qed

lemma NetServer_got_message:
  assumes S: "slots_ok S max_clients" and app: "app_ok A n pending sok rok ConstructClient CleanupClient got"
    and acks: "acks_calm sok got_ack" and c: "clients_ok S sok rok I clients" and j: "j \<in> I"
    and s: "sound A n (sbTransmitters B)"
  shows "calm (\<lambda>(B', clients', a'). server_keeps A n pending B B' \<and> clients_ok S sok rok I clients')
    (siGotMessage (NetServer_interface S AllowNewConnection ConstructClient CleanupClient protocol got_ack got)
       j (NetBitReaderBuffer_init d) (B, clients, a))"
proof (cases "saElement S j clients")
  case None
  then show ?thesis using c s by (simp add: NetServer_interface_def Server_GotMessage_def Let_def server_keeps_def)
next
  case (Some x)
  obtain client Q where x: "x = (client, Q)" by (cases x)
  have q: "protocol_ok sok rok Q" using c Some x by (simp add: clients_ok_def)
  have g: "gets_calm rok (app_keeps A n pending B) got" using app unfolding app_ok_def by blast
  have "calm (\<lambda>(r', P', e'). rinv r' \<and> protocol_ok sok rok P' \<and> app_keeps A n pending B e')
      (Protocol_GotMessage got_ack got (NetBitReaderBuffer_init d) (Q, (B, a)))"
    by (rule Protocol_calm [OF acks g q]) (use s in \<open>simp_all add: server_keeps_def\<close>)
  moreover have "clients_ok S sok rok I (saUpdate S j (client, P') clients)" if "protocol_ok sok rok P'" for P'
    using c that j Some slots_simps(2) [OF S, of j clients] by (auto simp: clients_ok_def split: if_splits)
  ultimately show ?thesis
    using Some x by (cases "Protocol_GotMessage got_ack got (NetBitReaderBuffer_init d) (Q, (B, a))")
      (auto simp: NetServer_interface_def Server_GotMessage_def Let_def)
qed

lemma NetServer_is_interface:
  assumes A: "alloc_ok A n" "n < 2 ^ 32" and S: "slots_ok S max_clients" "n \<le> max_clients"
    and app: "app_ok A n pending sok rok ConstructClient CleanupClient got"
    and P: "protocol_ok sok rok protocol" "acks_calm sok got_ack"
  shows "server_interface A n pending
    (NetServer_interface S AllowNewConnection ConstructClient CleanupClient protocol got_ack got)
    (\<lambda>I (clients, a). clients_ok S sok rok I clients)"
proof
  let ?I = "NetServer_interface S AllowNewConnection ConstructClient CleanupClient protocol got_ack got"
  let ?holds = "\<lambda>I (clients, a). clients_ok S sok rok I clients"
  show "calm (\<lambda>(B', w'). server_keeps A n pending B B' \<and> ?holds (insert j I) w') (siGotNewConnection ?I j host port (B, w))"
    if "?holds I w" "j \<notin> I" "j < n" "sound A n (sbTransmitters B)" for I w j B host port
    using NetServer_new_client [OF S(1) app P(1)] that S(2) by (cases w) (auto elim!: calm_mono)
  show "calm (\<lambda>(B', w'). server_keeps A n pending B B' \<and> ?holds (I - {j}) w') (siConnectionLost ?I j (B, w))"
    if "?holds I w" "sound A n (sbTransmitters B)" for I w B j
    using NetServer_lost_client [OF S(1) app] that by (cases w) (auto elim!: calm_mono)
  show "calm (\<lambda>(B', w'). server_keeps A n pending B B' \<and> ?holds I w') (siGotMessage ?I j (NetBitReaderBuffer_init d) (B, w))"
    if "?holds I w" "j \<in> I" "sound A n (sbTransmitters B)" for I w j B d
    using NetServer_got_message [OF S(1) app P(2)] that by (cases w) (auto elim!: calm_mono)
qed (rule A)+

section \<open>Hosts and allocators that keep the promises\<close>

text \<open>A host is the list of the events to come; the allocator takes the first free slot.\<close>

definition event_list :: "(enet_event list, 'e) enet" where
  "event_list = \<lparr>enet_host_service = (\<lambda>h. case h of [] \<Rightarrow> (0, ENET_EVENT_TYPE_NONE, []) | e # es \<Rightarrow> (1, e, es)),
     enet_host_flush = (\<lambda>h. h), enet_host_destroy = (\<lambda>h. h), enet_peer_disconnect = (\<lambda>e. e)\<rparr>"

definition first_slot :: "nat \<Rightarrow> (nat \<Rightarrow> 'v option, 'v) static_alloc" where
  "first_slot n = \<lparr>alMaxAllocs = (\<lambda>_. n), alElement = (\<lambda>i m. m i),
     alAllocate = (\<lambda>v m. case find (\<lambda>i. m i = None) [0..<n] of None \<Rightarrow> (None, m) | Some j \<Rightarrow> (Some j, m(j \<mapsto> v))),
     alUpdate = (\<lambda>j v m. m(j \<mapsto> v)), alFree = (\<lambda>j m. m(j := None))\<rparr>"

definition map_slots :: "nat \<Rightarrow> (nat \<Rightarrow> 'v option, 'v) slot_array" where
  "map_slots max_clients = \<lparr>saAllocateRaw = (\<lambda>j m. if j < max_clients \<and> m j = None then Some m else None), saElement = (\<lambda>i m. m i), saFree = (\<lambda>j m. m(j := None)),
     saUpdate = (\<lambda>j v m. m(j \<mapsto> v))\<rparr>"

lemma event_list_ok: "enet_ok event_list (\<lambda>h. h)"
  by (simp add: enet_ok_def event_list_def split: list.split)

lemma first_slot_ok: "alloc_ok (first_slot n) n"
  by (auto simp: alloc_ok_def first_slot_def find_Some_iff find_None_iff split: option.splits)

lemma map_slots_ok: "slots_ok (map_slots max_clients) max_clients"
  by (simp add: slots_ok_def map_slots_def)

text \<open>A protocol of one channel each way, whose callback logs the flags it gets.\<close>

abbreviation log_flags :: "bool list \<Rightarrow> 'b \<times> bool list list \<Rightarrow> ('b \<times> bool list list) result" where
  "log_flags vs \<equiv> \<lambda>(B, log). Inr (B, log @ [vs])"

abbreviation flags_protocol :: "(unit, (bool list, 'b \<times> bool list list) Receiver) NetProtocol" where
  "flags_protocol \<equiv> \<lparr>npSenders = [()],
     npReceivers = [RFullState (NetDeserializer_ArrayList 5 False NetDeserializer_bool)
       \<lparr>fsUpdateCallback = Some log_flags, fsDefaultData = Some []\<rparr>]\<rparr>"

abbreviation flags_obj :: "bool list \<Rightarrow> bool" where
  "flags_obj vs \<equiv> list_all (\<lambda>_. True) vs \<and> length vs \<le> 5"

lemma flags_protocol_ok:
  "(\<And>E B log vs. E \<in> Es \<Longrightarrow> E (B, log) \<Longrightarrow> E (B, log @ [vs])) \<Longrightarrow>
    protocol_ok (\<lambda>_. True) (receiver_ok Es flags_obj) flags_protocol"
  using flags_robust.robust_axioms by (auto simp: protocol_ok_def callback_ok_def)

lemma no_acks_calm: "acks_calm (\<lambda>_. True) (\<lambda>s r. Inr (s, r))"
  by (simp add: acks_calm_def)

text \<open>The pipes of a client and of a server of this protocol.\<close>

abbreviation client_pipe where
  "client_pipe \<equiv> receiver_ok (range (client_app (\<lambda>h :: enet_event list. h))) flags_obj"

abbreviation server_pipe where
  "server_pipe n \<equiv> receiver_ok (range (app_keeps (first_slot n) n (\<lambda>h :: enet_event list. h))) flags_obj"

lemma client_pipe_ok: "protocol_ok (\<lambda>_. True) client_pipe flags_protocol"
  by (rule flags_protocol_ok) (auto simp: client_app_def)

lemma client_pipe_gets: "gets_calm client_pipe (client_app (\<lambda>h. h) es) Receiver_got"
  by (rule Receiver_gets_calm) (rule rangeI)

lemma server_pipe_ok: "protocol_ok (\<lambda>_. True) (server_pipe n) flags_protocol"
  by (rule flags_protocol_ok) auto

lemma server_pipe_gets: "gets_calm (server_pipe n) (app_keeps (first_slot n) n (\<lambda>h. h) B) Receiver_got"
  by (rule Receiver_gets_calm) (rule rangeI)

lemma server_app_ok:
  "app_ok (first_slot n) n (\<lambda>h. h) (\<lambda>_. True) (server_pipe n) (\<lambda>j P e. Inr ((), P, e)) (\<lambda>client P e. Inr e) Receiver_got"
  unfolding app_ok_def by (simp add: server_pipe_gets)

interpretation flags_client: client_interface "\<lambda>h. h"
    "NetClient_interface (\<lambda>P e. Inr (P, e)) flags_protocol (\<lambda>s r. Inr (s, r)) Receiver_got"
    "\<lambda>(P, a). \<exists>Q. P = Some Q \<and> protocol_ok (\<lambda>_. True) client_pipe Q"
  by (rule NetClient_is_interface [OF _ client_pipe_ok no_acks_calm client_pipe_gets]) simp

interpretation flags_server: server_interface "first_slot 4" 4 "\<lambda>h. h"
    "NetServer_interface (map_slots 4) (\<lambda>host port. True) (\<lambda>j P e. Inr ((), P, e)) (\<lambda>client P e. Inr e) flags_protocol
       (\<lambda>s r. Inr (s, r)) Receiver_got"
    "\<lambda>I (clients, a). clients_ok (map_slots 4) (\<lambda>_. True) (server_pipe 4) I clients"
  by (rule NetServer_is_interface [OF first_slot_ok _ map_slots_ok _ server_app_ok server_pipe_ok no_acks_calm]) simp_all

section \<open>Where the backends differ from what they mean\<close>

text \<open>
  The two calls of a disconnect event are swapped, and \<^verbatim>\<open>m_Connected\<close> is never reset: a client that loses its
  connection is told that the connection failed, one that cannot connect that it was disconnected.
\<close>

lemma lost_connection_fails:
  assumes "ciGotConnection I (B\<lparr>cbConnected := True\<rparr>, w) = Inr (B', w')" "cbConnected B'"
  shows "ebind (client_event I (ENET_EVENT_TYPE_CONNECT p host port) (B, w)) (client_event I (ENET_EVENT_TYPE_DISCONNECT p))
      = ciConnectionFailed I (B', w')"
    and "\<not> cbConnected B \<Longrightarrow> client_event I (ENET_EVENT_TYPE_DISCONNECT p) (B, w) = ciDisconnected I (B, w)"
  using assms by (simp_all add: client_event_def)

text \<open>
  \<^verbatim>\<open>enet_host_service\<close> returns a negative number on failure, which the loops take for an event: while it fails
  they do not end.
\<close>

lemma failing_service_diverges:
  assumes "\<And>h. enet_host_service N h = (- 1, ENET_EVENT_TYPE_NONE, h)"
  shows "client_events N I B w = None" "server_events N A g peers J B' w' = None"
proof -
  let ?fails = "\<lambda>N. \<forall>h. enet_host_service N h = (- 1, ENET_EVENT_TYPE_NONE, h)"
  have "\<not> ?fails N" if "client_events N I B w = Some r" for r
    by (rule client_events.raw_induct [where P = "\<lambda>N I B w r. \<not> ?fails N", OF _ that])
      (rule notI, simp add: client_event_def, blast)
  then show "client_events N I B w = None" using assms by (cases "client_events N I B w") auto
  have "\<not> ?fails N" if "server_events N A g peers J B' w' = Some r" for r
    by (rule server_events.raw_induct [where P = "\<lambda>N A g peers J B w r. \<not> ?fails N", OF _ that])
      (rule notI, simp add: server_event_def, blast)
  then show "server_events N A g peers J B' w' = None" using assms by (cases "server_events N A g peers J B' w'") auto
qed

text \<open>A server with fewer slots for clients than ENet takes connections writes through the null pointer that
  \<^verbatim>\<open>AllocateRaw\<close> returns for a connection it has no slot for.\<close>

lemma more_connections_than_slots:
  assumes "AllowNewConnection host port" "saAllocateRaw S j clients = None"
  shows "siGotNewConnection (NetServer_interface S AllowNewConnection ConstructClient CleanupClient protocol got_ack got)
    j host port (B, clients, a) = Inl Undefined"
  using assms by (simp add: NetServer_interface_def Server_GotNewConnection_def Let_def)

text \<open>An id without a connection, which \<^verbatim>\<open>DisconnectClient\<close> passes on, makes \<open>ForceDisconnect\<close> use a null pointer. With a
  connection, whose queue must not hold two packets (clearing it frees one twice), it is a call a callback may make,
  and calling it again does nothing.\<close>

lemma ForceDisconnect_cases:
  "alElement A j (sbTransmitters B) = None \<Longrightarrow> ForceDisconnect N A j B = Inl Undefined"
  "alElement A j (sbTransmitters B) = Some c \<Longrightarrow> cnDisconnected c \<Longrightarrow> ForceDisconnect N A j B = Inr B"
  by (simp_all add: ForceDisconnect_def)

lemma ForceDisconnect_keeps:
  assumes A: "alloc_ok A n" and s: "sound A n (sbTransmitters B)" and c: "alElement A j (sbTransmitters B) = Some c"
    and "length (tePendingPackets (cnTransmitter c)) \<le> 1"
  obtains B' where "ForceDisconnect N A j B = Inr B'" "server_keeps A n pending B B'" "ForceDisconnect N A j B' = Inr B'"
proof (cases "cnDisconnected c")
  case True
  then show thesis using that [of B] s c by (simp add: ForceDisconnect_def server_keeps_def)
next
  case False
  have own: "owns_queue c" "cnConnectionId c = j" "j < n" using s c by (auto simp: sound_def)
  obtain t where t: "Enet_Clear (cnTransmitter c) = Inr t" "tePendingPackets t = []"
    using own(1) assms(4)
    by (cases "tePendingPackets (cnTransmitter c)") (auto simp: Enet_Clear_def owns_queue_def queue_owns_def heap_free_def)
  define c' where "c' = c\<lparr>cnTransmitter := t\<lparr>tePeer := enet_peer_disconnect N (tePeer t)\<rparr>, cnDisconnected := True\<rparr>"
  have o: "owns_queue c'" "cnConnectionId c' = j" "cnDisconnected c'"
    using t own by (simp_all add: c'_def owns_queue_def queue_owns_def)
  define B' where "B' = B\<lparr>sbTransmitters := alUpdate A j c' (sbTransmitters B)\<rparr>"
  have e: "alElement A i (sbTransmitters B') = (if i = j then Some c' else alElement A i (sbTransmitters B))" for i
    using alloc_simps(1) [OF A, of j "sbTransmitters B" i c'] c by (simp add: B'_def)
  show thesis
  proof (rule that)
    show "ForceDisconnect N A j B = Inr B'"
      using c False t(1) by (simp add: ForceDisconnect_def disconnect_peer_def B'_def c'_def)
    show "server_keeps A n pending B B'"
      using s o own c by (auto simp: server_keeps_def sound_def ids_def e) (simp_all add: B'_def)
    show "ForceDisconnect N A j B' = Inr B'" using e o(3) by (simp add: ForceDisconnect_def)
  qed
qed

section \<open>Properties\<close>

text \<open>C15: one update of a client. If the pipes and the application are calm and ENet reports a connection before
  its messages, the call ends and does nothing undefined, whatever bytes the messages hold: it handles the events
  ENet reports in their order, until none is left or a handler throws, which is then what the call throws. (The
  handler of a malformed packet throws; the events behind it are left to the next call.)\<close>

theorem client_update_safe:
  fixes InitConnection protocol got_ack got
  defines "m_Interface \<equiv> NetClient_interface InitConnection protocol got_ack got"
  assumes "enet_ok N pending" "owns_queue (cbTransmitter B)" "client_lawful c (pending (cbHost B))"
    and "\<And>es P e. client_app pending es e \<Longrightarrow> protocol_ok sok rok P \<Longrightarrow>
      calm (\<lambda>(P', e'). protocol_ok sok rok P' \<and> client_app pending es e') (InitConnection P e)"
    and "protocol_ok sok rok protocol" "acks_calm sok got_ack" "\<And>es. gets_calm rok (client_app pending es) got"
    and "c \<Longrightarrow> \<exists>Q. P = Some Q \<and> protocol_ok sok rok Q"
  shows "\<exists>r t es s. Client_Update N send now m_Interface B (P, a) = Some r
    \<and> Enet_Update send now (cnTransmitter (cbTransmitter B)) = Inr t
    \<and> client_handles N m_Interface (B\<lparr>cbTransmitter := (cbTransmitter B)\<lparr>cnTransmitter := t\<rparr>\<rparr>, P, a) es s
    \<and> pending (cbHost B) = es @ pending (cbHost (fst s)) \<and> client_ends m_Interface pending s r"
proof -
  have "client_interface pending m_Interface (\<lambda>(P, a). \<exists>Q. P = Some Q \<and> protocol_ok sok rok Q)"
    unfolding m_Interface_def by (rule NetClient_is_interface [OF assms(5-8)])
  from client_interface.Client_Update_safe [OF this assms(2-4), of "(P, a)" send now] show ?thesis
    using assms(9) by auto
qed

abbreviation some_client :: "enet_event list \<Rightarrow> (enet_event list, unit) NetClientBackendEnet" where
  "some_client es \<equiv> \<lparr>cbTransmitter = NetTransmitterEnet_init 0 (), cbHost = es, cbConnected = False\<rparr>"

abbreviation flags_client_interface where
  "flags_client_interface \<equiv> NetClient_interface (\<lambda>P e. Inr (P, e)) flags_protocol (\<lambda>s r. Inr (s, r)) Receiver_got"

text \<open>The third event's packet throws.\<close>

theorem client_update_safe_witness:
  "\<exists>r t es s. Client_Update event_list (\<lambda>d f e. e) (\<lambda>_. 0) flags_client_interface
      (some_client [ENET_EVENT_TYPE_CONNECT 0 1 2, ENET_EVENT_TYPE_RECEIVE 0 [0xE8, 0xFF], ENET_EVENT_TYPE_DISCONNECT 0])
      (None, []) = Some r
    \<and> client_handles event_list flags_client_interface
        ((some_client [ENET_EVENT_TYPE_CONNECT 0 1 2, ENET_EVENT_TYPE_RECEIVE 0 [0xE8, 0xFF], ENET_EVENT_TYPE_DISCONNECT 0])
           \<lparr>cbTransmitter := (NetTransmitterEnet_init 0 ())\<lparr>cnTransmitter := t\<rparr>\<rparr>, None, []) es s
    \<and> client_ends flags_client_interface (\<lambda>h. h) s r"
  using client_update_safe [OF event_list_ok _ _ _ client_pipe_ok no_acks_calm client_pipe_gets, where c = False
      and B = "some_client [ENET_EVENT_TYPE_CONNECT 0 1 2, ENET_EVENT_TYPE_RECEIVE 0 [0xE8, 0xFF], ENET_EVENT_TYPE_DISCONNECT 0]"
      and send = "\<lambda>d f e. e" and now = "\<lambda>_. 0" and P = None and a = "[]" and InitConnection = "\<lambda>P e. Inr (P, e)"]
  by fastforce

text \<open>C6: one update of a server, with any number of connections, whatever the packets hold. If the pipes and the
  application are calm (they may send, disconnect and throw), ENet announces a peer before its messages and it takes no more connections than there are transmitters and slots for clients, the call
  ends and does nothing undefined, and no transmitter or client is used that is not there. It handles the events in
  their order, until none is left or a handler throws (as the handler of a malformed packet does), which is then what
  the call throws. After the events handled, exactly the peers then connected have a transmitter, each its own, and
  only they have a client. (What a handler that throws changed before is not stated.)\<close>

theorem server_update_safe:
  fixes S AllowNewConnection ConstructClient CleanupClient protocol got_ack got
  defines "m_Interface \<equiv> NetServer_interface S AllowNewConnection ConstructClient CleanupClient protocol got_ack got"
  assumes "enet_ok N pending" "lawful n al (pending (sbHost B))" "tied A n al B"
    and "alloc_ok A n" "n < 2 ^ 32" "slots_ok S max_clients" "n \<le> max_clients"
    and "app_ok A n pending sok rok ConstructClient CleanupClient got"
    and "protocol_ok sok rok protocol" "acks_calm sok got_ack"
    and "clients_ok S sok rok (ids A (sbTransmitters B)) clients"
  shows "\<exists>r ts es B' clients' a'. Server_Update N A send now g peers m_Interface B (clients, a) = Some r
    \<and> update_transmitters A send now [0..<alMaxAllocs A (sbTransmitters B)] (sbTransmitters B) = Inr ts
    \<and> server_handles N A g peers m_Interface (B\<lparr>sbTransmitters := ts\<rparr>, clients, a) es (B', clients', a')
    \<and> pending (sbHost B) = es @ pending (sbHost B') \<and> server_ends A g peers m_Interface pending (B', clients', a') r
    \<and> tied A n (connected_after al es) B' \<and> clients_ok S sok rok (ids A (sbTransmitters B')) clients'"
proof -
  have "server_interface A n pending m_Interface (\<lambda>I (clients, a). clients_ok S sok rok I clients)"
    unfolding m_Interface_def by (rule NetServer_is_interface [OF assms(5-11)])
  from server_interface.Server_Update_safe [OF this assms(2-4), of "(clients, a)" send now g peers] assms(12)
  obtain r ts es s where u: "Server_Update N A send now g peers m_Interface B (clients, a) = Some r"
      "update_transmitters A send now [0..<alMaxAllocs A (sbTransmitters B)] (sbTransmitters B) = Inr ts"
      "server_handles N A g peers m_Interface (B\<lparr>sbTransmitters := ts\<rparr>, clients, a) es s"
      "pending (sbHost B) = es @ pending (sbHost (fst s))" "server_ends A g peers m_Interface pending s r"
    and t: "case s of (B', clients', a') \<Rightarrow> tied A n (connected_after al es) B'
      \<and> clients_ok S sok rok (ids A (sbTransmitters B')) clients'"
    by (auto split: prod.splits)
  obtain B' clients' a' where s: "s = (B', clients', a')" by (cases s)
  show ?thesis using u t unfolding s by (simp only: prod.case fst_conv) blast
qed

abbreviation some_server :: "enet_event list \<Rightarrow> (enet_event list, nat \<Rightarrow> unit connection option) NetServerBackendEnet" where
  "some_server es \<equiv> \<lparr>sbHost = es, sbTransmitters = (\<lambda>_. None), sbData = (\<lambda>_. None)\<rparr>"

abbreviation some_events :: "enet_event list" where
  "some_events \<equiv> [ENET_EVENT_TYPE_CONNECT 7 1 2, ENET_EVENT_TYPE_CONNECT 5 1 3, ENET_EVENT_TYPE_DISCONNECT 7,
     ENET_EVENT_TYPE_RECEIVE 5 [0xE8, 0xFF]]"

abbreviation flags_server_interface where
  "flags_server_interface \<equiv> NetServer_interface (map_slots 4) (\<lambda>host port. True) (\<lambda>j P e. Inr ((), P, e))
     (\<lambda>client P e. Inr e) flags_protocol (\<lambda>s r. Inr (s, r)) Receiver_got"

theorem server_update_safe_witness:
  "\<exists>r es B' clients' a'. Server_Update event_list (first_slot 4) (\<lambda>d f e. e) (\<lambda>_ _. 0) 0 (\<lambda>_. ())
      flags_server_interface (some_server some_events) (\<lambda>_. None, []) = Some r
    \<and> sbHost (some_server some_events) = es @ sbHost B'
    \<and> server_ends (first_slot 4) 0 (\<lambda>_. ()) flags_server_interface (\<lambda>h. h) (B', clients', a') r
    \<and> tied (first_slot 4) 4 (connected_after {} es) B'"
proof -
  have t: "tied (first_slot 4) 4 {} (some_server some_events)"
    by (simp add: tied_def ids_def sound_def first_slot_def)
  have c: "clients_ok (map_slots 4) (\<lambda>_. True) (server_pipe 4) (ids (first_slot 4) (sbTransmitters (some_server some_events))) (\<lambda>_. None)"
    by (simp add: clients_ok_def map_slots_def)
  have l: "lawful 4 {} (sbHost (some_server some_events))" by simp
  have n: "(4::nat) < 2 ^ 32" "(4::nat) \<le> 4" by simp_all
  show ?thesis
    using server_update_safe [OF event_list_ok l t first_slot_ok n(1) map_slots_ok n(2) server_app_ok server_pipe_ok
        no_acks_calm c, of "\<lambda>d f e. e" "\<lambda>_ _. 0" 0 "\<lambda>_. ()" "\<lambda>host port. True" "[]"]
    by blast
qed

end
