(* ===== verification/Network.thy ===== *)
theory Network
  imports Backend
begin

text \<open>
  A client and a server over ENet: what a client's pipe sends through its \<^verbatim>\<open>NetTransmitterEnet\<close>, ENet takes and
  reports at the server, reaches the callback of that client's connection. The two sides are joined by the bytes of
  the packets alone: the peer of the sender is the list of the packets ENet was given, and the events of the server's
  host are the receipts of these packets.
\<close>

definition take_packet :: "u8 list list enet_send" where
  "take_packet data flags packets = packets @ [data]"

text \<open>The packet of a message, with the bits that fill its last byte, as the reader of the receiver sees it.\<close>

lemma is_message_reader:
  assumes "is_message data bs"
  shows "\<exists>pad. rbits (NetBitReaderBuffer_init data) = bs @ pad" "rinv (NetBitReaderBuffer_init data)"
  using assms by (auto simp: is_message_def)

text \<open>A connection: peer \<open>p\<close> has the transmitter \<open>j\<close>, which is not closed, and the client \<open>j\<close> with the protocol \<open>P\<close>.\<close>

definition connected ::
    "('k, 'e connection) static_alloc \<Rightarrow> ('c, 'cl \<times> ('s, 'r) NetProtocol) slot_array \<Rightarrow> nat \<Rightarrow> nat \<Rightarrow> ('s, 'r) NetProtocol
       \<Rightarrow> ('h, 'k) NetServerBackendEnet \<Rightarrow> 'c \<Rightarrow> bool" where
  "connected A S p j P B clients \<longleftrightarrow> sbData B p = Some j \<and> j < 2 ^ 32
     \<and> (\<exists>c. alElement A j (sbTransmitters B) = Some c \<and> cnConnectionId c = j \<and> \<not> cnDisconnected c)
     \<and> (\<exists>client. saElement S j clients = Some (client, P))"

context pipe
begin

lemma enet_messages:
  assumes "enet_ready t" "teLagSim t = 0" "i < 2 ^ cb" "cb \<le> 64" "\<forall>m\<in>set ms. wf m"
  shows "\<exists>t' datas. efold (\<lambda>m. with_message (Enet dbg rel unseq take_packet now) mode (int i) (int cb) (body m)) ms t = Inr t'
    \<and> enet_ready t' \<and> tePeer t' = tePeer t @ datas
    \<and> list_all2 (\<lambda>data m. is_message data (header False cb i @ enc m)) datas ms"
  using assms(1,2,5)
proof (induction ms arbitrary: t)
  case Nil
  then show ?case by simp
next
  case (Cons m ms)
  have b: "winv w \<Longrightarrow> \<exists>w'. body m w = Inr w' \<and> appended w w' (enc m)" for w
    using body_enc Cons.prems(3) by simp
  from enet.with_message [OF Cons.prems(1) assms(3,4) b, of dbg rel unseq take_packet now mode] obtain t1 where
    1: "with_message (Enet dbg rel unseq take_packet now) mode (int i) (int cb) (body m) t = Inr t1" "enet_ready t1"
    and s: "enet_sends take_packet now t t1 (header False cb i @ enc m)" by blast
  obtain data where p: "tePeer t1 = tePeer t @ [data]" "is_message data (header False cb i @ enc m)" "teLagSim t1 = 0"
    using s Cons.prems(2) by (auto simp: enet_sends_def take_packet_def)
  from Cons.IH [OF 1(2) p(3)] Cons.prems(3) obtain t2 datas where
    2: "efold (\<lambda>m. with_message (Enet dbg rel unseq take_packet now) mode (int i) (int cb) (body m)) ms t1 = Inr t2"
      "enet_ready t2" "tePeer t2 = tePeer t1 @ datas"
      "list_all2 (\<lambda>data m. is_message data (header False cb i @ enc m)) datas ms" by auto
  show ?case using 1 2 p by (intro exI [of _ t2] exI [of _ "data # datas"]) simp
qed

end

text \<open>A message's packet, received.\<close>

lemma server_receives:
  assumes pipe: "pipe body got deliver_to ok enc"
    and c: "connected A S p j P B clients" and S: "slots_ok S max_clients"
    and P: "i < n" "n = length (npReceivers P)" "n < 2 ^ 31"
    and chan: "\<And>r e r' e'. got r e = Inr (r', e') \<Longrightarrow>
      got_channel (npReceivers P ! i) r e = Inr (npReceivers P ! i, r', e')"
    and m: "is_message data (header False (size_bits (n - 1)) i @ enc m)" "ok m" "deliver_to m (B, a) = Inr (B, a')"
  shows "\<exists>clients'. server_event A g peers (NetServer_interface S AllowNewConnection ConstructClient CleanupClient protocol
        got_ack got_channel) (ENET_EVENT_TYPE_RECEIVE p data) (B, clients, a) = Inr (B, clients', a')
    \<and> connected A S p j P B clients'"
proof -
  obtain x client where x: "alElement A j (sbTransmitters B) = Some x" "cnConnectionId x = j" "\<not> cnDisconnected x"
    and d: "sbData B p = Some j" "j < 2 ^ 32" and s: "saElement S j clients = Some (client, P)"
    using c by (auto simp: connected_def)
  let ?r = "NetBitReaderBuffer_init data"
  obtain pad where b: "rbits ?r = header False (size_bits (n - 1)) i @ enc m @ pad"
    using is_message_reader(1) [OF m(1)] by auto
  from Protocol_GotMessage_at [OF is_message_reader(2) [OF m(1)] b, of P got_ack got_channel "(B, a)"] P obtain r' where
    r': "rinv r'" "rbits r' = enc m @ pad" and g: "Protocol_GotMessage got_ack got_channel ?r (P, (B, a)) =
      ebind (got_channel (npReceivers P ! i) r' (B, a)) (\<lambda>(x, r, e). Inr (r, P\<lparr>npReceivers := (npReceivers P)[i := x]\<rparr>, e))"
    by auto
  obtain r2 where "got r' (B, a) = Inr (r2, (B, a'))" using pipe.got_enc [OF pipe r'(1) m(2) r'(2) m(3)] by auto
  from chan [OF this] g have p: "Protocol_GotMessage got_ack got_channel ?r (P, (B, a)) = Inr (r2, P, (B, a'))" by simp
  have "take_bit 32 j = j" using d(2) by (simp add: take_bit_nat_eq_self)
  then have "server_event A g peers (NetServer_interface S AllowNewConnection ConstructClient CleanupClient protocol
        got_ack got_channel) (ENET_EVENT_TYPE_RECEIVE p data) (B, clients, a) = Inr (B, saUpdate S j (client, P) clients, a')"
    using x d s p by (simp add: server_event_def NetServer_interface_def Server_GotMessage_def Let_def)
  moreover have "connected A S p j P B (saUpdate S j (client, P) clients)"
    using slots_simps(2) [OF S, of j clients j "(client, P)"] x d s by (auto simp: connected_def)
  ultimately show ?thesis by blast
qed

lemma server_receives_all:
  assumes pipe: "pipe body got deliver_to ok enc"
    and S: "slots_ok S max_clients" and N: "enet_ok N pending"
    and P: "i < n" "n = length (npReceivers P)" "n < 2 ^ 31"
    and chan: "\<And>r e r' e'. got r e = Inr (r', e') \<Longrightarrow>
      got_channel (npReceivers P ! i) r e = Inr (npReceivers P ! i, r', e')"
    and cb: "\<And>m B a. ok m \<Longrightarrow> deliver_to m (B, a) = Inr (B, app m a)"
  shows "list_all2 (\<lambda>data m. is_message data (header False (size_bits (n - 1)) i @ enc m)) datas ms \<Longrightarrow>
    \<forall>m\<in>set ms. ok m \<Longrightarrow> connected A S p j P B clients \<Longrightarrow> pending (sbHost B) = map (ENET_EVENT_TYPE_RECEIVE p) datas \<Longrightarrow>
    \<exists>B' clients'. server_events N A g peers (NetServer_interface S AllowNewConnection ConstructClient CleanupClient protocol
        got_ack got_channel) B (clients, a) = Some (Inr (B', clients', fold app ms a))
    \<and> connected A S p j P B' clients' \<and> pending (sbHost B') = []"
proof (induction datas ms arbitrary: B clients a rule: list_all2_induct)
  case Nil
  obtain r e h where s: "enet_host_service N (sbHost B) = (r, e, h)" by (metis prod_cases3)
  have "connected A S p j P (B\<lparr>sbHost := h\<rparr>) clients" using Nil(2) by (simp add: connected_def)
  then show ?case
    using enet_service(1) [OF N s] Nil(3) s
    by (simp add: server_events.simps [of N A g peers _ B "(clients, a)"])
next
  case (Cons data datas m ms)
  let ?I = "NetServer_interface S AllowNewConnection ConstructClient CleanupClient protocol got_ack got_channel"
  obtain r e h where s: "enet_host_service N (sbHost B) = (r, e, h)" by (metis prod_cases3)
  have h: "r \<noteq> 0" "e = ENET_EVENT_TYPE_RECEIVE p data" "pending h = map (ENET_EVENT_TYPE_RECEIVE p) datas"
    using enet_service(2) [OF N s] Cons.prems(3) by simp_all
  have c: "connected A S p j P (B\<lparr>sbHost := h\<rparr>) clients" using Cons.prems(2) by (simp add: connected_def)
  have m: "ok m" using Cons.prems(1) by simp
  obtain clients1 where 1: "server_event A g peers ?I (ENET_EVENT_TYPE_RECEIVE p data) (B\<lparr>sbHost := h\<rparr>, clients, a)
      = Inr (B\<lparr>sbHost := h\<rparr>, clients1, app m a)" "connected A S p j P (B\<lparr>sbHost := h\<rparr>) clients1"
    using server_receives [where got_channel = got_channel and P = P and i = i and n = n,
        OF pipe c S P _ Cons.hyps(1) m cb [OF m]] chan by blast
  from Cons.IH [OF _ 1(2), of "app m a"] Cons.prems(1) h(3) obtain B' clients' where
    "server_events N A g peers ?I (B\<lparr>sbHost := h\<rparr>) (clients1, app m a) = Some (Inr (B', clients', fold app ms (app m a)))"
    "connected A S p j P B' clients'" "pending (sbHost B') = []" by auto
  then show ?case
    using s h(1,2) 1(1) by (simp add: server_events.simps [of N A g peers ?I B "(clients, a)"])
qed

section \<open>Properties\<close>

text \<open>C2: full states that a client sends over ENet on one channel, if ENet reports its packets at the server in the
  order it was given them, reach the callback of that channel of this client's protocol: one call of the server's loop
  over the events runs it once for every state, unchanged and in order, and ends with no event left.\<close>

theorem network_end_to_end:
  assumes "value_codec ser deser ok obj enc"
    and "npReceivers P ! i = RFullState deser rc" "fsDefaultData rc = Some d" "obj d"
    and "fsUpdateCallback rc = Some (\<lambda>v (B, a). Inr (B, app v a))" "\<forall>v\<in>set states. ok v"
    and "i < n" "n = length (npReceivers P)" "n < 2 ^ 31"
    and "c = Pipe_Initialize mode (int i) (channel_bits n)"
    and "enet_ready t" "teLagSim t = 0" "tePeer t = []"
    and "slots_ok S max_clients" "enet_ok N pending" "connected A S p j P B clients"
  shows "\<exists>t'. efold (FullState_SyncState ser (Enet dbg reliable unsequenced take_packet now) c) states t = Inr t'
    \<and> (pending (sbHost B) = map (ENET_EVENT_TYPE_RECEIVE p) (tePeer t') \<longrightarrow>
         (\<exists>B' clients'. server_events N A g peers (NetServer_interface S AllowNewConnection ConstructClient CleanupClient
             protocol got_ack Receiver_got) B (clients, a) = Some (Inr (B', clients', fold app states a))
           \<and> connected A S p j P B' clients' \<and> pending (sbHost B') = []))"
proof -
  note pipe = full_state_pipe [OF assms(1,3,4)]
  have n: "0 < n" using assms(7) by simp
  note cb = channel_bits_eq [OF n assms(9)]
  have i: "i < 2 ^ size_bits (n - 1)" using cb(2) assms(7) by linarith
  obtain t' datas where t: "efold (\<lambda>m. with_message (Enet dbg reliable unsequenced take_packet now) mode (int i)
        (int (size_bits (n - 1))) (ser m)) states t = Inr t'" "tePeer t' = datas"
      "list_all2 (\<lambda>data m. is_message data (header False (size_bits (n - 1)) i @ enc m)) datas states"
    using pipe.enet_messages [OF pipe assms(11,12) i _ assms(6), of dbg reliable unsequenced now mode] cb(3) assms(13) by auto
  have sy: "FullState_SyncState ser (Enet dbg reliable unsequenced take_packet now) c =
      (\<lambda>m. with_message (Enet dbg reliable unsequenced take_packet now) mode (int i) (int (size_bits (n - 1))) (ser m))"
    by (intro ext) (simp add: FullState_SyncState_def assms(10) Pipe_Initialize_def cb(1))
  have chan: "Receiver_got (npReceivers P ! i) r e = Inr (npReceivers P ! i, r', e')"
    if "FullState_GotMessage deser rc r e = Inr (r', e')" for r e r' e'
    using that assms(2) by simp
  have "\<exists>B' clients'. server_events N A g peers (NetServer_interface S AllowNewConnection ConstructClient CleanupClient
          protocol got_ack Receiver_got) B (clients, a) = Some (Inr (B', clients', fold app states a))
        \<and> connected A S p j P B' clients' \<and> pending (sbHost B') = []"
    if "pending (sbHost B) = map (ENET_EVENT_TYPE_RECEIVE p) datas"
    using server_receives_all [where got_channel = Receiver_got and P = P and i = i and n = n and app = app,
        OF pipe assms(14,15,7-9) _ _ t(3) assms(6,16) that] chan assms(5) by simp
  then show ?thesis using t(1,2) unfolding sy by blast
qed

text \<open>Two flags from the client behind peer 7.\<close>

abbreviation flag_over_enet :: "(unit, (bool, (enet_event list, nat \<Rightarrow> unit connection option) NetServerBackendEnet \<times> bool list) Receiver) NetProtocol" where
  "flag_over_enet \<equiv> \<lparr>npSenders = [()], npReceivers = [RFullState NetDeserializer_bool
     \<lparr>fsUpdateCallback = Some (\<lambda>v (B, a). Inr (B, a @ [v])), fsDefaultData = Some False\<rparr>]\<rparr>"

abbreviation flag_sender :: "u8 list list NetTransmitterEnet" where
  "flag_sender \<equiv> cnTransmitter (NetTransmitterEnet_init 0 [])"

abbreviation flag_server :: "(enet_event list, nat \<Rightarrow> unit connection option) NetServerBackendEnet" where
  "flag_server \<equiv> \<lparr>sbHost = [ENET_EVENT_TYPE_RECEIVE 7 [4], ENET_EVENT_TYPE_RECEIVE 7 [0]],
     sbTransmitters = [2 \<mapsto> (NetTransmitterEnet_init 0 ())\<lparr>cnConnectionId := 2\<rparr>], sbData = [7 \<mapsto> 2]\<rparr>"

theorem network_end_to_end_witness:
  "\<exists>t'. efold (FullState_SyncState (NetSerializer_bool True) (Enet True 1 2 take_packet 0)
        (Pipe_Initialize kReliable (int 0) (channel_bits 1))) [True, False] flag_sender = Inr t'
    \<and> tePeer t' = [[4], [0]]
    \<and> (\<exists>B' clients'. server_events event_list (first_slot 4) 0 (\<lambda>_. ()) (NetServer_interface (map_slots 4) (\<lambda>host port. True)
          (\<lambda>j P e. Inr ((), P, e)) (\<lambda>client P e. Inr e) flag_over_enet (\<lambda>s r. Inr (s, r)) Receiver_got) flag_server
        ([2 \<mapsto> ((), flag_over_enet)], []) = Some (Inr (B', clients', [True, False])))"
proof -
  let ?rc = "\<lparr>fsUpdateCallback = Some (\<lambda>v (B, a). Inr (B, a @ [v])), fsDefaultData = Some False\<rparr> ::
    (bool, (enet_event list, nat \<Rightarrow> unit connection option) NetServerBackendEnet \<times> bool list) FullStateReceiver"
  have h: "npReceivers flag_over_enet ! 0 = RFullState NetDeserializer_bool ?rc" "fsDefaultData ?rc = Some False"
    "fsUpdateCallback ?rc = Some (\<lambda>v (B, a). Inr (B, a @ [v]))" "(0 :: nat) < 1" "1 = length (npReceivers flag_over_enet)"
    "(1 :: nat) < 2 ^ 31" by simp_all
  have r: "enet_ready flag_sender" "teLagSim flag_sender = 0" "tePeer flag_sender = []"
    by (simp_all add: NetTransmitterEnet_init_def enet_ready_def)
  have c: "connected (first_slot 4) (map_slots 4) 7 2 flag_over_enet flag_server [2 \<mapsto> ((), flag_over_enet)]"
    by (simp add: connected_def first_slot_def map_slots_def NetTransmitterEnet_init_def)
  have sent: "map_sum id tePeer (efold (FullState_SyncState (NetSerializer_bool True) (Enet True 1 2 take_packet 0)
        (Pipe_Initialize kReliable (int 0) (channel_bits 1))) [True, False] flag_sender) = Inr [[4], [0]]"
    by code_simp
  let ?send = "efold (FullState_SyncState (NetSerializer_bool True) (Enet True 1 2 take_packet 0)
        (Pipe_Initialize kReliable (int 0) (channel_bits 1))) [True, False] flag_sender"
  let ?loop = "server_events event_list (first_slot 4) 0 (\<lambda>_. ()) (NetServer_interface (map_slots 4) (\<lambda>host port. True)
          (\<lambda>j P e. Inr ((), P, e)) (\<lambda>client P e. Inr e) flag_over_enet (\<lambda>s r. Inr (s, r)) Receiver_got) flag_server
        ([2 \<mapsto> ((), flag_over_enet)], [])"
  have "\<exists>t'. ?send = Inr t' \<and> (sbHost flag_server = map (ENET_EVENT_TYPE_RECEIVE 7) (tePeer t') \<longrightarrow>
      (\<exists>B' clients'. ?loop = Some (Inr (B', clients', fold (\<lambda>v a. a @ [v]) [True, False] []))
        \<and> connected (first_slot 4) (map_slots 4) 7 2 flag_over_enet B' clients' \<and> sbHost B' = []))"
    by (rule network_end_to_end [OF bool_codec.value_codec_axioms [of True] h(1,2) _ h(3) _ h(4-6) refl r map_slots_ok
        event_list_ok c]) simp_all
  then obtain t' where t: "?send = Inr t'" "sbHost flag_server = map (ENET_EVENT_TYPE_RECEIVE 7) (tePeer t') \<Longrightarrow>
      \<exists>B' clients'. ?loop = Some (Inr (B', clients', fold (\<lambda>v a. a @ [v]) [True, False] []))"
    by blast
  have p: "tePeer t' = [[4], [0]]" using sent unfolding t(1) by simp
  then have "\<exists>B' clients'. ?loop = Some (Inr (B', clients', [True, False]))" using t(2) by simp
  then show ?thesis using t(1) p by blast
qed

end
