(* ===== verification/Bindings.thy ===== *)
theory Bindings
  imports ArrayList
begin

text \<open>
  Bindings (\<^verbatim>\<open>NetBindingHelpers.h\<close>, \<^verbatim>\<open>NetBindings.h\<close>): a received value is copied over the old one, and an object
  of the application that is bound to it is kept up to date by callbacks for what changed.

  \<open>'a\<close> are the values, \<open>'b\<close> the bound objects. A copier takes \<^verbatim>\<open>src\<close>, \<^verbatim>\<open>dst\<close> and \<^verbatim>\<open>bound\<close> and returns whether
  anything changed with the new \<^verbatim>\<open>dst\<close> and \<^verbatim>\<open>bound\<close>. The comparison and the copy of StormRefl are arguments.
\<close>

type_synonym ('a, 'b) copier = "'a \<Rightarrow> 'a \<Rightarrow> 'b \<Rightarrow> (bool \<times> 'a \<times> 'b) result"

section \<open>Copying a value to its bound object\<close>

definition NetNoBindingCopy :: "'a \<Rightarrow> 'b \<Rightarrow> 'b" where
  "NetNoBindingCopy m1 m2 = m2"

text \<open>\<open>convert\<close> is \<^verbatim>\<open>static_cast<M2>\<close>, \<^verbatim>\<open>None\<close> if \<^verbatim>\<open>M1\<close> does not convert to \<^verbatim>\<open>M2\<close>.\<close>

definition NetDefaultBindingCopy :: "('a \<Rightarrow> 'b) option \<Rightarrow> 'a \<Rightarrow> 'b \<Rightarrow> 'b" where
  "NetDefaultBindingCopy convert m1 m2 = (case convert of None \<Rightarrow> NetNoBindingCopy m1 m2 | Some f \<Rightarrow> f m1)"

fun array_copy_loop :: "('a \<Rightarrow> 'b) \<Rightarrow> nat list \<Rightarrow> 'a list \<Rightarrow> 'b list \<Rightarrow> 'b list" where
  "array_copy_loop convert [] m1 m2 = m2"
| "array_copy_loop convert (index # is) m1 m2 =
     array_copy_loop convert is m1 (m2[index := convert (m1 ! index)])"

definition NetDefaultBindingCopy_array :: "('a \<Rightarrow> 'b) \<Rightarrow> 'a list \<Rightarrow> 'b list \<Rightarrow> 'b list" where
  "NetDefaultBindingCopy_array convert m1 m2 =
     (let min_size = min (length m1) (length m2) in array_copy_loop convert [0..<min_size] m1 m2)"

text \<open>\<^verbatim>\<open>NetUpdateOnlyBinding\<close> with the update of \<^verbatim>\<open>NetCreateDefaultBinding\<close>.\<close>

definition NetCreateDefaultBinding :: "('a \<Rightarrow> 'b) option \<Rightarrow> 'a \<Rightarrow> 'b \<Rightarrow> 'b result" where
  "NetCreateDefaultBinding convert m1 m2 = Inr (NetDefaultBindingCopy convert m1 m2)"

definition NetBindingIgnoreUpdate :: "'a \<Rightarrow> 'b \<Rightarrow> 'b result" where
  "NetBindingIgnoreUpdate a b = Inr b"

definition NetBindingCopier ::
    "('a \<Rightarrow> 'a \<Rightarrow> bool) \<Rightarrow> ('a \<Rightarrow> 'a \<Rightarrow> 'a) \<Rightarrow> ('a \<Rightarrow> 'b \<Rightarrow> 'b result) \<Rightarrow> ('a, 'b) copier" where
  "NetBindingCopier Compare Copy Update src dst bound =
     (if \<not> Compare src dst then
        let dst = Copy dst src in
        ebind (Update dst bound) (\<lambda>bound. Inr (True, dst, bound))
      else Inr (False, dst, bound))"

section \<open>Lists\<close>

text \<open>
  \<open>nlGetElement\<close> is the reference to an element of the bound object: its value, and the bound object when it is
  assigned to. \<open>nlChildBindings\<close> is the copier of the elements with the child bindings.
\<close>

record ('a, 'b, 'c) NetListBindings =
  nlUpdate :: "'a list \<Rightarrow> 'b \<Rightarrow> 'b result"
  nlAddElement :: "'a list \<Rightarrow> 'b \<Rightarrow> nat \<Rightarrow> 'b result"
  nlGetElement :: "'a list \<Rightarrow> 'b \<Rightarrow> nat \<Rightarrow> ('c \<times> ('c \<Rightarrow> 'b)) result"
  nlRemoveElement :: "'a list \<Rightarrow> 'b \<Rightarrow> nat \<Rightarrow> 'b result"
  nlChildBindings :: "'a list \<Rightarrow> 'b \<Rightarrow> ('a, 'c) copier result"

fun update_elements ::
    "('a, 'b, 'c) NetListBindings \<Rightarrow> ('a, 'c) copier \<Rightarrow> nat list \<Rightarrow> bool \<Rightarrow> 'a list \<Rightarrow> 'a list \<Rightarrow> 'b
       \<Rightarrow> (bool \<times> 'a list \<times> 'b) result" where
  "update_elements bindings copier [] changed src dst bound = Inr (changed, dst, bound)"
| "update_elements bindings copier (index # is) changed src dst bound =
     ebind (nlGetElement bindings dst bound index) (\<lambda>(elem, assign).
     ebind (copier (src ! index) (dst ! index) elem) (\<lambda>(ch, d, elem).
       update_elements bindings copier is (changed \<or> ch) src (dst[index := d]) (assign elem)))"

fun add_elements ::
    "nat \<Rightarrow> ('a, 'b, 'c) NetListBindings \<Rightarrow> nat list \<Rightarrow> bool \<Rightarrow> 'a list \<Rightarrow> 'a list \<Rightarrow> 'b
       \<Rightarrow> (bool \<times> 'a list \<times> 'b) result" where
  "add_elements max_size bindings [] changed src dst bound = Inr (changed, dst, bound)"
| "add_elements max_size bindings (index # is) changed src dst bound =
     ebind (PushBack max_size (src ! index) dst) (\<lambda>dst.
     ebind (nlAddElement bindings dst bound index) (\<lambda>bound.
       add_elements max_size bindings is True src dst bound))"

function remove_elements ::
    "('a, 'b, 'c) NetListBindings \<Rightarrow> bool \<Rightarrow> 'a list \<Rightarrow> 'a list \<Rightarrow> 'b \<Rightarrow> (bool \<times> 'a list \<times> 'b) result" where
  "remove_elements bindings changed src dst bound =
     (if length dst = length src then Inr (changed, dst, bound)
      else
        let remove_index = unat (of_nat (length dst) - 1 :: u64) in
        ebind (nlRemoveElement bindings dst bound remove_index) (\<lambda>bound.
        ebind (RemoveAt remove_index dst) (\<lambda>dst. remove_elements bindings True src dst bound)))"
  by pat_completeness auto
termination
  by (relation "measure (\<lambda>(bindings, changed, src, dst, bound). length dst)") (auto simp: RemoveAt_def split: if_splits)

declare remove_elements.simps [simp del]

definition NetBindingVectorCopier :: "nat \<Rightarrow> ('a, 'b, 'c) NetListBindings \<Rightarrow> ('a list, 'b) copier" where
  "NetBindingVectorCopier max_size bindings src dst bound =
     ebind (nlChildBindings bindings dst bound) (\<lambda>copier.
     let min_size = min (length src) (length dst) in
     ebind (update_elements bindings copier [0..<min_size] False src dst bound) (\<lambda>(changed, dst, bound).
     ebind (add_elements max_size bindings [min_size..<length src] changed src dst bound) (\<lambda>(changed, dst, bound).
     ebind (remove_elements bindings changed src dst bound) (\<lambda>(changed, dst, bound).
       if changed then ebind (nlUpdate bindings dst bound) (\<lambda>bound. Inr (changed, dst, bound))
       else Inr (changed, dst, bound)))))"

text \<open>
  The bindings of a list to a \<^verbatim>\<open>std::vector\<close>: a new element is a default object, \<open>fresh\<close>, that the update of the
  child bindings is applied to. \<open>copier\<close> is the copier of the child bindings.
\<close>

definition NetCreateDefaultArrayListContainerBinding ::
    "'c \<Rightarrow> ('a list \<Rightarrow> 'c list \<Rightarrow> 'c list result) \<Rightarrow> ('a \<Rightarrow> 'c \<Rightarrow> 'c result) \<Rightarrow> ('a, 'c) copier
       \<Rightarrow> ('a, 'c list, 'c) NetListBindings" where
  "NetCreateDefaultArrayListContainerBinding fresh update child_update copier =
     \<lparr>nlUpdate = update,
      nlAddElement = (\<lambda>src container index.
        ebind (vector_insert index fresh container) (\<lambda>container.
        ebind (ArrayList_get index src) (\<lambda>elem.
        ebind (child_update elem (container ! index)) (\<lambda>c. Inr (container[index := c]))))),
      nlGetElement = (\<lambda>src container index.
        if index < length container then Inr (container ! index, \<lambda>c. container[index := c]) else Inl Undefined),
      nlRemoveElement = (\<lambda>src container index. ArrayList_erase index container),
      nlChildBindings = (\<lambda>src container. Inr copier)\<rparr>"

section \<open>Structs\<close>

text \<open>
  A reflected struct is the list of its members. A member binding is called for every member of \<^verbatim>\<open>src\<close> with the
  member's number \<open>i\<close>, which stands for its pointer; \<open>get\<close> and \<open>put\<close> are \<^verbatim>\<open>bound.*ptr2\<close>.
\<close>

type_synonym ('v, 'b) member_binding = "'v \<Rightarrow> 'v \<Rightarrow> 'b \<Rightarrow> nat \<Rightarrow> bool \<Rightarrow> ((bool \<times> 'v \<times> 'b) \<times> bool) result"

definition NetMatchMemberUpdate :: "bool \<Rightarrow> ('v, 'c) copier \<Rightarrow> ('v, 'c) copier" where
  "NetMatchMemberUpdate match NetBindingCopy src dst bound =
     (if match then NetBindingCopy src dst bound else Inr (False, dst, bound))"

definition NetCreateMemberBinding ::
    "nat \<Rightarrow> ('b \<Rightarrow> 'c) \<Rightarrow> ('c \<Rightarrow> 'b \<Rightarrow> 'b) \<Rightarrow> ('v, 'c) copier \<Rightarrow> ('v, 'b) member_binding" where
  "NetCreateMemberBinding ptr1 get put NetBindingCopy src dst bound i matched =
     (let matched = (matched \<or> ptr1 = i) in
      ebind (NetMatchMemberUpdate (ptr1 = i) NetBindingCopy src dst (get bound)) (\<lambda>(changed, dst, c).
        Inr ((changed, dst, put c bound), matched)))"

text \<open>\<open>CompareAndCopy\<close> is \<^verbatim>\<open>StormReflCompareAndCopy\<close>: whether the values differ, and the new \<^verbatim>\<open>dst\<close>.\<close>

fun NetCreateStructBindingList ::
    "('v \<Rightarrow> 'v \<Rightarrow> bool \<times> 'v) \<Rightarrow> ('v, 'b) member_binding list \<Rightarrow> 'v \<Rightarrow> 'v \<Rightarrow> 'b \<Rightarrow> nat \<Rightarrow> (bool \<times> 'v \<times> 'b) result" where
  "NetCreateStructBindingList CompareAndCopy [] src dst bound i =
     (let (changed, dst) = CompareAndCopy dst src in Inr (changed, dst, bound))"
| "NetCreateStructBindingList CompareAndCopy (first_binding # other_bindings) src dst bound i =
     ebind (first_binding src dst bound i False) (\<lambda>((changed, dst, bound), matched).
       if \<not> matched then
         ebind (NetCreateStructBindingList CompareAndCopy other_bindings src dst bound i) (\<lambda>(ch, dst, bound).
           Inr (changed \<or> ch, dst, bound))
       else Inr (changed, dst, bound))"

fun visit_members ::
    "('v \<Rightarrow> 'v \<Rightarrow> 'b \<Rightarrow> nat \<Rightarrow> (bool \<times> 'v \<times> 'b) result) \<Rightarrow> nat list \<Rightarrow> bool \<Rightarrow> 'v list \<Rightarrow> 'v list \<Rightarrow> 'b
       \<Rightarrow> (bool \<times> 'v list \<times> 'b) result" where
  "visit_members bindings [] changed src dst bound = Inr (changed, dst, bound)"
| "visit_members bindings (i # is) changed src dst bound =
     ebind (bindings (src ! i) (dst ! i) bound i) (\<lambda>(ch, d, bound).
       visit_members bindings is (changed \<or> ch) src (dst[i := d]) bound)"

definition NetCreateStructBinding ::
    "('v \<Rightarrow> 'v \<Rightarrow> 'b \<Rightarrow> nat \<Rightarrow> (bool \<times> 'v \<times> 'b) result) \<Rightarrow> ('v list, 'b) copier" where
  "NetCreateStructBinding bindings src dst bound = visit_members bindings [0..<length src] False src dst bound"

section \<open>The contract\<close>

text \<open>
  Copying makes \<^verbatim>\<open>dst\<close> equal to \<^verbatim>\<open>src\<close>, tells whether it was not, keeps the bound object a mirror of the value, and
  leaves it alone if nothing changed.
\<close>

locale binding =
  fixes copier :: "('a, 'b) copier"
    and fine :: "'a \<Rightarrow> bool"
    and mirrors :: "'a \<Rightarrow> 'b \<Rightarrow> bool"
  assumes copies: "fine src \<Longrightarrow> fine dst \<Longrightarrow> mirrors dst bound \<Longrightarrow>
    \<exists>bound'. copier src dst bound = Inr (src \<noteq> dst, src, bound') \<and> mirrors src bound' \<and> (src = dst \<longrightarrow> bound' = bound)"

text \<open>What is relied on of StormRefl.\<close>

definition refl_ok :: "('a \<Rightarrow> 'a \<Rightarrow> bool) \<Rightarrow> ('a \<Rightarrow> 'a \<Rightarrow> 'a) \<Rightarrow> bool" where
  "refl_ok Compare Copy \<longleftrightarrow> (\<forall>a b. Compare a b \<longleftrightarrow> a = b) \<and> (\<forall>dst src. Copy dst src = src)"

lemma update_only_binding:
  assumes "refl_ok Compare Copy" "\<And>v bound. fine v \<Longrightarrow> \<exists>bound'. Update v bound = Inr bound' \<and> mirrors v bound'"
  shows "binding (NetBindingCopier Compare Copy Update) fine mirrors"
proof
  fix src dst bound assume f: "fine src" "mirrors dst bound"
  obtain bound' where "Update src bound = Inr bound'" "mirrors src bound'" using assms(2) [OF f(1)] by blast
  then show "\<exists>bound'. NetBindingCopier Compare Copy Update src dst bound = Inr (src \<noteq> dst, src, bound')
      \<and> mirrors src bound' \<and> (src = dst \<longrightarrow> bound' = bound)"
    using assms(1) f(2) by (auto simp: NetBindingCopier_def refl_ok_def)
qed

interpretation default_binding: binding "NetBindingCopier (=) (\<lambda>dst src. src) (NetCreateDefaultBinding (Some convert))"
    "\<lambda>_. True" "\<lambda>v bound. bound = convert v" for convert
  by (rule update_only_binding) (simp_all add: refl_ok_def NetCreateDefaultBinding_def NetDefaultBindingCopy_def)

section \<open>Lists of bound elements\<close>

text \<open>What the callbacks of a list have to do: keep the bound object a mirror of the list while it changes.\<close>

locale list_binding = child: binding copier fine mirror
  for copier :: "('a, 'c) copier" and fine :: "'a \<Rightarrow> bool" and mirror :: "'a \<Rightarrow> 'c \<Rightarrow> bool" +
  fixes max_size :: nat
    and bindings :: "('a, 'b, 'c) NetListBindings"
    and mirrors :: "'a list \<Rightarrow> 'b \<Rightarrow> bool"
  assumes bounded: "max_size < 2 ^ 64"
    and children: "nlChildBindings bindings dst bound = Inr copier"
    and gets: "mirrors dst bound \<Longrightarrow> index < length dst \<Longrightarrow>
      \<exists>elem assign. nlGetElement bindings dst bound index = Inr (elem, assign) \<and> mirror (dst ! index) elem
        \<and> assign elem = bound \<and> (\<forall>v elem'. mirror v elem' \<longrightarrow> mirrors (dst[index := v]) (assign elem'))"
    and adds: "mirrors vs bound \<Longrightarrow> fine v \<Longrightarrow>
      \<exists>bound'. nlAddElement bindings (vs @ [v]) bound (length vs) = Inr bound' \<and> mirrors (vs @ [v]) bound'"
    and removes: "mirrors (vs @ [v]) bound \<Longrightarrow>
      \<exists>bound'. nlRemoveElement bindings (vs @ [v]) bound (length vs) = Inr bound' \<and> mirrors vs bound'"
    and updates: "mirrors vs bound \<Longrightarrow> list_all fine vs \<Longrightarrow> \<exists>bound'. nlUpdate bindings vs bound = Inr bound' \<and> mirrors vs bound'"

context list_binding
begin

text \<open>The loop over the elements both have, from the \<open>k\<close>-th on.\<close>

lemma update_elements_copies:
  assumes "n \<le> length src" "n \<le> length dst" "list_all fine src" "list_all fine dst" "mirrors dst bound" "k \<le> n"
  shows "\<exists>bound'. update_elements bindings copier [k..<n] changed src dst bound
      = Inr (changed \<or> take (n - k) (drop k src) \<noteq> take (n - k) (drop k dst),
          take k dst @ take (n - k) (drop k src) @ drop n dst, bound')
    \<and> mirrors (take k dst @ take (n - k) (drop k src) @ drop n dst) bound'
    \<and> (take (n - k) (drop k src) = take (n - k) (drop k dst) \<longrightarrow> bound' = bound)"
  using assms
proof (induction "n - k" arbitrary: k changed dst bound)
  case 0
  then show ?case by simp
next
  case (Suc m)
  have k: "k < n" "k < length src" "k < length dst" using Suc.hyps(2) Suc.prems by linarith+
  obtain elem assign where g: "nlGetElement bindings dst bound k = Inr (elem, assign)" "mirror (dst ! k) elem"
      "assign elem = bound" "\<And>v elem'. mirror v elem' \<Longrightarrow> mirrors (dst[k := v]) (assign elem')"
    using gets [OF Suc.prems(5) k(3)] by blast
  have f: "fine (src ! k)" "fine (dst ! k)" using Suc.prems(3,4) k by (simp_all add: list_all_length)
  obtain elem' where c: "copier (src ! k) (dst ! k) elem = Inr (src ! k \<noteq> dst ! k, src ! k, elem')" "mirror (src ! k) elem'"
      "src ! k = dst ! k \<longrightarrow> elem' = elem"
    using child.copies [OF f g(2)] by blast
  let ?dst = "dst[k := src ! k]"
  have IH: "\<exists>bound'. update_elements bindings copier [Suc k..<n] (changed \<or> src ! k \<noteq> dst ! k) src ?dst (assign elem')
      = Inr ((changed \<or> src ! k \<noteq> dst ! k) \<or> take (n - Suc k) (drop (Suc k) src) \<noteq> take (n - Suc k) (drop (Suc k) ?dst),
          take (Suc k) ?dst @ take (n - Suc k) (drop (Suc k) src) @ drop n ?dst, bound')
    \<and> mirrors (take (Suc k) ?dst @ take (n - Suc k) (drop (Suc k) src) @ drop n ?dst) bound'
    \<and> (take (n - Suc k) (drop (Suc k) src) = take (n - Suc k) (drop (Suc k) ?dst) \<longrightarrow> bound' = assign elem')"
    by (rule Suc.hyps(1)) (use Suc.hyps(2) Suc.prems k f g(4) [OF c(2)] in \<open>auto simp: list_all_length nth_list_update\<close>)
  have d: "drop (Suc k) ?dst = drop (Suc k) dst" "drop n ?dst = drop n dst" using k by simp_all
  have t: "take (Suc k) ?dst = take k dst @ [src ! k]" using k by (simp add: take_Suc_conv_app_nth)
  have e: "take (n - k) (drop k xs) = xs ! k # take (n - Suc k) (drop (Suc k) xs)" if "k < length xs" for xs :: "'a list"
    using k(1) that by (metis Cons_nth_drop_Suc Suc_diff_Suc take_Suc_Cons)
  obtain bound' where u: "update_elements bindings copier [Suc k..<n] (changed \<or> src ! k \<noteq> dst ! k) src ?dst (assign elem')
      = Inr ((changed \<or> src ! k \<noteq> dst ! k) \<or> take (n - Suc k) (drop (Suc k) src) \<noteq> take (n - Suc k) (drop (Suc k) dst),
          take k dst @ [src ! k] @ take (n - Suc k) (drop (Suc k) src) @ drop n dst, bound')"
      "mirrors (take k dst @ [src ! k] @ take (n - Suc k) (drop (Suc k) src) @ drop n dst) bound'"
      "take (n - Suc k) (drop (Suc k) src) = take (n - Suc k) (drop (Suc k) dst) \<longrightarrow> bound' = assign elem'"
    using IH unfolding d t by auto
  have "[k..<n] = k # [Suc k..<n]" using k(1) by (simp add: upt_conv_Cons)
  then show ?case
    using g(1,3) c(1,3) u e [OF k(2)] e [OF k(3)] by auto
qed

lemma add_elements_copies:
  assumes "list_all fine src" "length src \<le> max_size" "mirrors (take k src) bound" "k \<le> length src"
  shows "\<exists>bound'. add_elements max_size bindings [k..<length src] changed src (take k src) bound
      = Inr (changed \<or> k < length src, src, bound') \<and> mirrors src bound' \<and> (k = length src \<longrightarrow> bound' = bound)"
  using assms
proof (induction "length src - k" arbitrary: k changed bound)
  case 0
  then show ?case by simp
next
  case (Suc m)
  have k: "k < length src" using Suc.hyps(2) by linarith
  have t: "take (Suc k) src = take k src @ [src ! k]" using k by (simp add: take_Suc_conv_app_nth)
  have "fine (src ! k)" using Suc.prems(1) k by (simp add: list_all_length)
  then obtain b where b: "nlAddElement bindings (take (Suc k) src) bound k = Inr b" "mirrors (take (Suc k) src) b"
    using adds [OF Suc.prems(3), of "src ! k"] k by (auto simp: t)
  have p: "PushBack max_size (src ! k) (take k src) = Inr (take (Suc k) src)" using k Suc.prems(2) by (simp add: PushBack_def t)
  have "\<exists>bound'. add_elements max_size bindings [Suc k..<length src] True src (take (Suc k) src) b
      = Inr (True \<or> Suc k < length src, src, bound') \<and> mirrors src bound' \<and> (Suc k = length src \<longrightarrow> bound' = b)"
    by (rule Suc.hyps(1)) (use Suc.hyps(2) Suc.prems k b(2) in auto)
  then show ?case using k p b(1) by (auto simp: upt_conv_Cons)
qed

lemma remove_elements_copies:
  assumes "mirrors (src @ extra) bound" "length (src @ extra) \<le> max_size"
  shows "\<exists>bound'. remove_elements bindings changed src (src @ extra) bound = Inr (changed \<or> extra \<noteq> [], src, bound')
    \<and> mirrors src bound' \<and> (extra = [] \<longrightarrow> bound' = bound)"
  using assms
proof (induction extra arbitrary: changed bound rule: rev_induct)
  case Nil
  then show ?case by (simp add: remove_elements.simps [of bindings changed src src])
next
  case (snoc v extra)
  obtain b where b: "nlRemoveElement bindings (src @ extra @ [v]) bound (length (src @ extra)) = Inr b" "mirrors (src @ extra) b"
    using removes [of "src @ extra" v bound] snoc.prems(1) by auto
  have "of_nat (length (src @ extra @ [v])) - 1 = (of_nat (length (src @ extra)) :: u64)" by simp
  moreover have "unat (of_nat (length (src @ extra)) :: u64) = length (src @ extra)"
    using snoc.prems(2) bounded by (simp only: unsigned_of_nat) (simp add: take_bit_nat_eq_self)
  ultimately have i: "unat (of_nat (length (src @ extra @ [v])) - 1 :: u64) = length (src @ extra)" by (simp only:)
  obtain bound' where r: "remove_elements bindings True src (src @ extra) b = Inr (True, src, bound')" "mirrors src bound'"
    using snoc.IH [OF b(2), of True] snoc.prems(2) by auto
  have "remove_elements bindings changed src (src @ extra @ [v]) bound = remove_elements bindings True src (src @ extra) b"
    by (subst remove_elements.simps) (use b(1) i in \<open>simp add: Let_def RemoveAt_def\<close>)
  then show ?case using r by simp
qed

lemma vector_copies:
  assumes "list_all fine src" "length src \<le> max_size" "list_all fine dst" "length dst \<le> max_size" "mirrors dst bound"
  shows "\<exists>bound'. NetBindingVectorCopier max_size bindings src dst bound = Inr (src \<noteq> dst, src, bound')
    \<and> mirrors src bound' \<and> (src = dst \<longrightarrow> bound' = bound)"
proof -
  define n where "n = min (length src) (length dst)"
  obtain b1 where u: "update_elements bindings copier [0..<n] False src dst bound
      = Inr (take n src \<noteq> take n dst, take n src @ drop n dst, b1)" "mirrors (take n src @ drop n dst) b1"
      "take n src = take n dst \<longrightarrow> b1 = bound"
    using update_elements_copies [of n src dst bound 0 False] assms by (auto simp: n_def)
  have "\<exists>b2 b3. add_elements max_size bindings [n..<length src] (take n src \<noteq> take n dst) src (take n src @ drop n dst) b1
        = Inr (take n src \<noteq> take n dst \<or> n < length src, take n src @ drop n dst @ drop n src, b2)
      \<and> remove_elements bindings (take n src \<noteq> take n dst \<or> n < length src) src (take n src @ drop n dst @ drop n src) b2
        = Inr (src \<noteq> dst, src, b3) \<and> mirrors src b3 \<and> (src = dst \<longrightarrow> b3 = bound)"
  proof (cases "length src \<le> length dst")
    case True
    then have n: "n = length src" by (simp add: n_def)
    have ne: "(take n src \<noteq> take n dst \<or> drop n dst \<noteq> []) \<longleftrightarrow> src \<noteq> dst"
      using True by (auto simp: n)
    obtain b3 where "remove_elements bindings (take n src \<noteq> take n dst) src (src @ drop n dst) b1
        = Inr (take n src \<noteq> take n dst \<or> drop n dst \<noteq> [], src, b3)" "mirrors src b3" "drop n dst = [] \<longrightarrow> b3 = b1"
      using remove_elements_copies [of src "drop n dst" b1 "take n src \<noteq> take n dst"] u(2) assms(4) True by (auto simp: n)
    then show ?thesis using u(3) unfolding ne by (auto simp: n)
  next
    case False
    then have n: "n = length dst" "n < length src" by (simp_all add: n_def)
    obtain b2 where "add_elements max_size bindings [n..<length src] (take n src \<noteq> take n dst) src (take n src) b1
        = Inr (take n src \<noteq> take n dst \<or> n < length src, src, b2)" "mirrors src b2"
      using add_elements_copies [of src n b1 "take n src \<noteq> take n dst"] u(2) assms(1,2) n by auto
    moreover have "remove_elements bindings True src src b2 = Inr (True, src, b2)"
      by (simp add: remove_elements.simps [of bindings True src src])
    moreover have "src \<noteq> dst" using n by auto
    ultimately show ?thesis using n by auto
  qed
  then obtain b2 b3 where a: "add_elements max_size bindings [n..<length src] (take n src \<noteq> take n dst) src (take n src @ drop n dst) b1
        = Inr (take n src \<noteq> take n dst \<or> n < length src, take n src @ drop n dst @ drop n src, b2)"
      and r: "remove_elements bindings (take n src \<noteq> take n dst \<or> n < length src) src (take n src @ drop n dst @ drop n src) b2
        = Inr (src \<noteq> dst, src, b3)" "mirrors src b3" "src = dst \<longrightarrow> b3 = bound"
    by blast
  obtain b4 where b4: "nlUpdate bindings src b3 = Inr b4" "mirrors src b4" using updates [OF r(2) assms(1)] by blast
  have "NetBindingVectorCopier max_size bindings src dst bound = Inr (src \<noteq> dst, src, if src \<noteq> dst then b4 else b3)"
    using a r(1) u(1) b4(1) by (simp add: NetBindingVectorCopier_def children n_def [symmetric] Let_def)
  then show ?thesis using b4(2) r(2,3) by (cases "src = dst") auto
qed

end

sublocale list_binding \<subseteq> whole: binding "NetBindingVectorCopier max_size bindings"
    "\<lambda>vs. list_all fine vs \<and> length vs \<le> max_size" mirrors
  using vector_copies by unfold_locales auto

text \<open>A list bound to a \<^verbatim>\<open>std::vector\<close> is such a list, if the elements' update makes any object a mirror.\<close>

lemma vector_binding:
  assumes "max_size < 2 ^ 64" "refl_ok Compare Copy"
    and "\<And>v c. fine v \<Longrightarrow> \<exists>c'. child_update v c = Inr c' \<and> mirror v c'"
    and "\<And>vs cs. list_all2 mirror vs cs \<Longrightarrow> \<exists>cs'. update vs cs = Inr cs' \<and> list_all2 mirror vs cs'"
  shows "list_binding (NetBindingCopier Compare Copy child_update) fine mirror max_size
    (NetCreateDefaultArrayListContainerBinding fresh update child_update (NetBindingCopier Compare Copy child_update))
    (list_all2 mirror)"
proof -
  let ?N = "NetCreateDefaultArrayListContainerBinding fresh update child_update (NetBindingCopier Compare Copy child_update)"
  have child: "binding (NetBindingCopier Compare Copy child_update) fine mirror"
    by (rule update_only_binding) (use assms(2,3) in auto)
  show ?thesis
  proof (intro list_binding.intro list_binding_axioms.intro child assms(1))
    show "nlChildBindings ?N dst bound = Inr (NetBindingCopier Compare Copy child_update)" for dst bound
      by (simp add: NetCreateDefaultArrayListContainerBinding_def)
    show "\<exists>elem assign. nlGetElement ?N dst bound index = Inr (elem, assign) \<and> mirror (dst ! index) elem
        \<and> assign elem = bound \<and> (\<forall>v elem'. mirror v elem' \<longrightarrow> list_all2 mirror (dst[index := v]) (assign elem'))"
      if "list_all2 mirror dst bound" "index < length dst" for dst bound index
      using that list_all2_lengthD [OF that(1)]
      by (auto simp: NetCreateDefaultArrayListContainerBinding_def list_all2_nthD list_all2_update_cong)
    show "\<exists>bound'. nlAddElement ?N (vs @ [v]) bound (length vs) = Inr bound' \<and> list_all2 mirror (vs @ [v]) bound'"
      if mi: "list_all2 mirror vs bound" and v: "fine v" for vs bound v
    proof -
      obtain c where "child_update v fresh = Inr c" "mirror v c" using assms(3) [OF v] by blast
      then show ?thesis
        using mi list_all2_lengthD [OF mi]
        by (simp add: NetCreateDefaultArrayListContainerBinding_def vector_insert_def ArrayList_get_def nth_append
            list_update_append list_all2_appendI)
    qed
    show "\<exists>bound'. nlRemoveElement ?N (vs @ [v]) bound (length vs) = Inr bound' \<and> list_all2 mirror vs bound'"
      if mi: "list_all2 mirror (vs @ [v]) bound" for vs v bound
      using mi by (auto simp: NetCreateDefaultArrayListContainerBinding_def ArrayList_erase_def list_all2_append1
          list_all2_Cons1 dest: list_all2_lengthD)
    show "\<exists>bound'. nlUpdate ?N vs bound = Inr bound' \<and> list_all2 mirror vs bound'"
      if "list_all2 mirror vs bound" for vs bound
      using assms(4) [OF that] by (simp add: NetCreateDefaultArrayListContainerBinding_def)
  qed
qed

interpretation vector_of_numbers: list_binding "NetBindingCopier (=) (\<lambda>dst src. src) (NetCreateDefaultBinding (Some convert))"
    "\<lambda>_. True" "\<lambda>v c. c = convert v" 100
    "NetCreateDefaultArrayListContainerBinding fresh NetBindingIgnoreUpdate (NetCreateDefaultBinding (Some convert))
       (NetBindingCopier (=) (\<lambda>dst src. src) (NetCreateDefaultBinding (Some convert)))"
    "list_all2 (\<lambda>v c. c = convert v)" for fresh convert
  by (rule vector_binding)
    (simp_all add: refl_ok_def NetCreateDefaultBinding_def NetDefaultBindingCopy_def NetBindingIgnoreUpdate_def)

section \<open>Structs with bound members\<close>

text \<open>
  \<open>(p, mb, mirror)\<close>: the binding \<open>mb\<close> of the member \<open>p\<close> answers for that member only, keeps its part of the bound object
  a \<open>mirror\<close> of the member, and leaves the parts of the other bindings alone.
\<close>

type_synonym ('v, 'b) bound_member = "nat \<times> ('v, 'b) member_binding \<times> ('v \<Rightarrow> 'b \<Rightarrow> bool)"

definition member_binds :: "(nat \<Rightarrow> 'v \<Rightarrow> bool) \<Rightarrow> ('v, 'b) bound_member list \<Rightarrow> ('v, 'b) bound_member \<Rightarrow> bool" where
  "member_binds fine ms = (\<lambda>(p, mb, mirror).
     (\<forall>src dst bound i. i \<noteq> p \<longrightarrow> mb src dst bound i False = Inr ((False, dst, bound), False))
     \<and> (\<forall>src dst bound. fine p src \<longrightarrow> fine p dst \<longrightarrow> mirror dst bound \<longrightarrow>
          (\<exists>bound'. mb src dst bound p False = Inr ((src \<noteq> dst, src, bound'), True) \<and> mirror src bound'
             \<and> (src = dst \<longrightarrow> bound' = bound)
             \<and> (\<forall>(q, mb', mirror')\<in>set ms. q \<noteq> p \<longrightarrow> (\<forall>v. mirror' v bound \<longrightarrow> mirror' v bound')))))"

lemma member_binds_own:
  assumes "member_binds fine ms (p, mb, mirror)" "fine p src" "fine p dst" "mirror dst bound"
  shows "\<exists>bound'. mb src dst bound p False = Inr ((src \<noteq> dst, src, bound'), True) \<and> mirror src bound'
    \<and> (src = dst \<longrightarrow> bound' = bound)
    \<and> (\<forall>(q, mb', mirror')\<in>set ms. q \<noteq> p \<longrightarrow> (\<forall>v. mirror' v bound \<longrightarrow> mirror' v bound'))"
  using assms unfolding member_binds_def prod.case by blast

definition struct_mirrors :: "('v, 'b) bound_member list \<Rightarrow> 'v list \<Rightarrow> 'b \<Rightarrow> bool" where
  "struct_mirrors ms vs bound \<longleftrightarrow> (\<forall>(p, mb, mirror)\<in>set ms. mirror (vs ! p) bound)"

text \<open>A member binding through a pointer to a member of the bound object.\<close>

lemma member_binding_binds:
  assumes "binding copier (fine p) mirror"
    and "\<And>bound c. get (put c bound) = c" "\<And>bound. put (get bound) bound = bound"
    and "\<And>q mb' mirror' v c bound. (q, mb', mirror') \<in> set ms \<Longrightarrow> q \<noteq> p \<Longrightarrow> mirror' v bound \<Longrightarrow> mirror' v (put c bound)"
  shows "member_binds fine ms (p, NetCreateMemberBinding p get put copier, \<lambda>v bound. mirror v (get bound))"
  unfolding member_binds_def prod.case
proof (intro conjI allI impI)
  fix src dst bound and i :: nat assume "i \<noteq> p"
  then show "NetCreateMemberBinding p get put copier src dst bound i False = Inr ((False, dst, bound), False)"
    using assms(3) by (simp add: NetCreateMemberBinding_def NetMatchMemberUpdate_def)
next
  fix src dst bound assume f: "fine p src" "fine p dst" "mirror dst (get bound)"
  obtain c where c: "copier src dst (get bound) = Inr (src \<noteq> dst, src, c)" "mirror src c" "src = dst \<longrightarrow> c = get bound"
    using binding.copies [OF assms(1) f] by blast
  then have "NetCreateMemberBinding p get put copier src dst bound p False = Inr ((src \<noteq> dst, src, put c bound), True)"
    by (simp add: NetCreateMemberBinding_def NetMatchMemberUpdate_def)
  then show "\<exists>bound'. NetCreateMemberBinding p get put copier src dst bound p False = Inr ((src \<noteq> dst, src, bound'), True)
      \<and> mirror src (get bound') \<and> (src = dst \<longrightarrow> bound' = bound)
      \<and> (\<forall>(q, mb', mirror')\<in>set ms. q \<noteq> p \<longrightarrow> (\<forall>v. mirror' v bound \<longrightarrow> mirror' v bound'))"
    using c(2,3) assms(2,3) assms(4) by auto
qed

text \<open>The first binding that answers for the member is the only one that is run.\<close>

lemma struct_list_copies:
  assumes "\<And>dst src. CompareAndCopy dst src = (src \<noteq> dst, src)"
  shows "(\<And>m. m \<in> set ms' \<Longrightarrow> member_binds fine ms m) \<Longrightarrow> set ms' \<subseteq> set ms \<Longrightarrow> distinct (map fst ms') \<Longrightarrow>
    fine i src \<Longrightarrow> fine i dst \<Longrightarrow> (\<And>mb mirror. (i, mb, mirror) \<in> set ms' \<Longrightarrow> mirror dst bound) \<Longrightarrow>
    \<exists>bound'. NetCreateStructBindingList CompareAndCopy (map (\<lambda>(p, mb, mirror). mb) ms') src dst bound i
        = Inr (src \<noteq> dst, src, bound') \<and> (src = dst \<longrightarrow> bound' = bound)
      \<and> (\<forall>(p, mb, mirror)\<in>set ms'. p = i \<longrightarrow> mirror src bound')
      \<and> (\<forall>(q, mb', mirror')\<in>set ms. q \<noteq> i \<longrightarrow> (\<forall>v. mirror' v bound \<longrightarrow> mirror' v bound'))"
proof (induction ms' arbitrary: bound)
  case Nil
  then show ?case using assms by auto
next
  case (Cons m ms')
  obtain p mb mirror where m: "m = (p, mb, mirror)" by (cases m) auto
  have b: "member_binds fine ms (p, mb, mirror)" using Cons.prems(1) m by simp
  show ?case
  proof (cases "p = i")
    case True
    have "mirror dst bound" using Cons.prems(6) [of mb mirror] m True by simp
    then obtain bound' where "mb src dst bound i False = Inr ((src \<noteq> dst, src, bound'), True)" "mirror src bound'"
        "src = dst \<longrightarrow> bound' = bound"
        "\<forall>(q, mb', mirror')\<in>set ms. q \<noteq> i \<longrightarrow> (\<forall>v. mirror' v bound \<longrightarrow> mirror' v bound')"
      using member_binds_own [OF b] Cons.prems(4,5) True by blast
    moreover have "(i, mb', mirror') \<notin> set ms'" for mb' mirror'
      using Cons.prems(3) m True by (force simp: image_iff)
    ultimately show ?thesis using m True by auto
  next
    case False
    have n: "mb src dst bound i False = Inr ((False, dst, bound), False)" using b False unfolding member_binds_def by simp
    have "\<exists>bound'. NetCreateStructBindingList CompareAndCopy (map (\<lambda>(p, mb, mirror). mb) ms') src dst bound i
        = Inr (src \<noteq> dst, src, bound') \<and> (src = dst \<longrightarrow> bound' = bound)
      \<and> (\<forall>(p, mb, mirror)\<in>set ms'. p = i \<longrightarrow> mirror src bound')
      \<and> (\<forall>(q, mb', mirror')\<in>set ms. q \<noteq> i \<longrightarrow> (\<forall>v. mirror' v bound \<longrightarrow> mirror' v bound'))"
    proof (rule Cons.IH)
      show "mirror' dst bound" if "(i, mb', mirror') \<in> set ms'" for mb' mirror'
        by (rule Cons.prems(6) [of mb']) (use that in simp)
    qed (use Cons.prems in auto)
    then show ?thesis using n m False by auto
  qed
qed

definition struct_binds :: "(nat \<Rightarrow> 'v \<Rightarrow> bool) \<Rightarrow> ('v, 'b) bound_member list \<Rightarrow> bool" where
  "struct_binds fine ms \<longleftrightarrow> distinct (map fst ms) \<and> (\<forall>m\<in>set ms. member_binds fine ms m)"

lemma visit_members_copies:
  assumes C: "\<And>dst src. CompareAndCopy dst src = (src \<noteq> dst, src)" and S: "struct_binds fine ms"
    and p: "\<forall>(p, mb, mirror)\<in>set ms. p < n"
    and f: "length src = n" "\<And>i. i < n \<Longrightarrow> fine i (src ! i)"
  shows "length dst = n \<Longrightarrow> (\<And>i. i < n \<Longrightarrow> fine i (dst ! i)) \<Longrightarrow> struct_mirrors ms dst bound \<Longrightarrow> k \<le> n \<Longrightarrow>
    \<exists>bound'. visit_members (NetCreateStructBindingList CompareAndCopy (map (\<lambda>(p, mb, mirror). mb) ms)) [k..<n] changed src dst bound
        = Inr (changed \<or> drop k src \<noteq> drop k dst, take k dst @ drop k src, bound')
      \<and> struct_mirrors ms (take k dst @ drop k src) bound' \<and> (drop k src = drop k dst \<longrightarrow> bound' = bound)"
proof (induction "n - k" arbitrary: k changed dst bound)
  case 0
  then show ?case using f(1) by simp
next
  case (Suc m)
  let ?b = "NetCreateStructBindingList CompareAndCopy (map (\<lambda>(p, mb, mirror). mb) ms)"
  have k: "k < n" using Suc.hyps(2) by linarith
  have mi: "mirror (dst ! q) bound" if "(q, mb, mirror) \<in> set ms" for q mb mirror
    using Suc.prems(3) that by (auto simp: struct_mirrors_def)
  obtain b1 where b: "?b (src ! k) (dst ! k) bound k = Inr (src ! k \<noteq> dst ! k, src ! k, b1)"
      "src ! k = dst ! k \<longrightarrow> b1 = bound" "\<forall>(p, mb, mirror)\<in>set ms. p = k \<longrightarrow> mirror (src ! k) b1"
      "\<forall>(q, mb', mirror')\<in>set ms. q \<noteq> k \<longrightarrow> (\<forall>v. mirror' v bound \<longrightarrow> mirror' v b1)"
    using struct_list_copies [OF C, of ms fine ms k "src ! k" "dst ! k" bound] S f Suc.prems(2) k mi
    unfolding struct_binds_def by blast
  let ?dst = "dst[k := src ! k]"
  have "struct_mirrors ms ?dst b1"
    unfolding struct_mirrors_def
  proof (clarify)
    fix q mb mirror assume q: "(q, mb, mirror) \<in> set ms"
    show "mirror (?dst ! q) b1"
      using q b(3,4) mi [OF q] k Suc.prems(1) by (cases "q = k") (auto simp: nth_list_update)
  qed
  moreover have "fine i (?dst ! i)" if "i < n" for i using that f Suc.prems(1,2) by (cases "i = k") simp_all
  ultimately have IH: "\<exists>bound'. visit_members ?b [Suc k..<n] (changed \<or> src ! k \<noteq> dst ! k) src ?dst b1
        = Inr ((changed \<or> src ! k \<noteq> dst ! k) \<or> drop (Suc k) src \<noteq> drop (Suc k) ?dst, take (Suc k) ?dst @ drop (Suc k) src, bound')
      \<and> struct_mirrors ms (take (Suc k) ?dst @ drop (Suc k) src) bound' \<and> (drop (Suc k) src = drop (Suc k) ?dst \<longrightarrow> bound' = b1)"
    by (intro Suc.hyps(1)) (use Suc.hyps(2) Suc.prems k in auto)
  have t: "take (Suc k) ?dst = take k dst @ [src ! k]" using k Suc.prems(1) by (simp add: take_Suc_conv_app_nth)
  have e: "drop k xs = xs ! k # drop (Suc k) xs" if "length xs = n" for xs :: "'a list"
    using k that by (simp add: Cons_nth_drop_Suc)
  have d: "drop (Suc k) ?dst = drop (Suc k) dst" by simp
  show ?case
    using IH b(1,2) k unfolding t d e [OF f(1)] e [OF Suc.prems(1)] by (auto simp: upt_conv_Cons)
qed

text \<open>So the struct's binding is a binding again, for a member of another struct or an element of a list.\<close>

lemma struct_is_binding:
  assumes "\<And>dst src. CompareAndCopy dst src = (src \<noteq> dst, src)"
    and "struct_binds fine ms" "\<forall>(p, mb, mirror)\<in>set ms. p < n"
  shows "binding (NetCreateStructBinding (NetCreateStructBindingList CompareAndCopy (map (\<lambda>(p, mb, mirror). mb) ms)))
    (\<lambda>vs. length vs = n \<and> (\<forall>i<n. fine i (vs ! i))) (struct_mirrors ms)"
proof
  fix src dst bound
  assume f: "length src = n \<and> (\<forall>i<n. fine i (src ! i))" "length dst = n \<and> (\<forall>i<n. fine i (dst ! i))" "struct_mirrors ms dst bound"
  then show "\<exists>bound'. NetCreateStructBinding (NetCreateStructBindingList CompareAndCopy (map (\<lambda>(p, mb, mirror). mb) ms)) src dst bound
      = Inr (src \<noteq> dst, src, bound') \<and> struct_mirrors ms src bound' \<and> (src = dst \<longrightarrow> bound' = bound)"
    using visit_members_copies [OF assms, of src dst bound 0 False] by (simp add: NetCreateStructBinding_def)
qed

text \<open>Arrays of different lengths are copied as far as both reach.\<close>

lemma array_copy_loop_spec:
  "length (array_copy_loop convert is m1 m2) = length m2"
  "j < length m2 \<Longrightarrow> array_copy_loop convert is m1 m2 ! j = (if j \<in> set is then convert (m1 ! j) else m2 ! j)"
  by (induction "is" arbitrary: m2) (auto simp: nth_list_update)

lemma NetDefaultBindingCopy_array_spec:
  "NetDefaultBindingCopy_array convert m1 m2 = map convert (take (length m2) m1) @ drop (length m1) m2"
  by (rule nth_equalityI) (auto simp: NetDefaultBindingCopy_array_def array_copy_loop_spec nth_append min_def)

section \<open>Properties\<close>

text \<open>C30: copying a received struct over the old one, with a binding for some of its members. Each member binding
  copies a member of any kind, a number, a list or a struct again, to its own part of the bound object. Then the old
  struct is the new one, the return value tells whether they differed, the bound object mirrors the new struct if it
  mirrored the old one, and if nothing changed it is not touched.\<close>

theorem struct_binding_copies:
  assumes "\<And>dst src. CompareAndCopy dst src = (src \<noteq> dst, src)"
    and "struct_binds fine ms" "\<forall>(p, mb, mirror)\<in>set ms. p < n"
    and "length src = n" "\<And>i. i < n \<Longrightarrow> fine i (src ! i)" "length dst = n" "\<And>i. i < n \<Longrightarrow> fine i (dst ! i)"
    and "struct_mirrors ms dst bound"
  shows "\<exists>bound'. NetCreateStructBinding (NetCreateStructBindingList CompareAndCopy (map (\<lambda>(p, mb, mirror). mb) ms)) src dst bound
      = Inr (src \<noteq> dst, src, bound')
    \<and> struct_mirrors ms src bound' \<and> (src = dst \<longrightarrow> bound' = bound)"
  using binding.copies [OF struct_is_binding [OF assms(1-3)]] assms(4-8) by simp

text \<open>A struct of three lists: the first is bound to a vector of their halves, the second to its length.\<close>

abbreviation numbers_bindings :: "(nat, nat list, nat) NetListBindings" where
  "numbers_bindings \<equiv> NetCreateDefaultArrayListContainerBinding 0 NetBindingIgnoreUpdate
     (NetCreateDefaultBinding (Some (\<lambda>n. n div 2)))
     (NetBindingCopier (=) (\<lambda>dst src. src) (NetCreateDefaultBinding (Some (\<lambda>n. n div 2))))"

abbreviation some_members :: "(nat list, nat list \<times> nat) bound_member list" where
  "some_members \<equiv>
     [(0, NetCreateMemberBinding 0 fst (\<lambda>c (_, d). (c, d)) (NetBindingVectorCopier 100 numbers_bindings),
       \<lambda>v bound. list_all2 (\<lambda>v c. c = v div 2) v (fst bound)),
      (1, NetCreateMemberBinding 1 snd (\<lambda>d (c, _). (c, d))
         (NetBindingCopier (=) (\<lambda>dst src. src) (NetCreateDefaultBinding (Some length))),
       \<lambda>v bound. snd bound = length v)]"

theorem struct_binding_copies_witness:
  "\<exists>bound'. NetCreateStructBinding
      (NetCreateStructBindingList (\<lambda>dst src. (src \<noteq> dst, src)) (map (\<lambda>(p, mb, mirror). mb) some_members))
      [[8, 4, 6], [9], [1]] [[8, 2], [5, 5], [1]] ([4, 1], 2) = Inr (True, [[8, 4, 6], [9], [1]], bound')
    \<and> struct_mirrors some_members [[8, 4, 6], [9], [1]] bound'"
proof -
  let ?fine = "\<lambda>p v. p = (0 :: nat) \<longrightarrow> list_all (\<lambda>_. True) v \<and> length v \<le> 100"
  have v: "binding (NetBindingVectorCopier 100 numbers_bindings) (?fine 0) (list_all2 (\<lambda>v c. c = v div 2))"
    using vector_of_numbers.whole.binding_axioms [of 0 "\<lambda>n. n div 2"] by simp
  have l: "binding (NetBindingCopier (=) (\<lambda>dst src. src) (NetCreateDefaultBinding (Some length))) (?fine 1)
      (\<lambda>v c. c = length v)"
    using default_binding.binding_axioms [of length] by simp
  have "member_binds ?fine some_members (some_members ! 0)"
    using member_binding_binds [where p = 0 and fine = ?fine and get = fst and put = "\<lambda>c (_, d). (c, d)" and ms = some_members
        and copier = "NetBindingVectorCopier 100 numbers_bindings" and mirror = "list_all2 (\<lambda>v c. c = v div 2)"] v by auto
  moreover have "member_binds ?fine some_members (some_members ! 1)"
    using member_binding_binds [where p = 1 and fine = ?fine and get = snd and put = "\<lambda>d (c, _). (c, d)" and ms = some_members
        and mirror = "\<lambda>v c. c = length v"
        and copier = "NetBindingCopier (=) (\<lambda>dst src. src) (NetCreateDefaultBinding (Some length))"] l by auto
  ultimately have b: "struct_binds ?fine some_members" by (simp add: struct_binds_def)
  show ?thesis
    using struct_binding_copies [OF _ b, of "\<lambda>dst src. (src \<noteq> dst, src)" 3 "[[8, 4, 6], [9], [1]]" "[[8, 2], [5, 5], [1]]" "([4, 1], 2)"]
    by (auto simp: struct_mirrors_def)
qed

end
