(* ===== verification/TypeRegister.thy ===== *)
theory TypeRegister
  imports TypeDatabase
begin

text \<open>
  \<^verbatim>\<open>NetRegisterAllTypes\<close> (\<^verbatim>\<open>NetReflectionTypeDatabaseRegister.h\<close>): the registration of all the types of a source
  file. A type of the file is its reflection with the hash of its base class, as in \<open>NetCheckChildType\<close>; \<open>void_hash\<close>
  stands for the base of a type that has none. \<open>dbs\<close> gives the database of a type by its hash, \<^verbatim>\<open>None\<close> for a type
  without the member \<^verbatim>\<open>__s_TypeDatabase\<close>.
\<close>

type_synonym 'v type_dbs = "u64 \<Rightarrow> 'v NetTypeDatabase option"

fun NetCheckType ::
    "u64 \<Rightarrow> ('v NetTypeInfo \<times> u64) list \<Rightarrow> ('v NetTypeInfo \<times> u64) list \<Rightarrow> 'v type_dbs \<Rightarrow> 'v type_dbs result" where
  "NetCheckType void_hash file_types [] dbs = Inr dbs"
| "NetCheckType void_hash file_types ((R, my_base) # types) dbs =
     ebind (case dbs (tiTypeIdHash R) of
              None \<Rightarrow> Inr dbs
            | Some db \<Rightarrow>
                if my_base = void_hash
                then ebind (NetRegisterBaseType file_types R db) (\<lambda>db. Inr (dbs(tiTypeIdHash R \<mapsto> db)))
                else Inr dbs)
       (NetCheckType void_hash file_types types)"

definition NetRegisterAllTypes :: "u64 \<Rightarrow> ('v NetTypeInfo \<times> u64) list \<Rightarrow> 'v type_dbs \<Rightarrow> 'v type_dbs result" where
  "NetRegisterAllTypes void_hash file_types = NetCheckType void_hash file_types (rev file_types)"

definition NET_BASE_TYPE :: "'v NetTypeDatabase" where
  "NET_BASE_TYPE = NetTypeDatabase_init []"

definition NET_SET_DEFAULT_TYPE :: "(string \<Rightarrow> u32) \<Rightarrow> string \<Rightarrow> 'v NetTypeDatabase \<Rightarrow> 'v NetTypeDatabase" where
  "NET_SET_DEFAULT_TYPE crc32 DefaultType = SetDefaultTypeNameHash (ucast (crc32 DefaultType))"

section \<open>What is registered\<close>

abbreviation as_child :: "u64 \<Rightarrow> 'v NetTypeInfo \<Rightarrow> 'v NetTypeInfo" where
  "as_child base_hash R \<equiv> (NetInitializeTypeRegistration R)\<lparr>tiParentIdHash := base_hash\<rparr>"

text \<open>The children of a class in a file: the classes derived from it directly.\<close>

definition children :: "u64 \<Rightarrow> ('v NetTypeInfo \<times> u64) list \<Rightarrow> 'v NetTypeInfo list" where
  "children base_hash file_types = map (\<lambda>(R, b). as_child base_hash R) (filter (\<lambda>(R, b). b = base_hash) file_types)"

lemma AddClass_spec:
  assumes "\<not> dbInitialized db"
  shows "\<exists>db'. AddClass info db = Inr db' \<and> dbTypeInfoList db' = info # dbTypeInfoList db \<and> \<not> dbInitialized db'"
  using assms by (simp add: AddClass_def Let_def)

lemma NetCheckChildType_spec:
  "\<not> dbInitialized db \<Longrightarrow> \<exists>db'. NetCheckChildType types base_hash db = Inr db' \<and> \<not> dbInitialized db'
    \<and> dbTypeInfoList db' = rev (children base_hash types) @ dbTypeInfoList db"
proof (induction types base_hash db rule: NetCheckChildType.induct)
  case (1 base_hash db)
  then show ?case by (simp add: children_def)
next
  case (2 R my_base types base_hash db)
  show ?case
  proof (cases "my_base = base_hash")
    case True
    obtain db1 where 1: "NetRegisterChildType R base_hash db = Inr db1" "\<not> dbInitialized db1"
        "dbTypeInfoList db1 = as_child base_hash R # dbTypeInfoList db"
      using AddClass_spec [OF 2(2), of "as_child base_hash R"] by (auto simp: NetRegisterChildType_def)
    have "\<exists>db'. NetCheckChildType types base_hash db1 = Inr db' \<and> \<not> dbInitialized db'
        \<and> dbTypeInfoList db' = rev (children base_hash types) @ dbTypeInfoList db1"
      by (rule 2(1) [of db1]) (use True 1 in auto)
    then show ?thesis using True 1 by (auto simp: children_def)
  next
    case False
    then show ?thesis using 2(1) [of db] 2(2) by (auto simp: children_def)
  qed
qed

lemma NetRegisterBaseType_spec:
  assumes "\<not> dbInitialized db"
  shows "\<exists>db'. NetRegisterBaseType file_types R db = Inr db' \<and> \<not> dbInitialized db'
    \<and> dbTypeInfoList db' = children (tiTypeIdHash R) file_types @ NetInitializeTypeRegistration R # dbTypeInfoList db"
proof -
  obtain db1 where 1: "AddClass (NetInitializeTypeRegistration R) db = Inr db1" "\<not> dbInitialized db1"
      "dbTypeInfoList db1 = NetInitializeTypeRegistration R # dbTypeInfoList db"
    using AddClass_spec [OF assms] by blast
  have r: "rev (children b (rev file_types)) = children b file_types" for b
    by (simp add: children_def rev_map rev_filter [symmetric])
  show ?thesis
    using 1 NetCheckChildType_spec [OF 1(2), of "rev file_types" "tiTypeIdHash R"] by (auto simp: NetRegisterBaseType_def r)
qed

text \<open>No database has been used yet.\<close>

definition unused_dbs :: "'v type_dbs \<Rightarrow> bool" where
  "unused_dbs dbs \<longleftrightarrow> (\<forall>h db. dbs h = Some db \<longrightarrow> \<not> dbInitialized db)"

lemma NetCheckType_spec:
  assumes "distinct (map (\<lambda>(R, b). tiTypeIdHash R) types)" "unused_dbs dbs"
  shows "\<exists>dbs'. NetCheckType void_hash file_types types dbs = Inr dbs'
    \<and> (\<forall>R db. (R, void_hash) \<in> set types \<longrightarrow> dbs (tiTypeIdHash R) = Some db \<longrightarrow>
        (\<exists>db'. dbs' (tiTypeIdHash R) = Some db' \<and> \<not> dbInitialized db'
           \<and> dbTypeInfoList db' = children (tiTypeIdHash R) file_types @ NetInitializeTypeRegistration R # dbTypeInfoList db))
    \<and> (\<forall>h. (\<forall>R. (R, void_hash) \<in> set types \<longrightarrow> tiTypeIdHash R \<noteq> h) \<longrightarrow> dbs' h = dbs h)"
  using assms
proof (induction types arbitrary: dbs)
  case Nil
  then show ?case by simp
next
  case (Cons t types)
  obtain R b where t: "t = (R, b)" by (cases t)
  let ?h = "tiTypeIdHash R"
  have fresh: "tiTypeIdHash R' \<noteq> ?h" if "(R', b') \<in> set types" for R' b'
    using Cons.prems(1) that t by force
  have d: "distinct (map (\<lambda>(R, b). tiTypeIdHash R) types)" using Cons.prems(1) by simp
  show ?case
  proof (cases "b = void_hash \<and> dbs ?h \<noteq> None")
    case False
    then have s: "NetCheckType void_hash file_types (t # types) dbs = NetCheckType void_hash file_types types dbs"
      by (auto simp: t split: option.splits)
    obtain dbs' where n: "NetCheckType void_hash file_types types dbs = Inr dbs'"
      and new: "\<And>R' db. (R', void_hash) \<in> set types \<Longrightarrow> dbs (tiTypeIdHash R') = Some db \<Longrightarrow>
        (\<exists>db'. dbs' (tiTypeIdHash R') = Some db' \<and> \<not> dbInitialized db'
           \<and> dbTypeInfoList db' = children (tiTypeIdHash R') file_types @ NetInitializeTypeRegistration R' # dbTypeInfoList db)"
      and old: "\<And>h. (\<And>R'. (R', void_hash) \<in> set types \<Longrightarrow> tiTypeIdHash R' \<noteq> h) \<Longrightarrow> dbs' h = dbs h"
      using Cons.IH [of dbs, OF d Cons.prems(2)] by blast
    have listed: "(R', void_hash) \<in> set types" if "(R', void_hash) \<in> set (t # types)" "dbs (tiTypeIdHash R') = Some x" for R' x
      using that False t by auto
    have all: "\<exists>db'. dbs' (tiTypeIdHash R') = Some db' \<and> \<not> dbInitialized db'
           \<and> dbTypeInfoList db' = children (tiTypeIdHash R') file_types @ NetInitializeTypeRegistration R' # dbTypeInfoList x"
      if m: "(R', void_hash) \<in> set (t # types)" and x: "dbs (tiTypeIdHash R') = Some x" for R' x
      by (rule new [OF listed [OF m x] x])
    have "dbs' h = dbs h" if "\<forall>R'. (R', void_hash) \<in> set (t # types) \<longrightarrow> tiTypeIdHash R' \<noteq> h" for h
      using old [of h] that by auto
    then show ?thesis using n all unfolding s by blast
  next
    case True
    then obtain db where db: "dbs ?h = Some db" and b: "b = void_hash" by auto
    obtain db' where r: "NetRegisterBaseType file_types R db = Inr db'" "\<not> dbInitialized db'"
        "dbTypeInfoList db' = children ?h file_types @ NetInitializeTypeRegistration R # dbTypeInfoList db"
      using NetRegisterBaseType_spec [of db file_types R] Cons.prems(2) db unfolding unused_dbs_def by blast
    have i: "unused_dbs (dbs(?h \<mapsto> db'))" using Cons.prems(2) r(2) by (simp add: unused_dbs_def)
    have s: "NetCheckType void_hash file_types (t # types) dbs = NetCheckType void_hash file_types types (dbs(?h \<mapsto> db'))"
      using db b r(1) by (simp add: t)
    obtain dbs' where n: "NetCheckType void_hash file_types types (dbs(?h \<mapsto> db')) = Inr dbs'"
      and new: "\<And>R' db. (R', void_hash) \<in> set types \<Longrightarrow> (dbs(?h \<mapsto> db')) (tiTypeIdHash R') = Some db \<Longrightarrow>
        (\<exists>db'. dbs' (tiTypeIdHash R') = Some db' \<and> \<not> dbInitialized db'
           \<and> dbTypeInfoList db' = children (tiTypeIdHash R') file_types @ NetInitializeTypeRegistration R' # dbTypeInfoList db)"
      and old: "\<And>h. (\<And>R'. (R', void_hash) \<in> set types \<Longrightarrow> tiTypeIdHash R' \<noteq> h) \<Longrightarrow> dbs' h = (dbs(?h \<mapsto> db')) h"
      using Cons.IH [of "dbs(?h \<mapsto> db')", OF d i] by blast
    have own: "dbs' ?h = Some db'" using old [of ?h] fresh by auto
    have others: "\<exists>db'. dbs' (tiTypeIdHash R') = Some db' \<and> \<not> dbInitialized db'
           \<and> dbTypeInfoList db' = children (tiTypeIdHash R') file_types @ NetInitializeTypeRegistration R' # dbTypeInfoList x"
      if m: "(R', void_hash) \<in> set (t # types)" and x: "dbs (tiTypeIdHash R') = Some x" for R' x
    proof (cases "R' = R")
      case True
      then show ?thesis using own r db x by simp
    next
      case False
      then have "(R', void_hash) \<in> set types" using m t by auto
      then show ?thesis using new fresh x by simp
    qed
    have "dbs' h = dbs h" if "\<forall>R'. (R', void_hash) \<in> set (t # types) \<longrightarrow> tiTypeIdHash R' \<noteq> h" for h
      using old [of h] that t b by auto
    then show ?thesis using n others unfolding s by blast
  qed
qed

text \<open>Asking for the id of a class that is in no list throws.\<close>

lemma unregistered_class:
  assumes "\<not> dbInitialized db" "\<forall>info\<in>set (dbTypeInfoList db). tiTypeIdHash info \<noteq> h"
  shows "GetClassId h db = Inl OutOfRange"
proof -
  have "find_hash h 0 (class_table (dbTypeInfoList db)) \<noteq> Some k" for k
  proof
    assume "find_hash h 0 (class_table (dbTypeInfoList db)) = Some k"
    then obtain j where j: "j < length (registered (dbTypeInfoList db))" "tiTypeIdHash (class_table (dbTypeInfoList db) ! j) = h"
      by (auto simp: find_hash_Some)
    then have "registered (dbTypeInfoList db) ! j \<in> set (dbTypeInfoList db)"
      using nth_mem [OF j(1)] by (auto simp: registered_def)
    then show False using assms(2) j by (auto simp: class_table_nth finalize_info_def Let_def split: if_splits option.splits)
  qed
  then have "find_hash h 0 (class_table (dbTypeInfoList db)) = None" by (meson not_Some_eq)
  then show ?thesis using assms(1) by (simp add: GetClassId_def finalized_def FinalizeList_types)
qed

section \<open>Properties\<close>

text \<open>C39: registering the types of a file never throws before the databases are used. The database of each base class gets
  the class itself and the classes of the file that are derived from it directly; no other database changes. So
  classes deeper in a hierarchy are in no database.\<close>

theorem register_all_types:
  assumes "distinct (map (\<lambda>(R, b). tiTypeIdHash R) file_types)" "unused_dbs dbs"
  shows "\<exists>dbs'. NetRegisterAllTypes void_hash file_types dbs = Inr dbs'
    \<and> (\<forall>R db. (R, void_hash) \<in> set file_types \<longrightarrow> dbs (tiTypeIdHash R) = Some db \<longrightarrow>
        (\<exists>db'. dbs' (tiTypeIdHash R) = Some db' \<and> \<not> dbInitialized db'
           \<and> dbTypeInfoList db' = children (tiTypeIdHash R) file_types @ NetInitializeTypeRegistration R # dbTypeInfoList db))
    \<and> (\<forall>h. (\<forall>R. (R, void_hash) \<in> set file_types \<longrightarrow> tiTypeIdHash R \<noteq> h) \<longrightarrow> dbs' h = dbs h)"
  using NetCheckType_spec [of "rev file_types" dbs void_hash file_types] assms
  by (simp add: NetRegisterAllTypes_def rev_map [symmetric])

text \<open>A square is a polygon and a polygon is a shape: the square is never registered.\<close>

abbreviation shapes_file :: "(bool NetTypeInfo \<times> u64) list" where
  "shapes_file \<equiv> [(class_entry ''Shape'' 0 3 0, 1), (class_entry ''Polygon'' 0 5 0, 3), (class_entry ''Square'' 0 7 0, 5)]"

theorem register_all_types_witness:
  "\<exists>dbs' db'. NetRegisterAllTypes 1 shapes_file [3 \<mapsto> NET_BASE_TYPE] = Inr dbs' \<and> dbs' 3 = Some db'
    \<and> map tiClassName (dbTypeInfoList db') = [''Polygon'', ''Shape'']"
proof -
  have d: "distinct (map (\<lambda>(R, b). tiTypeIdHash R) shapes_file)" by (simp add: class_entry_def)
  have i: "unused_dbs [3 \<mapsto> NET_BASE_TYPE :: bool NetTypeDatabase]"
    by (simp add: unused_dbs_def NET_BASE_TYPE_def NetTypeDatabase_init_def)
  have s: "(class_entry ''Shape'' 0 3 0, 1) \<in> set shapes_file" "tiTypeIdHash (class_entry ''Shape'' 0 3 0) = 3"
    by (simp_all add: class_entry_def)
  obtain dbs' where n: "NetRegisterAllTypes 1 shapes_file [3 \<mapsto> NET_BASE_TYPE] = Inr dbs'"
    and r: "\<And>R db. (R, 1) \<in> set shapes_file \<Longrightarrow> [3 \<mapsto> NET_BASE_TYPE] (tiTypeIdHash R) = Some db \<Longrightarrow>
        (\<exists>db'. dbs' (tiTypeIdHash R) = Some db' \<and> \<not> dbInitialized db'
           \<and> dbTypeInfoList db' = children (tiTypeIdHash R) shapes_file @ NetInitializeTypeRegistration R # dbTypeInfoList db)"
    using register_all_types [OF d i, where void_hash = 1] by blast
  obtain db' where "dbs' 3 = Some db'"
      "dbTypeInfoList db' = children 3 shapes_file @ [NetInitializeTypeRegistration (class_entry ''Shape'' 0 3 0)]"
    using r [OF s(1)] unfolding s(2) by (auto simp: NET_BASE_TYPE_def NetTypeDatabase_init_def)
  then show ?thesis
    using n by (auto simp: children_def class_entry_def NetInitializeTypeRegistration_def)
qed

end
