(* ===== verification/Spec2Isabelle.thy ===== *)
theory Spec2Isabelle
  imports Values Numbers ArrayList NetMap SparseDelta DeltaLink MessagePipes Replay FixedTrig BitBuffer NetRandom
    PoolAllocator Dependent Lerp RobustLists Network Bindings TypeRegister
begin

text \<open>
  A verification library of StormNet, a C++ library that replicates reflected data over a network.

  \<^bold>\<open>The program.\<close> A value is written to a bit writer by overloaded serializers, in full or as the
  difference to an older value, and read from a bit reader by their deserializers. Pipes turn states
  and messages into packets: a sender asks a transmitter for a writer with the message's header in it,
  serializes into it and sends it; on the other side a protocol reads the header and hands the reader
  to the receiver of the channel, which deserializes and calls a callback of the application. The pipes
  of differences keep old states on both sides and, on unreliable channels, acknowledge them.

  \<^bold>\<open>Conventions.\<close> A \<^verbatim>\<open>std::size_t\<close> or \<^verbatim>\<open>uint64_t\<close> that can wrap is a 64-bit word, other integers are
  \<open>int\<close> with the C++ conversions written out, lengths and indices that cannot wrap are \<open>nat\<close>. A function
  that can throw or do something undefined returns a \<open>result\<close>: \<open>Inl\<close> the exception or \<open>Undefined\<close>,
  \<open>Inr\<close> the value. Debug builds (\<^verbatim>\<open>_DEBUG\<close>) are the argument \<open>dbg\<close>. Overloaded serializers are passed as
  functions, and what a container needs of its elements' serializers is a locale. Objects are values
  and a mutating operation returns the new one; where an operation can be applied to one object twice
  (a self-assignment) that case is a definition of its own. What comes from other libraries is an
  argument: the crc of names, the default values of StormRefl, ENet's functions, the server's slot arrays
  (\<open>saAllocateRaw\<close>, which may have no slot), clocks, the contents of fresh memory, the order of an unordered map, and
  whether \<^verbatim>\<open>malloc\<close> fails: the sparse list then throws (\<open>BadAlloc\<close>), the pool allocator does not check.

  \<^bold>\<open>Theories.\<close>

  \<^item> \<open>StormPrelude\<close>: results, lists, and the lemma collections. \<open>BitUtil\<close> (\<^verbatim>\<open>NetBitUtil.h\<close>): counting
    leading zeros and \<^verbatim>\<open>GetRequiredBits\<close>, the width of all fields.
  \<^item> \<open>BitWriter\<close> (\<^verbatim>\<open>NetBitWriter*\<close>) and \<open>BitReader\<close> (\<^verbatim>\<open>NetBitReader*\<close>): the buffers. The abstract state is
    the list of bits written, \<open>wbits\<close>, or left to read, \<open>rbits\<close>; every operation is shown to append to
    it, overwrite a reservation in it, cut it back, or take from its front. \<open>wrote\<close> and \<open>consumed\<close> are
    the relations all later theories use.
  \<^item> \<open>Codec\<close>: the contracts \<open>value_codec\<close>, \<open>delta_codec\<close> and \<open>element_codec\<close> between serializers.
    \<open>Serialize\<close> (\<^verbatim>\<open>NetSerialize*.h\<close>, \<^verbatim>\<open>NetDeserialize*.h\<close>): plain data, arrays, reflected structs
    as lists of fields. \<open>Values\<close>: strings, pairs and tuples, optionals, owning and static list pointers.
    \<open>Numbers\<close>: ranged numbers and enumerations, with the C++ promotions.
  \<^item> \<open>FixedPoint\<close>, \<open>FixedLaws\<close>, \<open>FixedLUT\<close>, \<open>FixedTrig\<close> (\<^verbatim>\<open>NetReflectionFixedPoint*.h\<close>): fixed-point
    arithmetic with its wide products and quotients, rounding and serializers; ranges and tables of sines,
    cosines and arc tangents, and the bounds of their lookups.
  \<^item> \<open>ArrayList\<close>, \<open>NetMap\<close>: the bounded vector and the map, each with its operations, four serializers
    and interpretations of the contracts.
  \<^item> \<open>SparseList\<close> (operations), \<open>SparseLaws\<close> (the refinement of a finite map from indices to elements,
    and of the iterators), \<open>SparseCodec\<close>, \<open>SparseDelta\<close> (\<^verbatim>\<open>NetReflectionSparseList.h\<close>).
  \<^item> \<open>Transmitter\<close>: the transmitter interface as a record of functions, its memory, null and ENet
    implementations, the locale \<open>transmitter\<close> with an interpretation for each.
  \<^item> \<open>Pipes\<close>: buffers, full states, full states with a number, reliable differences; the locale \<open>pipe\<close>,
    body and delivery of a message. \<open>Protocol\<close>: tuples of pipes, dispatch, the message paths of client and
    server, and the composition sender, transmitter, protocol, receiver, callback for any pipe.
  \<^item> \<open>DeltaPipes\<close>, \<open>DeltaState\<close>, \<open>DeltaLink\<close>: the pipes of differences; the last has the unreliable one as
    a transition system \<open>delta_step\<close> of syncing, losing and receiving messages and acknowledgements. Any state
    can be synced at any time; \<open>careful\<close> are the conditions under which the invariant \<open>link_ok\<close> is kept, and a run
    of the code for each of them shows what happens without it.
  \<^item> \<open>TypeDatabase\<close>, \<open>TypeRegister\<close>, \<open>Polymorphic\<close>, \<open>MessagePipes\<close>: registration and numbering of classes, owned objects of
    any class with their pools, and the pipes and senders of messages of many types. \<open>parent_of\<close> is the derivation
    among all classes registered, and \<open>abstract_between\<close> says where \<^verbatim>\<open>InheritsFrom\<close> differs from it.
  \<^item> \<open>Replay\<close>: recording into a chain of blocks, the file format, the player.
  \<^item> \<open>PoolAllocator\<close> (\<^verbatim>\<open>NetPoolAllocator.h\<close>): blocks and the free list over an explicit memory, with
    the application's allocations as a transition system. \<open>BitBuffer\<close> (\<^verbatim>\<open>NetReflectionBitBuffer.*\<close>): bits
    nested in a message. \<open>NetRandom\<close> (\<^verbatim>\<open>NetRandom.*\<close>): the shared random sequence. \<open>Dependent\<close>
    (\<^verbatim>\<open>NetReflectionDependent.h\<close>): parent objects of writers and readers, and members that look at them.
    \<open>Lerp\<close> (\<^verbatim>\<open>NetLerp.h\<close>): interpolation of structs, lists and numbers, with the locale \<open>lerper\<close>.
  \<^item> \<open>Robust\<close>, \<open>RobustLists\<close>: the receiving side on packets that no serializer wrote; the locale \<open>robust\<close> of
    deserializers that throw or give a well-formed value, with an interpretation for each type.
  \<^item> \<open>Backend\<close> (\<^verbatim>\<open>NetClientBackendEnet.*\<close>, \<^verbatim>\<open>NetServerBackendEnet.*\<close>): the loops over the events of ENet, and
    \<^verbatim>\<open>NetClient\<close> and \<^verbatim>\<open>NetServer\<close> as the interfaces they call. The locales \<open>client_interface\<close> and
    \<open>server_interface\<close> are what the loops rely on, \<open>enet_ok\<close> and \<open>lawful\<close> what they rely on ENet for, \<open>slots_ok\<close> what
    they rely on an array of \<open>max_clients\<close> slots for, and \<open>tied\<close> the invariant between peers, transmitters and
    connection ids. \<open>client_handles\<close> and \<open>server_handles\<close> are the events a call has handled, \<open>client_ends\<close> and
    \<open>server_ends\<close> how it ends: with no event left, or with the exception of a handler. \<open>Network\<close>: a client's sender, ENet, the
    server's loop, the client's protocol there and its receiver composed.
  \<^item> \<open>Bindings\<close> (\<^verbatim>\<open>NetBindings.h\<close>, \<^verbatim>\<open>NetBindingHelpers.h\<close>): copying received values over old ones with
    callbacks to the objects bound to them; the locale \<open>binding\<close>, that lists (\<open>list_binding\<close>) and structs of
    bindings are bindings again.

  \<^bold>\<open>What is shown.\<close> Round trips of every serializer, in full and of differences, for any element type
  that keeps its contract; the refinement of bit buffers, sparse lists and recordings to lists, maps and
  byte strings; bounds and saturation; delivery in order from a sender's call to the receiver's
  callback for every kind of pipe; safety and progress of the unreliable differences under loss;
  independence of class ids and of broadcasts from orders nobody chose; termination of the search for
  base classes; exactness of fixed-point products and quotients, and that sines and cosines stay in
  their tables; that the pool allocator never hands out memory in use; that no packet, whatever its bytes, makes
  these receivers or a client's or server's update do anything undefined, and that the updates end; that bound
  objects stay mirrors of what is received; and the places where the code does not do this, as theorems about what it does.

  \<^bold>\<open>Bounds and termination.\<close> A reader takes at most 63 bits at once, so lengths are below \<open>2 ^ 63\<close>; counts
  of fields and channels are \<^verbatim>\<open>int\<close> and below \<open>2 ^ 31\<close>. All loops are total functions but
  \<^verbatim>\<open>InheritsFrom\<close>, the player's \<^verbatim>\<open>Update\<close>, the loop over a fixed-point range, the loop over the blocks
  of a pool and the backends' loops over events, which may run forever: they are \<open>partial_function (option)\<close>, and the theorems give their
  result as \<open>Some\<close>. No fuel is used.

  \<^bold>\<open>Not bounded.\<close> Three C++ \<^verbatim>\<open>int\<close> counters are unbounded in the model: \<^verbatim>\<open>m_TotalBits\<close> of a bit writer, the
  number of entries of a map's difference (\<^verbatim>\<open>num_wrote\<close>), and \<^verbatim>\<open>m_Allocated\<close> of a pool. They would overflow at
  \<open>2 ^ 31\<close> bits, entries or objects.

  \<^bold>\<open>Not modelled.\<close> ENet itself, the macros over the
  external reflection library, sharing between \<^verbatim>\<open>std::shared_ptr\<close>s, and floating-point
  arithmetic: interpolation takes it as an argument, the conversions of fixed-point numbers from and to
  \<^verbatim>\<open>float\<close> are left out.
\<close>

end
